(* ===== verification/Prelude.thy ===== *)
theory Prelude
  imports Main "HOL-Library.Word" "HOL-Library.Multiset"
begin

unbundle bit_operations_syntax

text \<open>
  Shared vocabulary of the development: the type synonyms for the machine types of the
  emulator, the \<^theory_text>\<open>named_theorems\<close> collections the component theories feed, and
  the generic facts on lists, integer intervals and 32-bit words they share.

  The emulator is a 32-bit program: a C++ \<open>int\<close> that holds a bit pattern is a
  \<open>32 word\<close>; a C++ \<open>int\<close> that holds a number is an \<^typ>\<open>int\<close> (the domain code keeps
  every number between -1 and 2 ^ 27, see the theories that use it).
\<close>

type_synonym int32 = "32 word"

named_theorems iv_simps \<open>set-level facts on interval arrays\<close>
named_theorems bv_simps \<open>set-level facts on bit-vector arrays\<close>

subsection \<open>Lists\<close>

lemma dropWhile_eq_self: "(\<And>x. x \<in> set xs \<Longrightarrow> \<not> P x) \<Longrightarrow> dropWhile P xs = xs"
  by (cases xs) auto

lemma length_dropWhile_le [simp]: "length (dropWhile P xs) \<le> length xs"
  by (induction xs) auto

lemma length_dropWhile_less [simp]:
  "length (dropWhile P xs) < Suc (length xs)" "length (dropWhile P xs) < Suc (Suc (length xs))"
  using length_dropWhile_le[of P xs] by linarith+

lemma nth_split:
  assumes "k < length xs"
  obtains ps qs where "xs = ps @ xs ! k # qs" "length ps = k" "take k xs = ps" "drop (Suc k) xs = qs"
  using assms id_take_nth_drop[of k xs] by (metis length_take min.absorb4)

lemma nth_append_here [simp]: "(ps @ x # qs) ! length ps = x"
  by simp

subsection \<open>Integer intervals\<close>

lemma card_interval_int: "l \<le> r \<Longrightarrow> int (card {l..r}) = r - l + (1::int)"
  by simp

lemma atLeastAtMost_Un_adjacent:
  "a \<le> b + 1 \<Longrightarrow> b \<le> c \<Longrightarrow> {a..b} \<union> {b + 1..c} = {a..(c::int)}"
  by auto

lemma card_eq_interval:
  fixes S :: "int set"
  assumes "finite S" "S \<noteq> {}" "int (card S) = Max S - Min S + 1"
  shows "S = {Min S..Max S}"
proof (rule card_subset_eq)
  show "S \<subseteq> {Min S..Max S}" using assms(1) by auto
  have "Min S \<le> Max S" using assms by simp
  then show "card S = card {Min S..Max S}" using assms(3) by simp
qed simp

end
