(* ===== verification/FDBase.thy ===== *)
theory FDBase
  imports Prelude
begin

text \<open>
  Constants and global state of the finite-domain kernel
  (\<^verbatim>\<open>platform/emulator/fdomn.hh\<close>, \<^verbatim>\<open>fdomn.cc\<close>, \<^verbatim>\<open>mozart_cpi.hh\<close>): the bounds of
  a finite domain, the word arithmetic on element numbers, and the three globals that fix
  from which element on a domain is kept as intervals rather than as a bit vector.
\<close>

definition fd_inf :: int where
  "fd_inf = 0"

definition fd_sup :: int where
  "fd_sup = 134217727 - 1"

definition fd_full_size :: int where
  "fd_full_size = fd_sup + 1"

definition div32 :: "int \<Rightarrow> int" where
  "div32 n = drop_bit 5 n"

definition mod32 :: "int \<Rightarrow> int" where
  "mod32 n = n AND 0x1f"

definition word32 :: "int \<Rightarrow> int" where
  "word32 n = (let n = n + 1 in if mod32 n \<noteq> 0 then div32 n + 1 else div32 n)"

text \<open>The helper of \<^verbatim>\<open>reInitFDs\<close>: the same rounding without the increment.\<close>

definition u_word32 :: "int \<Rightarrow> int" where
  "u_word32 n = (if mod32 n \<noteq> 0 then div32 n + 1 else div32 n)"

record fd_globals =
  fd_bv_max_high :: int
  fd_bv_max_elem :: int
  fd_bv_conv_max_high :: int

text \<open>C's division truncates towards zero.\<close>

definition c_div :: "int \<Rightarrow> int \<Rightarrow> int" where
  "c_div a b = sgn a * sgn b * (\<bar>a\<bar> div \<bar>b\<bar>)"

definition initFDs :: fd_globals where
  "initFDs = (let hi = 32; me = 32 * hi - 1
     in \<lparr>fd_bv_max_high = hi, fd_bv_max_elem = me, fd_bv_conv_max_high = c_div me 2 + 2\<rparr>)"

definition reInitFDs :: "int \<Rightarrow> fd_globals \<Rightarrow> fd_globals" where
  "reInitFDs threshold g =
     (let threshold = u_word32 threshold
      in if threshold \<ge> 0 \<and> threshold \<noteq> fd_bv_max_high g then
           (let me = 32 * threshold - 1
            in \<lparr>fd_bv_max_high = threshold, fd_bv_max_elem = me,
                fd_bv_conv_max_high = c_div me 2 + 2\<rparr>)
         else g)"

text \<open>
  What the rest of the kernel relies on: the three globals agree, and the bit-vector range
  ends below the largest element of a domain.
\<close>

definition fd_globals_ok :: "fd_globals \<Rightarrow> bool" where
  "fd_globals_ok g \<longleftrightarrow>
     0 \<le> fd_bv_max_high g \<and> fd_bv_max_elem g = 32 * fd_bv_max_high g - 1 \<and>
     fd_bv_conv_max_high g = c_div (fd_bv_max_elem g) 2 + 2 \<and> fd_bv_max_elem g < fd_sup"

subsection \<open>Arithmetic facts\<close>

lemma div32_eq [simp]: "div32 n = n div 32"
  by (simp add: div32_def drop_bit_eq_div)

lemma mod32_eq [simp]: "mod32 n = n mod 32"
proof -
  have "n AND mask 5 = n mod 2 ^ 5" by (simp only: take_bit_eq_mask [symmetric] take_bit_eq_mod)
  then show ?thesis by (simp add: mod32_def mask_eq_exp_minus_1)
qed

lemma word32_eq: "word32 n = (n + 32) div 32"
proof -
  define q m where "q = (n + 1) div 32" and "m = (n + 1) mod 32"
  have m: "0 \<le> m" "m < 32" by (simp_all add: m_def)
  have "n + 32 = 32 * q + (m + 31)" using div_mult_mod_eq[of "n + 1" 32] by (simp add: q_def m_def)
  then have "(n + 32) div 32 = q + (m + 31) div 32" by simp
  moreover have "(m + 31) div 32 = (if m = 0 then 0 else 1)" using m by auto
  ultimately show ?thesis by (simp add: word32_def Let_def q_def m_def)
qed

lemma word32_bounds: "0 \<le> n \<Longrightarrow> 32 * (word32 n - 1) \<le> n \<and> n < 32 * word32 n"
  by (auto simp: word32_eq)

lemma fd_sup_pos [simp]: "0 < fd_sup" "0 \<le> fd_sup" "fd_inf = 0"
  by (simp_all add: fd_sup_def fd_inf_def)

lemma c_div_nonneg: "0 \<le> a \<Longrightarrow> 0 < b \<Longrightarrow> c_div a b = a div b"
  by (cases "a = 0") (auto simp: c_div_def)

lemma initFDs_ok: "fd_globals_ok initFDs"
  by (simp add: fd_globals_ok_def initFDs_def fd_sup_def Let_def)

lemma reInitFDs_ok:
  assumes "fd_globals_ok g" "t < fd_sup - 31"
  shows "fd_globals_ok (reInitFDs t g)"
proof -
  have "32 * u_word32 t - 1 < fd_sup" using assms(2) by (auto simp: u_word32_def)
  then show ?thesis using assms(1) by (auto simp: fd_globals_ok_def reInitFDs_def Let_def)
qed

end
