(* ===== verification/DomainRep.thy ===== *)
theory DomainRep
  imports FDBase
begin

text \<open>
  The contract the two array representations of a finite domain share. The predicates state
  what the searches of a representation return, as a relation between the set, the argument and
  the result; the locale \<open>domain_rep\<close> collects the operations an \<^verbatim>\<open>OZ_FiniteDomainImpl\<close> calls on
  its interval array or its bit vector with the laws it relies on. It is interpreted on the
  interval arrays in \<^verbatim>\<open>FDIntervals\<close> and on the bit vectors in \<^verbatim>\<open>FDBitVector\<close>.
\<close>

section \<open>What the searches return\<close>

text \<open>
  The neighbours of a value: the code answers -1 when there is none. The specification is
  the greatest element below, or the least element above.
\<close>

definition next_smaller :: "int set \<Rightarrow> int \<Rightarrow> int \<Rightarrow> bool" where
  "next_smaller S v r \<longleftrightarrow>
     (if \<exists>i \<in> S. i < v then r \<in> S \<and> r < v \<and> (\<forall>i \<in> S. i < v \<longrightarrow> i \<le> r) else r = -1)"

definition next_larger :: "int set \<Rightarrow> int \<Rightarrow> int \<Rightarrow> bool" where
  "next_larger S v r \<longleftrightarrow>
     (if \<exists>i \<in> S. v < i then r \<in> S \<and> v < r \<and> (\<forall>i \<in> S. v < i \<longrightarrow> r \<le> i) else r = -1)"

lemma next_smallerI: "r \<in> S \<Longrightarrow> r < v \<Longrightarrow> (\<And>i. i \<in> S \<Longrightarrow> i < v \<Longrightarrow> i \<le> r) \<Longrightarrow> next_smaller S v r"
  by (auto simp: next_smaller_def)

lemma next_largerI: "r \<in> S \<Longrightarrow> v < r \<Longrightarrow> (\<And>i. i \<in> S \<Longrightarrow> v < i \<Longrightarrow> r \<le> i) \<Longrightarrow> next_larger S v r"
  by (auto simp: next_larger_def)

lemma next_smaller_none: "(\<And>i. i \<in> S \<Longrightarrow> v \<le> i) \<Longrightarrow> next_smaller S v (-1)"
  by (force simp: next_smaller_def)

lemma next_larger_none: "(\<And>i. i \<in> S \<Longrightarrow> i \<le> v) \<Longrightarrow> next_larger S v (-1)"
  by (force simp: next_larger_def)

lemma next_smaller_cong:
  "(\<And>i. i < v \<Longrightarrow> i \<in> S \<longleftrightarrow> i \<in> T) \<Longrightarrow> next_smaller S v r \<longleftrightarrow> next_smaller T v r"
  unfolding next_smaller_def by auto

lemma next_larger_cong:
  "(\<And>i. v < i \<Longrightarrow> i \<in> S \<longleftrightarrow> i \<in> T) \<Longrightarrow> next_larger S v r \<longleftrightarrow> next_larger T v r"
  unfolding next_larger_def by auto

lemma next_smaller_step: "v \<notin> S \<Longrightarrow> next_smaller S (v + 1) r \<longleftrightarrow> next_smaller S v r"
proof -
  assume "v \<notin> S"
  then have "i < v + 1 \<longleftrightarrow> i < v" if "i \<in> S" for i using that by (auto simp: less_le)
  then show ?thesis unfolding next_smaller_def by (simp cong: bex_cong ball_cong conj_cong)
qed

lemma next_larger_step: "v \<notin> S \<Longrightarrow> next_larger S (v - 1) r \<longleftrightarrow> next_larger S v r"
proof -
  assume "v \<notin> S"
  then have "v - 1 < i \<longleftrightarrow> v < i" if "i \<in> S" for i using that by (auto simp: less_le)
  then show ?thesis unfolding next_larger_def by (simp cong: bex_cong ball_cong conj_cong)
qed

lemma next_interval:
  assumes "a \<le> b"
  shows "next_smaller {a..b} v (if v \<le> a then -1 else if v > b then b else v - 1)"
    and "next_larger {a..b} v (if v \<ge> b then -1 else if v < a then a else v + 1)"
proof -
  consider "v \<le> a" | "a < v" "v > b" | "a < v" "v \<le> b" by linarith
  then show "next_smaller {a..b} v (if v \<le> a then -1 else if v > b then b else v - 1)"
    by cases (use assms in \<open>auto intro: next_smallerI next_smaller_none\<close>)
  consider "v \<ge> b" | "v < b" "v < a" | "v < b" "v \<ge> a" by linarith
  then show "next_larger {a..b} v (if v \<ge> b then -1 else if v < a then a else v + 1)"
    by cases (use assms in \<open>auto intro: next_largerI next_larger_none\<close>)
qed

text \<open>The bounds of the run of elements around an element.\<close>

definition run_of :: "int set \<Rightarrow> int \<Rightarrow> int \<Rightarrow> int \<Rightarrow> bool" where
  "run_of S v l r \<longleftrightarrow> l \<le> v \<and> v \<le> r \<and> {l..r} \<subseteq> S \<and> l - 1 \<notin> S \<and> r + 1 \<notin> S"

text \<open>The element nearest to \<open>i\<close>, the lower one where both neighbours are equally near.\<close>

definition nearest :: "int set \<Rightarrow> int \<Rightarrow> int \<Rightarrow> bool" where
  "nearest S i r \<longleftrightarrow> r \<in> S \<and> (\<forall>j \<in> S. \<bar>r - i\<bar> \<le> \<bar>j - i\<bar>) \<and> (\<forall>j \<in> S. \<bar>r - i\<bar> = \<bar>j - i\<bar> \<longrightarrow> r \<le> j)"

lemma nearestI:
  assumes "l \<in> S" "u \<in> S" "l < i" "i < u" "\<And>j. j \<in> S \<Longrightarrow> j \<le> l \<or> u \<le> j"
  shows "nearest S i (if u - i \<ge> i - l then l else u)"
  using assms(1-4) by (fastforce simp: nearest_def dest: assms(5))

section \<open>Walking through a set\<close>

text \<open>
  The loop \<^verbatim>\<open>for (i = min; i != -1; i = nextLarger(i))\<close> with which propagators visit a domain;
  \<open>n\<close> bounds the number of rounds.
\<close>

primrec walk :: "(int \<Rightarrow> int) \<Rightarrow> nat \<Rightarrow> int \<Rightarrow> int list" where
  "walk nxt 0 v = []"
| "walk nxt (Suc n) v = (if v = -1 then [] else v # walk nxt n (nxt v))"

lemma sorted_list_of_set_from:
  fixes S :: "int set"
  assumes "finite S" "v \<in> S"
  shows "sorted_list_of_set (S \<inter> {v..}) = v # sorted_list_of_set (S \<inter> {v<..})"
proof -
  have "S \<inter> {v..} = insert v (S \<inter> {v<..})" using assms(2) by (auto simp: order_le_less)
  moreover have "insort v (sorted_list_of_set (S \<inter> {v<..})) = v # sorted_list_of_set (S \<inter> {v<..})"
    using assms(1) by (intro insort_is_Cons) auto
  ultimately show ?thesis using assms(1) by (simp add: sorted_list_of_set_insert)
qed

lemma walk_from:
  assumes "finite S" "\<And>i. i \<in> S \<Longrightarrow> 0 \<le> i" "\<And>v. v \<in> S \<Longrightarrow> next_larger S v (nxt v)"
  shows "v \<in> S \<Longrightarrow> card (S \<inter> {v..}) \<le> n \<Longrightarrow> walk nxt n v = sorted_list_of_set (S \<inter> {v..})"
proof (induction n arbitrary: v)
  case 0
  then show ?case using assms(1) by auto
next
  case (Suc n)
  note nl = assms(3)[OF Suc.prems(1)]
  have split: "S \<inter> {v..} = insert v (S \<inter> {v<..})" using Suc.prems(1) by (auto simp: order_le_less)
  then have card: "card (S \<inter> {v<..}) \<le> n" using Suc.prems(2) assms(1) by simp
  have "walk nxt n (nxt v) = sorted_list_of_set (S \<inter> {v<..})"
  proof (cases "\<exists>i \<in> S. v < i")
    case True
    then have r: "nxt v \<in> S" "v < nxt v" "\<forall>i \<in> S. v < i \<longrightarrow> nxt v \<le> i"
      using nl by (auto simp: next_larger_def)
    then have "S \<inter> {nxt v..} = S \<inter> {v<..}" by auto
    then show ?thesis using Suc.IH[OF r(1)] card by simp
  next
    case False
    then have "nxt v = -1" "S \<inter> {v<..} = {}" using nl by (auto simp: next_larger_def)
    then show ?thesis by (cases n) auto
  qed
  moreover have "v \<noteq> -1" using assms(2)[OF Suc.prems(1)] by simp
  ultimately show ?case using sorted_list_of_set_from[OF assms(1) Suc.prems(1)] by simp
qed

lemma walk_all:
  assumes "finite S" "\<And>i. i \<in> S \<Longrightarrow> 0 \<le> i" "\<And>v. v \<in> S \<Longrightarrow> next_larger S v (nxt v)" "S \<noteq> {}"
  shows "walk nxt (card S) (Min S) = sorted_list_of_set S"
proof -
  have "S \<inter> {Min S..} = S" using assms(1) by auto
  then show ?thesis using walk_from[of S nxt "Min S" "card S"] assms by simp
qed

section \<open>The interface of a representation\<close>

locale domain_rep =
  fixes rep_ok :: "'a \<Rightarrow> bool"
    and rep_set :: "'a \<Rightarrow> int set"
    and size_of :: "'a \<Rightarrow> int"
    and min_of :: "'a \<Rightarrow> int"
    and max_of :: "'a \<Rightarrow> 'a \<times> int"
    and mem :: "'a \<Rightarrow> int \<Rightarrow> bool"
    and smaller :: "'a \<Rightarrow> int \<Rightarrow> int \<Rightarrow> int"
    and larger :: "'a \<Rightarrow> int \<Rightarrow> int \<Rightarrow> int"
    and lower :: "'a \<Rightarrow> int \<Rightarrow> int \<Rightarrow> int"
    and upper :: "'a \<Rightarrow> int \<Rightarrow> int \<Rightarrow> int"
    and mid :: "'a \<Rightarrow> int \<Rightarrow> int option"
  assumes finite_rep: "rep_ok a \<Longrightarrow> finite (rep_set a)"
    and nonneg: "rep_ok a \<Longrightarrow> i \<in> rep_set a \<Longrightarrow> 0 \<le> i"
    and size_card: "rep_ok a \<Longrightarrow> size_of a = int (card (rep_set a))"
    and min_Min: "rep_ok a \<Longrightarrow> rep_set a \<noteq> {} \<Longrightarrow> min_of a = Min (rep_set a)"
    and max_Max: "rep_ok a \<Longrightarrow> rep_set a \<noteq> {} \<Longrightarrow> max_of a = (a', m) \<Longrightarrow>
      m = Max (rep_set a) \<and> rep_ok a' \<and> rep_set a' = rep_set a"
    and mem_iff: "rep_ok a \<Longrightarrow> rep_set a \<noteq> {} \<Longrightarrow> 0 \<le> i \<Longrightarrow> mem a i \<longleftrightarrow> i \<in> rep_set a"
    and smaller_spec: "rep_ok a \<Longrightarrow> (\<And>i. i \<in> rep_set a \<Longrightarrow> mn \<le> i) \<Longrightarrow> 0 \<le> mn \<Longrightarrow>
      next_smaller (rep_set a) v (smaller a v mn)"
    and larger_spec: "rep_ok a \<Longrightarrow> (\<And>i. i \<in> rep_set a \<Longrightarrow> i \<le> mx) \<Longrightarrow> -1 \<le> v \<Longrightarrow>
      next_larger (rep_set a) v (larger a v mx)"
    and bounds_spec: "rep_ok a \<Longrightarrow> v \<in> rep_set a \<Longrightarrow> mn = Min (rep_set a) \<Longrightarrow> mx = Max (rep_set a) \<Longrightarrow>
      run_of (rep_set a) v (lower a v mn) (upper a v mx)"
    and mid_spec: "rep_ok a \<Longrightarrow> 0 \<le> i \<Longrightarrow> i \<notin> rep_set a \<Longrightarrow> \<exists>j \<in> rep_set a. j < i \<Longrightarrow>
      \<exists>j \<in> rep_set a. i < j \<Longrightarrow> \<exists>r. mid a i = Some r \<and> nearest (rep_set a) i r"
begin

text \<open>The test with which the kernel recognises that a representation is one interval.\<close>

lemma single_iff:
  assumes "rep_ok a" "rep_set a \<noteq> {}"
  shows "size_of a = snd (max_of a) - min_of a + 1 \<longleftrightarrow> rep_set a = {min_of a..snd (max_of a)}"
proof -
  obtain a' m where m: "max_of a = (a', m)" by (cases "max_of a")
  have eq: "min_of a = Min (rep_set a)" "m = Max (rep_set a)" "size_of a = int (card (rep_set a))"
    using min_Min[OF assms] max_Max[OF assms m] size_card[OF assms(1)] by auto
  have fin: "finite (rep_set a)" by (rule finite_rep[OF assms(1)])
  then have le: "Min (rep_set a) \<le> Max (rep_set a)" using assms(2) by simp
  show ?thesis
  proof
    assume "size_of a = snd (max_of a) - min_of a + 1"
    then have "rep_set a = {Min (rep_set a)..Max (rep_set a)}"
      using card_eq_interval[OF fin assms(2)] by (simp add: eq m)
    then show "rep_set a = {min_of a..snd (max_of a)}" by (simp add: eq m)
  next
    assume "rep_set a = {min_of a..snd (max_of a)}"
    then have "card (rep_set a) = card {min_of a..m}" by (simp add: m)
    then show "size_of a = snd (max_of a) - min_of a + 1" using le by (simp add: eq m)
  qed
qed

lemma walk_rep:
  assumes "rep_ok a" "rep_set a \<noteq> {}" "max_of a = (a', mx)"
  shows "walk (\<lambda>v. larger a v mx) (nat (size_of a)) (min_of a) = sorted_list_of_set (rep_set a)"
proof -
  have fin: "finite (rep_set a)" by (rule finite_rep[OF assms(1)])
  have "next_larger (rep_set a) v (larger a v mx)" if "v \<in> rep_set a" for v
    using that fin nonneg[OF assms(1) that] max_Max[OF assms] by (intro larger_spec[OF assms(1)]) auto
  then show ?thesis
    using walk_all[OF fin nonneg[OF assms(1)] _ assms(2)] min_Min[OF assms(1,2)] size_card[OF assms(1)] by simp
qed

end

end
