(* ===== verification/FDIntervals.thy ===== *)
theory FDIntervals
  imports DomainRep
begin

text \<open>
  Class \<^verbatim>\<open>FDIntervals\<close> of \<^verbatim>\<open>platform/emulator/fdomn.cc\<close>: a domain kept as an
  array of intervals. The object is the list of the first \<^verbatim>\<open>high\<close> entries of
  \<^verbatim>\<open>i_arr\<close>, so \<^verbatim>\<open>high\<close> is the length of the list; an operation that reallocates
  or moves entries returns the new list. The counters of the merge loops are the suffixes
  of the arrays that are still to be read, and the entries written to the result are
  emitted in the order of their index. The theory defines every operation, the invariant
  that the code asserts in its debugging build (\<open>isConsistent_iv\<close>), and proves each
  operation against the set of integers the array stands for.
\<close>

section \<open>Data and operations\<close>

record i_arr_type =
  left :: int
  right :: int

type_synonym FDIntervals = "i_arr_type list"

abbreviation mk_iv :: "int \<Rightarrow> int \<Rightarrow> i_arr_type" where
  "mk_iv l r \<equiv> \<lparr>left = l, right = r\<rparr>"

text \<open>\<^verbatim>\<open>isConsistent\<close>: non-empty intervals, ascending, with a gap between any two.\<close>

fun isConsistent_iv :: "FDIntervals \<Rightarrow> bool" where
  "isConsistent_iv [] = True"
| "isConsistent_iv [x] = (left x \<le> right x)"
| "isConsistent_iv (x # y # zs) =
     (left x \<le> right x \<and> right x < left y \<and> right x + 1 < left y \<and> isConsistent_iv (y # zs))"

fun findSize_loop_iv :: "FDIntervals \<Rightarrow> int" where
  "findSize_loop_iv [] = 0"
| "findSize_loop_iv (x # xs) = findSize_loop_iv xs + (right x - left x)"

definition findSize_iv :: "FDIntervals \<Rightarrow> int" where
  "findSize_iv xs = findSize_loop_iv xs + int (length xs)"

definition findMinElem_iv :: "FDIntervals \<Rightarrow> int" where
  "findMinElem_iv xs = (if length xs \<noteq> 0 then left (xs ! 0) else -1)"

definition findMaxElem_iv :: "FDIntervals \<Rightarrow> int" where
  "findMaxElem_iv xs = (if length xs \<noteq> 0 then right (xs ! (length xs - 1)) else -1)"

definition init2_iv :: "int \<Rightarrow> int \<Rightarrow> FDIntervals" where
  "init2_iv l r = [mk_iv l r]"

definition init4_iv :: "int \<Rightarrow> int \<Rightarrow> int \<Rightarrow> int \<Rightarrow> FDIntervals" where
  "init4_iv l0 r0 l1 r1 = [mk_iv l0 r0, mk_iv l1 r1]"

text \<open>\<^verbatim>\<open>initList\<close> copies the first \<open>n\<close> entries of two parallel arrays.\<close>

definition initList_iv :: "nat \<Rightarrow> int list \<Rightarrow> int list \<Rightarrow> FDIntervals" where
  "initList_iv n ls rs = map (\<lambda>i. mk_iv (ls ! i) (rs ! i)) [0..<n]"

text \<open>The loop runs from the last entry down: the recursion is on the reversed array.\<close>

fun nextSmaller_loop_iv :: "int \<Rightarrow> FDIntervals \<Rightarrow> int" where
  "nextSmaller_loop_iv v [] = -1"
| "nextSmaller_loop_iv v (x # xs) =
     (if left x < v \<and> v - 1 \<le> right x then v - 1
      else if v > right x then right x
      else nextSmaller_loop_iv v xs)"

definition nextSmallerElem_iv :: "FDIntervals \<Rightarrow> int \<Rightarrow> int \<Rightarrow> int" where
  "nextSmallerElem_iv xs v min_elem =
     (if v \<le> min_elem then -1 else nextSmaller_loop_iv v (rev xs))"

fun nextLarger_loop_iv :: "int \<Rightarrow> FDIntervals \<Rightarrow> int" where
  "nextLarger_loop_iv v [] = -1"
| "nextLarger_loop_iv v (x # xs) =
     (if v < left x then left x
      else if left x - 2 < v \<and> v < right x then v + 1
      else nextLarger_loop_iv v xs)"

definition nextLargerElem_iv :: "FDIntervals \<Rightarrow> int \<Rightarrow> int \<Rightarrow> int" where
  "nextLargerElem_iv xs v max_elem =
     (if v \<ge> max_elem then -1 else nextLarger_loop_iv v xs)"

text \<open>The binary search of \<^verbatim>\<open>findPossibleIndexOf\<close>, between \<open>lo\<close> and \<open>hi\<close>.\<close>

function findPossible_loop :: "FDIntervals \<Rightarrow> int \<Rightarrow> nat \<Rightarrow> nat \<Rightarrow> nat" where
  "findPossible_loop xs i lo hi =
     (if lo < hi then
        (let mid = (lo + hi + 1) div 2
         in if i < left (xs ! mid) then findPossible_loop xs i lo (mid - 1)
            else findPossible_loop xs i mid hi)
      else lo)"
  by pat_completeness auto
termination
  by (relation "measure (\<lambda>(xs, i, lo, hi). hi - lo)") auto

declare findPossible_loop.simps [simp del]

definition findPossibleIndexOf :: "FDIntervals \<Rightarrow> int \<Rightarrow> nat" where
  "findPossibleIndexOf xs i = findPossible_loop xs i 0 (length xs - 1)"

definition isIn_iv :: "FDIntervals \<Rightarrow> int \<Rightarrow> bool" where
  "isIn_iv xs i =
     (let index = findPossibleIndexOf xs i in left (xs ! index) \<le> i \<and> i \<le> right (xs ! index))"

definition lowerBound_iv :: "FDIntervals \<Rightarrow> int \<Rightarrow> int" where
  "lowerBound_iv xs v = left (xs ! findPossibleIndexOf xs v)"

definition upperBound_iv :: "FDIntervals \<Rightarrow> int \<Rightarrow> int" where
  "upperBound_iv xs v = right (xs ! findPossibleIndexOf xs v)"

text \<open>
  \<^verbatim>\<open>midElem\<close>: the loop stops at the gap around \<open>i\<close>; the array that starts at index
  \<open>j\<close> is the argument. Reading the entry after the last one is outside the array.
\<close>

fun midElem_iv :: "FDIntervals \<Rightarrow> int \<Rightarrow> int option" where
  "midElem_iv (x # y # zs) i =
     (if \<not> (right x < i \<and> i < left y) then midElem_iv (y # zs) i
      else (let l = right x; r = left y in Some (if r - i \<ge> i - l then l else r)))"
| "midElem_iv _ i = None"

definition le_iv :: "FDIntervals \<Rightarrow> int \<Rightarrow> FDIntervals \<times> int" where
  "le_iv xs leq =
     (let index = findPossibleIndexOf xs leq;
          xs' = (if left (xs ! index) \<le> leq \<and> leq \<le> right (xs ! index)
                 then take (index + 1) (xs[index := (xs ! index)\<lparr>right := leq\<rparr>])
                 else if right (xs ! index) < leq then take (index + 1) xs
                 else take index xs)
      in (xs', findSize_iv xs'))"

definition ge_iv :: "FDIntervals \<Rightarrow> int \<Rightarrow> FDIntervals \<times> int" where
  "ge_iv xs geq =
     (let index = findPossibleIndexOf xs geq;
          (xs, index) =
            (if left (xs ! index) \<le> geq \<and> geq \<le> right (xs ! index)
             then (xs[index := (xs ! index)\<lparr>left := geq\<rparr>], index)
             else if right (xs ! index) < geq then (xs, index + 1)
             else (xs, index));
          xs' = (if index \<noteq> 0 then drop index xs else xs)
      in (xs', findSize_iv xs'))"

definition minus_int_iv :: "FDIntervals \<Rightarrow> int \<Rightarrow> FDIntervals" where
  "minus_int_iv xs take_out =
     (let index = findPossibleIndexOf xs take_out; x = xs ! index
      in if take_out < left x then xs
         else if left x = right x then take index xs @ drop (index + 1) xs
         else if left x = take_out then xs[index := x\<lparr>left := left x + 1\<rparr>]
         else if right x = take_out then xs[index := x\<lparr>right := right x - 1\<rparr>]
         else take index xs @ [x\<lparr>right := take_out - 1\<rparr>, x\<lparr>left := take_out + 1\<rparr>]
                @ drop (index + 1) xs)"

definition plus_int_iv :: "FDIntervals \<Rightarrow> int \<Rightarrow> FDIntervals" where
  "plus_int_iv xs put_in =
     (let index = findPossibleIndexOf xs put_in; x = xs ! index
      in if left x \<le> put_in \<and> put_in \<le> right x then xs
         else if put_in = right x + 1 then
           (if index + 1 < length xs \<and> put_in = left (xs ! (index + 1)) - 1
            then take index xs @ [x\<lparr>right := right (xs ! (index + 1))\<rparr>] @ drop (index + 2) xs
            else xs[index := x\<lparr>right := right x + 1\<rparr>])
         else if put_in = left x - 1 then xs[index := x\<lparr>left := put_in\<rparr>]
         else if index + 1 < length xs \<and> put_in = left (xs ! (index + 1)) - 1
           then xs[index + 1 := (xs ! (index + 1))\<lparr>left := left (xs ! (index + 1)) - 1\<rparr>]
         else (let index = (if right x < put_in then index + 1 else index)
               in take index xs @ [mk_iv put_in put_in] @ drop index xs))"

text \<open>
  \<^verbatim>\<open>complement\<close>: the gap below the first interval, the gaps between neighbours, and the
  gap above the last one.
\<close>

fun complement_loop :: "FDIntervals \<Rightarrow> FDIntervals" where
  "complement_loop [] = []"
| "complement_loop [x] = (if right x < fd_sup then [mk_iv (right x + 1) fd_sup] else [])"
| "complement_loop (x # y # zs) = mk_iv (right x + 1) (left y - 1) # complement_loop (y # zs)"

definition complement_iv :: "FDIntervals \<Rightarrow> FDIntervals" where
  "complement_iv xs =
     (if 0 < left (xs ! 0) then [mk_iv 0 (left (xs ! 0) - 1)] else []) @ complement_loop xs"

text \<open>The overload that reads two parallel arrays.\<close>

definition complement_raw :: "nat \<Rightarrow> int list \<Rightarrow> int list \<Rightarrow> FDIntervals" where
  "complement_raw n x_left x_right = complement_iv (initList_iv n x_left x_right)"

text \<open>
  \<^verbatim>\<open>union_iv\<close>. The inner loop extends the current interval (it ends at \<open>r\<close>) as long as
  the next interval of one of the operands overlaps or touches it.
\<close>

abbreviation skip_le :: "int \<Rightarrow> FDIntervals \<Rightarrow> FDIntervals" where
  "skip_le r \<equiv> dropWhile (\<lambda>x. right x \<le> r)"

function (sequential) union_cont ::
    "int \<Rightarrow> FDIntervals \<Rightarrow> FDIntervals \<Rightarrow> int \<times> FDIntervals \<times> FDIntervals" where
  "union_cont r xs ys =
     (if xs \<noteq> [] \<and> left (hd xs) \<le> r + 1 \<and> r \<le> right (hd xs) then
        union_cont (right (hd xs)) (tl xs) (skip_le (right (hd xs)) ys)
      else if ys \<noteq> [] \<and> left (hd ys) \<le> r + 1 \<and> r \<le> right (hd ys) then
        union_cont (right (hd ys)) (skip_le (right (hd ys)) xs) (tl ys)
      else (r, xs, ys))"
  by pat_completeness auto
termination
  by (relation "measure (\<lambda>(r, xs, ys). length xs + length ys)")
    (auto simp: neq_Nil_conv less_Suc_eq_le intro!: add_mono length_dropWhile_le)

declare union_cont.simps [simp del]

lemma union_cont_length:
  "length (fst (snd (union_cont r xs ys))) + length (snd (snd (union_cont r xs ys)))
     \<le> length xs + length ys"
proof (induction r xs ys rule: union_cont.induct)
  case (1 r xs ys)
  have le: "length (tl zs) + length (skip_le k ws) \<le> length zs + length ws" for k zs ws
    using length_dropWhile_le[of _ ws] by (intro add_mono) auto
  show ?case
    using 1 le[of xs "right (hd xs)" ys] le[of ys "right (hd ys)" xs]
    by (subst (1 2) union_cont.simps) (auto simp: add.commute)
qed

definition union_rest :: "int \<Rightarrow> FDIntervals \<Rightarrow> FDIntervals" where
  "union_rest r xs = (if 1 < length xs \<and> left (xs ! 0) < r then tl xs else xs)"

function union_loop :: "int \<Rightarrow> FDIntervals \<Rightarrow> FDIntervals \<Rightarrow> FDIntervals" where
  "union_loop r xs ys =
     (if xs \<noteq> [] \<and> ys \<noteq> [] then
        (let (l, r, xs, ys) =
               (if left (hd xs) < left (hd ys)
                then (left (hd xs), right (hd xs), tl xs, skip_le (right (hd xs)) ys)
                else (left (hd ys), right (hd ys), skip_le (right (hd ys)) xs, tl ys));
             (r, xs, ys) = union_cont r xs ys
         in mk_iv l r # union_loop r (skip_le r xs) (skip_le r ys))
      else union_rest r xs @ union_rest r ys)"
  by pat_completeness auto
termination
proof (relation "measure (\<lambda>(r, xs, ys). length xs + length ys)", goal_cases)
  case (2 r xs ys p l q r' s xs' ys' t b u c d)
  note eqs = "2"
  have "union_cont r' xs' ys' = (b, c, d)" using eqs by (metis prod.collapse)
  then have "length c + length d \<le> length xs' + length ys'"
    using union_cont_length[of r' xs' ys'] by simp
  moreover have "length xs' + length ys' < length xs + length ys"
    using eqs length_dropWhile_le[of "\<lambda>x. right x \<le> right (hd xs)" ys]
      length_dropWhile_le[of "\<lambda>x. right x \<le> right (hd ys)" xs]
    by (auto simp: neq_Nil_conv split: if_splits)
  ultimately show ?case
    using length_dropWhile_le[of "\<lambda>x. right x \<le> b" c] length_dropWhile_le[of "\<lambda>x. right x \<le> b" d]
    by (simp del: length_dropWhile_le)
qed simp

declare union_loop.simps [simp del]

definition union_iv :: "FDIntervals \<Rightarrow> FDIntervals \<Rightarrow> FDIntervals \<times> int" where
  "union_iv xs ys = (let zs = union_loop (-1) xs ys in (zs, findSize_iv zs))"

fun intersect_loop :: "FDIntervals \<Rightarrow> FDIntervals \<Rightarrow> FDIntervals" where
  "intersect_loop [] ys = []"
| "intersect_loop xs [] = []"
| "intersect_loop (x # xs) (y # ys) =
     (if left x > left y then
        (if right y < left x then intersect_loop (x # xs) ys
         else if right y \<le> right x then mk_iv (left x) (right y) # intersect_loop (x # xs) ys
         else x # intersect_loop xs (y # ys))
      else
        (if right x < left y then intersect_loop xs (y # ys)
         else if right x \<le> right y then mk_iv (left y) (right x) # intersect_loop xs (y # ys)
         else y # intersect_loop (x # xs) ys))"

definition intersect_iv :: "FDIntervals \<Rightarrow> FDIntervals \<Rightarrow> FDIntervals \<times> int" where
  "intersect_iv xs ys = (let zs = intersect_loop xs ys in (zs, findSize_iv zs))"

text \<open>
  \<^verbatim>\<open>subtract_iv\<close>. \<open>subtract_cut l r ys\<close> is the inner \<^verbatim>\<open>while\<close> with the statement after
  it: the result interval opened at \<open>l\<close> is cut by the intervals of \<open>y\<close> that end before
  \<open>r\<close>; it returns the entries written and the suffix of \<open>y\<close> left.
\<close>

fun subtract_cut :: "int \<Rightarrow> int \<Rightarrow> FDIntervals \<Rightarrow> FDIntervals \<times> FDIntervals" where
  "subtract_cut l r [] = ([mk_iv l r], [])"
| "subtract_cut l r (y # ys) =
     (if right y < r then
        (let (zs, ys') = subtract_cut (right y + 1) r ys in (mk_iv l (left y - 1) # zs, ys'))
      else if left y \<le> r then ([mk_iv l (left y - 1)], y # ys)
      else ([mk_iv l r], y # ys))"

fun subtract_loop :: "FDIntervals \<Rightarrow> FDIntervals \<Rightarrow> FDIntervals" where
  "subtract_loop [] ys = []"
| "subtract_loop (x # xs) ys =
     (case dropWhile (\<lambda>y. right y < left x) ys of
        [] \<Rightarrow> x # xs
      | y # ys' \<Rightarrow>
          if left y \<le> left x \<and> right x \<le> right y then subtract_loop xs (y # ys')
          else if right x < left y then x # subtract_loop xs (y # ys')
          else if right x \<le> right y then mk_iv (left x) (left y - 1) # subtract_loop xs (y # ys')
          else
            (let (zs, ys'') =
                   (if left x < left y then subtract_cut (left x) (right x) (y # ys')
                    else subtract_cut (right y + 1) (right x) ys')
             in zs @ subtract_loop xs ys''))"

definition subtract_iv :: "FDIntervals \<Rightarrow> FDIntervals \<Rightarrow> FDIntervals \<times> int" where
  "subtract_iv xs ys = (let zs = subtract_loop xs ys in (zs, findSize_iv zs))"


section \<open>The set an interval array stands for\<close>

definition iv_set :: "FDIntervals \<Rightarrow> int set" where
  "iv_set xs = (\<Union>x \<in> set xs. {left x..right x})"

text \<open>Consistent, and every element lies above \<open>b\<close>: the form the inductions use.\<close>

fun iv_from :: "int \<Rightarrow> FDIntervals \<Rightarrow> bool" where
  "iv_from b [] = True"
| "iv_from b (x # xs) = (b < left x \<and> left x \<le> right x \<and> iv_from (right x + 1) xs)"

definition iv_ok :: "FDIntervals \<Rightarrow> bool" where
  "iv_ok xs \<longleftrightarrow> isConsistent_iv xs \<and> (\<forall>x \<in> set xs. 0 \<le> left x \<and> right x \<le> fd_sup)"

lemma iv_set_simps [simp, iv_simps]:
  "iv_set [] = {}" "iv_set (x # xs) = {left x..right x} \<union> iv_set xs"
  "iv_set (xs @ ys) = iv_set xs \<union> iv_set ys"
  by (auto simp: iv_set_def)

lemma finite_iv_set [simp]: "finite (iv_set xs)"
  by (simp add: iv_set_def)

lemma iv_from_mono: "iv_from b xs \<Longrightarrow> a \<le> b \<Longrightarrow> iv_from a xs"
  by (cases xs) auto

lemma iv_from_iff: "iv_from b xs \<longleftrightarrow> isConsistent_iv xs \<and> (xs \<noteq> [] \<longrightarrow> b < left (xs ! 0))"
proof (induction xs arbitrary: b rule: isConsistent_iv.induct)
  case (3 x y zs)
  have "iv_from (right x + 1) (y # zs) \<longleftrightarrow> isConsistent_iv (y # zs) \<and> right x + 1 < left y"
    by (simp only: "3.IH" nth_Cons_0 list.distinct simp_thms)
  then show ?case
    unfolding iv_from.simps(2)[of b x "y # zs"] isConsistent_iv.simps(3) by auto
qed auto

lemma iv_from_mem: "iv_from b xs \<Longrightarrow> x \<in> set xs \<Longrightarrow> b < left x \<and> left x \<le> right x"
proof (induction xs arbitrary: b)
  case (Cons a xs)
  have "right a + 1 < left x \<and> left x \<le> right x" if "x \<in> set xs"
    using Cons.IH[of "right a + 1"] Cons.prems that by simp
  then show ?case using Cons.prems by auto
qed simp

lemma iv_set_gt: "iv_from b xs \<Longrightarrow> i \<in> iv_set xs \<Longrightarrow> b < i"
  by (fastforce simp: iv_set_def dest: iv_from_mem)

lemma iv_from_append:
  "iv_from b (xs @ ys) \<longleftrightarrow>
     iv_from b xs \<and> iv_from (if xs = [] then b else right (last xs) + 1) ys"
  by (induction xs arbitrary: b) auto

lemma iv_from_right_le: "iv_from b (xs @ x # ys) \<Longrightarrow> z \<in> set xs \<Longrightarrow> right z + 1 < left x"
proof (induction xs arbitrary: b)
  case (Cons a xs)
  then show ?case using iv_from_mem[of _ "xs @ x # ys" x] by fastforce
qed simp

lemma consistent_from: "isConsistent_iv xs \<Longrightarrow> xs \<noteq> [] \<Longrightarrow> iv_from (left (xs ! 0) - 1) xs"
  by (simp add: iv_from_iff)

lemma consistent_ex_from: "isConsistent_iv xs \<longleftrightarrow> (\<exists>b. iv_from b xs)"
  by (metis consistent_from iv_from.simps(1) iv_from_iff)

lemma iv_ok_from: "iv_ok xs \<longleftrightarrow> iv_from (-1) xs \<and> (\<forall>x \<in> set xs. right x \<le> fd_sup)"
proof (cases "xs = []")
  case False
  then have h: "xs ! 0 \<in> set xs" by simp
  have "0 \<le> left x" if "iv_from (-1) xs" "x \<in> set xs" for x
    using iv_from_mem[OF that] by simp
  moreover have "iv_from (-1) xs" if "iv_ok xs"
  proof -
    have "0 \<le> left (xs ! 0)" using that h by (simp add: iv_ok_def)
    then show ?thesis using that by (simp add: iv_ok_def iv_from_iff)
  qed
  ultimately show ?thesis by (auto simp: iv_ok_def iv_from_iff)
qed (simp add: iv_ok_def)

lemma iv_ok_subset: "iv_ok xs \<Longrightarrow> iv_set xs \<subseteq> {0..fd_sup}"
  by (auto simp: iv_ok_def iv_set_def)

lemma iv_okI:
  assumes "iv_from (-1) xs" "iv_set xs \<subseteq> {0..fd_sup}"
  shows "iv_ok xs"
proof -
  have "right x \<le> fd_sup" if "x \<in> set xs" for x
  proof -
    have "right x \<in> iv_set xs" using iv_from_mem[OF assms(1) that] that by (auto simp: iv_set_def)
    then show ?thesis using assms(2) by auto
  qed
  then show ?thesis using assms by (simp add: iv_ok_from)
qed

subsection \<open>Size, bounds\<close>

lemma findSize_iv_simps [simp]:
  "findSize_iv [] = 0" "findSize_iv (x # xs) = findSize_iv xs + (right x - left x + 1)"
  by (simp_all add: findSize_iv_def)

lemma findSize_iv_from: "iv_from b xs \<Longrightarrow> findSize_iv xs = int (card (iv_set xs))"
proof (induction xs arbitrary: b)
  case (Cons x xs)
  then have f: "iv_from (right x + 1) xs" and le: "left x \<le> right x" by auto
  have "{left x..right x} \<inter> iv_set xs = {}" using iv_set_gt[OF f] by fastforce
  then have "card (iv_set (x # xs)) = card {left x..right x} + card (iv_set xs)"
    by (simp add: card_Un_disjoint)
  then show ?case using Cons.IH[OF f] le by simp
qed simp

lemma findSize_iv_card: "isConsistent_iv xs \<Longrightarrow> findSize_iv xs = int (card (iv_set xs))"
  using consistent_ex_from findSize_iv_from by blast

lemma iv_set_empty_iff: "isConsistent_iv xs \<Longrightarrow> iv_set xs = {} \<longleftrightarrow> xs = []"
  by (cases xs) (auto simp: consistent_ex_from)

lemma findMinElem_iv_Min:
  assumes "isConsistent_iv xs" "xs \<noteq> []"
  shows "findMinElem_iv xs = Min (iv_set xs)"
proof -
  obtain x ys where xs: "xs = x # ys" using assms by (cases xs) auto
  have f: "iv_from (left x - 1) xs" using consistent_from[OF assms] by (simp add: xs)
  have "left x \<in> iv_set xs" using f by (simp add: xs)
  moreover have "\<And>i. i \<in> iv_set xs \<Longrightarrow> left x \<le> i" using iv_set_gt[OF f] by fastforce
  ultimately have "Min (iv_set xs) = left x" by (intro Min_eqI) simp_all
  then show ?thesis by (simp add: findMinElem_iv_def xs)
qed

lemma findMaxElem_iv_Max:
  assumes "isConsistent_iv xs" "xs \<noteq> []"
  shows "findMaxElem_iv xs = Max (iv_set xs)"
proof -
  obtain ys x where xs: "xs = ys @ [x]" using assms by (cases xs rule: rev_cases) auto
  obtain b where f: "iv_from b (ys @ [x])" using assms xs consistent_ex_from by blast
  have le: "left x \<le> right x" using iv_from_mem[OF f, of x] by simp
  have "\<And>z. z \<in> set ys \<Longrightarrow> right z \<le> right x" using iv_from_right_le[OF f] le by fastforce
  then have "\<And>i. i \<in> iv_set xs \<Longrightarrow> i \<le> right x" by (fastforce simp: xs iv_set_def)
  moreover have "right x \<in> iv_set xs" using le by (simp add: xs)
  ultimately have "Max (iv_set xs) = right x" by (intro Max_eqI) simp_all
  then show ?thesis by (simp add: findMaxElem_iv_def xs)
qed

subsection \<open>Union\<close>

lemma iv_from_dropWhile: "iv_from b xs \<Longrightarrow> iv_from b (dropWhile P xs)"
proof (induction xs arbitrary: b)
  case (Cons x xs)
  then show ?case by (auto intro: iv_from_mono[of "right x + 1"])
qed simp

lemma skip_le_above: "iv_from b xs \<Longrightarrow> x \<in> set (skip_le r xs) \<Longrightarrow> r < right x"
proof (induction xs arbitrary: b)
  case (Cons y xs)
  then show ?case using iv_from_mem[of "right y + 1" xs x] by (auto split: if_splits)
qed simp

lemma iv_set_skip_le:
  "iv_from b xs \<Longrightarrow> l \<le> b + 1 \<Longrightarrow> {l..r} \<union> iv_set (skip_le r xs) = {l..r} \<union> iv_set xs"
proof (induction xs arbitrary: b)
  case (Cons x xs)
  have IH: "{l..r} \<union> iv_set (skip_le r xs) = {l..r} \<union> iv_set xs"
    using Cons.IH[of "right x + 1"] Cons.prems by simp
  show ?case
  proof (cases "right x \<le> r")
    case True
    then have "{left x..right x} \<subseteq> {l..r}" using Cons.prems by auto
    then have "{l..r} \<union> iv_set (x # xs) = {l..r} \<union> iv_set xs" by auto
    then show ?thesis using IH True by simp
  qed simp
qed simp

lemma iv_from_tl_above: "iv_from b (x # xs) \<Longrightarrow> y \<in> set xs \<Longrightarrow> right x < right y"
  using iv_from_mem[of "right x + 1" xs y] by auto

lemma union_cont_spec:
  assumes "union_cont r xs ys = (r', xs', ys')"
    and "iv_from b xs" "iv_from b ys" "b < r"
    and "\<And>x. x \<in> set xs \<union> set ys \<Longrightarrow> r < right x"
  shows "r \<le> r' \<and> iv_from (r' + 1) xs' \<and> iv_from (r' + 1) ys' \<and>
    {b + 1..r'} \<union> iv_set xs' \<union> iv_set ys' = {b + 1..r} \<union> iv_set xs \<union> iv_set ys"
  using assms
proof (induction r xs ys rule: union_cont.induct)
  case (1 r xs ys)
  note from_xs = "1.prems"(2) and from_ys = "1.prems"(3) and br = "1.prems"(4) and ab = "1.prems"(5)
  consider (x) x xt where "xs = x # xt" "left x \<le> r + 1"
    | (y) y yt where "\<not> (xs \<noteq> [] \<and> left (hd xs) \<le> r + 1 \<and> r \<le> right (hd xs))"
        "ys = y # yt" "left y \<le> r + 1"
    | (stop) "xs \<noteq> [] \<longrightarrow> r + 1 < left (hd xs)" "ys \<noteq> [] \<longrightarrow> r + 1 < left (hd ys)"
    using ab by (cases xs; cases ys; fastforce)
  then show ?case
  proof cases
    case x
    have rx: "r < right x" using ab x by simp
    have rec: "union_cont (right x) xt (skip_le (right x) ys) = (r', xs', ys')"
      using "1.prems"(1) x rx by (simp add: union_cont.simps[of r "x # xt"])
    have fx: "iv_from b xt" using from_xs x by (auto intro: iv_from_mono)
    have fy: "iv_from b (skip_le (right x) ys)" using from_ys by (rule iv_from_dropWhile)
    have ab': "right x < right z" if "z \<in> set xt \<union> set (skip_le (right x) ys)" for z
      using that iv_from_tl_above[of b x xt] from_xs x skip_le_above[OF from_ys] by auto
    have un: "{b + 1..right x} = {b + 1..r} \<union> {left x..right x}" using from_xs x rx br by auto
    show ?thesis
      using "1.IH"(1)[unfolded x(1) list.sel, OF _ rec fx fy _ ab'] x rx br un
        iv_set_skip_le[OF from_ys, of "b + 1" "right x"]
      by (auto simp: Un_assoc)
  next
    case y
    have ry: "r < right y" using ab y by simp
    have rec: "union_cont (right y) (skip_le (right y) xs) yt = (r', xs', ys')"
      using "1.prems"(1) y ry by (auto simp: union_cont.simps[of r xs])
    have fy: "iv_from b yt" using from_ys y by (auto intro: iv_from_mono)
    have fx: "iv_from b (skip_le (right y) xs)" using from_xs by (rule iv_from_dropWhile)
    have ab': "right y < right z" if "z \<in> set (skip_le (right y) xs) \<union> set yt" for z
      using that iv_from_tl_above[of b y yt] from_ys y skip_le_above[OF from_xs] by auto
    have un: "{b + 1..right y} = {b + 1..r} \<union> {left y..right y}" using from_ys y ry br by auto
    show ?thesis
      using "1.IH"(2)[unfolded y(2) list.sel, OF _ _ rec fx fy _ ab'] y ry br un
        iv_set_skip_le[OF from_xs, of "b + 1" "right y"]
      by (auto simp: Un_assoc)
  next
    case stop
    then have "(r', xs', ys') = (r, xs, ys)"
      using "1.prems"(1) by (auto simp: union_cont.simps[of r xs])
    moreover have "iv_from (r + 1) xs" using stop(1) from_xs by (cases xs) auto
    moreover have "iv_from (r + 1) ys" using stop(2) from_ys by (cases ys) auto
    ultimately show ?thesis by simp
  qed
qed


lemma union_rest_id: "iv_from b xs \<Longrightarrow> r \<le> b \<Longrightarrow> union_rest r xs = xs"
  by (cases xs) (auto simp: union_rest_def)

lemma skip_le_id: "iv_from (r + 1) xs \<Longrightarrow> skip_le r xs = xs"
  by (rule dropWhile_eq_self) (use iv_from_mem in force)

lemma union_step:
  assumes "iv_from (l - 1) us" "iv_from (l - 1) vs" "l \<le> r0"
    and "\<And>z. z \<in> set us \<union> set vs \<Longrightarrow> r0 < right z"
    and "union_cont r0 us vs = (r', us', vs')"
    and rec: "iv_from (r' + 1) us' \<Longrightarrow> iv_from (r' + 1) vs' \<Longrightarrow>
      iv_from (r' + 1) (union_loop r' us' vs') \<and>
      iv_set (union_loop r' us' vs') = iv_set us' \<union> iv_set vs'"
  defines "zs \<equiv> mk_iv l r' # union_loop r' (skip_le r' us') (skip_le r' vs')"
  shows "iv_from (l - 1) zs \<and> iv_set zs = {l..r0} \<union> iv_set us \<union> iv_set vs"
proof -
  from union_cont_spec[OF assms(5,1,2) _ assms(4)] \<open>l \<le> r0\<close>
  have sp: "r0 \<le> r'" "iv_from (r' + 1) us'" "iv_from (r' + 1) vs'"
    "{l..r'} \<union> iv_set us' \<union> iv_set vs' = {l..r0} \<union> iv_set us \<union> iv_set vs" by auto
  then show ?thesis using rec[OF sp(2,3)] \<open>l \<le> r0\<close> by (simp add: zs_def skip_le_id Un_assoc)
qed

lemma union_loop_from:
  "iv_from b xs \<Longrightarrow> iv_from b ys \<Longrightarrow> r \<le> b \<Longrightarrow>
     iv_from b (union_loop r xs ys) \<and> iv_set (union_loop r xs ys) = iv_set xs \<union> iv_set ys"
proof (induction "length xs + length ys" arbitrary: b r xs ys rule: less_induct)
  case less
  have first: "iv_from b zs \<and> iv_set zs = iv_set (u # us) \<union> iv_set ws"
    if "iv_from b (u # us)" "iv_from b ws" "ws \<noteq> []" "left u \<le> left (hd ws)"
      and "ps = us \<and> qs = skip_le (right u) ws \<or> ps = skip_le (right u) ws \<and> qs = us"
      and "length us + length ws < length xs + length ys"
      and "zs = (let (r, xs, ys) = union_cont (right u) ps qs
                 in mk_iv (left u) r # union_loop r (skip_le r xs) (skip_le r ys))"
    for u us ws ps qs zs
  proof -
    obtain r' us' vs' where un: "union_cont (right u) ps qs = (r', us', vs')" by (metis prod_cases3)
    have fu: "iv_from (left u - 1) us" using that(1) by (auto intro: iv_from_mono)
    have fw: "iv_from (left u - 1) ws" using that(2,3,4) by (cases ws) auto
    have ab: "right u < right z" if "z \<in> set us \<union> set (skip_le (right u) ws)" for z
      using that iv_from_tl_above[OF \<open>iv_from b (u # us)\<close>] skip_le_above[OF fw] by auto
    have fs: "iv_from (left u - 1) (skip_le (right u) ws)" by (rule iv_from_dropWhile[OF fw])
    have "length us' + length vs' < length xs + length ys"
      using union_cont_length[of "right u" ps qs] un that(5,6)
        length_dropWhile_le[of "\<lambda>x. right x \<le> right u" ws] by (auto simp del: length_dropWhile_le)
    then have "iv_from (left u - 1) zs \<and> iv_set zs = {left u..right u} \<union> iv_set ps \<union> iv_set qs"
      using union_step[OF _ _ _ _ un less(1)] fu fs ab that(1,5,7) un by auto
    moreover have "{left u..right u} \<union> iv_set ps \<union> iv_set qs = iv_set (u # us) \<union> iv_set ws"
      using iv_set_skip_le[OF fw, of "left u" "right u"] that(5) by auto
    ultimately show ?thesis using that(1,7) un by auto
  qed
  show ?case
  proof (cases "xs \<noteq> [] \<and> ys \<noteq> []")
    case True
    then obtain x xt y yt where xs: "xs = x # xt" and ys: "ys = y # yt" by (meson neq_Nil_conv)
    show ?thesis
    proof (cases "left x < left y")
      case lt: True
      have "union_loop r xs ys = (let (r, xs, ys) = union_cont (right x) xt (skip_le (right x) ys)
          in mk_iv (left x) r # union_loop r (skip_le r xs) (skip_le r ys))"
        using lt True xs ys by (subst union_loop.simps) simp
      from first[of x xt ys, OF _ _ _ _ disjI1[OF conjI[OF refl refl]] _ this] show ?thesis
        using less.prems lt xs ys by (simp del: dropWhile.simps)
    next
      case ge: False
      have "union_loop r xs ys = (let (r, xs, ys) = union_cont (right y) (skip_le (right y) xs) yt
          in mk_iv (left y) r # union_loop r (skip_le r xs) (skip_le r ys))"
        using ge True xs ys by (subst union_loop.simps) simp
      from first[of y yt xs, OF _ _ _ _ disjI2[OF conjI[OF refl refl]] _ this] show ?thesis
        using less.prems ge xs ys by (simp del: dropWhile.simps add: Un_commute)
    qed
  next
    case False
    then show ?thesis
      using less.prems by (subst (1 2) union_loop.simps) (auto simp: union_rest_id)
  qed
qed


subsection \<open>Intersection\<close>

lemma intersect_loop_from:
  "iv_from a xs \<Longrightarrow> iv_from c ys \<Longrightarrow> iv_from (max a c) (intersect_loop xs ys)"
proof (induction xs ys arbitrary: a c rule: intersect_loop.induct)
  case (3 x xs y ys)
  have x: "a < left x" "left x \<le> right x" "iv_from (right x + 1) xs"
    and y: "c < left y" "left y \<le> right y" "iv_from (right y + 1) ys" using "3.prems" by auto
  note IH = "3.IH"(1)[of a "right y + 1"] "3.IH"(2)[of "left x - 1" "right y + 1"]
    "3.IH"(3)[of "right x + 1" "left y - 1"] "3.IH"(4)[of "right x + 1" c]
    "3.IH"(5)[of "right x + 1" "left y - 1"] "3.IH"(6)[of "left x - 1" "right y + 1"]
  have skip: "iv_from (max a c) zs" if "iv_from (max a (right y + 1)) zs \<or> iv_from (max (right x + 1) c) zs"
    for zs using that x y by (auto elim: iv_from_mono)
  show ?case
  proof (cases "left y < left x")
    case True
    then show ?thesis using IH(1,2,3) skip x y by (auto simp: max_def split: if_splits)
  next
    case False
    then show ?thesis using IH(4,5,6) skip x y by (auto simp: max_def split: if_splits)
  qed
qed simp_all

lemma iv_disjoint_tail: "iv_from (right x + 1) xs \<Longrightarrow> i \<le> right x + 1 \<Longrightarrow> i \<notin> iv_set xs"
  using iv_set_gt by fastforce

lemma intersect_loop_set:
  "iv_from a xs \<Longrightarrow> iv_from c ys \<Longrightarrow> iv_set (intersect_loop xs ys) = iv_set xs \<inter> iv_set ys"
proof (induction xs ys arbitrary: a c rule: intersect_loop.induct)
  case (3 x xs y ys)
  have x: "left x \<le> right x" "iv_from (right x + 1) xs"
    and y: "left y \<le> right y" "iv_from (right y + 1) ys" using "3.prems" by auto
  note IH = "3.IH"(1)[OF _ _ "3.prems"(1) y(2)] "3.IH"(2)[OF _ _ _ "3.prems"(1) y(2)]
    "3.IH"(3)[OF _ _ _ x(2) "3.prems"(2)] "3.IH"(4)[OF _ _ x(2) "3.prems"(2)]
    "3.IH"(5)[OF _ _ _ x(2) "3.prems"(2)] "3.IH"(6)[OF _ _ _ "3.prems"(1) y(2)]
  show ?case
  proof (rule set_eqI)
    fix i
    have t: "i \<in> iv_set xs \<longrightarrow> right x + 1 < i" "i \<in> iv_set ys \<longrightarrow> right y + 1 < i"
      using iv_set_gt[OF x(2)] iv_set_gt[OF y(2)] by auto
    show "i \<in> iv_set (intersect_loop (x # xs) (y # ys)) \<longleftrightarrow> i \<in> iv_set (x # xs) \<inter> iv_set (y # ys)"
    proof (cases "left y < left x")
      case True
      show ?thesis
        using True t x(1) y(1) by (simp add: IH(1,2,3) del: iv_from.simps) linarith
    next
      case False
      show ?thesis
        using False t x(1) y(1) by (simp add: IH(4,5,6) del: iv_from.simps) linarith
    qed
  qed
qed simp_all

subsection \<open>Difference\<close>

lemma subtract_cut_spec:
  assumes "subtract_cut l r ys = (zs, ys')" "l \<le> r" "iv_from l ys"
  shows "iv_set zs = {l..r} - iv_set ys \<and> (\<forall>i > r. i \<in> iv_set ys' \<longleftrightarrow> i \<in> iv_set ys) \<and>
    (\<exists>c. iv_from c ys') \<and> (\<forall>ws. iv_from (r + 1) ws \<longrightarrow> iv_from (l - 1) (zs @ ws))"
  using assms
proof (induction l r ys arbitrary: zs rule: subtract_cut.induct)
  case (1 l r)
  then show ?case by (auto intro: exI[of _ 0])
next
  case (2 l r y ys)
  have y: "l < left y" "left y \<le> right y" "iv_from (right y + 1) ys" using "2.prems" by auto
  have gt: "right y + 1 < i" if "i \<in> iv_set ys" for i using iv_set_gt[OF y(3) that] .
  show ?case
  proof (cases "right y < r")
    case True
    obtain us vs where uv: "subtract_cut (right y + 1) r ys = (us, vs)" by fastforce
    then have eqs: "zs = mk_iv l (left y - 1) # us" "ys' = vs" using "2.prems"(1) True by auto
    have "iv_from (right y) (us @ ws)" if "iv_from (r + 1) ws" for ws
      using "2.IH"[OF True uv[unfolded eqs(2)[symmetric]] _ y(3)] True that by simp
    moreover have "iv_set us = {right y + 1..r} - iv_set ys"
      "\<forall>i > r. i \<in> iv_set vs \<longleftrightarrow> i \<in> iv_set ys" "\<exists>c. iv_from c vs"
      using "2.IH"[OF True uv[unfolded eqs(2)[symmetric]] _ y(3)] True eqs(2) by auto
    moreover have "iv_from (left y) (us @ ws)" if "iv_from (r + 1) ws" for ws
      using calculation(1)[OF that] y(2) by (rule iv_from_mono)
    moreover have "i \<notin> iv_set ys" if "i \<le> right y" for i using gt that by fastforce
    ultimately show ?thesis using y True by (auto simp: eqs)
  next
    case False
    have zs: "zs = [mk_iv l (if left y \<le> r then left y - 1 else r)]" "ys' = y # ys"
      using "2.prems"(1) False by (auto split: if_splits)
    have "iv_set zs = {l..r} - iv_set (y # ys)"
    proof (rule set_eqI)
      fix i
      have "i \<in> iv_set ys \<longrightarrow> right y + 1 < i" using gt by blast
      then show "i \<in> iv_set zs \<longleftrightarrow> i \<in> {l..r} - iv_set (y # ys)"
        using False y by (simp add: zs) linarith
    qed
    moreover have "iv_from (l - 1) (zs @ ws)" if "iv_from (r + 1) ws" for ws
      using that y "2.prems"(2) iv_from_mono[OF that, of "left y"] by (simp add: zs)
    ultimately show ?thesis using zs(2) "2.prems"(3) by blast
  qed
qed


lemma subtract_body:
  assumes x: "b < left x" "left x \<le> right x" "iv_from (right x + 1) xs"
    and fy: "iv_from c (y # ys)" and nd: "left x \<le> right y"
    and IH: "\<And>c zs. iv_from c zs \<Longrightarrow>
      iv_from (right x + 1) (L zs) \<and> iv_set (L zs) = iv_set xs - iv_set zs"
  defines "R \<equiv>
    (if left y \<le> left x \<and> right x \<le> right y then L (y # ys)
     else if right x < left y then x # L (y # ys)
     else if right x \<le> right y then mk_iv (left x) (left y - 1) # L (y # ys)
     else (let (zs, ys') = (if left x < left y then subtract_cut (left x) (right x) (y # ys)
                            else subtract_cut (right y + 1) (right x) ys)
           in zs @ L ys'))"
  shows "iv_from b R \<and> iv_set R = iv_set (x # xs) - iv_set (y # ys)"
proof -
  have y: "left y \<le> right y" "iv_from (right y + 1) ys" using fy by auto
  have t: "i \<in> iv_set xs \<longrightarrow> right x + 1 < i" "i \<in> iv_set ys \<longrightarrow> right y + 1 < i" for i
    using iv_set_gt[OF x(3)] iv_set_gt[OF y(2)] by auto
  note rest = IH[OF fy]
  consider (over) "left y \<le> left x" "right x \<le> right y" | (step) "right x < left y"
    | (cut) "\<not> right x < left y" "right x \<le> right y" "left x < left y"
    | (inner) "\<not> right x < left y" "right y < right x"
    by linarith
  then show ?thesis
  proof cases
    case over
    have "i \<in> iv_set R \<longleftrightarrow> i \<in> iv_set (x # xs) - iv_set (y # ys)" for i
      using over t[of i] x y rest by (simp add: R_def) linarith
    moreover have "iv_from b R" using rest x over by (auto simp: R_def elim: iv_from_mono)
    ultimately show ?thesis by blast
  next
    case step
    have "i \<in> iv_set R \<longleftrightarrow> i \<in> iv_set (x # xs) - iv_set (y # ys)" for i
      using step t[of i] x y rest by (simp add: R_def) linarith
    moreover have "iv_from b R" using rest x step by (simp add: R_def)
    ultimately show ?thesis by blast
  next
    case cut
    have "i \<in> iv_set R \<longleftrightarrow> i \<in> iv_set (x # xs) - iv_set (y # ys)" for i
      using cut t[of i] x y rest by (simp add: R_def) linarith
    moreover have "iv_from b R"
      using rest x cut iv_from_mono[of "right x + 1" _ "left y"] by (simp add: R_def)
    ultimately show ?thesis by blast
  next
    case inner
    define l us where "l = (if left x < left y then left x else right y + 1)"
      and "us = (if left x < left y then y # ys else ys)"
    obtain zs ys' where zs: "subtract_cut l (right x) us = (zs, ys')" by fastforce
    have R: "R = zs @ L ys'" using inner zs by (auto simp: R_def l_def us_def split: if_splits)
    have l: "left x \<le> l" "l \<le> right x" "iv_from l us"
      using inner x y nd fy by (auto simp: l_def us_def)
    from subtract_cut_spec[OF zs l(2,3)] obtain c' where
      sp: "iv_set zs = {l..right x} - iv_set us" "\<And>i. right x < i \<Longrightarrow> i \<in> iv_set ys' \<longleftrightarrow> i \<in> iv_set us"
        "iv_from c' ys'" "\<And>ws. iv_from (right x + 1) ws \<Longrightarrow> iv_from (l - 1) (zs @ ws)" by auto
    have "iv_from b R" using iv_from_mono[OF sp(4), of "L ys'" b] IH[OF sp(3)] l(1) x(1) R by simp
    moreover have "i \<in> iv_set R \<longleftrightarrow> i \<in> iv_set (x # xs) - iv_set (y # ys)" for i
    proof (cases "right x < i")
      case True
      then show ?thesis using sp(1) sp(2)[OF True] IH[OF sp(3)] inner y t(2)[of i]
        by (cases "left x < left y") (simp_all add: R us_def)
    next
      case False
      then have "i \<in> iv_set R \<longleftrightarrow> i \<in> {l..right x} - iv_set us"
        using IH[OF sp(3)] t(1)[of i] by (auto simp: R sp(1))
      then show ?thesis using False inner y t[of i] nd
        by (cases "left x < left y") (simp_all add: l_def us_def, linarith+)
    qed
    ultimately show ?thesis by blast
  qed
qed

lemma subtract_loop_spec:
  "iv_from b xs \<Longrightarrow> iv_from c ys \<Longrightarrow>
     iv_from b (subtract_loop xs ys) \<and> iv_set (subtract_loop xs ys) = iv_set xs - iv_set ys"
proof (induction xs arbitrary: b c ys)
  case (Cons x xs)
  have x: "b < left x" "left x \<le> right x" "iv_from (right x + 1) xs" using Cons.prems by auto
  define D where "D = dropWhile (\<lambda>y. right y < left x) ys"
  have fD: "iv_from c D" unfolding D_def using Cons.prems(2) by (rule iv_from_dropWhile)
  have drop: "iv_set (x # xs) - iv_set D = iv_set (x # xs) - iv_set ys"
  proof -
    have "iv_set ys = iv_set (takeWhile (\<lambda>y. right y < left x) ys) \<union> iv_set D"
      unfolding D_def by (metis iv_set_simps(3) takeWhile_dropWhile_id)
    moreover have "i < left x" if "i \<in> iv_set (takeWhile (\<lambda>y. right y < left x) ys)" for i
      using that by (fastforce simp: iv_set_def dest: set_takeWhileD)
    moreover have "left x \<le> i" if "i \<in> iv_set (x # xs)" for i
      using that x iv_set_gt[OF x(3), of i] by auto
    ultimately show ?thesis by fastforce
  qed
  have "iv_from b (subtract_loop (x # xs) ys) \<and>
      iv_set (subtract_loop (x # xs) ys) = iv_set (x # xs) - iv_set D"
  proof (cases D)
    case Nil
    then show ?thesis using Cons.prems by (simp add: D_def[symmetric])
  next
    case (Cons y ys')
    then have "left x \<le> right y" unfolding D_def by (simp add: dropWhile_eq_Cons_conv)
    from subtract_body[OF x fD[unfolded Cons] this Cons.IH[OF x(3)]] show ?thesis
      by (simp add: D_def[symmetric] Cons)
  qed
  then show ?case using drop by simp
qed simp


subsection \<open>Complement\<close>

lemma complement_loop_spec:
  "iv_from b (x # xs) \<Longrightarrow> (\<And>z. z \<in> set (x # xs) \<Longrightarrow> right z \<le> fd_sup) \<Longrightarrow>
     iv_from (right x) (complement_loop (x # xs)) \<and>
     iv_set (complement_loop (x # xs)) = {right x + 1..fd_sup} - iv_set xs"
proof (induction xs arbitrary: b x)
  case (Cons y ys)
  have y: "right x + 1 < left y" "left y \<le> right y" "iv_from (right y + 1) ys" "right y \<le> fd_sup"
    using Cons.prems by auto
  have IH: "iv_from (right y) (complement_loop (y # ys))"
    "iv_set (complement_loop (y # ys)) = {right y + 1..fd_sup} - iv_set ys"
    using Cons.IH[of "right x + 1" y] Cons.prems by auto
  have t: "i \<in> iv_set ys \<longrightarrow> right y + 1 < i" for i using iv_set_gt[OF y(3)] by auto
  have "i \<in> iv_set (complement_loop (x # y # ys)) \<longleftrightarrow> i \<in> {right x + 1..fd_sup} - iv_set (y # ys)" for i
    using t[of i] y by (simp add: IH(2)) linarith
  moreover have "iv_from (right x) (complement_loop (x # y # ys))"
    using y iv_from_mono[OF IH(1), of "left y"] by simp
  ultimately show ?case by blast
qed auto

lemma complement_iv_spec:
  assumes "iv_ok xs" "xs \<noteq> []"
  shows "iv_from (-1) (complement_iv xs) \<and> iv_set (complement_iv xs) = {0..fd_sup} - iv_set xs"
proof -
  obtain x ys where xs: "xs = x # ys" using assms by (cases xs) auto
  have x: "0 \<le> left x" "left x \<le> right x" "iv_from (right x + 1) ys" "right x \<le> fd_sup"
    using assms by (auto simp: iv_ok_from xs)
  have sp: "iv_from (right x) (complement_loop xs)"
    "iv_set (complement_loop xs) = {right x + 1..fd_sup} - iv_set ys"
    using complement_loop_spec[of "-1" x ys] assms by (auto simp: iv_ok_from xs)
  have t: "i \<in> iv_set ys \<longrightarrow> right x + 1 < i" for i using iv_set_gt[OF x(3)] by auto
  have "i \<in> iv_set (complement_iv xs) \<longleftrightarrow> i \<in> {0..fd_sup} - iv_set xs" for i
    using t[of i] x sp(2) by (simp add: complement_iv_def xs) linarith
  moreover have "iv_from (-1) (complement_iv xs)"
    using x iv_from_mono[OF sp(1)] by (simp add: complement_iv_def xs)
  ultimately show ?thesis by blast
qed

text \<open>The callers allocate exactly as many entries as \<^verbatim>\<open>complement\<close> writes.\<close>

lemma length_complement_loop:
  "xs \<noteq> [] \<Longrightarrow> length (complement_loop xs) = length xs - 1 + (if right (last xs) < fd_sup then 1 else 0)"
  by (induction xs rule: complement_loop.induct) auto

lemma length_complement_iv:
  assumes "isConsistent_iv xs" "xs \<noteq> []"
  shows "int (length (complement_iv xs)) = int (length xs) - 1
    + (if 0 < findMinElem_iv xs then 1 else 0) + (if findMaxElem_iv xs < fd_sup then 1 else 0)"
proof -
  have "int (length xs - 1) = int (length xs) - 1" using assms(2) by (cases xs) auto
  then show ?thesis using assms(2)
    by (simp add: complement_iv_def length_complement_loop findMinElem_iv_def findMaxElem_iv_def
        last_conv_nth)
qed

text \<open>
  The results of the binary operations fit the arrays the callers allocate for them:
  \<open>x.high + y.high\<close> entries for a union, one fewer for an intersection.
\<close>

lemma length_union_rest: "length (union_rest r xs) \<le> length xs"
  by (simp add: union_rest_def)

lemma length_union_loop: "length (union_loop r xs ys) \<le> length xs + length ys"
proof (induction r xs ys rule: union_loop.induct)
  case (1 r xs ys)
  show ?case
  proof (cases "xs \<noteq> [] \<and> ys \<noteq> []")
    case True
    define l r0 us vs where "l = (if left (hd xs) < left (hd ys) then left (hd xs) else left (hd ys))"
      and "r0 = (if left (hd xs) < left (hd ys) then right (hd xs) else right (hd ys))"
      and "us = (if left (hd xs) < left (hd ys) then tl xs else skip_le (right (hd ys)) xs)"
      and "vs = (if left (hd xs) < left (hd ys) then skip_le (right (hd xs)) ys else tl ys)"
    obtain r' us' vs' where un: "union_cont r0 us vs = (r', us', vs')" by (metis prod_cases3)
    have eq: "union_loop r xs ys = mk_iv l r' # union_loop r' (skip_le r' us') (skip_le r' vs')"
      using True un
      by (subst union_loop.simps) (simp add: l_def r0_def us_def vs_def split: if_splits)
    have "length (union_loop r' (skip_le r' us') (skip_le r' vs'))
        \<le> length (skip_le r' us') + length (skip_le r' vs')"
      using "1.IH" True un by (simp add: r0_def us_def vs_def split: if_splits)
    moreover have "length us' + length vs' \<le> length us + length vs"
      using union_cont_length[of r0 us vs] un by simp
    moreover have "length us + length vs < length xs + length ys"
      using True length_dropWhile_le[of "\<lambda>x. right x \<le> right (hd xs)" ys]
        length_dropWhile_le[of "\<lambda>x. right x \<le> right (hd ys)" xs]
      by (auto simp: us_def vs_def neq_Nil_conv simp del: length_dropWhile_le)
    ultimately show ?thesis
      using length_dropWhile_le[of "\<lambda>x. right x \<le> r'" us']
        length_dropWhile_le[of "\<lambda>x. right x \<le> r'" vs']
      by (simp add: eq del: length_dropWhile_le)
  next
    case False
    then show ?thesis
      using length_union_rest[of r xs] length_union_rest[of r ys]
      by (subst union_loop.simps) (auto simp: add_mono)
  qed
qed

lemma length_intersect_loop:
  "length (intersect_loop xs ys) \<le> length xs + length ys - 1"
  by (induction xs ys rule: intersect_loop.induct) (auto split: if_splits)


lemma length_subtract_cut:
  "subtract_cut l r ys = (zs, ys') \<Longrightarrow> length zs + length ys' \<le> Suc (length ys)"
proof (induction l r ys arbitrary: zs rule: subtract_cut.induct)
  case (2 l r y ys)
  then show ?case by (fastforce split: if_splits prod.splits)
qed auto

lemma length_subtract_loop: "length (subtract_loop xs ys) \<le> length xs + length ys"
proof (induction xs arbitrary: ys)
  case (Cons x xs)
  define D where "D = dropWhile (\<lambda>y. right y < left x) ys"
  have D: "length D \<le> length ys" by (simp add: D_def)
  show ?case
  proof (cases D)
    case Nil
    then show ?thesis by (simp add: D_def[symmetric])
  next
    case (Cons y ys')
    have "length (zs @ subtract_loop xs ws) \<le> Suc (length xs) + length (y # ys')"
      if "subtract_cut l r us = (zs, ws)" "us = y # ys' \<or> us = ys'" for l r us zs ws
      using length_subtract_cut[OF that(1)] that(2) Cons.IH[of ws] by auto
    moreover obtain zs ws zs' ws' where c: "subtract_cut (left x) (right x) (y # ys') = (zs, ws)"
      "subtract_cut (right y + 1) (right x) ys' = (zs', ws')" by (metis prod.exhaust)
    ultimately have "length (zs @ subtract_loop xs ws) \<le> Suc (length xs) + length (y # ys')"
      "length (zs' @ subtract_loop xs ws') \<le> Suc (length xs) + length (y # ys')" by blast+
    then show ?thesis using Cons.IH[of "y # ys'"] D c Cons by (auto simp: D_def[symmetric])
  qed
qed simp

section \<open>Binary search and the element operations\<close>

lemma iv_from_sorted: "iv_from b xs \<Longrightarrow> sorted_wrt (\<lambda>x y. right x + 1 < left y) xs"
proof (induction xs arbitrary: b)
  case (Cons x xs)
  then show ?case using iv_from_mem[of "right x + 1" xs] by auto
qed simp

definition iv_found :: "FDIntervals \<Rightarrow> int \<Rightarrow> nat \<Rightarrow> bool" where
  "iv_found xs i k \<longleftrightarrow> k < length xs \<and> (k = 0 \<or> left (xs ! k) \<le> i) \<and>
     (\<forall>j. k < j \<and> j < length xs \<longrightarrow> i < left (xs ! j))"

lemma findPossible_loop_spec:
  assumes "sorted_wrt (\<lambda>x y. left x < left y) xs" "lo \<le> hi" "hi < length xs"
    and "lo = 0 \<or> left (xs ! lo) \<le> i" "\<forall>j. hi < j \<and> j < length xs \<longrightarrow> i < left (xs ! j)"
  shows "iv_found xs i (findPossible_loop xs i lo hi)"
  using assms
proof (induction xs i lo hi rule: findPossible_loop.induct)
  case (1 xs i lo hi)
  note srt = "1.prems"(1) and hi = "1.prems"(3) and low = "1.prems"(4) and high = "1.prems"(5)
  define mid where "mid = (lo + hi + 1) div 2"
  show ?case
  proof (cases "lo < hi")
    case True
    then have mid: "lo < mid" "mid \<le> hi" by (auto simp: mid_def)
    have unf: "findPossible_loop xs i lo hi = (if i < left (xs ! mid)
        then findPossible_loop xs i lo (mid - 1) else findPossible_loop xs i mid hi)"
      unfolding mid_def by (subst findPossible_loop.simps) (simp only: True if_True Let_def)
    show ?thesis
    proof (cases "i < left (xs ! mid)")
      case less: True
      have "i < left (xs ! j)" if "mid - 1 < j" "j < length xs" for j
      proof -
        have "j = mid \<or> mid < j" using that mid by linarith
        then show ?thesis using less that sorted_wrt_nth_less[OF srt, of mid j] by auto
      qed
      then have "iv_found xs i (findPossible_loop xs i lo (mid - 1))"
        using "1.IH"(1)[OF True mid_def less srt _ _ low] mid hi by simp
      then show ?thesis using less unf by simp
    next
      case ge: False
      then have "iv_found xs i (findPossible_loop xs i mid hi)"
        using "1.IH"(2)[OF True mid_def ge srt mid(2) hi _ high] by simp
      then show ?thesis using ge unf by simp
    qed
  next
    case False
    then have "findPossible_loop xs i lo hi = lo" by (subst findPossible_loop.simps) simp
    moreover have "lo = hi" using False "1.prems"(2) by simp
    ultimately show ?thesis using hi low high unfolding iv_found_def by metis
  qed
qed

text \<open>The index found splits the array around the only interval that can hold \<open>i\<close>.\<close>

lemma findPossible_split:
  assumes "iv_from b xs" "xs \<noteq> []"
  obtains ps x qs where "xs = ps @ x # qs" "findPossibleIndexOf xs i = length ps"
    "ps = [] \<or> left x \<le> i" "\<And>q. q \<in> set qs \<Longrightarrow> i < left q"
proof -
  have srt: "sorted_wrt (\<lambda>x y. left x < left y) xs"
  proof (rule sorted_wrt_mono_rel[OF _ iv_from_sorted[OF assms(1)]])
    fix x y assume "x \<in> set xs" "right x + 1 < left y"
    then show "left x < left y" using iv_from_mem[OF assms(1), of x] by simp
  qed
  have vac: "\<forall>j. length xs - 1 < j \<and> j < length xs \<longrightarrow> i < left (xs ! j)" by auto
  define k where "k = findPossibleIndexOf xs i"
  have "iv_found xs i k"
    unfolding k_def findPossibleIndexOf_def
    by (rule findPossible_loop_spec[OF srt _ _ _ vac]) (use assms(2) in auto)
  then have k: "k < length xs" "k = 0 \<or> left (xs ! k) \<le> i"
    "\<And>j. k < j \<Longrightarrow> j < length xs \<Longrightarrow> i < left (xs ! j)"
    unfolding iv_found_def by blast+
  obtain ps qs where sp: "xs = ps @ xs ! k # qs" "length ps = k" "drop (Suc k) xs = qs"
    using nth_split[OF k(1)] by metis
  have above: "i < left q" if q: "q \<in> set qs" for q
  proof -
    obtain m where "m < length qs" "q = qs ! m" 
      using q unfolding in_set_conv_nth by blast
    then have "q = xs ! (Suc k + m)" "Suc k + m < length xs" using sp(3) k(1) by auto
    then show ?thesis using k(3)[of "Suc k + m"] by simp
  qed
  show thesis
    by (rule that[OF sp(1) _ _ above]) (use sp(2) k(2) in \<open>auto simp: k_def\<close>)
qed

lemma iv_split_bounds:
  assumes "iv_from b (ps @ x # qs)"
  shows "left x \<le> right x" "iv_from b ps" "iv_from (right x + 1) qs"
    "\<And>j. j \<in> iv_set ps \<Longrightarrow> j + 1 < left x" "\<And>j. j \<in> iv_set qs \<Longrightarrow> right x + 1 < j"
    "ps \<noteq> [] \<Longrightarrow> right (last ps) + 1 < left x" "b < left x"
proof -
  show "left x \<le> right x" "iv_from b ps" and q: "iv_from (right x + 1) qs"
    using assms by (auto simp: iv_from_append)
  show "\<And>j. j \<in> iv_set ps \<Longrightarrow> j + 1 < left x"
    using iv_from_right_le[OF assms] by (fastforce simp: iv_set_def)
  show "\<And>j. j \<in> iv_set qs \<Longrightarrow> right x + 1 < j" using iv_set_gt[OF q] .
  show "ps \<noteq> [] \<Longrightarrow> right (last ps) + 1 < left x" using assms by (auto simp: iv_from_append)
  show "b < left x" using iv_from_mem[OF assms, of x] by simp
qed

lemma isIn_iv_iff:
  assumes "isConsistent_iv xs" "xs \<noteq> []"
  shows "isIn_iv xs i \<longleftrightarrow> i \<in> iv_set xs"
proof -
  obtain b where b: "iv_from b xs" using assms consistent_ex_from by blast
  obtain ps x qs where sp: "xs = ps @ x # qs" "findPossibleIndexOf xs i = length ps"
    "ps = [] \<or> left x \<le> i" "\<And>q. q \<in> set qs \<Longrightarrow> i < left q"
    using findPossible_split[OF b assms(2)] by metis
  have "i \<notin> iv_set ps" using sp(3) iv_split_bounds(4)[OF b[unfolded sp(1)], of i] by auto
  moreover have "i \<notin> iv_set qs" using sp(4) by (force simp: iv_set_def)
  ultimately show ?thesis using sp(1,2) by (auto simp: isIn_iv_def)
qed


lemma le_iv_spec:
  assumes "iv_from b xs" "xs \<noteq> []" "le_iv xs leq = (xs', n)"
  shows "iv_from b xs' \<and> iv_set xs' = iv_set xs \<inter> {..leq} \<and> n = int (card (iv_set xs'))"
proof -
  obtain ps x qs where sp: "xs = ps @ x # qs" "findPossibleIndexOf xs leq = length ps"
    "ps = [] \<or> left x \<le> leq" "\<And>q. q \<in> set qs \<Longrightarrow> leq < left q"
    using findPossible_split[OF assms(1,2)] by metis
  note bd = iv_split_bounds[OF assms(1)[unfolded sp(1)]]
  have xs': "xs' = ps @ (if left x \<le> leq \<and> leq \<le> right x then [x\<lparr>right := leq\<rparr>]
      else if right x < leq then [x] else [])" "n = findSize_iv xs'"
    using assms(3) sp(1,2) by (auto simp: le_iv_def Let_def)
  have f: "iv_from b xs'"
    using bd(1,2,6,7) sp(3) by (auto simp: xs'(1) iv_from_append)
  have t: "i \<in> iv_set ps \<longrightarrow> i + 1 < left x" "i \<in> iv_set qs \<longrightarrow> leq < i" for i
    using bd(4) sp(4) by (auto simp: iv_set_def) fastforce
  have "i \<in> iv_set xs' \<longleftrightarrow> i \<in> iv_set xs \<inter> {..leq}" for i
    using t[of i] sp(3) bd(1) by (auto simp: xs'(1) sp(1))
  then show ?thesis using f xs'(2) findSize_iv_from[OF f] by blast
qed

lemma ge_iv_spec:
  assumes "iv_from b xs" "xs \<noteq> []" "ge_iv xs geq = (xs', n)"
  shows "iv_from (max b (geq - 1)) xs' \<and> iv_set xs' = iv_set xs \<inter> {geq..} \<and> n = int (card (iv_set xs'))"
proof -
  obtain ps x qs where sp: "xs = ps @ x # qs" "findPossibleIndexOf xs geq = length ps"
    "ps = [] \<or> left x \<le> geq" "\<And>q. q \<in> set qs \<Longrightarrow> geq < left q"
    using findPossible_split[OF assms(1,2)] by metis
  note bd = iv_split_bounds[OF assms(1)[unfolded sp(1)]]
  have xs': "xs' = (if left x \<le> geq \<and> geq \<le> right x then [x\<lparr>left := geq\<rparr>]
      else if right x < geq then [] else [x]) @ qs" "n = findSize_iv xs'"
    using assms(3) sp(1,2) by (auto simp: ge_iv_def Let_def split: if_splits)
  have f: "iv_from (max b (geq - 1)) xs'"
  proof -
    have q: "iv_from geq qs" using bd(3) sp(4) by (cases qs) simp_all
    then show ?thesis using bd(1,3,7) iv_from_mono[OF q, of "max b (geq - 1)"]
      by (auto simp: xs'(1))
  qed
  have t: "i \<in> iv_set ps \<longrightarrow> i + 1 < left x" "i \<in> iv_set qs \<longrightarrow> geq < i" for i
    using bd(4) sp(4) by (auto simp: iv_set_def) fastforce
  have "i \<in> iv_set xs' \<longleftrightarrow> i \<in> iv_set xs \<inter> {geq..}" for i
    using t[of i] sp(3) bd(1) by (auto simp: xs'(1) sp(1))
  then show ?thesis using f xs'(2) findSize_iv_from[OF f] by blast
qed

lemma minus_int_iv_spec:
  assumes "iv_from b xs" "v \<in> iv_set xs"
  shows "iv_from b (minus_int_iv xs v) \<and> iv_set (minus_int_iv xs v) = iv_set xs - {v}"
proof -
  have "xs \<noteq> []" using assms(2) by auto
  then obtain ps x qs where sp: "xs = ps @ x # qs" "findPossibleIndexOf xs v = length ps"
    "ps = [] \<or> left x \<le> v" "\<And>q. q \<in> set qs \<Longrightarrow> v < left q"
    using findPossible_split[OF assms(1)] by metis
  note bd = iv_split_bounds[OF assms(1)[unfolded sp(1)]]
  have t: "i \<in> iv_set ps \<longrightarrow> i + 1 < left x" "i \<in> iv_set qs \<longrightarrow> right x + 1 < i" for i
    using bd(4,5) by auto
  have "v \<notin> iv_set qs" using sp(4) by (force simp: iv_set_def)
  then have v: "left x \<le> v" "v \<le> right x" using assms(2) t[of v] sp(1,3) by auto
  define ys where "ys = (if left x = right x then [] else if left x = v then [x\<lparr>left := left x + 1\<rparr>]
    else if right x = v then [x\<lparr>right := right x - 1\<rparr>]
    else [x\<lparr>right := v - 1\<rparr>, x\<lparr>left := v + 1\<rparr>])"
  have eq: "minus_int_iv xs v = ps @ ys @ qs"
    using v sp(1,2) by (auto simp: minus_int_iv_def ys_def Let_def)
  have "iv_from b (ps @ ys @ qs)"
    using bd(1,2,3,6,7) v iv_from_mono[OF bd(3)] unfolding ys_def
    by (auto simp: iv_from_append)
  moreover have "iv_set ys = {left x..right x} - {v}" using v by (auto simp: ys_def)
  then have "iv_set (ps @ ys @ qs) = iv_set xs - {v}" using t[of v] v by (auto simp: sp(1))
  ultimately show ?thesis by (simp add: eq)
qed


lemma plus_int_iv_spec:
  assumes "iv_from b xs" "xs \<noteq> []" "v \<notin> iv_set xs" "b < v"
  shows "iv_from b (plus_int_iv xs v) \<and> iv_set (plus_int_iv xs v) = insert v (iv_set xs)"
proof -
  obtain ps x qs where sp: "xs = ps @ x # qs" "findPossibleIndexOf xs v = length ps"
    "ps = [] \<or> left x \<le> v" "\<And>q. q \<in> set qs \<Longrightarrow> v < left q"
    using findPossible_split[OF assms(1,2)] by metis
  note bd = iv_split_bounds[OF assms(1)[unfolded sp(1)]]
  have out: "v < left x \<or> right x < v" using assms(3) by (auto simp: sp(1))
  define ys where "ys =
    (if v = right x + 1 then
       (case qs of [] \<Rightarrow> [x\<lparr>right := right x + 1\<rparr>]
        | q # qs' \<Rightarrow> if v = left q - 1 then x\<lparr>right := right q\<rparr> # qs'
                      else x\<lparr>right := right x + 1\<rparr> # qs)
     else if v = left x - 1 then x\<lparr>left := v\<rparr> # qs
     else (case qs of [] \<Rightarrow> if right x < v then [x, mk_iv v v] else [mk_iv v v, x]
        | q # qs' \<Rightarrow> if v = left q - 1 then x # q\<lparr>left := left q - 1\<rparr> # qs'
             else if right x < v then x # mk_iv v v # qs else mk_iv v v # x # qs))"
  have eq: "plus_int_iv xs v = ps @ ys"
  proof -
    let ?k = "length ps"
    have at: "xs ! ?k = x" "take ?k xs = ps" "drop (Suc ?k) xs = qs" "take (Suc ?k) xs = ps @ [x]"
      "drop (Suc (Suc ?k)) xs = tl qs" "Suc ?k < length xs \<longleftrightarrow> qs \<noteq> []" "drop ?k xs = x # qs"
      "\<And>z. xs[?k := z] = ps @ z # qs"
      by (simp_all add: sp(1) drop_Suc)
    have nx: "xs ! Suc ?k = hd qs" "\<And>z. xs[Suc ?k := z] = ps @ x # z # tl qs" if "qs \<noteq> []"
      using that by (cases qs; simp add: sp(1) nth_append list_update_append)+
    have "\<not> (left x \<le> v \<and> v \<le> right x)" using out by auto
    then show ?thesis
      by (cases qs) (auto simp: plus_int_iv_def Let_def sp(2) at nx ys_def)
  qed
  have q: "v < left q \<and> right x + 1 < left q \<and> left q \<le> right q \<and> iv_from (right q + 1) qs'"
    if "qs = q # qs'" for q qs' using that bd(3) sp(4)[of q] by simp
  have "iv_from b (ps @ ys)"
    using bd(1,2,3,6,7) out assms(4) sp(3) q
    by (cases qs; auto simp: iv_from_append ys_def)
  moreover have "iv_set ys = insert v ({left x..right x} \<union> iv_set qs)"
    using bd(1) q out by (cases qs; auto simp: ys_def)
  ultimately show ?thesis unfolding eq by (simp add: sp(1))
qed


lemma nextLarger_loop_iv_spec: "iv_from b xs \<Longrightarrow> next_larger (iv_set xs) v (nextLarger_loop_iv v xs)"
proof (induction xs arbitrary: b)
  case (Cons x xs)
  have x: "left x \<le> right x" "iv_from (right x + 1) xs" using Cons.prems by auto
  have t: "right x + 1 < i" if "i \<in> iv_set xs" for i using iv_set_gt[OF x(2) that] .
  consider "v < left x" | "left x \<le> v" "v < right x" | "right x \<le> v" by linarith
  then show ?case
  proof cases
    case 1
    then show ?thesis using x(1) by (auto intro!: next_largerI dest: t)
  next
    case 2
    then show ?thesis by (auto intro!: next_largerI)
  next
    case 3
    then have "next_larger (iv_set (x # xs)) v r \<longleftrightarrow> next_larger (iv_set xs) v r" for r
      by (intro next_larger_cong) auto
    then show ?thesis using 3 x Cons.IH[OF x(2)] by auto
  qed
qed (simp add: next_larger_def)

lemma nextSmaller_loop_iv_spec:
  "iv_from b (rev xs) \<Longrightarrow> next_smaller (iv_set xs) v (nextSmaller_loop_iv v xs)"
proof (induction xs)
  case (Cons x xs)
  note bd = iv_split_bounds[of b "rev xs" x "[]"]
  have x: "left x \<le> right x" "iv_from b (rev xs)" using Cons.prems bd by auto
  have set: "iv_set (rev xs) = iv_set xs" by (simp add: iv_set_def)
  have t: "i + 1 < left x" if "i \<in> iv_set xs" for i using bd(4) Cons.prems that by (simp add: set)
  consider "right x < v" | "left x < v" "v \<le> right x" | "v \<le> left x" by linarith
  then show ?case
  proof cases
    case 1
    then show ?thesis using x(1) by (auto intro!: next_smallerI dest: t)
  next
    case 2
    then show ?thesis by (auto intro!: next_smallerI)
  next
    case 3
    then have "next_smaller (iv_set (x # xs)) v r \<longleftrightarrow> next_smaller (iv_set xs) v r" for r
      by (intro next_smaller_cong) auto
    then show ?thesis using 3 x Cons.IH[OF x(2)] by auto
  qed
qed (simp add: next_smaller_def)

lemma nextSmallerElem_iv_spec:
  assumes "isConsistent_iv xs" "\<And>i. i \<in> iv_set xs \<Longrightarrow> m \<le> i"
  shows "next_smaller (iv_set xs) v (nextSmallerElem_iv xs v m)"
proof (cases "v \<le> m")
  case True
  then show ?thesis using assms(2) by (fastforce simp: nextSmallerElem_iv_def intro: next_smaller_none)
next
  case False
  obtain b where "iv_from b xs" using assms(1) consistent_ex_from by blast
  then show ?thesis using nextSmaller_loop_iv_spec[of b "rev xs" v] False
    by (simp add: nextSmallerElem_iv_def) (simp add: iv_set_def)
qed

lemma nextLargerElem_iv_spec:
  assumes "isConsistent_iv xs" "\<And>i. i \<in> iv_set xs \<Longrightarrow> i \<le> m"
  shows "next_larger (iv_set xs) v (nextLargerElem_iv xs v m)"
proof (cases "m \<le> v")
  case True
  then show ?thesis using assms(2) by (fastforce simp: nextLargerElem_iv_def intro: next_larger_none)
next
  case False
  obtain b where "iv_from b xs" using assms(1) consistent_ex_from by blast
  then show ?thesis using nextLarger_loop_iv_spec[of b xs v] False
    by (simp add: nextLargerElem_iv_def)
qed

lemma bounds_iv_run:
  assumes "isConsistent_iv xs" "v \<in> iv_set xs"
  shows "run_of (iv_set xs) v (lowerBound_iv xs v) (upperBound_iv xs v)"
proof -
  obtain b where b: "iv_from b xs" using assms consistent_ex_from by blast
  have "xs \<noteq> []" using assms(2) by auto
  then obtain ps x qs where sp: "xs = ps @ x # qs" "findPossibleIndexOf xs v = length ps"
    "ps = [] \<or> left x \<le> v" "\<And>q. q \<in> set qs \<Longrightarrow> v < left q"
    using findPossible_split[OF b] by metis
  note bd = iv_split_bounds[OF b[unfolded sp(1)]]
  have "v \<notin> iv_set qs" using sp(4) by (force simp: iv_set_def)
  moreover have "v \<notin> iv_set ps" using sp(3) bd(4)[of v] by auto
  ultimately have v: "left x \<le> v" "v \<le> right x" using assms(2) by (auto simp: sp(1))
  have "left x - 1 \<notin> iv_set ps" "right x + 1 \<notin> iv_set ps" using bd(1) bd(4) by fastforce+
  moreover have "left x - 1 \<notin> iv_set qs" "right x + 1 \<notin> iv_set qs"
    using bd(1) bd(5)[of "left x - 1"] bd(5)[of "right x + 1"] by auto
  ultimately show ?thesis
    using v by (auto simp: run_of_def lowerBound_iv_def upperBound_iv_def sp(2)) (auto simp: sp(1))
qed

lemma midElem_iv_spec:
  "iv_from b xs \<Longrightarrow> i \<notin> iv_set xs \<Longrightarrow> \<exists>j \<in> iv_set xs. j < i \<Longrightarrow> \<exists>j \<in> iv_set xs. i < j \<Longrightarrow>
     \<exists>r. midElem_iv xs i = Some r \<and> nearest (iv_set xs) i r"
proof (induction xs i arbitrary: b rule: midElem_iv.induct)
  case (1 x y zs i)
  have x: "left x \<le> right x" "right x + 1 < left y" "left y \<le> right y"
    and fy: "iv_from (right x + 1) (y # zs)" "iv_from (right y + 1) zs" using "1.prems" by auto
  have z: "right y + 1 < j" if "j \<in> iv_set zs" for j using iv_set_gt[OF fy(2) that] .
  have ir: "right x < i"
  proof (rule ccontr)
    assume "\<not> right x < i"
    then have "i < left x" using "1.prems"(2) by auto
    then have "\<not> (\<exists>j \<in> iv_set (x # y # zs). j < i)" using x by (auto dest: z)
    then show False using "1.prems"(3) by blast
  qed
  show ?case
  proof (cases "i < left y")
    case True
    have "j \<le> right x \<or> left y \<le> j" if "j \<in> iv_set (x # y # zs)" for j
      using that x z[of j] by auto
    then have "nearest (iv_set (x # y # zs)) i (if left y - i \<ge> i - right x then right x else left y)"
      using ir True x by (intro nearestI) auto
    then show ?thesis using ir True by (simp add: Let_def)
  next
    case False
    then have iy: "right y < i" using "1.prems"(2) by auto
    have "nearest (iv_set (x # y # zs)) i r" if "nearest (iv_set (y # zs)) i r" for r
    proof -
      have "right y \<in> iv_set (y # zs)" using x by simp
      then have "\<bar>r - i\<bar> \<le> \<bar>right y - i\<bar>" using that unfolding nearest_def by blast
      then have "\<bar>r - i\<bar> < \<bar>j - i\<bar>" if "left x \<le> j" "j \<le> right x" for j using that x iy by auto
      then show ?thesis using that by (fastforce simp: nearest_def)
    qed
    moreover have "\<exists>j \<in> iv_set (y # zs). j < i" using iy x by (intro bexI[of _ "right y"]) auto
    moreover have "\<exists>j \<in> iv_set (y # zs). i < j" using "1.prems"(4) ir by auto
    ultimately show ?thesis
      using "1.IH"[OF _ fy(1)] False "1.prems"(2) by fastforce
  qed
qed force+

section \<open>Interval arrays are a domain representation\<close>

interpretation iv: domain_rep "iv_from (-1)" iv_set findSize_iv findMinElem_iv
    "\<lambda>xs. (xs, findMaxElem_iv xs)" isIn_iv nextSmallerElem_iv nextLargerElem_iv
    "\<lambda>xs v mn. lowerBound_iv xs v" "\<lambda>xs v mx. upperBound_iv xs v" midElem_iv
proof (unfold_locales, goal_cases)
  case (2 xs i)
  then show ?case using iv_set_gt by fastforce
next
  case (7 xs v m)
  then show ?case using nextSmallerElem_iv_spec consistent_ex_from by blast
next
  case (8 xs v m)
  then show ?case using nextLargerElem_iv_spec consistent_ex_from by blast
qed (use findSize_iv_from findMinElem_iv_Min findMaxElem_iv_Max isIn_iv_iff bounds_iv_run
      midElem_iv_spec consistent_ex_from in \<open>fastforce+\<close>)

end
