(* ===== verification/Bits.thy ===== *)
theory Bits
  imports Prelude
begin

text \<open>
  \<^verbatim>\<open>platform/emulator/bits.hh\<close> and \<^verbatim>\<open>bits.cc\<close>: counting the bits of an array of
  words with a table of the bit counts of all bytes. The table is the one of the source;
  the theory proves it entry by entry and shows that the routine returns the number of
  set bits of the array.
\<close>

definition bits_in_byte :: "nat list" where
  "bits_in_byte = [
  0, 1, 1, 2, 1, 2, 2, 3, 1, 2, 2, 3, 2, 3, 3, 4,
  1, 2, 2, 3, 2, 3, 3, 4, 2, 3, 3, 4, 3, 4, 4, 5,
  1, 2, 2, 3, 2, 3, 3, 4, 2, 3, 3, 4, 3, 4, 4, 5,
  2, 3, 3, 4, 3, 4, 4, 5, 3, 4, 4, 5, 4, 5, 5, 6,
  1, 2, 2, 3, 2, 3, 3, 4, 2, 3, 3, 4, 3, 4, 4, 5,
  2, 3, 3, 4, 3, 4, 4, 5, 3, 4, 4, 5, 4, 5, 5, 6,
  2, 3, 3, 4, 3, 4, 4, 5, 3, 4, 4, 5, 4, 5, 5, 6,
  3, 4, 4, 5, 4, 5, 5, 6, 4, 5, 5, 6, 5, 6, 6, 7,
  1, 2, 2, 3, 2, 3, 3, 4, 2, 3, 3, 4, 3, 4, 4, 5,
  2, 3, 3, 4, 3, 4, 4, 5, 3, 4, 4, 5, 4, 5, 5, 6,
  2, 3, 3, 4, 3, 4, 4, 5, 3, 4, 4, 5, 4, 5, 5, 6,
  3, 4, 4, 5, 4, 5, 5, 6, 4, 5, 5, 6, 5, 6, 6, 7,
  2, 3, 3, 4, 3, 4, 4, 5, 3, 4, 4, 5, 4, 5, 5, 6,
  3, 4, 4, 5, 4, 5, 5, 6, 4, 5, 5, 6, 5, 6, 6, 7,
  3, 4, 4, 5, 4, 5, 5, 6, 4, 5, 5, 6, 5, 6, 6, 7,
  4, 5, 5, 6, 5, 6, 6, 7, 5, 6, 6, 7, 6, 7, 7, 8]"

definition word_bits :: "int32 \<Rightarrow> nat" where
  "word_bits iai =
     bits_in_byte ! unat (drop_bit 24 iai) +
     bits_in_byte ! unat (drop_bit 16 (iai AND 0x00ff0000)) +
     bits_in_byte ! unat (drop_bit 8 (iai AND 0x0000ff00)) +
     bits_in_byte ! unat (iai AND 0x000000ff)"

text \<open>The loop counts \<open>i\<close> from \<open>m\<close> down; the sum is over the first \<open>m\<close> words.\<close>

primrec get_num_of_bits :: "nat \<Rightarrow> int32 list \<Rightarrow> nat" where
  "get_num_of_bits 0 ia = 0"
| "get_num_of_bits (Suc m) ia = word_bits (ia ! m) + get_num_of_bits m ia"

subsection \<open>The table and one word\<close>

text \<open>The count table of the \<open>n\<close>-bit numbers: the upper half repeats the lower one, plus one.\<close>

primrec count_table :: "nat \<Rightarrow> nat list" where
  "count_table 0 = [0]"
| "count_table (Suc n) = count_table n @ map Suc (count_table n)"

lemma length_count_table [simp]: "length (count_table n) = 2 ^ n"
  by (induction n) auto

lemma count_table_nth: "b < 2 ^ n \<Longrightarrow> count_table n ! b = card {k. k < n \<and> bit b k}"
proof (induction n arbitrary: b)
  case (Suc n)
  have split: "{k. k < Suc n \<and> bit b k} = {k. k < n \<and> bit b k} \<union> (if bit b n then {n} else {})"
    by (auto simp: less_Suc_eq)
  show ?case
  proof (cases "b < 2 ^ n")
    case True
    then have "\<not> bit b n" by (simp add: bit_iff_odd)
    then show ?thesis using Suc.IH[OF True] split True by (simp add: nth_append)
  next
    case False
    define c where "c = b - 2 ^ n"
    have c: "c < 2 ^ n" "b = 2 ^ n + c" using Suc.prems False by (auto simp: c_def)
    then have "b div 2 ^ n = 1" by (simp add: div_add1_eq)
    then have tb: "c = take_bit n b" and "bit b n" using c by (auto simp: take_bit_eq_mod bit_iff_odd)
    have "{k. k < n \<and> bit c k} = {k. k < n \<and> bit b k}" by (auto simp: tb bit_take_bit_iff)
    moreover have "count_table (Suc n) ! b = Suc (count_table n ! c)"
      using c by (simp add: nth_append)
    moreover have "n \<notin> {k. k < n \<and> bit b k}" by simp
    ultimately show ?thesis using Suc.IH[OF c(1)] split \<open>bit b n\<close> by simp
  qed
qed simp

lemma bits_in_byte_table: "bits_in_byte = count_table 8"
  by (simp add: bits_in_byte_def eval_nat_numeral)

lemma bits_in_byte_nth: "b < 256 \<Longrightarrow> bits_in_byte ! b = card {k. k < 8 \<and> bit b k}"
  using count_table_nth[of b 8] by (simp add: bits_in_byte_table)

lemma card_bits_range:
  "card {k. k < n + m \<and> P k} = card {k. k < n \<and> P k} + card {k. k < m \<and> P (n + k :: nat)}"
proof -
  have "{k. k < n + m \<and> P k} = {k. k < n \<and> P k} \<union> (+) n ` {k. k < m \<and> P (n + k)}"
    by (auto simp: image_iff) (metis le_add_diff_inverse less_diff_conv2 linorder_not_le add.commute)
  moreover have "{k. k < n \<and> P k} \<inter> (+) n ` {k. k < m \<and> P (n + k)} = {}" by auto
  ultimately show ?thesis by (simp add: card_Un_disjoint card_image)
qed

lemma byte_count:
  fixes w :: int32
  assumes "n + 8 \<le> 32" "b = unat (drop_bit n (w AND push_bit n 0xff))"
  shows "bits_in_byte ! b = card {k. k < 8 \<and> bit w (n + k)}"
proof -
  have bits: "bit b k \<longleftrightarrow> k < 8 \<and> bit w (n + k)" for k
  proof -
    have ff: "(0xff :: int32) = mask 8" by (simp add: mask_eq_exp_minus_1)
    show ?thesis
      using assms(1) unfolding assms(2) ff
      by (auto simp: bit_unsigned_iff bit_simps dest: bit_imp_le_length)
  qed
  have "b < 2 ^ 8"
  proof -
    have "take_bit 8 b = b" by (rule bit_eqI) (auto simp: bit_simps bits)
    then show ?thesis by (metis take_bit_nat_less_exp)
  qed
  then have "bits_in_byte ! b = card {k. k < 8 \<and> bit b k}"
    by (simp add: bits_in_byte_nth)
  also have "{k. k < 8 \<and> bit b k} = {k. k < 8 \<and> bit w (n + k)}" by (simp add: bits)
  finally show ?thesis .
qed

lemma word_bits_card: "word_bits w = card {k. k < 32 \<and> bit w k}"
proof -
  have "drop_bit 24 w = drop_bit 24 (w AND push_bit 24 (mask 8))"
    by (rule bit_eqI) (auto simp: bit_simps dest: bit_imp_le_length)
  then have "drop_bit 24 w = drop_bit 24 (w AND push_bit 24 0xff)" by (simp add: mask_eq_exp_minus_1)
  then have "word_bits w = card {k. k < 8 \<and> bit w (24 + k)} + card {k. k < 8 \<and> bit w (16 + k)}
      + card {k. k < 8 \<and> bit w (8 + k)} + card {k. k < 8 \<and> bit w (0 + k)}"
    unfolding word_bits_def
    using byte_count[of 24 _ w] byte_count[of 16 _ w] byte_count[of 8 _ w] byte_count[of 0 _ w] by simp
  also have "\<dots> = card {k. k < 32 \<and> bit w k}"
    using card_bits_range[of 8 24 "bit w"] card_bits_range[of 8 16 "\<lambda>k. bit w (8 + k)"]
      card_bits_range[of 8 8 "\<lambda>k. bit w (16 + k)"] by (simp add: add.assoc[symmetric])
  finally show ?thesis .
qed


subsection \<open>An array of words as a set of bit numbers\<close>

definition wbits :: "int32 list \<Rightarrow> nat set" where
  "wbits ws = {k. k < 32 * length ws \<and> bit (ws ! (k div 32)) (k mod 32)}"

lemma wbits_div_less: "k < 32 * n \<longleftrightarrow> k div 32 < (n :: nat)"
  by (simp add: div_less_iff_less_mult mult.commute)

lemma mem_wbits [bv_simps]: "k \<in> wbits ws \<longleftrightarrow> k div 32 < length ws \<and> bit (ws ! (k div 32)) (k mod 32)"
  by (simp add: wbits_def wbits_div_less)

lemma finite_wbits [simp]: "finite (wbits ws)"
  by (simp add: wbits_def)

lemma wbits_less: "k \<in> wbits ws \<Longrightarrow> k < 32 * length ws"
  by (simp add: wbits_def)

lemma wbits_Nil [simp]: "wbits [] = {}"
  by (simp add: wbits_def)

lemma mem_wbits_update:
  "j < length ws \<Longrightarrow>
     k \<in> wbits (ws[j := w]) \<longleftrightarrow> (if k div 32 = j then bit w (k mod 32) else k \<in> wbits ws)"
  by (auto simp: mem_wbits)

lemma wbits_word: "m < 32 \<Longrightarrow> 32 * n + m \<in> wbits ws \<longleftrightarrow> n < length ws \<and> bit (ws ! n) m"
  by (simp add: mem_wbits)

lemma wbits_ex_word: "k \<in> wbits ws \<Longrightarrow> ws ! (k div 32) \<noteq> 0"
  by (auto simp: mem_wbits)

lemma wbits_empty_iff: "wbits ws = {} \<longleftrightarrow> (\<forall>w \<in> set ws. w = 0)"
proof
  show "\<forall>w \<in> set ws. w = 0 \<Longrightarrow> wbits ws = {}"
    by (metis all_not_in_conv mem_wbits nth_mem wbits_ex_word)
  assume e: "wbits ws = {}"
  show "\<forall>w \<in> set ws. w = 0"
  proof
    fix w assume "w \<in> set ws"
    then obtain n where n: "n < length ws" "w = ws ! n" by (auto simp: in_set_conv_nth)
    have "\<not> bit w m" for m
    proof (cases "m < 32")
      case True
      then show ?thesis using e n wbits_word[OF True, of n ws] by auto
    next
      case False
      then show ?thesis using bit_imp_le_length[of w m] by auto
    qed
    then show "w = 0" by (intro bit_eqI) simp
  qed
qed

lemma get_num_of_bits_upto:
  "m \<le> length ws \<Longrightarrow> get_num_of_bits m ws = card {k. k < 32 * m \<and> k \<in> wbits ws}"
proof (induction m)
  case (Suc m)
  have "{k. k < 32 \<and> 32 * m + k \<in> wbits ws} = {k. k < 32 \<and> bit (ws ! m) k}"
    using Suc.prems by (auto simp: wbits_word)
  then have "card {k. k < 32 * m + 32 \<and> k \<in> wbits ws}
      = card {k. k < 32 * m \<and> k \<in> wbits ws} + word_bits (ws ! m)"
    by (simp add: card_bits_range word_bits_card)
  then show ?case using Suc by (simp add: add.commute)
qed simp

lemma get_num_of_bits_card: "get_num_of_bits (length ws) ws = card (wbits ws)"
proof -
  have "{k. k < 32 * length ws \<and> k \<in> wbits ws} = wbits ws" by (auto simp: wbits_def)
  then show ?thesis by (simp add: get_num_of_bits_upto)
qed

text \<open>A single bit.\<close>

lemma bit_two_power: "m < 32 \<Longrightarrow> bit (2 ^ m :: int32) k \<longleftrightarrow> k = m"
  by (auto simp: bit_exp_iff)

lemma and_push_one: "m < 32 \<Longrightarrow> (w :: int32) AND push_bit m 1 \<noteq> 0 \<longleftrightarrow> bit w m"
  by (metis and_exp_eq_0_iff_not_bit push_bit_eq_mult mult_1)

end
