(* ===== verification/FDBitVector.thy ===== *)
theory FDBitVector
  imports FDIntervals Bits
begin

text \<open>
  Class \<^verbatim>\<open>FDBitVector\<close> of \<^verbatim>\<open>platform/emulator/fdomn.cc\<close>: a domain kept as an array of
  32-bit words, bit \<open>i mod 32\<close> of word \<open>i div 32\<close> standing for the element \<open>i\<close>. The
  object is the list of the first \<^verbatim>\<open>high\<close> words, so \<^verbatim>\<open>high\<close> is the length of the list
  and \<^verbatim>\<open>findHigh\<close>, which only ever shrinks it, is a \<open>take\<close>. A shift of a signed \<open>int\<close> to
  the right is \<^const>\<open>signed_drop_bit\<close>. A read outside the array is the value \<^const>\<open>None\<close>
  where the code has loops that could run there (\<^verbatim>\<open>midElem\<close>).
\<close>

section \<open>Data and operations\<close>

definition toTheLowerEnd :: "int32 list" where
  "toTheLowerEnd = [
  0x00000001,0x00000003,0x00000007,0x0000000f,
  0x0000001f,0x0000003f,0x0000007f,0x000000ff,
  0x000001ff,0x000003ff,0x000007ff,0x00000fff,
  0x00001fff,0x00003fff,0x00007fff,0x0000ffff,
  0x0001ffff,0x0003ffff,0x0007ffff,0x000fffff,
  0x001fffff,0x003fffff,0x007fffff,0x00ffffff,
  0x01ffffff,0x03ffffff,0x07ffffff,0x0fffffff,
  0x1fffffff,0x3fffffff,0x7fffffff,0xffffffff]"

definition toTheUpperEnd :: "int32 list" where
  "toTheUpperEnd = [
  0xffffffff,0xfffffffe,0xfffffffc,0xfffffff8,
  0xfffffff0,0xffffffe0,0xffffffc0,0xffffff80,
  0xffffff00,0xfffffe00,0xfffffc00,0xfffff800,
  0xfffff000,0xffffe000,0xffffc000,0xffff8000,
  0xffff0000,0xfffe0000,0xfffc0000,0xfff80000,
  0xfff00000,0xffe00000,0xffc00000,0xff800000,
  0xff000000,0xfe000000,0xfc000000,0xf8000000,
  0xf0000000,0xe0000000,0xc0000000,0x80000000]"

type_synonym FDBitVector = "int32 list"

abbreviation widx :: "int \<Rightarrow> nat" where
  "widx i \<equiv> nat (div32 i)"

abbreviation bidx :: "int \<Rightarrow> nat" where
  "bidx i \<equiv> nat (mod32 i)"

definition currBvMaxElem :: "FDBitVector \<Rightarrow> int" where
  "currBvMaxElem b = 32 * int (length b) - 1"

definition isIn_bv :: "FDBitVector \<Rightarrow> int \<Rightarrow> bool" where
  "isIn_bv b i = (if i \<le> currBvMaxElem b then b ! widx i AND push_bit (bidx i) 1 \<noteq> 0 else False)"

definition setBit_bv :: "FDBitVector \<Rightarrow> int \<Rightarrow> FDBitVector" where
  "setBit_bv b i = b[widx i := b ! widx i OR push_bit (bidx i) 1]"

definition resetBit_bv :: "FDBitVector \<Rightarrow> int \<Rightarrow> FDBitVector" where
  "resetBit_bv b i = b[widx i := b ! widx i AND NOT (push_bit (bidx i) 1)]"

text \<open>\<^verbatim>\<open>for (i = l; i < u; i++) b_arr[i] = w\<close>.\<close>

definition fill_words :: "nat \<Rightarrow> nat \<Rightarrow> int32 \<Rightarrow> FDBitVector \<Rightarrow> FDBitVector" where
  "fill_words l u w b = fold (\<lambda>i b. b[i := w]) [l..<u] b"

definition setEmpty_bv :: "FDBitVector \<Rightarrow> FDBitVector" where
  "setEmpty_bv b = fill_words 0 (length b) 0 b"

definition addFromTo :: "FDBitVector \<Rightarrow> int \<Rightarrow> int \<Rightarrow> FDBitVector" where
  "addFromTo b from0 to0 =
     (let low_word = widx from0; low_bit = bidx from0; up_word = widx to0; up_bit = bidx to0
      in if low_word = up_word
         then b[low_word := b ! low_word OR (toTheLowerEnd ! up_bit AND toTheUpperEnd ! low_bit)]
         else (let b = b[low_word := b ! low_word OR toTheUpperEnd ! low_bit];
                   b = fill_words (low_word + 1) up_word (NOT 0) b
               in b[up_word := b ! up_word OR toTheLowerEnd ! up_bit]))"

definition setFromTo :: "FDBitVector \<Rightarrow> int \<Rightarrow> int \<Rightarrow> FDBitVector" where
  "setFromTo b from0 to0 =
     (let low_word = widx from0; low_bit = bidx from0; up_word = widx to0; up_bit = bidx to0;
          b = fill_words 0 low_word 0 b;
          b = fill_words (up_word + 1) (length b) 0 b
      in if low_word = up_word
         then b[low_word := toTheLowerEnd ! up_bit AND toTheUpperEnd ! low_bit]
         else (let b = b[low_word := toTheUpperEnd ! low_bit];
                   b = fill_words (low_word + 1) up_word (NOT 0) b
               in b[up_word := toTheLowerEnd ! up_bit]))"

text \<open>\<^verbatim>\<open>initList\<close>: the ranges are added from the last one to the first.\<close>

primrec initList_loop_bv :: "nat \<Rightarrow> int list \<Rightarrow> int list \<Rightarrow> FDBitVector \<Rightarrow> FDBitVector" where
  "initList_loop_bv 0 ls rs b = b"
| "initList_loop_bv (Suc n) ls rs b = initList_loop_bv n ls rs (addFromTo b (ls ! n) (rs ! n))"

definition initList_bv :: "FDBitVector \<Rightarrow> nat \<Rightarrow> int list \<Rightarrow> int list \<Rightarrow> FDBitVector" where
  "initList_bv b n ls rs = initList_loop_bv n ls rs (setEmpty_bv b)"

definition findSize_bv :: "FDBitVector \<Rightarrow> int" where
  "findSize_bv b = int (get_num_of_bits (length b) b)"

definition findHigh_bv :: "FDBitVector \<Rightarrow> int \<Rightarrow> FDBitVector" where
  "findHigh_bv b max_elem = take (nat (word32 max_elem)) b"

text \<open>The search for the lowest bit of a non-zero word, halving the range five times.\<close>

definition low_step :: "nat \<Rightarrow> nat \<Rightarrow> int32 \<times> int \<Rightarrow> int32 \<times> int" where
  "low_step sh n p = (case p of (word, v) \<Rightarrow>
     if push_bit sh word = 0 then (signed_drop_bit n word, v + int n) else (word, v))"

definition low_bit_of :: "int32 \<Rightarrow> int \<Rightarrow> int" where
  "low_bit_of word v =
     (let p = low_step 30 2 (low_step 28 4 (low_step 24 8 (low_step 16 16 (word, v))))
      in if push_bit 31 (fst p) = 0 then snd p + 1 else snd p)"

fun findMinElem_loop :: "int \<Rightarrow> FDBitVector \<Rightarrow> int" where
  "findMinElem_loop v [] = -1"
| "findMinElem_loop v (w # ws) = (if w \<noteq> 0 then low_bit_of w v else findMinElem_loop (v + 32) ws)"

definition findMinElem_bv :: "FDBitVector \<Rightarrow> int" where
  "findMinElem_bv b = findMinElem_loop 0 b"

definition high_step :: "nat \<Rightarrow> nat \<Rightarrow> int32 \<times> int \<Rightarrow> int32 \<times> int" where
  "high_step sh n p = (case p of (word, v) \<Rightarrow>
     if signed_drop_bit sh word = 0 then (push_bit n word, v - int n) else (word, v))"

definition high_bit_of :: "int32 \<Rightarrow> int \<Rightarrow> int" where
  "high_bit_of word v =
     (let p = high_step 30 2 (high_step 28 4 (high_step 24 8 (high_step 16 16 (word, v))))
      in if signed_drop_bit 31 (fst p) = 0 then snd p - 1 else snd p)"

text \<open>The loop runs from the last word down: the recursion is on the reversed array.\<close>

fun findMaxElem_loop :: "int \<Rightarrow> FDBitVector \<Rightarrow> int" where
  "findMaxElem_loop v [] = v"
| "findMaxElem_loop v (w # ws) = (if w \<noteq> 0 then high_bit_of w v else findMaxElem_loop (v - 32) ws)"

text \<open>\<^verbatim>\<open>findMaxElem\<close> also trims the array (\<^verbatim>\<open>findHigh\<close>).\<close>

definition findMaxElem_bv :: "FDBitVector \<Rightarrow> FDBitVector \<times> int" where
  "findMaxElem_bv b =
     (let v = findMaxElem_loop (currBvMaxElem b) (rev b) in (findHigh_bv b v, v))"

function nextSmaller_loop_bv :: "FDBitVector \<Rightarrow> int \<Rightarrow> int \<Rightarrow> int" where
  "nextSmaller_loop_bv b new_v min_elem =
     (if new_v \<ge> min_elem then
        (if isIn_bv b new_v then new_v else nextSmaller_loop_bv b (new_v - 1) min_elem)
      else -1)"
  by pat_completeness auto
termination
  by (relation "measure (\<lambda>(b, v, m). nat (v - m + 1))") auto

definition nextSmallerElem_bv :: "FDBitVector \<Rightarrow> int \<Rightarrow> int \<Rightarrow> int" where
  "nextSmallerElem_bv b v min_elem = nextSmaller_loop_bv b (v - 1) min_elem"

function nextLarger_loop_bv :: "FDBitVector \<Rightarrow> int \<Rightarrow> int \<Rightarrow> int" where
  "nextLarger_loop_bv b new_v max_elem =
     (if new_v \<le> max_elem then
        (if isIn_bv b new_v then new_v else nextLarger_loop_bv b (new_v + 1) max_elem)
      else -1)"
  by pat_completeness auto
termination
  by (relation "measure (\<lambda>(b, v, m). nat (m - v + 1))") auto

definition nextLargerElem_bv :: "FDBitVector \<Rightarrow> int \<Rightarrow> int \<Rightarrow> int" where
  "nextLargerElem_bv b v max_elem = nextLarger_loop_bv b (v + 1) max_elem"

function lower_loop_bv :: "FDBitVector \<Rightarrow> int \<Rightarrow> int \<Rightarrow> int" where
  "lower_loop_bv b new_v min_elem =
     (if new_v \<ge> min_elem then
        (if \<not> isIn_bv b new_v then new_v + 1 else lower_loop_bv b (new_v - 1) min_elem)
      else min_elem)"
  by pat_completeness auto
termination
  by (relation "measure (\<lambda>(b, v, m). nat (v - m + 1))") auto

definition lowerBound_bv :: "FDBitVector \<Rightarrow> int \<Rightarrow> int \<Rightarrow> int" where
  "lowerBound_bv b v min_elem = (if v = min_elem then v else lower_loop_bv b (v - 1) min_elem)"

function upper_loop_bv :: "FDBitVector \<Rightarrow> int \<Rightarrow> int \<Rightarrow> int" where
  "upper_loop_bv b new_v max_elem =
     (if new_v \<le> max_elem then
        (if \<not> isIn_bv b new_v then new_v - 1 else upper_loop_bv b (new_v + 1) max_elem)
      else max_elem)"
  by pat_completeness auto
termination
  by (relation "measure (\<lambda>(b, v, m). nat (m - v + 1))") auto

definition upperBound_bv :: "FDBitVector \<Rightarrow> int \<Rightarrow> int \<Rightarrow> int" where
  "upperBound_bv b v max_elem = (if v = max_elem then v else upper_loop_bv b (v + 1) max_elem)"

declare nextSmaller_loop_bv.simps [simp del] nextLarger_loop_bv.simps [simp del]
  lower_loop_bv.simps [simp del] upper_loop_bv.simps [simp del]

text \<open>
  \<^verbatim>\<open>midElem\<close>: the nearest non-zero word below word \<open>n\<close>, and the nearest one from word \<open>n\<close>
  on; \<open>None\<close> where the loop would read outside the array.
\<close>

fun mid_word_down :: "FDBitVector \<Rightarrow> nat \<Rightarrow> nat option" where
  "mid_word_down b 0 = None"
| "mid_word_down b (Suc n) = (if b ! n \<noteq> 0 then Some n else mid_word_down b n)"

function mid_word_up :: "FDBitVector \<Rightarrow> nat \<Rightarrow> nat option" where
  "mid_word_up b n =
     (if n < length b then (if b ! n \<noteq> 0 then Some n else mid_word_up b (Suc n)) else None)"
  by pat_completeness auto
termination
  by (relation "measure (\<lambda>(b, n). length b - n)") auto

declare mid_word_up.simps [simp del]

fun mid_bit_down :: "int32 \<Rightarrow> nat \<Rightarrow> int" where
  "mid_bit_down w 0 = (if bit w 0 then 0 else -1)"
| "mid_bit_down w (Suc n) = (if bit w (Suc n) then int (Suc n) else mid_bit_down w n)"

function mid_bit_up :: "int32 \<Rightarrow> nat \<Rightarrow> int" where
  "mid_bit_up w n = (if n < 32 \<and> \<not> bit w n then mid_bit_up w (Suc n) else int n)"
  by pat_completeness auto
termination
  by (relation "measure (\<lambda>(w, n). 32 - n)") auto

declare mid_bit_up.simps [simp del]

definition midElem_bv :: "FDBitVector \<Rightarrow> int \<Rightarrow> int option" where
  "midElem_bv b i =
     (let lb = bidx i; lw = widx i
      in case (if push_bit (31 - lb) (b ! lw) = 0
               then map_option (\<lambda>lw. (lw, 31)) (mid_word_down b lw) else Some (lw, lb)) of
           None \<Rightarrow> None
         | Some (lw', lb') \<Rightarrow>
             (case (if signed_drop_bit lb (b ! lw) = 0
                    then map_option (\<lambda>uw. (uw, 0)) (mid_word_up b (Suc lw)) else Some (lw, lb)) of
                None \<Rightarrow> None
              | Some (uw', ub') \<Rightarrow>
                  (let l = 32 * int lw' + mid_bit_down (b ! lw') lb';
                       u = 32 * int uw' + mid_bit_up (b ! uw') ub'
                   in Some (if u - i \<ge> i - l then l else u))))"

text \<open>
  \<^verbatim>\<open>mkRaw\<close>: the runs of the vector in ascending order, as the pairs it writes to the two
  conversion arrays; \<open>r\<close> is the flag "outside a run", \<open>l\<close> the start of the current run.
\<close>

function mkRaw_loop :: "FDBitVector \<Rightarrow> int \<Rightarrow> bool \<Rightarrow> int \<Rightarrow> (int \<times> int) list" where
  "mkRaw_loop b i r l =
     (if i < currBvMaxElem b + 2 then
        (if isIn_bv b i then mkRaw_loop b (i + 1) False (if r then i else l)
         else if \<not> r then
           (let d = i - l
            in (if d = 1 then (l, l) else (l, i - 1)) # mkRaw_loop b (i + 1) True l)
         else mkRaw_loop b (i + 1) r l)
      else [])"
  by pat_completeness auto
termination
  by (relation "measure (\<lambda>(b, i, r, l). nat (currBvMaxElem b + 2 - i))") auto

declare mkRaw_loop.simps [simp del]

definition mkRaw :: "FDBitVector \<Rightarrow> (int \<times> int) list" where
  "mkRaw b = mkRaw_loop b 0 True (-1)"

definition le_bv :: "FDBitVector \<Rightarrow> int \<Rightarrow> FDBitVector \<times> int" where
  "le_bv b leq =
     (let upper_word = widx leq; upper_bit = bidx leq;
          b = fill_words (upper_word + 1) (length b) 0 b;
          b = b[upper_word := b ! upper_word AND toTheLowerEnd ! upper_bit]
      in (b, findSize_bv b))"

definition ge_bv :: "FDBitVector \<Rightarrow> int \<Rightarrow> FDBitVector \<times> int" where
  "ge_bv b geq =
     (let lower_word = widx geq; lower_bit = bidx geq;
          b = fill_words 0 lower_word 0 b;
          b = b[lower_word := b ! lower_word AND toTheUpperEnd ! lower_bit]
      in (b, findSize_bv b))"

definition union_bv :: "FDBitVector \<Rightarrow> FDBitVector \<Rightarrow> FDBitVector \<times> int" where
  "union_bv x y =
     (let min_high = min (length x) (length y);
          z = map (\<lambda>i. x ! i OR y ! i) [0..<min_high] @ drop min_high x @ drop min_high y
      in (z, findSize_bv z))"

definition intersect_bv :: "FDBitVector \<Rightarrow> FDBitVector \<Rightarrow> FDBitVector \<times> int" where
  "intersect_bv x y =
     (let high = min (length x) (length y); z = map (\<lambda>i. x ! i AND y ! i) [0..<high]
      in (z, findSize_bv z))"

definition minus_bv :: "FDBitVector \<Rightarrow> FDBitVector \<Rightarrow> FDBitVector \<times> int" where
  "minus_bv x y =
     (let m = min (length x) (length y);
          z = map (\<lambda>i. x ! i AND NOT (y ! i)) [0..<m] @ drop m x
      in (z, findSize_bv z))"


section \<open>The set a bit vector stands for\<close>

definition bv_set :: "FDBitVector \<Rightarrow> int set" where
  "bv_set b = int ` wbits b"

lemma mem_bv_set: "i \<in> bv_set b \<longleftrightarrow> 0 \<le> i \<and> nat i \<in> wbits b"
  by (force simp: bv_set_def)

lemma int_mem_bv_set [simp]: "int k \<in> bv_set b \<longleftrightarrow> k \<in> wbits b"
  by (simp add: mem_bv_set)

lemma finite_bv_set [simp]: "finite (bv_set b)"
  by (simp add: bv_set_def)

lemma bv_set_eqI: "(\<And>k. int k \<in> S \<longleftrightarrow> k \<in> wbits b) \<Longrightarrow> (\<And>i. i \<in> S \<Longrightarrow> 0 \<le> i) \<Longrightarrow> bv_set b = S"
  by (auto simp: mem_bv_set) (metis nat_0_le)+

lemma idx_of [simp]: "nat (int k div 32) = k div 32" "nat (int k mod 32) = k mod 32"
  by (simp_all add: nat_div_distrib nat_mod_distrib)

lemma nonneg_idx: "0 \<le> i \<Longrightarrow> widx i = nat i div 32 \<and> bidx i = nat i mod 32"
  by (simp add: nat_div_distrib nat_mod_distrib)

lemma bidx_less [simp]: "bidx i < 32"
  by simp

lemma bv_set_bounds: "i \<in> bv_set b \<Longrightarrow> 0 \<le> i \<and> i \<le> currBvMaxElem b"
  using wbits_less by (fastforce simp: mem_bv_set currBvMaxElem_def)

lemma findSize_bv_card: "findSize_bv b = int (card (bv_set b))"
  by (simp add: findSize_bv_def get_num_of_bits_card bv_set_def card_image)

lemma isIn_bv_iff: "0 \<le> i \<Longrightarrow> isIn_bv b i \<longleftrightarrow> i \<in> bv_set b"
proof -
  assume i: "0 \<le> i"
  then have "i \<le> currBvMaxElem b \<longleftrightarrow> nat i div 32 < length b"
    by (auto simp: currBvMaxElem_def wbits_div_less[symmetric])
  then show ?thesis using i nonneg_idx[OF i] and_push_one[of "nat i mod 32" "b ! (nat i div 32)"]
    by (simp add: isIn_bv_def mem_bv_set mem_wbits)
qed

subsection \<open>Masks and ranges\<close>

lemma toTheLowerEnd_nth: "k < 32 \<Longrightarrow> toTheLowerEnd ! k = mask (Suc k)"
proof -
  have "list_all (\<lambda>k. toTheLowerEnd ! k = mask (Suc k)) [0..<32]"
    by (simp add: toTheLowerEnd_def upt_rec mask_eq_exp_minus_1)
  then show "k < 32 \<Longrightarrow> ?thesis" by (simp add: list_all_iff)
qed

lemma toTheUpperEnd_nth: "k < 32 \<Longrightarrow> toTheUpperEnd ! k = NOT (mask k)"
proof -
  have "list_all (\<lambda>k. toTheUpperEnd ! k = NOT (mask k)) [0..<32]"
    by (simp add: toTheUpperEnd_def upt_rec mask_eq_exp_minus_1)
  then show "k < 32 \<Longrightarrow> ?thesis" by (simp add: list_all_iff)
qed

lemma bit_LowerEnd [simp]: "k < 32 \<Longrightarrow> bit (toTheLowerEnd ! k) m \<longleftrightarrow> m \<le> k"
  by (auto simp: toTheLowerEnd_nth bit_simps)

lemma bit_UpperEnd [simp]: "k < 32 \<Longrightarrow> m < 32 \<Longrightarrow> bit (toTheUpperEnd ! k) m \<longleftrightarrow> k \<le> m"
  by (auto simp: toTheUpperEnd_nth bit_simps)

lemma length_fill_words [simp]: "length (fill_words l u w b) = length b"
proof -
  have "length (fold (\<lambda>i b. b[i := w]) is b) = length b" for "is" by (induction "is" arbitrary: b) auto
  then show ?thesis by (simp add: fill_words_def)
qed

lemma nth_fill_words:
  "n < length b \<Longrightarrow> fill_words l u w b ! n = (if l \<le> n \<and> n < u then w else b ! n)"
proof (induction u arbitrary: b)
  case (Suc u)
  show ?case
  proof (cases "l \<le> u")
    case True
    then have "fill_words l (Suc u) w b = (fill_words l u w b)[u := w]" by (simp add: fill_words_def)
    then show ?thesis using Suc True by (cases "n = u") auto
  next
    case False
    then have "fill_words l (Suc u) w b = b" by (simp add: fill_words_def)
    then show ?thesis using False by auto
  qed
qed (simp add: fill_words_def)

lemma mem_fill_words [bv_simps]:
  "k \<in> wbits (fill_words l u w b) \<longleftrightarrow>
     k div 32 < length b \<and> (if l \<le> k div 32 \<and> k div 32 < u then bit w (k mod 32) else k \<in> wbits b)"
  by (auto simp: mem_wbits nth_fill_words)

lemma setEmpty_bv [simp]: "bv_set (setEmpty_bv b) = {}" "length (setEmpty_bv b) = length b"
  by (auto simp: setEmpty_bv_def bv_set_def mem_fill_words)

lemma same_word_eq: "j div 32 = k div 32 \<Longrightarrow> j = k \<longleftrightarrow> j mod 32 = (k mod 32 :: nat)"
  by (metis div_mult_mod_eq)

lemma bv_elem_nat:
  assumes "0 \<le> i" "i \<le> currBvMaxElem b"
  shows "\<exists>k. i = int k \<and> k div 32 < length b"
proof -
  have "nat i < 32 * length b" using assms by (simp add: currBvMaxElem_def)
  then show ?thesis using assms(1) by (intro exI[of _ "nat i"]) (simp add: wbits_div_less)
qed

lemma setBit_bv_set:
  assumes "0 \<le> i" "i \<le> currBvMaxElem b"
  shows "bv_set (setBit_bv b i) = insert i (bv_set b)"
proof -
  obtain k where k: "i = int k" "k div 32 < length b"
    using bv_elem_nat[OF assms] by blast
  have "j \<in> wbits (setBit_bv b i) \<longleftrightarrow> j = k \<or> j \<in> wbits b" for j
    using k(2) same_word_eq[of j k]
    by (cases "j div 32 = k div 32")
      (auto simp: setBit_bv_def k(1) mem_wbits_update bit_or_iff bit_two_power mem_wbits)
  then show ?thesis by (intro bv_set_eqI) (auto simp: k(1) mem_bv_set)
qed

lemma resetBit_bv_set:
  assumes "0 \<le> i" "i \<le> currBvMaxElem b"
  shows "bv_set (resetBit_bv b i) = bv_set b - {i}"
proof -
  obtain k where k: "i = int k" "k div 32 < length b"
    using bv_elem_nat[OF assms] by blast
  have "j \<in> wbits (resetBit_bv b i) \<longleftrightarrow> j \<noteq> k \<and> j \<in> wbits b" for j
    using k(2) same_word_eq[of j k]
    by (cases "j div 32 = k div 32")
      (auto simp: resetBit_bv_def k(1) mem_wbits_update bit_and_iff bit_not_iff bit_two_power mem_wbits)
  then show ?thesis by (intro bv_set_eqI) (auto simp: k(1) mem_bv_set)
qed


text \<open>
  A range of bits within the words \<open>lw..uw\<close>: the first word keeps the bits from \<open>lb\<close> on, the
  last one the bits up to \<open>ub\<close>, the words between are full.
\<close>

lemma word_le_iff:
  fixes l k :: nat
  shows "l \<le> k \<longleftrightarrow> (if l div 32 = k div 32 then l mod 32 \<le> k mod 32 else l div 32 < k div 32)"
proof -
  define q m q' m' where d: "q = l div 32" "m = l mod 32" "q' = k div 32" "m' = k mod 32"
  have "l = 32 * q + m" "k = 32 * q' + m'" "m < 32" "m' < 32" by (simp_all add: d)
  then have "l \<le> k \<longleftrightarrow> (if q = q' then m \<le> m' else q < q')"
    by (cases q q' rule: linorder_cases) auto
  then show ?thesis by (simp add: d)
qed

lemma addFromTo_set:
  assumes "0 \<le> f" "f \<le> t" "t \<le> currBvMaxElem b"
  shows "bv_set (addFromTo b f t) = bv_set b \<union> {f..t} \<and> length (addFromTo b f t) = length b"
proof -
  obtain l where l: "f = int l" using assms(1) nonneg_int_cases by blast
  obtain u where u: "t = int u" "u div 32 < length b" 
    using bv_elem_nat[OF order_trans[OF assms(1,2)] assms(3)] by blast
  have lu: "l \<le> u" "l div 32 \<le> u div 32" using assms(2) l u div_le_mono by auto
  have "k \<in> wbits (addFromTo b f t) \<longleftrightarrow> k \<in> wbits b \<or> l \<le> k \<and> k \<le> u" for k
  proof (cases "l div 32 = u div 32")
    case True
    then show ?thesis using u(2) unfolding word_le_iff[of l] word_le_iff[of _ u]
      by (auto simp: addFromTo_def Let_def l u(1) mem_wbits_update bit_or_iff bit_and_iff mem_wbits)
  next
    case False
    then have "l div 32 < u div 32" using lu(2) by simp
    then show ?thesis using u(2) unfolding word_le_iff[of l] word_le_iff[of _ u]
      by (auto simp: addFromTo_def Let_def l u(1) mem_wbits_update mem_fill_words bit_simps
          mem_wbits nth_fill_words)
  qed
  then have "bv_set (addFromTo b f t) = bv_set b \<union> {f..t}"
    using assms(1) by (intro bv_set_eqI) (auto simp: l u(1) mem_bv_set)
  then show ?thesis by (simp add: addFromTo_def Let_def)
qed

lemma setFromTo_set:
  assumes "0 \<le> f" "f \<le> t" "t \<le> currBvMaxElem b"
  shows "bv_set (setFromTo b f t) = {f..t} \<and> length (setFromTo b f t) = length b"
proof -
  obtain l where l: "f = int l" using assms(1) nonneg_int_cases by blast
  obtain u where u: "t = int u" "u div 32 < length b" 
    using bv_elem_nat[OF order_trans[OF assms(1,2)] assms(3)] by blast
  have lu: "l \<le> u" "l div 32 \<le> u div 32" using assms(2) l u div_le_mono by auto
  have "k \<in> wbits (setFromTo b f t) \<longleftrightarrow> l \<le> k \<and> k \<le> u" for k
  proof (cases "l div 32 = u div 32")
    case True
    then show ?thesis using u(2) unfolding word_le_iff[of l] word_le_iff[of _ u]
      by (auto simp: setFromTo_def Let_def l u(1) mem_wbits_update bit_or_iff bit_and_iff
          mem_fill_words)
  next
    case False
    then have "l div 32 < u div 32" using lu(2) by simp
    then show ?thesis using u(2) unfolding word_le_iff[of l] word_le_iff[of _ u]
      by (auto simp: setFromTo_def Let_def l u(1) mem_wbits_update mem_fill_words bit_simps
          nth_fill_words)
  qed
  then have "bv_set (setFromTo b f t) = {f..t}"
    using assms(1) by (intro bv_set_eqI) (auto simp: l u(1))
  then show ?thesis by (simp add: setFromTo_def Let_def)
qed

lemma initList_bv_set:
  assumes "\<And>i. i < n \<Longrightarrow> 0 \<le> ls ! i \<and> ls ! i \<le> rs ! i \<and> rs ! i \<le> currBvMaxElem b"
  shows "bv_set (initList_bv b n ls rs) = (\<Union>i < n. {ls ! i..rs ! i}) \<and>
    length (initList_bv b n ls rs) = length b"
proof -
  have "bv_set (initList_loop_bv n ls rs c) = bv_set c \<union> (\<Union>i < n. {ls ! i..rs ! i}) \<and>
      length (initList_loop_bv n ls rs c) = length b" if "length c = length b" for c
    using assms that
  proof (induction n arbitrary: c)
    case (Suc n)
    have "bv_set (addFromTo c (ls ! n) (rs ! n)) = bv_set c \<union> {ls ! n..rs ! n}"
      "length (addFromTo c (ls ! n) (rs ! n)) = length b"
      using addFromTo_set[of "ls ! n" "rs ! n" c] Suc.prems by (auto simp: currBvMaxElem_def)
    then show ?case using Suc by (auto simp: lessThan_Suc)
  qed simp
  then show ?thesis by (simp add: initList_bv_def)
qed


subsection \<open>The lowest and the highest element\<close>

definition lowest :: "int32 \<Rightarrow> nat \<Rightarrow> bool" where
  "lowest w m \<longleftrightarrow> bit w m \<and> (\<forall>k < m. \<not> bit w k)"

definition highest :: "int32 \<Rightarrow> nat \<Rightarrow> bool" where
  "highest w m \<longleftrightarrow> bit w m \<and> (\<forall>k > m. \<not> bit w k)"

lemma push_bit_zero_iff: "n \<le> 32 \<Longrightarrow> push_bit (32 - n) (w :: int32) = 0 \<longleftrightarrow> (\<forall>k < n. \<not> bit w k)"
proof -
  assume n: "n \<le> 32"
  have "push_bit (32 - n) w = 0 \<longleftrightarrow> (\<forall>j < 32. \<not> (32 - n \<le> j \<and> bit w (j - (32 - n))))"
    by (auto simp: bit_eq_iff bit_simps dest: bit_imp_le_length)
  also have "\<dots> \<longleftrightarrow> (\<forall>k < n. \<not> bit w k)"
  proof safe
    fix k assume a: "\<forall>j < 32. \<not> (32 - n \<le> j \<and> bit w (j - (32 - n)))" "k < n" "bit w k"
    have "k + (32 - n) < 32" "32 - n \<le> k + (32 - n)" "k + (32 - n) - (32 - n) = k" using a(2) n by auto
    then show False using a(1,3) by metis
  next
    fix j :: nat assume "\<forall>k < n. \<not> bit w k" "j < 32" "32 - n \<le> j" "bit w (j - (32 - n))"
    then show False using n by (metis less_diff_conv2 add_diff_inverse_nat linorder_not_less add.commute
          le_add_diff_inverse2)
  qed
  finally show ?thesis .
qed

lemma signed_drop_zero_iff:
  assumes "highest w m" "sh < 32"
  shows "signed_drop_bit sh w = 0 \<longleftrightarrow> m < sh"
proof
  have m: "m < 32" using assms(1) bit_imp_le_length[of w m] by (simp add: highest_def)
  assume z: "signed_drop_bit sh w = 0"
  show "m < sh"
  proof (rule ccontr)
    assume "\<not> m < sh"
    then have "bit (signed_drop_bit sh w) (m - sh)"
      using assms m by (auto simp: highest_def bit_signed_drop_bit_iff)
    then show False using z by simp
  qed
next
  assume "m < sh"
  then have "\<not> bit w j" if "sh \<le> j" for j using assms(1) that by (simp add: highest_def)
  then show "signed_drop_bit sh w = 0"
    using assms(2) by (auto simp: bit_eq_iff bit_signed_drop_bit_iff)
qed

lemma low_step_spec:
  assumes "lowest w m" "m < 2 * n" "2 * n \<le> 32" "sh = 32 - n"
  obtains w' v' m' where "low_step sh n (w, v) = (w', v')" "lowest w' m'" "m' < n"
    "v' + int m' = v + int m"
proof (cases "push_bit sh w = 0")
  case True
  then have z: "\<forall>k < n. \<not> bit w k" using push_bit_zero_iff[of n w] assms by simp
  then have nm: "n \<le> m" using assms(1) unfolding lowest_def by (meson not_le)
  have "bit (signed_drop_bit n w) k \<longleftrightarrow> bit w (n + k)" if "k < n" for k
    using that assms(3) by (auto simp: bit_signed_drop_bit_iff)
  then have "lowest (signed_drop_bit n w) (m - n)"
    using assms(1,2) nm unfolding lowest_def by auto
  then show thesis using that[of "signed_drop_bit n w" "v + int n" "m - n"] True nm assms(2)
    by (simp add: low_step_def)
next
  case False
  then have "m < n" using push_bit_zero_iff[of n w] assms
    unfolding lowest_def by (metis le_trans less_le_trans mult_2 le_add1 not_le)
  then show thesis using that[of w v m] False assms(1) by (simp add: low_step_def)
qed

lemma low_bit_of_spec:
  assumes "lowest w m"
  shows "low_bit_of w v = v + int m"
proof -
  have "m < 32" using assms bit_imp_le_length[of w m] by (simp add: lowest_def)
  then obtain w1 v1 m1 where 1: "low_step 16 16 (w, v) = (w1, v1)" "lowest w1 m1" "m1 < 16"
    "v1 + int m1 = v + int m"
    using low_step_spec[OF assms, of 16 16 v] by auto
  obtain w2 v2 m2 where 2: "low_step 24 8 (w1, v1) = (w2, v2)" "lowest w2 m2" "m2 < 8"
    "v2 + int m2 = v1 + int m1"
    using low_step_spec[OF 1(2), of 8 24 v1] 1(3) by auto
  obtain w3 v3 m3 where 3: "low_step 28 4 (w2, v2) = (w3, v3)" "lowest w3 m3" "m3 < 4"
    "v3 + int m3 = v2 + int m2"
    using low_step_spec[OF 2(2), of 4 28 v2] 2(3) by auto
  obtain w4 v4 m4 where 4: "low_step 30 2 (w3, v3) = (w4, v4)" "lowest w4 m4" "m4 < 2"
    "v4 + int m4 = v3 + int m3"
    using low_step_spec[OF 3(2), of 2 30 v3] 3(3) by auto
  have "push_bit 31 w4 = 0 \<longleftrightarrow> m4 = 1"
    using push_bit_zero_iff[of 1 w4] 4(2,3) by (auto simp: lowest_def less_2_cases_iff)
  then have "low_bit_of w v = v4 + int m4"
    using 4(3) by (auto simp: low_bit_of_def Let_def 1(1) 2(1) 3(1) 4(1) less_2_cases_iff)
  then show ?thesis using 1(4) 2(4) 3(4) 4(4) by simp
qed

lemma high_step_spec:
  assumes "highest w m" "32 - 2 * n \<le> m" "2 * n \<le> 32" "0 < n" "sh = 32 - n"
  obtains w' v' m' where "high_step sh n (w, v) = (w', v')" "highest w' m'" "32 - n \<le> m'"
    "v' + int m' = v + int m"
proof (cases "signed_drop_bit sh w = 0")
  case True
  then have m: "m < 32 - n" using signed_drop_zero_iff[OF assms(1), of sh] assms by simp
  have "bit (push_bit n w) k \<longleftrightarrow> k < 32 \<and> n \<le> k \<and> bit w (k - n)" for k
    by (auto simp: bit_simps)
  then have "highest (push_bit n w) (m + n)"
    using assms(1) m unfolding highest_def by auto
  then show thesis using that[of "push_bit n w" "v - int n" "m + n"] True assms
    by (simp add: high_step_def)
next
  case False
  then have "32 - n \<le> m" using signed_drop_zero_iff[OF assms(1), of sh] assms by simp
  then show thesis using that[of w v m] False assms(1) by (simp add: high_step_def)
qed

lemma high_bit_of_spec:
  assumes "highest w m"
  shows "high_bit_of w v = v + int m - 31"
proof -
  obtain w1 v1 m1 where 1: "high_step 16 16 (w, v) = (w1, v1)" "highest w1 m1" "16 \<le> m1"
    "v1 + int m1 = v + int m"
    using high_step_spec[OF assms, of 16 16 v] by auto
  obtain w2 v2 m2 where 2: "high_step 24 8 (w1, v1) = (w2, v2)" "highest w2 m2" "24 \<le> m2"
    "v2 + int m2 = v1 + int m1"
    using high_step_spec[OF 1(2), of 8 24 v1] 1(3) by auto
  obtain w3 v3 m3 where 3: "high_step 28 4 (w2, v2) = (w3, v3)" "highest w3 m3" "28 \<le> m3"
    "v3 + int m3 = v2 + int m2"
    using high_step_spec[OF 2(2), of 4 28 v2] 2(3) by auto
  obtain w4 v4 m4 where 4: "high_step 30 2 (w3, v3) = (w4, v4)" "highest w4 m4" "30 \<le> m4"
    "v4 + int m4 = v3 + int m3"
    using high_step_spec[OF 3(2), of 2 30 v3] 3(3) by auto
  have m4: "m4 < 32" using 4(2) bit_imp_le_length[of w4 m4] by (simp add: highest_def)
  then have "high_bit_of w v = v4 + int m4 - 31"
    using signed_drop_zero_iff[OF 4(2), of 31] 4(3)
    by (auto simp: high_bit_of_def Let_def 1(1) 2(1) 3(1) 4(1))
  then show ?thesis using 1(4) 2(4) 3(4) 4(4) by simp
qed

lemma ex_lowest: "w \<noteq> 0 \<Longrightarrow> \<exists>m < 32. lowest w m"
proof -
  assume "w \<noteq> 0"
  then obtain j where "bit w j" using bit_eqI[of w 0] by auto
  then have "lowest w (LEAST j. bit w j)"
    unfolding lowest_def by (meson LeastI not_less_Least)
  then show ?thesis using bit_imp_le_length unfolding lowest_def by fastforce
qed

lemma ex_highest: "w \<noteq> 0 \<Longrightarrow> \<exists>m < 32. highest w m"
proof -
  assume "w \<noteq> 0"
  then have ne: "{j. j < 32 \<and> bit w j} \<noteq> {}" using bit_eqI[of w 0] bit_imp_le_length[of w] by auto
  define m where "m = Max {j. j < 32 \<and> bit w j}"
  have "m \<in> {j. j < 32 \<and> bit w j}" unfolding m_def using ne by (intro Max_in) auto
  moreover have "\<not> bit w k" if "m < k" for k
    using that bit_imp_le_length[of w k] Max_ge[of "{j. j < 32 \<and> bit w j}" k] by (auto simp: m_def[symmetric])
  ultimately show ?thesis by (auto simp: highest_def)
qed


lemma wbits_Cons: "k \<in> wbits (w # ws) \<longleftrightarrow> (if k < 32 then bit w k else k - 32 \<in> wbits ws)"
proof (cases "k < 32")
  case False
  then obtain j where "k = j + 32" by (metis le_add_diff_inverse2 not_less)
  moreover have "(j + 32) div 32 = Suc (j div 32)" by (subst div_add_self2) simp_all
  ultimately show ?thesis by (simp add: mem_wbits)
qed (simp add: mem_wbits)

lemma wbits_snoc:
  "k \<in> wbits (ws @ [w]) \<longleftrightarrow>
     (if k < 32 * length ws then k \<in> wbits ws else bit w (k - 32 * length ws))"
proof (cases "k < 32 * length ws")
  case True
  then have "k div 32 < length ws" by (simp add: wbits_div_less)
  then show ?thesis using True by (simp add: mem_wbits nth_append)
next
  case False
  then obtain j where j: "k = 32 * length ws + j" by (metis le_add_diff_inverse not_less)
  then show ?thesis
  proof (cases "j < 32")
    case False
    then show ?thesis using j bit_imp_le_length[of w j] wbits_less[of k "ws @ [w]"] by auto
  qed (simp add: mem_wbits)
qed

lemma findMinElem_loop_spec:
  "wbits ws \<noteq> {} \<Longrightarrow> \<exists>k \<in> wbits ws. (\<forall>j \<in> wbits ws. k \<le> j) \<and> findMinElem_loop v ws = v + int k"
proof (induction ws arbitrary: v)
  case (Cons w ws)
  show ?case
  proof (cases "w = 0")
    case True
    have mem: "k \<in> wbits (w # ws) \<longleftrightarrow> 32 \<le> k \<and> k - 32 \<in> wbits ws" for k by (simp add: wbits_Cons True)
    then have "wbits ws \<noteq> {}" using Cons.prems by auto
    from Cons.IH[OF this, of "v + 32"] obtain k where
      k: "k \<in> wbits ws" "\<forall>j \<in> wbits ws. k \<le> j" "findMinElem_loop (v + 32) ws = v + 32 + int k" by auto
    have "findMinElem_loop v (w # ws) = v + int (k + 32)" using True k(3) by simp
    moreover have "k + 32 \<in> wbits (w # ws)" using k(1) by (simp add: mem)
    moreover have "k + 32 \<le> j" if "j \<in> wbits (w # ws)" for j
      using bspec[OF k(2), of "j - 32"] that unfolding mem by linarith
    ultimately show ?thesis by blast
  next
    case False
    then obtain m where m: "m < 32" "lowest w m" using ex_lowest by blast
    then have "m \<le> j" if "j \<in> wbits (w # ws)" for j
      using that unfolding wbits_Cons lowest_def by (meson not_less less_imp_le order_trans)
    moreover have "m \<in> wbits (w # ws)" using m by (simp add: wbits_Cons lowest_def)
    ultimately show ?thesis using False low_bit_of_spec[OF m(2), of v] by auto
  qed
qed simp

lemma findMaxElem_loop_spec:
  "wbits ws \<noteq> {} \<Longrightarrow> \<exists>k \<in> wbits ws. (\<forall>j \<in> wbits ws. j \<le> k) \<and>
     findMaxElem_loop (v + 32 * int (length ws)) (rev ws) = v + int k + 1"
proof (induction ws rule: rev_induct)
  case (snoc w ws)
  let ?n = "32 * length ws"
  show ?case
  proof (cases "w = 0")
    case True
    have mem: "k \<in> wbits (ws @ [w]) \<longleftrightarrow> k \<in> wbits ws" for k
      using wbits_less[of k ws] by (auto simp: wbits_snoc True)
    then have "wbits (ws @ [w]) = wbits ws" by blast
    then show ?thesis using snoc True by (simp add: algebra_simps)
  next
    case False
    then obtain m where m: "m < 32" "highest w m" using ex_highest by blast
    then have "j \<le> ?n + m" if "j \<in> wbits (ws @ [w])" for j
    proof (cases "j < ?n")
      case False
      then have "\<not> m < j - ?n" using that m(2) by (auto simp: wbits_snoc highest_def)
      then show ?thesis using False by linarith
    qed simp
    moreover have "?n + m \<in> wbits (ws @ [w])" using m by (simp add: wbits_snoc highest_def)
    ultimately show ?thesis using False high_bit_of_spec[OF m(2)]
      by (intro bexI[of _ "?n + m"]) auto
  qed
qed simp

lemma findMinElem_bv_Min: "bv_set b \<noteq> {} \<Longrightarrow> findMinElem_bv b = Min (bv_set b)"
proof -
  assume "bv_set b \<noteq> {}"
  then have "wbits b \<noteq> {}" by (simp add: bv_set_def)
  then obtain k where k: "k \<in> wbits b" "\<forall>j \<in> wbits b. k \<le> j" "findMinElem_bv b = int k"
    using findMinElem_loop_spec[of b 0] by (auto simp: findMinElem_bv_def)
  then have "Min (bv_set b) = int k" by (intro Min_eqI) (auto simp: bv_set_def)
  then show ?thesis using k(3) by simp
qed

lemma findMinElem_bv_empty: "bv_set b = {} \<Longrightarrow> findMinElem_bv b = -1"
proof -
  assume "bv_set b = {}"
  then have "\<forall>w \<in> set b. w = 0" by (simp add: bv_set_def wbits_empty_iff)
  then have "findMinElem_loop v b = -1" for v by (induction b arbitrary: v) auto
  then show ?thesis by (simp add: findMinElem_bv_def)
qed

lemma findHigh_bv_set:
  assumes "\<And>i. i \<in> bv_set b \<Longrightarrow> i \<le> v"
  shows "bv_set (findHigh_bv b v) = bv_set b"
proof -
  have "k \<in> wbits (take n b) \<longleftrightarrow> k \<in> wbits b \<and> k < 32 * n" for k n
    by (auto simp: mem_wbits wbits_div_less)
  moreover have "k < 32 * nat (word32 v)" if "k \<in> wbits b" for k
  proof -
    have "int k \<le> v" using assms[of "int k"] that by simp
    then have "v < 32 * word32 v" using word32_bounds[of v] by simp
    then show ?thesis using \<open>int k \<le> v\<close> by linarith
  qed
  ultimately show ?thesis by (auto simp: findHigh_bv_def bv_set_def)
qed

lemma findMaxElem_bv_Max:
  assumes "bv_set b \<noteq> {}" "findMaxElem_bv b = (b', m)"
  shows "m = Max (bv_set b) \<and> bv_set b' = bv_set b \<and> int (length b') = word32 m \<and> length b' \<le> length b"
proof -
  have "wbits b \<noteq> {}" using assms(1) by (simp add: bv_set_def)
  then obtain k where k: "k \<in> wbits b" "\<forall>j \<in> wbits b. j \<le> k"
    "findMaxElem_loop (currBvMaxElem b) (rev b) = int k"
    using findMaxElem_loop_spec[of b "-1"] by (auto simp: currBvMaxElem_def)
  have mx: "Max (bv_set b) = int k" using k by (intro Max_eqI) (auto simp: bv_set_def)
  have eqs: "m = int k" "b' = findHigh_bv b (int k)"
    using assms(2) k(3) by (auto simp: findMaxElem_bv_def Let_def)
  have "bv_set b' = bv_set b" using k(2) unfolding eqs by (intro findHigh_bv_set) (auto simp: bv_set_def)
  moreover have "word32 (int k) \<le> int (length b)"
    using wbits_less[OF k(1)] by (simp add: word32_eq)
  moreover have "0 \<le> word32 (int k)" by (simp add: word32_eq)
  ultimately show ?thesis using mx by (auto simp: eqs findHigh_bv_def)
qed

lemma findMaxElem_bv_empty:
  assumes "bv_set b = {}"
  shows "findMaxElem_bv b = ([], -1)"
proof -
  have zero: "findMaxElem_loop v ws = v - 32 * int (length ws)" if "\<forall>w \<in> set ws. w = 0" for v ws
    using that by (induction ws arbitrary: v) (auto simp: algebra_simps)
  have "\<forall>w \<in> set (rev b). w = 0" using assms by (simp add: bv_set_def wbits_empty_iff)
  from zero[OF this] show ?thesis
    by (simp add: findMaxElem_bv_def currBvMaxElem_def findHigh_bv_def word32_eq)
qed

subsection \<open>Bounds and binary operations\<close>

lemma le_bv_spec:
  assumes "0 \<le> leq" "leq \<le> currBvMaxElem b" "le_bv b leq = (b', n)"
  shows "bv_set b' = bv_set b \<inter> {..leq} \<and> n = int (card (bv_set b')) \<and> length b' = length b"
proof -
  obtain u where u: "leq = int u" "u div 32 < length b" using bv_elem_nat[OF assms(1,2)] by blast
  have "k \<in> wbits b' \<longleftrightarrow> k \<in> wbits b \<and> k \<le> u" for k
    using assms(3) u unfolding word_le_iff[of k u]
    by (auto simp: le_bv_def Let_def mem_wbits_update mem_fill_words bit_and_iff nth_fill_words mem_wbits
        split: if_splits)
  then have "bv_set b' = bv_set b \<inter> {..leq}" by (intro bv_set_eqI) (auto simp: u(1) mem_bv_set)
  then show ?thesis using assms(3) by (auto simp: le_bv_def Let_def findSize_bv_card)
qed

lemma ge_bv_spec:
  assumes "0 \<le> geq" "geq \<le> currBvMaxElem b" "ge_bv b geq = (b', n)"
  shows "bv_set b' = bv_set b \<inter> {geq..} \<and> n = int (card (bv_set b')) \<and> length b' = length b"
proof -
  obtain l where l: "geq = int l" "l div 32 < length b" using bv_elem_nat[OF assms(1,2)] by blast
  have "k \<in> wbits b' \<longleftrightarrow> k \<in> wbits b \<and> l \<le> k" for k
    using assms(3) l unfolding word_le_iff[of l k]
    by (auto simp: ge_bv_def Let_def mem_wbits_update mem_fill_words bit_and_iff nth_fill_words mem_wbits
        split: if_splits)
  then have "bv_set b' = bv_set b \<inter> {geq..}" by (intro bv_set_eqI) (auto simp: l(1) mem_bv_set)
  then show ?thesis using assms(3) by (auto simp: ge_bv_def Let_def findSize_bv_card)
qed

lemma union_bv_spec:
  assumes "union_bv x y = (z, n)"
  shows "bv_set z = bv_set x \<union> bv_set y \<and> n = int (card (bv_set z)) \<and> length z = max (length x) (length y)"
proof -
  have z: "z = map (\<lambda>i. x ! i OR y ! i) [0..<min (length x) (length y)]
      @ drop (min (length x) (length y)) x @ drop (min (length x) (length y)) y" "n = findSize_bv z"
    using assms by (auto simp: union_bv_def Let_def)
  have len: "length z = max (length x) (length y)" by (auto simp: z(1))
  have "z ! j = (if j < length x then if j < length y then x ! j OR y ! j else x ! j else y ! j)"
    if "j < length z" for j
    using that unfolding len by (auto simp: z(1) nth_append min_def max_def)
  then have "k \<in> wbits z \<longleftrightarrow> k \<in> wbits x \<or> k \<in> wbits y" for k
    by (auto simp: mem_wbits len bit_or_iff split: if_splits)
  then have "bv_set z = bv_set x \<union> bv_set y" by (auto simp: bv_set_def)
  then show ?thesis using len z(2) by (simp add: findSize_bv_card)
qed

lemma intersect_bv_spec:
  assumes "intersect_bv x y = (z, n)"
  shows "bv_set z = bv_set x \<inter> bv_set y \<and> n = int (card (bv_set z)) \<and> length z = min (length x) (length y)"
proof -
  have z: "z = map (\<lambda>i. x ! i AND y ! i) [0..<min (length x) (length y)]" "n = findSize_bv z"
    using assms by (auto simp: intersect_bv_def Let_def)
  have "k \<in> wbits z \<longleftrightarrow> k \<in> wbits x \<and> k \<in> wbits y" for k
    by (auto simp: mem_wbits z(1) bit_and_iff)
  then have "bv_set z = bv_set x \<inter> bv_set y" by (auto simp: bv_set_def)
  then show ?thesis using z by (simp add: findSize_bv_card)
qed

lemma minus_bv_spec:
  assumes "minus_bv x y = (z, n)"
  shows "bv_set z = bv_set x - bv_set y \<and> n = int (card (bv_set z)) \<and> length z = length x"
proof -
  have z: "z = map (\<lambda>i. x ! i AND NOT (y ! i)) [0..<min (length x) (length y)]
      @ drop (min (length x) (length y)) x" "n = findSize_bv z"
    using assms by (auto simp: minus_bv_def Let_def)
  have len: "length z = length x" by (auto simp: z(1))
  have nz: "z ! j = (if j < length y then x ! j AND NOT (y ! j) else x ! j)" if "j < length x" for j
    using that by (auto simp: z(1) nth_append min_def)
  have "k \<in> wbits z \<longleftrightarrow> k \<in> wbits x \<and> k \<notin> wbits y" for k
  proof (cases "k div 32 < length x")
    case True
    then show ?thesis unfolding mem_wbits len nz[OF True] by (simp add: bit_and_iff bit_not_iff)
  qed (simp add: mem_wbits len)
  then have "bv_set z = bv_set x - bv_set y" by (auto simp: set_eq_iff mem_bv_set)
  then show ?thesis using len z(2) by (simp add: findSize_bv_card)
qed


subsection \<open>Neighbours, runs, the middle element\<close>

lemma nextSmaller_loop_bv_spec:
  "0 \<le> m \<Longrightarrow> (\<And>i. i \<in> bv_set b \<Longrightarrow> m \<le> i) \<Longrightarrow>
     next_smaller (bv_set b) (v + 1) (nextSmaller_loop_bv b v m)"
proof (induction b v m rule: nextSmaller_loop_bv.induct)
  case (1 b v m)
  note unf = nextSmaller_loop_bv.simps[of b v m]
  consider "v < m" | "m \<le> v" "v \<in> bv_set b" | "m \<le> v" "v \<notin> bv_set b" by linarith
  then show ?case
  proof cases
    case 1
    then show ?thesis using "1.prems" unf by (force intro: next_smaller_none)
  next
    case 2
    then have "0 \<le> v" using bv_set_bounds by blast
    then have "nextSmaller_loop_bv b v m = v" using 2 by (simp add: unf isIn_bv_iff)
    then show ?thesis using 2 by (auto intro!: next_smallerI)
  next
    case 3
    then have "nextSmaller_loop_bv b v m = nextSmaller_loop_bv b (v - 1) m" and out: "\<not> isIn_bv b v"
      using "1.prems" by (simp_all add: unf isIn_bv_iff)
    then show ?thesis using "1.IH"[OF 3(1) out "1.prems"] next_smaller_step[OF 3(2)] by simp
  qed
qed

lemma nextSmallerElem_bv_spec:
  assumes "\<And>i. i \<in> bv_set b \<Longrightarrow> m \<le> i" "0 \<le> m"
  shows "next_smaller (bv_set b) v (nextSmallerElem_bv b v m)"
  using nextSmaller_loop_bv_spec[OF assms(2,1), of b "v - 1"] by (simp add: nextSmallerElem_bv_def)

lemma nextLarger_loop_bv_spec:
  "0 \<le> v \<Longrightarrow> (\<And>i. i \<in> bv_set b \<Longrightarrow> i \<le> m) \<Longrightarrow>
     next_larger (bv_set b) (v - 1) (nextLarger_loop_bv b v m)"
proof (induction b v m rule: nextLarger_loop_bv.induct)
  case (1 b v m)
  note unf = nextLarger_loop_bv.simps[of b v m]
  consider "m < v" | "v \<le> m" "v \<in> bv_set b" | "v \<le> m" "v \<notin> bv_set b" by linarith
  then show ?case
  proof cases
    case 1
    then show ?thesis using "1.prems" unf by (force intro: next_larger_none)
  next
    case 2
    then have "nextLarger_loop_bv b v m = v" using "1.prems" by (simp add: unf isIn_bv_iff)
    then show ?thesis using 2 by (auto intro!: next_largerI)
  next
    case 3
    then have "nextLarger_loop_bv b v m = nextLarger_loop_bv b (v + 1) m" and out: "\<not> isIn_bv b v"
      using "1.prems" by (simp_all add: unf isIn_bv_iff)
    then show ?thesis using "1.IH"[OF 3(1) out _ "1.prems"(2)] "1.prems"(1) next_larger_step[OF 3(2)]
      by simp
  qed
qed

lemma nextLargerElem_bv_spec:
  assumes "\<And>i. i \<in> bv_set b \<Longrightarrow> i \<le> m" "-1 \<le> v"
  shows "next_larger (bv_set b) v (nextLargerElem_bv b v m)"
  using nextLarger_loop_bv_spec[of "v + 1" b m] assms by (simp add: nextLargerElem_bv_def)

lemma lower_loop_bv_spec:
  assumes "0 \<le> m" "m \<in> bv_set b" "m - 1 \<le> v"
  shows "let l = lower_loop_bv b v m in m \<le> l \<and> l \<le> v + 1 \<and> {l..v} \<subseteq> bv_set b \<and>
    (l = m \<or> l - 1 \<notin> bv_set b)"
  using assms
proof (induction b v m rule: lower_loop_bv.induct)
  case (1 b v m)
  note unf = lower_loop_bv.simps[of b v m]
  consider "v = m - 1" | "m \<le> v" "v \<in> bv_set b" | "m \<le> v" "v \<notin> bv_set b" using "1.prems" by linarith
  then show ?case
  proof cases
    case 1
    then show ?thesis unfolding unf by simp
  next
    case 2
    then have e: "lower_loop_bv b v m = lower_loop_bv b (v - 1) m" and i: "isIn_bv b v"
      using "1.prems" by (simp_all add: unf isIn_bv_iff)
    have "{l..v} \<subseteq> bv_set b" if "{l..v - 1} \<subseteq> bv_set b" for l
      using that 2 by (auto simp: subset_iff) (metis zle_diff1_eq order_le_less)
    then show ?thesis using "1.IH"[of, OF 2(1)] i "1.prems" 2 e by (auto simp: Let_def)
  next
    case 3
    then have "lower_loop_bv b v m = v + 1" using "1.prems" by (simp add: unf isIn_bv_iff)
    then show ?thesis using 3 by simp
  qed
qed

lemma upper_loop_bv_spec:
  assumes "0 \<le> v" "m \<in> bv_set b" "v \<le> m + 1"
  shows "let u = upper_loop_bv b v m in u \<le> m \<and> v - 1 \<le> u \<and> {v..u} \<subseteq> bv_set b \<and>
    (u = m \<or> u + 1 \<notin> bv_set b)"
  using assms
proof (induction b v m rule: upper_loop_bv.induct)
  case (1 b v m)
  note unf = upper_loop_bv.simps[of b v m]
  consider "v = m + 1" | "v \<le> m" "v \<in> bv_set b" | "v \<le> m" "v \<notin> bv_set b" using "1.prems" by linarith
  then show ?case
  proof cases
    case 1
    then show ?thesis unfolding unf by simp
  next
    case 2
    then have e: "upper_loop_bv b v m = upper_loop_bv b (v + 1) m" and i: "isIn_bv b v"
      using "1.prems" by (simp_all add: unf isIn_bv_iff)
    have "{v..u} \<subseteq> bv_set b" if "{v + 1..u} \<subseteq> bv_set b" for u
      using that 2 by (auto simp: subset_iff) (metis zless_imp_add1_zle order_le_less)
    then show ?thesis using "1.IH"[of, OF 2(1)] i "1.prems" 2 e by (auto simp: Let_def)
  next
    case 3
    then have "upper_loop_bv b v m = v - 1" using "1.prems" by (simp add: unf isIn_bv_iff)
    then show ?thesis using 3 by simp
  qed
qed

lemma bounds_bv_run:
  assumes "v \<in> bv_set b" "mn = Min (bv_set b)" "mx = Max (bv_set b)"
  shows "run_of (bv_set b) v (lowerBound_bv b v mn) (upperBound_bv b v mx)"
proof -
  have "bv_set b \<noteq> {}" using assms(1) by auto
  then have mem: "mn \<in> bv_set b" "mx \<in> bv_set b" unfolding assms(2,3) by (auto intro: Min_in Max_in)
  have bd: "mn \<le> v" "v \<le> mx" "mn - 1 \<notin> bv_set b" "mx + 1 \<notin> bv_set b"
    using assms Min_le[of "bv_set b" "mn - 1"] Max_ge[of "bv_set b" "mx + 1"] by auto
  have nn: "0 \<le> mn" "0 \<le> v" using bv_set_bounds mem assms(1) by blast+
  define l u where "l = lowerBound_bv b v mn" and "u = upperBound_bv b v mx"
  have "l \<le> v \<and> {l..v} \<subseteq> bv_set b \<and> l - 1 \<notin> bv_set b"
  proof (cases "v = mn")
    case False
    then have lp: "l = lower_loop_bv b (v - 1) mn" by (simp add: l_def lowerBound_bv_def)
    have "l \<le> v" "{l..v - 1} \<subseteq> bv_set b" "l = mn \<or> l - 1 \<notin> bv_set b"
      using lower_loop_bv_spec[OF nn(1) mem(1), of "v - 1"] bd(1) False
      unfolding lp[symmetric] by (auto simp: Let_def)
    moreover have "{l..v} = insert v {l..v - 1}" using calculation(1) by auto
    ultimately show ?thesis using bd(3) assms(1) by auto
  qed (use bd assms(1) in \<open>simp add: l_def lowerBound_bv_def\<close>)
  moreover have "v \<le> u \<and> {v..u} \<subseteq> bv_set b \<and> u + 1 \<notin> bv_set b"
  proof (cases "v = mx")
    case False
    then have up: "u = upper_loop_bv b (v + 1) mx" by (simp add: u_def upperBound_bv_def)
    have "v \<le> u" "{v + 1..u} \<subseteq> bv_set b" "u = mx \<or> u + 1 \<notin> bv_set b"
      using upper_loop_bv_spec[of "v + 1" mx b] nn(2) mem(2) bd(2) False
      unfolding up[symmetric] by (auto simp: Let_def)
    moreover have "{v..u} = insert v {v + 1..u}" using calculation(1) by auto
    ultimately show ?thesis using bd(4) assms(1) by auto
  qed (use bd assms(1) in \<open>simp add: u_def upperBound_bv_def\<close>)
  moreover have "{l..u} \<subseteq> {l..v} \<union> {v..u}" by auto
  ultimately show ?thesis unfolding run_of_def l_def[symmetric] u_def[symmetric] by blast
qed


lemma mid_word_down_spec:
  "\<exists>n < m. b ! n \<noteq> 0 \<Longrightarrow>
     \<exists>n < m. mid_word_down b m = Some n \<and> b ! n \<noteq> 0 \<and> (\<forall>j. n < j \<and> j < m \<longrightarrow> b ! j = 0)"
proof (induction m)
  case (Suc m)
  show ?case
  proof (cases "b ! m = 0")
    case True
    then have "\<exists>n < m. b ! n \<noteq> 0" using Suc.prems less_Suc_eq by auto
    then show ?thesis using Suc.IH True by (auto simp: less_Suc_eq)
  qed auto
qed simp

lemma mid_word_up_spec:
  "\<exists>n. m \<le> n \<and> n < length b \<and> b ! n \<noteq> 0 \<Longrightarrow>
     \<exists>n. m \<le> n \<and> n < length b \<and> mid_word_up b m = Some n \<and> b ! n \<noteq> 0 \<and> (\<forall>j. m \<le> j \<and> j < n \<longrightarrow> b ! j = 0)"
proof (induction b m rule: mid_word_up.induct)
  case (1 b m)
  then have m: "m < length b" by auto
  show ?case
  proof (cases "b ! m = 0")
    case True
    then have ex: "\<exists>n. Suc m \<le> n \<and> n < length b \<and> b ! n \<noteq> 0" using "1.prems" by (metis Suc_leI le_less)
    then obtain n where n: "Suc m \<le> n" "n < length b" "mid_word_up b (Suc m) = Some n" "b ! n \<noteq> 0"
      "\<forall>j. Suc m \<le> j \<and> j < n \<longrightarrow> b ! j = 0" using "1.IH"[OF m _ ex] True by auto
    have "b ! j = 0" if "m \<le> j" "j < n" for j
    proof (cases "j = m")
      case False
      then show ?thesis using n(5) that by (simp add: Suc_le_eq)
    qed (simp add: True)
    moreover have "mid_word_up b m = Some n" using True m n(3) by (simp add: mid_word_up.simps[of b m])
    ultimately show ?thesis using n by (intro exI[of _ n]) simp
  next
    case False
    then show ?thesis using m mid_word_up.simps[of b m] by auto
  qed
qed

lemma mid_bit_down_spec:
  "\<exists>k \<le> m. bit w k \<Longrightarrow> \<exists>k \<le> m. mid_bit_down w m = int k \<and> bit w k \<and> (\<forall>j \<le> m. bit w j \<longrightarrow> j \<le> k)"
proof (induction m)
  case (Suc m)
  show ?case
  proof (cases "bit w (Suc m)")
    case False
    then have "\<exists>k \<le> m. bit w k" using Suc.prems le_Suc_eq by auto
    then show ?thesis using Suc.IH False by (auto simp: le_Suc_eq)
  qed auto
qed auto

lemma mid_bit_up_spec:
  "\<exists>k. m \<le> k \<and> bit w k \<Longrightarrow>
     \<exists>k. m \<le> k \<and> mid_bit_up w m = int k \<and> bit w k \<and> (\<forall>j \<ge> m. bit w j \<longrightarrow> k \<le> j)"
proof (induction w m rule: mid_bit_up.induct)
  case (1 w m)
  have m: "m < 32" using "1.prems" bit_imp_le_length[of w] by fastforce
  show ?case
  proof (cases "bit w m")
    case False
    then have ex: "\<exists>k. Suc m \<le> k \<and> bit w k" using "1.prems" by (metis Suc_leI le_less)
    then obtain k where k: "Suc m \<le> k" "mid_bit_up w (Suc m) = int k" "bit w k"
      "\<forall>j \<ge> Suc m. bit w j \<longrightarrow> k \<le> j" using "1.IH" m False by auto
    have "k \<le> j" if "m \<le> j" "bit w j" for j
    proof -
      have "j \<noteq> m" using that(2) False by auto
      then show ?thesis using k(4) that by (simp add: Suc_le_eq)
    qed
    moreover have "mid_bit_up w m = int k" using False m k(2) by (simp add: mid_bit_up.simps[of w m])
    ultimately show ?thesis using k by (intro exI[of _ k]) simp
  next
    case True
    then show ?thesis using mid_bit_up.simps[of w m] by auto
  qed
qed

lemma mid_lower:
  assumes "k div 32 < length b" "\<exists>j \<in> wbits b. j \<le> k"
  shows "\<exists>lw lb p. (if push_bit (31 - k mod 32) (b ! (k div 32)) = 0
      then map_option (\<lambda>lw. (lw, 31)) (mid_word_down b (k div 32)) else Some (k div 32, k mod 32))
        = Some (lw, lb) \<and> 32 * int lw + mid_bit_down (b ! lw) lb = int p \<and>
      p \<in> wbits b \<and> p \<le> k \<and> (\<forall>j \<in> wbits b. j \<le> k \<longrightarrow> j \<le> p)"
proof -
  let ?w = "k div 32" and ?m = "k mod 32"
  have z: "push_bit (31 - ?m) (b ! ?w) = 0 \<longleftrightarrow> (\<forall>j \<le> ?m. \<not> bit (b ! ?w) j)"
    using push_bit_zero_iff[of "Suc ?m" "b ! ?w"] by (simp add: less_Suc_eq_le Suc_leI)
  show ?thesis
  proof (cases "push_bit (31 - ?m) (b ! ?w) = 0")
    case False
    then obtain q where q: "q \<le> ?m" "mid_bit_down (b ! ?w) ?m = int q" "bit (b ! ?w) q"
      "\<forall>j \<le> ?m. bit (b ! ?w) j \<longrightarrow> j \<le> q" using mid_bit_down_spec[of ?m "b ! ?w"] z by blast
    have "32 * ?w + q \<in> wbits b" using q assms(1) wbits_word[of q ?w b] by (simp add: order_le_less_trans)
    moreover have "32 * ?w + q \<le> k" using q(1) div_mult_mod_eq[of k 32] by linarith
    moreover have "j \<le> 32 * ?w + q" if "j \<in> wbits b" "j \<le> k" for j
    proof (cases "j div 32 = ?w")
      case True
      then have "j mod 32 \<le> ?m" using that(2) word_le_iff[of j k] by simp
      then show ?thesis using q(4) that(1) True div_mult_mod_eq[of j 32] by (auto simp: mem_wbits)
    next
      case d: False
      then have "j div 32 < ?w" using that(2) word_le_iff[of j k] by simp
      then have "j < 32 * ?w" by (simp add: wbits_div_less)
      then show ?thesis by simp
    qed
    ultimately show ?thesis using False q(2)
      by (intro exI[of _ ?w] exI[of _ ?m] exI[of _ "32 * ?w + q"]) auto
  next
    case True
    then have zero: "\<not> bit (b ! ?w) j" if "j \<le> ?m" for j using z that by blast
    have below: "j div 32 < ?w" if "j \<in> wbits b" "j \<le> k" for j
      using that zero[of "j mod 32"] word_le_iff[of j k] by (auto simp: mem_wbits split: if_splits)
    then obtain n where n: "n < ?w" "mid_word_down b ?w = Some n" "b ! n \<noteq> 0"
      "\<forall>j. n < j \<and> j < ?w \<longrightarrow> b ! j = 0"
      using mid_word_down_spec[of ?w b] assms(2) wbits_ex_word by blast
    obtain q where q: "q \<le> 31" "mid_bit_down (b ! n) 31 = int q" "bit (b ! n) q"
      "\<forall>j \<le> 31. bit (b ! n) j \<longrightarrow> j \<le> q"
    proof -
      obtain m where "m < 32" "lowest (b ! n) m" using ex_lowest[OF n(3)] by blast
      then have "\<exists>k \<le> 31. bit (b ! n) k" by (intro exI[of _ m]) (auto simp: lowest_def)
      then show thesis using mid_bit_down_spec[of 31 "b ! n"] that by blast
    qed
    have "32 * n + q \<in> wbits b" using q n(1) assms(1) wbits_word[of q n b] by simp
    moreover have "32 * n + q \<le> k"
    proof -
      have "(32 * n + q) div 32 < ?w" using n(1) q(1) by simp
      then show ?thesis by (subst word_le_iff) simp
    qed
    moreover have "j \<le> 32 * n + q" if j: "j \<in> wbits b" "j \<le> k" for j
    proof -
      have le: "j div 32 \<le> n" using below[OF j] n(4) wbits_ex_word[OF j(1)] by (meson not_le)
      show ?thesis
      proof (cases "j div 32 = n")
        case True
        then have "j mod 32 \<le> q" using q(4) j(1) by (auto simp: mem_wbits)
        then show ?thesis using True div_mult_mod_eq[of j 32] by linarith
      next
        case False
        then have "j < 32 * n" using le by (simp add: wbits_div_less)
        then show ?thesis by simp
      qed
    qed
    ultimately show ?thesis using True n(2) q(2)
      by (intro exI[of _ n] exI[of _ 31] exI[of _ "32 * n + q"]) auto
  qed
qed


lemma signed_drop_zero: "n < 32 \<Longrightarrow> signed_drop_bit n (w :: int32) = 0 \<longleftrightarrow> (\<forall>j \<ge> n. \<not> bit w j)"
proof (cases "w = 0")
  case False
  assume n: "n < 32"
  obtain m where m: "highest w m" using ex_highest[OF False] by blast
  then have "(\<forall>j \<ge> n. \<not> bit w j) \<longleftrightarrow> m < n" unfolding highest_def by (meson not_le order_le_less_trans)
  then show ?thesis using signed_drop_zero_iff[OF m n] by simp
qed simp

lemma mid_upper:
  assumes "k div 32 < length b" "\<exists>j \<in> wbits b. k \<le> j"
  shows "\<exists>uw ub p. (if signed_drop_bit (k mod 32) (b ! (k div 32)) = 0
      then map_option (\<lambda>uw. (uw, 0)) (mid_word_up b (Suc (k div 32))) else Some (k div 32, k mod 32))
        = Some (uw, ub) \<and> 32 * int uw + mid_bit_up (b ! uw) ub = int p \<and>
      p \<in> wbits b \<and> k \<le> p \<and> (\<forall>j \<in> wbits b. k \<le> j \<longrightarrow> p \<le> j)"
proof -
  let ?w = "k div 32" and ?m = "k mod 32"
  have z: "signed_drop_bit ?m (b ! ?w) = 0 \<longleftrightarrow> (\<forall>j \<ge> ?m. \<not> bit (b ! ?w) j)"
    by (rule signed_drop_zero) simp
  have lt: "32 * n + q \<in> wbits b" if "n < length b" "bit (b ! n) q" for n q
    using that wbits_word[of q n b] bit_imp_le_length[of "b ! n" q] by simp
  have key: ?thesis if h1: "n < length b" and h2: "?w \<le> n" and h3: "\<exists>q \<ge> ub. bit (b ! n) q"
      and h4: "(if signed_drop_bit ?m (b ! ?w) = 0
        then map_option (\<lambda>uw. (uw, 0)) (mid_word_up b (Suc ?w)) else Some (?w, ?m)) = Some (n, ub)"
      and h5: "n = ?w \<longrightarrow> ub = ?m"
      and h6: "\<And>j. j \<in> wbits b \<Longrightarrow> k \<le> j \<Longrightarrow> n \<le> j div 32 \<and> (j div 32 = n \<longrightarrow> ub \<le> j mod 32)"
    for n ub
  proof -
    obtain q where q: "ub \<le> q" "mid_bit_up (b ! n) ub = int q" "bit (b ! n) q"
      "\<forall>j \<ge> ub. bit (b ! n) j \<longrightarrow> q \<le> j" using mid_bit_up_spec[OF h3] by blast
    have ql: "q < 32" using q(3) bit_imp_le_length[of "b ! n" q] by simp
    have "k \<le> 32 * n + q" using h2 h5 q(1) ql by (subst word_le_iff) auto
    moreover have "32 * n + q \<le> j" if j: "j \<in> wbits b" "k \<le> j" for j
    proof -
      have "n \<le> j div 32" "j div 32 = n \<longrightarrow> ub \<le> j mod 32" using h6[OF j] by auto
      moreover have "j div 32 = n \<longrightarrow> bit (b ! n) (j mod 32)" using j(1) by (auto simp: mem_wbits)
      ultimately show ?thesis using q(4) ql by (subst word_le_iff) auto
    qed
    ultimately show ?thesis using h4 lt[OF h1 q(3)] q(2)
      by (intro exI[of _ n] exI[of _ ub] exI[of _ "32 * n + q"]) auto
  qed
  show ?thesis
  proof (cases "signed_drop_bit ?m (b ! ?w) = 0")
    case False
    then have "\<exists>q \<ge> ?m. bit (b ! ?w) q" using z by blast
    then show ?thesis using False assms(1) word_le_iff[of k]
      by (intro key[of ?w ?m]) (auto split: if_splits)
  next
    case True
    then have zero: "\<not> bit (b ! ?w) j" if "?m \<le> j" for j using z that by blast
    have above: "Suc ?w \<le> j div 32" if "j \<in> wbits b" "k \<le> j" for j
      using that zero[of "j mod 32"] word_le_iff[of k j] by (auto simp: mem_wbits split: if_splits)
    obtain j0 where j0: "j0 \<in> wbits b" "k \<le> j0" using assms(2) by blast
    then have "Suc ?w \<le> j0 div 32 \<and> j0 div 32 < length b \<and> b ! (j0 div 32) \<noteq> 0"
      using above wbits_ex_word by (auto simp: mem_wbits)
    then obtain n where n: "Suc ?w \<le> n" "n < length b" "mid_word_up b (Suc ?w) = Some n" "b ! n \<noteq> 0"
      "\<forall>j. Suc ?w \<le> j \<and> j < n \<longrightarrow> b ! j = 0" using mid_word_up_spec[of "Suc ?w" b] by blast
    have "n \<le> j div 32" if "j \<in> wbits b" "k \<le> j" for j
      using above[OF that] n(5) wbits_ex_word[OF that(1)] by (meson not_le)
    moreover have "\<exists>q \<ge> 0. bit (b ! n) q" using ex_lowest[OF n(4)] by (auto simp: lowest_def)
    ultimately show ?thesis using True n by (intro key[of n 0]) auto
  qed
qed

lemma midElem_bv_spec:
  assumes "0 \<le> i" "i \<le> currBvMaxElem b" "i \<notin> bv_set b" "\<exists>j \<in> bv_set b. j < i" "\<exists>j \<in> bv_set b. i < j"
  shows "\<exists>r. midElem_bv b i = Some r \<and> nearest (bv_set b) i r"
proof -
  obtain k where k: "i = int k" "k div 32 < length b" using bv_elem_nat[OF assms(1,2)] by blast
  have "\<exists>j \<in> wbits b. j \<le> k"
    using assms(4) by (metis bv_elem_nat bv_set_bounds int_mem_bv_set k(1) less_imp_le of_nat_less_iff)
  then obtain lw lb p where lo: "(if push_bit (31 - k mod 32) (b ! (k div 32)) = 0
      then map_option (\<lambda>lw. (lw, 31)) (mid_word_down b (k div 32)) else Some (k div 32, k mod 32))
        = Some (lw, lb)" "32 * int lw + mid_bit_down (b ! lw) lb = int p"
      "p \<in> wbits b" "p \<le> k" "\<forall>j \<in> wbits b. j \<le> k \<longrightarrow> j \<le> p"
    using mid_lower[OF k(2)] by blast
  have "\<exists>j \<in> wbits b. k \<le> j"
    using assms(5) by (metis bv_elem_nat bv_set_bounds int_mem_bv_set k(1) less_imp_le of_nat_less_iff)
  then obtain uw ub q where up: "(if signed_drop_bit (k mod 32) (b ! (k div 32)) = 0
      then map_option (\<lambda>uw. (uw, 0)) (mid_word_up b (Suc (k div 32))) else Some (k div 32, k mod 32))
        = Some (uw, ub)" "32 * int uw + mid_bit_up (b ! uw) ub = int q"
      "q \<in> wbits b" "k \<le> q" "\<forall>j \<in> wbits b. k \<le> j \<longrightarrow> q \<le> j"
    using mid_upper[OF k(2)] by blast
  have "k \<notin> wbits b" using assms(3) by (simp add: k(1))
  then have "p < k" "k < q" using lo(3,4) up(3,4) by (auto simp: le_less)
  have "nearest (bv_set b) i (if int q - i \<ge> i - int p then int p else int q)"
  proof (rule nearestI)
    fix j assume "j \<in> bv_set b"
    then obtain n where "j = int n" "n \<in> wbits b" by (auto simp: bv_set_def)
    then show "j \<le> int p \<or> int q \<le> j" using lo(5) up(5) by (metis linear of_nat_le_iff)
  qed (use lo(3) up(3) \<open>p < k\<close> \<open>k < q\<close> in \<open>auto simp: k(1)\<close>)
  moreover have "midElem_bv b i = Some (if int q - i \<ge> i - int p then int p else int q)"
    unfolding midElem_bv_def Let_def k(1) div32_eq mod32_eq idx_of lo(1) up(1) lo(2)[symmetric] up(2)[symmetric]
    by simp
  ultimately show ?thesis by blast
qed


section \<open>The runs of a bit vector\<close>

text \<open>The interval array the kernel builds from the conversion arrays.\<close>

definition raw_iv :: "(int \<times> int) list \<Rightarrow> FDIntervals" where
  "raw_iv ps = initList_iv (length ps) (map fst ps) (map snd ps)"

lemma raw_iv_map: "raw_iv ps = map (\<lambda>(l, r). mk_iv l r) ps"
  by (rule nth_equalityI) (auto simp: raw_iv_def initList_iv_def split_beta)

lemma raw_iv_Cons: "raw_iv (p # ps) = mk_iv (fst p) (snd p) # raw_iv ps"
  unfolding raw_iv_map by (simp add: split_beta)

definition raw_inv :: "FDBitVector \<Rightarrow> int \<Rightarrow> bool \<Rightarrow> int \<Rightarrow> (int \<times> int) list \<Rightarrow> bool" where
  "raw_inv b i r l ps \<longleftrightarrow>
     iv_from (if r then i - 1 else l - 1) (raw_iv ps) \<and>
     iv_set (raw_iv ps) = (if r then {} else {l..i - 1}) \<union> (bv_set b \<inter> {i..}) \<and>
     2 * int (length ps) \<le> currBvMaxElem b + 2 - i + (if r then 0 else 1)"

lemma bv_from_step:
  "i \<notin> bv_set b \<Longrightarrow> bv_set b \<inter> {i..} = bv_set b \<inter> {i + 1..}"
  "i \<in> bv_set b \<Longrightarrow> bv_set b \<inter> {i..} = insert i (bv_set b \<inter> {i + 1..})"
  by (auto simp: order_le_less)

lemma mkRaw_loop_inv:
  "0 \<le> i \<Longrightarrow> (\<not> r \<Longrightarrow> 0 \<le> l \<and> l < i \<and> i \<le> currBvMaxElem b + 1) \<Longrightarrow> i \<le> currBvMaxElem b + 2 \<Longrightarrow>
   raw_inv b i r l (mkRaw_loop b i r l)"
proof (induction b i r l rule: mkRaw_loop.induct)
  case (1 b i r l)
  note step = mkRaw_loop.simps[of b i r l]
  show ?case
  proof (cases "i < currBvMaxElem b + 2")
    case False
    then have "i = currBvMaxElem b + 2" "r" using "1.prems" by auto
    then show ?thesis using step bv_set_bounds[of _ b] by (force simp: raw_inv_def raw_iv_map)
  next
    case less: True
    have isin: "isIn_bv b i \<longleftrightarrow> i \<in> bv_set b" by (rule isIn_bv_iff[OF "1.prems"(1)])
    show ?thesis
    proof (cases "i \<in> bv_set b")
      case True
      have "raw_inv b (i + 1) False (if r then i else l) (mkRaw_loop b (i + 1) False (if r then i else l))"
        using "1.IH"(1) less isin True "1.prems" bv_set_bounds[OF True] by (cases r) auto
      then show ?thesis using step less isin True "1.prems"(2) bv_from_step(2)[OF True]
        by (cases r) (auto simp: raw_inv_def)
    next
      case out: False
      show ?thesis
      proof (cases r)
        case True
        then have "raw_inv b (i + 1) True l (mkRaw_loop b (i + 1) True l)"
          using "1.IH"(3) less isin out "1.prems" by simp
        then show ?thesis using step less isin out True bv_from_step(1)[OF out] iv_from_mono
          by (auto simp: raw_inv_def)
      next
        case False
        then have rest: "raw_inv b (i + 1) True l (mkRaw_loop b (i + 1) True l)"
          using "1.IH"(2) less isin out "1.prems" by simp
        have "mkRaw_loop b i r l = (l, i - 1) # mkRaw_loop b (i + 1) True l"
          using step less isin out False by (simp add: Let_def)
        then show ?thesis using rest False "1.prems"(2) bv_from_step(1)[OF out]
          by (simp add: raw_inv_def raw_iv_Cons)
      qed
    qed
  qed
qed

lemma mkRaw_inv: "raw_inv b 0 True (-1) (mkRaw b)"
  unfolding mkRaw_def by (rule mkRaw_loop_inv) (auto simp: currBvMaxElem_def)

lemma mkRaw_from: "iv_from (-1) (raw_iv (mkRaw b))"
  using mkRaw_inv[of b] by (simp add: raw_inv_def)

lemma mkRaw_set: "iv_set (raw_iv (mkRaw b)) = bv_set b"
proof -
  have "bv_set b \<inter> {0..} = bv_set b" using bv_set_bounds by auto
  then show ?thesis using mkRaw_inv[of b] unfolding raw_inv_def by simp
qed

lemma mkRaw_length: "length (mkRaw b) \<le> 16 * length b"
  using mkRaw_inv[of b] by (simp add: raw_inv_def currBvMaxElem_def)

section \<open>Bit vectors are a domain representation\<close>

interpretation bv: domain_rep "\<lambda>b. True" bv_set findSize_bv findMinElem_bv findMaxElem_bv isIn_bv
    nextSmallerElem_bv nextLargerElem_bv lowerBound_bv upperBound_bv midElem_bv
proof (unfold_locales, goal_cases)
  case (5 b b' m)
  then show ?case using findMaxElem_bv_Max by blast
next
  case (10 b i)
  then have "i \<le> currBvMaxElem b" using bv_set_bounds by (meson less_imp_le order_trans)
  then show ?case using 10 midElem_bv_spec by blast
qed (use bv_set_bounds findSize_bv_card findMinElem_bv_Min isIn_bv_iff nextSmallerElem_bv_spec
      nextLargerElem_bv_spec bounds_bv_run in auto)

end
