(* ===== verification/Sort.thy ===== *)
theory Sort
  imports Prelude "HOL-Library.Monad_Syntax"
begin

text \<open>
  The array sort of \<^verbatim>\<open>platform/emulator/sort.hh\<close>: an iterative quicksort with an explicit
  stack of at most 32 segments that leaves short segments alone, followed by one insertion
  sort over the whole array that uses the smallest element as a sentinel.

  An array is a list. A read or write outside the array, and a push on a full stack, are the
  value \<^const>\<open>None\<close>; the quicksort loop is a partial function into options, so that running
  forever is \<^const>\<open>None\<close> too. The theorems show that the sort returns, within the array
  and within the stack, an ordered permutation of its input, for every strict weak order.
\<close>

section \<open>The algorithms\<close>

definition QuickSortCutoff :: nat where
  "QuickSortCutoff = 10"

definition QuickSortStack_maxsize :: nat where
  "QuickSortStack_maxsize = 32"

definition sort_swap :: "'a list \<Rightarrow> nat \<Rightarrow> nat \<Rightarrow> 'a list" where
  "sort_swap x a b = (let t = x ! a; x' = x[a := x ! b] in x'[b := t])"

definition sort_exchange :: "('a \<Rightarrow> 'a \<Rightarrow> bool) \<Rightarrow> 'a list \<Rightarrow> nat \<Rightarrow> nat \<Rightarrow> 'a list" where
  "sort_exchange lt x a b = (if lt (x ! b) (x ! a) then sort_swap x a b else x)"

text \<open>The stack of segments: \<^verbatim>\<open>push\<close> fails on a full stack.\<close>

type_synonym QuickSortStack = "(nat \<times> nat) list"

definition push_seg :: "QuickSortStack \<Rightarrow> nat \<Rightarrow> nat \<Rightarrow> QuickSortStack option" where
  "push_seg s l r = (if length s < QuickSortStack_maxsize then Some ((l, r) # s) else None)"

text \<open>
  \<^verbatim>\<open>insertion\<close>: the pass that moves the smallest element to the front, the inner loop that
  shifts larger elements up, and the loop over the array.
\<close>

function insertion_min :: "('a \<Rightarrow> 'a \<Rightarrow> bool) \<Rightarrow> 'a list \<Rightarrow> nat \<Rightarrow> nat \<Rightarrow> 'a list" where
  "insertion_min lt x l i =
     (if i > l then insertion_min lt (sort_exchange lt x (i - 1) i) l (i - 1) else x)"
  by pat_completeness auto
termination
  by (relation "measure (\<lambda>(lt, x, l, i). i)") auto

fun insertion_shift :: "('a \<Rightarrow> 'a \<Rightarrow> bool) \<Rightarrow> 'a list \<Rightarrow> 'a \<Rightarrow> nat \<Rightarrow> ('a list \<times> nat) option" where
  "insertion_shift lt x v 0 = None"
| "insertion_shift lt x v (Suc j) =
     (if lt v (x ! j) then insertion_shift lt (x[Suc j := x ! j]) v j else Some (x, Suc j))"

function insertion_loop :: "('a \<Rightarrow> 'a \<Rightarrow> bool) \<Rightarrow> 'a list \<Rightarrow> nat \<Rightarrow> nat \<Rightarrow> 'a list option" where
  "insertion_loop lt x i r =
     (if i \<le> r then
        (case insertion_shift lt x (x ! i) i of
           None \<Rightarrow> None
         | Some (x', j) \<Rightarrow> insertion_loop lt (x'[j := x ! i]) (Suc i) r)
      else Some x)"
  by pat_completeness auto
termination
  by (relation "measure (\<lambda>(lt, x, i, r). Suc r - i)") auto

definition insertion :: "('a \<Rightarrow> 'a \<Rightarrow> bool) \<Rightarrow> 'a list \<Rightarrow> nat \<Rightarrow> nat \<Rightarrow> 'a list option" where
  "insertion lt x l r =
     (if r < length x then insertion_loop lt (insertion_min lt x l r) (l + 2) r else None)"

text \<open>
  \<^verbatim>\<open>partition\<close>: the scan upwards (\<^verbatim>\<open>while (lt(x[++i],v));\<close>), the scan downwards with its
  break at \<open>l\<close>, and the loop around them; \<open>i\<close> is the next index the upward scan reads.
\<close>

function scan_up :: "('a \<Rightarrow> 'a \<Rightarrow> bool) \<Rightarrow> 'a list \<Rightarrow> 'a \<Rightarrow> nat \<Rightarrow> nat option" where
  "scan_up lt x v i =
     (if i < length x then (if lt (x ! i) v then scan_up lt x v (Suc i) else Some i) else None)"
  by pat_completeness auto
termination
  by (relation "measure (\<lambda>(lt, x, v, i). length x - i)") auto

fun scan_down :: "('a \<Rightarrow> 'a \<Rightarrow> bool) \<Rightarrow> 'a list \<Rightarrow> 'a \<Rightarrow> nat \<Rightarrow> nat \<Rightarrow> nat option" where
  "scan_down lt x v l 0 = None"
| "scan_down lt x v l (Suc j) =
     (if lt v (x ! j) then (if j = l then Some j else scan_down lt x v l j) else Some j)"

lemma scan_down_less: "scan_down lt x v l j = Some j' \<Longrightarrow> j' < j"
  by (induction j) (auto split: if_splits)

function partition_loop ::
    "('a \<Rightarrow> 'a \<Rightarrow> bool) \<Rightarrow> 'a list \<Rightarrow> 'a \<Rightarrow> nat \<Rightarrow> nat \<Rightarrow> nat \<Rightarrow> ('a list \<times> nat) option" where
  "partition_loop lt x v l i j =
     (case scan_up lt x v i of
        None \<Rightarrow> None
      | Some i' \<Rightarrow>
          (case scan_down lt x v l j of
             None \<Rightarrow> None
           | Some j' \<Rightarrow>
               if i' \<ge> j' then Some (x, i')
               else partition_loop lt (sort_swap x i' j') v l (Suc i') j'))"
  by pat_completeness auto
termination
  by (relation "measure (\<lambda>(lt, x, v, l, i, j). j)") (auto dest: scan_down_less)

declare insertion_min.simps [simp del] insertion_loop.simps [simp del]
  scan_up.simps [simp del] partition_loop.simps [simp del]

definition partition :: "('a \<Rightarrow> 'a \<Rightarrow> bool) \<Rightarrow> 'a list \<Rightarrow> nat \<Rightarrow> nat \<Rightarrow> ('a list \<times> nat) option" where
  "partition lt x l r =
     (if r < length x then
        map_option (\<lambda>(x, i). (sort_swap x i r, i)) (partition_loop lt x (x ! r) l l r)
      else None)"

text \<open>The body of the quicksort loop up to the partition: median of three.\<close>

definition median3 :: "('a \<Rightarrow> 'a \<Rightarrow> bool) \<Rightarrow> 'a list \<Rightarrow> nat \<Rightarrow> nat \<Rightarrow> 'a list" where
  "median3 lt x l r =
     (let x = sort_swap x ((l + r) div 2) (r - 1);
          x = sort_exchange lt x l (r - 1);
          x = sort_exchange lt x l r
      in sort_exchange lt x (r - 1) r)"

partial_function (option) quicksort_loop ::
    "('a \<Rightarrow> 'a \<Rightarrow> bool) \<Rightarrow> 'a list \<Rightarrow> nat \<Rightarrow> nat \<Rightarrow> QuickSortStack \<Rightarrow> 'a list option" where
  "quicksort_loop lt x l r s =
     (if r - l \<le> QuickSortCutoff then
        (if s = [] then Some x else quicksort_loop lt x (fst (hd s)) (snd (hd s)) (tl s))
      else
        do { (x, i) \<leftarrow> partition lt (median3 lt x l r) (l + 1) (r - 1);
             if i - l > r - i
             then do { s \<leftarrow> push_seg s l (i - 1); quicksort_loop lt x (i + 1) r s }
             else do { s \<leftarrow> push_seg s (i + 1) r; quicksort_loop lt x l (i - 1) s } })"

declare quicksort_loop.simps [code]

definition quicksort :: "('a \<Rightarrow> 'a \<Rightarrow> bool) \<Rightarrow> 'a list \<Rightarrow> nat \<Rightarrow> nat \<Rightarrow> 'a list option" where
  "quicksort lt x l r = quicksort_loop lt x l r []"

definition fastsort :: "('a \<Rightarrow> 'a \<Rightarrow> bool) \<Rightarrow> 'a list \<Rightarrow> nat \<Rightarrow> 'a list option" where
  "fastsort lt x n =
     (if n < 2 then Some x
      else do { x \<leftarrow> (if n > QuickSortCutoff then quicksort lt x 0 (n - 1) else Some x);
                insertion lt x 0 (n - 1) })"


section \<open>Exchanges are permutations\<close>

lemma length_sort_swap [simp]: "length (sort_swap x a b) = length x"
  by (simp add: sort_swap_def Let_def)

lemma mset_sort_swap [simp]: "a < length x \<Longrightarrow> b < length x \<Longrightarrow> mset (sort_swap x a b) = mset x"
  by (simp add: sort_swap_def Let_def mset_swap)

lemma nth_sort_swap:
  "a < length x \<Longrightarrow> b < length x \<Longrightarrow>
   sort_swap x a b ! k = (if k = b then x ! a else if k = a then x ! b else x ! k)"
  by (auto simp: sort_swap_def Let_def nth_list_update)

lemma length_sort_exchange [simp]: "length (sort_exchange lt x a b) = length x"
  by (simp add: sort_exchange_def)

lemma mset_sort_exchange [simp]:
  "a < length x \<Longrightarrow> b < length x \<Longrightarrow> mset (sort_exchange lt x a b) = mset x"
  by (simp add: sort_exchange_def)

lemma length_median3 [simp]: "length (median3 lt x l r) = length x"
  by (simp add: median3_def Let_def)

lemma mset_median3 [simp]:
  "l \<le> r \<Longrightarrow> r < length x \<Longrightarrow> mset (median3 lt x l r) = mset x"
  by (simp add: median3_def Let_def less_imp_diff_less)

lemma scan_up_Some:
  "i \<le> r \<Longrightarrow> r < length x \<Longrightarrow> \<not> lt (x ! r) v \<Longrightarrow> \<exists>i'. scan_up lt x v i = Some i' \<and> i \<le> i' \<and> i' \<le> r"
proof (induction lt x v i rule: scan_up.induct)
  case (1 lt x v i)
  have "i < length x" using "1.prems" by simp
  show ?case
  proof (cases "lt (x ! i) v")
    case True
    then have "i \<noteq> r" using "1.prems"(3) by auto
    then have "\<exists>i'. scan_up lt x v (Suc i) = Some i' \<and> Suc i \<le> i' \<and> i' \<le> r"
      using "1.IH"[OF \<open>i < length x\<close> True] "1.prems" by simp
    then show ?thesis using True \<open>i < length x\<close> scan_up.simps[of lt x v i] by auto
  next
    case False
    then show ?thesis using \<open>i < length x\<close> scan_up.simps[of lt x v i] "1.prems"(1) by simp
  qed
qed

lemma scan_down_Some:
  "l < j \<Longrightarrow> \<exists>j'. scan_down lt x v l j = Some j' \<and> l \<le> j' \<and> j' < j"
proof (induction j)
  case (Suc j)
  show ?case
  proof (cases "lt v (x ! j) \<and> j \<noteq> l")
    case True
    then obtain j' where "scan_down lt x v l j = Some j'" "l \<le> j'" "j' < j" using Suc by force
    then show ?thesis using True by simp
  next
    case False
    then have "scan_down lt x v l (Suc j) = Some j" by simp
    moreover have "l \<le> j" using Suc.prems by simp
    ultimately show ?thesis by (intro exI[of _ j]) simp
  qed
qed simp

lemma partition_loop_Some:
  assumes "\<not> lt v v"
  shows "l \<le> i \<Longrightarrow> i \<le> r \<Longrightarrow> l < j \<Longrightarrow> j \<le> r \<Longrightarrow> r < length x \<Longrightarrow> x ! r = v \<Longrightarrow>
   \<exists>x' i'. partition_loop lt x v l i j = Some (x', i') \<and> l \<le> i' \<and> i' \<le> r \<and>
     length x' = length x \<and> mset x' = mset x"
  using assms
proof (induction lt x v l i j rule: partition_loop.induct)
  case (1 lt x v l i j)
  obtain i' where i': "scan_up lt x v i = Some i'" "i \<le> i'" "i' \<le> r"
    using scan_up_Some[of i r x lt v] "1.prems" by auto
  obtain j' where j': "scan_down lt x v l j = Some j'" "l \<le> j'" "j' < j"
    using scan_down_Some[OF "1.prems"(3), of lt x v] by blast
  note step = partition_loop.simps[of lt x v l i j]
  show ?case
  proof (cases "i' \<ge> j'")
    case True
    then show ?thesis using step i' j' "1.prems" by auto
  next
    case False
    let ?y = "sort_swap x i' j'"
    have "?y ! r = v" using False j' "1.prems" by (simp add: nth_sort_swap)
    then have "\<exists>x' i''. partition_loop lt ?y v l (Suc i') j' = Some (x', i'') \<and> l \<le> i'' \<and> i'' \<le> r \<and>
        length x' = length ?y \<and> mset x' = mset ?y"
      using "1.IH"[OF i'(1) j'(1) False] False i' j' "1.prems" by auto
    then show ?thesis using step i' j' False "1.prems" by auto
  qed
qed

lemma partition_Some:
  assumes "\<not> lt (x ! r) (x ! r)" "l < r" "r < length x"
  obtains x' i where "partition lt x l r = Some (x', i)" "l \<le> i" "i \<le> r"
    "length x' = length x" "mset x' = mset x"
proof -
  obtain x' i where "partition_loop lt x (x ! r) l l r = Some (x', i)" "l \<le> i" "i \<le> r"
      "length x' = length x" "mset x' = mset x"
    using partition_loop_Some[of lt "x ! r" l l r r x] assms by auto
  then show thesis using that[of "sort_swap x' i r" i] assms by (simp add: partition_def)
qed


section \<open>Quicksort returns a permutation within its stack\<close>

text \<open>
  The segments on the stack lie in the array, and the segment with \<open>k\<close> segments below it is
  at most \<open>n / 2 ^ k\<close> long: the loop pushes the longer half and goes on with the shorter one.
\<close>

fun stack_ok :: "nat \<Rightarrow> QuickSortStack \<Rightarrow> bool" where
  "stack_ok n [] = True"
| "stack_ok n ((l, r) # s) = (l \<le> r \<and> r < n \<and> (r - l + 1) * 2 ^ length s \<le> n \<and> stack_ok n s)"

fun stack_work :: "QuickSortStack \<Rightarrow> nat" where
  "stack_work [] = 0"
| "stack_work ((l, r) # s) = (r - l + 1) + stack_work s"

lemma stack_depth:
  fixes l r n :: nat
  assumes "(r - l + 1) * 2 ^ k \<le> n" "QuickSortCutoff < r - l" "n \<le> 2 ^ 31"
  shows "k < QuickSortStack_maxsize"
proof (rule ccontr)
  assume "\<not> k < QuickSortStack_maxsize"
  then have "(2::nat) ^ 32 \<le> 2 ^ k"
    by (intro power_increasing) (simp_all add: QuickSortStack_maxsize_def)
  also have "\<dots> \<le> (r - l + 1) * 2 ^ k" by simp
  finally show False using assms by simp
qed

lemma half_le:
  fixes a b p n :: nat
  assumes "2 * b \<le> a" "a * p \<le> n"
  shows "b * (2 * p) \<le> n"
proof -
  have "2 * b * p \<le> a * p" using assms(1) by (rule mult_le_mono1)
  also note assms(2)
  finally show ?thesis by (simp only: mult.assoc mult.left_commute mult.commute)
qed

lemma split_sizes:
  fixes l i r :: nat
  assumes "l < i" "i < r"
  shows "r - i < i - l \<Longrightarrow> 2 * (r - (i + 1) + 1) \<le> r - l + 1"
    and "\<not> r - i < i - l \<Longrightarrow> 2 * (i - 1 - l + 1) \<le> r - l + 1"
    and "i - 1 - l + 1 \<le> r - l + 1" "r - (i + 1) + 1 \<le> r - l + 1"
proof -
  obtain a b where "i = l + Suc a" "r = l + Suc a + Suc b"
    using assms less_imp_Suc_add[of l i] less_imp_Suc_add[of i r] by auto
  then show "r - i < i - l \<Longrightarrow> 2 * (r - (i + 1) + 1) \<le> r - l + 1"
    and "\<not> r - i < i - l \<Longrightarrow> 2 * (i - 1 - l + 1) \<le> r - l + 1"
    and "i - 1 - l + 1 \<le> r - l + 1" "r - (i + 1) + 1 \<le> r - l + 1" by simp_all
qed

lemma quicksort_loop_Some:
  assumes irrefl: "\<And>a. \<not> lt a a"
  shows "n \<le> 2 ^ 31 \<Longrightarrow> length x = n \<Longrightarrow> stack_ok n ((l, r) # s) \<Longrightarrow>
    \<exists>y. quicksort_loop lt x l r s = Some y \<and> mset y = mset x"
proof (induction "stack_work ((l, r) # s)" arbitrary: x l r s rule: less_induct)
  case less
  note step = quicksort_loop.simps[of lt x l r s]
  show ?case
  proof (cases "r - l \<le> QuickSortCutoff")
    case True
    show ?thesis
    proof (cases s)
      case Nil
      then show ?thesis using step True by simp
    next
      case (Cons p s')
      obtain l' r' where p: "p = (l', r')" by (cases p)
      have "\<exists>y. quicksort_loop lt x l' r' s' = Some y \<and> mset y = mset x"
        by (rule less.hyps) (use less.prems Cons p in auto)
      then show ?thesis using step True Cons p by simp
    qed
  next
    case False
    let ?m = "median3 lt x l r"
    have lr: "l + 10 < r" "r < n" "(r - l + 1) * 2 ^ length s \<le> n" "stack_ok n s"
      using False less.prems by (auto simp: QuickSortCutoff_def)
    obtain x' i where p: "partition lt ?m (l + 1) (r - 1) = Some (x', i)" "l + 1 \<le> i" "i \<le> r - 1"
        "length x' = length ?m" "mset x' = mset ?m"
      by (rule partition_Some[of lt ?m "r - 1" "l + 1"]) (use irrefl lr less.prems(2) in auto)
    have i: "l < i" "i < r" using p(2,3) lr(1) by linarith+
    have x': "length x' = n" "mset x' = mset x" using p lr less.prems(2) by simp_all
    have push: "push_seg s a b = Some ((a, b) # s)" for a b
      using stack_depth[OF lr(3)] False less.prems(1) by (simp add: push_seg_def)
    show ?thesis
    proof (cases "i - l > r - i")
      case True
      have "(r - (i + 1) + 1) * (2 * 2 ^ length s) \<le> n"
        by (rule half_le[OF _ lr(3)]) (rule split_sizes(1)[OF i True])
      moreover have "(i - 1 - l + 1) * 2 ^ length s \<le> n"
        by (rule le_trans[OF mult_le_mono1 lr(3)]) (rule split_sizes(3)[OF i])
      ultimately have "\<exists>y. quicksort_loop lt x' (i + 1) r ((l, i - 1) # s) = Some y \<and> mset y = mset x'"
        using p lr less.prems(1) x' by (intro less.hyps) auto
      then show ?thesis using step False p True push x' by simp
    next
      case small: False
      have "(i - 1 - l + 1) * (2 * 2 ^ length s) \<le> n"
        by (rule half_le[OF _ lr(3)]) (rule split_sizes(2)[OF i small])
      moreover have "(r - (i + 1) + 1) * 2 ^ length s \<le> n"
        by (rule le_trans[OF mult_le_mono1 lr(3)]) (rule split_sizes(4)[OF i])
      ultimately have "\<exists>y. quicksort_loop lt x' l (i - 1) ((i + 1, r) # s) = Some y \<and> mset y = mset x'"
        using p lr less.prems(1) x' by (intro less.hyps) auto
      then show ?thesis using step False p small push x' by simp
    qed
  qed
qed

lemma quicksort_perm:
  assumes "\<And>a. \<not> lt a a" "length x \<le> 2 ^ 31"
  obtains y where "(if length x > QuickSortCutoff then quicksort lt x 0 (length x - 1) else Some x) = Some y" "mset y = mset x"
proof (cases "QuickSortCutoff < length x")
  case True
  then obtain y where "quicksort lt x 0 (length x - 1) = Some y" "mset y = mset x"
    using quicksort_loop_Some[of lt "length x" x 0 "length x - 1" "[]"] assms by (cases "length x") (auto simp: quicksort_def)
  then show ?thesis using True by (intro that[of y]) simp_all
qed (intro that, simp_all)


section \<open>Insertion sort\<close>

lemma length_insertion_min [simp]: "length (insertion_min lt x l i) = length x"
  by (induction lt x l i rule: insertion_min.induct) (subst insertion_min.simps, simp)

lemma mset_insertion_min: "i < length x \<Longrightarrow> mset (insertion_min lt x l i) = mset x"
proof (induction lt x l i rule: insertion_min.induct)
  case (1 lt x l i)
  show ?case
  proof (cases "i > l")
    case True
    then have "mset (insertion_min lt (sort_exchange lt x (i - 1) i) l (i - 1)) = mset x"
      using "1.IH"[OF True] "1.prems" by simp
    then show ?thesis using True insertion_min.simps[of lt x l i] by simp
  qed (simp add: insertion_min.simps[of lt x l i])
qed

text \<open>
  The order the sort is used with: a strict weak order (\<^verbatim>\<open>lt(b,a)\<close> false for \<open>a\<close> before
  \<open>b\<close> is what "sorted" means).
\<close>

locale sort_order =
  fixes lt :: "'a \<Rightarrow> 'a \<Rightarrow> bool"
  assumes irrefl: "\<not> lt a a"
    and trans: "lt a b \<Longrightarrow> lt b c \<Longrightarrow> lt a c"
    and weak: "\<not> lt a b \<Longrightarrow> \<not> lt b c \<Longrightarrow> \<not> lt a c"
begin

definition le :: "'a \<Rightarrow> 'a \<Rightarrow> bool" where
  "le a b \<longleftrightarrow> \<not> lt b a"

lemma le_trans: "le a b \<Longrightarrow> le b c \<Longrightarrow> le a c"
  using weak by (auto simp: le_def)

lemma lt_le: "lt a b \<Longrightarrow> le a b"
  using irrefl trans by (auto simp: le_def)

lemma insertion_min_least:
  "i < length x \<Longrightarrow> (\<And>k. i \<le> k \<Longrightarrow> k < length x \<Longrightarrow> le (x ! i) (x ! k)) \<Longrightarrow> k < length x \<Longrightarrow>
   le (insertion_min lt x 0 i ! 0) (insertion_min lt x 0 i ! k)"
proof (induction i arbitrary: x k)
  case 0
  then show ?case by (simp add: insertion_min.simps[of lt x 0 0])
next
  case (Suc i)
  let ?y = "sort_exchange lt x i (Suc i)"
  have nth: "?y ! j = (if lt (x ! Suc i) (x ! i) then
      (if j = Suc i then x ! i else if j = i then x ! Suc i else x ! j) else x ! j)" for j
    using Suc.prems(1) by (simp add: sort_exchange_def nth_sort_swap)
  have "le (?y ! i) (?y ! j)" if "i \<le> j" "j < length ?y" for j
  proof (cases "Suc i \<le> j")
    case True
    then have j: "le (x ! Suc i) (x ! j)" using Suc.prems(2)[of j] that by simp
    show ?thesis
    proof (cases "lt (x ! Suc i) (x ! i)")
      case True
      then have "?y ! i = x ! Suc i" "?y ! j = (if j = Suc i then x ! i else x ! j)"
        using \<open>Suc i \<le> j\<close> by (simp_all add: nth)
      then show ?thesis using j lt_le[OF True] by simp
    next
      case False
      then have "le (x ! i) (x ! Suc i)" by (simp add: le_def)
      then show ?thesis using False j le_trans by (simp add: nth)
    qed
  next
    case False
    then have "j = i" using that by simp
    then show ?thesis using irrefl by (simp add: le_def)
  qed
  then have "le (insertion_min lt ?y 0 i ! 0) (insertion_min lt ?y 0 i ! k)"
    using Suc.IH[of ?y k] Suc.prems by simp
  then show ?case by (simp add: insertion_min.simps[of lt x 0 "Suc i"])
qed

text \<open>The shift loop with the hole behind the sorted prefix \<open>xs\<close>, whose head is a sentinel.\<close>

lemma insertion_shift_spec:
  "xs \<noteq> [] \<Longrightarrow> \<not> lt v (hd xs) \<Longrightarrow>
   \<exists>y as bs. insertion_shift lt (xs @ h # zs) v (length xs) = Some (y, length as) \<and>
     y[length as := v] = as @ v # bs @ zs \<and> xs = as @ bs \<and> as \<noteq> [] \<and>
     \<not> lt v (last as) \<and> (\<forall>b \<in> set bs. lt v b)"
proof (induction xs arbitrary: h zs rule: rev_induct)
  case (snoc a xs)
  note step = insertion_shift.simps(2)[of lt "(xs @ [a]) @ h # zs" v "length xs"]
  show ?case
  proof (cases "lt v a")
    case True
    then have ne: "xs \<noteq> []" "\<not> lt v (hd xs)" using snoc.prems by (cases xs; force)+
    obtain y as bs where IH: "insertion_shift lt (xs @ a # a # zs) v (length xs) = Some (y, length as)"
        "y[length as := v] = as @ v # bs @ a # zs" "xs = as @ bs" "as \<noteq> []"
        "\<not> lt v (last as)" "\<forall>b \<in> set bs. lt v b"
      using snoc.IH[OF ne, of a "a # zs"] by blast
    have "insertion_shift lt ((xs @ [a]) @ h # zs) v (length (xs @ [a])) = Some (y, length as)"
      using step True IH(1) by (simp add: nth_append list_update_append)
    then show ?thesis using IH True
      by (intro exI[of _ y] exI[of _ as] exI[of _ "bs @ [a]"]) auto
  next
    case False
    then have "insertion_shift lt ((xs @ [a]) @ h # zs) v (length (xs @ [a]))
        = Some ((xs @ [a]) @ h # zs, length (xs @ [a]))"
      using step by (simp add: nth_append)
    then show ?thesis using False
      by (intro exI[of _ "(xs @ [a]) @ h # zs"] exI[of _ "xs @ [a]"] exI[of _ "[]"]) (simp add: list_update_append)
  qed
qed simp

lemma sorted_insert:
  assumes "sorted_wrt le (as @ bs)" "as \<noteq> []" "\<not> lt v (last as)" "\<forall>b \<in> set bs. lt v b"
  shows "sorted_wrt le (as @ v # bs)"
proof -
  obtain cs c where as: "as = cs @ [c]" using assms(2) by (cases as rule: rev_cases) auto
  have "le c v" using assms(3) as by (simp add: le_def)
  then have "\<forall>a \<in> set as. le a v" using assms(1) as le_trans by (auto simp: sorted_wrt_append)
  then show ?thesis using assms(1,4) lt_le by (auto simp: sorted_wrt_append)
qed

lemma insertion_loop_spec:
  assumes "sorted_wrt le (take i x)" "0 < i" "Suc r = length x" "i \<le> length x"
    and "\<forall>k < length x. le (x ! 0) (x ! k)"
  shows "\<exists>y. insertion_loop lt x i r = Some y \<and> mset y = mset x \<and> sorted_wrt le y"
  using assms
proof (induction "length x - i" arbitrary: x i)
  case 0
  then show ?case by (simp add: insertion_loop.simps[of lt x i r])
next
  case (Suc n)
  then have i: "i < length x" "i \<le> r" by linarith+
  let ?p = "take i x" and ?v = "x ! i" and ?z = "drop (Suc i) x"
  have x: "x = ?p @ ?v # ?z" "length ?p = i" using i by (simp_all add: id_take_nth_drop)
  have ne: "?p \<noteq> []" "\<not> lt ?v (hd ?p)"
    using Suc.prems(2,5) i by (cases x; auto simp: hd_take le_def)+
  obtain y as bs where ins: "insertion_shift lt x ?v i = Some (y, length as)"
      "y[length as := ?v] = as @ ?v # bs @ ?z" "?p = as @ bs" "as \<noteq> []"
      "\<not> lt ?v (last as)" "\<forall>b \<in> set bs. lt ?v b"
    using insertion_shift_spec[OF ne, of ?v ?z] x by auto
  let ?x = "as @ ?v # bs @ ?z"
  have len: "length ?x = length x" "length (as @ bs) = i" using x ins(3) i by auto
  have perm: "mset ?x = mset x" using arg_cong[OF x(1), of mset] ins(3) by simp
  have "take (Suc i) ?x = as @ ?v # bs" using len(2) by (auto simp: Suc_diff_le)
  then have srt: "sorted_wrt le (take (Suc i) ?x)"
    using sorted_insert[OF _ ins(4,5,6)] Suc.prems(1) ins(3) by simp
  have "?x ! 0 = x ! 0" using ins(3,4) x(1) by (metis append_is_Nil_conv hd_append2 hd_conv_nth Nil_is_append_conv)
  then have "\<forall>k < length ?x. le (?x ! 0) (?x ! k)"
    using Suc.prems(5) mset_eq_setD[OF perm] len(1) by (metis in_set_conv_nth)
  then have "\<exists>y. insertion_loop lt ?x (Suc i) r = Some y \<and> mset y = mset ?x \<and> sorted_wrt le y"
    using Suc.hyps(1)[of ?x "Suc i"] Suc.hyps(2) Suc.prems(3) srt len i by simp
  then show ?case using insertion_loop.simps[of lt x i r] i ins(1,2) perm by auto
qed

lemma insertion_spec:
  assumes "2 \<le> length x"
  shows "\<exists>y. insertion lt x 0 (length x - 1) = Some y \<and> mset y = mset x \<and> sorted_wrt le y"
proof -
  let ?m = "insertion_min lt x 0 (length x - 1)"
  have "le (x ! (length x - 1)) (x ! k)" if "length x - 1 \<le> k" "k < length x" for k
  proof -
    have "k = length x - 1" using that by simp
    then show ?thesis using irrefl by (simp add: le_def)
  qed
  then have "le (?m ! 0) (?m ! k)" if "k < length ?m" for k
    using that assms by (intro insertion_min_least) auto
  moreover from this[of 1] have "sorted_wrt le (take 2 ?m)"
    using assms by (cases ?m; cases "tl ?m") (auto simp: numeral_2_eq_2)
  ultimately have "\<exists>y. insertion_loop lt ?m 2 (length x - 1) = Some y \<and> mset y = mset ?m \<and> sorted_wrt le y"
    using assms by (intro insertion_loop_spec) auto
  moreover have "insertion lt x 0 (length x - 1) = insertion_loop lt ?m 2 (length x - 1)"
    using assms by (auto simp: insertion_def numeral_2_eq_2)
  ultimately show ?thesis using mset_insertion_min[of "length x - 1" x lt 0] assms by auto
qed

theorem fastsort_spec:
  assumes "length x \<le> 2 ^ 31"
  shows "\<exists>y. fastsort lt x (length x) = Some y \<and> mset y = mset x \<and> sorted_wrt le y"
proof (cases "length x < 2")
  case True
  then show ?thesis by (cases x; cases "tl x") (auto simp: fastsort_def)
next
  case False
  obtain y where y: "(if length x > QuickSortCutoff then quicksort lt x 0 (length x - 1) else Some x) = Some y"
    "mset y = mset x" by (rule quicksort_perm[of lt x]) (use irrefl assms in auto)
  then show ?thesis using insertion_spec[of y] False mset_eq_length[OF y(2)]
    by (auto simp: fastsort_def)
qed

end


section \<open>Orders on the elements of the array\<close>

text \<open>
  A comparison need only be an order on the elements that are sorted: the insertion sort, which
  makes the array ordered, compares no others.
\<close>

definition order_on :: "'a set \<Rightarrow> ('a \<Rightarrow> 'a \<Rightarrow> bool) \<Rightarrow> 'a \<Rightarrow> 'a \<Rightarrow> bool" where
  "order_on C lt a b \<longleftrightarrow> a \<in> C \<and> (b \<in> C \<longrightarrow> lt a b)"

lemma order_on_sort_order:
  assumes "\<And>a. a \<in> C \<Longrightarrow> \<not> lt a a"
    and "\<And>a b c. a \<in> C \<Longrightarrow> b \<in> C \<Longrightarrow> c \<in> C \<Longrightarrow> lt a b \<Longrightarrow> lt b c \<Longrightarrow> lt a c"
    and "\<And>a b c. a \<in> C \<Longrightarrow> b \<in> C \<Longrightarrow> c \<in> C \<Longrightarrow> \<not> lt a b \<Longrightarrow> \<not> lt b c \<Longrightarrow> \<not> lt a c"
  shows "sort_order (order_on C lt)"
proof
  show "\<not> order_on C lt a a" for a using assms(1) by (auto simp: order_on_def)
  show "order_on C lt a b \<Longrightarrow> order_on C lt b c \<Longrightarrow> order_on C lt a c" for a b c
    using assms(2)[of a b c] by (auto simp: order_on_def)
  show "\<not> order_on C lt a b \<Longrightarrow> \<not> order_on C lt b c \<Longrightarrow> \<not> order_on C lt a c" for a b c
    using assms(3)[of a b c] by (auto simp: order_on_def)
qed

lemma insertion_min_on:
  "i < length x \<Longrightarrow> set x \<subseteq> C \<Longrightarrow> insertion_min (order_on C lt) x l i = insertion_min lt x l i"
proof (induction i arbitrary: x)
  case 0
  then show ?case by (simp add: insertion_min.simps)
next
  case (Suc i)
  have e: "sort_exchange (order_on C lt) x i (Suc i) = sort_exchange lt x i (Suc i)"
    using Suc.prems subsetD[OF Suc.prems(2) nth_mem[of i x]] subsetD[OF Suc.prems(2) nth_mem[of "Suc i" x]]
    by (simp add: sort_exchange_def order_on_def)
  have "set (sort_exchange lt x i (Suc i)) = set x"
    using mset_sort_exchange[of i x "Suc i" lt] Suc.prems(1) mset_eq_setD by (metis Suc_lessD)
  then show ?case using Suc.IH[of "sort_exchange lt x i (Suc i)"] Suc.prems e
    by (simp add: insertion_min.simps[of _ _ _ "Suc i"])
qed

lemma insertion_shift_on:
  "j < length x \<Longrightarrow> set x \<subseteq> C \<Longrightarrow> v \<in> C \<Longrightarrow>
   insertion_shift (order_on C lt) x v j = insertion_shift lt x v j \<and>
   (\<forall>y k. insertion_shift lt x v j = Some (y, k) \<longrightarrow> set y \<subseteq> C \<and> length y = length x)"
proof (induction j arbitrary: x)
  case (Suc j)
  have m: "x ! j \<in> C" using Suc.prems by (meson Suc_lessD nth_mem subsetD)
  have "set (x[Suc j := x ! j]) \<subseteq> C" using Suc.prems(2) m by (meson insert_subset set_update_subset_insert subset_trans)
  note ih = Suc.IH[OF _ this Suc.prems(3)]
  have "order_on C lt v (x ! j) = lt v (x ! j)" using m Suc.prems(3) by (simp add: order_on_def)
  then show ?case using ih Suc.prems by (cases "lt v (x ! j)") simp_all
qed simp

lemma insertion_loop_on:
  "r < length x \<Longrightarrow> set x \<subseteq> C \<Longrightarrow> insertion_loop (order_on C lt) x i r = insertion_loop lt x i r"
proof (induction lt x i r rule: insertion_loop.induct)
  case (1 lt x i r)
  show ?case
  proof (cases "i \<le> r")
    case True
    then have v: "x ! i \<in> C" "i < length x" using "1.prems" by (auto simp: subset_iff)
    note sh = insertion_shift_on[OF v(2) "1.prems"(2) v(1), of lt]
    show ?thesis
    proof (cases "insertion_shift lt x (x ! i) i")
      case (Some p)
      obtain y k where p: "p = (y, k)" by (cases p)
      have y: "set y \<subseteq> C" "length y = length x" using sh Some p by auto
      then have "set (y[k := x ! i]) \<subseteq> C" using v(1) by (meson insert_subset set_update_subset_insert subset_trans)
      then show ?thesis using "1.IH"[OF True Some p[symmetric]] True Some p sh y "1.prems"(1)
        by (simp add: insertion_loop.simps[of _ x i r])
    qed (use True sh in \<open>simp add: insertion_loop.simps[of _ x i r]\<close>)
  qed (simp add: insertion_loop.simps[of _ x i r])
qed

lemma fastsort_on:
  assumes irr: "\<And>a. \<not> lt a a" and len: "length x \<le> 2 ^ 31"
    and "\<And>a b c. a \<in> set x \<Longrightarrow> b \<in> set x \<Longrightarrow> c \<in> set x \<Longrightarrow> lt a b \<Longrightarrow> lt b c \<Longrightarrow> lt a c"
    and "\<And>a b c. a \<in> set x \<Longrightarrow> b \<in> set x \<Longrightarrow> c \<in> set x \<Longrightarrow> \<not> lt a b \<Longrightarrow> \<not> lt b c \<Longrightarrow> \<not> lt a c"
  shows "\<exists>y. fastsort lt x (length x) = Some y \<and> mset y = mset x \<and> sorted_wrt (\<lambda>a b. \<not> lt b a) y"
proof (cases "length x < 2")
  case True
  then show ?thesis by (cases x; cases "tl x") (auto simp: fastsort_def)
next
  case False
  let ?C = "set x"
  have so: "sort_order (order_on ?C lt)" by (rule order_on_sort_order) (use assms in blast)+
  obtain y where y: "(if length x > QuickSortCutoff then quicksort lt x 0 (length x - 1) else Some x) = Some y"
    "mset y = mset x" by (rule quicksort_perm[OF irr len])
  have l: "length y = length x" and C: "set y = ?C" using y(2) mset_eq_length mset_eq_setD by blast+
  have "mset (insertion_min lt y 0 (length y - 1)) = mset y" using mset_insertion_min[of "length y - 1" y lt 0] False l by simp
  then have "set (insertion_min lt y 0 (length y - 1)) = ?C" using mset_eq_setD C by blast
  then have "insertion (order_on ?C lt) y 0 (length y - 1) = insertion lt y 0 (length y - 1)"
    using insertion_min_on[of "length y - 1" y ?C lt 0] insertion_loop_on[of "length y - 1" "insertion_min lt y 0 (length y - 1)" ?C lt 2]
      False l C by (simp add: insertion_def numeral_2_eq_2)
  then obtain z where z: "insertion lt y 0 (length y - 1) = Some z" "mset z = mset y" "sorted_wrt (sort_order.le (order_on ?C lt)) z"
    using sort_order.insertion_spec[OF so, of y] False l by auto
  have "sorted_wrt (\<lambda>a b. \<not> lt b a) z"
    using z(3) by (rule sorted_wrt_mono_rel[rotated]) (use z(2) C mset_eq_setD in \<open>auto simp: sort_order.le_def[OF so] order_on_def\<close>)
  then show ?thesis using y z l False by (auto simp: fastsort_def)
qed

end
