(* ===== verification/FiniteDomain.thy ===== *)
theory FiniteDomain
  imports FDBitVector Sort
begin

text \<open>
  Class \<^verbatim>\<open>OZ_FiniteDomainImpl\<close> of \<^verbatim>\<open>platform/emulator/fdomn.cc\<close> and \<^verbatim>\<open>fdomn.hh\<close>: a finite
  domain is its size and bounds and a tagged pointer, which is null for an interval and points
  to an interval array or to a bit vector otherwise. This theory holds the state, the
  conversions between the representations, the initialisations and the queries; the operators
  are in \<^verbatim>\<open>FiniteDomainOps\<close>, the constructors from Oz terms in \<^verbatim>\<open>FiniteDomainDescr\<close>.

  Every operation takes the globals of the kernel (\<^typ>\<open>fd_globals\<close>) where the code reads
  them, and a destructive one returns the new object with its result. What an object stands
  for is \<open>fd_rep g d S\<close>: the object \<open>d\<close> represents the set \<open>S\<close> in the form the kernel keeps.
\<close>

section \<open>State\<close>

datatype descr_type = FdDescr | IvDescr FDIntervals | BvDescr FDBitVector

record OZ_FiniteDomain =
  min_elem :: int
  max_elem :: int
  fd_size :: int
  descr :: descr_type

definition findSize :: "OZ_FiniteDomain \<Rightarrow> int" where
  "findSize d = max_elem d - min_elem d + 1"

definition isSingleInterval :: "OZ_FiniteDomain \<Rightarrow> bool" where
  "isSingleInterval d \<longleftrightarrow> fd_size d = max_elem d - min_elem d + 1"

text \<open>\<^verbatim>\<open>if (isSingleInterval()) setType(fd_descr);\<close>, the last statement of most operators.\<close>

definition reduce :: "OZ_FiniteDomain \<Rightarrow> OZ_FiniteDomain" where
  "reduce d = (if isSingleInterval d then d\<lparr>descr := FdDescr\<rparr> else d)"

subsection \<open>Storage\<close>

text \<open>
  A fresh vector has \<open>hi\<close> words; their content is written before it is read. A vector that is
  there already is reused when it is long enough.
\<close>

definition newBitVector :: "int \<Rightarrow> FDBitVector" where
  "newBitVector hi = replicate (nat hi) 0"

definition provideBitVector :: "OZ_FiniteDomain \<Rightarrow> int \<Rightarrow> FDBitVector" where
  "provideBitVector d hi =
     (case descr d of
        BvDescr bv \<Rightarrow> if hi > int (length bv) then newBitVector hi else take (nat hi) bv
      | _ \<Rightarrow> newBitVector hi)"

subsection \<open>Conversions\<close>

fun asBitVector_loop :: "fd_globals \<Rightarrow> FDIntervals \<Rightarrow> FDBitVector \<Rightarrow> FDBitVector" where
  "asBitVector_loop g [] bv = bv"
| "asBitVector_loop g (x # xs) bv =
     (if left x \<le> fd_bv_max_elem g
      then asBitVector_loop g xs (addFromTo bv (left x) (min (right x) (fd_bv_max_elem g)))
      else bv)"

definition asBitVector :: "fd_globals \<Rightarrow> OZ_FiniteDomain \<Rightarrow> FDBitVector" where
  "asBitVector g d =
     (case descr d of
        BvDescr bv \<Rightarrow> bv
      | FdDescr \<Rightarrow>
          (let min_maxElem = min (fd_bv_max_elem g) (max_elem d);
               bv = provideBitVector d (word32 min_maxElem)
           in if min_elem d > fd_bv_max_elem g then setEmpty_bv bv
              else setFromTo bv (min_elem d) min_maxElem)
      | IvDescr iv \<Rightarrow>
          (let min_maxElem = min (fd_bv_max_elem g) (max_elem d);
               bv = newBitVector (word32 min_maxElem)
           in asBitVector_loop g iv (setEmpty_bv bv)))"

definition asIntervals :: "OZ_FiniteDomain \<Rightarrow> FDIntervals" where
  "asIntervals d =
     (case descr d of
        IvDescr iv \<Rightarrow> iv
      | BvDescr bv \<Rightarrow>
          if isSingleInterval d then init2_iv (min_elem d) (max_elem d) else raw_iv (mkRaw bv)
      | FdDescr \<Rightarrow> init2_iv (min_elem d) (max_elem d))"

text \<open>
  The sequences the operators share: take the bounds of a new interval array or bit vector and
  install it (\<^verbatim>\<open>min_elem = iv->findMinElem(); max_elem = iv->findMaxElem(); setType(iv);\<close>), and
  turn an interval array into a bit vector when its elements are small enough.
\<close>

definition setIv :: "FDIntervals \<Rightarrow> OZ_FiniteDomain \<Rightarrow> OZ_FiniteDomain" where
  "setIv iv d = d\<lparr>min_elem := findMinElem_iv iv, max_elem := findMaxElem_iv iv, descr := IvDescr iv\<rparr>"

definition setBv :: "FDBitVector \<Rightarrow> OZ_FiniteDomain \<Rightarrow> OZ_FiniteDomain" where
  "setBv bv d =
     (let mn = findMinElem_bv bv; (bv', mx) = findMaxElem_bv bv
      in d\<lparr>min_elem := mn, max_elem := mx, descr := BvDescr bv'\<rparr>)"

definition narrow :: "fd_globals \<Rightarrow> OZ_FiniteDomain \<Rightarrow> OZ_FiniteDomain" where
  "narrow g d = (if max_elem d \<le> fd_bv_max_elem g then d\<lparr>descr := BvDescr (asBitVector g d)\<rparr> else d)"

subsection \<open>Initialisation\<close>

definition initEmpty :: "OZ_FiniteDomain \<Rightarrow> OZ_FiniteDomain \<times> int" where
  "initEmpty d = (d\<lparr>min_elem := -1, max_elem := -1, descr := FdDescr, fd_size := 0\<rparr>, 0)"

definition initFull :: "OZ_FiniteDomain \<Rightarrow> OZ_FiniteDomain \<times> int" where
  "initFull d = (d\<lparr>descr := FdDescr, min_elem := fd_inf, max_elem := fd_sup, fd_size := fd_full_size\<rparr>,
     fd_full_size)"

definition initBool :: "OZ_FiniteDomain \<Rightarrow> OZ_FiniteDomain \<times> int" where
  "initBool d = (d\<lparr>descr := FdDescr, min_elem := 0, max_elem := 1, fd_size := 2\<rparr>, 2)"

definition initRange :: "OZ_FiniteDomain \<Rightarrow> int \<Rightarrow> int \<Rightarrow> OZ_FiniteDomain \<times> int" where
  "initRange d l r =
     (let l = max l fd_inf; r = min r fd_sup; d = d\<lparr>descr := FdDescr\<rparr>
      in if l > r then (d\<lparr>fd_size := 0\<rparr>, 0)
         else (let d = d\<lparr>min_elem := l, max_elem := r\<rparr>; s = findSize d in (d\<lparr>fd_size := s\<rparr>, s)))"

definition initSingleton :: "OZ_FiniteDomain \<Rightarrow> int \<Rightarrow> OZ_FiniteDomain \<times> int" where
  "initSingleton d n =
     (if n < fd_inf \<or> fd_sup < n then initEmpty d
      else (d\<lparr>descr := FdDescr, min_elem := n, max_elem := n, fd_size := 1\<rparr>, 1))"

subsection \<open>Queries\<close>

definition isIn :: "OZ_FiniteDomain \<Rightarrow> int \<Rightarrow> bool" where
  "isIn d i =
     (if fd_size d = 0 \<or> i < min_elem d \<or> max_elem d < i then False
      else case descr d of FdDescr \<Rightarrow> True | BvDescr bv \<Rightarrow> isIn_bv bv i | IvDescr iv \<Rightarrow> isIn_iv iv i)"

datatype OZ_FDState = fd_empty | fd_full | fd_bool | fd_singl

text \<open>\<^verbatim>\<open>fd_full\<close> is outside the asserted states; both operators fall through to the last case.\<close>

definition eq_state :: "OZ_FiniteDomain \<Rightarrow> OZ_FDState \<Rightarrow> bool" where
  "eq_state d state =
     (if state = fd_singl then fd_size d = 1
      else if state = fd_bool then fd_size d = 2 \<and> min_elem d = 0 \<and> max_elem d = 1
      else fd_size d = 0)"

definition ne_state :: "OZ_FiniteDomain \<Rightarrow> OZ_FDState \<Rightarrow> bool" where
  "ne_state d state =
     (if state = fd_singl then fd_size d \<noteq> 1
      else if state = fd_bool then fd_size d \<noteq> 2 \<or> min_elem d \<noteq> 0 \<or> max_elem d \<noteq> 1
      else fd_size d > 0)"

definition eq_int :: "OZ_FiniteDomain \<Rightarrow> int \<Rightarrow> bool" where
  "eq_int d v \<longleftrightarrow> fd_size d = 1 \<and> min_elem d = v"

definition ne_int :: "OZ_FiniteDomain \<Rightarrow> int \<Rightarrow> bool" where
  "ne_int d v \<longleftrightarrow> fd_size d \<noteq> 1 \<or> min_elem d \<noteq> v"

definition getSingleElem :: "OZ_FiniteDomain \<Rightarrow> int" where
  "getSingleElem d = (if fd_size d \<noteq> 1 then -1 else min_elem d)"

definition intersectWithBool :: "OZ_FiniteDomain \<Rightarrow> int" where
  "intersectWithBool d =
     (if isIn d 0 then (if isIn d 1 then -1 else 0) else (if isIn d 1 then 1 else -2))"

definition nextSmallerElem :: "OZ_FiniteDomain \<Rightarrow> int \<Rightarrow> int" where
  "nextSmallerElem d v =
     (case descr d of
        FdDescr \<Rightarrow> if v \<le> min_elem d then -1 else if v > max_elem d then max_elem d else v - 1
      | BvDescr bv \<Rightarrow> nextSmallerElem_bv bv v (min_elem d)
      | IvDescr iv \<Rightarrow> nextSmallerElem_iv iv v (min_elem d))"

definition nextLargerElem :: "OZ_FiniteDomain \<Rightarrow> int \<Rightarrow> int" where
  "nextLargerElem d v =
     (case descr d of
        FdDescr \<Rightarrow> if v \<ge> max_elem d then -1 else if v < min_elem d then min_elem d else v + 1
      | BvDescr bv \<Rightarrow> nextLargerElem_bv bv v (max_elem d)
      | IvDescr iv \<Rightarrow> nextLargerElem_iv iv v (max_elem d))"

definition lowerBound :: "OZ_FiniteDomain \<Rightarrow> int \<Rightarrow> int" where
  "lowerBound d v =
     (if isIn d v then
        (case descr d of
           FdDescr \<Rightarrow> min_elem d
         | BvDescr bv \<Rightarrow> lowerBound_bv bv v (min_elem d)
         | IvDescr iv \<Rightarrow> lowerBound_iv iv v)
      else -1)"

definition upperBound :: "OZ_FiniteDomain \<Rightarrow> int \<Rightarrow> int" where
  "upperBound d v =
     (if isIn d v then
        (case descr d of
           FdDescr \<Rightarrow> max_elem d
         | BvDescr bv \<Rightarrow> upperBound_bv bv v (max_elem d)
         | IvDescr iv \<Rightarrow> upperBound_iv iv v)
      else -1)"

text \<open>\<^const>\<open>None\<close> is a read outside the arrays, or the pointer of an interval.\<close>

definition midElem :: "OZ_FiniteDomain \<Rightarrow> int option" where
  "midElem d =
     (let mid = c_div (min_elem d + max_elem d) 2
      in if isIn d mid then Some mid
         else case descr d of
                FdDescr \<Rightarrow> None
              | BvDescr bv \<Rightarrow> midElem_bv bv mid
              | IvDescr iv \<Rightarrow> midElem_iv iv mid)"

text \<open>The debugging check of the kernel (\<^verbatim>\<open>DEBUG_FD_CONSTRREP\<close>).\<close>

definition isConsistent :: "fd_globals \<Rightarrow> OZ_FiniteDomain \<Rightarrow> bool" where
  "isConsistent g d =
     (if fd_size d = 0 then True
      else case descr d of
             FdDescr \<Rightarrow> findSize d = fd_size d
           | BvDescr bv \<Rightarrow> findSize_bv bv = fd_size d \<and> findMinElem_bv bv = min_elem d \<and>
               snd (findMaxElem_bv bv) = max_elem d
           | IvDescr iv \<Rightarrow> findSize_iv iv = fd_size d \<and> max_elem d > fd_bv_max_elem g \<and>
               findMinElem_iv iv = min_elem d \<and> findMaxElem_iv iv = max_elem d)"


section \<open>What a domain stands for\<close>

definition descr_ok :: "fd_globals \<Rightarrow> descr_type \<Rightarrow> int set \<Rightarrow> bool" where
  "descr_ok g t S =
     (case t of
        FdDescr \<Rightarrow> S = {Min S..Max S}
      | IvDescr iv \<Rightarrow> iv_ok iv \<and> iv_set iv = S
      | BvDescr bv \<Rightarrow> bv_set bv = S \<and> int (length bv) \<le> fd_bv_max_high g)"

text \<open>A non-empty domain before the last reduction to an interval.\<close>

definition fd_shape :: "fd_globals \<Rightarrow> OZ_FiniteDomain \<Rightarrow> int set \<Rightarrow> bool" where
  "fd_shape g d S \<longleftrightarrow> S \<noteq> {} \<and> S \<subseteq> {0..fd_sup} \<and> min_elem d = Min S \<and> max_elem d = Max S \<and>
     fd_size d = int (card S) \<and> descr_ok g (descr d) S"

definition fd_rep :: "fd_globals \<Rightarrow> OZ_FiniteDomain \<Rightarrow> int set \<Rightarrow> bool" where
  "fd_rep g d S \<longleftrightarrow>
     (if S = {} then fd_size d = 0
      else fd_shape g d S \<and> (descr d \<noteq> FdDescr \<longrightarrow> \<not> isSingleInterval d))"


lemma fd_shape_facts:
  assumes "fd_shape g d S"
  shows "finite S" "S \<noteq> {}" "min_elem d \<in> S" "max_elem d \<in> S" "min_elem d \<le> max_elem d"
    "\<And>i. i \<in> S \<Longrightarrow> min_elem d \<le> i" "\<And>i. i \<in> S \<Longrightarrow> i \<le> max_elem d" "0 \<le> min_elem d"
    "max_elem d \<le> fd_sup" "fd_size d = int (card S)" "0 < fd_size d"
proof -
  have S: "S \<noteq> {}" "S \<subseteq> {0..fd_sup}" "min_elem d = Min S" "max_elem d = Max S" "fd_size d = int (card S)"
    using assms by (auto simp: fd_shape_def)
  then show fin: "finite S" by (meson finite_atLeastAtMost_int finite_subset)
  show "min_elem d \<in> S" "max_elem d \<in> S" "min_elem d \<le> max_elem d"
    using fin S(1) by (simp_all add: S(3,4))
  then show "0 \<le> min_elem d" "max_elem d \<le> fd_sup" using S(2) by auto
  show "\<And>i. i \<in> S \<Longrightarrow> min_elem d \<le> i" "\<And>i. i \<in> S \<Longrightarrow> i \<le> max_elem d" using fin by (simp_all add: S(3,4))
  show "0 < fd_size d" using fin S(1) by (simp add: S(5) card_gt_0_iff)
qed (use assms in \<open>auto simp: fd_shape_def\<close>)

lemma fd_shape_single:
  assumes "fd_shape g d S"
  shows "isSingleInterval d \<longleftrightarrow> S = {min_elem d..max_elem d}"
proof
  assume "isSingleInterval d"
  then have "int (card S) = Max S - Min S + 1"
    using assms by (simp add: isSingleInterval_def fd_shape_def)
  then have "S = {Min S..Max S}" using card_eq_interval fd_shape_facts(1,2)[OF assms] by blast
  then show "S = {min_elem d..max_elem d}" using assms by (simp add: fd_shape_def)
next
  assume "S = {min_elem d..max_elem d}"
  then have "card S = card {min_elem d..max_elem d}" by simp
  then show "isSingleInterval d"
    using fd_shape_facts(5,10)[OF assms] by (simp add: isSingleInterval_def)
qed

lemma fd_rep_shape: "S \<noteq> {} \<Longrightarrow> fd_rep g d S \<Longrightarrow> fd_shape g d S"
  by (simp add: fd_rep_def)

lemma fd_rep_empty: "fd_rep g d {} \<longleftrightarrow> fd_size d = 0"
  by (simp add: fd_rep_def)

lemma fd_rep_size: "fd_rep g d S \<Longrightarrow> fd_size d = int (card S)"
  by (auto simp: fd_rep_def fd_shape_def split: if_splits)

lemma fd_rep_subset: "fd_rep g d S \<Longrightarrow> S \<subseteq> {0..fd_sup}"
  by (auto simp: fd_rep_def fd_shape_def split: if_splits)

lemma fd_rep_finite: "fd_rep g d S \<Longrightarrow> finite S"
  using fd_rep_subset finite_subset by (metis finite_atLeastAtMost_int)

lemma fd_rep_size_iff: "fd_rep g d S \<Longrightarrow> fd_size d = 0 \<longleftrightarrow> S = {}"
  using fd_rep_size fd_rep_finite by fastforce

lemma reduce_simps [simp]:
  "min_elem (reduce d) = min_elem d" "max_elem (reduce d) = max_elem d" "fd_size (reduce d) = fd_size d"
  by (simp_all add: reduce_def)

lemma rep_reduce:
  assumes "fd_shape g d S"
  shows "fd_rep g (reduce d) S"
proof (cases "isSingleInterval d")
  case True
  then have "S = {Min S..Max S}" using fd_shape_single[OF assms] assms by (simp add: fd_shape_def)
  then show ?thesis using assms True by (simp add: fd_rep_def fd_shape_def reduce_def descr_ok_def)
next
  case False
  then show ?thesis using assms by (simp add: fd_rep_def reduce_def fd_shape_def)
qed

lemma rep_reduce_empty: "fd_size d = 0 \<Longrightarrow> fd_rep g (reduce d) {}"
  by (simp add: fd_rep_def)

lemma rep_interval:
  assumes "0 \<le> min_elem d" "min_elem d \<le> max_elem d" "max_elem d \<le> fd_sup" "descr d = FdDescr"
    "fd_size d = findSize d"
  shows "fd_rep g d {min_elem d..max_elem d}"
proof -
  have mm: "Min {min_elem d..max_elem d} = min_elem d" "Max {min_elem d..max_elem d} = max_elem d"
    using assms(2) by (auto intro: Min_eqI Max_eqI)
  show ?thesis using assms by (simp add: fd_rep_def fd_shape_def descr_ok_def mm findSize_def)
qed

lemma shape_interval:
  assumes "fd_shape g d S" "descr d = FdDescr"
  shows "S = {min_elem d..max_elem d}"
  using assms by (simp add: fd_shape_def descr_ok_def)

subsection \<open>Installing an array\<close>

lemma setIv_shape:
  assumes "iv_ok iv" "iv_set iv = S" "S \<noteq> {}" "fd_size d = int (card S)"
  shows "fd_shape g (setIv iv d) S"
proof -
  have f: "iv_from (-1) iv" "S \<subseteq> {0..fd_sup}" using assms(1,2) iv_ok_subset iv_ok_from by auto
  have "findMinElem_iv iv = Min S" "findMaxElem_iv iv = Max S"
    using iv.min_Min[OF f(1)] iv.max_Max[OF f(1)] assms(2,3) by auto
  then show ?thesis using assms f by (simp add: fd_shape_def setIv_def descr_ok_def)
qed

lemma setBv_shape:
  assumes "bv_set bv = S" "S \<noteq> {}" "fd_size d = int (card S)" "int (length bv) \<le> fd_bv_max_high g"
    and "fd_globals_ok g"
  shows "fd_shape g (setBv bv d) S"
proof -
  obtain bv' mx where m: "findMaxElem_bv bv = (bv', mx)" by (cases "findMaxElem_bv bv")
  have mx: "mx = Max S" "bv_set bv' = S" "length bv' \<le> length bv"
    using findMaxElem_bv_Max[OF _ m] assms(1,2) by auto
  have "S \<subseteq> {0..fd_sup}"
  proof
    fix i assume "i \<in> S"
    then have "0 \<le> i" "i \<le> currBvMaxElem bv" using bv_set_bounds assms(1) by auto
    then show "i \<in> {0..fd_sup}" using assms(4,5) by (simp add: currBvMaxElem_def fd_globals_ok_def)
  qed
  moreover have "findMinElem_bv bv = Min S" using findMinElem_bv_Min assms(1,2) by simp
  ultimately show ?thesis using assms mx by (simp add: fd_shape_def setBv_def m descr_ok_def)
qed

lemma setIv_simps [simp]: "fd_size (setIv iv d) = fd_size d" "descr (setIv iv d) = IvDescr iv"
  by (simp_all add: setIv_def)

lemma setBv_simps [simp]: "fd_size (setBv bv d) = fd_size d"
  by (simp add: setBv_def split: prod.splits)

lemma narrow_simps [simp]: "fd_size (narrow g d) = fd_size d"
  by (simp add: narrow_def)


subsection \<open>Conversions\<close>

lemma init2_ok: "0 \<le> l \<Longrightarrow> l \<le> r \<Longrightarrow> r \<le> fd_sup \<Longrightarrow> iv_ok (init2_iv l r)"
  by (simp add: iv_ok_def init2_iv_def)

lemma asIntervals_spec:
  assumes "fd_shape g d S"
  shows "iv_ok (asIntervals d)" "iv_set (asIntervals d) = S"
proof -
  note f = fd_shape_facts[OF assms]
  have single: "iv_ok (init2_iv (min_elem d) (max_elem d)) \<and> iv_set (init2_iv (min_elem d) (max_elem d)) = S"
    if "S = {min_elem d..max_elem d}"
    using f(5,8,9) init2_ok[of "min_elem d" "max_elem d"] that by (simp add: init2_iv_def)
  have raw: "iv_ok (raw_iv (mkRaw bv)) \<and> iv_set (raw_iv (mkRaw bv)) = S" if "bv_set bv = S" for bv
    using that assms by (simp add: mkRaw_set iv_okI[OF mkRaw_from] fd_shape_def)
  have "iv_ok (asIntervals d) \<and> iv_set (asIntervals d) = S"
  proof (cases "descr d")
    case FdDescr
    then show ?thesis using single shape_interval[OF assms] by (simp add: asIntervals_def)
  next
    case (IvDescr iv)
    then show ?thesis using assms by (simp add: asIntervals_def fd_shape_def descr_ok_def)
  next
    case (BvDescr bv)
    then have "bv_set bv = S" using assms by (simp add: fd_shape_def descr_ok_def)
    then show ?thesis using single raw fd_shape_single[OF assms] BvDescr
      by (simp add: asIntervals_def)
  qed
  then show "iv_ok (asIntervals d)" "iv_set (asIntervals d) = S" by auto
qed

lemma asIntervals_ne: "fd_shape g d S \<Longrightarrow> asIntervals d \<noteq> []"
  using asIntervals_spec(2)[of g d S] fd_shape_facts(2)[of g d S] by auto

lemma newBitVector_simps [simp]:
  "int (length (newBitVector hi)) = max 0 hi" "bv_set (newBitVector hi) = {}"
  by (auto simp: newBitVector_def mem_bv_set mem_wbits)

lemma word32_le_high:
  assumes "m \<le> fd_bv_max_elem g" "fd_globals_ok g"
  shows "word32 m \<le> fd_bv_max_high g"
  using assms unfolding word32_eq fd_globals_ok_def by linarith

lemma newBitVector_fits:
  assumes "-1 \<le> m"
  shows "m \<le> currBvMaxElem (newBitVector (word32 m))"
proof -
  have "0 \<le> word32 m" "m + 1 \<le> 32 * word32 m" using assms by (auto simp: word32_eq)
  then show ?thesis using newBitVector_simps(1)[of "word32 m"] unfolding currBvMaxElem_def by linarith
qed

lemma asBitVector_loop_spec:
  assumes "iv_from b xs" "-1 \<le> b" "\<And>i. i \<in> iv_set xs \<Longrightarrow> i \<le> fd_bv_max_elem g \<Longrightarrow> i \<le> currBvMaxElem bv"
  shows "bv_set (asBitVector_loop g xs bv) = bv_set bv \<union> (iv_set xs \<inter> {..fd_bv_max_elem g}) \<and>
    length (asBitVector_loop g xs bv) = length bv"
  using assms
proof (induction g xs bv arbitrary: b rule: asBitVector_loop.induct)
  case (2 g x xs bv)
  have x: "0 \<le> left x" "left x \<le> right x" "iv_from (right x + 1) xs" using "2.prems" by auto
  have rest: "i \<in> iv_set xs \<Longrightarrow> right x + 1 < i" for i using iv_set_gt[OF x(3)] .
  show ?case
  proof (cases "left x \<le> fd_bv_max_elem g")
    case True
    let ?m = "min (right x) (fd_bv_max_elem g)"
    have m: "left x \<le> ?m" "?m \<le> currBvMaxElem bv"
      using x(2) True "2.prems"(3)[of ?m] by simp_all
    note add = addFromTo_set[OF x(1) m]
    have "currBvMaxElem (addFromTo bv (left x) ?m) = currBvMaxElem bv"
      using add by (simp add: currBvMaxElem_def)
    then have IH: "bv_set (asBitVector_loop g xs (addFromTo bv (left x) ?m))
        = bv_set (addFromTo bv (left x) ?m) \<union> (iv_set xs \<inter> {..fd_bv_max_elem g}) \<and>
        length (asBitVector_loop g xs (addFromTo bv (left x) ?m)) = length (addFromTo bv (left x) ?m)"
      using "2.IH"[OF True x(3)] x "2.prems"(3) by simp
    have "{left x..?m} = {left x..right x} \<inter> {..fd_bv_max_elem g}" by auto
    then show ?thesis using True IH add by auto
  next
    case False
    then show ?thesis using rest x(2) by fastforce
  qed
qed simp

lemma asBitVector_spec:
  assumes "fd_shape g d S" "fd_globals_ok g"
  shows "bv_set (asBitVector g d) = S \<inter> {..fd_bv_max_elem g}"
    and "int (length (asBitVector g d)) \<le> fd_bv_max_high g"
proof -
  note f = fd_shape_facts[OF assms(1)]
  define m where "m = min (fd_bv_max_elem g) (max_elem d)"
  have m: "-1 \<le> m" "m \<le> fd_bv_max_elem g" using assms(2) f(5,8) by (auto simp: m_def fd_globals_ok_def)
  have fits: "m \<le> currBvMaxElem (newBitVector (word32 m))" by (rule newBitVector_fits[OF m(1)])
  have len: "int (length (newBitVector (word32 m))) \<le> fd_bv_max_high g"
    using word32_le_high[OF m(2) assms(2)] assms(2) by (simp add: fd_globals_ok_def)
  have "bv_set (asBitVector g d) = S \<inter> {..fd_bv_max_elem g} \<and> int (length (asBitVector g d)) \<le> fd_bv_max_high g"
  proof (cases "descr d")
    case FdDescr
    have S: "S = {min_elem d..max_elem d}" by (rule shape_interval[OF assms(1) FdDescr])
    have as: "asBitVector g d = (if min_elem d > fd_bv_max_elem g then setEmpty_bv (newBitVector (word32 m))
        else setFromTo (newBitVector (word32 m)) (min_elem d) m)"
      by (simp add: asBitVector_def provideBitVector_def FdDescr m_def Let_def)
    show ?thesis
    proof (cases "min_elem d > fd_bv_max_elem g")
      case True
      then show ?thesis using as len S by auto
    next
      case False
      then have "min_elem d \<le> m" using f(5) by (simp add: m_def)
      then have "bv_set (asBitVector g d) = {min_elem d..m}"
          "length (asBitVector g d) = length (newBitVector (word32 m))"
        using setFromTo_set[OF f(8) _ fits] as False by simp_all
      moreover have "{min_elem d..m} = S \<inter> {..fd_bv_max_elem g}" unfolding S m_def by auto
      ultimately show ?thesis using len by simp
    qed
  next
    case (IvDescr iv)
    then have iv: "iv_from (-1) iv" "iv_set iv = S"
      using assms(1) by (auto simp: fd_shape_def descr_ok_def iv_ok_from)
    have "i \<le> currBvMaxElem (setEmpty_bv (newBitVector (word32 m)))"
      if "i \<in> iv_set iv" "i \<le> fd_bv_max_elem g" for i
      using that fits f(7)[of i] by (simp add: currBvMaxElem_def iv(2) m_def)
    then show ?thesis using asBitVector_loop_spec[OF iv(1)] IvDescr iv(2) len
      by (simp add: asBitVector_def m_def Let_def)
  next
    case (BvDescr bv)
    then have bv: "bv_set bv = S" "int (length bv) \<le> fd_bv_max_high g"
      using assms(1) by (auto simp: fd_shape_def descr_ok_def)
    have "S \<subseteq> {..fd_bv_max_elem g}"
      using bv_set_bounds[of _ bv] bv assms(2) by (fastforce simp: currBvMaxElem_def fd_globals_ok_def)
    then show ?thesis using BvDescr bv by (auto simp: asBitVector_def)
  qed
  then show "bv_set (asBitVector g d) = S \<inter> {..fd_bv_max_elem g}"
    "int (length (asBitVector g d)) \<le> fd_bv_max_high g" by auto
qed

lemma asBitVector_all:
  assumes "fd_shape g d S" "fd_globals_ok g" "max_elem d \<le> fd_bv_max_elem g"
  shows "bv_set (asBitVector g d) = S"
  using asBitVector_spec(1)[OF assms(1,2)] fd_shape_facts(7)[OF assms(1)] assms(3) by fastforce

lemma narrow_shape:
  assumes "fd_shape g d S" "fd_globals_ok g"
  shows "fd_shape g (narrow g d) S"
  using assms asBitVector_all[OF assms] asBitVector_spec(2)[OF assms]
  by (auto simp: narrow_def fd_shape_def descr_ok_def)


subsection \<open>Initialisation\<close>

lemma init_specs:
  "fd_rep g (fst (initEmpty d)) {}" "snd (initEmpty d) = 0"
  "fd_rep g (fst (initFull d)) {0..fd_sup}" "snd (initFull d) = int (card {0..fd_sup})"
  "fd_rep g (fst (initBool d)) {0, 1}" "snd (initBool d) = int (card {0, 1 :: int})"
proof -
  have "{0..1} = {0, 1 :: int}" by auto
  then show "fd_rep g (fst (initBool d)) {0, 1}"
    using rep_interval[of "fst (initBool d)" g] by (simp add: initBool_def findSize_def fd_sup_def)
  show "fd_rep g (fst (initFull d)) {0..fd_sup}"
    using rep_interval[of "fst (initFull d)" g] by (simp add: initFull_def findSize_def fd_full_size_def)
qed (auto simp: initEmpty_def initFull_def initBool_def fd_rep_def fd_full_size_def)

lemma initRange_spec:
  "fd_rep g (fst (initRange d l r)) ({l..r} \<inter> {0..fd_sup}) \<and>
   snd (initRange d l r) = int (card ({l..r} \<inter> {0..fd_sup}))"
proof -
  have S: "{l..r} \<inter> {0..fd_sup} = {max l 0..min r fd_sup}" by auto
  show ?thesis
  proof (cases "max l 0 > min r fd_sup")
    case True
    then have "initRange d l r = (d\<lparr>descr := FdDescr, fd_size := 0\<rparr>, 0)" by (simp add: initRange_def)
    moreover have "{max l 0..min r fd_sup} = {}" using True by simp
    ultimately show ?thesis unfolding S by (simp add: fd_rep_def)
  next
    case False
    let ?d = "fst (initRange d l r)"
    have d: "min_elem ?d = max l 0" "max_elem ?d = min r fd_sup" "descr ?d = FdDescr"
      "fd_size ?d = findSize ?d" "snd (initRange d l r) = min r fd_sup - max l 0 + 1"
      using False by (simp_all add: initRange_def findSize_def Let_def)
    have "fd_rep g ?d {min_elem ?d..max_elem ?d}"
      by (rule rep_interval) (use d False in \<open>auto simp: findSize_def\<close>)
    then show ?thesis using d False unfolding S by simp
  qed
qed

lemma initSingleton_spec:
  "fd_rep g (fst (initSingleton d n)) ({n} \<inter> {0..fd_sup}) \<and>
   snd (initSingleton d n) = int (card ({n} \<inter> {0..fd_sup}))"
proof (cases "n < fd_inf \<or> fd_sup < n")
  case True
  then have "{n} \<inter> {0..fd_sup} = {}" by auto
  then show ?thesis using True init_specs(1,2) by (simp add: initSingleton_def)
next
  case False
  let ?d = "fst (initSingleton d n)"
  have d: "min_elem ?d = n" "max_elem ?d = n" "descr ?d = FdDescr" "fd_size ?d = 1" "snd (initSingleton d n) = 1"
    using False by (simp_all add: initSingleton_def)
  have "fd_rep g ?d {min_elem ?d..max_elem ?d}"
    by (rule rep_interval) (use d False in \<open>auto simp: findSize_def\<close>)
  moreover have "{n} \<inter> {0..fd_sup} = {n}" using False by auto
  ultimately show ?thesis using d by simp
qed


subsection \<open>Queries\<close>

lemma isIn_shape:
  assumes "fd_shape g d S"
  shows "isIn d i \<longleftrightarrow> i \<in> S"
proof (cases "i < min_elem d \<or> max_elem d < i")
  case True
  then show ?thesis using fd_shape_facts(6,7)[OF assms, of i] by (auto simp: isIn_def)
next
  case False
  note f = fd_shape_facts[OF assms]
  have i: "0 \<le> i" using False f(8) by simp
  have "fd_size d \<noteq> 0" using f(11) by simp
  show ?thesis
  proof (cases "descr d")
    case FdDescr
    then show ?thesis using shape_interval[OF assms] False f(11) by (simp add: isIn_def)
  next
    case (IvDescr iv)
    then have "iv_from (-1) iv" "iv_set iv = S"
      using assms by (auto simp: fd_shape_def descr_ok_def iv_ok_from)
    then show ?thesis using iv.mem_iff[of iv i] i f(2,11) False IvDescr by (simp add: isIn_def)
  next
    case (BvDescr bv)
    then have "bv_set bv = S" using assms by (auto simp: fd_shape_def descr_ok_def)
    then show ?thesis using bv.mem_iff[of bv i] i f(2,11) False BvDescr by (simp add: isIn_def)
  qed
qed

lemma isIn_rep: "fd_rep g d S \<Longrightarrow> isIn d i \<longleftrightarrow> i \<in> S"
  using isIn_shape[of g d S] by (cases "S = {}") (auto simp: fd_rep_def isIn_def)

lemma next_shape:
  assumes "fd_shape g d S"
  shows "next_smaller S v (nextSmallerElem d v)" "-1 \<le> v \<Longrightarrow> next_larger S v (nextLargerElem d v)"
proof -
  note f = fd_shape_facts[OF assms]
  have "next_smaller S v (nextSmallerElem d v) \<and> (-1 \<le> v \<longrightarrow> next_larger S v (nextLargerElem d v))"
  proof (cases "descr d")
    case FdDescr
    have "S = {min_elem d..max_elem d}" by (rule shape_interval[OF assms FdDescr])
    then show ?thesis using next_interval[OF f(5), of v] FdDescr
      by (simp add: nextSmallerElem_def nextLargerElem_def)
  next
    case (IvDescr iv)
    then have "iv_from (-1) iv" "iv_set iv = S"
      using assms by (auto simp: fd_shape_def descr_ok_def iv_ok_from)
    then show ?thesis using iv.smaller_spec[of iv "min_elem d" v] iv.larger_spec[of iv "max_elem d" v] f(6-8) IvDescr
      by (simp add: nextSmallerElem_def nextLargerElem_def)
  next
    case (BvDescr bv)
    then have "bv_set bv = S" using assms by (auto simp: fd_shape_def descr_ok_def)
    then show ?thesis using bv.smaller_spec[of bv "min_elem d" v] bv.larger_spec[of bv "max_elem d" v] f(6-8) BvDescr
      by (simp add: nextSmallerElem_def nextLargerElem_def)
  qed
  then show "next_smaller S v (nextSmallerElem d v)" "-1 \<le> v \<Longrightarrow> next_larger S v (nextLargerElem d v)"
    by auto
qed

lemma bounds_shape:
  assumes "fd_shape g d S"
  shows "if v \<in> S then run_of S v (lowerBound d v) (upperBound d v) else lowerBound d v = -1 \<and> upperBound d v = -1"
proof (cases "v \<in> S")
  case False
  then show ?thesis using isIn_shape[OF assms] by (simp add: lowerBound_def upperBound_def)
next
  case True
  note f = fd_shape_facts[OF assms]
  have v: "isIn d v" using True isIn_shape[OF assms] by simp
  have mm: "min_elem d = Min S" "max_elem d = Max S" using assms by (auto simp: fd_shape_def)
  show ?thesis
  proof (cases "descr d")
    case FdDescr
    have "S = {min_elem d..max_elem d}" by (rule shape_interval[OF assms FdDescr])
    then have "i \<in> S \<longleftrightarrow> min_elem d \<le> i \<and> i \<le> max_elem d" for i by auto
    then have "run_of S v (min_elem d) (max_elem d)" using True unfolding run_of_def by (simp add: subset_iff)
    then show ?thesis using True v FdDescr by (simp add: lowerBound_def upperBound_def)
  next
    case (IvDescr iv)
    then have "iv_from (-1) iv" "iv_set iv = S"
      using assms by (auto simp: fd_shape_def descr_ok_def iv_ok_from)
    then show ?thesis using iv.bounds_spec[of iv v] v IvDescr True by (simp add: lowerBound_def upperBound_def)
  next
    case (BvDescr bv)
    then have "bv_set bv = S" using assms by (auto simp: fd_shape_def descr_ok_def)
    then show ?thesis using bv.bounds_spec[where a = bv and v = v] v BvDescr True mm by (simp add: lowerBound_def upperBound_def)
  qed
qed

lemma midElem_shape:
  assumes "fd_shape g d S"
  shows "\<exists>r. midElem d = Some r \<and> nearest S ((min_elem d + max_elem d) div 2) r"
proof -
  note f = fd_shape_facts[OF assms]
  let ?m = "(min_elem d + max_elem d) div 2"
  have m: "c_div (min_elem d + max_elem d) 2 = ?m" using f(5,8) by (intro c_div_nonneg) auto
  have bd: "min_elem d \<le> ?m" "?m \<le> max_elem d" "0 \<le> ?m" using f(5,8) by auto
  show ?thesis
  proof (cases "?m \<in> S")
    case True
    then have "midElem d = Some ?m" using isIn_shape[OF assms] by (simp add: midElem_def m)
    moreover have "nearest S ?m ?m" using True by (auto simp: nearest_def)
    ultimately show ?thesis by blast
  next
    case False
    have "min_elem d \<noteq> ?m" "max_elem d \<noteq> ?m" using False f(3,4) by auto
    then have "min_elem d < ?m" "?m < max_elem d" using bd(1,2) by (simp_all add: less_le)
    then have ex: "\<exists>j \<in> S. j < ?m" "\<exists>j \<in> S. ?m < j" using f(3,4) by blast+
    have ni: "\<not> isIn d ?m" using False isIn_shape[OF assms] by simp
    show ?thesis
    proof (cases "descr d")
      case FdDescr
      then show ?thesis using shape_interval[OF assms FdDescr] False bd by simp
    next
      case (IvDescr iv)
      then have "iv_from (-1) iv" "iv_set iv = S"
        using assms by (auto simp: fd_shape_def descr_ok_def iv_ok_from)
      then show ?thesis using iv.mid_spec[of iv ?m] False ex bd(3) ni IvDescr by (simp add: midElem_def m Let_def)
    next
      case (BvDescr bv)
      then have "bv_set bv = S" using assms by (auto simp: fd_shape_def descr_ok_def)
      then show ?thesis using bv.mid_spec[where a = bv and i = ?m] False ex bd(3) ni BvDescr by (simp add: midElem_def m Let_def)
    qed
  qed
qed


lemma eq_state_singl: "fd_rep g d S \<Longrightarrow> eq_state d fd_singl \<longleftrightarrow> card S = 1"
  using fd_rep_size by (simp add: eq_state_def)

lemma eq_state_bool:
  assumes "fd_rep g d S"
  shows "eq_state d fd_bool \<longleftrightarrow> S = {0, 1}"
proof (cases "S = {}")
  case True
  then show ?thesis using assms by (auto simp: eq_state_def fd_rep_def)
next
  case False
  note f = fd_shape_facts[OF fd_rep_shape[OF False assms]]
  show ?thesis
  proof
    assume "eq_state d fd_bool"
    then have b: "card S = 2" "min_elem d = 0" "max_elem d = 1"
      using fd_rep_size[OF assms] by (auto simp: eq_state_def)
    then show "S = {0, 1}" using f(3,4,6,7) by force
  next
    assume "S = {0, 1}"
    then have "min_elem d = 0" "max_elem d = 1" "card S = 2"
      using f(3,4) f(6)[of 0] f(7)[of 1] by auto
    then show "eq_state d fd_bool" using fd_rep_size[OF assms] by (simp add: eq_state_def)
  qed
qed

lemma ne_state_neg: "fd_rep g d S \<Longrightarrow> ne_state d s \<longleftrightarrow> \<not> eq_state d s"
  using fd_rep_size[of g d S] by (simp add: ne_state_def eq_state_def)

lemma intersectWithBool_rep:
  assumes "fd_rep g d S"
  shows "intersectWithBool d = (if S \<inter> {0, 1} = {0, 1} then -1 else if S \<inter> {0, 1} = {0} then 0
    else if S \<inter> {0, 1} = {1} then 1 else -2)"
  using isIn_rep[OF assms] by (auto simp: intersectWithBool_def)

end
