(* ===== verification/FiniteDomainOps.thy ===== *)
theory FiniteDomainOps
  imports FiniteDomain
begin

text \<open>
  The operators of \<^verbatim>\<open>OZ_FiniteDomainImpl\<close> (\<^verbatim>\<open>platform/emulator/fdomn.cc\<close>) and the refinement
  of the set operations they implement: an operator applied to objects that represent sets
  gives an object that represents the set the operation is named after, and returns its size.

  A destructive operator returns the new object and the result. The operators that shrink a
  domain (\<^verbatim>\<open>\<le>\<close>, \<^verbatim>\<open>\<ge>\<close>, difference) are specified for a non-empty domain: an empty one may keep
  the bounds it had, and these operators read them (see the theorem on stale bounds).
\<close>

section \<open>The operators\<close>

definition op_and_int :: "OZ_FiniteDomain \<Rightarrow> int \<Rightarrow> OZ_FiniteDomain \<times> int" where
  "op_and_int d i = (if isIn d i then (fst (initSingleton d i), 1) else (fst (initEmpty d), 0))"

definition op_le :: "fd_globals \<Rightarrow> OZ_FiniteDomain \<Rightarrow> int \<Rightarrow> OZ_FiniteDomain \<times> int" where
  "op_le g d leq =
     (if leq < min_elem d then initEmpty d
      else
        (let d =
           (if leq < max_elem d then
              (case descr d of
                 FdDescr \<Rightarrow>
                   (let d = d\<lparr>max_elem := min (max_elem d) leq\<rparr> in d\<lparr>fd_size := findSize d\<rparr>)
               | BvDescr bv \<Rightarrow>
                   (let (bv, s) = le_bv bv leq; d = d\<lparr>fd_size := s, descr := BvDescr bv\<rparr>
                    in if s > 0
                       then (let (bv, mx) = findMaxElem_bv bv in d\<lparr>descr := BvDescr bv, max_elem := mx\<rparr>)
                       else d)
               | IvDescr iv \<Rightarrow>
                   if leq \<le> fd_sup then
                     (let (iv, s) = le_iv iv leq; d = d\<lparr>fd_size := s, descr := IvDescr iv\<rparr>;
                          d = (if s > 0 then d\<lparr>max_elem := findMaxElem_iv iv\<rparr> else d)
                      in narrow g d)
                   else d)
            else d)
         in (reduce d, fd_size d)))"

definition op_ge :: "fd_globals \<Rightarrow> OZ_FiniteDomain \<Rightarrow> int \<Rightarrow> OZ_FiniteDomain \<times> int" where
  "op_ge g d geq =
     (if geq > max_elem d then initEmpty d
      else
        (let d =
           (if geq > min_elem d then
              (case descr d of
                 FdDescr \<Rightarrow>
                   (let d = d\<lparr>min_elem := max (min_elem d) geq\<rparr> in d\<lparr>fd_size := findSize d\<rparr>)
               | BvDescr bv \<Rightarrow>
                   if geq > currBvMaxElem bv then fst (initEmpty d)
                   else
                     (let (bv, s) = ge_bv bv geq; d = d\<lparr>fd_size := s, descr := BvDescr bv\<rparr>
                      in if s > 0 then d\<lparr>min_elem := findMinElem_bv bv\<rparr> else d)
               | IvDescr iv \<Rightarrow>
                   (let (iv, s) = ge_iv iv geq; d = d\<lparr>fd_size := s, descr := IvDescr iv\<rparr>
                    in if s > 0 then d\<lparr>min_elem := findMinElem_iv iv\<rparr> else d))
            else d)
         in (reduce d, fd_size d)))"

definition op_minus_int :: "fd_globals \<Rightarrow> OZ_FiniteDomain \<Rightarrow> int \<Rightarrow> OZ_FiniteDomain \<times> int" where
  "op_minus_int g d take_out =
     (if isIn d take_out then
        (let d =
           (case descr d of
              FdDescr \<Rightarrow>
                if take_out = min_elem d then d\<lparr>min_elem := min_elem d + 1\<rparr>
                else if take_out = max_elem d then d\<lparr>max_elem := max_elem d - 1\<rparr>
                else if max_elem d \<le> fd_bv_max_elem g then
                  (let bv = setFromTo (provideBitVector d (word32 (max_elem d))) (min_elem d) (max_elem d)
                   in setBv (resetBit_bv bv take_out) d)
                else d\<lparr>descr := IvDescr (init4_iv (min_elem d) (take_out - 1) (take_out + 1) (max_elem d))\<rparr>
            | BvDescr bv \<Rightarrow> setBv (resetBit_bv bv take_out) d
            | IvDescr iv \<Rightarrow> narrow g (setIv (minus_int_iv iv take_out) d));
             d = d\<lparr>fd_size := fd_size d - 1\<rparr>
         in (reduce d, fd_size d))
      else (d, fd_size d))"

text \<open>The difference of two intervals, the first branch of \<^verbatim>\<open>operator -=\<close>.\<close>

definition minus_ranges :: "fd_globals \<Rightarrow> OZ_FiniteDomain \<Rightarrow> OZ_FiniteDomain \<Rightarrow> OZ_FiniteDomain" where
  "minus_ranges g d y =
     (if max_elem y < min_elem d \<or> max_elem d < min_elem y then d
      else if min_elem y \<le> min_elem d \<and> max_elem d \<le> max_elem y then d\<lparr>fd_size := 0\<rparr>
      else if min_elem d < min_elem y \<and> max_elem y < max_elem d then
        (if max_elem d \<le> fd_bv_max_elem g then
           (let bv = setFromTo (provideBitVector d (word32 (max_elem d))) (min_elem d) (min_elem y - 1);
                bv = addFromTo bv (max_elem y + 1) (max_elem d)
            in d\<lparr>fd_size := findSize_bv bv, descr := BvDescr bv\<rparr>)
         else
           (let iv = init4_iv (min_elem d) (min_elem y - 1) (max_elem y + 1) (max_elem d)
            in d\<lparr>fd_size := findSize_iv iv, descr := IvDescr iv\<rparr>))
      else if max_elem y < max_elem d then
        (let d = d\<lparr>min_elem := max_elem y + 1\<rparr> in d\<lparr>fd_size := findSize d\<rparr>)
      else (let d = d\<lparr>max_elem := min_elem y - 1\<rparr> in d\<lparr>fd_size := findSize d\<rparr>))"

definition op_minus :: "fd_globals \<Rightarrow> OZ_FiniteDomain \<Rightarrow> OZ_FiniteDomain \<Rightarrow> OZ_FiniteDomain \<times> int" where
  "op_minus g d y =
     (if ne_state y fd_empty then
        (let d =
           (case descr d of
              FdDescr \<Rightarrow>
                (case descr y of
                   FdDescr \<Rightarrow> minus_ranges g d y
                 | BvDescr y_bv \<Rightarrow>
                     if max_elem d > fd_bv_max_elem g then
                       (let (z, s) = subtract_iv (asIntervals d) (asIntervals y)
                        in narrow g (setIv z (d\<lparr>fd_size := s\<rparr>)))
                     else
                       (let (bv, s) = minus_bv (asBitVector g d) y_bv in setBv bv (d\<lparr>fd_size := s\<rparr>))
                 | IvDescr y_iv \<Rightarrow>
                     (let (z, s) = subtract_iv (asIntervals d) y_iv
                      in narrow g (setIv z (d\<lparr>fd_size := s\<rparr>))))
            | BvDescr bv \<Rightarrow>
                (let (bv, s) = minus_bv bv (asBitVector g y) in setBv bv (d\<lparr>fd_size := s\<rparr>))
            | IvDescr iv \<Rightarrow>
                (let (z, s) = subtract_iv iv (asIntervals y)
                 in narrow g (setIv z (d\<lparr>fd_size := s\<rparr>))))
         in (reduce d, fd_size d))
      else (d, fd_size d))"

definition op_plus_int :: "fd_globals \<Rightarrow> OZ_FiniteDomain \<Rightarrow> int \<Rightarrow> OZ_FiniteDomain \<times> int" where
  "op_plus_int g d put_in =
     (if put_in < fd_inf \<or> fd_sup < put_in then (d, fd_size d)
      else
        (let d =
           (if fd_size d = 0 then d\<lparr>min_elem := put_in, max_elem := put_in, fd_size := 1\<rparr>
            else if \<not> isIn d put_in then
              (let d =
                 (case descr d of
                    FdDescr \<Rightarrow>
                      if put_in = min_elem d - 1 then d\<lparr>min_elem := min_elem d - 1\<rparr>
                      else if put_in = max_elem d + 1 then d\<lparr>max_elem := max_elem d + 1\<rparr>
                      else
                        (let max_put_in = max put_in (max_elem d)
                         in if max_put_in \<le> fd_bv_max_elem g then
                              (let bv = setFromTo (provideBitVector d (word32 max_put_in)) (min_elem d) (max_elem d)
                               in setBv (setBit_bv bv put_in) d)
                            else if put_in < min_elem d then
                              d\<lparr>descr := IvDescr (init4_iv put_in put_in (min_elem d) (max_elem d)), min_elem := put_in\<rparr>
                            else
                              d\<lparr>descr := IvDescr (init4_iv (min_elem d) (max_elem d) put_in put_in), max_elem := put_in\<rparr>)
                  | BvDescr bv \<Rightarrow>
                      if put_in \<le> currBvMaxElem bv then setBv (setBit_bv bv put_in) d
                      else if put_in \<le> fd_bv_max_elem g then
                        (let bv' = bv @ replicate (nat (word32 put_in) - length bv) 0
                         in setBv (setBit_bv bv' put_in) d)
                      else
                        (let conv = mkRaw bv; c_len = length conv;
                             conv' = (if put_in = max_elem d + 1
                                      then conv[c_len - 1 := (fst (conv ! (c_len - 1)), snd (conv ! (c_len - 1)) + 1)]
                                      else conv @ [(put_in, put_in)])
                         in d\<lparr>max_elem := put_in, descr := IvDescr (raw_iv conv')\<rparr>)
                  | IvDescr iv \<Rightarrow> setIv (plus_int_iv iv put_in) d)
               in d\<lparr>fd_size := fd_size d + 1\<rparr>)
            else d)
         in (reduce d, fd_size d)))"

text \<open>\<^verbatim>\<open>OZ_FiniteDomainImpl z; z.initEmpty();\<close>\<close>

definition new_fd :: OZ_FiniteDomain where
  "new_fd = \<lparr>min_elem = -1, max_elem = -1, fd_size = 0, descr = FdDescr\<rparr>"

definition op_or :: "fd_globals \<Rightarrow> OZ_FiniteDomain \<Rightarrow> OZ_FiniteDomain \<Rightarrow> OZ_FiniteDomain" where
  "op_or g d y =
     reduce
       (if eq_state d fd_empty then y
        else if eq_state y fd_empty then d
        else if max (max_elem d) (max_elem y) > fd_bv_max_elem g then
          (let (z, s) = union_iv (asIntervals d) (asIntervals y) in setIv z (new_fd\<lparr>fd_size := s\<rparr>))
        else
          (let (z, s) = union_bv (asBitVector g d) (asBitVector g y) in setBv z (new_fd\<lparr>fd_size := s\<rparr>)))"

definition op_and_assign :: "fd_globals \<Rightarrow> OZ_FiniteDomain \<Rightarrow> OZ_FiniteDomain \<Rightarrow> OZ_FiniteDomain \<times> int" where
  "op_and_assign g d y =
     (if eq_state d fd_empty \<or> eq_state y fd_empty then (fst (initEmpty d), 0)
      else
        (let d =
           (if descr d = FdDescr \<and> descr y = FdDescr then
              (if max_elem d < min_elem y \<or> max_elem y < min_elem d then d\<lparr>fd_size := 0\<rparr>
               else (let d = d\<lparr>min_elem := max (min_elem d) (min_elem y), max_elem := min (max_elem d) (max_elem y)\<rparr>
                     in d\<lparr>fd_size := findSize d\<rparr>))
            else if min (max_elem d) (max_elem y) > fd_bv_max_elem g then
              (let (z, s) = intersect_iv (asIntervals d) (asIntervals y) in setIv z (d\<lparr>fd_size := s\<rparr>))
            else
              (let (z, s) = intersect_bv (asBitVector g d) (asBitVector g y) in setBv z (d\<lparr>fd_size := s\<rparr>)))
         in (reduce d, fd_size d)))"

definition op_and :: "fd_globals \<Rightarrow> OZ_FiniteDomain \<Rightarrow> OZ_FiniteDomain \<Rightarrow> OZ_FiniteDomain" where
  "op_and g d y =
     (if eq_state d fd_empty \<or> eq_state y fd_empty then new_fd
      else
        reduce
          (if descr d = FdDescr \<and> descr y = FdDescr then
             (if max_elem d < min_elem y \<or> max_elem y < min_elem d then new_fd\<lparr>fd_size := 0\<rparr>
              else (let z = new_fd\<lparr>min_elem := max (min_elem d) (min_elem y), max_elem := min (max_elem d) (max_elem y)\<rparr>
                    in z\<lparr>fd_size := findSize z\<rparr>))
           else if min (max_elem d) (max_elem y) > fd_bv_max_elem g then
             (let (z, s) = intersect_iv (asIntervals d) (asIntervals y) in setIv z (new_fd\<lparr>fd_size := s\<rparr>))
           else
             (let (z, s) = intersect_bv (asBitVector g d) (asBitVector g y) in setBv z (new_fd\<lparr>fd_size := s\<rparr>))))"

definition op_not :: "fd_globals \<Rightarrow> OZ_FiniteDomain \<Rightarrow> OZ_FiniteDomain" where
  "op_not g d =
     (if eq_state d fd_empty then fst (initFull new_fd)
      else if fd_size d = fd_full_size then fst (initEmpty new_fd)
      else case descr d of
             FdDescr \<Rightarrow>
               if min_elem d = 0 then
                 (let y = new_fd\<lparr>min_elem := max_elem d + 1, max_elem := fd_sup\<rparr> in y\<lparr>fd_size := findSize y\<rparr>)
               else if max_elem d = fd_sup then
                 (let y = new_fd\<lparr>max_elem := min_elem d - 1, min_elem := 0\<rparr> in y\<lparr>fd_size := findSize y\<rparr>)
               else
                 (let iv = init4_iv fd_inf (min_elem d - 1) (max_elem d + 1) fd_sup
                  in new_fd\<lparr>fd_size := findSize_iv iv, min_elem := 0, max_elem := fd_sup, descr := IvDescr iv\<rparr>)
           | BvDescr bv \<Rightarrow>
               (let conv = mkRaw bv; iv = complement_raw (length conv) (map fst conv) (map snd conv)
                in reduce (narrow g (setIv iv (new_fd\<lparr>fd_size := findSize_iv iv\<rparr>))))
           | IvDescr x_iv \<Rightarrow>
               (let iv = complement_iv x_iv
                in reduce (narrow g (setIv iv (new_fd\<lparr>fd_size := findSize_iv iv\<rparr>)))))"

definition constrainBool :: "fd_globals \<Rightarrow> OZ_FiniteDomain \<Rightarrow> OZ_FiniteDomain \<times> int" where
  "constrainBool g d = op_le g d 1"

text \<open>\<^verbatim>\<open>operator =\<close> copies the fields and the array.\<close>

definition op_assign :: "OZ_FiniteDomain \<Rightarrow> OZ_FiniteDomain \<Rightarrow> OZ_FiniteDomain" where
  "op_assign d fd =
     (let d = d\<lparr>min_elem := min_elem fd, max_elem := max_elem fd, fd_size := fd_size fd\<rparr>
      in case descr fd of
           FdDescr \<Rightarrow> d\<lparr>descr := FdDescr\<rparr>
         | BvDescr bv \<Rightarrow> d\<lparr>descr := BvDescr bv\<rparr>
         | IvDescr iv \<Rightarrow> d\<lparr>descr := IvDescr iv\<rparr>)"


section \<open>Shared facts\<close>

abbreviation refines_set :: "fd_globals \<Rightarrow> OZ_FiniteDomain \<times> int \<Rightarrow> int set \<Rightarrow> bool" where
  "refines_set g p S \<equiv> fd_rep g (fst p) S \<and> snd p = int (card S)"

lemma refines_empty: "refines_set g (initEmpty d) {}"
  using init_specs(1,2) by simp

lemma refines_reduce: "fd_shape g d S \<Longrightarrow> refines_set g (reduce d, fd_size d) S"
  using rep_reduce fd_shape_facts(10) by simp

lemma refines_reduce_empty: "fd_size d = 0 \<Longrightarrow> refines_set g (reduce d, fd_size d) {}"
  using rep_reduce_empty by simp

lemma refines_self: "fd_rep g d S \<Longrightarrow> refines_set g (d, fd_size d) S"
  using fd_rep_size by simp

lemma shape_intervalI:
  "0 \<le> min_elem d \<Longrightarrow> min_elem d \<le> max_elem d \<Longrightarrow> max_elem d \<le> fd_sup \<Longrightarrow> descr d = FdDescr \<Longrightarrow>
   fd_size d = findSize d \<Longrightarrow> S = {min_elem d..max_elem d} \<Longrightarrow> fd_shape g d S"
  using rep_interval[of d g] fd_rep_shape by auto

lemma shape_descr:
  assumes "fd_shape g d S"
  shows "descr d = IvDescr iv \<Longrightarrow> iv_ok iv \<and> iv_set iv = S \<and> iv_from (-1) iv \<and> iv \<noteq> []"
    and "descr d = BvDescr bv \<Longrightarrow> bv_set bv = S \<and> int (length bv) \<le> fd_bv_max_high g"
  using assms fd_shape_facts(2)[OF assms] by (auto simp: fd_shape_def descr_ok_def iv_ok_from)

text \<open>An array that holds the elements of \<open>T\<close> is installed: the object then represents \<open>T\<close>.\<close>

lemma refines_setIv:
  assumes "iv_from (-1) iv" "iv_set iv = T" "T \<subseteq> {0..fd_sup}" "fd_size d = int (card T)" "fd_globals_ok g"
  shows "refines_set g (reduce (setIv iv d), fd_size (setIv iv d)) T"
    and "refines_set g (reduce (narrow g (setIv iv d)), fd_size (narrow g (setIv iv d))) T"
proof -
  have "iv_ok iv" using iv_okI[OF assms(1)] assms(2,3) by simp
  then have "T \<noteq> {} \<Longrightarrow> fd_shape g (setIv iv d) T" using setIv_shape assms(2,4) by blast
  then show "refines_set g (reduce (setIv iv d), fd_size (setIv iv d)) T"
    "refines_set g (reduce (narrow g (setIv iv d)), fd_size (narrow g (setIv iv d))) T"
    using refines_reduce refines_reduce_empty narrow_shape[OF _ assms(5)] assms(4)
    by (cases "T = {}"; simp)+
qed

lemma refines_setBv:
  assumes "bv_set bv = T" "fd_size d = int (card T)" "int (length bv) \<le> fd_bv_max_high g" "fd_globals_ok g"
  shows "refines_set g (reduce (setBv bv d), fd_size (setBv bv d)) T"
  using refines_reduce[OF setBv_shape] refines_reduce_empty[of "setBv bv d"] assms
  by (cases "T = {}") simp_all

lemma setBv_eq:
  assumes "findMaxElem_bv bv = (bv', mx)"
  shows "findMinElem_bv bv = min_elem d \<Longrightarrow> setBv bv d = d\<lparr>descr := BvDescr bv', max_elem := mx\<rparr>"
  using assms by (simp add: setBv_def)

lemma setIv_eq:
  "findMinElem_iv iv = min_elem d \<Longrightarrow> setIv iv d = d\<lparr>descr := IvDescr iv, max_elem := findMaxElem_iv iv\<rparr>"
  by (simp add: setIv_def)

lemma setIv_eq':
  "findMaxElem_iv iv = max_elem d \<Longrightarrow> setIv iv d = d\<lparr>descr := IvDescr iv, min_elem := findMinElem_iv iv\<rparr>"
  by (simp add: setIv_def)

lemma Min_cut: "finite S \<Longrightarrow> m \<in> S \<Longrightarrow> (\<And>i. i \<in> S \<Longrightarrow> m \<le> i) \<Longrightarrow> m \<le> c \<Longrightarrow> Min (S \<inter> {..c}) = (m :: int)"
  by (intro Min_eqI) auto

lemma Max_cut: "finite S \<Longrightarrow> m \<in> S \<Longrightarrow> (\<And>i. i \<in> S \<Longrightarrow> i \<le> m) \<Longrightarrow> c \<le> m \<Longrightarrow> Max (S \<inter> {c..}) = (m :: int)"
  by (intro Max_eqI) auto

lemma sub_facts:
  assumes "fd_shape g d S" "T \<subseteq> S" "m \<in> T"
  shows "T \<noteq> {} \<and> finite T \<and> T \<subseteq> {0..fd_sup} \<and> 0 < card T"
proof -
  have "finite T" using assms(2) fd_shape_facts(1)[OF assms(1)] by (rule finite_subset)
  then show ?thesis using assms by (auto simp: fd_shape_def card_gt_0_iff)
qed


section \<open>Restricting a domain\<close>

lemma op_and_int_refines:
  assumes "fd_rep g d S"
  shows "refines_set g (op_and_int d i) (S \<inter> {i})"
proof (cases "i \<in> S")
  case True
  then have "{i} \<inter> {0..fd_sup} = {i}" "S \<inter> {i} = {i}" using fd_rep_subset[OF assms] by auto
  then show ?thesis using True isIn_rep[OF assms] initSingleton_spec[of g d i] by (simp add: op_and_int_def)
next
  case False
  then show ?thesis using isIn_rep[OF assms] init_specs(1) by (simp add: op_and_int_def)
qed

lemma op_le_inner:
  assumes "fd_shape g d S" "fd_globals_ok g" "min_elem d \<le> leq" "leq < max_elem d"
  shows "refines_set g (op_le g d leq) (S \<inter> {..leq})"
proof -
  note f = fd_shape_facts[OF assms(1)]
  let ?T = "S \<inter> {..leq}"
  have T: "?T \<noteq> {}" "finite ?T" "?T \<subseteq> {0..fd_sup}" "Min ?T = min_elem d" "0 < card ?T"
    using sub_facts[OF assms(1), of ?T "min_elem d"] f(3) assms(3) Min_cut[OF f(1,3,6) assms(3)] by auto
  show ?thesis
  proof (cases "descr d")
    case FdDescr
    let ?d = "d\<lparr>max_elem := leq, fd_size := leq - min_elem d + 1\<rparr>"
    have "op_le g d leq = (reduce ?d, fd_size ?d)"
      using assms FdDescr by (simp add: op_le_def Let_def findSize_def)
    moreover have "?T = {min_elem d..leq}" using assms(4) by (subst shape_interval[OF assms(1) FdDescr]) auto
    moreover have "fd_shape g ?d {min_elem d..leq}"
      using assms(3,4) f(8,9) FdDescr by (intro shape_intervalI) (simp_all add: findSize_def)
    ultimately show ?thesis using refines_reduce[of g ?d "{min_elem d..leq}"] by simp
  next
    case (BvDescr bv)
    obtain bv' s where le: "le_bv bv leq = (bv', s)" by (cases "le_bv bv leq")
    obtain bv'' mx where mx: "findMaxElem_bv bv' = (bv'', mx)" by (cases "findMaxElem_bv bv'")
    have bv: "bv_set bv = S" "int (length bv) \<le> fd_bv_max_high g" using shape_descr(2)[OF assms(1) BvDescr] by auto
    have "leq \<le> currBvMaxElem bv" using bv_set_bounds[of "max_elem d" bv] f(4) bv(1) assms(4) by simp
    then have bv': "bv_set bv' = ?T" "s = int (card ?T)" "length bv' = length bv"
      using le_bv_spec[OF _ _ le] bv(1) assms(3) f(8) by auto
    have "findMinElem_bv bv' = min_elem d" using findMinElem_bv_Min[of bv'] bv'(1) T(1,4) by simp
    then have "op_le g d leq = (reduce (setBv bv' (d\<lparr>fd_size := s\<rparr>)), fd_size (setBv bv' (d\<lparr>fd_size := s\<rparr>)))"
      using assms(3,4) BvDescr T(5) bv'(2) by (simp add: op_le_def le mx setBv_eq[OF mx])
    then show ?thesis using refines_setBv[of bv' ?T "d\<lparr>fd_size := s\<rparr>" g] bv' bv(2) assms(2) by simp
  next
    case (IvDescr iv)
    obtain iv' s where le: "le_iv iv leq = (iv', s)" by (cases "le_iv iv leq")
    note iv = shape_descr(1)[OF assms(1) IvDescr]
    have iv': "iv_from (-1) iv'" "iv_set iv' = ?T" "s = int (card ?T)"
      using le_iv_spec[OF _ _ le] iv by auto
    have "findMinElem_iv iv' = min_elem d" using iv.min_Min[OF iv'(1)] iv'(2) T(1,4) by simp
    then have "op_le g d leq = (reduce (narrow g (setIv iv' (d\<lparr>fd_size := s\<rparr>))),
        fd_size (narrow g (setIv iv' (d\<lparr>fd_size := s\<rparr>))))"
      using assms(3,4) IvDescr T(5) iv'(3) f(9) by (simp add: op_le_def le setIv_eq)
    then show ?thesis using refines_setIv(2)[OF iv'(1,2) T(3) _ assms(2), of "d\<lparr>fd_size := s\<rparr>"] iv'(3) by simp
  qed
qed

lemma op_le_refines:
  assumes "fd_rep g d S" "fd_globals_ok g" "S \<noteq> {}"
  shows "refines_set g (op_le g d leq) (S \<inter> {..leq})"
proof -
  have sh: "fd_shape g d S" by (rule fd_rep_shape[OF assms(3,1)])
  note f = fd_shape_facts[OF sh]
  consider "leq < min_elem d" | "max_elem d \<le> leq" "min_elem d \<le> leq" | "min_elem d \<le> leq" "leq < max_elem d"
    by linarith
  then show ?thesis
  proof cases
    case 1
    then have "S \<inter> {..leq} = {}" using f(6) by fastforce
    then show ?thesis using 1 refines_empty[of g d] by (simp add: op_le_def)
  next
    case 2
    then have "S \<inter> {..leq} = S" using f(7) by fastforce
    moreover have "op_le g d leq = (reduce d, fd_size d)" using 2 by (simp add: op_le_def)
    ultimately show ?thesis using refines_reduce[OF sh] by simp
  next
    case 3
    then show ?thesis using op_le_inner[OF sh assms(2)] by simp
  qed
qed

lemma op_ge_inner:
  assumes "fd_shape g d S" "fd_globals_ok g" "geq \<le> max_elem d" "min_elem d < geq"
  shows "refines_set g (op_ge g d geq) (S \<inter> {geq..})"
proof -
  note f = fd_shape_facts[OF assms(1)]
  let ?T = "S \<inter> {geq..}"
  have T: "?T \<noteq> {}" "finite ?T" "?T \<subseteq> {0..fd_sup}" "Max ?T = max_elem d" "0 < card ?T"
    using sub_facts[OF assms(1), of ?T "max_elem d"] f(4) assms(3) Max_cut[OF f(1,4,7) assms(3)] by auto
  show ?thesis
  proof (cases "descr d")
    case FdDescr
    let ?d = "d\<lparr>min_elem := geq, fd_size := max_elem d - geq + 1\<rparr>"
    have "op_ge g d geq = (reduce ?d, fd_size ?d)"
      using assms FdDescr by (simp add: op_ge_def Let_def findSize_def)
    moreover have "?T = {geq..max_elem d}" using assms(4) by (subst shape_interval[OF assms(1) FdDescr]) auto
    moreover have "fd_shape g ?d {geq..max_elem d}"
      using assms(3,4) f(8,9) FdDescr by (intro shape_intervalI) (simp_all add: findSize_def)
    ultimately show ?thesis using refines_reduce[of g ?d "{geq..max_elem d}"] by simp
  next
    case (BvDescr bv)
    obtain bv' s where ge: "ge_bv bv geq = (bv', s)" by (cases "ge_bv bv geq")
    have bv: "bv_set bv = S" "int (length bv) \<le> fd_bv_max_high g" using shape_descr(2)[OF assms(1) BvDescr] by auto
    have cur: "geq \<le> currBvMaxElem bv" using bv_set_bounds[of "max_elem d" bv] f(4) bv(1) assms(3) by simp
    then have bv': "bv_set bv' = ?T" "s = int (card ?T)" "length bv' = length bv"
      using ge_bv_spec[OF _ _ ge] bv(1) assms(4) f(8) by auto
    let ?d = "d\<lparr>fd_size := s, descr := BvDescr bv', min_elem := findMinElem_bv bv'\<rparr>"
    have "op_ge g d geq = (reduce ?d, fd_size ?d)"
      using assms(3,4) BvDescr T(5) bv'(2) cur by (simp add: op_ge_def ge)
    moreover have "fd_shape g ?d ?T"
      using T bv' bv(2) findMinElem_bv_Min[of bv'] by (simp add: fd_shape_def descr_ok_def)
    ultimately show ?thesis using refines_reduce by metis
  next
    case (IvDescr iv)
    obtain iv' s where ge: "ge_iv iv geq = (iv', s)" by (cases "ge_iv iv geq")
    note iv = shape_descr(1)[OF assms(1) IvDescr]
    have iv': "iv_from (-1) iv'" "iv_set iv' = ?T" "s = int (card ?T)"
      using ge_iv_spec[OF _ _ ge, of "-1"] iv iv_from_mono[of "max (-1) (geq - 1)" iv' "-1"] by auto
    have "findMaxElem_iv iv' = max_elem d" using iv.max_Max[OF iv'(1)] iv'(2) T(1,4) by simp
    then have "op_ge g d geq = (reduce (setIv iv' (d\<lparr>fd_size := s\<rparr>)), fd_size (setIv iv' (d\<lparr>fd_size := s\<rparr>)))"
      using assms(3,4) IvDescr T(5) iv'(3) by (simp add: op_ge_def ge setIv_eq')
    then show ?thesis using refines_setIv(1)[OF iv'(1,2) T(3) _ assms(2), of "d\<lparr>fd_size := s\<rparr>"] iv'(3) by simp
  qed
qed

lemma op_ge_refines:
  assumes "fd_rep g d S" "fd_globals_ok g" "S \<noteq> {}"
  shows "refines_set g (op_ge g d geq) (S \<inter> {geq..})"
proof -
  have sh: "fd_shape g d S" by (rule fd_rep_shape[OF assms(3,1)])
  note f = fd_shape_facts[OF sh]
  consider "max_elem d < geq" | "geq \<le> min_elem d" "geq \<le> max_elem d" | "geq \<le> max_elem d" "min_elem d < geq"
    by linarith
  then show ?thesis
  proof cases
    case 1
    then have "S \<inter> {geq..} = {}" using f(7) by fastforce
    then show ?thesis using 1 refines_empty[of g d] by (simp add: op_ge_def)
  next
    case 2
    then have "S \<inter> {geq..} = S" using f(6) by fastforce
    moreover have "op_ge g d geq = (reduce d, fd_size d)" using 2 by (simp add: op_ge_def)
    ultimately show ?thesis using refines_reduce[OF sh] by simp
  next
    case 3
    then show ?thesis using op_ge_inner[OF sh assms(2)] by simp
  qed
qed


section \<open>Taking elements out\<close>

lemma asBitVector_upd_size [simp]: "asBitVector g (d\<lparr>fd_size := n\<rparr>) = asBitVector g d"
  by (simp add: asBitVector_def provideBitVector_def Let_def split: descr_type.splits)

lemma upd_size_simps [simp]:
  "(setIv iv d)\<lparr>fd_size := n\<rparr> = setIv iv (d\<lparr>fd_size := n\<rparr>)"
  "(setBv bv d)\<lparr>fd_size := n\<rparr> = setBv bv (d\<lparr>fd_size := n\<rparr>)"
  "(narrow g d)\<lparr>fd_size := n\<rparr> = narrow g (d\<lparr>fd_size := n\<rparr>)"
  by (simp_all add: setIv_def setBv_def narrow_def split: prod.splits)

lemma init4_spec:
  assumes "l0 \<le> r0" "r0 + 1 < l1" "l1 \<le> r1" "0 \<le> l0"
  shows "iv_from (-1) (init4_iv l0 r0 l1 r1)" "iv_set (init4_iv l0 r0 l1 r1) = {l0..r0} \<union> {l1..r1}"
    and "setIv (init4_iv l0 r0 l1 r1) d = d\<lparr>min_elem := l0, max_elem := r1, descr := IvDescr (init4_iv l0 r0 l1 r1)\<rparr>"
  using assms by (auto simp: init4_iv_def setIv_def findMinElem_iv_def findMaxElem_iv_def)

lemma fresh_range:
  assumes "0 \<le> l" "l \<le> r" "r \<le> m" "m \<le> fd_bv_max_elem g" "fd_globals_ok g" "descr d = FdDescr"
  shows "bv_set (setFromTo (provideBitVector d (word32 m)) l r) = {l..r}"
    and "int (length (setFromTo (provideBitVector d (word32 m)) l r)) \<le> fd_bv_max_high g"
    and "m \<le> currBvMaxElem (setFromTo (provideBitVector d (word32 m)) l r)"
proof -
  have p: "provideBitVector d (word32 m) = newBitVector (word32 m)" using assms(6) by (simp add: provideBitVector_def)
  have fits: "m \<le> currBvMaxElem (newBitVector (word32 m))" using assms(1-3) by (intro newBitVector_fits) simp
  then have "r \<le> currBvMaxElem (newBitVector (word32 m))" using assms(3) by simp
  note s = setFromTo_set[OF assms(1,2) this]
  show "bv_set (setFromTo (provideBitVector d (word32 m)) l r) = {l..r}" using s p by simp
  show "int (length (setFromTo (provideBitVector d (word32 m)) l r)) \<le> fd_bv_max_high g"
    using s p word32_le_high[OF assms(4,5)] assms(5) by (simp add: fd_globals_ok_def)
  show "m \<le> currBvMaxElem (setFromTo (provideBitVector d (word32 m)) l r)"
    using s p fits by (simp add: currBvMaxElem_def)
qed

lemma minus_int_range:
  assumes "fd_shape g d S" "fd_globals_ok g" "v \<in> S" "descr d = FdDescr"
  shows "refines_set g (op_minus_int g d v) (S - {v})"
proof -
  note f = fd_shape_facts[OF assms(1)]
  have S: "S = {min_elem d..max_elem d}" by (rule shape_interval[OF assms(1,4)])
  have v: "min_elem d \<le> v" "v \<le> max_elem d" using f(6,7)[OF assms(3)] .
  have isin: "isIn d v" using isIn_shape[OF assms(1)] assms(3) by simp
  have size: "fd_size d = max_elem d - min_elem d + 1" using f(10) v by (simp add: S)
  have card: "fd_size d - 1 = int (card (S - {v}))" using f(1,10,11) assms(3) by simp
  consider "v = min_elem d" "v = max_elem d" | "v = min_elem d" "v < max_elem d"
    | "v \<noteq> min_elem d" "v = max_elem d" | "min_elem d < v" "v < max_elem d" using v by linarith
  then show ?thesis
  proof cases
    case 1
    then have T: "S - {v} = {}" using S by auto
    have eq: "op_minus_int g d v = (reduce (d\<lparr>min_elem := v + 1, fd_size := 0\<rparr>), 0)"
      using 1 isin assms(4) size by (simp add: op_minus_int_def)
    show ?thesis unfolding T eq by (simp add: rep_reduce_empty)
  next
    case 2
    let ?d = "d\<lparr>min_elem := v + 1, fd_size := max_elem d - v\<rparr>"
    have "op_minus_int g d v = (reduce ?d, fd_size ?d)" using 2 isin assms(4) size by (simp add: op_minus_int_def)
    moreover have "S - {v} = {v + 1..max_elem d}" unfolding S using 2 by auto
    moreover have "fd_shape g ?d {v + 1..max_elem d}"
      using 2 f(8,9) assms(4) by (intro shape_intervalI) (simp_all add: findSize_def)
    ultimately show ?thesis using refines_reduce[of g ?d "{v + 1..max_elem d}"] by simp
  next
    case 3
    let ?d = "d\<lparr>max_elem := v - 1, fd_size := v - min_elem d\<rparr>"
    have "op_minus_int g d v = (reduce ?d, fd_size ?d)" using 3 isin assms(4) size by (simp add: op_minus_int_def)
    moreover have "S - {v} = {min_elem d..v - 1}" unfolding S using 3 by auto
    moreover have "fd_shape g ?d {min_elem d..v - 1}"
      using 3 v f(8,9) assms(4) by (intro shape_intervalI) (simp_all add: findSize_def)
    ultimately show ?thesis using refines_reduce[of g ?d "{min_elem d..v - 1}"] by simp
  next
    case 4
    let ?d = "d\<lparr>fd_size := fd_size d - 1\<rparr>"
    show ?thesis
    proof (cases "max_elem d \<le> fd_bv_max_elem g")
      case True
      let ?b = "setFromTo (provideBitVector d (word32 (max_elem d))) (min_elem d) (max_elem d)"
      note b = fresh_range[OF f(8,5) order_refl True assms(2,4)]
      have "bv_set (resetBit_bv ?b v) = S - {v}" using resetBit_bv_set[of v ?b] b(1,3) v f(8) S by simp
      moreover have "length (resetBit_bv ?b v) = length ?b" by (simp add: resetBit_bv_def)
      moreover have eq: "op_minus_int g d v = (reduce (setBv (resetBit_bv ?b v) ?d), fd_size (setBv (resetBit_bv ?b v) ?d))"
        using 4 True isin assms(4) by (simp add: op_minus_int_def Let_def)
      ultimately show ?thesis unfolding eq using b(2) card assms(2) by (intro refines_setBv) simp_all
    next
      case False
      let ?i = "init4_iv (min_elem d) (v - 1) (v + 1) (max_elem d)"
      have i: "min_elem d \<le> v - 1" "v - 1 + 1 < v + 1" "v + 1 \<le> max_elem d" using 4 by simp_all
      note i4 = init4_spec[OF i f(8)]
      have "{min_elem d..v - 1} \<union> {v + 1..max_elem d} = S - {v}" using 4 S by auto
      moreover have eq: "op_minus_int g d v = (reduce (setIv ?i ?d), fd_size (setIv ?i ?d))"
        using 4 False isin assms(4) unfolding i4(3) by (cases d) (simp add: op_minus_int_def Let_def)
      ultimately show ?thesis unfolding eq
        using i4(1,2) card assms(1,2) by (intro refines_setIv(1)) (auto simp: fd_shape_def)
    qed
  qed
qed

lemma op_minus_int_refines:
  assumes "fd_rep g d S" "fd_globals_ok g"
  shows "refines_set g (op_minus_int g d v) (S - {v})"
proof (cases "v \<in> S")
  case False
  then show ?thesis using assms isIn_rep[OF assms(1)] refines_self[OF assms(1)] by (simp add: op_minus_int_def)
next
  case True
  then have sh: "fd_shape g d S" using assms(1) fd_rep_shape by blast
  note f = fd_shape_facts[OF sh]
  let ?d = "d\<lparr>fd_size := fd_size d - 1\<rparr>"
  have isin: "isIn d v" using isIn_shape[OF sh] True by simp
  have card: "fd_size d - 1 = int (card (S - {v}))" using f(1,10,11) True by simp
  show ?thesis
  proof (cases "descr d")
    case FdDescr
    then show ?thesis by (rule minus_int_range[OF sh assms(2) True])
  next
    case (BvDescr bv)
    have bv: "bv_set bv = S" "int (length bv) \<le> fd_bv_max_high g" using shape_descr(2)[OF sh BvDescr] by auto
    have "bv_set (resetBit_bv bv v) = S - {v}" using resetBit_bv_set[of v bv] bv_set_bounds[of v bv] bv(1) True by simp
    moreover have "length (resetBit_bv bv v) = length bv" by (simp add: resetBit_bv_def)
    moreover have eq: "op_minus_int g d v = (reduce (setBv (resetBit_bv bv v) ?d), fd_size (setBv (resetBit_bv bv v) ?d))"
      using BvDescr isin by (simp add: op_minus_int_def)
    ultimately show ?thesis unfolding eq using bv(2) card assms(2) by (intro refines_setBv) simp_all
  next
    case (IvDescr iv)
    note iv = shape_descr(1)[OF sh IvDescr]
    note m = minus_int_iv_spec[of "-1" iv v]
    have eq: "op_minus_int g d v = (reduce (narrow g (setIv (minus_int_iv iv v) ?d)),
        fd_size (narrow g (setIv (minus_int_iv iv v) ?d)))"
      using IvDescr isin by (simp add: op_minus_int_def)
    have "S - {v} \<subseteq> {0..fd_sup}" using fd_rep_subset[OF assms(1)] by blast
    then show ?thesis unfolding eq using m iv True card assms(2) by (intro refines_setIv(2)) simp_all
  qed
qed


text \<open>The range that is taken out lies inside the other one: what is left has a gap.\<close>

lemma minus_ranges_inside:
  assumes "fd_shape g d S" "fd_shape g y T" "fd_globals_ok g" "descr d = FdDescr"
    and S: "S = {min_elem d..max_elem d}" and T: "T = {min_elem y..max_elem y}"
    and inside: "min_elem d < min_elem y" "max_elem y < max_elem d"
  shows "refines_set g (reduce (minus_ranges g d y), fd_size (minus_ranges g d y)) (S - T)"
proof -
  note f = fd_shape_facts[OF assms(1)] and fy = fd_shape_facts[OF assms(2)]
  have ST: "S - T = {min_elem d..min_elem y - 1} \<union> {max_elem y + 1..max_elem d}"
    unfolding S T using inside fy(5) by auto
  have sub: "min_elem d \<in> S - T" "max_elem d \<in> S - T" using inside f(5) fy(5) ST by auto
  note sf = sub_facts[OF assms(1) Diff_subset sub(1)]
  have mm: "Min (S - T) = min_elem d" "Max (S - T) = max_elem d"
    using sub sf f(6,7) by (auto intro!: Min_eqI Max_eqI)
  have shape: "fd_shape g (d\<lparr>fd_size := n, descr := t\<rparr>) (S - T)"
    if "n = int (card (S - T))" "descr_ok g t (S - T)" for n t
    using that sf mm by (simp add: fd_shape_def)
  show ?thesis
  proof (cases "max_elem d \<le> fd_bv_max_elem g")
    case True
    define b where "b = setFromTo (provideBitVector d (word32 (max_elem d))) (min_elem d) (min_elem y - 1)"
    have "min_elem d \<le> min_elem y - 1" "min_elem y - 1 \<le> max_elem d" using inside fy(5) by simp_all
    note b = fresh_range[OF f(8) this True assms(3,4), folded b_def]
    have add: "bv_set (addFromTo b (max_elem y + 1) (max_elem d)) = S - T"
        "length (addFromTo b (max_elem y + 1) (max_elem d)) = length b"
      using addFromTo_set[of "max_elem y + 1" "max_elem d" b] b inside fy(5,8) ST by simp_all
    have eq: "minus_ranges g d y = d\<lparr>fd_size := findSize_bv (addFromTo b (max_elem y + 1) (max_elem d)),
        descr := BvDescr (addFromTo b (max_elem y + 1) (max_elem d))\<rparr>"
      using inside True fy(5) by (simp add: minus_ranges_def b_def Let_def)
    show ?thesis unfolding eq
      by (rule refines_reduce[OF shape]) (use add b(2) in \<open>simp_all add: findSize_bv_card descr_ok_def\<close>)
  next
    case False
    let ?i = "init4_iv (min_elem d) (min_elem y - 1) (max_elem y + 1) (max_elem d)"
    have i: "min_elem d \<le> min_elem y - 1" "min_elem y - 1 + 1 < max_elem y + 1" "max_elem y + 1 \<le> max_elem d"
      using inside fy(5) by simp_all
    note i4 = init4_spec[OF i f(8)]
    have eq: "minus_ranges g d y = d\<lparr>fd_size := findSize_iv ?i, descr := IvDescr ?i\<rparr>"
      using inside False fy(5) by (simp add: minus_ranges_def Let_def)
    have "iv_ok ?i" "iv_set ?i = S - T" using iv_okI[OF i4(1)] i4(2) ST sf by simp_all
    then show ?thesis unfolding eq
      by (intro refines_reduce shape) (simp_all add: findSize_iv_from[OF i4(1)] descr_ok_def)
  qed
qed

lemma minus_ranges_refines:
  assumes "fd_shape g d S" "fd_shape g y T" "fd_globals_ok g" "descr d = FdDescr" "descr y = FdDescr"
  shows "refines_set g (reduce (minus_ranges g d y), fd_size (minus_ranges g d y)) (S - T)"
proof -
  note f = fd_shape_facts[OF assms(1)] and fy = fd_shape_facts[OF assms(2)]
  have S: "S = {min_elem d..max_elem d}" and T: "T = {min_elem y..max_elem y}"
    using shape_interval assms by blast+
  consider (apart) "max_elem y < min_elem d \<or> max_elem d < min_elem y"
    | (all) "min_elem y \<le> min_elem d" "max_elem d \<le> max_elem y"
    | (inside) "min_elem d < min_elem y" "max_elem y < max_elem d"
    | (low) "min_elem y \<le> min_elem d" "max_elem y < max_elem d" "min_elem d \<le> max_elem y"
    | (high) "min_elem d < min_elem y" "max_elem d \<le> max_elem y" "min_elem y \<le> max_elem d"
    by linarith
  then show ?thesis
  proof cases
    case apart
    then have "S - T = S" unfolding S T by auto
    moreover have "minus_ranges g d y = d" using apart by (simp add: minus_ranges_def)
    ultimately show ?thesis using refines_reduce[OF assms(1)] by simp
  next
    case all
    then have e: "S - T = {}" unfolding S T by auto
    have eq: "minus_ranges g d y = d\<lparr>fd_size := 0\<rparr>" using all f(5) fy(5) by (simp add: minus_ranges_def)
    show ?thesis unfolding e eq by (rule refines_reduce_empty) simp
  next
    case low
    let ?d = "d\<lparr>min_elem := max_elem y + 1, fd_size := max_elem d - max_elem y\<rparr>"
    have "minus_ranges g d y = ?d" using low f(5) by (simp add: minus_ranges_def findSize_def)
    moreover have "S - T = {max_elem y + 1..max_elem d}" unfolding S T using low by auto
    moreover have "fd_shape g ?d {max_elem y + 1..max_elem d}"
      using low fy(5,8) f(9) assms(4) by (intro shape_intervalI) (simp_all add: findSize_def)
    ultimately show ?thesis using refines_reduce[of g ?d "{max_elem y + 1..max_elem d}"] by simp
  next
    case high
    let ?d = "d\<lparr>max_elem := min_elem y - 1, fd_size := min_elem y - min_elem d\<rparr>"
    have "minus_ranges g d y = ?d" using high fy(5) by (simp add: minus_ranges_def findSize_def)
    moreover have "S - T = {min_elem d..min_elem y - 1}" unfolding S T using high by auto
    moreover have "fd_shape g ?d {min_elem d..min_elem y - 1}"
      using high f(8,9) assms(4) by (intro shape_intervalI) (simp_all add: findSize_def)
    ultimately show ?thesis using refines_reduce[of g ?d "{min_elem d..min_elem y - 1}"] by simp
  next
    case inside
    then show ?thesis by (rule minus_ranges_inside[OF assms(1-4) S T])
  qed
qed

lemma subtract_refines:
  assumes "iv_ok xs" "iv_ok ys" "iv_set xs = S" "subtract_iv xs ys = (z, s)" "fd_globals_ok g"
  shows "refines_set g (reduce (narrow g (setIv z (d\<lparr>fd_size := s\<rparr>))), s) (S - iv_set ys)"
proof -
  have z: "z = subtract_loop xs ys" "s = findSize_iv z" using assms(4) by (auto simp: subtract_iv_def Let_def)
  have f: "iv_from (-1) xs" "iv_from (-1) ys" using assms(1,2) by (simp_all add: iv_ok_from)
  have zz: "iv_from (-1) z" "iv_set z = S - iv_set ys" using subtract_loop_spec[OF f] z(1) assms(3) by auto
  have sub: "S - iv_set ys \<subseteq> {0..fd_sup}" using iv_ok_subset[OF assms(1)] assms(3) by blast
  have s: "s = int (card (S - iv_set ys))" using findSize_iv_from[OF zz(1)] z(2) zz(2) by simp
  then have "fd_size (d\<lparr>fd_size := s\<rparr>) = int (card (S - iv_set ys))" by simp
  then show ?thesis using refines_setIv(2)[OF zz sub _ assms(5), of "d\<lparr>fd_size := s\<rparr>"] s by simp
qed

lemma minus_bv_refines:
  assumes "bv_set x = S" "int (length x) \<le> fd_bv_max_high g" "minus_bv x y = (z, s)" "fd_globals_ok g"
  shows "refines_set g (reduce (setBv z (d\<lparr>fd_size := s\<rparr>)), s) (S - bv_set y)"
proof -
  have z: "bv_set z = S - bv_set y" "s = int (card (S - bv_set y))" "length z = length x"
    using minus_bv_spec[OF assms(3)] assms(1) by auto
  then have "fd_size (d\<lparr>fd_size := s\<rparr>) = int (card (S - bv_set y))" by simp
  then show ?thesis using refines_setBv[OF z(1) _ _ assms(4), of "d\<lparr>fd_size := s\<rparr>"] z(2,3) assms(2) by simp
qed

lemma op_minus_inner:
  assumes "fd_shape g d S" "fd_shape g y T" "fd_globals_ok g"
  shows "refines_set g (op_minus g d y) (S - T)"
proof -
  note f = fd_shape_facts[OF assms(1)] and fy = fd_shape_facts[OF assms(2)]
  have ne: "ne_state y fd_empty" using fy(11) by (simp add: ne_state_def)
  note x_iv = asIntervals_spec[OF assms(1)] and y_iv = asIntervals_spec[OF assms(2)]
  have sub: "refines_set g (reduce (narrow g (setIv z (d\<lparr>fd_size := s\<rparr>))), s) (S - T)"
    if "subtract_iv xs ys = (z, s)" "iv_ok xs" "iv_set xs = S" "iv_ok ys" "iv_set ys = T" for xs ys z s
    using subtract_refines[OF that(2,4,3,1) assms(3), of d] unfolding that(5) .
  have bvsub: "refines_set g (reduce (setBv z (d\<lparr>fd_size := s\<rparr>)), s) (S - T)"
    if "minus_bv x b = (z, s)" "bv_set x = S" "int (length x) \<le> fd_bv_max_high g" "S - bv_set b = S - T" for x b z s
    using minus_bv_refines[OF that(2,3,1) assms(3), of d] unfolding that(4) .
  show ?thesis
  proof (cases "descr d")
    case d: FdDescr
    show ?thesis
    proof (cases "descr y")
      case FdDescr
      then have "op_minus g d y = (reduce (minus_ranges g d y), fd_size (minus_ranges g d y))"
        using d ne by (simp add: op_minus_def Let_def)
      then show ?thesis using minus_ranges_refines[OF assms d FdDescr] by simp
    next
      case (BvDescr bv)
      note bv = shape_descr(2)[OF assms(2) BvDescr]
      show ?thesis
      proof (cases "max_elem d > fd_bv_max_elem g")
        case True
        obtain z s where z: "subtract_iv (asIntervals d) (asIntervals y) = (z, s)" by fastforce
        have eq: "op_minus g d y = (reduce (narrow g (setIv z (d\<lparr>fd_size := s\<rparr>))), s)"
          using d BvDescr ne True z by (simp add: op_minus_def)
        show ?thesis unfolding eq by (rule sub[OF z x_iv y_iv])
      next
        case False
        obtain z s where z: "minus_bv (asBitVector g d) bv = (z, s)" by fastforce
        have eq: "op_minus g d y = (reduce (setBv z (d\<lparr>fd_size := s\<rparr>)), s)"
          using d BvDescr ne False z by (simp add: op_minus_def)
        show ?thesis unfolding eq
          by (rule bvsub[OF z]) (use asBitVector_all[OF assms(1,3)] asBitVector_spec(2)[OF assms(1,3)] False bv in simp_all)
      qed
    next
      case (IvDescr iv)
      note iv = shape_descr(1)[OF assms(2) IvDescr]
      obtain z s where z: "subtract_iv (asIntervals d) iv = (z, s)" by fastforce
      have eq: "op_minus g d y = (reduce (narrow g (setIv z (d\<lparr>fd_size := s\<rparr>))), s)"
        using d IvDescr ne z by (simp add: op_minus_def)
      show ?thesis unfolding eq by (rule sub[OF z x_iv]) (use iv in simp_all)
    qed
  next
    case (BvDescr bv)
    note bv = shape_descr(2)[OF assms(1) BvDescr]
    obtain z s where z: "minus_bv bv (asBitVector g y) = (z, s)" by fastforce
    have eq: "op_minus g d y = (reduce (setBv z (d\<lparr>fd_size := s\<rparr>)), s)"
      using BvDescr ne z by (simp add: op_minus_def)
    have "S - bv_set (asBitVector g y) = S - T"
    proof -
      have "i \<le> fd_bv_max_elem g" if "i \<in> S" for i
        using bv_set_bounds[of i bv] bv that assms(3) by (auto simp: currBvMaxElem_def fd_globals_ok_def)
      then show ?thesis using asBitVector_spec(1)[OF assms(2,3)] by auto
    qed
    then show ?thesis unfolding eq by (intro bvsub[OF z]) (use bv in simp_all)
  next
    case (IvDescr iv)
    note iv = shape_descr(1)[OF assms(1) IvDescr]
    obtain z s where z: "subtract_iv iv (asIntervals y) = (z, s)" by fastforce
    have eq: "op_minus g d y = (reduce (narrow g (setIv z (d\<lparr>fd_size := s\<rparr>))), s)"
      using IvDescr ne z by (simp add: op_minus_def)
    show ?thesis unfolding eq by (rule sub[OF z _ _ y_iv]) (use iv in simp_all)
  qed
qed

lemma op_minus_refines:
  assumes "fd_rep g d S" "fd_rep g y T" "fd_globals_ok g" "S \<noteq> {}"
  shows "refines_set g (op_minus g d y) (S - T)"
proof (cases "T = {}")
  case True
  then have "\<not> ne_state y fd_empty" using assms(2) by (simp add: ne_state_def fd_rep_def)
  then show ?thesis using True refines_self[OF assms(1)] by (simp add: op_minus_def)
next
  case False
  then show ?thesis using op_minus_inner[OF fd_rep_shape[OF assms(4,1)] fd_rep_shape[OF False assms(2)] assms(3)] by simp
qed


section \<open>Putting an element in\<close>

lemma iv_snoc_extend:
  assumes "iv_from b (xs @ [mk_iv l r])"
  shows "iv_from b (xs @ [mk_iv l (r + 1)])" "iv_set (xs @ [mk_iv l (r + 1)]) = insert (r + 1) (iv_set (xs @ [mk_iv l r]))"
  using assms by (auto simp: iv_from_append split: if_splits)

lemma iv_snoc_add:
  assumes "iv_from b xs" "xs \<noteq> []" "findMaxElem_iv xs + 1 < v"
  shows "iv_from b (xs @ [mk_iv v v])" "iv_set (xs @ [mk_iv v v]) = insert v (iv_set xs)"
  using assms by (auto simp: iv_from_append findMaxElem_iv_def last_conv_nth)

lemma findMin_snoc: "xs \<noteq> [] \<Longrightarrow> findMinElem_iv (xs @ ys) = findMinElem_iv xs"
  by (simp add: findMinElem_iv_def nth_append)

lemma raw_iv_append: "raw_iv (ps @ qs) = raw_iv ps @ raw_iv qs"
  by (simp add: raw_iv_map)

lemma grow_spec:
  assumes "int (length bv) \<le> word32 v" "0 \<le> v"
  shows "bv_set (bv @ replicate (nat (word32 v) - length bv) 0) = bv_set bv"
    and "int (length (bv @ replicate (nat (word32 v) - length bv) 0)) = word32 v"
    and "v \<le> currBvMaxElem (bv @ replicate (nat (word32 v) - length bv) 0)"
proof -
  show len: "int (length (bv @ replicate (nat (word32 v) - length bv) 0)) = word32 v" using assms(1) by simp
  show "v \<le> currBvMaxElem (bv @ replicate (nat (word32 v) - length bv) 0)"
    unfolding currBvMaxElem_def len using word32_bounds[OF assms(2)] by simp
  have "k \<in> wbits (bv @ replicate n 0) \<longleftrightarrow> k \<in> wbits bv" for k n
    by (auto simp: mem_wbits nth_append)
  then show "bv_set (bv @ replicate (nat (word32 v) - length bv) 0) = bv_set bv" by (simp add: set_eq_iff mem_bv_set)
qed

text \<open>The bit vector turned into intervals with one more element above all others.\<close>

lemma mkRaw_extend:
  assumes "bv_set bv = S" "S \<noteq> {}" "mx = Max S" "mn = Min S" "mx < v"
    and "conv = (if v = mx + 1
        then (mkRaw bv)[length (mkRaw bv) - 1 := (fst (mkRaw bv ! (length (mkRaw bv) - 1)), snd (mkRaw bv ! (length (mkRaw bv) - 1)) + 1)]
        else mkRaw bv @ [(v, v)])"
  shows "iv_from (-1) (raw_iv conv) \<and> iv_set (raw_iv conv) = insert v S \<and>
    findMinElem_iv (raw_iv conv) = mn \<and> findMaxElem_iv (raw_iv conv) = v"
proof -
  let ?xs = "raw_iv (mkRaw bv)"
  have xs: "iv_from (-1) ?xs" "iv_set ?xs = S" using mkRaw_from mkRaw_set assms(1) by auto
  have mm: "findMinElem_iv ?xs = mn" "findMaxElem_iv ?xs = mx"
    using iv.min_Min[OF xs(1)] iv.max_Max[OF xs(1)] xs(2) assms(2-4) by auto
  have ne: "?xs \<noteq> []" "mkRaw bv \<noteq> []" using xs(2) assms(2) by (auto simp: raw_iv_map)
  have conv: "iv_from (-1) (raw_iv conv) \<and> iv_set (raw_iv conv) = insert v S"
  proof (cases "v = mx + 1")
    case True
    obtain ps l r where ps: "mkRaw bv = ps @ [(l, r)]" using ne(2) by (metis append_butlast_last_id surj_pair)
    then have x: "?xs = raw_iv ps @ [mk_iv l r]" by (simp add: raw_iv_map)
    then have "r = mx" using mm(2) by (simp add: findMaxElem_iv_def)
    moreover have "raw_iv conv = raw_iv ps @ [mk_iv l (r + 1)]" using True ps assms(6) by (simp add: raw_iv_map)
    ultimately show ?thesis using iv_snoc_extend[of "-1" "raw_iv ps" l r] xs True x by simp
  next
    case False
    then have "raw_iv conv = ?xs @ [mk_iv v v]" using assms(6) by (simp add: raw_iv_map)
    then show ?thesis using iv_snoc_add[OF xs(1) ne(1), of v] mm(2) assms(5) False xs(2) by simp
  qed
  have fin: "finite S" using assms(1) by auto
  have S: "mn \<in> S" "mx \<in> S" "\<And>i. i \<in> S \<Longrightarrow> mn \<le> i" "\<And>i. i \<in> S \<Longrightarrow> i \<le> mx" using fin assms(2-4) by auto
  have "Min (insert v S) = mn" by (rule Min_eqI) (use fin S(1,3) S(4)[OF S(1)] assms(5) in auto)
  moreover have "Max (insert v S) = v" by (rule Max_eqI) (use fin S(4) assms(5) in fastforce)+
  ultimately show ?thesis using conv iv.min_Min[of "raw_iv conv"] iv.max_Max[of "raw_iv conv"] by simp
qed

lemma plus_int_range:
  assumes "fd_shape g d S" "fd_globals_ok g" "v \<notin> S" "descr d = FdDescr" "0 \<le> v" "v \<le> fd_sup"
  shows "refines_set g (op_plus_int g d v) (insert v S)"
proof -
  note f = fd_shape_facts[OF assms(1)]
  have S: "S = {min_elem d..max_elem d}" by (rule shape_interval[OF assms(1,4)])
  have v: "v < min_elem d \<or> max_elem d < v" using assms(3) S by auto
  have nisin: "\<not> isIn d v" using isIn_shape[OF assms(1)] assms(3) by simp
  have size: "fd_size d = max_elem d - min_elem d + 1" using f(5,10) by (simp add: S)
  have card: "fd_size d + 1 = int (card (insert v S))" using f(1,10) assms(3) by simp
  have rng: "\<not> (v < fd_inf \<or> fd_sup < v)" "fd_size d \<noteq> 0" using assms(5,6) f(11) by auto
  have sub: "insert v S \<subseteq> {0..fd_sup}" using assms(1,5,6) by (auto simp: fd_shape_def)
  consider "v = min_elem d - 1" | "v = max_elem d + 1" | "v < min_elem d - 1 \<or> max_elem d + 1 < v" using v by linarith
  then show ?thesis
  proof cases
    case 1
    let ?d = "d\<lparr>min_elem := v, fd_size := max_elem d - v + 1\<rparr>"
    have "op_plus_int g d v = (reduce ?d, fd_size ?d)" using 1 nisin assms(4) size rng by (simp add: op_plus_int_def)
    moreover have "insert v S = {v..max_elem d}" unfolding S using 1 f(5) by auto
    moreover have "fd_shape g ?d {v..max_elem d}"
      using 1 f(5,9) assms(4,5) by (intro shape_intervalI) (simp_all add: findSize_def)
    ultimately show ?thesis using refines_reduce[of g ?d "{v..max_elem d}"] by simp
  next
    case 2
    let ?d = "d\<lparr>max_elem := v, fd_size := v - min_elem d + 1\<rparr>"
    have "op_plus_int g d v = (reduce ?d, fd_size ?d)" using 2 f(5) nisin assms(4) size rng by (simp add: op_plus_int_def)
    moreover have "insert v S = {min_elem d..v}" unfolding S using 2 f(5) by auto
    moreover have "fd_shape g ?d {min_elem d..v}"
      using 2 f(5,8) assms(4,6) by (intro shape_intervalI) (simp_all add: findSize_def)
    ultimately show ?thesis using refines_reduce[of g ?d "{min_elem d..v}"] by simp
  next
    case 3
    let ?d = "d\<lparr>fd_size := fd_size d + 1\<rparr>"
    have n: "v \<noteq> min_elem d - 1" "v \<noteq> max_elem d + 1" using 3 f(5) by auto
    show ?thesis
    proof (cases "max v (max_elem d) \<le> fd_bv_max_elem g")
      case True
      let ?b = "setFromTo (provideBitVector d (word32 (max v (max_elem d)))) (min_elem d) (max_elem d)"
      note b = fresh_range[OF f(8,5) _ True assms(2,4), OF max.cobounded2]
      have "bv_set (setBit_bv ?b v) = insert v S" using setBit_bv_set[of v ?b] b(1,3) assms(5) S by simp
      moreover have "length (setBit_bv ?b v) = length ?b" by (simp add: setBit_bv_def)
      moreover have eq: "op_plus_int g d v = (reduce (setBv (setBit_bv ?b v) ?d), fd_size (setBv (setBit_bv ?b v) ?d))"
        using n True nisin assms(4) rng by (simp add: op_plus_int_def Let_def)
      ultimately show ?thesis unfolding eq using b(2) card assms(2) by (intro refines_setBv) simp_all
    next
      case False
      show ?thesis
      proof (cases "v < min_elem d")
        case True
        let ?i = "init4_iv v v (min_elem d) (max_elem d)"
        have i: "v \<le> v" "v + 1 < min_elem d" using 3 True f(5) by auto
        note i4 = init4_spec[OF i f(5) assms(5)]
        have eq: "op_plus_int g d v = (reduce (setIv ?i ?d), fd_size (setIv ?i ?d))"
          using n False True nisin assms(4) rng unfolding i4(3) by (cases d) (auto simp: op_plus_int_def Let_def)
        have "iv_set ?i = insert v S" using i4(2) S by auto
        then show ?thesis unfolding eq using i4(1) card sub assms(2) by (intro refines_setIv(1)) simp_all
      next
        case above: False
        let ?i = "init4_iv (min_elem d) (max_elem d) v v"
        have i: "max_elem d + 1 < v" "v \<le> v" using 3 above by auto
        note i4 = init4_spec[OF f(5) i f(8)]
        have eq: "op_plus_int g d v = (reduce (setIv ?i ?d), fd_size (setIv ?i ?d))"
          using n False above nisin assms(4) rng unfolding i4(3) by (cases d) (auto simp: op_plus_int_def Let_def)
        have "iv_set ?i = insert v S" using i4(2) S by auto
        then show ?thesis unfolding eq using i4(1) card sub assms(2) by (intro refines_setIv(1)) simp_all
      qed
    qed
  qed
qed


text \<open>A new element of a bit vector: within its words, behind them, or too large for a bit vector.\<close>

lemma op_plus_int_bv:
  assumes sh: "fd_shape g d S" and "fd_globals_ok g" and new: "0 \<le> v" "v \<le> fd_sup" "S \<noteq> {}" "v \<notin> S"
    and BvDescr: "descr d = BvDescr bv"
    and rng: "\<not> (v < fd_inf \<or> fd_sup < v)" "fd_size d \<noteq> 0" "\<not> isIn d v"
    and card: "fd_size d + 1 = int (card (insert v S))" and sub: "insert v S \<subseteq> {0..fd_sup}"
  shows "refines_set g (op_plus_int g d v) (insert v S)"
proof -
  note f = fd_shape_facts[OF sh]
  let ?d = "d\<lparr>fd_size := fd_size d + 1\<rparr>"
  note bv = shape_descr(2)[OF sh BvDescr]
  consider (fits) "v \<le> currBvMaxElem bv" | (grow) "\<not> v \<le> currBvMaxElem bv" "v \<le> fd_bv_max_elem g"
    | (convert) "\<not> v \<le> currBvMaxElem bv" "\<not> v \<le> fd_bv_max_elem g" by blast
  then show ?thesis
  proof cases
    case fits
    have eq: "op_plus_int g d v = (reduce (setBv (setBit_bv bv v) ?d), fd_size (setBv (setBit_bv bv v) ?d))"
      using BvDescr rng fits by (simp add: op_plus_int_def)
    have "length (setBit_bv bv v) = length bv" by (simp add: setBit_bv_def)
    then show ?thesis unfolding eq
      using setBit_bv_set[OF new(1) fits] bv card assms(2) by (intro refines_setBv) simp_all
  next
    case grow
    let ?b = "bv @ replicate (nat (word32 v) - length bv) 0"
    have "int (length bv) \<le> word32 v" using grow(1) word32_bounds[OF new(1)] by (simp add: currBvMaxElem_def)
    note b = grow_spec[OF this new(1)]
    have eq: "op_plus_int g d v = (reduce (setBv (setBit_bv ?b v) ?d), fd_size (setBv (setBit_bv ?b v) ?d))"
      using BvDescr rng grow by (simp add: op_plus_int_def Let_def)
    have "bv_set (setBit_bv ?b v) = insert v S" using setBit_bv_set[OF new(1) b(3)] b(1) bv by simp
    moreover have "int (length (setBit_bv ?b v)) \<le> fd_bv_max_high g"
      using b(2) word32_le_high[OF grow(2) assms(2)] by (simp add: setBit_bv_def)
    ultimately show ?thesis unfolding eq using card assms(2) by (intro refines_setBv) simp_all
  next
    case convert
    define conv where "conv = (if v = max_elem d + 1
      then (mkRaw bv)[length (mkRaw bv) - 1 := (fst (mkRaw bv ! (length (mkRaw bv) - 1)), snd (mkRaw bv ! (length (mkRaw bv) - 1)) + 1)]
      else mkRaw bv @ [(v, v)])"
    have "max_elem d \<le> currBvMaxElem bv" using bv_set_bounds[of "max_elem d" bv] bv f(4) by simp
    then have c: "iv_from (-1) (raw_iv conv)" "iv_set (raw_iv conv) = insert v S"
        "findMinElem_iv (raw_iv conv) = min_elem d" "findMaxElem_iv (raw_iv conv) = v"
      using mkRaw_extend[OF _ new(3) _ _ _ conv_def, of "min_elem d"] bv convert(1) sh
      by (auto simp: fd_shape_def)
    have eq: "op_plus_int g d v = (reduce (setIv (raw_iv conv) ?d), fd_size (setIv (raw_iv conv) ?d))"
      using BvDescr rng convert unfolding setIv_def c(3,4)
      by (cases d) (simp add: op_plus_int_def conv_def Let_def)
    show ?thesis unfolding eq using c(1,2) card sub assms(2) by (intro refines_setIv(1)) simp_all
  qed
qed

lemma op_plus_int_refines:
  assumes "fd_rep g d S" "fd_globals_ok g"
  shows "refines_set g (op_plus_int g d v) (S \<union> ({v} \<inter> {0..fd_sup}))"
proof -
  consider (out) "v < fd_inf \<or> fd_sup < v" | (empty) "0 \<le> v" "v \<le> fd_sup" "S = {}"
    | (there) "0 \<le> v" "v \<le> fd_sup" "S \<noteq> {}" "v \<in> S" | (new) "0 \<le> v" "v \<le> fd_sup" "S \<noteq> {}" "v \<notin> S"
    by (cases "v < fd_inf \<or> fd_sup < v"; cases "S = {}"; cases "v \<in> S") auto
  then show ?thesis
  proof cases
    case out
    then have "{v} \<inter> {0..fd_sup} = {}" by auto
    then show ?thesis using out refines_self[OF assms(1)] by (simp add: op_plus_int_def)
  next
    case empty
    let ?d = "d\<lparr>min_elem := v, max_elem := v, fd_size := 1\<rparr>"
    have red: "reduce ?d = ?d\<lparr>descr := FdDescr\<rparr>" by (simp add: reduce_def isSingleInterval_def)
    then have "fd_shape g (reduce ?d) {v}"
      using empty by (intro shape_intervalI) (simp_all add: findSize_def)
    then have "fd_rep g (reduce ?d) {v}" using red by (simp add: fd_rep_def)
    moreover have "op_plus_int g d v = (reduce ?d, 1)"
      using empty fd_rep_size_iff[OF assms(1)] by (simp add: op_plus_int_def)
    moreover have "S \<union> ({v} \<inter> {0..fd_sup}) = {v}" using empty by auto
    ultimately show ?thesis by simp
  next
    case there
    have sh: "fd_shape g d S" by (rule fd_rep_shape[OF there(3) assms(1)])
    have "op_plus_int g d v = (reduce d, fd_size d)"
      using there isIn_shape[OF sh] fd_shape_facts(11)[OF sh] by (simp add: op_plus_int_def)
    moreover have "S \<union> ({v} \<inter> {0..fd_sup}) = S" using there by auto
    ultimately show ?thesis using refines_reduce[OF sh] by simp
  next
    case new
    have sh: "fd_shape g d S" by (rule fd_rep_shape[OF new(3) assms(1)])
    note f = fd_shape_facts[OF sh]
    let ?d = "d\<lparr>fd_size := fd_size d + 1\<rparr>"
    have T: "S \<union> ({v} \<inter> {0..fd_sup}) = insert v S" using new by auto
    have rng: "\<not> (v < fd_inf \<or> fd_sup < v)" "fd_size d \<noteq> 0" "\<not> isIn d v"
      using new f(11) isIn_shape[OF sh] by auto
    have card: "fd_size d + 1 = int (card (insert v S))" using f(1,10) new(4) by simp
    have sub: "insert v S \<subseteq> {0..fd_sup}" using new fd_rep_subset[OF assms(1)] by auto
    show ?thesis unfolding T
    proof (cases "descr d")
      case FdDescr
      then show "refines_set g (op_plus_int g d v) (insert v S)"
        using plus_int_range[OF sh assms(2) new(4)] new(1,2) by blast
    next
      case (IvDescr iv)
      note iv = shape_descr(1)[OF sh IvDescr]
      have eq: "op_plus_int g d v = (reduce (setIv (plus_int_iv iv v) ?d), fd_size (setIv (plus_int_iv iv v) ?d))"
        using IvDescr rng by (simp add: op_plus_int_def)
      have "iv_from (-1) (plus_int_iv iv v) \<and> iv_set (plus_int_iv iv v) = insert v S"
        using plus_int_iv_spec[of "-1" iv v] iv new by simp
      then show "refines_set g (op_plus_int g d v) (insert v S)" unfolding eq
        using card sub assms(2) by (intro refines_setIv(1)) simp_all
    next
      case (BvDescr bv)
      show "refines_set g (op_plus_int g d v) (insert v S)"
        by (rule op_plus_int_bv[OF sh assms(2) new BvDescr rng card sub])
    qed
  qed
qed


section \<open>Union, intersection and complement\<close>

lemma eq_state_empty: "fd_rep g d S \<Longrightarrow> eq_state d fd_empty \<longleftrightarrow> S = {}"
  using fd_rep_size_iff by (simp add: eq_state_def)

lemma op_or_refines:
  assumes "fd_rep g d S" "fd_rep g y T" "fd_globals_ok g"
  shows "fd_rep g (op_or g d y) (S \<union> T)"
proof -
  have red: "fd_rep g (reduce e) U" if "fd_rep g e U" for e U
    using that rep_reduce[of g e U] by (cases "U = {}") (auto simp: fd_rep_def)
  consider "S = {}" | "S \<noteq> {}" "T = {}" | "S \<noteq> {}" "T \<noteq> {}" by blast
  then show ?thesis
  proof cases
    case 1
    then show ?thesis using eq_state_empty[OF assms(1)] red[OF assms(2)] by (simp add: op_or_def)
  next
    case 2
    then show ?thesis using eq_state_empty[OF assms(1)] eq_state_empty[OF assms(2)] red[OF assms(1)]
      by (simp add: op_or_def)
  next
    case 3
    have ne: "\<not> eq_state d fd_empty" "\<not> eq_state y fd_empty"
      using 3 eq_state_empty assms(1,2) by auto
    have sh: "fd_shape g d S" "fd_shape g y T" using fd_rep_shape 3 assms by blast+
    show ?thesis
    proof (cases "max (max_elem d) (max_elem y) > fd_bv_max_elem g")
      case True
      let ?z = "union_loop (-1) (asIntervals d) (asIntervals y)"
      let ?d = "new_fd\<lparr>fd_size := findSize_iv ?z\<rparr>"
      have "iv_from (-1) (asIntervals d)" "iv_from (-1) (asIntervals y)"
        using asIntervals_spec(1)[OF sh(1)] asIntervals_spec(1)[OF sh(2)] by (simp_all add: iv_ok_from)
      then have z: "iv_from (-1) ?z" "iv_set ?z = S \<union> T"
        using union_loop_from asIntervals_spec(2)[OF sh(1)] asIntervals_spec(2)[OF sh(2)] by simp_all
      have eq: "op_or g d y = reduce (setIv ?z ?d)"
        using ne True by (simp add: op_or_def union_iv_def Let_def)
      have "S \<union> T \<subseteq> {0..fd_sup}" using fd_rep_subset assms(1,2) by blast
      moreover have "fd_size ?d = int (card (S \<union> T))" using findSize_iv_from[OF z(1)] z(2) by simp
      ultimately show ?thesis unfolding eq using refines_setIv(1)[OF z _ _ assms(3), of ?d] by simp
    next
      case False
      obtain z s where z: "union_bv (asBitVector g d) (asBitVector g y) = (z, s)" by fastforce
      have "max_elem d \<le> fd_bv_max_elem g" "max_elem y \<le> fd_bv_max_elem g" using False by auto
      then have zz: "bv_set z = S \<union> T" "s = int (card (S \<union> T))" "int (length z) \<le> fd_bv_max_high g"
        using union_bv_spec[OF z] asBitVector_all[OF sh(1) assms(3)] asBitVector_all[OF sh(2) assms(3)]
          asBitVector_spec(2)[OF sh(1) assms(3)] asBitVector_spec(2)[OF sh(2) assms(3)] by auto
      have eq: "op_or g d y = reduce (setBv z (new_fd\<lparr>fd_size := s\<rparr>))"
        using ne False z by (auto simp: op_or_def)
      show ?thesis unfolding eq using refines_setBv[OF zz(1) _ zz(3) assms(3), of "new_fd\<lparr>fd_size := s\<rparr>"] zz(2) by simp
    qed
  qed
qed

text \<open>The common part of \<^verbatim>\<open>operator &=\<close> and \<^verbatim>\<open>operator &\<close>, on the object \<open>e\<close> that receives the result.\<close>

lemma intersect_arrays:
  assumes "fd_shape g d S" "fd_shape g y T" "fd_globals_ok g"
  shows "intersect_iv (asIntervals d) (asIntervals y) = (zi, s) \<Longrightarrow>
      refines_set g (reduce (setIv zi (e\<lparr>fd_size := s\<rparr>)), s) (S \<inter> T)"
    and "min (max_elem d) (max_elem y) \<le> fd_bv_max_elem g \<Longrightarrow>
      intersect_bv (asBitVector g d) (asBitVector g y) = (zb, s) \<Longrightarrow>
      refines_set g (reduce (setBv zb (e\<lparr>fd_size := s\<rparr>)), s) (S \<inter> T)"
proof -
  assume z: "intersect_iv (asIntervals d) (asIntervals y) = (zi, s)"
  have f: "iv_from (-1) (asIntervals d)" "iv_from (-1) (asIntervals y)"
    using asIntervals_spec(1)[OF assms(1)] asIntervals_spec(1)[OF assms(2)] by (simp_all add: iv_ok_from)
  have z': "zi = intersect_loop (asIntervals d) (asIntervals y)" "s = findSize_iv zi"
    using z by (auto simp: intersect_iv_def Let_def)
  have zz: "iv_from (-1) zi" "iv_set zi = S \<inter> T"
    using intersect_loop_from[OF f] intersect_loop_set[OF f] asIntervals_spec(2)[OF assms(1)]
      asIntervals_spec(2)[OF assms(2)] z'(1) by simp_all
  have s: "s = int (card (S \<inter> T))" using findSize_iv_from[OF zz(1)] z'(2) zz(2) by simp
  have "S \<inter> T \<subseteq> {0..fd_sup}" using assms(1) by (auto simp: fd_shape_def)
  from refines_setIv(1)[OF zz this _ assms(3), of "e\<lparr>fd_size := s\<rparr>"]
  show "refines_set g (reduce (setIv zi (e\<lparr>fd_size := s\<rparr>)), s) (S \<inter> T)" using s by simp
next
  assume m: "min (max_elem d) (max_elem y) \<le> fd_bv_max_elem g"
    and z: "intersect_bv (asBitVector g d) (asBitVector g y) = (zb, s)"
  have low: "i \<le> fd_bv_max_elem g" if "i \<in> S" "i \<in> T" for i
    using fd_shape_facts(7)[OF assms(1) that(1)] fd_shape_facts(7)[OF assms(2) that(2)] m by auto
  have zz: "bv_set zb = S \<inter> T" "int (length zb) \<le> fd_bv_max_high g"
    using intersect_bv_spec[OF z] asBitVector_spec[OF assms(1,3)] asBitVector_spec[OF assms(2,3)] low by auto
  have s: "s = int (card (S \<inter> T))" using intersect_bv_spec[OF z] zz(1) by simp
  from refines_setBv[OF zz(1) _ zz(2) assms(3), of "e\<lparr>fd_size := s\<rparr>"]
  show "refines_set g (reduce (setBv zb (e\<lparr>fd_size := s\<rparr>)), s) (S \<inter> T)" using s by simp
qed

lemma intersect_ranges:
  assumes "fd_shape g d S" "fd_shape g y T" "descr d = FdDescr" "descr y = FdDescr"
    and "\<not> (max_elem d < min_elem y \<or> max_elem y < min_elem d)"
    and "min_elem e = max (min_elem d) (min_elem y)" "max_elem e = min (max_elem d) (max_elem y)"
    and "descr e = FdDescr" "fd_size e = findSize e"
  shows "fd_shape g e (S \<inter> T)"
proof (rule shape_intervalI)
  show "S \<inter> T = {min_elem e..max_elem e}"
    unfolding shape_interval[OF assms(1,3)] shape_interval[OF assms(2,4)] assms(6,7) by auto
qed (use assms(5-9) fd_shape_facts(5,8,9)[OF assms(1)] fd_shape_facts(5)[OF assms(2)] in auto)

lemma disjoint_ranges:
  assumes "fd_shape g d S" "fd_shape g y T" "max_elem d < min_elem y \<or> max_elem y < min_elem d"
  shows "S \<inter> T = {}"
  using fd_shape_facts(6,7)[OF assms(1)] fd_shape_facts(6,7)[OF assms(2)] assms(3) by fastforce

lemma op_and_assign_refines:
  assumes "fd_rep g d S" "fd_rep g y T" "fd_globals_ok g"
  shows "refines_set g (op_and_assign g d y) (S \<inter> T)"
proof (cases "S = {} \<or> T = {}")
  case True
  then show ?thesis using eq_state_empty[OF assms(1)] eq_state_empty[OF assms(2)] init_specs(1)[of g d]
    by (auto simp: op_and_assign_def)
next
  case False
  then have ne: "\<not> (eq_state d fd_empty \<or> eq_state y fd_empty)"
    using eq_state_empty[OF assms(1)] eq_state_empty[OF assms(2)] by simp
  have sh: "fd_shape g d S" "fd_shape g y T" using fd_rep_shape False assms by blast+
  show ?thesis
  proof (cases "descr d = FdDescr \<and> descr y = FdDescr")
    case True
    show ?thesis
    proof (cases "max_elem d < min_elem y \<or> max_elem y < min_elem d")
      case ap: True
      have eq: "op_and_assign g d y = (reduce (d\<lparr>fd_size := 0\<rparr>), fd_size (d\<lparr>fd_size := 0\<rparr>))"
        using ne True ap by (simp add: op_and_assign_def)
      show ?thesis unfolding eq disjoint_ranges[OF sh ap] by (rule refines_reduce_empty) simp
    next
      case ov: False
      let ?d = "d\<lparr>min_elem := max (min_elem d) (min_elem y), max_elem := min (max_elem d) (max_elem y)\<rparr>"
      let ?e = "?d\<lparr>fd_size := findSize ?d\<rparr>"
      have eq: "op_and_assign g d y = (reduce ?e, fd_size ?e)" using ne True ov by (simp add: op_and_assign_def Let_def)
      show ?thesis unfolding eq
        by (intro refines_reduce intersect_ranges[OF sh]) (use True ov in \<open>simp_all add: findSize_def\<close>)
    qed
  next
    case nr: False
    show ?thesis
    proof (cases "min (max_elem d) (max_elem y) > fd_bv_max_elem g")
      case True
      obtain z s where z: "intersect_iv (asIntervals d) (asIntervals y) = (z, s)" by fastforce
      have eq: "op_and_assign g d y = (reduce (setIv z (d\<lparr>fd_size := s\<rparr>)), s)"
        using ne nr True z by (auto simp: op_and_assign_def)
      show ?thesis unfolding eq by (rule intersect_arrays(1)[OF sh assms(3) z])
    next
      case small: False
      obtain z s where z: "intersect_bv (asBitVector g d) (asBitVector g y) = (z, s)" by fastforce
      have eq: "op_and_assign g d y = (reduce (setBv z (d\<lparr>fd_size := s\<rparr>)), s)"
        using ne nr small z by (auto simp: op_and_assign_def)
      show ?thesis unfolding eq by (rule intersect_arrays(2)[OF sh assms(3) _ z]) (use small in linarith)
    qed
  qed
qed

lemma op_and_refines:
  assumes "fd_rep g d S" "fd_rep g y T" "fd_globals_ok g"
  shows "fd_rep g (op_and g d y) (S \<inter> T)"
proof (cases "S = {} \<or> T = {}")
  case True
  then show ?thesis using eq_state_empty[OF assms(1)] eq_state_empty[OF assms(2)]
    by (auto simp: op_and_def fd_rep_def new_fd_def)
next
  case False
  then have ne: "\<not> (eq_state d fd_empty \<or> eq_state y fd_empty)"
    using eq_state_empty[OF assms(1)] eq_state_empty[OF assms(2)] by simp
  have sh: "fd_shape g d S" "fd_shape g y T" using fd_rep_shape False assms by blast+
  show ?thesis
  proof (cases "descr d = FdDescr \<and> descr y = FdDescr")
    case True
    show ?thesis
    proof (cases "max_elem d < min_elem y \<or> max_elem y < min_elem d")
      case ap: True
      have eq: "op_and g d y = reduce (new_fd\<lparr>fd_size := 0\<rparr>)" using ne True ap by (simp add: op_and_def)
      show ?thesis unfolding eq disjoint_ranges[OF sh ap] by (rule rep_reduce_empty) simp
    next
      case ov: False
      let ?d = "new_fd\<lparr>min_elem := max (min_elem d) (min_elem y), max_elem := min (max_elem d) (max_elem y)\<rparr>"
      let ?e = "?d\<lparr>fd_size := findSize ?d\<rparr>"
      have eq: "op_and g d y = reduce ?e" using ne True ov by (simp add: op_and_def Let_def)
      show ?thesis unfolding eq
        by (intro rep_reduce intersect_ranges[OF sh]) (use True ov in \<open>simp_all add: findSize_def new_fd_def\<close>)
    qed
  next
    case nr: False
    show ?thesis
    proof (cases "min (max_elem d) (max_elem y) > fd_bv_max_elem g")
      case True
      obtain z s where z: "intersect_iv (asIntervals d) (asIntervals y) = (z, s)" by fastforce
      have eq: "op_and g d y = reduce (setIv z (new_fd\<lparr>fd_size := s\<rparr>))"
        using ne nr True z by (auto simp: op_and_def)
      show ?thesis unfolding eq by (rule intersect_arrays(1)[OF sh assms(3) z, of new_fd, THEN conjunct1, unfolded fst_conv])
    next
      case small: False
      obtain z s where z: "intersect_bv (asBitVector g d) (asBitVector g y) = (z, s)" by fastforce
      have eq: "op_and g d y = reduce (setBv z (new_fd\<lparr>fd_size := s\<rparr>))"
        using ne nr small z by (auto simp: op_and_def)
      show ?thesis unfolding eq by (rule intersect_arrays(2)[OF sh assms(3) _ z, of new_fd, THEN conjunct1, unfolded fst_conv]) (use small in linarith)
    qed
  qed
qed


lemma complement_refines:
  assumes "iv_ok xs" "xs \<noteq> []" "iv_set xs = S" "fd_globals_ok g"
  shows "fd_rep g (reduce (narrow g (setIv (complement_iv xs) (e\<lparr>fd_size := findSize_iv (complement_iv xs)\<rparr>))))
    ({0..fd_sup} - S)"
proof -
  have c: "iv_from (-1) (complement_iv xs)" "iv_set (complement_iv xs) = {0..fd_sup} - S"
    using complement_iv_spec[OF assms(1,2)] assms(3) by auto
  have "fd_size (e\<lparr>fd_size := findSize_iv (complement_iv xs)\<rparr>) = int (card ({0..fd_sup} - S))"
    using findSize_iv_from[OF c(1)] c(2) by simp
  then show ?thesis using refines_setIv(2)[OF c Diff_subset _ assms(4)] by simp
qed

lemma not_range:
  assumes "fd_shape g d S" "descr d = FdDescr" "S \<noteq> {0..fd_sup}"
  shows "fd_rep g (op_not g d) ({0..fd_sup} - S)"
proof -
  note f = fd_shape_facts[OF assms(1)]
  have S: "S = {min_elem d..max_elem d}" by (rule shape_interval[OF assms(1,2)])
  have ne: "\<not> eq_state d fd_empty" using f(11) by (simp add: eq_state_def)
  have full: "fd_size d \<noteq> fd_full_size"
  proof
    assume "fd_size d = fd_full_size"
    then have "max_elem d - min_elem d = fd_sup" using f(5,10) by (simp add: S fd_full_size_def)
    then have "min_elem d = 0" "max_elem d = fd_sup" using f(8,9) by linarith+
    then show False using assms(3) S by simp
  qed
  consider (low) "min_elem d = 0" "max_elem d < fd_sup" | (high) "0 < min_elem d" "max_elem d = fd_sup"
    | (mid) "0 < min_elem d" "max_elem d < fd_sup"
    using f(8,9) assms(3) S by fastforce
  then show ?thesis
  proof cases
    case low
    let ?y = "new_fd\<lparr>min_elem := max_elem d + 1, max_elem := fd_sup, fd_size := fd_sup - max_elem d\<rparr>"
    have "op_not g d = ?y" using ne full assms(2) low by (simp add: op_not_def findSize_def)
    moreover have "{0..fd_sup} - S = {min_elem ?y..max_elem ?y}" unfolding S using low f(5) by auto
    ultimately show ?thesis
      using low f(5) rep_interval[of ?y g] by (simp add: findSize_def new_fd_def)
  next
    case high
    let ?y = "new_fd\<lparr>max_elem := min_elem d - 1, min_elem := 0, fd_size := min_elem d\<rparr>"
    have "op_not g d = ?y" using ne full assms(2) high by (simp add: op_not_def findSize_def)
    moreover have "{0..fd_sup} - S = {min_elem ?y..max_elem ?y}" unfolding S using high f(5) by auto
    ultimately show ?thesis
      using high f(5,9) rep_interval[of ?y g] by (simp add: findSize_def new_fd_def)
  next
    case mid
    let ?i = "init4_iv 0 (min_elem d - 1) (max_elem d + 1) fd_sup"
    let ?e = "new_fd\<lparr>fd_size := findSize_iv ?i\<rparr>"
    have i: "0 \<le> min_elem d - 1" "min_elem d - 1 + 1 < max_elem d + 1" "max_elem d + 1 \<le> fd_sup" "(0::int) \<le> 0"
      using mid f(5) by simp_all
    note i4 = init4_spec[OF i]
    have T: "iv_set ?i = {0..fd_sup} - S" unfolding S i4(2) using mid f(5) by auto
    have eq: "op_not g d = setIv ?i ?e"
      using ne full assms(2) mid unfolding i4(3) by (simp add: op_not_def new_fd_def Let_def)
    have size: "fd_size ?e = int (card ({0..fd_sup} - S))" using findSize_iv_from[OF i4(1)] T by simp
    have "iv_ok ?i" using iv_okI[OF i4(1)] T by simp
    moreover have "0 \<in> {0..fd_sup} - S" using mid S by simp
    ultimately have sh: "fd_shape g (setIv ?i ?e) ({0..fd_sup} - S)" using setIv_shape[OF _ T] size by blast
    have "min_elem d \<in> {0..fd_sup}" "min_elem d \<notin> {0..fd_sup} - S" using f(3,5,8,9) by auto
    then have "{0..fd_sup} - S \<noteq> {0..fd_sup}" by blast
    then have "\<not> isSingleInterval (setIv ?i ?e)"
      using fd_shape_single[OF sh] unfolding i4(3) by simp
    moreover have "{0..fd_sup} - S \<noteq> {}" by (rule fd_shape_facts(2)[OF sh])
    ultimately show ?thesis unfolding eq fd_rep_def using sh by simp
  qed
qed

lemma op_not_refines:
  assumes "fd_rep g d S" "fd_globals_ok g"
  shows "fd_rep g (op_not g d) ({0..fd_sup} - S)"
proof (cases "S = {}")
  case True
  then show ?thesis using eq_state_empty[OF assms(1)] init_specs(3) by (simp add: op_not_def)
next
  case False
  have sh: "fd_shape g d S" by (rule fd_rep_shape[OF False assms(1)])
  have ne: "\<not> eq_state d fd_empty" using eq_state_empty[OF assms(1)] False by simp
  have fullcard: "fd_full_size = int (card {0..fd_sup})" by (simp add: fd_full_size_def)
  show ?thesis
  proof (cases "S = {0..fd_sup}")
    case True
    then have "op_not g d = fst (initEmpty new_fd)"
      using ne fd_rep_size[OF assms(1)] fullcard by (simp add: op_not_def)
    then show ?thesis using True init_specs(1) by simp
  next
    case nfull: False
    have "fd_size d \<noteq> fd_full_size"
    proof
      assume "fd_size d = fd_full_size"
      then have "card S = card {0..fd_sup}" using fd_rep_size[OF assms(1)] fullcard by simp
      then show False using nfull card_subset_eq[OF _ fd_rep_subset[OF assms(1)]] by simp
    qed
    note full = this
    show ?thesis
    proof (cases "descr d")
      case FdDescr
      then show ?thesis by (rule not_range[OF sh _ nfull])
    next
      case (BvDescr bv)
      then have "op_not g d = reduce (narrow g (setIv (complement_iv (raw_iv (mkRaw bv)))
          (new_fd\<lparr>fd_size := findSize_iv (complement_iv (raw_iv (mkRaw bv)))\<rparr>)))"
        using ne full by (simp add: op_not_def complement_raw_def raw_iv_def Let_def)
      moreover have "iv_set (raw_iv (mkRaw bv)) = S" using shape_descr(2)[OF sh BvDescr] mkRaw_set by simp
      ultimately show ?thesis
        using complement_refines[of "raw_iv (mkRaw bv)" S g new_fd] iv_okI[OF mkRaw_from] fd_rep_subset[OF assms(1)]
          False assms(2) by fastforce
    next
      case (IvDescr iv)
      then have "op_not g d = reduce (narrow g (setIv (complement_iv iv)
          (new_fd\<lparr>fd_size := findSize_iv (complement_iv iv)\<rparr>)))"
        using ne full by (simp add: op_not_def Let_def)
      then show ?thesis using complement_refines[of iv S g new_fd] shape_descr(1)[OF sh IvDescr] assms(2) by simp
    qed
  qed
qed

lemma op_assign_eq: "op_assign d fd = fd"
  by (cases fd; cases d) (simp add: op_assign_def Let_def split: descr_type.splits)

end
