(* ===== verification/FiniteDomainDescr.thy ===== *)
theory FiniteDomainDescr
  imports FiniteDomainOps
begin

text \<open>
  Domains and Oz terms (\<^verbatim>\<open>platform/emulator/fdomn.cc\<close>): \<^verbatim>\<open>initDescr\<close> builds a domain from a
  description (an integer, \<^verbatim>\<open>sup\<close>, \<^verbatim>\<open>bool\<close>, a pair, a list of these, or \<^verbatim>\<open>compl(D)\<close>), with
  \<^verbatim>\<open>simplify\<close> and \<^verbatim>\<open>initList\<close>; \<^verbatim>\<open>getAsList\<close> turns a domain back into a list. The theorems show
  that \<^verbatim>\<open>initDescr\<close> gives the set a description denotes, and that the list of a domain denotes
  the domain.

  A term is dereferenced. The model is the build without \<^verbatim>\<open>DEBUG_CHECK\<close>, where \<^verbatim>\<open>OZD_error\<close> is nothing: an
  element of a list that is no description is skipped, and a description that is none leaves the
  domain as it was and returns -1. \<^const>\<open>None\<close> is only what C++ leaves undefined: the second field of a tuple
  that has one, and a bound that is neither an integer nor \<^verbatim>\<open>sup\<close>.
\<close>

section \<open>Operations\<close>

datatype oz_term = SmallInt int | OzAtom string | STuple string "oz_term list" | LTuple oz_term oz_term

abbreviation AtomNil :: oz_term where
  "AtomNil \<equiv> OzAtom ''nil''"

abbreviation AtomSup :: oz_term where
  "AtomSup \<equiv> OzAtom ''sup''"

abbreviation AtomBool :: oz_term where
  "AtomBool \<equiv> OzAtom ''bool''"

subsection \<open>From a domain to a list\<close>

definition oz_pairII :: "int \<Rightarrow> int \<Rightarrow> oz_term" where
  "oz_pairII l r = STuple ''#'' [SmallInt l, SmallInt r]"

primrec mkList :: "oz_term list \<Rightarrow> oz_term" where
  "mkList [] = AtomNil"
| "mkList (t # ts) = LTuple t (mkList ts)"

definition rangeTerm :: "int \<Rightarrow> int \<Rightarrow> oz_term" where
  "rangeTerm l r = (if l = r then SmallInt l else oz_pairII l r)"

definition getAsList_iv :: "FDIntervals \<Rightarrow> oz_term" where
  "getAsList_iv xs = mkList (map (\<lambda>x. rangeTerm (left x) (right x)) xs)"

definition getAsList_bv :: "FDBitVector \<Rightarrow> oz_term" where
  "getAsList_bv b = mkList (map (\<lambda>(l, r). rangeTerm l r) (mkRaw b))"

definition getAsList :: "OZ_FiniteDomain \<Rightarrow> oz_term" where
  "getAsList d =
     (if fd_size d = 0 then AtomNil
      else case descr d of
             FdDescr \<Rightarrow> LTuple (if min_elem d = max_elem d then SmallInt (min_elem d)
                                else oz_pairII (min_elem d) (max_elem d)) AtomNil
           | BvDescr bv \<Rightarrow> getAsList_bv bv
           | IvDescr iv \<Rightarrow> getAsList_iv iv)"

subsection \<open>From a list of ranges to a domain\<close>

text \<open>Pointers into \<^verbatim>\<open>list_left\<close> are indices; the order compares what they point to.\<close>

definition Order_IntPtr_Inc :: "int list \<Rightarrow> nat \<Rightarrow> nat \<Rightarrow> bool" where
  "Order_IntPtr_Inc ls ip jp \<longleftrightarrow> ls ! ip < ls ! jp"

fun simplify_loop :: "int \<times> int \<Rightarrow> (int \<times> int) list \<Rightarrow> (int \<times> int) list" where
  "simplify_loop (l, r) [] = [(l, r)]"
| "simplify_loop (l, r) ((l', r') # ps) =
     (if r \<ge> l' - 1 then simplify_loop (l, max r r') ps else (l, r) # simplify_loop (l', r') ps)"

definition simplify :: "nat \<Rightarrow> int list \<Rightarrow> int list \<Rightarrow> (int \<times> int) list option" where
  "simplify list_len list_left list_right =
     do { ptr \<leftarrow> fastsort (Order_IntPtr_Inc list_left) [0..<list_len] list_len;
          case map (\<lambda>p. (list_left ! p, list_right ! p)) ptr of
            [] \<Rightarrow> None
          | q # qs \<Rightarrow> Some (simplify_loop q qs) }"

definition initList :: "fd_globals \<Rightarrow> OZ_FiniteDomain \<Rightarrow> nat \<Rightarrow> int list \<Rightarrow> int list \<Rightarrow> int \<Rightarrow> int \<Rightarrow>
    (OZ_FiniteDomain \<times> int) option" where
  "initList g d list_len list_left list_right list_min list_max =
     (if list_len = 0 then Some (initEmpty d)
      else
        do { d \<leftarrow>
          (let d = d\<lparr>min_elem := list_min, max_elem := list_max\<rparr>
           in if list_len = 1 then Some (d\<lparr>fd_size := max_elem d - min_elem d + 1, descr := FdDescr\<rparr>)
              else if list_max \<le> fd_bv_max_elem g then
                (let bv = initList_bv (provideBitVector d (word32 list_max)) list_len list_left list_right
                 in Some (d\<lparr>fd_size := findSize_bv bv, descr := BvDescr bv\<rparr>))
              else do { conv \<leftarrow> simplify list_len list_left list_right;
                        let iv = raw_iv conv
                        in Some (d\<lparr>fd_size := findSize_iv iv, descr := IvDescr iv\<rparr>) });
          Some (reduce d, fd_size d) })"

subsection \<open>Descriptions\<close>

definition boundTerm :: "oz_term \<Rightarrow> int option" where
  "boundTerm t = (if t = AtomSup then Some fd_sup else case t of SmallInt i \<Rightarrow> Some i | _ \<Rightarrow> None)"

text \<open>
  One element of a list: \<open>Some None\<close> when the loop skips it, be it out of range, empty or of a kind
  that \<^verbatim>\<open>OZD_error\<close> would complain about.
\<close>

definition descrElem :: "oz_term \<Rightarrow> (int \<times> int) option option" where
  "descrElem val =
     (case val of
        SmallInt v \<Rightarrow> Some (if v < fd_inf \<or> fd_sup < v then None else Some (v, v))
      | STuple f (t0 # t1 # ts) \<Rightarrow>
          do { a \<leftarrow> boundTerm t0; b \<leftarrow> boundTerm t1;
               let l = max 0 a; r = min fd_sup b
               in Some (if l > r then None else Some (l, r)) }
      | OzAtom a \<Rightarrow>
          if val = AtomSup then Some (Some (fd_sup, fd_sup))
          else if val = AtomBool then Some (Some (0, 1))
          else Some None
      | LTuple h t \<Rightarrow> Some None
      | STuple f _ \<Rightarrow> None)"

fun initDescr_loop :: "oz_term \<Rightarrow> int list \<Rightarrow> int list \<Rightarrow> int \<Rightarrow> int \<Rightarrow>
    (int list \<times> int list \<times> int \<times> int) option" where
  "initDescr_loop (LTuple val rest) left_arr right_arr min_arr max_arr =
     (case descrElem val of
        None \<Rightarrow> None
      | Some None \<Rightarrow> initDescr_loop rest left_arr right_arr min_arr max_arr
      | Some (Some (l, r)) \<Rightarrow>
          initDescr_loop rest (left_arr @ [l]) (right_arr @ [r]) (min min_arr l) (max max_arr r))"
| "initDescr_loop d left_arr right_arr min_arr max_arr = Some (left_arr, right_arr, min_arr, max_arr)"

fun initDescr :: "fd_globals \<Rightarrow> OZ_FiniteDomain \<Rightarrow> oz_term \<Rightarrow> (OZ_FiniteDomain \<times> int) option" where
  "initDescr g this (STuple f [t]) =
     (case initDescr g this t of
        None \<Rightarrow> None
      | Some (d, s) \<Rightarrow> (let d = op_assign d (op_not g d) in Some (d, fd_size d)))"
| "initDescr g this (SmallInt i) = Some (initSingleton this i)"
| "initDescr g this (STuple f (t0 # t1 # ts)) =
     (case (boundTerm t0, boundTerm t1) of
        (Some a, Some b) \<Rightarrow> Some (initRange this a b)
      | _ \<Rightarrow> None)"
| "initDescr g this (STuple f []) = None"
| "initDescr g this (OzAtom a) =
     (if OzAtom a = AtomSup then Some (initSingleton this fd_sup)
      else if OzAtom a = AtomBool then Some (initRange this 0 1)
      else if OzAtom a = AtomNil then Some (initEmpty this)
      else Some (this, -1))"
| "initDescr g this (LTuple h t) =
     (case initDescr_loop (LTuple h t) [] [] fd_sup 0 of
        None \<Rightarrow> None
      | Some (ls, rs, mn, mx) \<Rightarrow> initList g this (length ls) ls rs mn mx)"


section \<open>What a description denotes\<close>

fun elemSet :: "oz_term \<Rightarrow> int set option" where
  "elemSet (SmallInt v) = Some ({v} \<inter> {0..fd_sup})"
| "elemSet (OzAtom a) = (if a = ''sup'' then Some {fd_sup} else if a = ''bool'' then Some {0, 1} else Some {})"
| "elemSet (STuple f (t0 # t1 # ts)) =
     do { a \<leftarrow> boundTerm t0; b \<leftarrow> boundTerm t1; Some ({a..b} \<inter> {0..fd_sup}) }"
| "elemSet (LTuple h t) = Some {}"
| "elemSet _ = None"

fun listSet :: "oz_term \<Rightarrow> int set option" where
  "listSet (LTuple h t) = do { A \<leftarrow> elemSet h; B \<leftarrow> listSet t; Some (A \<union> B) }"
| "listSet _ = Some {}"

fun descrSet :: "oz_term \<Rightarrow> int set option" where
  "descrSet (STuple f [t]) = map_option (\<lambda>S. {0..fd_sup} - S) (descrSet t)"
| "descrSet (LTuple h t) = listSet (LTuple h t)"
| "descrSet (OzAtom a) = (if a \<in> {''sup'', ''bool'', ''nil''} then elemSet (OzAtom a) else None)"
| "descrSet t = elemSet t"

text \<open>An atom that is no description, and the number of complements around it.\<close>

fun unrecognised :: "oz_term \<Rightarrow> nat option" where
  "unrecognised (STuple f [t]) = map_option Suc (unrecognised t)"
| "unrecognised (OzAtom a) = (if a \<in> {''sup'', ''bool'', ''nil''} then None else Some 0)"
| "unrecognised _ = None"

fun spineLength :: "oz_term \<Rightarrow> nat" where
  "spineLength (LTuple h t) = Suc (spineLength t)"
| "spineLength _ = 0"

text \<open>Every list in the description is shorter than \<open>2 ^ 31\<close>: its length is a C++ \<open>int\<close>.\<close>

fun descrFits :: "oz_term \<Rightarrow> bool" where
  "descrFits (STuple f [t]) = descrFits t"
| "descrFits t = (spineLength t < 2 ^ 31)"


section \<open>Simplifying a list of ranges\<close>

interpretation ptr: sort_order "Order_IntPtr_Inc ls" for ls
  by unfold_locales (auto simp: Order_IntPtr_Inc_def)

lemma raw_iv_simps [simp]:
  "raw_iv [] = []" "raw_iv ((l, r) # ps) = mk_iv l r # raw_iv ps"
  by (simp_all add: raw_iv_map)

lemma simplify_loop_spec:
  assumes "l \<le> r" "sorted (map fst ((l, r) # ps))" "\<forall>(a, b) \<in> set ps. a \<le> b"
  shows "iv_from (l - 1) (raw_iv (simplify_loop (l, r) ps)) \<and>
    iv_set (raw_iv (simplify_loop (l, r) ps)) = {l..r} \<union> (\<Union>(a, b) \<in> set ps. {a..b})"
  using assms
proof (induction "(l, r)" ps arbitrary: l r rule: simplify_loop.induct)
  case (2 l r l' r' ps)
  have o: "l \<le> l'" "l' \<le> r'" "\<forall>(a, b) \<in> set ps. a \<le> b" "sorted (map fst ((l', r') # ps))"
    "sorted (map fst ((l, max r r') # ps))" using "2.prems" by auto
  show ?case
  proof (cases "r \<ge> l' - 1")
    case True
    have "{l..max r r'} = {l..r} \<union> {l'..r'}" using True o(1,2) "2.prems"(1) by auto
    then show ?thesis using "2.hyps"(1)[OF True] True o "2.prems"(1) by (simp add: Un_assoc)
  next
    case False
    have "iv_from (r + 1) (raw_iv (simplify_loop (l', r') ps))"
      using "2.hyps"(2)[OF False o(2,4,3)] False by (auto intro: iv_from_mono)
    then show ?thesis using "2.hyps"(2)[OF False o(2,4,3)] False "2.prems"(1) by (simp add: Un_assoc)
  qed
qed auto

lemma simplify_spec:
  assumes "0 < n" "n \<le> 2 ^ 31" "\<And>i. i < n \<Longrightarrow> 0 \<le> ls ! i \<and> ls ! i \<le> rs ! i"
  shows "\<exists>conv. simplify n ls rs = Some conv \<and> iv_from (-1) (raw_iv conv) \<and>
    iv_set (raw_iv conv) = (\<Union>i < n. {ls ! i..rs ! i})"
proof -
  obtain p where p: "fastsort (Order_IntPtr_Inc ls) [0..<n] n = Some p" "mset p = mset [0..<n]"
      "sorted_wrt (sort_order.le (Order_IntPtr_Inc ls)) p"
    using ptr.fastsort_spec[of "[0..<n]" ls] assms(2) by auto
  let ?q = "map (\<lambda>p. (ls ! p, rs ! p)) p"
  have set: "set p = {..<n}" using mset_eq_setD[OF p(2)] by (simp add: lessThan_atLeast0)
  have "sort_order.le (Order_IntPtr_Inc ls) = (\<lambda>i j. ls ! i \<le> ls ! j)"
    by (simp add: fun_eq_iff ptr.le_def Order_IntPtr_Inc_def not_less)
  then have "sorted (map fst ?q)" using p(3) by (simp add: sorted_wrt_map comp_def)
  moreover have "\<forall>(a, b) \<in> set ?q. 0 \<le> a \<and> a \<le> b" using assms(3) set by auto
  moreover obtain l r qs where q: "?q = (l, r) # qs"
  proof -
    have "0 \<in> set p" using assms(1) set by simp
    then show thesis using that by (cases p) simp_all
  qed
  ultimately have ok: "sorted (map fst ((l, r) # qs))" "l \<le> r" "0 \<le> l" "\<forall>(a, b) \<in> set qs. a \<le> b"
    by (auto simp only: q list.set ball_simps case_prod_conv)
  have lp: "iv_from (l - 1) (raw_iv (simplify_loop (l, r) qs)) \<and>
      iv_set (raw_iv (simplify_loop (l, r) qs)) = (\<Union>(a, b) \<in> set ?q. {a..b})"
    unfolding q using simplify_loop_spec[OF ok(2,1,4)] by simp
  moreover have "(\<Union>(a, b) \<in> set ?q. {a..b}) = (\<Union>i < n. {ls ! i..rs ! i})" using set by auto
  ultimately have "iv_from (-1) (raw_iv (simplify_loop (l, r) qs)) \<and>
      iv_set (raw_iv (simplify_loop (l, r) qs)) = (\<Union>i < n. {ls ! i..rs ! i})"
    using iv_from_mono[of "l - 1" _ "-1"] ok(3) by auto
  then show ?thesis using p(1) q by (auto simp: simplify_def)
qed


section \<open>Domains from lists of ranges\<close>

lemma length_provide: "0 \<le> hi \<Longrightarrow> int (length (provideBitVector d hi)) = hi"
  by (auto simp: provideBitVector_def newBitVector_def split: descr_type.splits)

lemma ranges_bounds:
  fixes ls rs :: "int list"
  assumes "0 < n" "\<And>i. i < n \<Longrightarrow> ls ! i \<le> rs ! i" "S = (\<Union>i < n. {ls ! i..rs ! i})"
  shows "Min S = Min ((!) ls ` {..<n})" "Max S = Max ((!) rs ` {..<n})"
proof -
  have S: "finite S" using assms(3) by auto
  have ne: "(!) ls ` {..<n} \<noteq> {}" "(!) rs ` {..<n} \<noteq> {}" using assms(1) by auto
  obtain i where i: "i < n" "Min ((!) ls ` {..<n}) = ls ! i" using Min_in[OF _ ne(1)] by auto
  have "Min ((!) ls ` {..<n}) \<le> x" if x: "x \<in> S" for x
  proof -
    obtain k where k: "k < n" "ls ! k \<le> x" using x unfolding assms(3) by auto
    have "Min ((!) ls ` {..<n}) \<le> ls ! k" using k(1) by (intro Min_le) auto
    then show ?thesis using k(2) by simp
  qed
  moreover have "ls ! i \<in> S" unfolding assms(3) using i(1) assms(2)[OF i(1)] by (intro UN_I[of i]) auto
  ultimately show "Min S = Min ((!) ls ` {..<n})" using S i(2) by (intro Min_eqI) auto
  obtain j where j: "j < n" "Max ((!) rs ` {..<n}) = rs ! j" using Max_in[OF _ ne(2)] by auto
  have "x \<le> Max ((!) rs ` {..<n})" if x: "x \<in> S" for x
  proof -
    obtain k where k: "k < n" "x \<le> rs ! k" using x unfolding assms(3) by auto
    have "rs ! k \<le> Max ((!) rs ` {..<n})" using k(1) by (intro Max_ge) auto
    then show ?thesis using k(2) by simp
  qed
  moreover have "rs ! j \<in> S" unfolding assms(3) using j(1) assms(2)[OF j(1)] by (intro UN_I[of j]) auto
  ultimately show "Max S = Max ((!) rs ` {..<n})" using S j(2) by (intro Max_eqI) auto
qed

lemma initList_spec:
  assumes "n < 2 ^ 31" "\<And>i. i < n \<Longrightarrow> 0 \<le> ls ! i \<and> ls ! i \<le> rs ! i \<and> rs ! i \<le> fd_sup" "fd_globals_ok g"
    and "0 < n \<Longrightarrow> mn = Min ((!) ls ` {..<n})" "0 < n \<Longrightarrow> mx = Max ((!) rs ` {..<n})"
  shows "\<exists>p. initList g d n ls rs mn mx = Some p \<and> refines_set g p (\<Union>i < n. {ls ! i..rs ! i})"
proof (cases "n = 0")
  case True
  then show ?thesis using refines_empty by (simp add: initList_def)
next
  case False
  define S where "S = (\<Union>i < n. {ls ! i..rs ! i})"
  have b: "Min S = mn" "Max S = mx" using ranges_bounds[of n ls rs S] assms False by (auto simp: S_def)
  have S: "S \<noteq> {}" "finite S" "S \<subseteq> {0..fd_sup}"
  proof -
    have "ls ! 0 \<in> S" unfolding S_def using False assms(2)[of 0] by (intro UN_I[of 0]) auto
    then show "S \<noteq> {}" by auto
    show "finite S" by (simp add: S_def)
    show "S \<subseteq> {0..fd_sup}" unfolding S_def by (rule UN_least) (use assms(2) in auto)
  qed
  have m: "mn \<in> S" "mx \<in> S" using b Min_in[OF S(2,1)] Max_in[OF S(2,1)] by simp_all
  have m3: "i \<le> mx" if "i \<in> S" for i using b(2) Max_ge[OF S(2) that] by simp
  have mx: "0 \<le> mx" "mx \<le> fd_sup" "0 \<le> mn" using m S(3) by auto
  have shape: "fd_shape g (d\<lparr>min_elem := mn, max_elem := mx, fd_size := s, descr := t\<rparr>) S"
    if "s = int (card S)" "descr_ok g t S" for s t using that S b by (simp add: fd_shape_def)
  let ?d = "d\<lparr>min_elem := mn, max_elem := mx\<rparr>"
  consider "n = 1" | "1 < n" "mx \<le> fd_bv_max_elem g" | "1 < n" "mx > fd_bv_max_elem g" using False by linarith
  then have "\<exists>e. initList g d n ls rs mn mx = Some (reduce e, fd_size e) \<and> fd_shape g e S"
  proof cases
    case 1
    then have "S = {ls ! 0..rs ! 0}" "mn = ls ! 0" "mx = rs ! 0" using assms(4,5) by (auto simp: S_def lessThan_Suc)
    moreover have "ls ! 0 \<le> rs ! 0" using assms(2)[of 0] 1 by simp
    ultimately have "fd_shape g (?d\<lparr>fd_size := mx - mn + 1, descr := FdDescr\<rparr>) S"
      using b by (intro shape) (simp_all add: descr_ok_def)
    then show ?thesis using 1 by (intro exI conjI) (auto simp: initList_def)
  next
    case 2
    let ?b = "initList_bv (provideBitVector ?d (word32 mx)) n ls rs"
    have w: "0 \<le> word32 mx" "mx < 32 * word32 mx" using word32_bounds[OF mx(1)] mx(1) by auto
    have len: "int (length (provideBitVector ?d (word32 mx))) = word32 mx" by (rule length_provide[OF w(1)])
    have "rs ! i \<le> currBvMaxElem (provideBitVector ?d (word32 mx))" if "i < n" for i
    proof -
      have "rs ! i \<in> S" using that assms(2)[OF that] by (auto simp: S_def)
      then have "rs ! i \<le> mx" by (rule m3)
      then show ?thesis using w(2) unfolding currBvMaxElem_def len by linarith
    qed
    then have bb: "bv_set ?b = S" "int (length ?b) = word32 mx"
      using initList_bv_set[of n ls rs "provideBitVector ?d (word32 mx)"] assms(2) len unfolding S_def by simp_all
    then have "fd_shape g (?d\<lparr>fd_size := findSize_bv ?b, descr := BvDescr ?b\<rparr>) S"
      using word32_le_high[OF 2(2) assms(3)] by (intro shape) (simp_all add: findSize_bv_card descr_ok_def)
    then show ?thesis using 2 by (intro exI conjI) (auto simp: initList_def Let_def)
  next
    case 3
    obtain conv where c: "simplify n ls rs = Some conv" "iv_from (-1) (raw_iv conv)" "iv_set (raw_iv conv) = S"
      using simplify_spec[of n ls rs] assms(1,2) False unfolding S_def by auto
    then have "fd_shape g (?d\<lparr>fd_size := findSize_iv (raw_iv conv), descr := IvDescr (raw_iv conv)\<rparr>) S"
      using findSize_iv_from[OF c(2)] iv_okI[OF c(2)] S(3) by (intro shape) (simp_all add: descr_ok_def)
    then show ?thesis using 3 c(1) by (intro exI conjI) (auto simp: initList_def Let_def)
  qed
  then obtain e where "initList g d n ls rs mn mx = Some (reduce e, fd_size e)" "fd_shape g e S" by blast
  then show ?thesis using refines_reduce[of g e S] unfolding S_def by simp
qed


section \<open>Descriptions\<close>

text \<open>The ranges the loop collects, and the bounds it keeps of them.\<close>

definition ranges_ok :: "int list \<Rightarrow> int list \<Rightarrow> int \<Rightarrow> int \<Rightarrow> bool" where
  "ranges_ok ls rs mn mx \<longleftrightarrow> length rs = length ls \<and>
     (\<forall>i < length ls. 0 \<le> ls ! i \<and> ls ! i \<le> rs ! i \<and> rs ! i \<le> fd_sup) \<and>
     mn = Min (insert fd_sup (set ls)) \<and> mx = Max (insert 0 (set rs))"

definition ranges_set :: "int list \<Rightarrow> int list \<Rightarrow> int set" where
  "ranges_set ls rs = (\<Union>i < length ls. {ls ! i..rs ! i})"

lemma ranges_ok_snoc:
  assumes "ranges_ok ls rs mn mx" "0 \<le> l" "l \<le> r" "r \<le> fd_sup"
  shows "ranges_ok (ls @ [l]) (rs @ [r]) (min mn l) (max mx r)"
    and "ranges_set (ls @ [l]) (rs @ [r]) = ranges_set ls rs \<union> {l..r}"
proof -
  have len: "length rs = length ls" using assms(1) by (simp add: ranges_ok_def)
  have "Min (insert fd_sup (insert l (set ls))) = min mn l" "Max (insert 0 (insert r (set rs))) = max mx r"
    using assms(1) unfolding ranges_ok_def insert_commute[of fd_sup] insert_commute[of 0]
    by (simp_all add: min.commute max.commute)
  then show "ranges_ok (ls @ [l]) (rs @ [r]) (min mn l) (max mx r)"
    using assms by (auto simp: ranges_ok_def nth_append)
  have "(\<Union>i < length ls. {(ls @ [l]) ! i..(rs @ [r]) ! i}) = (\<Union>i < length ls. {ls ! i..rs ! i})"
    by (rule SUP_cong) (auto simp: nth_append len)
  then show "ranges_set (ls @ [l]) (rs @ [r]) = ranges_set ls rs \<union> {l..r}"
    by (simp add: ranges_set_def lessThan_Suc nth_append_length[of rs r, unfolded len] Un_commute)
qed

lemma descrElem_spec:
  "elemSet t = map_option (\<lambda>p. case p of None \<Rightarrow> {} | Some (l, r) \<Rightarrow> {l..r}) (descrElem t)"
  "descrElem t = Some (Some (l, r)) \<Longrightarrow> 0 \<le> l \<and> l \<le> r \<and> r \<le> fd_sup"
proof -
  have e1: "{a..b} \<inter> {0..fd_sup} = {max 0 a..min fd_sup b}" for a b by auto
  have e2: "{0..1} = {0, 1 :: int}" by auto
  show "elemSet t = map_option (\<lambda>p. case p of None \<Rightarrow> {} | Some (l, r) \<Rightarrow> {l..r}) (descrElem t)"
  proof (cases t rule: elemSet.cases)
    case (1 v)
    then show ?thesis by (auto simp: descrElem_def)
  next
    case (3 f t0 t1 ts)
    then show ?thesis by (cases "boundTerm t0"; cases "boundTerm t1") (auto simp: descrElem_def Let_def)
  qed (auto simp: descrElem_def e2)
  show "descrElem t = Some (Some (l, r)) \<Longrightarrow> 0 \<le> l \<and> l \<le> r \<and> r \<le> fd_sup"
    by (cases t rule: elemSet.cases)
      (auto simp: descrElem_def Let_def fd_sup_def split: if_splits bind_splits)
qed

lemma initDescr_loop_spec:
  "ranges_ok ls rs mn mx \<Longrightarrow>
   (case listSet t of
      None \<Rightarrow> initDescr_loop t ls rs mn mx = None
    | Some S \<Rightarrow> \<exists>ls' rs' mn' mx'. initDescr_loop t ls rs mn mx = Some (ls', rs', mn', mx') \<and>
        ranges_ok ls' rs' mn' mx' \<and> ranges_set ls' rs' = ranges_set ls rs \<union> S \<and>
        length ls' \<le> length ls + spineLength t)"
proof (induction t ls rs mn mx rule: initDescr_loop.induct)
  case (1 val rest ls rs mn mx)
  note el = descrElem_spec(1)[of val]
  consider "descrElem val = None" | "descrElem val = Some None" | l r where "descrElem val = Some (Some (l, r))"
    by (metis option.exhaust surj_pair)
  then show ?case
  proof cases
    case 1
    then show ?thesis using el by simp
  next
    case 2
    then show ?thesis using el "1.IH"(1)[OF 2 refl "1.prems"] by (auto split: option.splits)
  next
    case (3 l r)
    note lr = descrElem_spec(2)[OF 3]
    have "ranges_ok (ls @ [l]) (rs @ [r]) (min mn l) (max mx r)"
        "ranges_set (ls @ [l]) (rs @ [r]) = ranges_set ls rs \<union> {l..r}"
      using ranges_ok_snoc[OF "1.prems"] lr by auto
    then show ?thesis using el 3 "1.IH"(2)[OF 3 refl refl] by (auto split: option.splits)
  qed
qed auto

lemma ranges_ok_bounds:
  assumes "ranges_ok ls rs mn mx" "0 < length ls"
  shows "mn = Min ((!) ls ` {..<length ls})" "mx = Max ((!) rs ` {..<length ls})"
proof -
  have r: "length rs = length ls" "\<And>i. i < length ls \<Longrightarrow> 0 \<le> ls ! i \<and> ls ! i \<le> rs ! i \<and> rs ! i \<le> fd_sup"
    "mn = Min (insert fd_sup (set ls))" "mx = Max (insert 0 (set rs))" using assms(1) by (auto simp: ranges_ok_def)
  have img: "(!) ls ` {..<length ls} = set ls" "(!) rs ` {..<length ls} = set rs"
    using r(1) by (auto simp: set_conv_nth)
  have ne: "set ls \<noteq> {}" "set rs \<noteq> {}" using assms(2) r(1) by auto
  have "ls ! 0 \<le> fd_sup" "0 \<le> rs ! 0" "ls ! 0 \<in> set ls" "rs ! 0 \<in> set rs" using r(1) r(2)[of 0] assms(2) by auto
  then have "Min (set ls) \<le> fd_sup" "0 \<le> Max (set rs)"
    by (meson List.finite_set Min_le order_trans) (meson List.finite_set Max_ge \<open>0 \<le> rs ! 0\<close> \<open>rs ! 0 \<in> set rs\<close> order_trans)
  then show "mn = Min ((!) ls ` {..<length ls})" "mx = Max ((!) rs ` {..<length ls})"
    unfolding r(3,4) img using ne by (simp_all add: min_absorb2 max_absorb2)
qed

lemma initDescr_list:
  assumes "listSet t = Some S" "fd_globals_ok g" "spineLength t < 2 ^ 31"
  shows "\<exists>ls rs mn mx p. initDescr_loop t [] [] fd_sup 0 = Some (ls, rs, mn, mx) \<and>
    initList g d (length ls) ls rs mn mx = Some p \<and> refines_set g p S"
proof -
  have "ranges_ok [] [] fd_sup 0" by (simp add: ranges_ok_def)
  then obtain ls rs mn mx where l: "initDescr_loop t [] [] fd_sup 0 = Some (ls, rs, mn, mx)"
      "ranges_ok ls rs mn mx" "ranges_set ls rs = S" "length ls \<le> spineLength t"
    using initDescr_loop_spec[of "[]" "[]" fd_sup 0 t] assms(1) by (auto simp: ranges_set_def)
  have "\<exists>p. initList g d (length ls) ls rs mn mx = Some p \<and>
      refines_set g p (\<Union>i < length ls. {ls ! i..rs ! i})"
    using l(2,4) assms(2,3) ranges_ok_bounds[OF l(2)]
    by (intro initList_spec) (simp_all add: ranges_ok_def)
  then show ?thesis using l(1,3) by (auto simp: ranges_set_def)
qed

lemma initDescr_refines:
  "fd_globals_ok g \<Longrightarrow> descrFits t \<Longrightarrow> descrSet t = Some S \<Longrightarrow>
   \<exists>p. initDescr g d t = Some p \<and> refines_set g p S"
proof (induction g d t arbitrary: S rule: initDescr.induct)
  case (1 g d f t)
  obtain S' where S': "descrSet t = Some S'" "S = {0..fd_sup} - S'" using "1.prems"(3) by auto
  obtain e s where e: "initDescr g d t = Some (e, s)" "fd_rep g e S'"
    using "1.IH"[OF "1.prems"(1) _ S'(1)] "1.prems"(2) by auto
  have "refines_set g (op_not g e, fd_size (op_not g e)) S"
    using refines_self[OF op_not_refines[OF e(2) "1.prems"(1)]] S'(2) by simp
  then show ?case using e(1) by (simp add: op_assign_eq)
next
  case (2 g d i)
  then show ?case using initSingleton_spec[of g d i] by auto
next
  case (3 g d f t0 t1 ts)
  then obtain a b where "boundTerm t0 = Some a" "boundTerm t1 = Some b" "S = {a..b} \<inter> {0..fd_sup}"
    by (auto split: bind_splits)
  then show ?case using initRange_spec[of g d a b] by simp
next
  case (5 g d a)
  have "{0..1} \<inter> {0..fd_sup} = {0, 1 :: int}" by (auto simp: fd_sup_def)
  then have rng: "refines_set g (initRange d 0 1) {0, 1}" using initRange_spec[of g d 0 1] by simp
  have sup: "refines_set g (initSingleton d fd_sup) {fd_sup}" using initSingleton_spec[of g d fd_sup] by simp
  consider "a = ''sup''" "S = {fd_sup}" | "a = ''bool''" "S = {0, 1}" | "a = ''nil''" "S = {}"
    using "5.prems"(3) by (auto split: if_splits)
  then show ?case by cases (use rng sup refines_empty[of g d] in simp_all)
next
  case (6 g d h t)
  obtain ls rs mn mx p where "initDescr_loop (LTuple h t) [] [] fd_sup 0 = Some (ls, rs, mn, mx)"
      "initList g d (length ls) ls rs mn mx = Some p" "refines_set g p S"
    using initDescr_list[of "LTuple h t" S g d] "6.prems" by auto
  then show ?case by (simp only: initDescr.simps option.case prod.case) blast
qed auto

lemma initDescr_undefined: "descrSet t = None \<Longrightarrow> unrecognised t = None \<Longrightarrow> initDescr g d t = None"
proof (induction g d t rule: initDescr.induct)
  case (6 g d h t)
  have "ranges_ok [] [] fd_sup 0" by (simp add: ranges_ok_def)
  then have "initDescr_loop (LTuple h t) [] [] fd_sup 0 = None"
    using initDescr_loop_spec[of "[]" "[]" fd_sup 0 "LTuple h t"] "6.prems" by simp
  then show ?case by (simp only: initDescr.simps option.case)
qed (auto split: if_splits option.splits bind_splits)

text \<open>An atom that is no description leaves the domain, and complements around it complement what was there.\<close>

lemma initDescr_unrecognised:
  "unrecognised t = Some k \<Longrightarrow>
   initDescr g d t = Some ((op_not g ^^ k) d, if k = 0 then -1 else fd_size ((op_not g ^^ k) d))"
proof (induction t arbitrary: k rule: unrecognised.induct)
  case (1 f t)
  then obtain j where "unrecognised t = Some j" "k = Suc j" by auto
  then show ?case using "1.IH" by (simp add: op_assign_eq Let_def)
qed (auto split: if_splits)


section \<open>The list of a domain denotes the domain\<close>

lemma elemSet_range: "0 \<le> l \<Longrightarrow> l \<le> r \<Longrightarrow> r \<le> fd_sup \<Longrightarrow> elemSet (rangeTerm l r) = Some {l..r}"
  by (auto simp: rangeTerm_def oz_pairII_def boundTerm_def)

lemma listSet_ranges:
  assumes "\<forall>x \<in> set xs. 0 \<le> left x \<and> left x \<le> right x \<and> right x \<le> fd_sup"
  shows "listSet (mkList (map (\<lambda>x. rangeTerm (left x) (right x)) xs)) = Some (iv_set xs)"
  using assms by (induction xs) (simp_all add: elemSet_range)

lemma spineLength_mkList: "spineLength (mkList ts) = length ts"
  by (induction ts) auto

lemma length_le_card:
  assumes "iv_from b xs"
  shows "length xs \<le> card (iv_set xs)"
proof -
  have "0 \<le> findSize_loop_iv xs" using assms by (induction xs arbitrary: b) auto
  then show ?thesis using findSize_iv_from[OF assms] by (simp add: findSize_iv_def)
qed

lemma descrSet_mkList: "ts \<noteq> [] \<Longrightarrow> descrSet (mkList ts) = listSet (mkList ts)"
  by (cases ts) auto

lemma descrFits_mkList: "ts \<noteq> [] \<Longrightarrow> descrFits (mkList ts) \<longleftrightarrow> length ts < 2 ^ 31"
  by (cases ts) (auto simp: spineLength_mkList)

lemma getAsList_arrays:
  assumes "iv_ok xs" "xs \<noteq> []"
  shows "descrSet (getAsList_iv xs) = Some (iv_set xs)" "descrFits (getAsList_iv xs)"
proof -
  have f: "iv_from (-1) xs" "iv_set xs \<subseteq> {0..fd_sup}" using assms(1) iv_ok_subset by (auto simp: iv_ok_from)
  have "\<forall>x \<in> set xs. 0 \<le> left x \<and> left x \<le> right x \<and> right x \<le> fd_sup"
    using assms(1) iv_from_mem[OF f(1)] by (auto simp: iv_ok_def)
  then show "descrSet (getAsList_iv xs) = Some (iv_set xs)"
    using listSet_ranges[of xs] assms(2) by (simp add: getAsList_iv_def descrSet_mkList)
  have "card (iv_set xs) \<le> card {0..fd_sup}" using f(2) by (intro card_mono) auto
  then have "length xs < 2 ^ 31" using length_le_card[OF f(1)] by (simp add: fd_sup_def)
  then show "descrFits (getAsList_iv xs)" using assms(2) by (simp add: getAsList_iv_def descrFits_mkList)
qed

lemma getAsList_bv_iv: "getAsList_bv b = getAsList_iv (raw_iv (mkRaw b))"
  by (simp add: getAsList_bv_def getAsList_iv_def raw_iv_map comp_def case_prod_unfold)

lemma getAsList_denotes:
  assumes "fd_rep g d S"
  shows "descrSet (getAsList d) = Some S \<and> descrFits (getAsList d)"
proof (cases "S = {}")
  case True
  then show ?thesis using assms by (simp add: getAsList_def fd_rep_def)
next
  case False
  have sh: "fd_shape g d S" by (rule fd_rep_shape[OF False assms])
  note f = fd_shape_facts[OF sh]
  have ne: "fd_size d \<noteq> 0" using f(11) by simp
  show ?thesis
  proof (cases "descr d")
    case FdDescr
    have S: "S = {min_elem d..max_elem d}" by (rule shape_interval[OF sh FdDescr])
    have "getAsList d = LTuple (rangeTerm (min_elem d) (max_elem d)) AtomNil"
      using ne FdDescr by (simp add: getAsList_def rangeTerm_def)
    then show ?thesis using elemSet_range[of "min_elem d" "max_elem d"] f(5,8,9) S by simp
  next
    case (BvDescr bv)
    let ?x = "raw_iv (mkRaw bv)"
    have x: "iv_set ?x = S" using shape_descr(2)[OF sh BvDescr] mkRaw_set by simp
    have "iv_ok ?x" "?x \<noteq> []" using iv_okI[OF mkRaw_from] fd_rep_subset[OF assms] x False by auto
    then show ?thesis using getAsList_arrays[of ?x] x BvDescr ne by (simp add: getAsList_def getAsList_bv_iv)
  next
    case (IvDescr iv)
    then show ?thesis using getAsList_arrays[of iv] shape_descr(1)[OF sh IvDescr] ne by (simp add: getAsList_def)
  qed
qed

end
