(* ===== verification/FiniteDomainProps.thy ===== *)
theory FiniteDomainProps
  imports FiniteDomainDescr
begin

text \<open>
  The properties of the finite-domain kernel (\<^verbatim>\<open>platform/emulator/fdomn.cc\<close>) with an instance
  of each on three concrete domains: an interval, a bit vector and an interval array. The
  domains are the ones \<^const>\<open>initDescr\<close> builds from the descriptions \<^verbatim>\<open>[3#9]\<close>, \<^verbatim>\<open>[1#3 7]\<close> and
  \<^verbatim>\<open>[1#3 2000 7]\<close> with the initial globals of the kernel.
\<close>

section \<open>Three domains\<close>

definition ex_range :: OZ_FiniteDomain where
  "ex_range = \<lparr>min_elem = 3, max_elem = 9, fd_size = 7, descr = FdDescr\<rparr>"

definition ex_bits :: OZ_FiniteDomain where
  "ex_bits = \<lparr>min_elem = 1, max_elem = 7, fd_size = 4, descr = BvDescr [142]\<rparr>"

definition ex_ivs :: OZ_FiniteDomain where
  "ex_ivs = \<lparr>min_elem = 1, max_elem = 2000, fd_size = 5,
     descr = IvDescr [mk_iv 1 3, mk_iv 7 7, mk_iv 2000 2000]\<rparr>"

lemma ex_eval:
  "initDescr initFDs new_fd (mkList [oz_pairII 3 9]) = Some (ex_range, 7)"
  "initDescr initFDs new_fd (mkList [oz_pairII 1 3, SmallInt 7]) = Some (ex_bits, 4)"
  "initDescr initFDs new_fd (mkList [oz_pairII 1 3, SmallInt 2000, SmallInt 7]) = Some (ex_ivs, 5)"
  by code_simp+

lemma ex_denote:
  "descrSet (mkList [oz_pairII 3 9]) = Some {3..9}"
  "descrSet (mkList [oz_pairII 1 3, SmallInt 7]) = Some ({1..3} \<union> {7})"
  "descrSet (mkList [oz_pairII 1 3, SmallInt 2000, SmallInt 7]) = Some ({1..3} \<union> {7, 2000})"
  by (auto simp: oz_pairII_def boundTerm_def fd_sup_def)

lemma ex_rep:
  "fd_rep initFDs ex_range {3..9}"
  "fd_rep initFDs ex_bits ({1..3} \<union> {7})"
  "fd_rep initFDs ex_ivs ({1..3} \<union> {7, 2000})"
  using initDescr_refines[OF initFDs_ok _ ex_denote(1), of new_fd]
    initDescr_refines[OF initFDs_ok _ ex_denote(2), of new_fd]
    initDescr_refines[OF initFDs_ok _ ex_denote(3), of new_fd] ex_eval by auto

lemmas ex_facts = ex_rep initFDs_ok


section \<open>The operators refine the set operations\<close>

text \<open>
  The kernel's own check \<^verbatim>\<open>isConsistent\<close>, which debugging builds assert after every operation, asks for
  more than \<open>fd_rep\<close>: an interval array must have an element beyond the bit vectors.
\<close>

lemma isConsistent_rep:
  assumes "fd_rep g d S"
  shows "isConsistent g d \<longleftrightarrow> \<not> (S \<noteq> {} \<and> max_elem d \<le> fd_bv_max_elem g \<and> (\<exists>iv. descr d = IvDescr iv))"
proof (cases "S = {}")
  case True
  then show ?thesis using assms by (simp add: isConsistent_def fd_rep_def)
next
  case False
  have sh: "fd_shape g d S" by (rule fd_rep_shape[OF False assms])
  note f = fd_shape_facts[OF sh]
  have m: "min_elem d = Min S" "max_elem d = Max S" using sh by (simp_all add: fd_shape_def)
  show ?thesis
  proof (cases "descr d")
    case FdDescr
    then have "isSingleInterval d" using shape_interval[OF sh] fd_shape_single[OF sh] by simp
    then show ?thesis using FdDescr by (simp add: isConsistent_def isSingleInterval_def findSize_def)
  next
    case (BvDescr bv)
    have b: "bv_set bv = S" using shape_descr(2)[OF sh BvDescr] by simp
    then show ?thesis using BvDescr f(10) m False findMinElem_bv_Min[of bv] findMaxElem_bv_Max[of bv "fst (findMaxElem_bv bv)" "snd (findMaxElem_bv bv)"]
      by (simp add: isConsistent_def findSize_bv_card)
  next
    case (IvDescr iv)
    have b: "iv_ok iv" "iv_set iv = S" using shape_descr(1)[OF sh IvDescr] by simp_all
    then have "isConsistent_iv iv" "iv \<noteq> []" using False by (auto simp: iv_ok_def)
    then show ?thesis using IvDescr f(10) m False b findSize_iv_card[of iv] findMinElem_iv_Min[of iv] findMaxElem_iv_Max[of iv]
      by (auto simp: isConsistent_def)
  qed
qed

text \<open>Where an intersection ends up in an array.\<close>

lemma reduce_bv: "descr (reduce (setBv b d)) \<noteq> IvDescr iv"
  by (simp add: reduce_def setBv_def Let_def case_prod_unfold)

lemma reduce_iv: "descr (reduce (setIv z d)) \<in> {FdDescr, IvDescr z}"
  by (simp add: reduce_def setIv_def)

lemma intersection_array:
  assumes "fd_rep g d S" "fd_rep g y T" "S \<noteq> {}" "T \<noteq> {}" "e \<in> {fst (op_and_assign g d y), op_and g d y}"
    "fd_rep g e (S \<inter> T)" "S \<inter> T \<noteq> {}"
  shows "(\<exists>iv. descr e = IvDescr iv) \<longleftrightarrow>
    fd_bv_max_elem g < Max S \<and> fd_bv_max_elem g < Max T \<and> S \<inter> T \<noteq> {Min (S \<inter> T)..Max (S \<inter> T)}"
proof -
  have sh: "fd_shape g d S" "fd_shape g y T" "fd_shape g e (S \<inter> T)"
    by (rule fd_rep_shape[OF assms(3,1)], rule fd_rep_shape[OF assms(4,2)], rule fd_rep_shape[OF assms(7,6)])
  have m: "max_elem d = Max S" "max_elem y = Max T" "min_elem e = Min (S \<inter> T)" "max_elem e = Max (S \<inter> T)"
    using sh by (simp_all add: fd_shape_def)
  have ne: "\<not> (eq_state d fd_empty \<or> eq_state y fd_empty)" using eq_state_empty assms(1-4) by blast
  have single: "isSingleInterval e \<longleftrightarrow> S \<inter> T = {Min (S \<inter> T)..Max (S \<inter> T)}" using fd_shape_single[OF sh(3)] m by simp
  have fd: "descr e = FdDescr \<longleftrightarrow> isSingleInterval e"
    using assms(6,7) shape_interval[OF sh(3)] fd_shape_single[OF sh(3)] by (auto simp: fd_rep_def)
  show ?thesis
  proof (cases "descr d = FdDescr \<and> descr y = FdDescr")
    case True
    then have "S \<inter> T = {max (min_elem d) (min_elem y)..min (max_elem d) (max_elem y)}"
      using shape_interval[OF sh(1)] shape_interval[OF sh(2)] by auto
    moreover have "{a..b} = {Min {a..b}..Max {a..b}}" if "{a..b} \<noteq> {}" for a b :: int
    proof -
      have "Min {a..b} = a" "Max {a..b} = b" using that by (auto intro: Min_eqI Max_eqI)
      then show ?thesis by simp
    qed
    ultimately have "S \<inter> T = {Min (S \<inter> T)..Max (S \<inter> T)}" using assms(7) by metis
    then show ?thesis using fd single by auto
  next
    case nr: False
    show ?thesis
    proof (cases "min (max_elem d) (max_elem y) > fd_bv_max_elem g")
      case True
      obtain z n where z: "intersect_iv (asIntervals d) (asIntervals y) = (z, n)" by fastforce
      have "e = reduce (setIv z (d\<lparr>fd_size := n\<rparr>)) \<or> e = reduce (setIv z (new_fd\<lparr>fd_size := n\<rparr>))"
        using assms(5) ne nr True z by (auto simp: op_and_assign_def op_and_def)
      then have "(\<exists>iv. descr e = IvDescr iv) \<or> descr e = FdDescr" using reduce_iv by fastforce
      then show ?thesis using True m fd single by auto
    next
      case small: False
      obtain z n where z: "intersect_bv (asBitVector g d) (asBitVector g y) = (z, n)" by fastforce
      have "e = reduce (setBv z (d\<lparr>fd_size := n\<rparr>)) \<or> e = reduce (setBv z (new_fd\<lparr>fd_size := n\<rparr>))"
        using assms(5) ne nr small z by (auto simp: op_and_assign_def op_and_def)
      then show ?thesis using reduce_bv small m by auto
    qed
  qed
qed

text \<open>
  C1: intersection. Both forms of the operator (\<^verbatim>\<open>&=\<close> and \<^verbatim>\<open>&\<close>), applied to domains that
  represent \<open>S\<close> and \<open>T\<close> in any of the three forms, give a domain that represents \<open>S \<inter> T\<close>: its bounds,
  its size and its form are right; the first returns the number of its elements. The check
  \<^verbatim>\<open>isConsistent\<close> that debugging builds assert on these results passes except exactly when
  \<open>S\<close> and \<open>T\<close> both have an element beyond the bit vectors, their intersection has elements but none there, and it
  is not an interval: then the result stays an interval array although it should be a bit vector.
\<close>

theorem fd_intersection:
  assumes "fd_rep g d S" "fd_rep g y T" "fd_globals_ok g"
  shows "refines_set g (op_and_assign g d y) (S \<inter> T) \<and> fd_rep g (op_and g d y) (S \<inter> T) \<and>
    (\<forall>e. e = fst (op_and_assign g d y) \<or> e = op_and g d y \<longrightarrow>
      (isConsistent g e \<longleftrightarrow> \<not> (fd_bv_max_elem g < Max S \<and> fd_bv_max_elem g < Max T \<and> S \<inter> T \<noteq> {} \<and>
         Max (S \<inter> T) \<le> fd_bv_max_elem g \<and> S \<inter> T \<noteq> {Min (S \<inter> T)..Max (S \<inter> T)})))"
proof -
  have r: "refines_set g (op_and_assign g d y) (S \<inter> T)" "fd_rep g (op_and g d y) (S \<inter> T)"
    using op_and_assign_refines[OF assms] op_and_refines[OF assms] by blast+
  have "isConsistent g e \<longleftrightarrow> \<not> (fd_bv_max_elem g < Max S \<and> fd_bv_max_elem g < Max T \<and> S \<inter> T \<noteq> {} \<and>
      Max (S \<inter> T) \<le> fd_bv_max_elem g \<and> S \<inter> T \<noteq> {Min (S \<inter> T)..Max (S \<inter> T)})"
    if e: "e \<in> {fst (op_and_assign g d y), op_and g d y}" for e
  proof -
    have rep: "fd_rep g e (S \<inter> T)" using e r by auto
    show ?thesis
    proof (cases "S \<inter> T = {}")
      case False
      then have "max_elem e = Max (S \<inter> T)" using fd_rep_shape[OF False rep] by (simp add: fd_shape_def)
      moreover have "S \<noteq> {}" "T \<noteq> {}" using False by auto
      ultimately show ?thesis
        using isConsistent_rep[OF rep] intersection_array[OF assms(1,2) _ _ e rep False] False by auto
    qed (use isConsistent_rep[OF rep] in simp)
  qed
  then show ?thesis using r by blast
qed

theorem fd_intersection_witness:
  "refines_set initFDs (op_and_assign initFDs ex_bits ex_ivs) (({1..3} \<union> {7}) \<inter> ({1..3} \<union> {7, 2000})) \<and>
   fd_rep initFDs (op_and initFDs ex_bits ex_ivs) (({1..3} \<union> {7}) \<inter> ({1..3} \<union> {7, 2000})) \<and>
   isConsistent initFDs (op_and initFDs ex_bits ex_ivs)"
proof -
  have "Max ({1..3} \<union> {7 :: int}) = 7" by (rule Max_eqI) auto
  moreover have "fd_bv_max_elem initFDs \<ge> 7" by code_simp
  ultimately show ?thesis using fd_intersection[OF ex_rep(2,3) initFDs_ok] by (metis not_less)
qed

text \<open>C2: union. The operator \<^verbatim>\<open>|\<close> gives a well-formed domain that represents \<open>S \<union> T\<close>.\<close>

theorem fd_union:
  assumes "fd_rep g d S" "fd_rep g y T" "fd_globals_ok g"
  shows "fd_rep g (op_or g d y) (S \<union> T)"
  by (rule op_or_refines[OF assms])

theorem fd_union_witness:
  "fd_rep initFDs (op_or initFDs ex_range ex_ivs) ({3..9} \<union> ({1..3} \<union> {7, 2000}))"
  by (rule fd_union[OF ex_rep(1,3) initFDs_ok])

text \<open>
  C3: difference. The operator \<^verbatim>\<open>-=\<close>, applied to a non-empty domain, leaves a well-formed
  domain that represents \<open>S - T\<close> and returns the number of its elements.
\<close>

theorem fd_difference:
  assumes "fd_rep g d S" "fd_rep g y T" "fd_globals_ok g" "S \<noteq> {}"
  shows "refines_set g (op_minus g d y) (S - T)"
  by (rule op_minus_refines[OF assms])

theorem fd_difference_witness:
  "refines_set initFDs (op_minus initFDs ex_range ex_bits) ({3..9} - ({1..3} \<union> {7}))"
  by (rule fd_difference[OF ex_rep(1,2) initFDs_ok]) simp

text \<open>
  Complement. The operator \<^verbatim>\<open>~\<close> represents the elements between 0 and \<open>fd_sup\<close> that are
  not in the domain; twice the complement represents the domain.
\<close>

lemma fd_complement:
  assumes "fd_rep g d S" "fd_globals_ok g"
  shows "fd_rep g (op_not g d) ({0..fd_sup} - S) \<and> fd_rep g (op_not g (op_not g d)) S"
proof -
  have "{0..fd_sup} - ({0..fd_sup} - S) = S" using fd_rep_subset[OF assms(1)] by blast
  then show ?thesis
    using op_not_refines[OF assms] op_not_refines[OF op_not_refines[OF assms] assms(2)] by simp
qed

lemma fd_complement_witness:
  "fd_rep initFDs (op_not initFDs ex_bits) ({0..fd_sup} - ({1..3} \<union> {7})) \<and>
   fd_rep initFDs (op_not initFDs (op_not initFDs ex_bits)) ({1..3} \<union> {7})"
  by (rule fd_complement[OF ex_rep(2) initFDs_ok])

text \<open>
  Bounds. On a non-empty domain \<^verbatim>\<open><= n\<close> keeps exactly the elements up to \<open>n\<close> and \<^verbatim>\<open>>= n\<close>
  exactly those from \<open>n\<close> on, for every integer \<open>n\<close>, and both return the number of elements left;
  \<^verbatim>\<open>constrainBool\<close> keeps 0 and 1.
\<close>

lemma fd_bounds:
  assumes "fd_rep g d S" "fd_globals_ok g" "S \<noteq> {}"
  shows "refines_set g (op_le g d n) (S \<inter> {..n}) \<and> refines_set g (op_ge g d n) (S \<inter> {n..}) \<and>
    refines_set g (constrainBool g d) (S \<inter> {0, 1})"
proof -
  have "S \<inter> {..1} = S \<inter> {0, 1}" using fd_rep_subset[OF assms(1)] by force
  then show ?thesis using op_le_refines[OF assms] op_ge_refines[OF assms]
    by (metis constrainBool_def)
qed

lemma fd_bounds_witness:
  "refines_set initFDs (op_le initFDs ex_ivs 5) (({1..3} \<union> {7, 2000}) \<inter> {..5}) \<and>
   refines_set initFDs (op_ge initFDs ex_ivs 5) (({1..3} \<union> {7, 2000}) \<inter> {5..}) \<and>
   refines_set initFDs (constrainBool initFDs ex_ivs) (({1..3} \<union> {7, 2000}) \<inter> {0, 1})"
  by (rule fd_bounds[OF ex_rep(3) initFDs_ok]) simp

text \<open>
  One element. \<^verbatim>\<open>-= v\<close> takes out \<open>v\<close>, \<^verbatim>\<open>+= v\<close> puts it in unless it is outside the range of
  finite domains, \<^verbatim>\<open>&= v\<close> keeps only \<open>v\<close>; each leaves a well-formed domain and returns its size,
  whatever form the domain had and also when it was empty.
\<close>

lemma fd_element:
  assumes "fd_rep g d S" "fd_globals_ok g"
  shows "refines_set g (op_minus_int g d v) (S - {v}) \<and>
    refines_set g (op_plus_int g d v) (S \<union> ({v} \<inter> {0..fd_sup})) \<and>
    refines_set g (op_and_int d v) (S \<inter> {v})"
  using op_minus_int_refines[OF assms] op_plus_int_refines[OF assms] op_and_int_refines[OF assms(1)] by blast

lemma fd_element_witness:
  "refines_set initFDs (op_minus_int initFDs ex_bits 2) (({1..3} \<union> {7}) - {2}) \<and>
   refines_set initFDs (op_plus_int initFDs ex_bits 2) (({1..3} \<union> {7}) \<union> ({2} \<inter> {0..fd_sup})) \<and>
   refines_set initFDs (op_and_int ex_bits 2) (({1..3} \<union> {7}) \<inter> {2})"
  by (rule fd_element[OF ex_rep(2) initFDs_ok])


section \<open>Queries\<close>

text \<open>
  Membership and states. \<^verbatim>\<open>isIn\<close> answers whether an element is in the domain, \<^verbatim>\<open>== fd_empty\<close>,
  \<^verbatim>\<open>== fd_singl\<close> and \<^verbatim>\<open>== fd_bool\<close> recognise the empty set, the singletons and \<open>{0, 1}\<close>, \<^verbatim>\<open>!=\<close> is
  their negation, and \<^verbatim>\<open>intersectWithBool\<close> tells which of 0 and 1 are elements.
\<close>

lemma fd_membership:
  assumes "fd_rep g d S"
  shows "(isIn d i \<longleftrightarrow> i \<in> S) \<and> (eq_state d fd_empty \<longleftrightarrow> S = {}) \<and> (eq_state d fd_singl \<longleftrightarrow> card S = 1) \<and>
    (eq_state d fd_bool \<longleftrightarrow> S = {0, 1}) \<and> (ne_state d s \<longleftrightarrow> \<not> eq_state d s) \<and>
    intersectWithBool d = (if S \<inter> {0, 1} = {0, 1} then -1 else if S \<inter> {0, 1} = {0} then 0
      else if S \<inter> {0, 1} = {1} then 1 else -2)"
  using isIn_rep[OF assms] eq_state_empty[OF assms] eq_state_singl[OF assms] eq_state_bool[OF assms]
    ne_state_neg[OF assms] intersectWithBool_rep[OF assms] by blast

lemma fd_membership_witness:
  "(isIn ex_bits 2 \<longleftrightarrow> 2 \<in> {1..3} \<union> {7 :: int}) \<and> (eq_state ex_bits fd_empty \<longleftrightarrow> {1..3} \<union> {7 :: int} = {}) \<and>
   (eq_state ex_bits fd_singl \<longleftrightarrow> card ({1..3} \<union> {7 :: int}) = 1) \<and>
   (eq_state ex_bits fd_bool \<longleftrightarrow> {1..3} \<union> {7 :: int} = {0, 1}) \<and>
   (ne_state ex_bits fd_empty \<longleftrightarrow> \<not> eq_state ex_bits fd_empty) \<and>
   intersectWithBool ex_bits = (if ({1..3} \<union> {7 :: int}) \<inter> {0, 1} = {0, 1} then -1
      else if ({1..3} \<union> {7 :: int}) \<inter> {0, 1} = {0} then 0
      else if ({1..3} \<union> {7 :: int}) \<inter> {0, 1} = {1} then 1 else -2)"
  by (rule fd_membership[OF ex_rep(2)])

text \<open>
  Iteration. From the smallest element on, \<^verbatim>\<open>nextLargerElem\<close> visits every element of a
  non-empty domain once, in ascending order, and then answers -1.
\<close>

lemma fd_iteration:
  assumes "fd_rep g d S" "S \<noteq> {}"
  shows "walk (nextLargerElem d) (nat (fd_size d)) (min_elem d) = sorted_list_of_set S \<and>
    nextLargerElem d (max_elem d) = -1 \<and> nextSmallerElem d (min_elem d) = -1"
proof -
  have sh: "fd_shape g d S" by (rule fd_rep_shape[OF assms(2,1)])
  note f = fd_shape_facts[OF sh]
  have nonneg: "0 \<le> i" if "i \<in> S" for i using f(6)[OF that] f(8) by simp
  have nl: "next_larger S v (nextLargerElem d v)" if "v \<in> S" for v
    using next_shape(2)[OF sh] nonneg[OF that] by simp
  have "walk (nextLargerElem d) (card S) (Min S) = sorted_list_of_set S"
    by (rule walk_all[OF f(1) nonneg nl assms(2)])
  then have "walk (nextLargerElem d) (nat (fd_size d)) (min_elem d) = sorted_list_of_set S"
    using f(10) sh by (simp add: fd_shape_def)
  moreover have "\<not> (\<exists>i \<in> S. max_elem d < i)" "\<not> (\<exists>i \<in> S. i < min_elem d)" using f(6,7) by fastforce+
  ultimately show ?thesis using next_shape[OF sh] nonneg[OF f(4)]
    by (simp add: next_larger_def next_smaller_def)
qed

lemma fd_iteration_witness:
  "walk (nextLargerElem ex_bits) (nat (fd_size ex_bits)) (min_elem ex_bits) = sorted_list_of_set ({1..3} \<union> {7}) \<and>
   nextLargerElem ex_bits (max_elem ex_bits) = -1 \<and> nextSmallerElem ex_bits (min_elem ex_bits) = -1"
  by (rule fd_iteration[OF ex_rep(2)]) simp

text \<open>
  Neighbours. \<^verbatim>\<open>nextSmallerElem v\<close> is the greatest element below \<open>v\<close>, \<^verbatim>\<open>nextLargerElem v\<close> the
  least one above \<open>v\<close> (\<open>v\<close> at least -1), or -1 where there is none; \<^verbatim>\<open>lowerBound\<close> and \<^verbatim>\<open>upperBound\<close>
  of an element are the ends of the longest run of elements around it, and -1 for other values.
\<close>

lemma fd_neighbours:
  assumes "fd_rep g d S" "S \<noteq> {}" "-1 \<le> v"
  shows "next_smaller S v (nextSmallerElem d v) \<and> next_larger S v (nextLargerElem d v) \<and>
    (if v \<in> S then run_of S v (lowerBound d v) (upperBound d v) else lowerBound d v = -1 \<and> upperBound d v = -1)"
  using next_shape[OF fd_rep_shape[OF assms(2,1)]] bounds_shape[OF fd_rep_shape[OF assms(2,1)]] assms(3) by blast

lemma fd_neighbours_witness:
  "next_smaller ({1..3} \<union> {7, 2000}) 5 (nextSmallerElem ex_ivs 5) \<and>
   next_larger ({1..3} \<union> {7, 2000}) 5 (nextLargerElem ex_ivs 5) \<and>
   (if 5 \<in> {1..3} \<union> {7, 2000 :: int} then run_of ({1..3} \<union> {7, 2000}) 5 (lowerBound ex_ivs 5) (upperBound ex_ivs 5)
    else lowerBound ex_ivs 5 = -1 \<and> upperBound ex_ivs 5 = -1)"
  by (rule fd_neighbours[OF ex_rep(3)]) simp_all

text \<open>
  The middle element. On a non-empty domain \<^verbatim>\<open>midElem\<close> returns, without reading outside its
  arrays, the element nearest to the middle of the bounds, the lower one of two equally near.
\<close>

lemma fd_middle:
  assumes "fd_rep g d S" "S \<noteq> {}"
  shows "\<exists>r. midElem d = Some r \<and> nearest S ((min_elem d + max_elem d) div 2) r"
  by (rule midElem_shape[OF fd_rep_shape[OF assms(2,1)]])

lemma fd_middle_witness:
  "\<exists>r. midElem ex_bits = Some r \<and> nearest ({1..3} \<union> {7}) ((min_elem ex_bits + max_elem ex_bits) div 2) r"
  by (rule fd_middle[OF ex_rep(2)]) simp


section \<open>Descriptions\<close>

text \<open>
  C4: descriptions, in the build without \<^verbatim>\<open>DEBUG_CHECK\<close>. When a description denotes a set (elements of a list that
  are no descriptions count as nothing; its lists are shorter than \<open>2 ^ 31\<close>), \<^verbatim>\<open>initDescr\<close> returns a
  well-formed domain that represents this set, with its size. An atom that is no description is not
  reported: the domain keeps what it held and the result is -1, and \<open>k\<close> complements around it
  complement \<open>k\<close> times what the domain held. In every other case the code reads a field that is not there or
  takes a term that is no integer for one, which C++ leaves undefined.
\<close>

theorem fd_description:
  assumes "fd_globals_ok g" "descrFits t"
  shows "case descrSet t of
      Some S \<Rightarrow> \<exists>p. initDescr g d t = Some p \<and> refines_set g p S
    | None \<Rightarrow> initDescr g d t = (case unrecognised t of
          Some k \<Rightarrow> Some ((op_not g ^^ k) d, if k = 0 then -1 else fd_size ((op_not g ^^ k) d))
        | None \<Rightarrow> None)"
  using initDescr_refines[OF assms] initDescr_undefined[of t g d] initDescr_unrecognised[of t _ g d]
  by (auto split: option.split)

theorem fd_description_witness:
  "(\<exists>p. initDescr initFDs new_fd (STuple ''compl'' [mkList [oz_pairII 1 3, OzAtom ''foo'', AtomBool]]) = Some p \<and>
      refines_set initFDs p ({0..fd_sup} - {0..3})) \<and>
   initDescr initFDs ex_range (STuple ''compl'' [OzAtom ''foo'']) =
     Some (op_not initFDs ex_range, fd_size (op_not initFDs ex_range)) \<and>
   initDescr initFDs ex_range (STuple ''#'' [OzAtom ''foo'', SmallInt 3]) = None"
proof -
  have "{1..3} \<union> {0, 1} = {0..3 :: int}" "{1..3} \<inter> {0..fd_sup} = {1..3}" by (auto simp: fd_sup_def)
  then have d: "descrSet (STuple ''compl'' [mkList [oz_pairII 1 3, OzAtom ''foo'', AtomBool]]) = Some ({0..fd_sup} - {0..3})"
    "descrFits (STuple ''compl'' [mkList [oz_pairII 1 3, OzAtom ''foo'', AtomBool]])"
    by (simp_all add: oz_pairII_def boundTerm_def)
  have "descrSet (STuple ''#'' [OzAtom ''foo'', SmallInt 3]) = None" by (simp add: boundTerm_def)
  then show ?thesis
    using fd_description[OF initFDs_ok d(2), of new_fd, unfolded d(1) option.case]
      fd_description[OF initFDs_ok, of "STuple ''compl'' [OzAtom ''foo'']" ex_range]
      fd_description[OF initFDs_ok, of "STuple ''#'' [OzAtom ''foo'', SmallInt 3]" ex_range]
    by (intro conjI) (assumption | simp del: initDescr.simps mkList.simps)+
qed

text \<open>
  C5: round trip. The list \<^verbatim>\<open>getAsList\<close> gives of a domain is a description from which \<^verbatim>\<open>initDescr\<close>
  builds a domain that represents the same set, and it returns the size of the domain.
\<close>

theorem fd_round_trip:
  assumes "fd_rep g d S" "fd_globals_ok g"
  shows "\<exists>e. initDescr g d' (getAsList d) = Some (e, fd_size d) \<and> fd_rep g e S"
proof -
  have "descrSet (getAsList d) = Some S" "descrFits (getAsList d)" using getAsList_denotes[OF assms(1)] by auto
  then obtain e n where "initDescr g d' (getAsList d) = Some (e, n)" "fd_rep g e S" "n = int (card S)"
    using initDescr_refines[OF assms(2), of "getAsList d" S d'] by auto
  then show ?thesis using fd_rep_size[OF assms(1)] by auto
qed

theorem fd_round_trip_witness:
  "\<exists>e. initDescr initFDs new_fd (getAsList ex_ivs) = Some (e, fd_size ex_ivs) \<and>
     fd_rep initFDs e ({1..3} \<union> {7, 2000})"
  by (rule fd_round_trip[OF ex_rep(3) initFDs_ok])


section \<open>Initialisation and globals\<close>

text \<open>
  Globals. The globals \<^verbatim>\<open>initFDs\<close> sets are consistent, and \<^verbatim>\<open>reInitFDs\<close> keeps them so for
  every threshold that leaves the bit vectors below \<open>fd_sup\<close>; the longest bit vector then has room
  for every element up to \<^verbatim>\<open>fd_bv_max_elem\<close>, and the conversion arrays have room for every run of
  a bit vector and one more.
\<close>

lemma fd_globals_fit:
  assumes "fd_globals_ok g" "t < fd_sup - 31"
  shows "fd_globals_ok (reInitFDs t g) \<and>
    (\<forall>m. m \<le> fd_bv_max_elem g \<longrightarrow> word32 m \<le> fd_bv_max_high g) \<and>
    (\<forall>b. 0 < length b \<and> int (length b) \<le> fd_bv_max_high g \<longrightarrow> int (length (mkRaw b)) + 1 \<le> fd_bv_conv_max_high g)"
proof -
  have "int (length (mkRaw b)) + 1 \<le> fd_bv_conv_max_high g"
    if b: "0 < length b" "int (length b) \<le> fd_bv_max_high g" for b
  proof -
    have "0 < fd_bv_max_high g" using b by linarith
    moreover have "fd_bv_max_elem g = 32 * fd_bv_max_high g - 1"
      "fd_bv_conv_max_high g = c_div (fd_bv_max_elem g) 2 + 2" using assms(1) by (auto simp: fd_globals_ok_def)
    ultimately have "fd_bv_conv_max_high g = 16 * fd_bv_max_high g + 1" by (simp add: c_div_nonneg)
    then show ?thesis using mkRaw_length[of b] b(2) by linarith
  qed
  then show ?thesis using reInitFDs_ok[OF assms] word32_le_high[OF _ assms(1)] by blast
qed

lemma fd_globals_fit_witness:
  "fd_globals_ok initFDs \<and> fd_globals_ok (reInitFDs 100 initFDs) \<and>
   word32 60 \<le> fd_bv_max_high initFDs \<and>
   int (length (mkRaw [5, 7])) + 1 \<le> fd_bv_conv_max_high initFDs"
proof -
  have "60 \<le> fd_bv_max_elem initFDs" "2 \<le> fd_bv_max_high initFDs"
    by code_simp+
  then show ?thesis
    using fd_globals_fit[OF initFDs_ok, of 100] initFDs_ok by (auto simp: fd_sup_def)
qed

section \<open>The representations\<close>

text \<open>
  Interval arrays. On consistent arrays the merge of two arrays, their intersection and
  their difference are consistent and have the elements of the union, intersection and difference,
  return their number, and need no more entries than the caller reserves.
\<close>

lemma iv_algebra:
  assumes "iv_ok xs" "iv_ok ys"
  shows "(case union_iv xs ys of (z, n) \<Rightarrow> iv_ok z \<and> iv_set z = iv_set xs \<union> iv_set ys \<and>
      n = int (card (iv_set z)) \<and> length z \<le> length xs + length ys) \<and>
    (case intersect_iv xs ys of (z, n) \<Rightarrow> iv_ok z \<and> iv_set z = iv_set xs \<inter> iv_set ys \<and>
      n = int (card (iv_set z)) \<and> length z \<le> length xs + length ys - 1) \<and>
    (case subtract_iv xs ys of (z, n) \<Rightarrow> iv_ok z \<and> iv_set z = iv_set xs - iv_set ys \<and>
      n = int (card (iv_set z)) \<and> length z \<le> length xs + length ys)"
proof -
  have f: "iv_from (-1) xs" "iv_from (-1) ys" "iv_set xs \<subseteq> {0..fd_sup}" "iv_set ys \<subseteq> {0..fd_sup}"
    using assms iv_ok_subset by (auto simp: iv_ok_from)
  have u: "iv_from (-1) (union_loop (-1) xs ys)" "iv_set (union_loop (-1) xs ys) = iv_set xs \<union> iv_set ys"
    using union_loop_from[OF f(1,2)] by auto
  have i: "iv_from (-1) (intersect_loop xs ys)" "iv_set (intersect_loop xs ys) = iv_set xs \<inter> iv_set ys"
    using intersect_loop_from[OF f(1,2)] intersect_loop_set[OF f(1,2)] by auto
  have s: "iv_from (-1) (subtract_loop xs ys)" "iv_set (subtract_loop xs ys) = iv_set xs - iv_set ys"
    using subtract_loop_spec[OF f(1,2)] by auto
  have "iv_ok (union_loop (-1) xs ys)" "iv_ok (intersect_loop xs ys)" "iv_ok (subtract_loop xs ys)"
    using iv_okI[OF u(1)] iv_okI[OF i(1)] iv_okI[OF s(1)] u(2) i(2) s(2) f(3,4) by blast+
  then show ?thesis
    using u i s length_union_loop length_intersect_loop length_subtract_loop findSize_iv_from
    by (simp add: union_iv_def intersect_iv_def subtract_iv_def Let_def)
qed

lemma iv_algebra_witness:
  "(case union_iv [mk_iv 1 3, mk_iv 7 7] [mk_iv 2 5] of (z, n) \<Rightarrow>
      iv_ok z \<and> iv_set z = iv_set [mk_iv 1 3, mk_iv 7 7] \<union> iv_set [mk_iv 2 5] \<and>
      n = int (card (iv_set z)) \<and> length z \<le> length [mk_iv 1 3, mk_iv 7 7] + length [mk_iv 2 5]) \<and>
   (case intersect_iv [mk_iv 1 3, mk_iv 7 7] [mk_iv 2 5] of (z, n) \<Rightarrow>
      iv_ok z \<and> iv_set z = iv_set [mk_iv 1 3, mk_iv 7 7] \<inter> iv_set [mk_iv 2 5] \<and>
      n = int (card (iv_set z)) \<and> length z \<le> length [mk_iv 1 3, mk_iv 7 7] + length [mk_iv 2 5] - 1) \<and>
   (case subtract_iv [mk_iv 1 3, mk_iv 7 7] [mk_iv 2 5] of (z, n) \<Rightarrow>
      iv_ok z \<and> iv_set z = iv_set [mk_iv 1 3, mk_iv 7 7] - iv_set [mk_iv 2 5] \<and>
      n = int (card (iv_set z)) \<and> length z \<le> length [mk_iv 1 3, mk_iv 7 7] + length [mk_iv 2 5])"
  by (rule iv_algebra) (simp_all add: iv_ok_def fd_sup_def)

text \<open>
  Complement of an interval array. It is consistent, has exactly the other elements of the
  range of finite domains, and has exactly as many entries as \<^verbatim>\<open>operator ~\<close> reserves.
\<close>

lemma iv_complement:
  assumes "iv_ok xs" "xs \<noteq> []"
  shows "iv_ok (complement_iv xs) \<and> iv_set (complement_iv xs) = {0..fd_sup} - iv_set xs \<and>
    int (length (complement_iv xs)) = int (length xs) - 1
      + (if fd_inf < findMinElem_iv xs then 1 else 0) + (if findMaxElem_iv xs < fd_sup then 1 else 0)"
proof -
  have "iv_from (-1) (complement_iv xs)" "iv_set (complement_iv xs) = {0..fd_sup} - iv_set xs"
    using complement_iv_spec[OF assms] by auto
  moreover from this have "iv_ok (complement_iv xs)" using iv_okI by blast
  moreover have "isConsistent_iv xs" using assms(1) by (simp add: iv_ok_def)
  ultimately show ?thesis using length_complement_iv assms(2) by simp
qed

lemma iv_complement_witness:
  "iv_ok (complement_iv [mk_iv 1 3, mk_iv 7 7]) \<and>
   iv_set (complement_iv [mk_iv 1 3, mk_iv 7 7]) = {0..fd_sup} - iv_set [mk_iv 1 3, mk_iv 7 7] \<and>
   int (length (complement_iv [mk_iv 1 3, mk_iv 7 7])) = int (length [mk_iv 1 3, mk_iv 7 7]) - 1
      + (if fd_inf < findMinElem_iv [mk_iv 1 3, mk_iv 7 7] then 1 else 0)
      + (if findMaxElem_iv [mk_iv 1 3, mk_iv 7 7] < fd_sup then 1 else 0)"
  by (rule iv_complement) (simp_all add: iv_ok_def fd_sup_def)

text \<open>
  Bit vectors. The size of a bit vector, counted byte by byte through the table, is the number
  of its bits; the halving searches find its least and its greatest element, the vector trimmed
  behind the latter is the same set, and an empty vector gives -1.
\<close>

lemma bv_scan:
  "findSize_bv b = int (card (bv_set b)) \<and>
   (if bv_set b = {} then findMinElem_bv b = -1 \<and> findMaxElem_bv b = ([], -1)
    else findMinElem_bv b = Min (bv_set b) \<and> snd (findMaxElem_bv b) = Max (bv_set b) \<and>
      bv_set (fst (findMaxElem_bv b)) = bv_set b \<and> length (fst (findMaxElem_bv b)) \<le> length b)"
proof (cases "bv_set b = {}")
  case True
  then show ?thesis using findSize_bv_card findMinElem_bv_empty findMaxElem_bv_empty by simp
next
  case False
  then show ?thesis
    using findSize_bv_card findMinElem_bv_Min findMaxElem_bv_Max[OF False prod.collapse[symmetric]] by simp
qed

text \<open>
  Conversions. A well-formed domain gives an interval array with the same elements, and a bit
  vector with its elements up to \<^verbatim>\<open>fd_bv_max_elem\<close>, no longer than the kernel allows; the runs
  \<^verbatim>\<open>mkRaw\<close> writes for a bit vector are a consistent interval array of the same set.
\<close>

lemma fd_conversions:
  assumes "fd_rep g d S" "S \<noteq> {}" "fd_globals_ok g"
  shows "iv_ok (asIntervals d) \<and> iv_set (asIntervals d) = S \<and>
    bv_set (asBitVector g d) = S \<inter> {..fd_bv_max_elem g} \<and>
    int (length (asBitVector g d)) \<le> fd_bv_max_high g \<and>
    isConsistent_iv (raw_iv (mkRaw b)) \<and> iv_set (raw_iv (mkRaw b)) = bv_set b"
  using asIntervals_spec[OF fd_rep_shape[OF assms(2,1)]] asBitVector_spec[OF fd_rep_shape[OF assms(2,1)] assms(3)]
    mkRaw_from mkRaw_set consistent_ex_from by blast

lemma fd_conversions_witness:
  "iv_ok (asIntervals ex_bits) \<and> iv_set (asIntervals ex_bits) = {1..3} \<union> {7} \<and>
   bv_set (asBitVector initFDs ex_bits) = ({1..3} \<union> {7}) \<inter> {..fd_bv_max_elem initFDs} \<and>
   int (length (asBitVector initFDs ex_bits)) \<le> fd_bv_max_high initFDs \<and>
   isConsistent_iv (raw_iv (mkRaw [142])) \<and> iv_set (raw_iv (mkRaw [142])) = bv_set [142]"
  by (rule fd_conversions[OF ex_rep(2) _ initFDs_ok]) simp

text \<open>
  C6: sorting. For every strict weak order and every array of at most \<open>2 ^ 31\<close> entries \<^verbatim>\<open>fastsort\<close>
  returns, never reads or writes outside the array and never overflows its stack of 32 segments,
  and the result is an ordered permutation of the array.
\<close>

theorem fastsort_sorts:
  assumes "sort_order lt" "length x \<le> 2 ^ 31"
  shows "\<exists>y. fastsort lt x (length x) = Some y \<and> mset y = mset x \<and> sorted_wrt (\<lambda>a b. \<not> lt b a) y"
  using sort_order.fastsort_spec[OF assms] sort_order.le_def[OF assms(1)]
  by (metis (no_types, lifting) sorted_wrt_iff_nth_less)

theorem fastsort_sorts_witness:
  "\<exists>y. fastsort (<) [5, 3, 9 :: int, 1] (length [5, 3, 9 :: int, 1]) = Some y \<and> mset y = mset [5, 3, 9, 1] \<and>
     sorted_wrt (\<lambda>a b. \<not> b < a) y"
  by (rule fastsort_sorts) (unfold_locales, auto)

text \<open>
  Simplification. For every list of ranges with ends \<open>0 \<le> left \<le> right\<close>, \<^verbatim>\<open>simplify\<close> gives a
  consistent interval array (ascending, with a gap between any two intervals) of the same elements.
\<close>

lemma simplify_merges:
  assumes "0 < n" "n \<le> 2 ^ 31" "\<And>i. i < n \<Longrightarrow> 0 \<le> ls ! i \<and> ls ! i \<le> rs ! i"
  shows "\<exists>conv. simplify n ls rs = Some conv \<and> isConsistent_iv (raw_iv conv) \<and>
    iv_set (raw_iv conv) = (\<Union>i < n. {ls ! i..rs ! i})"
  using simplify_spec[OF assms] consistent_ex_from by blast

lemma simplify_merges_witness:
  "\<exists>conv. simplify 2 [5, 1] [9, 4] = Some conv \<and> isConsistent_iv (raw_iv conv) \<and>
     iv_set (raw_iv conv) = (\<Union>i < 2. {[5, 1 :: int] ! i..[9, 4] ! i})"
  by (rule simplify_merges) (auto simp: less_2_cases_iff)


section \<open>Two limits of the kernel\<close>

text \<open>
  Empty domains keep their bounds. The differences that empty an interval, and an empty
  range, do not reset the bounds; \<^verbatim>\<open><=\<close> then computes a size from them, so that a domain that was
  empty is not empty any more. The operators have to be followed by a test for emptiness.
\<close>

lemma fd_stale_bounds:
  "\<exists>d y. fd_rep initFDs d {3..5} \<and> fd_rep initFDs y {1..10} \<and>
     fd_rep initFDs (fst (op_minus initFDs d y)) {} \<and>
     fd_rep initFDs (fst (op_le initFDs (fst (op_minus initFDs d y)) 4)) {3, 4}"
proof -
  let ?d = "fst (initRange new_fd 3 5)" and ?y = "fst (initRange new_fd 1 10)"
  have s: "{3..5} \<inter> {0..fd_sup} = {3..5}" "{1..10} \<inter> {0..fd_sup} = {1..10}" by (auto simp: fd_sup_def)
  have d: "fd_rep initFDs ?d {3..5}" "fd_rep initFDs ?y {1..10}"
    using initRange_spec[of initFDs new_fd 3 5] initRange_spec[of initFDs new_fd 1 10] unfolding s by auto
  have m: "fst (op_minus initFDs ?d ?y) = \<lparr>min_elem = 3, max_elem = 5, fd_size = 0, descr = FdDescr\<rparr>"
    by code_simp
  have e: "fst (op_le initFDs \<lparr>min_elem = 3, max_elem = 5, fd_size = 0, descr = FdDescr\<rparr> 4)
      = \<lparr>min_elem = 3, max_elem = 4, fd_size = 2, descr = FdDescr\<rparr>"
    by code_simp
  have "{3..4} = {3, 4 :: int}" by auto
  then have "fd_rep initFDs \<lparr>min_elem = 3, max_elem = 4, fd_size = 2, descr = FdDescr\<rparr> {3, 4}"
    using rep_interval[of "\<lparr>min_elem = 3, max_elem = 4, fd_size = 2, descr = FdDescr\<rparr>" initFDs]
    by (simp add: findSize_def fd_sup_def)
  moreover have "fd_rep initFDs \<lparr>min_elem = 3, max_elem = 5, fd_size = 0, descr = FdDescr\<rparr> {}"
    by (simp add: fd_rep_def)
  ultimately show ?thesis using d m e by metis
qed

text \<open>
  Intersection and the internal check. Two domains that pass \<^verbatim>\<open>isConsistent\<close> whose intersection does
  not: it is not turned into a bit vector when its elements have become small.
\<close>

lemma fd_intersection_unchecked:
  "\<exists>d y. isConsistent initFDs d \<and> isConsistent initFDs y \<and>
     \<not> isConsistent initFDs (fst (op_and_assign initFDs d y))"
proof -
  let ?d = "\<lparr>min_elem = 0, max_elem = 2000, fd_size = 8, descr = IvDescr [mk_iv 0 5, mk_iv 10 10, mk_iv 2000 2000]\<rparr>"
  let ?y = "\<lparr>min_elem = 0, max_elem = 4000, fd_size = 8, descr = IvDescr [mk_iv 0 5, mk_iv 10 10, mk_iv 4000 4000]\<rparr>"
  have "isConsistent initFDs ?d" "isConsistent initFDs ?y" "\<not> isConsistent initFDs (fst (op_and_assign initFDs ?d ?y))"
    by code_simp+
  then show ?thesis by blast
qed

end
