(* ===== verification/FSetBase.thy ===== *)
theory FSetBase
  imports FiniteDomainDescr
begin

text \<open>
  The helper functions at the top of \<^verbatim>\<open>platform/emulator/fset.cc\<close> and the two forms the kernel
  keeps a set of integers in. The normal form is \<^verbatim>\<open>fset_high\<close> words for the elements below
  \<^verbatim>\<open>32 * fset_high\<close> and one flag that says whether all elements above are in the set; the
  extended form is a finite domain. The locale \<open>set_algebra\<close> is what the sets and the
  constraints built on them use of either form; it is interpreted on the finite-domain kernel
  and on the words with their flag.

  The sources are compiled with \<^verbatim>\<open>BIGFSET\<close> (\<^verbatim>\<open>mozart_cpi.hh\<close>); the branches without it are not
  modelled.
\<close>

section \<open>Constants and words\<close>

definition fset_high :: nat where
  "fset_high = 2"

definition fs_sup :: int where
  "fs_sup = 134217726"

text \<open>The expression \<^verbatim>\<open>32 * fset_high\<close>.\<close>

definition fs_limit :: int where
  "fs_limit = 32 * int fset_high"

definition size_of_other :: int where
  "size_of_other = fs_sup - 32 * int fset_high + 1"

definition findBitsSet :: "int32 list \<Rightarrow> int" where
  "findBitsSet bv = int (get_num_of_bits fset_high bv)"

definition testBit_fs :: "int32 list \<Rightarrow> int \<Rightarrow> bool" where
  "testBit_fs bv i =
     (if i \<ge> fs_limit \<or> i < 0 then False else bv ! widx i AND push_bit (bidx i) 1 \<noteq> 0)"

definition setBit_fs :: "int32 list \<Rightarrow> int \<Rightarrow> int32 list" where
  "setBit_fs bv i = bv[widx i := bv ! widx i OR push_bit (bidx i) 1]"

definition resetBit_fs :: "int32 list \<Rightarrow> int \<Rightarrow> int32 list" where
  "resetBit_fs bv i = bv[widx i := bv ! widx i AND NOT (push_bit (bidx i) 1)]"

definition setFromTo_fs :: "int32 list \<Rightarrow> int \<Rightarrow> int \<Rightarrow> int32 list \<times> int" where
  "setFromTo_fs bv from0 to0 =
     (let f = (if from0 < 0 then 0 else from0);
          t = (if to0 \<ge> fs_limit then fs_limit - 1 else to0)
      in if f > t then (fill_words 0 fset_high 0 bv, 0)
         else
           (let low_word = widx f; low_bit = bidx f; up_word = widx t; up_bit = bidx t;
                bv = fill_words 0 low_word 0 bv;
                bv = fill_words (up_word + 1) fset_high 0 bv;
                bv = (if low_word = up_word
                      then bv[low_word := toTheLowerEnd ! up_bit AND toTheUpperEnd ! low_bit]
                      else (let bv = bv[low_word := toTheUpperEnd ! low_bit];
                                bv = fill_words (low_word + 1) up_word (NOT 0) bv
                            in bv[up_word := toTheLowerEnd ! up_bit]))
            in (bv, t - f + 1)))"

text \<open>The loops over the words that the operators repeat.\<close>

definition and_bv :: "int32 list \<Rightarrow> int32 list \<Rightarrow> int32 list" where
  "and_bv a b = map2 (AND) a b"

definition or_bv :: "int32 list \<Rightarrow> int32 list \<Rightarrow> int32 list" where
  "or_bv a b = map2 (OR) a b"

definition not_bv :: "int32 list \<Rightarrow> int32 list" where
  "not_bv a = map NOT a"

text \<open>\<^verbatim>\<open>for (int i = fset_high; i--; ) if (a[i] & b[i]) ...\<close>\<close>

definition meet_bv :: "int32 list \<Rightarrow> int32 list \<Rightarrow> bool" where
  "meet_bv a b \<longleftrightarrow> list_ex (\<lambda>(x, y). x AND y \<noteq> 0) (zip a b)"

subsection \<open>Lists of ranges\<close>

text \<open>
  \<^verbatim>\<open>mkRaw\<close> writes the runs of the set bits, or with \<open>neg\<close> of the clear ones, to the conversion
  arrays; \<open>r\<close> is the flag "outside a run", \<open>l\<close> the start of the current run.
\<close>

function mkRaw_fs_loop :: "int32 list \<Rightarrow> bool \<Rightarrow> int \<Rightarrow> bool \<Rightarrow> int \<Rightarrow> (int \<times> int) list" where
  "mkRaw_fs_loop bv neg i r l =
     (if i \<le> fs_limit then
        (if i < fs_limit \<and> ((\<not> neg \<and> testBit_fs bv i) \<or> (neg \<and> \<not> testBit_fs bv i))
         then mkRaw_fs_loop bv neg (i + 1) False (if r then i else l)
         else if \<not> r then
           (let d = i - l
            in (if d = 1 then (l, l) else (l, i - 1)) # mkRaw_fs_loop bv neg (i + 1) True l)
         else mkRaw_fs_loop bv neg (i + 1) r l)
      else [])"
  by pat_completeness auto
termination
  by (relation "measure (\<lambda>(bv, neg, i, r, l). nat (fs_limit + 1 - i))") auto

declare mkRaw_fs_loop.simps [simp del]

definition mkRaw_fs :: "int32 list \<Rightarrow> bool \<Rightarrow> (int \<times> int) list" where
  "mkRaw_fs bv neg = mkRaw_fs_loop bv neg 0 True (-1)"

text \<open>
  \<^verbatim>\<open>getAsList\<close> joins the part above the words to the last run. With no run at all it reads
  \<^verbatim>\<open>fd_bv_right_conv[-1]\<close>: \<open>before\<close> is the integer at that address, and when it happens to be
  the last element of the words it is overwritten and the part above gets lost.
\<close>

definition getAsList_fs :: "int \<Rightarrow> int32 list \<Rightarrow> bool \<Rightarrow> bool \<Rightarrow> oz_term" where
  "getAsList_fs before bv neg other =
     (let conv = mkRaw_fs bv neg; len = length conv;
          conv = (if (other \<and> \<not> neg) \<or> (neg \<and> \<not> other) then
                    (if len = 0 then (if before = fs_limit - 1 then conv else conv @ [(fs_limit, fs_sup)])
                     else if snd (conv ! (len - 1)) = fs_limit - 1
                       then conv[len - 1 := (fst (conv ! (len - 1)), fs_sup)]
                     else conv @ [(fs_limit, fs_sup)])
                  else conv)
      in mkList (map (\<lambda>(l, r). rangeTerm l r) conv))"

subsection \<open>From words to a domain\<close>

text \<open>
  \<^verbatim>\<open>for (i ...) if (testBit(bv, i)) fd += i;\<close> over the given indices, and \<^verbatim>\<open>set_Auxin\<close>,
  \<^verbatim>\<open>set_Auxout\<close>, which do it on a static domain all of whose fields they initialise first.
\<close>

definition add_bits :: "fd_globals \<Rightarrow> int32 list \<Rightarrow> int list \<Rightarrow> OZ_FiniteDomain \<Rightarrow> OZ_FiniteDomain" where
  "add_bits g bv ixs d = fold (\<lambda>i d. if testBit_fs bv i then fst (op_plus_int g d i) else d) ixs d"

definition set_Aux :: "fd_globals \<Rightarrow> int32 list \<Rightarrow> bool \<Rightarrow> OZ_FiniteDomain" where
  "set_Aux g bv other =
     add_bits g bv [0..fs_limit - 1]
       (if other then fst (initRange new_fd fs_limit fs_sup) else fst (initEmpty new_fd))"

section \<open>What words and domains stand for\<close>

definition bits_set :: "int32 list \<Rightarrow> bool \<Rightarrow> int set" where
  "bits_set bv other = bv_set bv \<union> (if other then {fs_limit..fs_sup} else {})"

lemma fs_consts [simp]: "fset_high = 2" "fs_sup = fd_sup" "fs_limit = 64"
  by (simp_all add: fset_high_def fs_sup_def fd_sup_def fs_limit_def)

lemma limit_less_sup: "64 \<le> fd_sup"
  by (simp add: fd_sup_def)

lemma findBitsSet_card: "length bv = 2 \<Longrightarrow> findBitsSet bv = int (card (bv_set bv))"
  using findSize_bv_card[of bv] by (simp add: findBitsSet_def findSize_bv_def)

lemma testBit_fs_iff: "length bv = 2 \<Longrightarrow> testBit_fs bv i \<longleftrightarrow> i \<in> bv_set bv"
  using isIn_bv_iff[of i bv] bv_set_bounds[of i bv]
  by (auto simp: testBit_fs_def isIn_bv_def currBvMaxElem_def)

lemma setBit_fs_eq: "setBit_fs = setBit_bv" "resetBit_fs = resetBit_bv"
  by (simp_all add: fun_eq_iff setBit_fs_def setBit_bv_def resetBit_fs_def resetBit_bv_def)

lemma bv2_bounds: "length bv = 2 \<Longrightarrow> i \<in> bv_set bv \<Longrightarrow> 0 \<le> i \<and> i < 64"
  using bv_set_bounds[of i bv] by (simp add: currBvMaxElem_def)

lemma bitop_lengths [simp]:
  "length (and_bv a b) = min (length a) (length b)" "length (or_bv a b) = min (length a) (length b)"
  "length (not_bv a) = length a" "length (setBit_fs a i) = length a" "length (resetBit_fs a i) = length a"
  by (simp_all add: and_bv_def or_bv_def not_bv_def setBit_fs_def resetBit_fs_def)

lemma bv_set_ops:
  assumes "length a = length b"
  shows "bv_set (and_bv a b) = bv_set a \<inter> bv_set b" "bv_set (or_bv a b) = bv_set a \<union> bv_set b"
  by (intro bv_set_eqI; use assms in \<open>auto simp: and_bv_def or_bv_def mem_wbits bit_and_iff bit_or_iff mem_bv_set\<close>)+

lemma bv_set_not: "length a = 2 \<Longrightarrow> bv_set (not_bv a) = {0..<64} - bv_set a"
  by (intro bv_set_eqI) (auto simp: not_bv_def mem_wbits bit_not_iff mem_bv_set div_less_iff_less_mult)

lemma meet_bv_iff: "length a = length b \<Longrightarrow> meet_bv a b \<longleftrightarrow> bv_set a \<inter> bv_set b \<noteq> {}"
proof -
  assume l: "length a = length b"
  have "meet_bv a b \<longleftrightarrow> \<not> (\<forall>w \<in> set (and_bv a b). w = 0)"
    by (force simp: meet_bv_def list_ex_iff and_bv_def)
  also have "\<dots> \<longleftrightarrow> bv_set (and_bv a b) \<noteq> {}" by (simp add: bv_set_def wbits_empty_iff)
  finally show ?thesis using bv_set_ops(1)[OF l] by simp
qed

lemma setFromTo_fs_spec:
  assumes "length bv = 2"
  shows "bv_set (fst (setFromTo_fs bv a b)) = {a..b} \<inter> {0..<64} \<and> length (fst (setFromTo_fs bv a b)) = 2 \<and>
    snd (setFromTo_fs bv a b) = int (card ({a..b} \<inter> {0..<64}))"
proof -
  define f t where "f = (if a < 0 then 0 else a)" and "t = (if b \<ge> fs_limit then fs_limit - 1 else b)"
  have S: "{a..b} \<inter> {0..<64} = {f..t}" by (auto simp: f_def t_def)
  have eq: "setFromTo_fs bv a b = (if f > t then (setEmpty_bv bv, 0) else (setFromTo bv f t, t - f + 1))"
    unfolding setFromTo_fs_def setFromTo_def setEmpty_bv_def Let_def f_def[symmetric] t_def[symmetric]
    using assms by simp
  have "0 \<le> f" "t \<le> currBvMaxElem bv" using assms by (auto simp: f_def t_def currBvMaxElem_def)
  then show ?thesis using setFromTo_set[of f t bv] assms unfolding S eq by simp
qed

lemma finite_bits_set [simp]: "finite (bits_set bv other)"
  by (simp add: bits_set_def)

lemma bits_set_subset: "length bv = 2 \<Longrightarrow> bits_set bv other \<subseteq> {0..fd_sup}"
  using limit_less_sup by (auto simp: bits_set_def dest: bv2_bounds)

lemma mem_bits_set:
  "length bv = 2 \<Longrightarrow> i \<in> bits_set bv other \<longleftrightarrow> (if i < 64 then i \<in> bv_set bv else i \<le> fd_sup \<and> other)"
  using bv2_bounds[of bv i] by (auto simp: bits_set_def)

lemma bits_set_ops:
  assumes "length a = 2" "length b = 2"
  shows "bits_set (and_bv a b) (p \<and> q) = bits_set a p \<inter> bits_set b q"
    "bits_set (or_bv a b) (p \<or> q) = bits_set a p \<union> bits_set b q"
    "bits_set (not_bv a) (\<not> p) = {0..fd_sup} - bits_set a p"
proof -
  have i: "i \<in> bits_set (not_bv a) (\<not> p) \<longleftrightarrow> i \<in> {0..fd_sup} - bits_set a p" for i
    using assms bv2_bounds[of a i] limit_less_sup by (auto simp: mem_bits_set bv_set_not)
  then show "bits_set (not_bv a) (\<not> p) = {0..fd_sup} - bits_set a p" by blast
  have "i \<in> bits_set (and_bv a b) (p \<and> q) \<longleftrightarrow> i \<in> bits_set a p \<inter> bits_set b q"
    "i \<in> bits_set (or_bv a b) (p \<or> q) \<longleftrightarrow> i \<in> bits_set a p \<union> bits_set b q" for i
    using assms by (auto simp: mem_bits_set bv_set_ops)
  then show "bits_set (and_bv a b) (p \<and> q) = bits_set a p \<inter> bits_set b q"
    "bits_set (or_bv a b) (p \<or> q) = bits_set a p \<union> bits_set b q" by blast+
qed

lemma bits_set_setBit:
  "length bv = 2 \<Longrightarrow> 0 \<le> i \<Longrightarrow> i < 64 \<Longrightarrow> bits_set (setBit_fs bv i) p = insert i (bits_set bv p)"
  "length bv = 2 \<Longrightarrow> 0 \<le> i \<Longrightarrow> i < 64 \<Longrightarrow> bits_set (resetBit_fs bv i) p = bits_set bv p - {i}"
  by (auto simp: bits_set_def setBit_fs_eq setBit_bv_set resetBit_bv_set currBvMaxElem_def)

definition bits_card :: "int32 list \<Rightarrow> bool \<Rightarrow> int" where
  "bits_card bv other = findBitsSet bv + (if other then size_of_other else 0)"

lemma bits_card_eq: "length bv = 2 \<Longrightarrow> bits_card bv p = int (card (bits_set bv p))"
proof -
  assume l: "length bv = 2"
  have "bv_set bv \<inter> {64..fd_sup} = {}" using bv2_bounds[OF l] by fastforce
  then have "card (bv_set bv \<union> {64..fd_sup}) = card (bv_set bv) + card {64..fd_sup}"
    by (intro card_Un_disjoint) auto
  then show ?thesis using limit_less_sup findBitsSet_card[OF l]
    by (simp add: bits_card_def bits_set_def size_of_other_def)
qed

lemma meet_bits_iff:
  assumes "length a = 2" "length b = 2"
  shows "(p \<and> q) \<or> meet_bv a b \<longleftrightarrow> bits_set a p \<inter> bits_set b q \<noteq> {}"
proof -
  have "bits_set a p \<inter> bits_set b q = bv_set (and_bv a b) \<union> (if p \<and> q then {64..fd_sup} else {})"
    unfolding bits_set_ops(1)[OF assms, symmetric] by (simp add: bits_set_def)
  moreover have "{64..fd_sup} \<noteq> {}" using limit_less_sup by simp
  ultimately show ?thesis using meet_bv_iff[of a b] bv_set_ops(1)[of a b] assms by auto
qed

subsection \<open>The interface of the two forms\<close>

locale set_algebra =
  fixes rep :: "'a \<Rightarrow> int set \<Rightarrow> bool"
    and univ :: "int set"
    and inter :: "'a \<Rightarrow> 'a \<Rightarrow> 'a"
    and union :: "'a \<Rightarrow> 'a \<Rightarrow> 'a"
    and compl :: "'a \<Rightarrow> 'a"
    and count :: "'a \<Rightarrow> int"
    and mem :: "'a \<Rightarrow> int \<Rightarrow> bool"
  assumes univ_finite: "finite univ"
    and rep_sub: "rep a S \<Longrightarrow> S \<subseteq> univ"
    and inter_rep: "rep a S \<Longrightarrow> rep b T \<Longrightarrow> rep (inter a b) (S \<inter> T)"
    and union_rep: "rep a S \<Longrightarrow> rep b T \<Longrightarrow> rep (union a b) (S \<union> T)"
    and compl_rep: "rep a S \<Longrightarrow> rep (compl a) (univ - S)"
    and count_rep: "rep a S \<Longrightarrow> count a = int (card S)"
    and mem_rep: "rep a S \<Longrightarrow> mem a i \<longleftrightarrow> i \<in> S"
begin

lemma rep_finite: "rep a S \<Longrightarrow> finite S"
  using rep_sub univ_finite finite_subset by blast

lemma disjoint_test: "rep a S \<Longrightarrow> rep b T \<Longrightarrow> count (inter a b) = 0 \<longleftrightarrow> S \<inter> T = {}"
  using count_rep[OF inter_rep] rep_finite[of a S] by simp

lemma subset_test: "rep a S \<Longrightarrow> rep b T \<Longrightarrow> count (inter a (compl b)) = 0 \<longleftrightarrow> S \<subseteq> T"
  using disjoint_test[OF _ compl_rep] rep_sub[of a S] by fastforce

lemma subset_count:
  assumes "rep a S" "rep b T"
  shows "count (inter a b) = count a \<longleftrightarrow> S \<subseteq> T" "count (inter a b) < count a \<longleftrightarrow> \<not> S \<subseteq> T"
proof -
  have f: "finite S" "S \<inter> T \<subseteq> S" using rep_finite[OF assms(1)] by auto
  have "card (S \<inter> T) = card S \<longleftrightarrow> S \<inter> T = S" using card_subset_eq[OF f] by auto
  moreover have "card (S \<inter> T) \<le> card S" by (rule card_mono[OF f])
  ultimately show "count (inter a b) = count a \<longleftrightarrow> S \<subseteq> T" "count (inter a b) < count a \<longleftrightarrow> \<not> S \<subseteq> T"
    using count_rep[OF inter_rep[OF assms]] count_rep[OF assms(1)] by auto
qed

lemma equal_test:
  assumes "rep a S" "rep b T"
  shows "count a = count b \<and> count (inter a b) = count a \<longleftrightarrow> S = T"
proof
  assume *: "count a = count b \<and> count (inter a b) = count a"
  then have "S \<subseteq> T" using subset_count(1)[OF assms] by simp
  moreover have "card S = card T" using * count_rep assms by simp
  ultimately show "S = T" using card_subset_eq[OF rep_finite[OF assms(2)]] by blast
qed (use assms subset_count(1)[OF assms] count_rep in auto)

end

text \<open>
  The extended form: a domain of the finite-domain kernel which, when it is empty, has the
  bounds \<^verbatim>\<open>initEmpty\<close> gives it. The operators \<^verbatim>\<open>&\<close>, \<^verbatim>\<open>|\<close> and \<^verbatim>\<open>~\<close> keep this, \<^verbatim>\<open>&=\<close> does not.
\<close>

definition ext_rep :: "fd_globals \<Rightarrow> OZ_FiniteDomain \<Rightarrow> int set \<Rightarrow> bool" where
  "ext_rep g d S \<longleftrightarrow> fd_globals_ok g \<and> fd_rep g d S \<and> (S = {} \<longrightarrow> min_elem d = -1 \<and> max_elem d = -1)"

lemma ext_repI: "fd_globals_ok g \<Longrightarrow> fd_rep g d S \<Longrightarrow> S \<noteq> {} \<Longrightarrow> ext_rep g d S"
  by (simp add: ext_rep_def)

lemma ext_repD: "ext_rep g d S \<Longrightarrow> fd_rep g d S" "ext_rep g d S \<Longrightarrow> fd_globals_ok g"
  by (simp_all add: ext_rep_def)

lemma ext_rep_facts:
  assumes "ext_rep g d S"
  shows "S \<subseteq> {0..fd_sup}" "finite S" "fd_size d = int (card S)"
    "S \<noteq> {} \<Longrightarrow> min_elem d = Min S \<and> max_elem d = Max S \<and> fd_shape g d S"
  using fd_rep_subset[OF ext_repD(1)[OF assms]] fd_rep_finite[OF ext_repD(1)[OF assms]]
    fd_rep_size[OF ext_repD(1)[OF assms]] fd_rep_shape[OF _ ext_repD(1)[OF assms]]
  by (auto simp: fd_shape_def)

lemma ext_empty: "fd_globals_ok g \<Longrightarrow> ext_rep g (fst (initEmpty d)) {}"
  by (simp add: ext_rep_def init_specs(1)) (simp add: initEmpty_def)

lemma reduce_bounds [simp]: "min_elem (reduce d) = min_elem d" "max_elem (reduce d) = max_elem d"
  by (simp_all add: reduce_def)


lemma bv_bounds_empty: "bv_set z = {} \<Longrightarrow> min_elem (setBv z d) = -1 \<and> max_elem (setBv z d) = -1"
  using findMinElem_bv_empty[of z] findMaxElem_bv_empty[of z]
  by (auto simp: setBv_def Let_def split: prod.splits)


lemma op_and_clean:
  assumes "fd_rep g d S" "fd_rep g y T" "fd_globals_ok g" "S \<inter> T = {}"
  shows "min_elem (op_and g d y) = -1 \<and> max_elem (op_and g d y) = -1"
proof (cases "S = {} \<or> T = {}")
  case True
  then show ?thesis using eq_state_empty[OF assms(1)] eq_state_empty[OF assms(2)]
    by (auto simp: op_and_def new_fd_def)
next
  case False
  then have ne: "\<not> (eq_state d fd_empty \<or> eq_state y fd_empty)"
    using eq_state_empty[OF assms(1)] eq_state_empty[OF assms(2)] by simp
  have sh: "fd_shape g d S" "fd_shape g y T" using fd_rep_shape False assms by blast+
  have iv: "zi = []" if z: "intersect_iv (asIntervals d) (asIntervals y) = (zi, s)" for zi s
  proof -
    have f: "iv_from (-1) (asIntervals d)" "iv_from (-1) (asIntervals y)"
      using asIntervals_spec(1)[OF sh(1)] asIntervals_spec(1)[OF sh(2)] by (simp_all add: iv_ok_from)
    have "zi = intersect_loop (asIntervals d) (asIntervals y)" using z by (auto simp: intersect_iv_def Let_def)
    then have "iv_from (-1) zi" "iv_set zi = {}"
      using intersect_loop_from[OF f] intersect_loop_set[OF f] asIntervals_spec(2)[OF sh(1)]
        asIntervals_spec(2)[OF sh(2)] assms(4) by simp_all
    then show ?thesis by (cases zi) auto
  qed
  have bv: "bv_set zb = {}" if z: "intersect_bv (asBitVector g d) (asBitVector g y) = (zb, s)" for zb s
    using intersect_bv_spec[OF z] asBitVector_spec[OF sh(1) assms(3)] asBitVector_spec[OF sh(2) assms(3)] assms(4)
    by auto
  have rg: "max_elem d < min_elem y \<or> max_elem y < min_elem d" if "descr d = FdDescr" "descr y = FdDescr"
  proof (rule ccontr)
    assume "\<not> (max_elem d < min_elem y \<or> max_elem y < min_elem d)"
    then have "max (min_elem d) (min_elem y) \<in> S \<inter> T"
      using fd_shape_facts(5)[OF sh(1)] fd_shape_facts(5)[OF sh(2)]
      unfolding shape_interval[OF sh(1) that(1)] shape_interval[OF sh(2) that(2)] by auto
    then show False using assms(4) by simp
  qed
  show ?thesis using ne rg iv bv
    by (auto simp: op_and_def setIv_def findMinElem_iv_def findMaxElem_iv_def bv_bounds_empty Let_def
        new_fd_def split: prod.splits)
qed

lemma op_or_clean:
  assumes "fd_rep g d {}" "fd_rep g y {}" "min_elem y = -1" "max_elem y = -1"
  shows "min_elem (op_or g d y) = -1 \<and> max_elem (op_or g d y) = -1"
  using eq_state_empty[OF assms(1)] assms(3,4) by (simp add: op_or_def)

interpretation fdk: set_algebra "ext_rep g" "{0..fd_sup}" "op_and g" "op_or g" "op_not g" fd_size isIn for g
proof
  fix a b S T
  assume a: "ext_rep g a S" and b: "ext_rep g b T"
  note r = ext_repD(1)[OF a] ext_repD(1)[OF b] ext_repD(2)[OF a]
  show "ext_rep g (op_and g a b) (S \<inter> T)"
    using op_and_refines[OF r] op_and_clean[OF r] r(3) by (simp add: ext_rep_def)
  show "ext_rep g (op_or g a b) (S \<union> T)"
    using op_or_refines[OF r] op_or_clean[of g a b] r a b by (auto simp: ext_rep_def)
next
  fix a S
  assume a: "ext_rep g a S"
  note r = ext_repD(1)[OF a] ext_repD(2)[OF a]
  show "ext_rep g (op_not g a) ({0..fd_sup} - S)"
  proof (cases "{0..fd_sup} - S = {}")
    case True
    then have "S = {0..fd_sup}" using fd_rep_subset[OF r(1)] by blast
    then have "fd_size a = fd_full_size" using fd_rep_size[OF r(1)] by (simp add: fd_full_size_def)
    then have "op_not g a = fst (initEmpty new_fd)" by (simp add: op_not_def eq_state_def fd_full_size_def fd_sup_def)
    then show ?thesis unfolding True using ext_empty[OF r(2)] by simp
  next
    case False
    then show ?thesis using op_not_refines[OF r] r(2) by (simp add: ext_rep_def)
  qed
next
  fix a S and i :: int
  assume a: "ext_rep g a S"
  show "S \<subseteq> {0..fd_sup}" "fd_size a = int (card S)" by (rule ext_rep_facts[OF a])+
  show "isIn a i \<longleftrightarrow> i \<in> S" by (rule isIn_rep[OF ext_repD(1)[OF a]])
qed simp

text \<open>The normal form: two words and the flag.\<close>

definition norm_rep :: "int32 list \<times> bool \<Rightarrow> int set \<Rightarrow> bool" where
  "norm_rep p S \<longleftrightarrow> length (fst p) = 2 \<and> S = bits_set (fst p) (snd p)"

definition norm_mem :: "int32 list \<times> bool \<Rightarrow> int \<Rightarrow> bool" where
  "norm_mem p i \<longleftrightarrow> (if i < fs_limit then testBit_fs (fst p) i else i \<le> fs_sup \<and> snd p)"

interpretation nrm: set_algebra norm_rep "{0..fd_sup}"
    "\<lambda>p q. (and_bv (fst p) (fst q), snd p \<and> snd q)" "\<lambda>p q. (or_bv (fst p) (fst q), snd p \<or> snd q)"
    "\<lambda>p. (not_bv (fst p), \<not> snd p)" "\<lambda>p. bits_card (fst p) (snd p)" norm_mem
  by unfold_locales
    (auto simp: norm_rep_def bits_set_ops bits_card_eq mem_bits_set norm_mem_def testBit_fs_iff
      dest: subsetD[OF bits_set_subset])


subsection \<open>Conversions\<close>

lemma add_bits_rep:
  assumes "ext_rep g d S" "length bv = 2" "\<And>i. i \<in> set ixs \<Longrightarrow> 0 \<le> i \<and> i < 64"
  shows "ext_rep g (add_bits g bv ixs d) (S \<union> (bv_set bv \<inter> set ixs))"
  using assms(1,3)
proof (induction ixs arbitrary: d S)
  case (Cons i ixs)
  let ?d = "if testBit_fs bv i then fst (op_plus_int g d i) else d"
  let ?S = "S \<union> (bv_set bv \<inter> {i})"
  have i: "0 \<le> i" "i \<le> fd_sup" using Cons.prems(2)[of i] limit_less_sup by auto
  have "ext_rep g ?d ?S"
  proof (cases "i \<in> bv_set bv")
    case True
    then have "?S = S \<union> ({i} \<inter> {0..fd_sup})" using i by auto
    then show ?thesis using True op_plus_int_refines[OF ext_repD[OF Cons.prems(1)], of i] assms(2)
        ext_repD(2)[OF Cons.prems(1)] i by (simp add: testBit_fs_iff ext_rep_def)
  qed (use Cons.prems(1) assms(2) in \<open>simp add: testBit_fs_iff\<close>)
  then have "ext_rep g (add_bits g bv ixs ?d) (?S \<union> (bv_set bv \<inter> set ixs))"
    using Cons.IH Cons.prems(2) by simp
  moreover have "?S \<union> (bv_set bv \<inter> set ixs) = S \<union> (bv_set bv \<inter> set (i # ixs))" by auto
  moreover have "add_bits g bv (i # ixs) d = add_bits g bv ixs ?d" by (simp add: add_bits_def)
  ultimately show ?case by metis
qed (simp add: add_bits_def)

lemma ext_start: "fd_globals_ok g \<Longrightarrow>
  ext_rep g (if p then fst (initRange d fs_limit fs_sup) else fst (initEmpty d)) (if p then {64..fd_sup} else {})"
proof -
  assume g: "fd_globals_ok g"
  have "{64..fd_sup} \<inter> {0..fd_sup} = {64..fd_sup}" by auto
  then have "fd_rep g (fst (initRange d 64 fd_sup)) {64..fd_sup}" using initRange_spec[of g d 64 fd_sup] by simp
  then show ?thesis using g ext_empty[OF g] limit_less_sup by (simp add: ext_repI)
qed

lemma add_all_bits:
  assumes "fd_globals_ok g" "length bv = 2" "set ixs = {0..<64}"
  shows "ext_rep g (add_bits g bv ixs (if p then fst (initRange d fs_limit fs_sup) else fst (initEmpty d))) (bits_set bv p)"
proof -
  have "bv_set bv \<inter> {0..<64} = bv_set bv" using bv2_bounds[OF assms(2)] by fastforce
  then show ?thesis using add_bits_rep[OF ext_start[OF assms(1), of p d] assms(2), of ixs] assms(3)
    by (auto simp: bits_set_def Un_commute)
qed

lemma set_Aux_rep: "fd_globals_ok g \<Longrightarrow> length bv = 2 \<Longrightarrow> ext_rep g (set_Aux g bv p) (bits_set bv p)"
  unfolding set_Aux_def by (rule add_all_bits) auto

lemma bits_set_inj:
  assumes "length a = 2" "length b = 2" "bits_set a p = bits_set b q"
  shows "a = b \<and> p = q"
proof
  have "i \<in> bits_set a p \<longleftrightarrow> i \<in> bits_set b q" for i using assms(3) by simp
  then have m: "i < 64 \<Longrightarrow> i \<in> bv_set a \<longleftrightarrow> i \<in> bv_set b" "64 \<le> i \<Longrightarrow> i \<le> fd_sup \<Longrightarrow> p = q" for i
    using mem_bits_set[OF assms(1), of i p] mem_bits_set[OF assms(2), of i q] by auto
  then show "p = q" using m(2)[of 64] limit_less_sup by simp
  have w: "k \<in> wbits a \<longleftrightarrow> k \<in> wbits b" for k
    using m(1)[of "int k"] bv2_bounds[of a "int k"] bv2_bounds[of b "int k"] assms by (cases "k < 64") auto
  show "a = b"
  proof (rule nth_equalityI)
    fix n assume n: "n < length a"
    have "bit (a ! n) m \<longleftrightarrow> bit (b ! n) m" for m
      using w[of "32 * n + m"] n assms wbits_word[of m n] bit_imp_le_length[of "a ! n" m] bit_imp_le_length[of "b ! n" m]
      by (cases "m < 32") auto
    then show "a ! n = b ! n" by (intro bit_eqI) simp
  qed (use assms in simp)
qed

text \<open>The sets the normal form can hold.\<close>

definition simple_set :: "int set \<Rightarrow> bool" where
  "simple_set S \<longleftrightarrow> S \<inter> {64..fd_sup} = {} \<or> {64..fd_sup} \<subseteq> S"

lemma simple_bits: "length bv = 2 \<Longrightarrow> simple_set (bits_set bv p)"
  by (auto simp: simple_set_def bits_set_def dest: bv2_bounds)

subsection \<open>Lists of ranges\<close>

lemma isIn_neg: "length bv = 2 \<Longrightarrow> 0 \<le> i \<Longrightarrow>
  isIn_bv (if neg then not_bv bv else bv) i \<longleftrightarrow> i < 64 \<and> (if neg then \<not> testBit_fs bv i else testBit_fs bv i)"
  by (auto simp: isIn_bv_iff testBit_fs_iff bv_set_not dest: bv2_bounds)

lemma mkRaw_fs_loop_eq:
  "length bv = 2 \<Longrightarrow> 0 \<le> i \<Longrightarrow> mkRaw_fs_loop bv neg i r l = mkRaw_loop (if neg then not_bv bv else bv) i r l"
proof (induction bv neg i r l rule: mkRaw_fs_loop.induct)
  case (1 bv neg i r l)
  let ?b = "if neg then not_bv bv else bv"
  have c: "currBvMaxElem ?b + 2 = 65" using "1.prems" by (simp add: currBvMaxElem_def)
  have t: "isIn_bv ?b i \<longleftrightarrow> i < 64 \<and> ((\<not> neg \<and> testBit_fs bv i) \<or> (neg \<and> \<not> testBit_fs bv i))"
    using isIn_neg[OF "1.prems", of neg] by auto
  show ?case
    unfolding mkRaw_fs_loop.simps[of bv neg i] mkRaw_loop.simps[of ?b i] c t
    using "1.IH" "1.prems" by (cases neg; cases r) (auto simp: Let_def)
qed

lemma mkRaw_fs_eq: "length bv = 2 \<Longrightarrow> mkRaw_fs bv neg = mkRaw (if neg then not_bv bv else bv)"
  unfolding mkRaw_fs_def mkRaw_def by (rule mkRaw_fs_loop_eq) simp_all


lemma raw_grow:
  assumes "iv_from (-1) (raw_iv ps)" "ps \<noteq> []" "iv_set (raw_iv ps) \<subseteq> {..63}"
  shows "snd (ps ! (length ps - 1)) = 63 \<Longrightarrow>
      iv_from (-1) (raw_iv (ps[length ps - 1 := (fst (ps ! (length ps - 1)), fd_sup)])) \<and>
      iv_set (raw_iv (ps[length ps - 1 := (fst (ps ! (length ps - 1)), fd_sup)])) = iv_set (raw_iv ps) \<union> {64..fd_sup}"
    "snd (ps ! (length ps - 1)) \<noteq> 63 \<Longrightarrow>
      iv_from (-1) (raw_iv (ps @ [(64, fd_sup)])) \<and> iv_set (raw_iv (ps @ [(64, fd_sup)])) = iv_set (raw_iv ps) \<union> {64..fd_sup}"
proof -
  obtain qs l r where ps: "ps = qs @ [(l, r)]" using assms(2) by (metis rev_exhaust surj_pair)
  have f: "iv_from (-1) (raw_iv qs @ [mk_iv l r])" using assms(1) by (simp add: ps raw_iv_map)
  then have lr: "l \<le> r" using iv_from_mem[OF f, of "mk_iv l r"] by simp
  then have r: "r \<le> 63" using assms(3) by (auto simp: ps raw_iv_map)
  have "r \<noteq> 63 \<Longrightarrow> r + 1 < 64" using r by simp
  then show "snd (ps ! (length ps - 1)) \<noteq> 63 \<Longrightarrow>
      iv_from (-1) (raw_iv (ps @ [(64, fd_sup)])) \<and> iv_set (raw_iv (ps @ [(64, fd_sup)])) = iv_set (raw_iv ps) \<union> {64..fd_sup}"
    using f lr limit_less_sup by (auto simp: ps raw_iv_map iv_from_append split: if_splits)
  show "snd (ps ! (length ps - 1)) = 63 \<Longrightarrow>
      iv_from (-1) (raw_iv (ps[length ps - 1 := (fst (ps ! (length ps - 1)), fd_sup)])) \<and>
      iv_set (raw_iv (ps[length ps - 1 := (fst (ps ! (length ps - 1)), fd_sup)])) = iv_set (raw_iv ps) \<union> {64..fd_sup}"
    using f lr limit_less_sup by (auto simp: ps raw_iv_map iv_from_append split: if_splits)
qed

lemma getAsList_raw: "mkList (map (\<lambda>(l, r). rangeTerm l r) ps) = getAsList_iv (raw_iv ps)"
  by (simp add: getAsList_iv_def raw_iv_map comp_def case_prod_unfold)

text \<open>A description of a set that the initialisations accept; the empty set is described by \<^verbatim>\<open>nil\<close>.\<close>

definition describes :: "oz_term \<Rightarrow> int set \<Rightarrow> bool" where
  "describes t S \<longleftrightarrow> descrSet t = Some S \<and> descrFits t \<and> (S = {} \<longrightarrow> t = AtomNil)"

lemma getAsList_describes: "fd_rep g d S \<Longrightarrow> describes (getAsList d) S"
  using getAsList_denotes fd_rep_size by (auto simp: describes_def getAsList_def)

lemma raw_denotes:
  assumes "iv_from (-1) (raw_iv ps)" "iv_set (raw_iv ps) = S" "S \<subseteq> {0..fd_sup}"
  shows "describes (mkList (map (\<lambda>(l, r). rangeTerm l r) ps)) S"
proof (cases "ps = []")
  case False
  moreover have "S \<noteq> {}" using False assms(1,2) by (cases ps) (auto simp: raw_iv_map)
  ultimately show ?thesis using getAsList_arrays[OF iv_okI[OF assms(1)]] assms(2,3)
    unfolding getAsList_raw describes_def by (simp add: raw_iv_map)
qed (use assms(2) in \<open>auto simp: raw_iv_map describes_def\<close>)

text \<open>What the list stands for, unless the integer before the array is the last element of the words.\<close>

lemma getAsList_fs_denotes:
  assumes "length bv = 2" "before \<noteq> 63"
  shows "describes (getAsList_fs before bv neg other)
    (if neg then {0..fd_sup} - bits_set bv other else bits_set bv other)"
proof -
  let ?b = "if neg then not_bv bv else bv" and ?o = "(other \<and> \<not> neg) \<or> (neg \<and> \<not> other)"
  let ?ps = "mkRaw_fs bv neg"
  have l: "length ?b = 2" using assms(1) by simp
  have S: "(if neg then {0..fd_sup} - bits_set bv other else bits_set bv other) = bits_set ?b ?o"
    using bits_set_ops(3)[OF assms(1) assms(1), of other] by simp
  have sub: "bits_set ?b ?o \<subseteq> {0..fd_sup}" by (rule bits_set_subset[OF l])
  have f: "iv_from (-1) (raw_iv ?ps)" "iv_set (raw_iv ?ps) = bv_set ?b"
    unfolding mkRaw_fs_eq[OF assms(1)] by (rule mkRaw_from, rule mkRaw_set)
  have le: "iv_set (raw_iv ?ps) \<subseteq> {..63}" using bv2_bounds[OF l] f(2) by fastforce
  have e: "iv_from (-1) (raw_iv [(64, fd_sup)]) \<and> iv_set (raw_iv [(64, fd_sup)]) = {64..fd_sup}"
    using limit_less_sup by (simp add: raw_iv_map)
  show ?thesis unfolding S
  proof (cases ?o)
    case False
    then have "getAsList_fs before bv neg other = mkList (map (\<lambda>(l, r). rangeTerm l r) ?ps)"
      by (auto simp: getAsList_fs_def Let_def)
    then show "describes (getAsList_fs before bv neg other) (bits_set ?b ?o)"
      using raw_denotes[OF f] sub False by (auto simp: bits_set_def)
  next
    case True
    let ?qs = "if ?ps = [] then [(64, fd_sup)]
      else if snd (?ps ! (length ?ps - 1)) = 63 then ?ps[length ?ps - 1 := (fst (?ps ! (length ?ps - 1)), fd_sup)]
      else ?ps @ [(64, fd_sup)]"
    have eq: "getAsList_fs before bv neg other = mkList (map (\<lambda>(l, r). rangeTerm l r) ?qs)"
      using True assms(2) by (auto simp: getAsList_fs_def Let_def)
    have "iv_from (-1) (raw_iv ?qs) \<and> iv_set (raw_iv ?qs) = iv_set (raw_iv ?ps) \<union> {64..fd_sup}"
      using raw_grow[OF f(1) _ le] e by (cases "?ps = []") (simp_all add: raw_iv_map)
    then have "iv_from (-1) (raw_iv ?qs)" "iv_set (raw_iv ?qs) = bits_set ?b ?o"
      using f(2) True by (simp_all add: bits_set_def)
    then show "describes (getAsList_fs before bv neg other) (bits_set ?b ?o)"
      unfolding eq by (rule raw_denotes) (rule sub)
  qed
qed

end
