(* ===== verification/FSetValue.thy ===== *)
theory FSetValue
  imports FSetBase
begin

text \<open>
  Class \<^verbatim>\<open>FSetValue\<close> of \<^verbatim>\<open>platform/emulator/fset.cc\<close>: a set of integers from 0 to \<^verbatim>\<open>fs_sup\<close> with its
  cardinality, kept as words and a flag (\<open>v_normal\<close>) or as a finite domain. The kernel goes
  back to the words whenever the set fits them (\<^verbatim>\<open>maybeToNormal\<close>), and \<^verbatim>\<open>==\<close> relies on that: the
  invariant \<open>fsv_rep\<close> says that the set is kept as a domain only when it has to be.

  An object that an operator declares without initialising it (\<^verbatim>\<open>FSetValue z;\<close>) is an argument
  of the definition: its fields hold whatever the storage held. \<^const>\<open>None\<close> is an access outside
  an array or a term that is no description of a set.
\<close>

section \<open>State and operations\<close>

record FSetValue =
  v_card :: int
  v_other :: bool
  v_IN :: OZ_FiniteDomain
  v_normal :: bool
  v_in :: "int32 list"

datatype OZ_FSetState = fs_empty | fs_full

subsection \<open>Changing the form\<close>

text \<open>
  The loop of \<^verbatim>\<open>toNormal\<close> over the elements below \<^verbatim>\<open>32 * fset_high\<close>. Every round sets a bit with a
  larger number than the round before, so \<open>fs_limit\<close> rounds are enough for every domain
  (lemma \<open>setBits_loop_spec\<close>).
\<close>

primrec setBits_loop :: "nat \<Rightarrow> OZ_FiniteDomain \<Rightarrow> int \<Rightarrow> int32 list \<Rightarrow> int32 list" where
  "setBits_loop 0 d i bv = bv"
| "setBits_loop (Suc n) d i bv =
     (if i \<noteq> -1 \<and> i < fs_limit then setBits_loop n d (nextLargerElem d i) (setBit_fs bv i) else bv)"

definition toNormal_v :: "FSetValue \<Rightarrow> FSetValue" where
  "toNormal_v v =
     v\<lparr>v_in := setBits_loop (nat fs_limit) (v_IN v) (min_elem (v_IN v)) (replicate fset_high 0),
       v_other := (upperBound (v_IN v) fs_limit = fs_sup), v_normal := True\<rparr>"

definition toExtended_v :: "fd_globals \<Rightarrow> FSetValue \<Rightarrow> FSetValue" where
  "toExtended_v g v =
     (let d = (if v_other v then fst (initRange (v_IN v) fs_limit fs_sup) else fst (initEmpty (v_IN v)));
          d = add_bits g (v_in v) (rev [0..fs_limit - 1]) d
      in v\<lparr>v_IN := d, v_normal := False\<rparr>)"

definition maybeToNormal_v :: "FSetValue \<Rightarrow> FSetValue \<times> bool" where
  "maybeToNormal_v v =
     (let i = max_elem (v_IN v)
      in if i \<ge> fs_limit \<and> i < fs_sup then (v, False)
         else if i \<ge> fs_limit \<and> lowerBound (v_IN v) fs_sup > fs_limit then (v, False)
         else (toNormal_v v, True))"

subsection \<open>Initialisation\<close>

definition init_v_term :: "fd_globals \<Rightarrow> FSetValue \<Rightarrow> oz_term \<Rightarrow> FSetValue option" where
  "init_v_term g v t =
     (case initDescr g (v_IN v) t of
        None \<Rightarrow> None
      | Some (d, n) \<Rightarrow> Some (fst (maybeToNormal_v (v\<lparr>v_normal := False, v_IN := d, v_card := n\<rparr>))))"

definition init_v_state :: "FSetValue \<Rightarrow> OZ_FSetState \<Rightarrow> FSetValue" where
  "init_v_state v s =
     (case s of
        fs_empty \<Rightarrow> v\<lparr>v_normal := True, v_other := False, v_in := replicate fset_high 0, v_card := 0\<rparr>
      | fs_full \<Rightarrow> v\<lparr>v_normal := True, v_other := True, v_in := replicate fset_high (NOT 0), v_card := fs_sup + 1\<rparr>)"

definition init_v_range :: "FSetValue \<Rightarrow> int \<Rightarrow> int \<Rightarrow> FSetValue" where
  "init_v_range v mn mx =
     (if mx < fs_limit \<or> (mx = fs_sup \<and> mn \<le> fs_limit) then
        (let (bv, n) = setFromTo_fs (v_in v) mn mx
         in v\<lparr>v_in := bv, v_card := n, v_normal := True, v_other := (mx = fs_sup)\<rparr>)
      else
        (let (d, n) = initRange (v_IN v) mn mx
         in v\<lparr>v_IN := d, v_card := n, v_normal := False, v_other := False\<rparr>))"

definition init_v_fd :: "FSetValue \<Rightarrow> OZ_FiniteDomain \<Rightarrow> FSetValue" where
  "init_v_fd v fd =
     (let v = v\<lparr>v_card := fd_size fd\<rparr>
      in if fd_size fd = 0 then init_v_state v fs_empty
         else fst (maybeToNormal_v (v\<lparr>v_IN := op_assign (v_IN v) fd, v_normal := False\<rparr>)))"

text \<open>The constructor \<^verbatim>\<open>FSetValue(const int * in, bool oth)\<close>.\<close>

definition fsv_of_bits :: "FSetValue \<Rightarrow> int32 list \<Rightarrow> bool \<Rightarrow> FSetValue" where
  "fsv_of_bits v bv oth =
     v\<lparr>v_normal := True, v_in := bv, v_other := oth,
       v_card := findBitsSet bv + (if oth then size_of_other else 0)\<rparr>"

subsection \<open>Queries\<close>

definition isIn_v :: "FSetValue \<Rightarrow> int \<Rightarrow> bool" where
  "isIn_v v i =
     (if i < 0 \<or> i > fs_sup then False
      else if v_normal v then (if i < fs_limit then testBit_fs (v_in v) i else v_other v)
      else isIn (v_IN v) i)"

definition eq_v :: "fd_globals \<Rightarrow> FSetValue \<Rightarrow> FSetValue \<Rightarrow> bool" where
  "eq_v g v s =
     (if v_card v \<noteq> v_card s then False
      else if v_normal v then
        (if \<not> v_normal s \<or> v_other v \<noteq> v_other s then False else v_in v = v_in s)
      else if fd_size (v_IN v) \<noteq> fd_size (v_IN s) then False
      else fd_size (op_and g (v_IN v) (v_IN s)) = fd_size (v_IN v))"

definition le_v :: "fd_globals \<Rightarrow> FSetValue \<Rightarrow> FSetValue \<Rightarrow> bool" where
  "le_v g v s =
     (if v_card v > v_card s then False
      else if v_normal v \<and> v_normal s then
        (if v_other v \<and> \<not> v_other s then False
         else list_all (\<lambda>(x, y). x AND y = x) (zip (v_in v) (v_in s)))
      else if \<not> v_normal v \<and> \<not> v_normal s then
        fd_size (op_and g (v_IN v) (v_IN s)) = fd_size (v_IN v)
      else if v_normal v \<and> \<not> v_normal s then
        (if list_ex (\<lambda>i. testBit_fs (v_in v) i \<and> \<not> isIn (v_IN s) i) (rev [0..fs_limit - 1]) then False
         else if v_other v then
           isIn (v_IN s) fs_limit \<and> upperBound (v_IN s) fs_limit = fs_sup
         else True)
      else
        (if list_ex (\<lambda>i. isIn (v_IN v) i \<and> \<not> testBit_fs (v_in s) i) (rev [0..fs_limit - 1]) then False
         else if v_other s then
           isIn (v_IN v) fs_limit \<and> upperBound (v_IN v) fs_limit = fs_sup
         else \<not> nextLargerElem (v_IN v) (fs_limit - 1) \<ge> 0))"

fun minWord :: "bool \<Rightarrow> int \<Rightarrow> int32 list \<Rightarrow> int" where
  "minWord other v [] = (if other then fs_limit else -1)"
| "minWord other v (w # ws) = (if w \<noteq> 0 then low_bit_of w v else minWord other (v + 32) ws)"

definition getMinElem_v :: "FSetValue \<Rightarrow> int" where
  "getMinElem_v v = (if v_normal v then minWord (v_other v) 0 (v_in v) else min_elem (v_IN v))"

text \<open>From the last word down: the recursion is on the reversed array.\<close>

fun maxWord :: "int \<Rightarrow> int32 list \<Rightarrow> int" where
  "maxWord v [] = -1"
| "maxWord v (w # ws) = (if w \<noteq> 0 then high_bit_of w v else maxWord (v - 32) ws)"

definition getMaxElem_v :: "FSetValue \<Rightarrow> int" where
  "getMaxElem_v v =
     (if v_normal v then (if v_other v then fs_sup else maxWord (fs_limit - 1) (rev (v_in v)))
      else max_elem (v_IN v))"

definition firstBit :: "int32 list \<Rightarrow> int list \<Rightarrow> int" where
  "firstBit bv ixs = (case List.find (testBit_fs bv) ixs of None \<Rightarrow> -1 | Some i \<Rightarrow> i)"

definition getNextLargerElem_v :: "FSetValue \<Rightarrow> int \<Rightarrow> int" where
  "getNextLargerElem_v v i =
     (if v_normal v then
        (if i \<ge> fs_limit - 1 \<and> v_other v then (if i < fs_sup then i + 1 else -1)
         else firstBit (v_in v) [i + 1..fs_limit - 1])
      else nextLargerElem (v_IN v) i)"

definition getNextSmallerElem_v :: "FSetValue \<Rightarrow> int \<Rightarrow> int" where
  "getNextSmallerElem_v v i =
     (if v_normal v then
        (if i > fs_limit \<and> v_other v then (if i \<le> fs_sup then i - 1 else -1)
         else firstBit (v_in v) (rev [0..i - 1]))
      else nextSmallerElem (v_IN v) i)"

definition getKnownNotIn_v :: "FSetValue \<Rightarrow> int" where
  "getKnownNotIn_v v = 134217727 - v_card v"

definition getKnownInList_v :: "int \<Rightarrow> FSetValue \<Rightarrow> oz_term" where
  "getKnownInList_v before v =
     (if v_normal v then getAsList_fs before (v_in v) False (v_other v) else getAsList (v_IN v))"

definition getKnownNotInList_v :: "fd_globals \<Rightarrow> int \<Rightarrow> FSetValue \<Rightarrow> oz_term" where
  "getKnownNotInList_v g before v =
     (if v_normal v then getAsList_fs before (v_in v) True (v_other v) else getAsList (op_not g (v_IN v)))"

subsection \<open>Operators\<close>

text \<open>
  The two sequences the binary operators share: set the cardinality of a result in words
  (\<^verbatim>\<open>findBitsSet\<close> and the size of the part above), and take a domain as the result.
\<close>

abbreviation put_words :: "FSetValue \<Rightarrow> int32 list \<Rightarrow> bool \<Rightarrow> FSetValue" where
  "put_words z bv oth \<equiv>
     z\<lparr>v_normal := True, v_in := bv, v_other := oth,
       v_card := findBitsSet bv + (if oth then size_of_other else 0)\<rparr>"

abbreviation put_domain :: "FSetValue \<Rightarrow> OZ_FiniteDomain \<Rightarrow> FSetValue" where
  "put_domain z d \<equiv> fst (maybeToNormal_v (z\<lparr>v_normal := False, v_IN := d, v_card := fd_size d\<rparr>))"

definition and_v :: "fd_globals \<Rightarrow> FSetValue \<Rightarrow> FSetValue \<Rightarrow> FSetValue \<Rightarrow> FSetValue" where
  "and_v g z x y =
     (if v_normal x \<and> v_normal y then
        put_words z (and_bv (v_in x) (v_in y)) (v_other x \<and> v_other y)
      else if \<not> v_normal x \<and> \<not> v_normal y then put_domain z (op_and g (v_IN x) (v_IN y))
      else if v_normal x then
        (let z = toExtended_v g (z\<lparr>v_normal := True, v_other := v_other x, v_in := v_in x\<rparr>)
         in put_domain z (fst (op_and_assign g (v_IN z) (v_IN y))))
      else
        (let z = toExtended_v g (z\<lparr>v_normal := True, v_other := v_other y, v_in := v_in y\<rparr>)
         in put_domain z (fst (op_and_assign g (v_IN z) (v_IN x)))))"

definition or_v :: "fd_globals \<Rightarrow> FSetValue \<Rightarrow> FSetValue \<Rightarrow> FSetValue \<Rightarrow> FSetValue" where
  "or_v g z x y =
     (if v_normal x \<and> v_normal y then
        put_words z (or_bv (v_in x) (v_in y)) (v_other x \<or> v_other y)
      else if \<not> v_normal x \<and> \<not> v_normal y then put_domain z (op_or g (v_IN x) (v_IN y))
      else if v_normal x then
        (let z = toExtended_v g (z\<lparr>v_normal := True, v_other := v_other x, v_in := v_in x\<rparr>)
         in put_domain z (op_or g (v_IN z) (v_IN y)))
      else
        (let z = toExtended_v g (z\<lparr>v_normal := True, v_other := v_other y, v_in := v_in y\<rparr>)
         in put_domain z (op_or g (v_IN z) (v_IN x))))"

text \<open>In the third branch \<^verbatim>\<open>z._other\<close> is what the storage holds.\<close>

definition minus_v :: "fd_globals \<Rightarrow> FSetValue \<Rightarrow> FSetValue \<Rightarrow> FSetValue \<Rightarrow> FSetValue" where
  "minus_v g z x y =
     (if v_normal x \<and> v_normal y then
        put_words z (and_bv (v_in x) (not_bv (v_in y))) (v_other x \<and> \<not> v_other y)
      else if \<not> v_normal x \<and> \<not> v_normal y then put_domain z (op_and g (v_IN x) (op_not g (v_IN y)))
      else if v_normal x then
        (let z = toExtended_v g (z\<lparr>v_normal := True, v_in := v_in x\<rparr>)
         in put_domain z (op_and g (v_IN z) (op_not g (v_IN y))))
      else
        (let z = toExtended_v g (z\<lparr>v_normal := True, v_other := \<not> v_other y, v_in := not_bv (v_in y)\<rparr>)
         in put_domain z (fst (op_and_assign g (v_IN z) (v_IN x)))))"

definition and_assign_v :: "fd_globals \<Rightarrow> FSetValue \<Rightarrow> FSetValue \<Rightarrow> FSetValue" where
  "and_assign_v g v y =
     (if v_normal v \<and> v_normal y then
        put_words v (and_bv (v_in v) (v_in y)) (v_other v \<and> v_other y)
      else if \<not> v_normal v \<and> \<not> v_normal y then put_domain v (fst (op_and_assign g (v_IN v) (v_IN y)))
      else if v_normal v then
        (let v = toExtended_v g v in put_domain v (fst (op_and_assign g (v_IN v) (v_IN y))))
      else
        (let aux = v_IN v;
             v = toExtended_v g (v\<lparr>v_normal := True, v_other := v_other y, v_in := v_in y\<rparr>)
         in put_domain v (fst (op_and_assign g (v_IN v) aux))))"

definition or_assign_v :: "fd_globals \<Rightarrow> FSetValue \<Rightarrow> FSetValue \<Rightarrow> FSetValue" where
  "or_assign_v g v y =
     (if v_normal v \<and> v_normal y then
        put_words v (or_bv (v_in v) (v_in y)) (v_other v \<or> v_other y)
      else if \<not> v_normal v \<and> \<not> v_normal y then put_domain v (op_or g (v_IN v) (v_IN y))
      else if v_normal v then
        (let v = toExtended_v g v in put_domain v (op_or g (v_IN v) (v_IN y)))
      else
        (let aux = v_IN v;
             v = toExtended_v g (v\<lparr>v_normal := True, v_other := v_other y, v_in := v_in y\<rparr>)
         in put_domain v (op_or g (v_IN v) aux)))"

definition and_int_v :: "FSetValue \<Rightarrow> int \<Rightarrow> FSetValue" where
  "and_int_v v y =
     (if v_normal v then
        (let tb = testBit_fs (v_in v) y; v = init_v_state v fs_empty
         in if tb then v\<lparr>v_in := setBit_fs (v_in v) y, v_card := 1\<rparr> else v)
      else
        (let (d, n) = (if isIn (v_IN v) y then initSingleton (v_IN v) y else initEmpty (v_IN v))
         in v\<lparr>v_IN := d, v_card := n\<rparr>))"

text \<open>The guard of \<^verbatim>\<open>+=\<close> and \<^verbatim>\<open>-=\<close> lets only negative numbers through.\<close>

definition plus_int_v :: "fd_globals \<Rightarrow> FSetValue \<Rightarrow> int \<Rightarrow> FSetValue option" where
  "plus_int_v g v y =
     (if 0 \<le> y \<or> y > fs_sup then Some v
      else if v_normal v then
        (if y < fs_limit then
           (if y < 0 then None
            else Some (put_words v (setBit_fs (v_in v) y) (v_other v)))
         else if \<not> v_other v then
           (let v = toExtended_v g v; (d, n) = op_plus_int g (v_IN v) y in Some (v\<lparr>v_IN := d, v_card := n\<rparr>))
         else Some v)
      else
        (let (d, n) = op_plus_int g (v_IN v) y in Some (fst (maybeToNormal_v (v\<lparr>v_IN := d, v_card := n\<rparr>)))))"

definition minus_int_v :: "fd_globals \<Rightarrow> FSetValue \<Rightarrow> int \<Rightarrow> FSetValue option" where
  "minus_int_v g v y =
     (if 0 \<le> y \<or> y > fs_sup then Some v
      else if v_normal v then
        (if y < fs_limit then
           (if y < 0 then None
            else Some (put_words v (resetBit_fs (v_in v) y) (v_other v)))
         else if v_other v then
           (let v = toExtended_v g v; (d, n) = op_minus_int g (v_IN v) y
            in Some (fst (maybeToNormal_v (v\<lparr>v_IN := d, v_card := n\<rparr>))))
         else Some v)
      else
        (let (d, n) = op_minus_int g (v_IN v) y in Some (fst (maybeToNormal_v (v\<lparr>v_IN := d, v_card := n\<rparr>)))))"

text \<open>The second component is the warning of the complement.\<close>

definition not_v :: "fd_globals \<Rightarrow> FSetValue \<Rightarrow> FSetValue \<Rightarrow> FSetValue \<times> bool" where
  "not_v g z x =
     (if v_normal x then (put_words z (not_bv (v_in x)) (\<not> v_other x), False)
      else
        (let d = op_not g (v_IN x)
         in maybeToNormal_v (z\<lparr>v_normal := False, v_IN := d, v_card := fd_size d\<rparr>)))"

subsection \<open>As a finite domain\<close>

text \<open>
  \<^verbatim>\<open>initFSetValue\<close> and the constructor of \<^verbatim>\<open>OZ_FiniteDomain\<close> from a set value (\<^verbatim>\<open>fdomn.cc\<close>). The domain \<open>d\<close> is
  storage that is not initialised, and \<^verbatim>\<open>asIntervals\<close> reads its size before it is set.
\<close>

definition initFSetValue :: "OZ_FiniteDomain \<Rightarrow> FSetValue \<Rightarrow> OZ_FiniteDomain \<times> int" where
  "initFSetValue d fs =
     (let d = setBv (v_in fs) d;
          d = (if v_other fs then
                 (let f = asIntervals d; z = fst (union_iv f (init2_iv fs_limit fs_sup)) in setIv z d)
               else d);
          d = d\<lparr>fd_size := v_card fs\<rparr>
      in (d, v_card fs))"

definition fd_of_FSetValue :: "OZ_FiniteDomain \<Rightarrow> FSetValue \<Rightarrow> OZ_FiniteDomain" where
  "fd_of_FSetValue d fs =
     (if v_normal fs then fst (initFSetValue (d\<lparr>descr := FdDescr\<rparr>) fs) else op_assign d (v_IN fs))"

section \<open>What a set value stands for\<close>

definition fsv_rep :: "fd_globals \<Rightarrow> FSetValue \<Rightarrow> int set \<Rightarrow> bool" where
  "fsv_rep g v S \<longleftrightarrow> v_card v = int (card S) \<and>
     (if v_normal v then norm_rep (v_in v, v_other v) S
      else ext_rep g (v_IN v) S \<and> \<not> simple_set S)"

lemma fsv_rep_cases:
  assumes "fsv_rep g v S"
  obtains (normal) "v_normal v" "length (v_in v) = 2" "S = bits_set (v_in v) (v_other v)" "simple_set S"
      "v_card v = int (card S)"
    | (extended) "\<not> v_normal v" "ext_rep g (v_IN v) S" "\<not> simple_set S" "S \<noteq> {}" "v_card v = int (card S)"
      "v_card v = fd_size (v_IN v)"
proof (cases "v_normal v")
  case True
  then show ?thesis using assms simple_bits[of "v_in v"] by (intro normal) (auto simp: fsv_rep_def norm_rep_def)
next
  case False
  then have "ext_rep g (v_IN v) S" "\<not> simple_set S" using assms by (auto simp: fsv_rep_def)
  then show ?thesis using False assms ext_rep_facts(3) by (intro extended) (auto simp: fsv_rep_def simple_set_def)
qed

lemma fsv_rep_sub: "fsv_rep g v S \<Longrightarrow> S \<subseteq> {0..fd_sup} \<and> finite S"
  by (erule fsv_rep_cases) (use bits_set_subset ext_rep_facts in auto)

lemma fsv_normal_iff: "fsv_rep g v S \<Longrightarrow> v_normal v \<longleftrightarrow> simple_set S"
  by (erule fsv_rep_cases) auto

lemma put_words_rep: "length bv = 2 \<Longrightarrow> fsv_rep g (put_words z bv p) (bits_set bv p)"
  using bits_card_eq[of bv p] by (simp add: fsv_rep_def norm_rep_def bits_card_def)

lemma setBits_loop_spec:
  assumes "fd_shape g d S"
  shows "length bv = 2 \<Longrightarrow> i \<in> S \<or> i = -1 \<Longrightarrow> (i \<noteq> -1 \<Longrightarrow> 64 - i \<le> int n) \<Longrightarrow>
    bv_set (setBits_loop n d i bv) = bv_set bv \<union> (if i = -1 then {} else S \<inter> {i..<64}) \<and>
    length (setBits_loop n d i bv) = 2"
proof (induction n arbitrary: i bv)
  case (Suc n)
  show ?case
  proof (cases "i \<noteq> -1 \<and> i < 64")
    case True
    then have i: "i \<in> S" "0 \<le> i" "i < 64" using Suc.prems(2) fd_shape_facts(8)[OF assms] fd_shape_facts(6)[OF assms, of i] by auto
    let ?j = "nextLargerElem d i"
    have nx: "next_larger S i ?j" by (rule next_shape(2)[OF assms]) (use i in simp)
    have j: "?j \<in> S \<or> ?j = -1" "?j \<noteq> -1 \<Longrightarrow> i < ?j"
      "(if ?j = -1 then {} else S \<inter> {?j..<64}) = S \<inter> {i<..<64}"
      using nx i by (auto simp: next_larger_def split: if_splits)
    have "bv_set (setBits_loop n d ?j (setBit_fs bv i)) =
        bv_set (setBit_fs bv i) \<union> (if ?j = -1 then {} else S \<inter> {?j..<64}) \<and>
        length (setBits_loop n d ?j (setBit_fs bv i)) = 2"
    proof (rule Suc.IH)
      show "?j \<noteq> -1 \<Longrightarrow> 64 - ?j \<le> int n" using j(2) Suc.prems(3) True by linarith
    qed (use j Suc.prems(1) in auto)
    moreover have "bv_set (setBit_fs bv i) = insert i (bv_set bv)"
      using i Suc.prems(1) by (simp add: setBit_fs_eq setBit_bv_set currBvMaxElem_def)
    moreover have "insert i (S \<inter> {i<..<64}) = S \<inter> {i..<64}" using i by auto
    ultimately show ?thesis using True j(3) by auto
  qed (use Suc.prems in auto)
qed auto

lemma upper_limit:
  assumes "fd_shape g d S"
  shows "upperBound d fs_limit = fs_sup \<longleftrightarrow> {64..fd_sup} \<subseteq> S"
    and "fd_sup \<in> S \<Longrightarrow> lowerBound d fs_sup > fs_limit \<longleftrightarrow> \<not> {64..fd_sup} \<subseteq> S"
proof -
  have sub: "S \<subseteq> {0..fd_sup}" using assms by (simp add: fd_shape_def)
  show "upperBound d fs_limit = fs_sup \<longleftrightarrow> {64..fd_sup} \<subseteq> S"
  proof (cases "64 \<in> S")
    case True
    then have r: "run_of S 64 (lowerBound d 64) (upperBound d 64)" using bounds_shape[OF assms, of 64] by simp
    then have u: "64 \<le> upperBound d 64" "{64..upperBound d 64} \<subseteq> S" "upperBound d 64 + 1 \<notin> S"
      by (auto simp: run_of_def)
    then have "upperBound d 64 \<in> S" by auto
    then have "upperBound d 64 \<le> fd_sup" using sub by auto
    moreover have "fd_sup \<le> upperBound d 64" if "{64..fd_sup} \<subseteq> S"
    proof (rule ccontr)
      assume "\<not> ?thesis"
      then have "upperBound d 64 + 1 \<in> {64..fd_sup}" using u by simp
      then show False using that u(3) by blast
    qed
    ultimately show ?thesis using u by auto
  next
    case False
    then have "upperBound d 64 = -1" using bounds_shape[OF assms, of 64] by simp
    moreover have "fd_sup \<noteq> -1" "64 \<in> {64..fd_sup}" using limit_less_sup by auto
    ultimately show ?thesis using False by (metis fs_consts(2,3) subsetD)
  qed
  assume "fd_sup \<in> S"
  then have r: "run_of S fd_sup (lowerBound d fd_sup) (upperBound d fd_sup)" using bounds_shape[OF assms, of fd_sup] by simp
  then have l: "lowerBound d fd_sup \<le> fd_sup" "{lowerBound d fd_sup..fd_sup} \<subseteq> S" "lowerBound d fd_sup - 1 \<notin> S"
    by (auto simp: run_of_def)
  show "lowerBound d fs_sup > fs_limit \<longleftrightarrow> \<not> {64..fd_sup} \<subseteq> S"
  proof (cases "lowerBound d fd_sup > 64")
    case True
    then have "lowerBound d fd_sup - 1 \<in> {64..fd_sup}" using l(1) by simp
    then have "\<not> {64..fd_sup} \<subseteq> S" using l(3) by blast
    then show ?thesis using True by simp
  qed (use l(2) in auto)
qed

text \<open>The test of \<^verbatim>\<open>maybeToNormal\<close> on one domain.\<close>

lemma fits_words:
  assumes "ext_rep g d S"
  shows "(max_elem d \<ge> 64 \<and> max_elem d < fd_sup) \<or> (max_elem d \<ge> 64 \<and> lowerBound d fd_sup > 64) \<longleftrightarrow> \<not> simple_set S"
proof (cases "S = {}")
  case True
  then have "max_elem d = -1" using assms by (simp add: ext_rep_def)
  then show ?thesis using True by (simp add: simple_set_def)
next
  case False
  note f = ext_rep_facts[OF assms]
  have sh: "fd_shape g d S" "max_elem d = Max S" using f(4)[OF False] by auto
  have m: "Max S \<in> S" "\<And>i. i \<in> S \<Longrightarrow> i \<le> Max S" "Max S \<le> fd_sup" using f False by (auto simp: subset_iff)
  consider (low) "Max S < 64" | (mid) "64 \<le> Max S" "Max S < fd_sup" | (high) "64 \<le> Max S" "Max S = fd_sup" using m(3) by linarith
  then show ?thesis
  proof cases
    case low
    then have "simple_set S" using m(2) by (force simp: simple_set_def)
    then show ?thesis using low sh(2) by simp
  next
    case mid
    have "fd_sup \<notin> S" using m(2) mid by force
    moreover have "fd_sup \<in> {64..fd_sup}" using limit_less_sup by simp
    ultimately have "\<not> simple_set S" using mid m(1) unfolding simple_set_def by fastforce
    then show ?thesis using mid sh(2) by simp
  next
    case high
    then have "fd_sup \<in> S" using m(1) by simp
    then have "simple_set S \<longleftrightarrow> {64..fd_sup} \<subseteq> S" using limit_less_sup by (auto simp: simple_set_def)
    then show ?thesis using upper_limit(2)[OF sh(1) \<open>fd_sup \<in> S\<close>] high sh(2) by simp
  qed
qed

lemma maybeToNormal_spec:
  assumes "ext_rep g (v_IN v) S"
  shows "maybeToNormal_v v = (if simple_set S then (toNormal_v v, True) else (v, False))"
  using fits_words[OF assms] by (auto simp: maybeToNormal_v_def Let_def)

lemma upper_simple:
  assumes "ext_rep g d S" "simple_set S"
  shows "upperBound d fs_limit = fs_sup \<longleftrightarrow> {64..fd_sup} \<subseteq> S"
proof (cases "S = {}")
  case True
  then have "fd_size d = 0" using assms(1) by (auto simp: ext_rep_def fd_rep_def)
  then show ?thesis using True limit_less_sup by (simp add: upperBound_def isIn_def)
next
  case False
  then show ?thesis using upper_limit(1) ext_rep_facts(4)[OF assms(1)] by blast
qed

lemma simple_split:
  assumes "length bv = 2" "bv_set bv = S \<inter> {..<64}" "p \<longleftrightarrow> {64..fd_sup} \<subseteq> S" "simple_set S" "S \<subseteq> {0..fd_sup}"
  shows "norm_rep (bv, p) S"
proof -
  have "i \<in> S \<longleftrightarrow> i \<in> bits_set bv p" for i
  proof (cases "i < 64")
    case False
    have "i \<in> S \<longrightarrow> i \<in> S \<inter> {64..fd_sup}" using assms(5) False by auto
    then show ?thesis unfolding mem_bits_set[OF assms(1)] assms(3) using assms(4) False unfolding simple_set_def by auto
  qed (use assms(1,2) in \<open>simp add: mem_bits_set\<close>)
  then show ?thesis using assms(1) by (auto simp: norm_rep_def)
qed

lemma toNormal_spec:
  assumes "ext_rep g (v_IN v) S" "simple_set S"
  shows "v_normal (toNormal_v v)" "norm_rep (v_in (toNormal_v v), v_other (toNormal_v v)) S"
    "v_card (toNormal_v v) = v_card v"
proof -
  let ?d = "v_IN v" and ?b = "v_in (toNormal_v v)"
  have zero: "bv_set [0, 0] = {}" by (simp add: bv_set_def wbits_empty_iff)
  have "bv_set ?b = S \<inter> {..<64} \<and> length ?b = 2"
  proof (cases "S = {}")
    case True
    then have "min_elem ?d = -1" using assms(1) by (simp add: ext_rep_def)
    then have "setBits_loop 64 ?d (min_elem ?d) [0, 0] = [0, 0]" by (simp add: eval_nat_numeral)
    then show ?thesis using True zero by (simp add: toNormal_v_def numeral_2_eq_2)
  next
    case False
    note f = ext_rep_facts[OF assms(1)]
    have sh: "fd_shape g ?d S" "min_elem ?d = Min S" using f(4)[OF False] by auto
    have m: "Min S \<in> S" "\<And>i. i \<in> S \<Longrightarrow> Min S \<le> i" "0 \<le> Min S" using f False by (auto simp: subset_iff)
    have "bv_set (setBits_loop 64 ?d (Min S) [0, 0]) = bv_set [0, 0] \<union> (if Min S = -1 then {} else S \<inter> {Min S..<64})
        \<and> length (setBits_loop 64 ?d (Min S) [0, 0]) = 2"
      using m by (intro setBits_loop_spec[OF sh(1)]) auto
    moreover have "S \<inter> {Min S..<64} = S \<inter> {..<64}" using m(2) by auto
    ultimately show ?thesis using sh(2) m(3) zero by (simp add: toNormal_v_def numeral_2_eq_2)
  qed
  moreover have "v_other (toNormal_v v) \<longleftrightarrow> {64..fd_sup} \<subseteq> S" using upper_simple[OF assms] by (simp add: toNormal_v_def)
  ultimately show "norm_rep (?b, v_other (toNormal_v v)) S"
    by (intro simple_split) (use assms(2) ext_rep_facts(1)[OF assms(1)] in auto)
qed (simp_all add: toNormal_v_def)

lemma put_domain_rep:
  assumes "ext_rep g d S"
  shows "fsv_rep g (put_domain z d) S"
proof -
  let ?z = "z\<lparr>v_normal := False, v_IN := d, v_card := fd_size d\<rparr>"
  have e: "ext_rep g (v_IN ?z) S" using assms by simp
  show ?thesis using maybeToNormal_spec[OF e] toNormal_spec[OF e] ext_rep_facts(3)[OF assms] assms
    by (auto simp: fsv_rep_def)
qed

lemma toExtended_spec:
  assumes "fd_globals_ok g" "length (v_in v) = 2"
  shows "ext_rep g (v_IN (toExtended_v g v)) (bits_set (v_in v) (v_other v))"
proof -
  have "set (rev [0..fs_limit - 1]) = {0..<64}" by auto
  from add_all_bits[OF assms this] show ?thesis unfolding toExtended_v_def Let_def by simp
qed


lemma copied_rep:
  assumes "fd_globals_ok g" "length bv = 2"
  shows "ext_rep g (v_IN (toExtended_v g (z\<lparr>v_normal := True, v_other := p, v_in := bv\<rparr>))) (bits_set bv p)"
  using toExtended_spec[OF assms(1), of "z\<lparr>v_normal := True, v_other := p, v_in := bv\<rparr>"] assms(2) by simp

lemma fsv_cases2:
  assumes "fsv_rep g x S" "fsv_rep g y T"
  obtains (nn) "v_normal x" "v_normal y" "length (v_in x) = 2" "length (v_in y) = 2"
      "S = bits_set (v_in x) (v_other x)" "T = bits_set (v_in y) (v_other y)"
    | (nx) "v_normal x" "\<not> v_normal y" "length (v_in x) = 2" "S = bits_set (v_in x) (v_other x)" "ext_rep g (v_IN y) T"
    | (xn) "\<not> v_normal x" "v_normal y" "ext_rep g (v_IN x) S" "length (v_in y) = 2" "T = bits_set (v_in y) (v_other y)"
    | (xx) "\<not> v_normal x" "\<not> v_normal y" "ext_rep g (v_IN x) S" "ext_rep g (v_IN y) T"
  using assms(1)
proof (cases rule: fsv_rep_cases)
  case x: normal
  from assms(2) show ?thesis by (cases rule: fsv_rep_cases) (use nn nx x in blast)+
next
  case x: extended
  from assms(2) show ?thesis by (cases rule: fsv_rep_cases) (use xn xx x in blast)+
qed

text \<open>Every object an operator returns has the set as its value, whatever the storage held before.\<close>

lemma or_v_rep:
  assumes "fd_globals_ok g" "fsv_rep g x S" "fsv_rep g y T"
  shows "fsv_rep g (or_v g z x y) (S \<union> T)"
  using assms(2,3)
proof (cases rule: fsv_cases2)
  case nn
  then show ?thesis using put_words_rep[where bv = "or_bv (v_in x) (v_in y)" and p = "v_other x \<or> v_other y"]
    by (simp add: or_v_def bits_set_ops(2))
next
  case nx
  from put_domain_rep[OF fdk.union_rep[OF copied_rep[OF assms(1) nx(3)] nx(5)]] nx show ?thesis
    by (simp add: or_v_def Let_def)
next
  case xn
  from put_domain_rep[OF fdk.union_rep[OF copied_rep[OF assms(1) xn(4)] xn(3)]] xn show ?thesis
    by (simp add: or_v_def Let_def Un_commute)
next
  case xx
  from put_domain_rep[OF fdk.union_rep[OF xx(3,4)]] xx show ?thesis by (simp add: or_v_def)
qed

lemma and_assign_ext:
  assumes "ext_rep g d S" "ext_rep g y T" "S \<inter> T \<noteq> {}"
  shows "ext_rep g (fst (op_and_assign g d y)) (S \<inter> T)"
  using op_and_assign_refines[OF ext_repD(1)[OF assms(1)] ext_repD(1)[OF assms(2)] ext_repD(2)[OF assms(1)]]
    assms ext_repD(2)[OF assms(1)] by (simp add: ext_repI)

lemma and_v_rep:
  assumes "fd_globals_ok g" "fsv_rep g x S" "fsv_rep g y T" "S \<inter> T \<noteq> {} \<or> v_normal x = v_normal y"
  shows "fsv_rep g (and_v g z x y) (S \<inter> T)"
  using assms(2,3)
proof (cases rule: fsv_cases2)
  case nn
  then show ?thesis using put_words_rep[where bv = "and_bv (v_in x) (v_in y)" and p = "v_other x \<and> v_other y"]
    by (simp add: and_v_def bits_set_ops(1))
next
  case nx
  from put_domain_rep[OF and_assign_ext[OF copied_rep[OF assms(1) nx(3)] nx(5)]] nx assms(4) show ?thesis
    by (simp add: and_v_def Let_def)
next
  case xn
  from put_domain_rep[OF and_assign_ext[OF copied_rep[OF assms(1) xn(4)] xn(3)]] xn assms(4) show ?thesis
    by (simp add: and_v_def Let_def Int_commute)
next
  case xx
  from put_domain_rep[OF fdk.inter_rep[OF xx(3,4)]] xx show ?thesis by (simp add: and_v_def)
qed

text \<open>The difference, except for words minus a domain, which reads the uninitialised flag.\<close>

lemma minus_v_rep:
  assumes "fd_globals_ok g" "fsv_rep g x S" "fsv_rep g y T"
    and "v_normal x = v_normal y \<or> v_normal x \<and> v_other z = v_other x \<or> \<not> v_normal x \<and> S - T \<noteq> {}"
  shows "fsv_rep g (minus_v g z x y) (S - T)"
  using assms(2,3)
proof (cases rule: fsv_cases2)
  case nn
  have "S - T = S \<inter> ({0..fd_sup} - T)" using fsv_rep_sub[OF assms(2)] by auto
  then show ?thesis using nn bits_set_ops(1)[of "v_in x" "not_bv (v_in y)" "v_other x" "\<not> v_other y"]
      bits_set_ops(3)[of "v_in y" "v_in y" "v_other y"]
      put_words_rep[where bv = "and_bv (v_in x) (not_bv (v_in y))" and p = "v_other x \<and> \<not> v_other y"]
    by (simp add: minus_v_def)
next
  case nx
  have eq: "z\<lparr>v_normal := True, v_in := v_in x\<rparr> = z\<lparr>v_normal := True, v_other := v_other x, v_in := v_in x\<rparr>"
    using assms(4) nx by simp
  have "S - T = S \<inter> ({0..fd_sup} - T)" using fsv_rep_sub[OF assms(2)] by auto
  then show ?thesis using put_domain_rep[OF fdk.inter_rep[OF copied_rep[OF assms(1) nx(3)] fdk.compl_rep[OF nx(5)]]] nx
    unfolding minus_v_def eq by (simp add: Let_def)
next
  case xn
  have nl: "length (not_bv (v_in y)) = 2" using xn(4) by simp
  have "({0..fd_sup} - T) = bits_set (not_bv (v_in y)) (\<not> v_other y)"
    using bits_set_ops(3)[of "v_in y" "v_in y" "v_other y"] xn by simp
  then have ST: "S - T = bits_set (not_bv (v_in y)) (\<not> v_other y) \<inter> S" using fsv_rep_sub[OF assms(2)] by auto
  then have ne: "bits_set (not_bv (v_in y)) (\<not> v_other y) \<inter> S \<noteq> {}" using assms(4) xn by simp
  show ?thesis unfolding ST
    using put_domain_rep[OF and_assign_ext[OF copied_rep[OF assms(1) nl] xn(3) ne]] xn(1,2) by (simp add: minus_v_def Let_def)
next
  case xx
  have "S - T = S \<inter> ({0..fd_sup} - T)" using fsv_rep_sub[OF assms(2)] by auto
  then show ?thesis using put_domain_rep[OF fdk.inter_rep[OF xx(3) fdk.compl_rep[OF xx(4)]]] xx by (simp add: minus_v_def)
qed

lemma minus_v_words:
  assumes "fd_globals_ok g" "fsv_rep g x S" "fsv_rep g y T" "v_normal x" "\<not> v_normal y"
  shows "fsv_rep g (minus_v g z x y) (bits_set (v_in x) (v_other z) - T)"
  using assms(2,3)
proof (cases rule: fsv_cases2)
  case nx
  have eq: "z\<lparr>v_normal := True, v_in := v_in x\<rparr> = z\<lparr>v_normal := True, v_other := v_other z, v_in := v_in x\<rparr>" by simp
  have "bits_set (v_in x) (v_other z) - T = bits_set (v_in x) (v_other z) \<inter> ({0..fd_sup} - T)" using bits_set_subset[OF nx(3)] by auto
  moreover have "ext_rep g (v_IN (toExtended_v g (z\<lparr>v_normal := True, v_in := v_in x\<rparr>))) (bits_set (v_in x) (v_other z))"
    by (subst eq) (rule copied_rep[OF assms(1) nx(3)])
  ultimately show ?thesis using put_domain_rep[OF fdk.inter_rep[OF _ fdk.compl_rep[OF nx(5)]]] nx(1,2) by (simp add: minus_v_def Let_def)
qed (use assms(4,5) in auto)

text \<open>
  The empty intersection of two intervals, one in words and one as a domain. \<^verbatim>\<open>&=\<close> leaves the bounds of
  the domain and \<^verbatim>\<open>toNormal\<close> walks from the minimum to the maximum without asking for the size.
\<close>

lemma interval_descr:
  assumes "fd_rep g d {a..b}" "a \<le> b"
  shows "descr d = FdDescr" "min_elem d = a" "max_elem d = b" "fd_size d \<noteq> 0" "fd_shape g d {a..b}"
proof -
  show sh: "fd_shape g d {a..b}" by (rule fd_rep_shape[OF _ assms(1)]) (use assms(2) in simp)
  have "Min {a..b} = a" "Max {a..b} = b" using assms(2) by (auto intro: Min_eqI Max_eqI)
  then show m: "min_elem d = a" "max_elem d = b" using sh by (simp_all add: fd_shape_def)
  have "isSingleInterval d" using fd_shape_single[OF sh] m by simp
  then show "descr d = FdDescr" using assms by (auto simp: fd_rep_def)
  show "fd_size d \<noteq> 0" using fd_shape_facts(11)[OF sh] by simp
qed

lemma setBits_loop_size: "setBits_loop n (d\<lparr>fd_size := k\<rparr>) i bv = setBits_loop n d i bv"
proof -
  have "nextLargerElem (d\<lparr>fd_size := k\<rparr>) i = nextLargerElem d i" for i by (simp add: nextLargerElem_def split: descr_type.split)
  then show ?thesis by (induction n arbitrary: i bv) simp_all
qed

lemma ghost_value:
  assumes "fd_rep g d {a..b}" "fd_rep g y {c..e}" "a \<le> b" "c \<le> e" "b < 64" "{a..b} \<inter> {c..e} = {}"
    and r0: "r = put_domain z (fst (op_and_assign g d y))"
  shows "v_card r = 0 \<and> v_normal r \<and> \<not> v_other r \<and> (\<forall>i. isIn_v r i \<longleftrightarrow> i \<in> {a..b})"
proof -
  note x = interval_descr[OF assms(1,3)] and y = interval_descr[OF assms(2,4)]
  have "max_elem d < min_elem y \<or> max_elem y < min_elem d" using x(2,3) y(2,3) assms(3,4,6) by auto
  then have "fst (op_and_assign g d y) = d\<lparr>fd_size := 0\<rparr>"
    using x y assms(3) eq_state_empty[OF assms(1)] eq_state_empty[OF assms(2)] assms(4)
    by (simp add: op_and_assign_def reduce_def isSingleInterval_def)
  then have r: "r = toNormal_v (z\<lparr>v_normal := False, v_IN := d\<lparr>fd_size := 0\<rparr>, v_card := 0\<rparr>)"
    using x(3) assms(5) by (simp add: r0 maybeToNormal_v_def Let_def)
  have a: "0 \<le> a" using fd_shape_facts(8)[OF x(5)] x(2) by simp
  have zero: "bv_set [0, 0] = {}" by (simp add: bv_set_def wbits_empty_iff)
  have "bv_set (setBits_loop 64 d a [0, 0]) = bv_set [0, 0] \<union> (if a = -1 then {} else {a..b} \<inter> {a..<64}) \<and>
      length (setBits_loop 64 d a [0, 0]) = 2"
    using a assms(3) by (intro setBits_loop_spec[OF x(5)]) auto
  moreover have "{a..b} \<inter> {a..<64} = {a..b}" using assms(5) by auto
  moreover have "v_in r = setBits_loop 64 d a [0, 0]"
    using x(2) unfolding r by (simp add: toNormal_v_def setBits_loop_size numeral_2_eq_2)
  ultimately have b: "bv_set (v_in r) = {a..b}" "length (v_in r) = 2" using a zero by auto
  have o: "v_card r = 0" "v_normal r" "\<not> v_other r" unfolding r using limit_less_sup by (simp_all add: toNormal_v_def upperBound_def isIn_def)
  then have "isIn_v r i \<longleftrightarrow> i \<in> {a..b}" for i
    using b a assms(5) limit_less_sup by (auto simp: isIn_v_def testBit_fs_iff)
  then show ?thesis using o by blast
qed

lemma compl_simple: "simple_set ({0..fd_sup} - S) \<longleftrightarrow> simple_set S"
proof -
  have "{64..fd_sup} \<subseteq> {0..fd_sup}" by auto
  then show ?thesis unfolding simple_set_def by blast
qed

lemma not_v_rep:
  assumes "fd_globals_ok g" "fsv_rep g x S"
  shows "fsv_rep g (fst (not_v g z x)) ({0..fd_sup} - S) \<and> \<not> snd (not_v g z x)"
  using assms(2)
proof (cases rule: fsv_rep_cases)
  case normal
  then show ?thesis using put_words_rep[where bv = "not_bv (v_in x)" and p = "\<not> v_other x"]
    by (simp add: not_v_def bits_set_ops(3)[of _ "v_in x"])
next
  case extended
  note c = fdk.compl_rep[OF extended(2)]
  have "\<not> simple_set ({0..fd_sup} - S)" using compl_simple extended(3) by simp
  then show ?thesis using put_domain_rep[OF c, of z] extended(1) c
      maybeToNormal_spec[of g "z\<lparr>v_normal := False, v_IN := op_not g (v_IN x), v_card := fd_size (op_not g (v_IN x))\<rparr>"]
    by (simp add: not_v_def Let_def)
qed


lemma set_normal: "v_normal v \<Longrightarrow> v\<lparr>v_normal := True\<rparr> = v"
  by simp

lemma or_assign_v_eq: "or_assign_v g v y = or_v g v v y"
  by (cases "v_normal v") (simp_all add: or_assign_v_def or_v_def Let_def set_normal)

lemma and_assign_v_rep:
  assumes "fd_globals_ok g" "fsv_rep g v S" "fsv_rep g y T" "S \<inter> T \<noteq> {} \<or> v_normal v \<and> v_normal y"
  shows "fsv_rep g (and_assign_v g v y) (S \<inter> T)"
proof (cases "v_normal v \<or> v_normal y")
  case True
  then have "and_assign_v g v y = and_v g v v y"
    by (cases "v_normal v"; cases "v_normal y") (simp_all add: and_assign_v_def and_v_def Let_def set_normal)
  then show ?thesis using and_v_rep[OF assms(1-3)] assms(4) by auto
next
  case False
  with assms(2,3) have "ext_rep g (v_IN v) S" "ext_rep g (v_IN y) T" by (auto simp: fsv_rep_def)
  from put_domain_rep[OF and_assign_ext[OF this]] False assms(4) show ?thesis by (simp add: and_assign_v_def)
qed

subsection \<open>Initialisation\<close>

lemma init_v_state_rep: "fsv_rep g (init_v_state v fs_empty) {}" "fsv_rep g (init_v_state v fs_full) {0..fd_sup}"
proof -
  have z: "bv_set [0, 0] = {}" by (simp add: bv_set_def wbits_empty_iff)
  then have o: "bits_set [-1, -1] True = {0..fd_sup}"
    using bits_set_ops(3)[of "[0, 0]" "[0, 0]" False] by (simp add: not_bv_def bits_set_def)
  show "fsv_rep g (init_v_state v fs_empty) {}"
    using z by (simp add: init_v_state_def fsv_rep_def norm_rep_def bits_set_def numeral_2_eq_2)
  show "fsv_rep g (init_v_state v fs_full) {0..fd_sup}"
    using o by (simp add: init_v_state_def fsv_rep_def norm_rep_def numeral_2_eq_2)
qed

lemma init_v_fd_rep:
  assumes "fd_globals_ok g" "fd_rep g fd S"
  shows "fsv_rep g (init_v_fd v fd) S"
proof (cases "S = {}")
  case True
  then show ?thesis using assms(2) init_v_state_rep(1) by (simp add: init_v_fd_def fd_rep_def)
next
  case False
  then have "ext_rep g fd S" using assms by (simp add: ext_rep_def)
  moreover have "fd_size fd \<noteq> 0" using fd_rep_size_iff[OF assms(2)] False by simp
  moreover have eq: "v\<lparr>v_normal := False, v_IN := fd, v_card := fd_size fd\<rparr> = v\<lparr>v_card := fd_size fd, v_IN := fd, v_normal := False\<rparr>" by simp
  ultimately show ?thesis using put_domain_rep[of g fd S v] unfolding eq by (simp add: init_v_fd_def op_assign_eq Let_def)
qed

lemma initDescr_ext:
  assumes "fd_globals_ok g" "describes t S"
  shows "\<exists>d. initDescr g d0 t = Some (d, int (card S)) \<and> ext_rep g d S"
proof (cases "S = {}")
  case True
  then show ?thesis using assms(2) ext_empty[OF assms(1), of d0] by (auto simp: initEmpty_def describes_def)
next
  case False
  then show ?thesis using initDescr_refines[OF assms(1), of t S d0] assms by (auto simp: ext_rep_def describes_def)
qed

lemma init_v_term_rep:
  assumes "fd_globals_ok g" "describes t S"
  shows "\<exists>v'. init_v_term g v t = Some v' \<and> fsv_rep g v' S"
proof -
  obtain d where d: "initDescr g (v_IN v) t = Some (d, int (card S))" "ext_rep g d S"
    using initDescr_ext[OF assms] by blast
  then show ?thesis using put_domain_rep[of g d S v] fdk.count_rep[OF d(2)] by (simp add: init_v_term_def)
qed

lemma init_v_range_rep:
  assumes "fd_globals_ok g" "length (v_in v) = 2" "0 \<le> a" "a \<le> b" "b < fd_sup \<or> b = fd_sup \<and> 64 < a"
  shows "fsv_rep g (init_v_range v a b) {a..b}"
proof (cases "b < 64")
  case True
  then have "{a..b} \<inter> {0..<64} = {a..b}" "b \<noteq> fd_sup" using assms(3) limit_less_sup by auto
  moreover obtain bv n where "setFromTo_fs (v_in v) a b = (bv, n)" by fastforce
  ultimately show ?thesis using True setFromTo_fs_spec[OF assms(2), of a b]
    by (simp add: init_v_range_def fsv_rep_def norm_rep_def bits_set_def)
next
  case False
  have S: "{a..b} \<inter> {0..fd_sup} = {a..b}" using assms(3,5) by auto
  have ns: "\<not> simple_set {a..b}"
  proof (cases "b = fd_sup")
    case True
    then have "64 \<notin> {a..b}" "b \<in> {a..b} \<inter> {64..fd_sup}" "64 \<in> {64..fd_sup}" using assms(4,5) False limit_less_sup by auto
    then show ?thesis unfolding simple_set_def by blast
  next
    case other: False
    then have "fd_sup \<notin> {a..b}" "b \<in> {a..b} \<inter> {64..fd_sup}" "fd_sup \<in> {64..fd_sup}" using assms(4,5) False limit_less_sup by auto
    then show ?thesis unfolding simple_set_def by blast
  qed
  have "fd_rep g (fst (initRange (v_IN v) a b)) {a..b}" "snd (initRange (v_IN v) a b) = int (card {a..b})"
    using initRange_spec[of g "v_IN v" a b] unfolding S by blast+
  then show ?thesis using False assms(1,4,5) ns
    by (auto simp: init_v_range_def fsv_rep_def ext_rep_def split: prod.splits)
qed

text \<open>
  A set value as a domain: the right set, bounds and size, but an interval stays in an array. The
  size that the storage held must not be the width of the words by chance.
\<close>

lemma fd_of_FSetValue_rep:
  assumes "fd_globals_ok g" "2 \<le> fd_bv_max_high g" "fsv_rep g v S" "S \<noteq> {}"
    and st: "v_normal v \<Longrightarrow> v_other v \<Longrightarrow> fd_size d \<noteq> snd (findMaxElem_bv (v_in v)) - findMinElem_bv (v_in v) + 1"
  shows "fd_shape g (fd_of_FSetValue d v) S"
  using assms(3)
proof (cases rule: fsv_rep_cases)
  case normal
  let ?d = "setBv (v_in v) (d\<lparr>descr := FdDescr\<rparr>)"
  show ?thesis
  proof (cases "v_other v")
    case False
    then have b: "bv_set (v_in v) = S" using normal(3) by (simp add: bits_set_def)
    have "(setBv (v_in v) (d\<lparr>descr := FdDescr\<rparr>))\<lparr>fd_size := v_card v\<rparr> = setBv (v_in v) (d\<lparr>descr := FdDescr, fd_size := v_card v\<rparr>)"
      by (simp add: setBv_def Let_def case_prod_unfold)
    then show ?thesis using setBv_shape[OF b assms(4), of "d\<lparr>descr := FdDescr, fd_size := v_card v\<rparr>" g] assms(1,2) normal False
      by (simp add: fd_of_FSetValue_def initFSetValue_def Let_def)
  next
    case True
    obtain bv mx where m: "findMaxElem_bv (v_in v) = (bv, mx)" by (cases "findMaxElem_bv (v_in v)")
    have bv: "bv_set bv = bv_set (v_in v)"
    proof (cases "bv_set (v_in v) = {}")
      case True
      then show ?thesis using findMaxElem_bv_empty[OF True] m by (simp add: bv_set_def wbits_empty_iff)
    next
      case False
      then show ?thesis using findMaxElem_bv_Max[OF False m] by simp
    qed
    have d: "?d = d\<lparr>min_elem := findMinElem_bv (v_in v), max_elem := mx, descr := BvDescr bv\<rparr>" using m by (simp add: setBv_def)
    then have "\<not> isSingleInterval ?d" using st[OF normal(1) True] m by (simp add: isSingleInterval_def)
    then have "asIntervals ?d = raw_iv (mkRaw bv)" using d by (simp add: asIntervals_def)
    define z where "z = union_loop (-1) (raw_iv (mkRaw bv)) (init2_iv 64 fd_sup)"
    have "iv_from (-1) (raw_iv (mkRaw bv))" "iv_from (-1) (init2_iv 64 fd_sup)" using mkRaw_from limit_less_sup by (simp_all add: init2_iv_def)
    then have z: "iv_from (-1) z" "iv_set z = bv_set (v_in v) \<union> {64..fd_sup}"
      using union_loop_from[of "-1" "raw_iv (mkRaw bv)" "init2_iv 64 fd_sup" "-1"] mkRaw_set bv unfolding z_def by (simp_all add: init2_iv_def)
    then have "iv_set z = S" using normal(3) True by (simp add: bits_set_def)
    moreover have "iv_ok z" using iv_okI[OF z(1)] \<open>iv_set z = S\<close> fsv_rep_sub[OF assms(3)] by simp
    ultimately have "fd_shape g (setIv z (?d\<lparr>fd_size := v_card v\<rparr>)) S" using normal(5) assms(4) by (intro setIv_shape) simp_all
    moreover have "(setIv z ?d)\<lparr>fd_size := v_card v\<rparr> = setIv z (?d\<lparr>fd_size := v_card v\<rparr>)" by (simp add: setIv_def)
    moreover have "fst (union_iv (asIntervals ?d) (init2_iv fs_limit fs_sup)) = z"
      using \<open>asIntervals ?d = raw_iv (mkRaw bv)\<close> by (simp add: union_iv_def z_def Let_def)
    ultimately show ?thesis using normal(1) True by (simp add: fd_of_FSetValue_def initFSetValue_def Let_def)
  qed
next
  case extended
  then show ?thesis using ext_rep_facts(4)[OF extended(2)] by (simp add: fd_of_FSetValue_def op_assign_eq)
qed

subsection \<open>Queries\<close>

lemma isIn_v_rep:
  assumes "fsv_rep g v S"
  shows "isIn_v v i \<longleftrightarrow> i \<in> S"
  using assms
proof (cases rule: fsv_rep_cases)
  case normal
  then show ?thesis using limit_less_sup
    by (auto simp: isIn_v_def mem_bits_set testBit_fs_iff dest: bv2_bounds)
next
  case extended
  then show ?thesis using ext_rep_facts(1)[OF extended(2)] fdk.mem_rep[OF extended(2), of i] by (auto simp: isIn_v_def)
qed

lemma eq_v_iff:
  assumes "fsv_rep g x S" "fsv_rep g y T" "v_normal x \<or> \<not> v_normal y"
  shows "eq_v g x y \<longleftrightarrow> S = T"
  using assms(1,2)
proof (cases rule: fsv_cases2)
  case nn
  have "S = T \<longleftrightarrow> v_in x = v_in y \<and> v_other x = v_other y"
    unfolding nn(5,6) by (auto dest: bits_set_inj[OF nn(3,4)])
  moreover have "S = T \<Longrightarrow> v_card x = v_card y" using assms(1,2) by (simp add: fsv_rep_def)
  ultimately show ?thesis using nn(1,2) unfolding eq_v_def by auto
next
  case nx
  then have "S \<noteq> T" using fsv_normal_iff assms(1,2) by metis
  then show ?thesis using nx by (simp add: eq_v_def)
next
  case xx
  have "v_card x = fd_size (v_IN x)" "v_card y = fd_size (v_IN y)"
    using assms(1,2) xx ext_rep_facts(3) by (auto simp: fsv_rep_def)
  then show ?thesis using fdk.equal_test[OF xx(3,4)] xx(1) by (auto simp: eq_v_def)
qed (use assms(3) in simp)


lemma word_subset:
  assumes "length a = length b"
  shows "list_all (\<lambda>(x, y). x AND y = x) (zip a b) \<longleftrightarrow> bv_set a \<subseteq> bv_set b"
proof -
  have "list_all (\<lambda>(x, y). x AND y = x) (zip a b) \<longleftrightarrow> and_bv a b = a"
    using assms by (auto simp: list_all_length and_bv_def list_eq_iff_nth_eq)
  also have "\<dots> \<longleftrightarrow> bv_set a \<inter> bv_set b = bv_set a"
  proof
    assume "bv_set a \<inter> bv_set b = bv_set a"
    then have "wbits (and_bv a b) = wbits a" using bv_set_ops(1)[OF assms] by (simp add: bv_set_def inj_image_eq_iff)
    then have "bit (and_bv a b ! n) m \<longleftrightarrow> bit (a ! n) m" if "n < length a" for n m
      using that assms wbits_word[of m n "and_bv a b"] wbits_word[of m n a] bit_imp_le_length[of "and_bv a b ! n" m]
        bit_imp_le_length[of "a ! n" m] by (cases "m < 32") auto
    then show "and_bv a b = a" using assms by (intro nth_equalityI bit_eqI) auto
  qed (use bv_set_ops(1)[OF assms] in metis)
  finally show ?thesis by blast
qed

lemma bits_subset_iff:
  assumes "length a = 2" "length b = 2"
  shows "bits_set a p \<subseteq> bits_set b q \<longleftrightarrow> bv_set a \<subseteq> bv_set b \<and> (p \<longrightarrow> q)"
proof
  assume s: "bits_set a p \<subseteq> bits_set b q"
  have "i \<in> bv_set b" if "i \<in> bv_set a" for i
    using subsetD[OF s, of i] bv2_bounds[OF assms(1) that] that assms by (simp add: mem_bits_set)
  moreover have "64 \<in> bits_set a p \<longleftrightarrow> p" "64 \<in> bits_set b q \<longleftrightarrow> q" using assms limit_less_sup by (simp_all add: mem_bits_set)
  ultimately show "bv_set a \<subseteq> bv_set b \<and> (p \<longrightarrow> q)" using s by blast
qed (auto simp: bits_set_def)

text \<open>
  The subset test. A set kept as a domain is never below one kept in words with all elements
  above: the last branch of the code asks whether the domain holds all of them.
\<close>

lemma le_v_iff:
  assumes "fsv_rep g x S" "fsv_rep g y T"
  shows "le_v g x y \<longleftrightarrow> S \<subseteq> T \<and> \<not> (\<not> v_normal x \<and> v_normal y \<and> v_other y)"
proof (cases "v_card x > v_card y")
  case True
  then have "card S > card T" using assms by (simp add: fsv_rep_def)
  then have "\<not> S \<subseteq> T" using card_mono[of T S] fsv_rep_sub[OF assms(2)] by (metis linorder_not_less)
  then show ?thesis using True by (simp add: le_v_def)
next
  case c: False
  from assms show ?thesis
  proof (cases rule: fsv_cases2)
    case nn
    then show ?thesis using c word_subset[of "v_in x" "v_in y"] bits_subset_iff[OF nn(3,4)] by (auto simp: le_v_def)
  next
    case xx
    then show ?thesis using c fdk.subset_count(1)[OF xx(3,4)] by (simp add: le_v_def)
  next
    case nx
    have sh: "fd_shape g (v_IN y) T" using assms(2) nx ext_rep_facts(4)[OF nx(5)] by (auto simp: fsv_rep_def simple_set_def)
    have low: "list_ex (\<lambda>i. testBit_fs (v_in x) i \<and> \<not> isIn (v_IN y) i) (rev [0..fs_limit - 1]) \<longleftrightarrow> \<not> bv_set (v_in x) \<subseteq> T"
      using nx fdk.mem_rep[OF nx(5)] by (auto simp: list_ex_iff testBit_fs_iff dest: bv2_bounds)
    have "isIn (v_IN y) 64 \<and> upperBound (v_IN y) 64 = fd_sup \<longleftrightarrow> {64..fd_sup} \<subseteq> T"
      using upper_limit(1)[OF sh] fdk.mem_rep[OF nx(5), of 64] limit_less_sup by auto
    then show ?thesis using c nx low by (auto simp: le_v_def bits_set_def)
  next
    case xn
    have ns: "\<not> simple_set S" "S \<noteq> {}" using assms(1) xn by (auto simp: fsv_rep_def simple_set_def)
    have sh: "fd_shape g (v_IN x) S" using ext_rep_facts(4)[OF xn(3) ns(2)] by simp
    have low: "list_ex (\<lambda>i. isIn (v_IN x) i \<and> \<not> testBit_fs (v_in y) i) (rev [0..fs_limit - 1]) \<longleftrightarrow>
        \<not> S \<inter> {..<64} \<subseteq> bv_set (v_in y)"
      using xn fdk.mem_rep[OF xn(3)] ext_rep_facts(1)[OF xn(3)] by (auto simp: list_ex_iff testBit_fs_iff)
    have no: "\<not> (isIn (v_IN x) 64 \<and> upperBound (v_IN x) 64 = fd_sup)"
      using upper_limit(1)[OF sh] ns(1) by (auto simp: simple_set_def)
    have nx: "next_larger S 63 (nextLargerElem (v_IN x) 63)" by (rule next_shape(2)[OF sh]) simp
    have "\<not> S \<subseteq> bv_set (v_in y)" using ns(1) bv2_bounds[OF xn(4)] by (fastforce simp: simple_set_def)
    moreover have "nextLargerElem (v_IN x) 63 \<ge> 0"
      using nx ns(1) by (auto simp: next_larger_def simple_set_def split: if_splits)
    ultimately show ?thesis using c xn low no by (auto simp: le_v_def bits_set_def)
  qed
qed


subsection \<open>Walking through a set\<close>

lemma minWord_eq: "minWord p v ws = (if wbits ws = {} then (if p then 64 else -1) else findMinElem_loop v ws)"
proof (induction ws arbitrary: v)
  case (Cons w ws)
  have "w = 0 \<Longrightarrow> wbits (w # ws) = {} \<longleftrightarrow> wbits ws = {}" "w \<noteq> 0 \<Longrightarrow> wbits (w # ws) \<noteq> {}"
    by (auto simp: wbits_empty_iff)
  then show ?case using Cons by simp
qed simp

lemma maxWord_eq: "maxWord v ws = (if \<exists>w \<in> set ws. w \<noteq> 0 then findMaxElem_loop v ws else -1)"
  by (induction ws arbitrary: v) auto

lemma getMinElem_v_rep:
  assumes "fsv_rep g v S"
  shows "getMinElem_v v = (if S = {} then -1 else Min S)"
  using assms
proof (cases rule: fsv_rep_cases)
  case normal
  let ?b = "v_in v"
  show ?thesis
  proof (cases "bv_set ?b = {}")
    case True
    then have "minWord (v_other v) 0 ?b = (if v_other v then 64 else -1)" by (simp add: minWord_eq bv_set_def)
    moreover have "S = (if v_other v then {64..fd_sup} else {})" using True normal(3) by (simp add: bits_set_def)
    moreover have "{64..fd_sup} \<noteq> {}" "Min {64..fd_sup} = 64" using limit_less_sup by (auto intro: Min_eqI)
    ultimately show ?thesis using normal(1) by (simp add: getMinElem_v_def)
  next
    case False
    then have w: "minWord (v_other v) 0 ?b = Min (bv_set ?b)"
      using findMinElem_bv_Min[of ?b] by (simp add: minWord_eq bv_set_def findMinElem_bv_def)
    have m: "Min (bv_set ?b) \<in> bv_set ?b" using False by simp
    then have "Min (bv_set ?b) < 64" using bv2_bounds[OF normal(2)] by blast
    then have "Min S = Min (bv_set ?b)" using m unfolding normal(3) bits_set_def
      by (intro Min_eqI) (auto intro: Min_le split: if_splits)
    moreover have "S \<noteq> {}" using False unfolding normal(3) bits_set_def by auto
    ultimately show ?thesis using w normal(1) by (simp add: getMinElem_v_def)
  qed
next
  case extended
  then show ?thesis using ext_rep_facts(4)[OF extended(2)] by (simp add: getMinElem_v_def)
qed

lemma getMaxElem_v_rep:
  assumes "fsv_rep g v S"
  shows "getMaxElem_v v = (if S = {} then -1 else Max S)"
  using assms
proof (cases rule: fsv_rep_cases)
  case normal
  let ?b = "v_in v"
  show ?thesis
  proof (cases "v_other v")
    case True
    then have "fd_sup \<in> S" using limit_less_sup unfolding normal(3) bits_set_def by simp
    moreover have "i \<le> fd_sup" if "i \<in> S" for i using fsv_rep_sub[OF assms] that by auto
    ultimately have "Max S = fd_sup" using fsv_rep_sub[OF assms] by (intro Max_eqI) auto
    then show ?thesis using True normal(1) \<open>fd_sup \<in> S\<close> by (auto simp: getMaxElem_v_def)
  next
    case False
    then have S: "S = bv_set ?b" using normal(3) by (simp add: bits_set_def)
    have e: "S = {} \<longleftrightarrow> \<not> (\<exists>w \<in> set (rev ?b). w \<noteq> 0)" unfolding S by (simp add: bv_set_def wbits_empty_iff)
    have "S \<noteq> {} \<Longrightarrow> findMaxElem_loop 63 (rev ?b) = Max S"
      using findMaxElem_bv_Max[of ?b "fst (findMaxElem_bv ?b)" "snd (findMaxElem_bv ?b)"] normal(2)
      unfolding S by (simp add: findMaxElem_bv_def currBvMaxElem_def Let_def)
    then show ?thesis using False normal(1) e by (auto simp: getMaxElem_v_def maxWord_eq)
  qed
next
  case extended
  then show ?thesis using ext_rep_facts(4)[OF extended(2)] by (simp add: getMaxElem_v_def)
qed


lemma firstBit_up:
  assumes "length bv = 2"
  shows "next_larger (bv_set bv) i (firstBit bv [i + 1..63])"
proof (cases "List.find (testBit_fs bv) [i + 1..63]")
  case None
  then have "\<not> (\<exists>j \<in> bv_set bv. i < j)" using bv2_bounds[OF assms] by (force simp: find_None_iff testBit_fs_iff[OF assms])
  then show ?thesis using None by (simp add: next_larger_def firstBit_def)
next
  case (Some r)
  then obtain k where k: "k < length [i + 1..63]" "r = [i + 1..63] ! k" "r \<in> bv_set bv"
      "\<forall>j < k. [i + 1..63] ! j \<notin> bv_set bv"
    by (auto simp: find_Some_iff testBit_fs_iff[OF assms])
  have r: "r = i + 1 + int k" using k(1,2) by simp
  have "r \<le> j" if "j \<in> bv_set bv" "i < j" for j
  proof (rule ccontr)
    assume "\<not> r \<le> j"
    then have "nat (j - i - 1) < k" "[i + 1..63] ! nat (j - i - 1) = j"
      using that(2) r bv2_bounds[OF assms that(1)] by auto
    then show False using k(4) that(1) by metis
  qed
  then show ?thesis using Some k(3) r by (intro next_largerI) (auto simp: firstBit_def)
qed

lemma firstBit_down:
  assumes "length bv = 2"
  shows "next_smaller (bv_set bv) i (firstBit bv (rev [0..i - 1]))"
proof (cases "List.find (testBit_fs bv) (rev [0..i - 1])")
  case None
  then have "\<not> (\<exists>j \<in> bv_set bv. j < i)" using bv2_bounds[OF assms] by (force simp: find_None_iff testBit_fs_iff[OF assms])
  then show ?thesis using None by (simp add: next_smaller_def firstBit_def)
next
  case (Some r)
  then obtain k where k: "k < length [0..i - 1]" "r = rev [0..i - 1] ! k" "r \<in> bv_set bv"
      "\<forall>j < k. rev [0..i - 1] ! j \<notin> bv_set bv"
    by (auto simp: find_Some_iff testBit_fs_iff[OF assms])
  have nth: "rev [0..i - 1] ! j = i - 1 - int j" if "j < nat i" for j
  proof -
    have "0 < i" using that by linarith
    then show ?thesis using that by (simp add: rev_nth)
  qed
  have r: "r = i - 1 - int k" using k(1,2) nth[of k] by simp
  have "j \<le> r" if "j \<in> bv_set bv" "j < i" for j
  proof (rule ccontr)
    assume "\<not> j \<le> r"
    then have "nat (i - 1 - j) < k" "rev [0..i - 1] ! nat (i - 1 - j) = j"
      using that(2) r bv2_bounds[OF assms that(1)] nth[of "nat (i - 1 - j)"] by auto
    then show False using k(4) that(1) by metis
  qed
  then show ?thesis using Some k(3) r by (intro next_smallerI) (auto simp: firstBit_def)
qed

text \<open>
  The next element. From an element below the limit the code does not go on to the part above
  when no word has a larger bit.
\<close>

lemma getNextLargerElem_v_rep:
  assumes "fsv_rep g v S" "-1 \<le> i" "\<not> (v_normal v \<and> v_other v \<and> i < 63 \<and> S \<inter> {i<..<64} = {})"
  shows "next_larger S i (getNextLargerElem_v v i)"
  using assms(1)
proof (cases rule: fsv_rep_cases)
  case normal
  note n = firstBit_up[OF normal(2), of i]
  have mem: "j \<in> S \<longleftrightarrow> (if j < 64 then j \<in> bv_set (v_in v) else j \<le> fd_sup \<and> v_other v)" for j
    unfolding normal(3) by (rule mem_bits_set[OF normal(2)])
  show ?thesis
  proof (cases "v_other v")
    case False
    then have "S = bv_set (v_in v)" using normal(3) by (simp add: bits_set_def)
    then show ?thesis using n False normal(1) by (simp add: getNextLargerElem_v_def)
  next
    case o: True
    show ?thesis
    proof (cases "i \<ge> 63")
      case True
      then have "getNextLargerElem_v v i = (if i < fd_sup then i + 1 else -1)" using o normal(1) by (simp add: getNextLargerElem_v_def)
      moreover have "j \<in> S \<longleftrightarrow> j \<le> fd_sup" if "i < j" for j using mem[of j] that True o by auto
      ultimately show ?thesis using True
        by (cases "i < fd_sup") (auto intro!: next_largerI next_larger_none simp: not_less[symmetric])
    next
      case low: False
      then have "S \<inter> {i<..<64} \<noteq> {}" using assms(3) normal(1) o by simp
      then obtain j where j: "j \<in> bv_set (v_in v)" "i < j" using mem by auto
      let ?r = "firstBit (v_in v) [i + 1..63]"
      have r: "?r \<in> bv_set (v_in v)" "i < ?r" "\<And>j. j \<in> bv_set (v_in v) \<Longrightarrow> i < j \<Longrightarrow> ?r \<le> j"
        using n j by (auto simp: next_larger_def split: if_splits)
      then have "?r < 64" using bv2_bounds[OF normal(2)] by blast
      then have "next_larger S i ?r" using r mem by (intro next_largerI) (auto split: if_splits)
      then show ?thesis using low normal(1) by (simp add: getNextLargerElem_v_def)
    qed
  qed
next
  case extended
  then show ?thesis using ext_rep_facts(4)[OF extended(2,4)] next_shape(2)[of g "v_IN v" S i] assms(2) by (simp add: getNextLargerElem_v_def)
qed

lemma getNextSmallerElem_v_rep:
  assumes "fsv_rep g v S" "i \<le> fd_sup"
  shows "next_smaller S i (getNextSmallerElem_v v i)"
  using assms(1)
proof (cases rule: fsv_rep_cases)
  case normal
  note n = firstBit_down[OF normal(2), of i]
  have mem: "j \<in> S \<longleftrightarrow> (if j < 64 then j \<in> bv_set (v_in v) else j \<le> fd_sup \<and> v_other v)" for j
    unfolding normal(3) by (rule mem_bits_set[OF normal(2)])
  show ?thesis
  proof (cases "i > 64 \<and> v_other v")
    case True
    then have "i - 1 \<in> S" using mem assms(2) by simp
    then have "next_smaller S i (i - 1)" by (intro next_smallerI) auto
    then show ?thesis using True normal(1) assms(2) by (simp add: getNextSmallerElem_v_def)
  next
    case False
    have "next_smaller S i r \<longleftrightarrow> next_smaller (bv_set (v_in v)) i r" for r
      using False mem bv2_bounds[OF normal(2)] by (intro next_smaller_cong) force
    then show ?thesis using False n normal(1) by (auto simp: getNextSmallerElem_v_def)
  qed
next
  case extended
  then show ?thesis using ext_rep_facts(4)[OF extended(2,4)] next_shape(1)[of g "v_IN v" S i] by (simp add: getNextSmallerElem_v_def)
qed

subsection \<open>Lists\<close>

lemma getKnownInList_v_denotes:
  assumes "fsv_rep g v S" "before \<noteq> 63"
  shows "describes (getKnownInList_v before v) S"
  using assms(1)
proof (cases rule: fsv_rep_cases)
  case normal
  then show ?thesis using getAsList_fs_denotes[OF normal(2) assms(2), of False "v_other v"] by (simp add: getKnownInList_v_def)
next
  case extended
  then show ?thesis using getAsList_describes[OF ext_repD(1)[OF extended(2)]] by (simp add: getKnownInList_v_def)
qed

lemma getKnownNotInList_v_denotes:
  assumes "fsv_rep g v S" "before \<noteq> 63"
  shows "describes (getKnownNotInList_v g before v) ({0..fd_sup} - S)"
  using assms(1)
proof (cases rule: fsv_rep_cases)
  case normal
  then show ?thesis using getAsList_fs_denotes[OF normal(2) assms(2), of True "v_other v"] by (simp add: getKnownNotInList_v_def)
next
  case extended
  then show ?thesis using getAsList_describes[OF ext_repD(1)[OF fdk.compl_rep[OF extended(2)]]] by (simp add: getKnownNotInList_v_def)
qed

end
