(* ===== verification/FSetConstraint.thy ===== *)
theory FSetConstraint
  imports FSetValue
begin

text \<open>
  Class \<^verbatim>\<open>FSetConstraint\<close> of \<^verbatim>\<open>platform/emulator/fset.cc\<close>: what is known of a set variable. The
  elements known to be in the set and those known not to be in it are kept in words with a
  flag or as two finite domains, both in the same form; with them go their numbers and the
  bounds of the cardinality. A lower bound of -1 marks a constraint that failed.

  This theory holds the state and the operations; what they mean for the sets a constraint
  admits is in \<^verbatim>\<open>FSetSolutions\<close>. Operations that change the object return the new one; the
  objects that the operators declare (\<^verbatim>\<open>FSetConstraint z;\<close>) are initialised by the default
  constructor except for the two domains, so the storage \<open>z\<close> is an argument again. \<^const>\<open>None\<close> is
  an access outside the arrays or a term that is no description of a set.
\<close>

section \<open>State\<close>

record FSetConstraint =
  c_card_min :: int
  c_card_max :: int
  c_known_in :: int
  c_known_not_in :: int
  c_normal :: bool
  c_otherin :: bool
  c_otherout :: bool
  c_IN :: OZ_FiniteDomain
  c_OUT :: OZ_FiniteDomain
  c_in :: "int32 list"
  c_not_in :: "int32 list"

definition isValid_c :: "FSetConstraint \<Rightarrow> bool" where
  "isValid_c c \<longleftrightarrow> c_card_min c \<noteq> -1"

definition isValue_c :: "FSetConstraint \<Rightarrow> bool" where
  "isValue_c c \<longleftrightarrow> c_card_min c = c_card_max c \<and> c_card_min c = c_known_in c"

definition getCardSize_c :: "FSetConstraint \<Rightarrow> int" where
  "getCardSize_c c = c_card_max c - c_card_min c + 1"

definition getUnknown_c :: "FSetConstraint \<Rightarrow> int" where
  "getUnknown_c c = fs_sup - c_known_in c - c_known_not_in c + 1"

subsection \<open>Changing the form\<close>

definition collect_bits :: "OZ_FiniteDomain \<Rightarrow> int32 list" where
  "collect_bits d =
     fold (\<lambda>i bv. if isIn d i then setBit_fs bv i else bv) [0..fs_limit - 1] (replicate fset_high 0)"

definition toNormal_c :: "FSetConstraint \<Rightarrow> FSetConstraint" where
  "toNormal_c c =
     c\<lparr>c_in := collect_bits (c_IN c), c_not_in := collect_bits (c_OUT c),
       c_otherin := (upperBound (c_IN c) fs_limit = fs_sup),
       c_otherout := (upperBound (c_OUT c) fs_limit = fs_sup), c_normal := True\<rparr>"

definition toExtended_c :: "fd_globals \<Rightarrow> FSetConstraint \<Rightarrow> FSetConstraint" where
  "toExtended_c g c =
     (let di = (if c_otherin c then fst (initRange (c_IN c) fs_limit fs_sup) else fst (initEmpty (c_IN c)));
          dn = (if c_otherout c then fst (initRange (c_OUT c) fs_limit fs_sup) else fst (initEmpty (c_OUT c)))
      in c\<lparr>c_IN := add_bits g (c_in c) [0..fs_limit - 1] di,
           c_OUT := add_bits g (c_not_in c) [0..fs_limit - 1] dn, c_normal := False\<rparr>)"

definition maybeToNormal_c :: "FSetConstraint \<Rightarrow> FSetConstraint \<times> bool" where
  "maybeToNormal_c c =
     (let i = max_elem (c_IN c); j = max_elem (c_OUT c)
      in if i \<ge> fs_limit \<and> i < fs_sup then (c, False)
         else if j \<ge> fs_limit \<and> j < fs_sup then (c, False)
         else if i \<ge> fs_limit \<and> lowerBound (c_IN c) fs_sup > fs_limit then (c, False)
         else if j \<ge> fs_limit \<and> lowerBound (c_OUT c) fs_sup > fs_limit then (c, False)
         else (toNormal_c c, True))"

subsection \<open>Initialisation\<close>

text \<open>The constructor from two cardinalities and two descriptions.\<close>

definition fsc_cards :: "fd_globals \<Rightarrow> FSetConstraint \<Rightarrow> int \<Rightarrow> int \<Rightarrow> oz_term \<Rightarrow> oz_term \<Rightarrow> FSetConstraint option" where
  "fsc_cards g c cmin cmax ins outs =
     (case initDescr g (c_IN c) ins of
        None \<Rightarrow> None
      | Some (di, ni) \<Rightarrow>
          (case initDescr g (c_OUT c) outs of
             None \<Rightarrow> None
           | Some (dn, no) \<Rightarrow>
               (let c = c\<lparr>c_card_min := cmin, c_card_max := cmax, c_normal := False,
                          c_IN := di, c_known_in := ni, c_OUT := dn, c_known_not_in := no\<rparr>
                in if fd_size (op_and g (c_IN c) (c_OUT c)) \<noteq> 0 then Some (c\<lparr>c_card_min := -1\<rparr>)
                   else
                     (let c = fst (maybeToNormal_c c)
                      in Some (if c_card_max c < c_known_in c \<or> c_card_max c < c_card_min c
                               then c\<lparr>c_card_min := -1\<rparr> else c)))))"

text \<open>The constructor from a least and a greatest set, which does not compare the two.\<close>

definition fsc_bounds :: "fd_globals \<Rightarrow> FSetConstraint \<Rightarrow> oz_term \<Rightarrow> oz_term \<Rightarrow> FSetConstraint option" where
  "fsc_bounds g c minimal_in maximal_in =
     (case initDescr g (c_IN c) minimal_in of
        None \<Rightarrow> None
      | Some (di, ni) \<Rightarrow>
          (case initDescr g (c_OUT c) maximal_in of
             None \<Rightarrow> None
           | Some (dn, no) \<Rightarrow>
               (let dn = op_not g dn; no = fd_size dn
                in Some (fst (maybeToNormal_c
                     (c\<lparr>c_normal := False, c_IN := di, c_card_min := ni, c_known_in := ni, c_OUT := dn,
                        c_known_not_in := no, c_card_max := fs_sup - no + 1\<rparr>))))))"

definition init_c :: "FSetConstraint \<Rightarrow> FSetConstraint" where
  "init_c c =
     c\<lparr>c_known_in := 0, c_known_not_in := 0, c_card_min := 0, c_normal := True, c_otherin := False,
       c_otherout := False, c_in := replicate fset_high 0, c_not_in := replicate fset_high 0,
       c_card_max := fs_sup + 1\<rparr>"

definition init_c_v :: "fd_globals \<Rightarrow> FSetConstraint \<Rightarrow> FSetValue \<Rightarrow> FSetConstraint" where
  "init_c_v g c s =
     (let c = c\<lparr>c_known_in := v_card s, c_card_min := v_card s, c_card_max := v_card s\<rparr>;
          c = (if v_normal s then
                 c\<lparr>c_normal := True, c_otherin := v_other s, c_otherout := \<not> v_other s,
                   c_in := v_in s, c_not_in := not_bv (v_in s)\<rparr>
               else
                 c\<lparr>c_normal := False, c_IN := v_IN s, c_OUT := op_not g (v_IN s)\<rparr>)
      in c\<lparr>c_known_not_in := fs_sup - c_known_in c + 1\<rparr>)"

definition init_c_state :: "FSetConstraint \<Rightarrow> OZ_FSetState \<Rightarrow> FSetConstraint" where
  "init_c_state c s =
     (case s of
        fs_empty \<Rightarrow>
          c\<lparr>c_normal := True, c_otherin := False, c_otherout := True, c_in := replicate fset_high 0,
            c_not_in := replicate fset_high (NOT 0), c_card_min := 0, c_card_max := 0, c_known_in := 0,
            c_known_not_in := fs_sup + 1\<rparr>
      | fs_full \<Rightarrow>
          c\<lparr>c_normal := True, c_otherin := True, c_otherout := False, c_in := replicate fset_high (NOT 0),
            c_not_in := replicate fset_high 0, c_card_min := fs_sup + 1, c_card_max := fs_sup + 1,
            c_known_in := fs_sup + 1, c_known_not_in := 0\<rparr>)"

definition init_c_c :: "FSetConstraint \<Rightarrow> FSetConstraint \<Rightarrow> FSetConstraint" where
  "init_c_c c y =
     (let c = c\<lparr>c_normal := c_normal y\<rparr>;
          c = (if c_normal y then
                 c\<lparr>c_in := c_in y, c_not_in := c_not_in y, c_otherin := c_otherin y, c_otherout := c_otherout y\<rparr>
               else c\<lparr>c_IN := c_IN y, c_OUT := c_OUT y\<rparr>)
      in c\<lparr>c_known_in := c_known_in y, c_known_not_in := c_known_not_in y,
           c_card_min := c_card_min y, c_card_max := c_card_max y\<rparr>)"

text \<open>\<^verbatim>\<open>FSetValue::init(const FSetConstraint &)\<close>, for a constraint that is a value.\<close>

definition init_v_c :: "FSetValue \<Rightarrow> FSetConstraint \<Rightarrow> FSetValue" where
  "init_v_c v fs =
     (let v = v\<lparr>v_card := c_card_min fs\<rparr>
      in if c_normal fs then v\<lparr>v_normal := True, v_in := c_in fs, v_other := c_otherin fs\<rparr>
         else v\<lparr>v_normal := False, v_IN := c_IN fs\<rparr>)"

subsection \<open>Normalisation\<close>

text \<open>The statements of \<^verbatim>\<open>normalize\<close> in their order: the overlap, the counts, the bounds, the two completions.\<close>

definition overlaps_c :: "fd_globals \<Rightarrow> FSetConstraint \<Rightarrow> bool" where
  "overlaps_c g c =
     (if c_normal c then (c_otherin c \<and> c_otherout c) \<or> meet_bv (c_in c) (c_not_in c)
      else fd_size (op_and g (c_IN c) (c_OUT c)) \<noteq> 0)"

definition count_c :: "FSetConstraint \<Rightarrow> FSetConstraint" where
  "count_c c =
     (if c_normal c then
        c\<lparr>c_known_in := findBitsSet (c_in c) + (if c_otherin c then size_of_other else 0),
          c_known_not_in := findBitsSet (c_not_in c) + (if c_otherout c then size_of_other else 0)\<rparr>
      else c\<lparr>c_known_in := fd_size (c_IN c), c_known_not_in := fd_size (c_OUT c)\<rparr>)"

definition tighten_c :: "FSetConstraint \<Rightarrow> FSetConstraint" where
  "tighten_c c =
     (let c = (if c_known_in c > c_card_min c then c\<lparr>c_card_min := c_known_in c\<rparr> else c)
      in if fs_sup - c_known_not_in c + 1 < c_card_max c
         then c\<lparr>c_card_max := fs_sup - c_known_not_in c + 1\<rparr> else c)"

definition closeOut_c :: "fd_globals \<Rightarrow> FSetConstraint \<Rightarrow> FSetConstraint" where
  "closeOut_c g c =
     (let c = c\<lparr>c_card_min := c_card_max c, c_known_not_in := fs_sup - c_known_in c + 1\<rparr>
      in if c_normal c then c\<lparr>c_not_in := not_bv (c_in c), c_otherout := \<not> c_otherin c\<rparr>
         else fst (maybeToNormal_c (c\<lparr>c_OUT := op_not g (c_IN c)\<rparr>)))"

definition closeIn_c :: "fd_globals \<Rightarrow> FSetConstraint \<Rightarrow> FSetConstraint" where
  "closeIn_c g c =
     (let c = c\<lparr>c_known_in := c_card_min c, c_card_max := c_card_min c\<rparr>
      in if c_normal c then c\<lparr>c_in := not_bv (c_not_in c), c_otherin := \<not> c_otherout c\<rparr>
         else fst (maybeToNormal_c (c\<lparr>c_IN := op_not g (c_OUT c)\<rparr>)))"

definition complete_c :: "fd_globals \<Rightarrow> FSetConstraint \<Rightarrow> FSetConstraint" where
  "complete_c g c =
     (let c = (if c_card_max c = c_known_in c then closeOut_c g c else c)
      in if c_card_min c = fs_sup - c_known_not_in c + 1 then closeIn_c g c else c)"

definition normalize_c :: "fd_globals \<Rightarrow> FSetConstraint \<Rightarrow> FSetConstraint \<times> bool" where
  "normalize_c g c =
     (if \<not> isValid_c c then (c, False)
      else if overlaps_c g c then (c\<lparr>c_card_min := -1\<rparr>, False)
      else
        (let c = (if c_normal c then c else fst (maybeToNormal_c c));
             c = tighten_c (count_c c)
         in if c_card_max c < c_known_in c \<or> c_card_min c > fs_sup - c_known_not_in c + 1 \<or> c_card_max c < c_card_min c
            then (c\<lparr>c_card_min := -1\<rparr>, False)
            else (complete_c g c, True)))"

subsection \<open>Tests\<close>

definition valid_c :: "fd_globals \<Rightarrow> FSetConstraint \<Rightarrow> FSetValue \<Rightarrow> bool" where
  "valid_c g c fs =
     (if v_card fs < c_card_min c \<or> c_card_max c < v_card fs then False
      else if c_normal c then
        (if v_normal fs then
           \<not> (c_otherin c \<and> \<not> v_other fs) \<and> \<not> (v_other fs \<and> c_otherout c) \<and>
           \<not> meet_bv (c_in c) (not_bv (v_in fs)) \<and> \<not> meet_bv (c_not_in c) (v_in fs)
         else
           fd_size (op_and g (set_Aux g (c_in c) (c_otherin c)) (op_not g (v_IN fs))) = 0 \<and>
           fd_size (op_and g (set_Aux g (c_not_in c) (c_otherout c)) (v_IN fs)) = 0)
      else if v_normal fs then
        fd_size (op_and g (c_OUT c) (set_Aux g (v_in fs) (v_other fs))) = 0 \<and>
        fd_size (op_and g (c_IN c) (op_not g (set_Aux g (v_in fs) (v_other fs)))) = 0
      else
        fd_size (op_and g (c_IN c) (op_not g (v_IN fs))) = 0 \<and>
        fd_size (op_and g (c_OUT c) (v_IN fs)) = 0)"

definition isWeakerThan_c :: "FSetConstraint \<Rightarrow> FSetConstraint \<Rightarrow> bool" where
  "isWeakerThan_c c y \<longleftrightarrow>
     c_known_in c < c_known_in y \<or> c_known_not_in c < c_known_not_in y \<or> getCardSize_c c > getCardSize_c y"

definition isIn_c :: "FSetConstraint \<Rightarrow> int \<Rightarrow> bool" where
  "isIn_c c i =
     (if c_normal c then (if i < fs_limit then testBit_fs (c_in c) i else i \<le> fs_sup \<and> c_otherin c)
      else isIn (c_IN c) i)"

definition isNotIn_c :: "FSetConstraint \<Rightarrow> int \<Rightarrow> bool" where
  "isNotIn_c c i =
     (if c_normal c then (if i < fs_limit then testBit_fs (c_not_in c) i else i \<le> fs_sup \<and> c_otherout c)
      else isIn (c_OUT c) i)"

definition isEmpty_c :: "FSetConstraint \<Rightarrow> bool" where
  "isEmpty_c c \<longleftrightarrow> isValue_c c \<and> c_card_min c = 0"

definition isFull_c :: "FSetConstraint \<Rightarrow> bool" where
  "isFull_c c \<longleftrightarrow> isValue_c c \<and> c_card_min c = fs_sup + 1"

definition isSubsumedBy_c :: "fd_globals \<Rightarrow> FSetConstraint \<Rightarrow> FSetConstraint \<Rightarrow> bool" where
  "isSubsumedBy_c g c y =
     (if isValue_c c then
        (if c_normal c then
           (if c_normal y then \<not> (c_otherin c \<and> \<not> c_otherin y) \<and> \<not> meet_bv (c_in c) (not_bv (c_in y))
            else \<not> fd_size (op_and g (set_Aux g (c_in c) (c_otherin c)) (c_IN y)) < c_known_in c)
         else
           (if c_normal y then \<not> fd_size (op_and g (c_IN c) (set_Aux g (c_in y) (c_otherin y))) < c_known_in c
            else \<not> fd_size (op_and g (c_IN c) (c_IN y)) < c_known_in c))
      else if isValue_c y then
        (if c_normal c then
           (if c_normal y then \<not> (\<not> c_otherout c \<and> c_otherout y) \<and> \<not> meet_bv (not_bv (c_not_in c)) (c_not_in y)
            else fd_size (op_and g (op_not g (set_Aux g (c_not_in c) (c_otherout c))) (c_OUT y)) = 0)
         else
           (if c_normal y then fd_size (op_and g (op_not g (c_OUT c)) (set_Aux g (c_not_in y) (c_otherout y))) = 0
            else fd_size (op_and g (op_not g (c_OUT c)) (c_OUT y)) = 0))
      else False)"

text \<open>\<^verbatim>\<open>operator %\<close>: the two cannot be equal.\<close>

definition differ_c :: "fd_globals \<Rightarrow> FSetConstraint \<Rightarrow> FSetConstraint \<Rightarrow> bool" where
  "differ_c g c y =
     (if c_card_min c > c_card_max y \<or> c_card_max c < c_card_min y then True
      else if c_normal c then
        (if c_normal y then
           (c_otherin c \<and> c_otherout y) \<or> (c_otherout c \<and> c_otherin y) \<or>
           meet_bv (c_in c) (c_not_in y) \<or> meet_bv (c_not_in c) (c_in y)
         else
           fd_size (op_and g (set_Aux g (c_in c) (c_otherin c)) (c_OUT y)) \<noteq> 0 \<or>
           fd_size (op_and g (c_IN y) (set_Aux g (c_not_in c) (c_otherout c))) \<noteq> 0)
      else if c_normal y then
        fd_size (op_and g (c_IN c) (set_Aux g (c_not_in y) (c_otherout y))) \<noteq> 0 \<or>
        fd_size (op_and g (set_Aux g (c_in y) (c_otherin y)) (c_OUT c)) \<noteq> 0
      else
        fd_size (op_and g (c_IN c) (c_OUT y)) \<noteq> 0 \<or> fd_size (op_and g (c_IN y) (c_OUT c)) \<noteq> 0)"

definition eq_c :: "fd_globals \<Rightarrow> FSetConstraint \<Rightarrow> FSetConstraint \<Rightarrow> bool" where
  "eq_c g c y =
     (if c_card_min c \<noteq> c_card_min y \<or> c_card_max c \<noteq> c_card_max y \<or>
         c_known_not_in c \<noteq> c_known_not_in y \<or> c_known_in c \<noteq> c_known_in y then False
      else if c_normal c \<noteq> c_normal y then False
      else if c_normal c then
        c_otherin c = c_otherin y \<and> c_otherout c = c_otherout y \<and> c_in c = c_in y \<and> c_not_in c = c_not_in y
      else
        fd_size (op_and g (c_IN c) (c_IN y)) = c_known_in c \<and>
        fd_size (op_and g (c_OUT c) (c_OUT y)) = c_known_not_in c)"


subsection \<open>Telling\<close>

definition putCard_c :: "fd_globals \<Rightarrow> FSetConstraint \<Rightarrow> int \<Rightarrow> int \<Rightarrow> FSetConstraint \<times> bool" where
  "putCard_c g c min_card max_card =
     normalize_c g (c\<lparr>c_card_min := max min_card (c_card_min c), c_card_max := min max_card (c_card_max c)\<rparr>)"

text \<open>The operators \<^verbatim>\<open><=\<close> and \<^verbatim>\<open>>=\<close> with a number bound the cardinality and return true on failure.\<close>

definition le_int_c :: "fd_globals \<Rightarrow> FSetConstraint \<Rightarrow> int \<Rightarrow> FSetConstraint \<times> bool" where
  "le_int_c g c i = (let (c, r) = normalize_c g (c\<lparr>c_card_max := min i (c_card_max c)\<rparr>) in (c, \<not> r))"

definition ge_int_c :: "fd_globals \<Rightarrow> FSetConstraint \<Rightarrow> int \<Rightarrow> FSetConstraint \<times> bool" where
  "ge_int_c g c i = (let (c, r) = normalize_c g (c\<lparr>c_card_min := max i (c_card_min c)\<rparr>) in (c, \<not> r))"

definition plus_int_c :: "fd_globals \<Rightarrow> FSetConstraint \<Rightarrow> int \<Rightarrow> FSetConstraint \<times> bool" where
  "plus_int_c g c i =
     (if i < 0 \<or> i > fs_sup then (c, True)
      else if c_normal c then
        (if i < fs_limit then normalize_c g (c\<lparr>c_in := setBit_fs (c_in c) i\<rparr>)
         else if c_otherin c then (c, True)
         else (let c = toExtended_c g c in normalize_c g (c\<lparr>c_IN := fst (op_plus_int g (c_IN c) i)\<rparr>)))
      else normalize_c g (c\<lparr>c_IN := fst (op_plus_int g (c_IN c) i)\<rparr>))"

definition minus_int_c :: "fd_globals \<Rightarrow> FSetConstraint \<Rightarrow> int \<Rightarrow> FSetConstraint \<times> bool" where
  "minus_int_c g c i =
     (if i < 0 \<or> i > fs_sup then (c, True)
      else if c_normal c then
        (if i < fs_limit then normalize_c g (c\<lparr>c_not_in := setBit_fs (c_not_in c) i\<rparr>)
         else if c_otherout c then (c, True)
         else (let c = toExtended_c g c in normalize_c g (c\<lparr>c_OUT := fst (op_plus_int g (c_OUT c) i)\<rparr>)))
      else normalize_c g (c\<lparr>c_OUT := fst (op_plus_int g (c_OUT c) i)\<rparr>))"

text \<open>\<^verbatim>\<open>operator <<=\<close>: take over all that is known of another variable.\<close>

definition imply_c :: "fd_globals \<Rightarrow> FSetConstraint \<Rightarrow> FSetConstraint \<Rightarrow> FSetConstraint \<times> bool" where
  "imply_c g c y =
     (let c =
        (if c_normal c then
           (if c_normal y then
              c\<lparr>c_otherin := c_otherin c \<or> c_otherin y, c_otherout := c_otherout c \<or> c_otherout y,
                c_in := or_bv (c_in c) (c_in y), c_not_in := or_bv (c_not_in c) (c_not_in y)\<rparr>
            else
              (let c = toExtended_c g c
               in c\<lparr>c_IN := op_or g (c_IN c) (c_IN y), c_OUT := op_or g (c_OUT c) (c_OUT y)\<rparr>))
         else if c_normal y then
           c\<lparr>c_IN := op_or g (c_IN c) (set_Aux g (c_in y) (c_otherin y)),
             c_OUT := op_or g (c_OUT c) (set_Aux g (c_not_in y) (c_otherout y))\<rparr>
         else c\<lparr>c_IN := op_or g (c_IN c) (c_IN y), c_OUT := op_or g (c_OUT c) (c_OUT y)\<rparr>)
      in normalize_c g
           (c\<lparr>c_card_min := max (c_card_min c) (c_card_min y), c_card_max := min (c_card_max c) (c_card_max y)\<rparr>))"

text \<open>The updates that the relations below share: more elements out, or more elements in.\<close>

definition le_c :: "fd_globals \<Rightarrow> FSetConstraint \<Rightarrow> FSetConstraint \<Rightarrow> FSetConstraint \<times> bool" where
  "le_c g c y =
     (let c =
        (if c_normal c then
           (if c_normal y then
              c\<lparr>c_otherout := c_otherout c \<or> c_otherout y, c_not_in := or_bv (c_not_in c) (c_not_in y)\<rparr>
            else (let c = toExtended_c g c in c\<lparr>c_OUT := op_or g (c_OUT c) (c_OUT y)\<rparr>))
         else if c_normal y then c\<lparr>c_OUT := op_or g (c_OUT c) (set_Aux g (c_not_in y) (c_otherout y))\<rparr>
         else c\<lparr>c_OUT := op_or g (c_OUT c) (c_OUT y)\<rparr>)
      in normalize_c g (c\<lparr>c_card_max := min (c_card_max c) (c_card_max y)\<rparr>))"

definition ge_c :: "fd_globals \<Rightarrow> FSetConstraint \<Rightarrow> FSetConstraint \<Rightarrow> FSetConstraint \<times> bool" where
  "ge_c g c y =
     (let c =
        (if c_normal c then
           (if c_normal y then c\<lparr>c_otherin := c_otherin c \<or> c_otherin y, c_in := or_bv (c_in c) (c_in y)\<rparr>
            else (let c = toExtended_c g c in c\<lparr>c_IN := op_or g (c_IN c) (c_IN y)\<rparr>))
         else if c_normal y then c\<lparr>c_IN := op_or g (c_IN c) (set_Aux g (c_in y) (c_otherin y))\<rparr>
         else c\<lparr>c_IN := op_or g (c_IN c) (c_IN y)\<rparr>)
      in normalize_c g (c\<lparr>c_card_min := max (c_card_min c) (c_card_min y)\<rparr>))"

text \<open>\<^verbatim>\<open>operator !=\<close>: disjointness.\<close>

definition disjoint_c :: "fd_globals \<Rightarrow> FSetConstraint \<Rightarrow> FSetConstraint \<Rightarrow> FSetConstraint \<times> bool" where
  "disjoint_c g c y =
     normalize_c g
       (if c_normal c then
          (if c_normal y then
             c\<lparr>c_otherout := c_otherout c \<or> c_otherin y, c_not_in := or_bv (c_not_in c) (c_in y)\<rparr>
           else (let c = toExtended_c g c in c\<lparr>c_OUT := op_or g (c_OUT c) (c_IN y)\<rparr>))
        else if c_normal y then c\<lparr>c_OUT := op_or g (c_OUT c) (set_Aux g (c_in y) (c_otherin y))\<rparr>
        else c\<lparr>c_OUT := op_or g (c_OUT c) (c_IN y)\<rparr>)"

text \<open>The operators \<^verbatim>\<open>|=\<close> and \<^verbatim>\<open>&=\<close> with a set value return true on failure, too.\<close>

definition or_assign_c :: "fd_globals \<Rightarrow> FSetConstraint \<Rightarrow> FSetValue \<Rightarrow> FSetConstraint \<times> bool" where
  "or_assign_c g c y =
     (let c =
        (if c_normal c then
           (if v_normal y then
              c\<lparr>c_otherin := c_otherin c \<or> v_other y, c_in := or_bv (c_in c) (v_in y), c_normal := True\<rparr>
            else (let c = toExtended_c g c in c\<lparr>c_IN := op_or g (c_IN c) (v_IN y), c_normal := False\<rparr>))
         else if v_normal y then
           c\<lparr>c_IN := op_or g (c_IN c) (set_Aux g (v_in y) (v_other y)), c_normal := False\<rparr>
         else c\<lparr>c_IN := op_or g (c_IN c) (v_IN y), c_normal := False\<rparr>);
        (c, r) = normalize_c g c
      in (c, \<not> r))"

definition and_assign_c :: "fd_globals \<Rightarrow> FSetValue \<Rightarrow> FSetConstraint \<Rightarrow> FSetValue \<Rightarrow> FSetConstraint \<times> bool" where
  "and_assign_c g neg_y c y =
     (let neg_y = fst (not_v g neg_y y);
          c =
        (if c_normal c then
           (if v_normal neg_y then
              c\<lparr>c_otherout := c_otherout c \<or> v_other neg_y, c_not_in := or_bv (c_not_in c) (v_in neg_y), c_normal := True\<rparr>
            else (let c = toExtended_c g c in c\<lparr>c_OUT := op_or g (c_OUT c) (v_IN neg_y), c_normal := False\<rparr>))
         else if v_normal neg_y then
           c\<lparr>c_OUT := op_or g (c_OUT c) (set_Aux g (v_in neg_y) (v_other neg_y)), c_normal := False\<rparr>
         else c\<lparr>c_OUT := op_or g (c_OUT c) (v_IN neg_y), c_normal := False\<rparr>);
        (c, r) = normalize_c g c
      in (c, \<not> r))"

definition ge_elem_c :: "fd_globals \<Rightarrow> FSetConstraint \<Rightarrow> int \<Rightarrow> (FSetConstraint \<times> bool) option" where
  "ge_elem_c g c ii =
     (if ii = 0 then Some (normalize_c g c)
      else if c_normal c then
        (if ii < fs_limit then
           (if ii < 0 then None
            else
              (let lower_word = widx ii; lower_bit = bidx ii;
                   bv = fill_words 0 lower_word (NOT 0) (c_not_in c);
                   bv = bv[lower_word := bv ! lower_word OR NOT (toTheUpperEnd ! lower_bit)]
               in Some (normalize_c g (c\<lparr>c_not_in := bv\<rparr>))))
         else
           (let c = toExtended_c g c; aux = fst (initRange new_fd 0 (max (ii - 1) 0));
                c = fst (maybeToNormal_c (c\<lparr>c_OUT := op_or g (c_OUT c) aux\<rparr>))
            in Some (normalize_c g c)))
      else
        (let aux = fst (initRange new_fd 0 (max (ii - 1) 0))
         in Some (normalize_c g (c\<lparr>c_OUT := op_or g (c_OUT c) aux\<rparr>))))"

definition le_elem_c :: "fd_globals \<Rightarrow> FSetConstraint \<Rightarrow> int \<Rightarrow> (FSetConstraint \<times> bool) option" where
  "le_elem_c g c ii =
     (if ii = fs_sup then Some (normalize_c g c)
      else if c_normal c then
        (if ii < fs_limit then
           (if ii < 0 then None
            else
              (let upper_word = widx ii; upper_bit = bidx ii;
                   bv = fill_words (upper_word + 1) fset_high (NOT 0) (c_not_in c);
                   bv = bv[upper_word := bv ! upper_word OR NOT (toTheLowerEnd ! upper_bit)]
               in Some (normalize_c g (c\<lparr>c_not_in := bv, c_otherout := True\<rparr>))))
         else
           (let c = toExtended_c g c; aux = fst (initRange new_fd (min fs_sup (ii + 1)) fs_sup);
                c = fst (maybeToNormal_c (c\<lparr>c_OUT := op_or g (c_OUT c) aux\<rparr>))
            in Some (normalize_c g c)))
      else
        (let aux = fst (initRange new_fd (min fs_sup (ii + 1)) fs_sup)
         in Some (normalize_c g (c\<lparr>c_OUT := op_or g (c_OUT c) aux\<rparr>))))"

subsection \<open>Operators with a new constraint\<close>

definition unify_c :: "fd_globals \<Rightarrow> FSetConstraint \<Rightarrow> FSetConstraint \<Rightarrow> FSetConstraint \<Rightarrow> FSetConstraint" where
  "unify_c g z c y =
     (let z = (init_c z)\<lparr>c_card_min := max (c_card_min c) (c_card_min y), c_card_max := min (c_card_max c) (c_card_max y)\<rparr>
      in if c_card_max z < c_card_min z then z\<lparr>c_card_min := -1\<rparr>
         else fst (normalize_c g
           (if c_normal c then
              (if c_normal y then
                 z\<lparr>c_normal := True, c_otherin := c_otherin c \<or> c_otherin y, c_otherout := c_otherout c \<or> c_otherout y,
                   c_in := or_bv (c_in c) (c_in y), c_not_in := or_bv (c_not_in c) (c_not_in y)\<rparr>
               else
                 z\<lparr>c_normal := False, c_IN := op_or g (set_Aux g (c_in c) (c_otherin c)) (c_IN y),
                   c_OUT := op_or g (set_Aux g (c_not_in c) (c_otherout c)) (c_OUT y)\<rparr>)
            else if c_normal y then
              z\<lparr>c_normal := False, c_IN := op_or g (c_IN c) (set_Aux g (c_in y) (c_otherin y)),
                c_OUT := op_or g (c_OUT c) (set_Aux g (c_not_in y) (c_otherout y))\<rparr>
            else
              z\<lparr>c_normal := False, c_IN := op_or g (c_IN c) (c_IN y), c_OUT := op_or g (c_OUT c) (c_OUT y)\<rparr>)))"

definition uminus_c :: "fd_globals \<Rightarrow> FSetConstraint \<Rightarrow> FSetConstraint \<Rightarrow> FSetConstraint" where
  "uminus_c g z c =
     (let z = init_c z
      in if c_card_min c = -1 then z\<lparr>c_card_min := -1\<rparr>
         else fst (normalize_c g
           (if c_normal c then
              z\<lparr>c_normal := True, c_otherin := c_otherout c, c_otherout := c_otherin c,
                c_in := c_not_in c, c_not_in := c_in c\<rparr>
            else z\<lparr>c_normal := False, c_IN := c_OUT c, c_OUT := c_IN c\<rparr>)))"

definition and_c :: "fd_globals \<Rightarrow> FSetConstraint \<Rightarrow> FSetConstraint \<Rightarrow> FSetConstraint \<Rightarrow> FSetConstraint" where
  "and_c g z c y =
     (let z = init_c z
      in if \<not> isValid_c c \<or> \<not> isValid_c y then z\<lparr>c_card_min := -1\<rparr>
         else
           (let z =
              (if c_normal c then
                 (if c_normal y then
                    z\<lparr>c_normal := True, c_otherin := c_otherin c \<and> c_otherin y, c_otherout := c_otherout c \<or> c_otherout y,
                      c_in := and_bv (c_in c) (c_in y), c_not_in := or_bv (c_not_in c) (c_not_in y)\<rparr>
                  else
                    z\<lparr>c_normal := False, c_IN := op_and g (set_Aux g (c_in c) (c_otherin c)) (c_IN y),
                      c_OUT := op_or g (set_Aux g (c_not_in c) (c_otherout c)) (c_OUT y)\<rparr>)
               else if c_normal y then
                 z\<lparr>c_normal := False, c_IN := op_and g (c_IN c) (set_Aux g (c_in y) (c_otherin y)),
                   c_OUT := op_or g (c_OUT c) (set_Aux g (c_not_in y) (c_otherout y))\<rparr>
               else
                 z\<lparr>c_normal := False, c_IN := op_and g (c_IN c) (c_IN y), c_OUT := op_or g (c_OUT c) (c_OUT y)\<rparr>)
            in fst (normalize_c g (z\<lparr>c_card_min := 0, c_card_max := min (c_card_max c) (c_card_max y)\<rparr>))))"

definition or_c :: "fd_globals \<Rightarrow> FSetConstraint \<Rightarrow> FSetConstraint \<Rightarrow> FSetConstraint \<Rightarrow> FSetConstraint" where
  "or_c g z c y =
     (let z = init_c z
      in if \<not> isValid_c c \<or> \<not> isValid_c y then z\<lparr>c_card_min := -1\<rparr>
         else
           (let z =
              (if c_normal c then
                 (if c_normal y then
                    z\<lparr>c_normal := True, c_otherin := c_otherin c \<or> c_otherin y, c_otherout := c_otherout c \<and> c_otherout y,
                      c_in := or_bv (c_in c) (c_in y), c_not_in := and_bv (c_not_in c) (c_not_in y)\<rparr>
                  else
                    z\<lparr>c_normal := False, c_IN := op_or g (set_Aux g (c_in c) (c_otherin c)) (c_IN y),
                      c_OUT := op_and g (set_Aux g (c_not_in c) (c_otherout c)) (c_OUT y)\<rparr>)
               else if c_normal y then
                 z\<lparr>c_normal := False, c_IN := op_or g (c_IN c) (set_Aux g (c_in y) (c_otherin y)),
                   c_OUT := op_and g (c_OUT c) (set_Aux g (c_not_in y) (c_otherout y))\<rparr>
               else
                 z\<lparr>c_normal := False, c_IN := op_or g (c_IN c) (c_IN y), c_OUT := op_and g (c_OUT c) (c_OUT y)\<rparr>)
            in fst (normalize_c g (z\<lparr>c_card_min := max (c_card_min c) (c_card_min y), c_card_max := c_card_max c + c_card_max y\<rparr>))))"

definition minus_c :: "fd_globals \<Rightarrow> FSetConstraint \<Rightarrow> FSetConstraint \<Rightarrow> FSetConstraint \<Rightarrow> FSetConstraint" where
  "minus_c g z c y =
     (let z = init_c z
      in if \<not> isValid_c c \<or> \<not> isValid_c y then z\<lparr>c_card_min := -1\<rparr>
         else
           (let z =
              (if c_normal c then
                 (if c_normal y then
                    z\<lparr>c_normal := True, c_otherin := c_otherin c \<and> c_otherout y, c_otherout := c_otherout c \<or> c_otherin y,
                      c_in := and_bv (c_in c) (c_not_in y), c_not_in := or_bv (c_not_in c) (c_in y)\<rparr>
                  else
                    z\<lparr>c_normal := False, c_IN := op_and g (set_Aux g (c_in c) (c_otherin c)) (c_OUT y),
                      c_OUT := op_or g (set_Aux g (c_not_in c) (c_otherout c)) (c_IN y)\<rparr>)
               else if c_normal y then
                 z\<lparr>c_normal := False, c_IN := op_and g (c_IN c) (set_Aux g (c_not_in y) (c_otherout y)),
                   c_OUT := op_or g (c_OUT c) (set_Aux g (c_in y) (c_otherin y))\<rparr>
               else
                 z\<lparr>c_normal := False, c_IN := op_and g (c_IN c) (c_OUT y), c_OUT := op_or g (c_OUT c) (c_IN y)\<rparr>)
            in fst (normalize_c g (z\<lparr>c_card_min := 0, c_card_max := c_card_max c\<rparr>))))"


subsection \<open>Reading\<close>

definition getGlbSet_c :: "FSetValue \<Rightarrow> FSetConstraint \<Rightarrow> FSetValue" where
  "getGlbSet_c v c = (if c_normal c then fsv_of_bits v (c_in c) (c_otherin c) else init_v_fd v (c_IN c))"

definition getLubSet_c :: "fd_globals \<Rightarrow> FSetValue \<Rightarrow> FSetConstraint \<Rightarrow> FSetValue" where
  "getLubSet_c g v c =
     (if c_normal c then fsv_of_bits v (not_bv (c_not_in c)) (\<not> c_otherout c) else init_v_fd v (op_not g (c_OUT c)))"

definition getUnknownSet_c :: "fd_globals \<Rightarrow> FSetValue \<Rightarrow> FSetConstraint \<Rightarrow> FSetValue" where
  "getUnknownSet_c g v c =
     (if c_normal c then fsv_of_bits v (not_bv (or_bv (c_in c) (c_not_in c))) (\<not> (c_otherin c \<or> c_otherout c))
      else init_v_fd v (op_not g (op_or g (c_IN c) (c_OUT c))))"

definition getNotInSet_c :: "FSetValue \<Rightarrow> FSetConstraint \<Rightarrow> FSetValue" where
  "getNotInSet_c v c = (if c_normal c then fsv_of_bits v (c_not_in c) (c_otherout c) else init_v_fd v (c_OUT c))"

definition getGlbCard_c :: "FSetConstraint \<Rightarrow> int" where
  "getGlbCard_c c =
     (if c_normal c then findBitsSet (c_in c) + (if c_otherin c then size_of_other else 0) else fd_size (c_IN c))"

definition getLubCard_c :: "FSetConstraint \<Rightarrow> int" where
  "getLubCard_c c =
     (if c_normal c then fs_sup + 1 - findBitsSet (c_not_in c) - (if c_otherout c then size_of_other else 0)
      else fs_sup - fd_size (c_OUT c))"

definition getNotInCard_c :: "FSetConstraint \<Rightarrow> int" where
  "getNotInCard_c c =
     (if c_normal c then findBitsSet (c_not_in c) + (if c_otherout c then size_of_other else 0) else fd_size (c_OUT c))"

definition getUnknownCard_c :: "FSetConstraint \<Rightarrow> int" where
  "getUnknownCard_c c =
     (if c_normal c then
        fs_sup - findBitsSet (c_not_in c) - findBitsSet (c_in c) -
          (if c_otherout c \<or> c_otherin c then size_of_other else 0)
      else fs_sup - fd_size (c_IN c) - fd_size (c_OUT c))"

text \<open>Bounds and neighbours: words go by way of a set value, domains are asked directly where the code does.\<close>

definition getGlbMinElem_c :: "FSetValue \<Rightarrow> FSetConstraint \<Rightarrow> int" where
  "getGlbMinElem_c v c = (if \<not> c_normal c then min_elem (c_IN c) else getMinElem_v (getGlbSet_c v c))"

definition getLubMinElem_c :: "fd_globals \<Rightarrow> FSetValue \<Rightarrow> FSetConstraint \<Rightarrow> int" where
  "getLubMinElem_c g v c = getMinElem_v (getLubSet_c g v c)"

definition getNotInMinElem_c :: "FSetValue \<Rightarrow> FSetConstraint \<Rightarrow> int" where
  "getNotInMinElem_c v c = (if \<not> c_normal c then min_elem (c_OUT c) else getMinElem_v (getNotInSet_c v c))"

definition getUnknownMinElem_c :: "fd_globals \<Rightarrow> FSetValue \<Rightarrow> FSetConstraint \<Rightarrow> int" where
  "getUnknownMinElem_c g v c = getMinElem_v (getUnknownSet_c g v c)"

definition getGlbMaxElem_c :: "FSetValue \<Rightarrow> FSetConstraint \<Rightarrow> int" where
  "getGlbMaxElem_c v c = (if \<not> c_normal c then max_elem (c_IN c) else getMaxElem_v (getGlbSet_c v c))"

definition getLubMaxElem_c :: "fd_globals \<Rightarrow> FSetValue \<Rightarrow> FSetConstraint \<Rightarrow> int" where
  "getLubMaxElem_c g v c = getMaxElem_v (getLubSet_c g v c)"

definition getNotInMaxElem_c :: "FSetValue \<Rightarrow> FSetConstraint \<Rightarrow> int" where
  "getNotInMaxElem_c v c = (if \<not> c_normal c then max_elem (c_OUT c) else getMaxElem_v (getNotInSet_c v c))"

definition getUnknownMaxElem_c :: "fd_globals \<Rightarrow> FSetValue \<Rightarrow> FSetConstraint \<Rightarrow> int" where
  "getUnknownMaxElem_c g v c = getMaxElem_v (getUnknownSet_c g v c)"

definition getGlbNextSmallerElem_c :: "FSetValue \<Rightarrow> FSetConstraint \<Rightarrow> int \<Rightarrow> int" where
  "getGlbNextSmallerElem_c v c i =
     (if \<not> c_normal c then nextSmallerElem (c_IN c) i else getNextSmallerElem_v (getGlbSet_c v c) i)"

definition getLubNextSmallerElem_c :: "fd_globals \<Rightarrow> FSetValue \<Rightarrow> FSetConstraint \<Rightarrow> int \<Rightarrow> int" where
  "getLubNextSmallerElem_c g v c i = getNextSmallerElem_v (getLubSet_c g v c) i"

definition getNotInNextSmallerElem_c :: "FSetValue \<Rightarrow> FSetConstraint \<Rightarrow> int \<Rightarrow> int" where
  "getNotInNextSmallerElem_c v c i =
     (if \<not> c_normal c then nextSmallerElem (c_IN c) i else getNextSmallerElem_v (getNotInSet_c v c) i)"

definition getUnknownNextSmallerElem_c :: "fd_globals \<Rightarrow> FSetValue \<Rightarrow> FSetConstraint \<Rightarrow> int \<Rightarrow> int" where
  "getUnknownNextSmallerElem_c g v c i = getNextSmallerElem_v (getUnknownSet_c g v c) i"

definition getGlbNextLargerElem_c :: "FSetValue \<Rightarrow> FSetConstraint \<Rightarrow> int \<Rightarrow> int" where
  "getGlbNextLargerElem_c v c i =
     (if \<not> c_normal c then nextLargerElem (c_IN c) i else getNextLargerElem_v (getGlbSet_c v c) i)"

definition getLubNextLargerElem_c :: "fd_globals \<Rightarrow> FSetValue \<Rightarrow> FSetConstraint \<Rightarrow> int \<Rightarrow> int" where
  "getLubNextLargerElem_c g v c i = getNextLargerElem_v (getLubSet_c g v c) i"

definition getNotInNextLargerElem_c :: "FSetValue \<Rightarrow> FSetConstraint \<Rightarrow> int \<Rightarrow> int" where
  "getNotInNextLargerElem_c v c i =
     (if \<not> c_normal c then nextLargerElem (c_OUT c) i else getNextLargerElem_v (getNotInSet_c v c) i)"

definition getUnknownNextLargerElem_c :: "fd_globals \<Rightarrow> FSetValue \<Rightarrow> FSetConstraint \<Rightarrow> int \<Rightarrow> int" where
  "getUnknownNextLargerElem_c g v c i = getNextLargerElem_v (getUnknownSet_c g v c) i"

text \<open>Lists; \<open>before\<close> is the integer before the conversion array (see \<^const>\<open>getAsList_fs\<close>).\<close>

definition getKnownInList_c :: "int \<Rightarrow> FSetConstraint \<Rightarrow> oz_term" where
  "getKnownInList_c before c =
     (if c_normal c then getAsList_fs before (c_in c) False (c_otherin c) else getAsList (c_IN c))"

definition getKnownNotInList_c :: "int \<Rightarrow> FSetConstraint \<Rightarrow> oz_term" where
  "getKnownNotInList_c before c =
     (if c_normal c then getAsList_fs before (c_not_in c) False (c_otherout c) else getAsList (c_OUT c))"

definition getUnknownList_c :: "fd_globals \<Rightarrow> int \<Rightarrow> FSetConstraint \<Rightarrow> oz_term" where
  "getUnknownList_c g before c =
     (if c_normal c then
        getAsList_fs before (not_bv (or_bv (c_in c) (c_not_in c))) False (\<not> (c_otherin c \<or> c_otherout c))
      else getAsList (op_not g (op_or g (c_IN c) (c_OUT c))))"

definition getLubList_c :: "fd_globals \<Rightarrow> int \<Rightarrow> FSetConstraint \<Rightarrow> oz_term" where
  "getLubList_c g before c =
     (if c_normal c then getAsList_fs before (c_not_in c) True (c_otherout c) else getAsList (op_not g (c_OUT c)))"

definition getCardTuple_c :: "FSetConstraint \<Rightarrow> oz_term" where
  "getCardTuple_c c =
     (if c_card_min c = c_card_max c then SmallInt (c_card_min c) else oz_pairII (c_card_min c) (c_card_max c))"

section \<open>What a constraint stands for\<close>

definition fsc_rep :: "fd_globals \<Rightarrow> FSetConstraint \<Rightarrow> int set \<Rightarrow> int set \<Rightarrow> bool" where
  "fsc_rep g c I Q \<longleftrightarrow>
     (if c_normal c then norm_rep (c_in c, c_otherin c) I \<and> norm_rep (c_not_in c, c_otherout c) Q
      else ext_rep g (c_IN c) I \<and> ext_rep g (c_OUT c) Q)"

lemma fsc_rep_sub: "fsc_rep g c I Q \<Longrightarrow> I \<subseteq> {0..fd_sup} \<and> Q \<subseteq> {0..fd_sup} \<and> finite I \<and> finite Q"
  using nrm.rep_sub nrm.rep_finite fdk.rep_sub fdk.rep_finite by (cases "c_normal c") (simp_all add: fsc_rep_def; metis)+

lemma fsc_cases2:
  assumes "fsc_rep g c I Q" "fsc_rep g y J R"
  obtains (nn) "c_normal c" "c_normal y" "norm_rep (c_in c, c_otherin c) I" "norm_rep (c_not_in c, c_otherout c) Q"
      "norm_rep (c_in y, c_otherin y) J" "norm_rep (c_not_in y, c_otherout y) R"
    | (nx) "c_normal c" "\<not> c_normal y" "norm_rep (c_in c, c_otherin c) I" "norm_rep (c_not_in c, c_otherout c) Q"
      "ext_rep g (c_IN y) J" "ext_rep g (c_OUT y) R"
    | (xn) "\<not> c_normal c" "c_normal y" "ext_rep g (c_IN c) I" "ext_rep g (c_OUT c) Q"
      "norm_rep (c_in y, c_otherin y) J" "norm_rep (c_not_in y, c_otherout y) R"
    | (xx) "\<not> c_normal c" "\<not> c_normal y" "ext_rep g (c_IN c) I" "ext_rep g (c_OUT c) Q"
      "ext_rep g (c_IN y) J" "ext_rep g (c_OUT y) R"
  using assms unfolding fsc_rep_def by (cases "c_normal c"; cases "c_normal y") auto

lemma collect_bits_set:
  assumes "ext_rep g d S"
  shows "length (collect_bits d) = 2 \<and> bv_set (collect_bits d) = S \<inter> {..<64}"
proof -
  have "length bv = 2 \<Longrightarrow> (\<And>i. i \<in> set ixs \<Longrightarrow> 0 \<le> i \<and> i < 64) \<Longrightarrow>
      length (fold (\<lambda>i bv. if isIn d i then setBit_fs bv i else bv) ixs bv) = 2 \<and>
      bv_set (fold (\<lambda>i bv. if isIn d i then setBit_fs bv i else bv) ixs bv) = bv_set bv \<union> (S \<inter> set ixs)" for ixs bv
  proof (induction ixs arbitrary: bv)
    case (Cons i ixs)
    have "bv_set (setBit_fs bv i) = insert i (bv_set bv)"
      using Cons.prems(1) Cons.prems(2)[of i] by (simp add: setBit_fs_eq setBit_bv_set currBvMaxElem_def)
    then show ?case using Cons.IH[of "if isIn d i then setBit_fs bv i else bv"] Cons.prems fdk.mem_rep[OF assms, of i] by auto
  qed simp
  from this[of "[0, 0]" "[0..63]"]
  have "length (collect_bits d) = 2 \<and> bv_set (collect_bits d) = bv_set [0, 0] \<union> (S \<inter> {0..63})"
    unfolding collect_bits_def by (simp add: numeral_2_eq_2)
  moreover have "bv_set [0, 0] = {}" by (simp add: bv_set_def wbits_empty_iff)
  moreover have "S \<inter> {0..63} = S \<inter> {..<64}" using ext_rep_facts(1)[OF assms] by auto
  ultimately show ?thesis by simp
qed


lemma toNormal_c_rep:
  assumes "ext_rep g (c_IN c) I" "ext_rep g (c_OUT c) Q" "simple_set I" "simple_set Q"
  shows "fsc_rep g (toNormal_c c) I Q"
proof -
  have "norm_rep (collect_bits d, upperBound d fs_limit = fs_sup) S" if "ext_rep g d S" "simple_set S" for d S
    using that collect_bits_set[OF that(1)] upper_simple[OF that] ext_rep_facts(1)[OF that(1)] by (intro simple_split) auto
  then show ?thesis using assms by (simp add: fsc_rep_def toNormal_c_def)
qed

lemma maybeToNormal_c_spec:
  assumes "ext_rep g (c_IN c) I" "ext_rep g (c_OUT c) Q"
  shows "maybeToNormal_c c = (if simple_set I \<and> simple_set Q then (toNormal_c c, True) else (c, False))"
  using fits_words[OF assms(1)] fits_words[OF assms(2)] by (auto simp: maybeToNormal_c_def Let_def)

text \<open>The form is words exactly when both sets fit them.\<close>

definition canonical_c :: "FSetConstraint \<Rightarrow> int set \<Rightarrow> int set \<Rightarrow> bool" where
  "canonical_c c I Q \<longleftrightarrow> (c_normal c \<longleftrightarrow> simple_set I \<and> simple_set Q)"

lemma toNormal_c_simps [simp]:
  "c_normal (toNormal_c c)" "c_card_min (toNormal_c c) = c_card_min c" "c_card_max (toNormal_c c) = c_card_max c"
  "c_known_in (toNormal_c c) = c_known_in c" "c_known_not_in (toNormal_c c) = c_known_not_in c"
  by (simp_all add: toNormal_c_def)

lemma maybe_c_rep:
  assumes "ext_rep g (c_IN c) I" "ext_rep g (c_OUT c) Q" "\<not> c_normal c" "c' = fst (maybeToNormal_c c)"
  shows "fsc_rep g c' I Q" "canonical_c c' I Q"
    "c_card_min c' = c_card_min c" "c_card_max c' = c_card_max c"
    "c_known_in c' = c_known_in c" "c_known_not_in c' = c_known_not_in c"
  unfolding assms(4) maybeToNormal_c_spec[OF assms(1,2)] using toNormal_c_rep[OF assms(1,2)] assms(1-3)
  by (auto simp: canonical_c_def fsc_rep_def)

lemma normal_canonical: "fsc_rep g c I Q \<Longrightarrow> c_normal c \<Longrightarrow> canonical_c c I Q"
  using simple_bits by (auto simp: fsc_rep_def norm_rep_def canonical_c_def)

lemma toExtended_c_rep:
  assumes "fd_globals_ok g"
  shows "norm_rep (c_in c, c_otherin c) I \<Longrightarrow> ext_rep g (c_IN (toExtended_c g c)) I"
    "norm_rep (c_not_in c, c_otherout c) Q \<Longrightarrow> ext_rep g (c_OUT (toExtended_c g c)) Q"
proof -
  have s: "set [0..fs_limit - 1] = {0..<64}" by auto
  show "norm_rep (c_in c, c_otherin c) I \<Longrightarrow> ext_rep g (c_IN (toExtended_c g c)) I"
    "norm_rep (c_not_in c, c_otherout c) Q \<Longrightarrow> ext_rep g (c_OUT (toExtended_c g c)) Q"
    using add_all_bits[OF assms(1) _ s, of "c_in c" "c_otherin c" "c_IN c"]
      add_all_bits[OF assms(1) _ s, of "c_not_in c" "c_otherout c" "c_OUT c"]
    unfolding toExtended_c_def Let_def norm_rep_def by simp_all
qed

lemma toExtended_c_simps [simp]:
  "\<not> c_normal (toExtended_c g c)" "c_card_min (toExtended_c g c) = c_card_min c"
  "c_card_max (toExtended_c g c) = c_card_max c"
  by (simp_all add: toExtended_c_def Let_def)

lemma aux_rep: "fd_globals_ok g \<Longrightarrow> norm_rep (bv, p) S \<Longrightarrow> ext_rep g (set_Aux g bv p) S"
  using set_Aux_rep[of g bv p] by (auto simp: norm_rep_def)

lemma norm_ops:
  assumes "norm_rep (a, p) S" "norm_rep (b, q) T"
  shows "norm_rep (and_bv a b, p \<and> q) (S \<inter> T)" "norm_rep (or_bv a b, p \<or> q) (S \<union> T)"
    "norm_rep (not_bv a, \<not> p) ({0..fd_sup} - S)"
  using nrm.inter_rep[OF assms] nrm.union_rep[OF assms] nrm.compl_rep[OF assms(1)] by simp_all

lemma meet_norm: "norm_rep (a, p) S \<Longrightarrow> norm_rep (b, q) T \<Longrightarrow> (p \<and> q) \<or> meet_bv a b \<longleftrightarrow> S \<inter> T \<noteq> {}"
  using meet_bits_iff[of a b p q] by (simp add: norm_rep_def)

end
