(* ===== verification/FSetSolutions.thy ===== *)
theory FSetSolutions
  imports FSetConstraint
begin

text \<open>
  What the operations of \<^verbatim>\<open>FSetConstraint\<close> mean. A constraint admits the sets that contain all
  elements known to be in, none known to be out, and whose cardinality is within the bounds
  (\<open>set_sols\<close>). Telling a constraint intersects the admitted sets with the sets that satisfy
  what is told, \<^verbatim>\<open>normalize\<close> decides whether any set is left, and the operators on two
  constraints give a constraint that admits every result of the operation on admitted sets.
\<close>

section \<open>The sets a constraint admits\<close>

definition set_sols :: "int set \<Rightarrow> int set \<Rightarrow> int \<Rightarrow> int \<Rightarrow> int set set" where
  "set_sols I Q lo hi =
     {S. I \<subseteq> S \<and> S \<subseteq> {0..fd_sup} - Q \<and> lo \<le> int (card S) \<and> int (card S) \<le> hi}"

definition fsc_inv :: "fd_globals \<Rightarrow> FSetConstraint \<Rightarrow> int set \<Rightarrow> int set \<Rightarrow> bool" where
  "fsc_inv g c I Q \<longleftrightarrow> fsc_rep g c I Q \<and> canonical_c c I Q \<and> I \<inter> Q = {} \<and>
     c_known_in c = int (card I) \<and> c_known_not_in c = int (card Q) \<and>
     int (card I) \<le> c_card_min c \<and> c_card_min c \<le> c_card_max c \<and>
     c_card_max c \<le> fd_sup + 1 - int (card Q) \<and>
     (c_card_max c = int (card I) \<longrightarrow> Q = {0..fd_sup} - I) \<and>
     (c_card_min c = fd_sup + 1 - int (card Q) \<longrightarrow> I = {0..fd_sup} - Q)"

definition fsc_sols :: "fd_globals \<Rightarrow> FSetConstraint \<Rightarrow> int set set \<Rightarrow> bool" where
  "fsc_sols g c X \<longleftrightarrow>
     (\<exists>I Q. fsc_inv g c I Q \<and> X = set_sols I Q (c_card_min c) (c_card_max c))"

text \<open>The result of an operation that tells: a constraint for the sets \<open>X\<close>, or failure when there is none.\<close>

definition told :: "fd_globals \<Rightarrow> FSetConstraint \<times> bool \<Rightarrow> int set set \<Rightarrow> bool" where
  "told g p X \<longleftrightarrow>
     (if snd p then fsc_sols g (fst p) X \<and> X \<noteq> {} else X = {} \<and> c_card_min (fst p) = -1)"

lemma card_univ: "card {0..fd_sup} = nat (fd_sup + 1)"
  by simp

lemma card_compl:
  assumes "Q \<subseteq> {0..fd_sup}"
  shows "int (card ({0..fd_sup} - Q)) = fd_sup + 1 - int (card Q)"
proof -
  have "card Q \<le> card {0..fd_sup}" using assms by (intro card_mono) auto
  then show ?thesis using card_Diff_subset[of Q "{0..fd_sup}"] finite_subset[OF assms] assms by simp
qed

lemma sols_card:
  assumes "S \<in> set_sols I Q lo hi" "I \<subseteq> {0..fd_sup}" "Q \<subseteq> {0..fd_sup}"
  shows "int (card I) \<le> int (card S)" "int (card S) \<le> fd_sup + 1 - int (card Q)" "finite S"
proof -
  have S: "I \<subseteq> S" "S \<subseteq> {0..fd_sup} - Q" using assms(1) by (auto simp: set_sols_def)
  then show f: "finite S" using finite_subset by blast
  show "int (card I) \<le> int (card S)" using card_mono[OF f S(1)] by simp
  show "int (card S) \<le> fd_sup + 1 - int (card Q)"
  proof -
    have "card S \<le> card ({0..fd_sup} - Q)" by (rule card_mono[OF _ S(2)]) simp
    then show ?thesis using card_compl[OF assms(3)] by linarith
  qed
qed

lemma sols_tight:
  assumes "I \<subseteq> {0..fd_sup}" "Q \<subseteq> {0..fd_sup}"
  shows "set_sols I Q lo hi = set_sols I Q (max lo (int (card I))) (min hi (fd_sup + 1 - int (card Q)))"
proof (rule set_eqI)
  fix S
  show "S \<in> set_sols I Q lo hi \<longleftrightarrow> S \<in> set_sols I Q (max lo (int (card I))) (min hi (fd_sup + 1 - int (card Q)))"
    using sols_card(1,2)[OF _ assms, of S lo hi] unfolding set_sols_def mem_Collect_eq by linarith
qed

lemma sols_nonempty:
  assumes "I \<subseteq> {0..fd_sup}" "Q \<subseteq> {0..fd_sup}" "I \<inter> Q = {}" "int (card I) \<le> lo" "lo \<le> hi" "hi \<le> fd_sup + 1 - int (card Q)"
  shows "set_sols I Q lo hi \<noteq> {}"
proof -
  have fin: "finite I" using assms(1) finite_subset by blast
  have sub: "I \<subseteq> {0..fd_sup} - Q" using assms(1,3) by auto
  have "card ({0..fd_sup} - Q - I) = card ({0..fd_sup} - Q) - card I" using sub by (simp add: card_Diff_subset fin)
  moreover have "nat lo - card I \<le> card ({0..fd_sup} - Q) - card I" using card_compl[OF assms(2)] assms(5,6) by linarith
  ultimately obtain T where T: "T \<subseteq> {0..fd_sup} - Q - I" "card T = nat lo - card I" "finite T"
    using obtain_subset_with_card_n by metis
  then have "card (I \<union> T) = nat lo" using card_Un_disjoint[of I T] fin assms(4) by auto
  then have "I \<union> T \<in> set_sols I Q lo hi" using T sub assms(4,5) by (auto simp: set_sols_def)
  then show ?thesis by blast
qed

lemma sols_fixed_low:
  assumes "I \<subseteq> {0..fd_sup}" "I \<inter> Q = {}" "lo \<le> int (card I)" "hi = int (card I)"
  shows "set_sols I Q lo hi = {I}"
proof -
  have "S = I" if "S \<in> set_sols I Q lo hi" for S
  proof -
    have S: "I \<subseteq> S" "S \<subseteq> {0..fd_sup} - Q" "card S \<le> card I" using that assms(4) by (auto simp: set_sols_def)
    then have "finite S" using finite_subset by blast
    from card_seteq[OF this S(1,3)] show ?thesis by simp
  qed
  then show ?thesis using assms by (auto simp: set_sols_def)
qed

lemma sols_fixed_high:
  assumes "I \<subseteq> {0..fd_sup}" "Q \<subseteq> {0..fd_sup}" "I \<inter> Q = {}" "lo = fd_sup + 1 - int (card Q)" "lo \<le> hi"
  shows "set_sols I Q lo hi = {{0..fd_sup} - Q}"
proof -
  have "S = {0..fd_sup} - Q" if "S \<in> set_sols I Q lo hi" for S
  proof -
    have S: "S \<subseteq> {0..fd_sup} - Q" "lo \<le> int (card S)" using that by (auto simp: set_sols_def)
    then have "card ({0..fd_sup} - Q) \<le> card S" using card_compl[OF assms(2)] assms(4) by linarith
    from card_seteq[OF _ S(1) this] show ?thesis by simp
  qed
  moreover have "I \<subseteq> {0..fd_sup} - Q" using assms(1,3) by auto
  then have "{0..fd_sup} - Q \<in> set_sols I Q lo hi" using card_compl[OF assms(2)] assms(4,5) unfolding set_sols_def by auto
  ultimately show ?thesis by blast
qed

section \<open>Normalisation\<close>

lemma overlaps_c_iff: "fsc_rep g c I Q \<Longrightarrow> overlaps_c g c \<longleftrightarrow> I \<inter> Q \<noteq> {}"
  using meet_norm[of "c_in c" "c_otherin c" I "c_not_in c" "c_otherout c" Q] fdk.disjoint_test[of g "c_IN c" I "c_OUT c" Q]
  by (auto simp: overlaps_c_def fsc_rep_def split: if_splits)

lemma count_c_spec:
  assumes "fsc_rep g c I Q" "canonical_c c I Q"
  shows "fsc_rep g (count_c c) I Q" "canonical_c (count_c c) I Q" "c_known_in (count_c c) = int (card I)"
    "c_known_not_in (count_c c) = int (card Q)" "c_card_min (count_c c) = c_card_min c"
    "c_card_max (count_c c) = c_card_max c"
  using assms nrm.count_rep[of "(c_in c, c_otherin c)" I] nrm.count_rep[of "(c_not_in c, c_otherout c)" Q]
    fdk.count_rep[of g "c_IN c" I] fdk.count_rep[of g "c_OUT c" Q]
  by (auto simp: count_c_def fsc_rep_def canonical_c_def bits_card_def)

lemma tighten_c_spec:
  assumes "fsc_rep g c I Q" "canonical_c c I Q" "c_known_in c = int (card I)" "c_known_not_in c = int (card Q)"
  shows "fsc_rep g (tighten_c c) I Q" "canonical_c (tighten_c c) I Q" "c_known_in (tighten_c c) = int (card I)"
    "c_known_not_in (tighten_c c) = int (card Q)" "c_card_min (tighten_c c) = max (c_card_min c) (int (card I))"
    "c_card_max (tighten_c c) = min (c_card_max c) (fd_sup + 1 - int (card Q))"
  using assms by (auto simp: tighten_c_def fsc_rep_def canonical_c_def Let_def)

lemma closeOut_c_spec:
  assumes "fsc_rep g c I Q" "canonical_c c I Q"
  shows "fsc_rep g (closeOut_c g c) I ({0..fd_sup} - I)" "canonical_c (closeOut_c g c) I ({0..fd_sup} - I)"
    "c_card_min (closeOut_c g c) = c_card_max c" "c_card_max (closeOut_c g c) = c_card_max c"
    "c_known_in (closeOut_c g c) = c_known_in c" "c_known_not_in (closeOut_c g c) = fd_sup - c_known_in c + 1"
proof -
  have "fsc_rep g (closeOut_c g c) I ({0..fd_sup} - I) \<and> canonical_c (closeOut_c g c) I ({0..fd_sup} - I) \<and>
    c_card_min (closeOut_c g c) = c_card_max c \<and> c_card_max (closeOut_c g c) = c_card_max c \<and>
    c_known_in (closeOut_c g c) = c_known_in c \<and> c_known_not_in (closeOut_c g c) = fd_sup - c_known_in c + 1"
  proof (cases "c_normal c")
    case True
    then have n: "norm_rep (c_in c, c_otherin c) I" using assms(1) by (simp add: fsc_rep_def)
    then have "fsc_rep g (closeOut_c g c) I ({0..fd_sup} - I)"
      using norm_ops(3)[OF n n] True by (simp add: fsc_rep_def closeOut_c_def Let_def)
    moreover have "c_normal (closeOut_c g c)" using True by (simp add: closeOut_c_def Let_def)
    ultimately show ?thesis using True normal_canonical by (simp add: closeOut_c_def Let_def)
  next
    case False
    then have i: "ext_rep g (c_IN c) I" using assms(1) by (simp add: fsc_rep_def)
    let ?c = "c\<lparr>c_card_min := c_card_max c, c_known_not_in := fs_sup - c_known_in c + 1, c_OUT := op_not g (c_IN c)\<rparr>"
    have "closeOut_c g c = fst (maybeToNormal_c ?c)" using False by (simp add: closeOut_c_def Let_def)
    from maybe_c_rep[OF _ _ _ this, of g I "{0..fd_sup} - I"] show ?thesis using i fdk.compl_rep[OF i] False by simp
  qed
  then show "fsc_rep g (closeOut_c g c) I ({0..fd_sup} - I)" "canonical_c (closeOut_c g c) I ({0..fd_sup} - I)"
    "c_card_min (closeOut_c g c) = c_card_max c" "c_card_max (closeOut_c g c) = c_card_max c"
    "c_known_in (closeOut_c g c) = c_known_in c" "c_known_not_in (closeOut_c g c) = fd_sup - c_known_in c + 1"
    by simp_all
qed

lemma closeIn_c_spec:
  assumes "fsc_rep g c I Q" "canonical_c c I Q"
  shows "fsc_rep g (closeIn_c g c) ({0..fd_sup} - Q) Q" "canonical_c (closeIn_c g c) ({0..fd_sup} - Q) Q"
    "c_card_min (closeIn_c g c) = c_card_min c" "c_card_max (closeIn_c g c) = c_card_min c"
    "c_known_in (closeIn_c g c) = c_card_min c" "c_known_not_in (closeIn_c g c) = c_known_not_in c"
proof -
  have "fsc_rep g (closeIn_c g c) ({0..fd_sup} - Q) Q \<and> canonical_c (closeIn_c g c) ({0..fd_sup} - Q) Q \<and>
    c_card_min (closeIn_c g c) = c_card_min c \<and> c_card_max (closeIn_c g c) = c_card_min c \<and>
    c_known_in (closeIn_c g c) = c_card_min c \<and> c_known_not_in (closeIn_c g c) = c_known_not_in c"
  proof (cases "c_normal c")
    case True
    then have n: "norm_rep (c_not_in c, c_otherout c) Q" using assms(1) by (simp add: fsc_rep_def)
    then have "fsc_rep g (closeIn_c g c) ({0..fd_sup} - Q) Q"
      using norm_ops(3)[OF n n] True by (simp add: fsc_rep_def closeIn_c_def Let_def)
    moreover have "c_normal (closeIn_c g c)" using True by (simp add: closeIn_c_def Let_def)
    ultimately show ?thesis using True normal_canonical by (simp add: closeIn_c_def Let_def)
  next
    case False
    then have i: "ext_rep g (c_OUT c) Q" using assms(1) by (simp add: fsc_rep_def)
    let ?c = "c\<lparr>c_known_in := c_card_min c, c_card_max := c_card_min c, c_IN := op_not g (c_OUT c)\<rparr>"
    have "closeIn_c g c = fst (maybeToNormal_c ?c)" using False by (simp add: closeIn_c_def Let_def)
    from maybe_c_rep[OF _ _ _ this, of g "{0..fd_sup} - Q" Q] show ?thesis using i fdk.compl_rep[OF i] False by simp
  qed
  then show "fsc_rep g (closeIn_c g c) ({0..fd_sup} - Q) Q" "canonical_c (closeIn_c g c) ({0..fd_sup} - Q) Q"
    "c_card_min (closeIn_c g c) = c_card_min c" "c_card_max (closeIn_c g c) = c_card_min c"
    "c_known_in (closeIn_c g c) = c_card_min c" "c_known_not_in (closeIn_c g c) = c_known_not_in c"
    by simp_all
qed


lemma fsc_solsI: "fsc_inv g c I Q \<Longrightarrow> set_sols I Q (c_card_min c) (c_card_max c) = X \<Longrightarrow> fsc_sols g c X"
  unfolding fsc_sols_def by (intro exI conjI) (assumption, rule sym)

text \<open>A constraint with one admitted set.\<close>

lemma fsc_inv_value:
  assumes "fsc_rep g c I Q" "canonical_c c I Q" "Q = {0..fd_sup} - I" "c_known_in c = int (card I)"
    "c_known_not_in c = int (card Q)" "c_card_min c = int (card I)" "c_card_max c = int (card I)"
  shows "fsc_inv g c I Q"
proof -
  have I: "I \<subseteq> {0..fd_sup}" using fsc_rep_sub[OF assms(1)] by simp
  then have "I = {0..fd_sup} - Q" "I \<inter> Q = {}" "int (card Q) = fd_sup + 1 - int (card I)"
    using assms(3) card_compl[OF I] by auto
  then show ?thesis using assms unfolding fsc_inv_def by simp
qed

lemma complete_low:
  assumes "fsc_rep g c I Q" "canonical_c c I Q" "I \<inter> Q = {}" "c_known_in c = int (card I)"
    and "c_card_min c = int (card I)" "c_card_max c = int (card I)"
  shows "fsc_sols g (complete_c g c) (set_sols I Q (c_card_min c) (c_card_max c))"
proof -
  have I: "I \<subseteq> {0..fd_sup}" using fsc_rep_sub[OF assms(1)] by simp
  note o = closeOut_c_spec[OF assms(1,2)]
  have c: "complete_c g c = closeIn_c g (closeOut_c g c)" using o assms(4,6) by (simp add: complete_c_def)
  note i = closeIn_c_spec[OF o(1,2), folded c]
  have UI: "{0..fd_sup} - ({0..fd_sup} - I) = I" using I by auto
  have "set_sols I Q (c_card_min c) (c_card_max c) = {I}" by (rule sols_fixed_low[OF I assms(3)]) (use assms(5,6) in simp_all)
  moreover have "set_sols I ({0..fd_sup} - I) (c_card_min (complete_c g c)) (c_card_max (complete_c g c)) = {I}"
    by (rule sols_fixed_low[OF I]) (use i o assms(6) in auto)
  moreover have "fsc_inv g (complete_c g c) I ({0..fd_sup} - I)"
    by (rule fsc_inv_value[OF i(1,2)[unfolded UI] refl]) (use i(3-6) o(3-6) assms(4-6) card_compl[OF I] in linarith)+
  ultimately show ?thesis by (metis fsc_solsI)
qed

lemma complete_high:
  assumes "fsc_rep g c I Q" "canonical_c c I Q" "I \<inter> Q = {}" "c_known_not_in c = int (card Q)"
    and "c_card_max c \<noteq> c_known_in c" "c_card_min c = fd_sup + 1 - int (card Q)" "c_card_min c \<le> c_card_max c"
  shows "fsc_sols g (complete_c g c) (set_sols I Q (c_card_min c) (c_card_max c))"
proof -
  have IQ: "I \<subseteq> {0..fd_sup}" "Q \<subseteq> {0..fd_sup}" using fsc_rep_sub[OF assms(1)] by auto
  have c: "complete_c g c = closeIn_c g c" using assms(4-6) by (simp add: complete_c_def)
  note i = closeIn_c_spec[OF assms(1,2), folded c]
  have UQ: "{0..fd_sup} - ({0..fd_sup} - Q) = Q" using IQ(2) by auto
  have cd: "int (card ({0..fd_sup} - Q)) = fd_sup + 1 - int (card Q)" by (rule card_compl[OF IQ(2)])
  have "set_sols I Q (c_card_min c) (c_card_max c) = {{0..fd_sup} - Q}" by (rule sols_fixed_high[OF IQ assms(3,6,7)])
  moreover have "set_sols ({0..fd_sup} - Q) Q (c_card_min (complete_c g c)) (c_card_max (complete_c g c)) = {{0..fd_sup} - Q}"
    by (rule sols_fixed_low) (use i assms(6) cd in auto)
  moreover have "fsc_inv g (complete_c g c) ({0..fd_sup} - Q) Q"
    by (rule fsc_inv_value[OF i(1,2) UQ[symmetric]]) (use i(3-6) assms(4,6) cd in linarith)+
  ultimately show ?thesis by (metis fsc_solsI)
qed

lemma complete_c_spec:
  assumes "fsc_rep g c I Q" "canonical_c c I Q" "I \<inter> Q = {}" "c_known_in c = int (card I)" "c_known_not_in c = int (card Q)"
    and "int (card I) \<le> c_card_min c" "c_card_min c \<le> c_card_max c" "c_card_max c \<le> fd_sup + 1 - int (card Q)"
  shows "fsc_sols g (complete_c g c) (set_sols I Q (c_card_min c) (c_card_max c))"
proof -
  consider "c_card_max c = int (card I)" | "c_card_max c \<noteq> c_known_in c" "c_card_min c = fd_sup + 1 - int (card Q)"
    | "c_card_max c \<noteq> c_known_in c" "c_card_min c \<noteq> fd_sup - c_known_not_in c + 1"
    using assms(4,5) by linarith
  then show ?thesis
  proof cases
    case 1
    then show ?thesis using complete_low[OF assms(1-4)] assms(6,7) by simp
  next
    case 2
    then show ?thesis using complete_high[OF assms(1-3,5)] assms(7) by simp
  next
    case 3
    then have "complete_c g c = c" by (simp add: complete_c_def)
    moreover have "c_card_max c \<noteq> int (card I)" "c_card_min c \<noteq> fd_sup + 1 - int (card Q)" using 3 assms(4,5) by auto
    then have "fsc_inv g c I Q" using assms unfolding fsc_inv_def by blast
    ultimately show ?thesis by (metis fsc_solsI)
  qed
qed

lemma normal_form_c:
  assumes "fsc_rep g c I Q" "c1 = (if c_normal c then c else fst (maybeToNormal_c c))"
  shows "fsc_rep g c1 I Q" "canonical_c c1 I Q" "c_card_min c1 = c_card_min c" "c_card_max c1 = c_card_max c"
proof -
  have "fsc_rep g c1 I Q \<and> canonical_c c1 I Q \<and> c_card_min c1 = c_card_min c \<and> c_card_max c1 = c_card_max c"
  proof (cases "c_normal c")
    case True
    then show ?thesis using assms normal_canonical by simp
  next
    case False
    with assms(1) have "ext_rep g (c_IN c) I" "ext_rep g (c_OUT c) Q" by (auto simp: fsc_rep_def)
    from maybe_c_rep[OF this False refl] show ?thesis using False assms(2) by simp
  qed
  then show "fsc_rep g c1 I Q" "canonical_c c1 I Q" "c_card_min c1 = c_card_min c" "c_card_max c1 = c_card_max c" by simp_all
qed

lemma normalize_told:
  assumes "fsc_rep g c I Q" "isValid_c c"
  shows "told g (normalize_c g c) (set_sols I Q (c_card_min c) (c_card_max c))"
proof (cases "I \<inter> Q = {}")
  case False
  then have "normalize_c g c = (c\<lparr>c_card_min := -1\<rparr>, False)"
    using assms overlaps_c_iff by (simp add: normalize_c_def)
  moreover have "set_sols I Q (c_card_min c) (c_card_max c) = {}" using False by (auto simp: set_sols_def)
  ultimately show ?thesis by (simp add: told_def)
next
  case dis: True
  have IQ: "I \<subseteq> {0..fd_sup}" "Q \<subseteq> {0..fd_sup}" using fsc_rep_sub[OF assms(1)] by auto
  define c1 where "c1 = (if c_normal c then c else fst (maybeToNormal_c c))"
  define c2 where "c2 = tighten_c (count_c c1)"
  note c1 = normal_form_c[OF assms(1) c1_def]
  note cc = count_c_spec[OF c1(1,2)]
  note c2 = tighten_c_spec[OF cc(1-4), folded c2_def, unfolded cc(5,6) c1(3,4)]
  let ?X = "set_sols I Q (c_card_min c) (c_card_max c)"
  have X: "?X = set_sols I Q (c_card_min c2) (c_card_max c2)" unfolding c2(5,6) by (rule sols_tight[OF IQ])
  let ?f = "c_card_max c2 < c_known_in c2 \<or> c_card_min c2 > fs_sup - c_known_not_in c2 + 1 \<or> c_card_max c2 < c_card_min c2"
  have n: "normalize_c g c = (if ?f then (c2\<lparr>c_card_min := -1\<rparr>, False) else (complete_c g c2, True))"
    using assms overlaps_c_iff[OF assms(1)] dis
    unfolding normalize_c_def c1_def[symmetric] Let_def c2_def[symmetric] complete_c_def by simp
  show ?thesis
  proof (cases ?f)
    case True
    then have "c_card_max c2 < c_card_min c2" using c2(3-6) by auto
    then have "?X = {}" unfolding X by (auto simp: set_sols_def)
    then show ?thesis using n True by (simp add: told_def)
  next
    case ok: False
    then have le: "int (card I) \<le> c_card_min c2" "c_card_min c2 \<le> c_card_max c2" "c_card_max c2 \<le> fd_sup + 1 - int (card Q)"
      using c2(5,6) by auto
    have "?X \<noteq> {}" unfolding X by (rule sols_nonempty[OF IQ dis le])
    moreover have "fsc_sols g (complete_c g c2) ?X" unfolding X by (rule complete_c_spec[OF c2(1,2) dis c2(3,4) le])
    ultimately show ?thesis using n ok by (simp add: told_def)
  qed
qed


section \<open>The bounds are exact\<close>

lemma fsc_invD:
  assumes "fsc_inv g c I Q"
  shows "fsc_rep g c I Q" "I \<subseteq> {0..fd_sup}" "Q \<subseteq> {0..fd_sup}" "I \<inter> Q = {}" "0 \<le> c_card_min c" "isValid_c c"
    "int (card I) \<le> c_card_min c" "c_card_min c \<le> c_card_max c" "c_card_max c \<le> fd_sup + 1 - int (card Q)"
    "c_known_in c = int (card I)" "c_known_not_in c = int (card Q)" "canonical_c c I Q"
    "Q \<noteq> {0..fd_sup} - I \<Longrightarrow> int (card I) < c_card_max c"
    "I \<noteq> {0..fd_sup} - Q \<Longrightarrow> c_card_min c < fd_sup + 1 - int (card Q)"
proof -
  show r: "fsc_rep g c I Q" and le: "int (card I) \<le> c_card_min c" "c_card_min c \<le> c_card_max c"
    "c_card_max c \<le> fd_sup + 1 - int (card Q)" and "I \<inter> Q = {}" "c_known_in c = int (card I)"
    "c_known_not_in c = int (card Q)" "canonical_c c I Q"
    using assms unfolding fsc_inv_def by blast+
  show "I \<subseteq> {0..fd_sup}" "Q \<subseteq> {0..fd_sup}" using fsc_rep_sub[OF r] by simp_all
  show "0 \<le> c_card_min c" "isValid_c c" using le(1) by (simp_all add: isValid_c_def)
  have "c_card_max c = int (card I) \<longrightarrow> Q = {0..fd_sup} - I" "c_card_min c = fd_sup + 1 - int (card Q) \<longrightarrow> I = {0..fd_sup} - Q"
    using assms unfolding fsc_inv_def by blast+
  then show "Q \<noteq> {0..fd_sup} - I \<Longrightarrow> int (card I) < c_card_max c"
    "I \<noteq> {0..fd_sup} - Q \<Longrightarrow> c_card_min c < fd_sup + 1 - int (card Q)" using le by linarith+
qed

lemma fsc_sols_ne: "fsc_sols g c X \<Longrightarrow> X \<noteq> {}"
  using sols_nonempty[OF fsc_invD(2,3,4,7,8,9)] by (auto simp: fsc_sols_def)

lemma sols_card_ex:
  assumes "fsc_inv g c I Q" "c_card_min c \<le> k" "k \<le> c_card_max c"
  shows "\<exists>S \<in> set_sols I Q (c_card_min c) (c_card_max c). int (card S) = k"
proof -
  note d = fsc_invD[OF assms(1)]
  have "set_sols I Q k k \<noteq> {}" by (rule sols_nonempty[OF d(2-4)]) (use d assms in auto)
  then show ?thesis using assms(2,3) unfolding set_sols_def by auto
qed

lemma sols_glb:
  assumes "fsc_inv g c I Q"
  shows "\<Inter>(set_sols I Q (c_card_min c) (c_card_max c)) = I" (is "\<Inter>?X = I")
proof
  note d = fsc_invD[OF assms]
  show "I \<subseteq> \<Inter>?X" by (auto simp: set_sols_def)
  show "\<Inter>?X \<subseteq> I"
  proof (rule ccontr)
    assume "\<not> \<Inter>?X \<subseteq> I"
    then obtain e where e: "e \<in> \<Inter>?X" "e \<notin> I" by blast
    moreover obtain S where S: "S \<in> ?X" using sols_nonempty[OF d(2-4,7-9)] by blast
    ultimately have "e \<in> S" "S \<subseteq> {0..fd_sup} - Q" by (auto simp: set_sols_def)
    then have eU: "e \<in> {0..fd_sup} - Q" by blast
    then have "I \<noteq> {0..fd_sup} - Q" using e(2) by blast
    then have "c_card_min c < fd_sup + 1 - int (card Q)" by (rule d(14))
    moreover have "int (card (insert e Q)) = int (card Q) + 1" using eU finite_subset[OF d(3)] by simp
    ultimately have "set_sols I (insert e Q) (c_card_min c) (c_card_min c) \<noteq> {}"
      using d eU e(2) by (intro sols_nonempty) auto
    then obtain T where "T \<in> set_sols I (insert e Q) (c_card_min c) (c_card_min c)" by blast
    then have "T \<in> ?X" "e \<notin> T" using d(8) by (auto simp: set_sols_def)
    then show False using e(1) by blast
  qed
qed

lemma sols_lub:
  assumes "fsc_inv g c I Q"
  shows "\<Union>(set_sols I Q (c_card_min c) (c_card_max c)) = {0..fd_sup} - Q" (is "\<Union>?X = _")
proof
  note d = fsc_invD[OF assms]
  show "\<Union>?X \<subseteq> {0..fd_sup} - Q" by (auto simp: set_sols_def)
  show "{0..fd_sup} - Q \<subseteq> \<Union>?X"
  proof
    fix e assume e: "e \<in> {0..fd_sup} - Q"
    obtain S where S: "S \<in> ?X" using sols_nonempty[OF d(2-4,7-9)] by blast
    show "e \<in> \<Union>?X"
    proof (cases "e \<in> I")
      case True
      then have "e \<in> S" using S by (auto simp: set_sols_def)
      then show ?thesis using S by blast
    next
      case False
      then have "Q \<noteq> {0..fd_sup} - I" using e by blast
      then have "int (card I) < c_card_max c" by (rule d(13))
      moreover have "int (card (insert e I)) = int (card I) + 1" using False finite_subset[OF d(2)] by simp
      ultimately have "set_sols (insert e I) Q (c_card_max c) (c_card_max c) \<noteq> {}"
        using d e by (intro sols_nonempty) auto
      then obtain T where "T \<in> set_sols (insert e I) Q (c_card_max c) (c_card_max c)" by blast
      then have "T \<in> ?X" "e \<in> T" using d(8) by (auto simp: set_sols_def)
      then show ?thesis by blast
    qed
  qed
qed

lemma isValue_sols:
  assumes "fsc_inv g c I Q"
  shows "isValue_c c \<longleftrightarrow> (\<exists>S. set_sols I Q (c_card_min c) (c_card_max c) = {S})"
proof
  note d = fsc_invD[OF assms]
  let ?X = "set_sols I Q (c_card_min c) (c_card_max c)"
  show "\<exists>S. ?X = {S}" if "isValue_c c"
  proof -
    have "c_card_min c = int (card I)" "c_card_max c = int (card I)" using that d(10) by (auto simp: isValue_c_def)
    then show ?thesis using sols_fixed_low[OF d(2,4), of "c_card_min c" "c_card_max c"] by auto
  qed
  assume "\<exists>S. ?X = {S}"
  then obtain S where S: "?X = {S}" by blast
  then have "S = I" using sols_glb[OF assms] by simp
  moreover have "S \<in> ?X" using S by simp
  moreover obtain T where "T \<in> ?X" "int (card T) = c_card_max c" using sols_card_ex[OF assms d(8) order_refl] by blast
  ultimately have "c_card_min c \<le> int (card I)" "int (card I) = c_card_max c" using S by (auto simp: set_sols_def)
  then show "isValue_c c" using d(7,10) by (simp add: isValue_c_def)
qed

section \<open>Telling\<close>

lemma sols_Int:
  "set_sols (I \<union> J) (Q \<union> R) (max a b) (min h k) = set_sols I Q a h \<inter> set_sols J R b k"
  by (auto simp: set_sols_def)

lemma sols_in: "set_sols (I \<union> A) Q lo hi = set_sols I Q lo hi \<inter> {S. A \<subseteq> S}"
  by (auto simp: set_sols_def)

lemma sols_out: "set_sols I (Q \<union> A) lo hi = set_sols I Q lo hi \<inter> {S. S \<inter> A = {}}"
  by (auto simp: set_sols_def)

lemma sols_cards: "set_sols I Q (max a lo) (min b hi) = set_sols I Q lo hi \<inter> {S. a \<le> int (card S) \<and> int (card S) \<le> b}"
  by (auto simp: set_sols_def)

lemma told_same: "fsc_sols g c X \<Longrightarrow> told g (c, True) X"
  using fsc_sols_ne by (simp add: told_def)

lemma told_normalize:
  assumes "fsc_rep g c I Q" "c_card_min c \<noteq> -1" "set_sols I Q (c_card_min c) (c_card_max c) = X"
  shows "told g (normalize_c g c) X"
  using normalize_told[OF assms(1)] assms(2,3) by (simp add: isValid_c_def)

text \<open>The proofs below go through the four combinations of forms; these are the facts they use.\<close>

lemmas form_facts = fsc_rep_def norm_ops fdk.union_rep fdk.inter_rep aux_rep toExtended_c_rep

lemma imply_c_told:
  assumes "fd_globals_ok g" "fsc_inv g c I Q" "fsc_inv g y J R"
  shows "told g (imply_c g c y) (set_sols (I \<union> J) (Q \<union> R) (max (c_card_min c) (c_card_min y)) (min (c_card_max c) (c_card_max y)))"
proof -
  have n: "told g (normalize_c g c') (set_sols (I \<union> J) (Q \<union> R) (max (c_card_min c) (c_card_min y)) (min (c_card_max c) (c_card_max y)))"
    if "fsc_rep g c' (I \<union> J) (Q \<union> R)" "c_card_min c' = (max (c_card_min c) (c_card_min y))" "c_card_max c' = (min (c_card_max c) (c_card_max y))" for c'
    using normalize_told[OF that(1)] that(2,3) fsc_invD(5)[OF assms(2)] by (simp add: isValid_c_def)
  show ?thesis using fsc_invD(1)[OF assms(2)] fsc_invD(1)[OF assms(3)] assms(1)
    by (cases rule: fsc_cases2) (simp add: imply_c_def Let_def, rule n; simp add: form_facts)+
qed

lemma le_c_told:
  assumes "fd_globals_ok g" "fsc_inv g c I Q" "fsc_inv g y J R"
  shows "told g (le_c g c y) (set_sols I (Q \<union> R) (c_card_min c) (min (c_card_max c) (c_card_max y)))"
proof -
  have n: "told g (normalize_c g c') (set_sols I (Q \<union> R) (c_card_min c) (min (c_card_max c) (c_card_max y)))"
    if "fsc_rep g c' I (Q \<union> R)" "c_card_min c' = (c_card_min c)" "c_card_max c' = (min (c_card_max c) (c_card_max y))" for c'
    using normalize_told[OF that(1)] that(2,3) fsc_invD(5)[OF assms(2)] by (simp add: isValid_c_def)
  show ?thesis using fsc_invD(1)[OF assms(2)] fsc_invD(1)[OF assms(3)] assms(1)
    by (cases rule: fsc_cases2) (simp add: le_c_def Let_def, rule n; simp add: form_facts)+
qed

lemma ge_c_told:
  assumes "fd_globals_ok g" "fsc_inv g c I Q" "fsc_inv g y J R"
  shows "told g (ge_c g c y) (set_sols (I \<union> J) Q (max (c_card_min c) (c_card_min y)) (c_card_max c))"
proof -
  have n: "told g (normalize_c g c') (set_sols (I \<union> J) Q (max (c_card_min c) (c_card_min y)) (c_card_max c))"
    if "fsc_rep g c' (I \<union> J) Q" "c_card_min c' = (max (c_card_min c) (c_card_min y))" "c_card_max c' = (c_card_max c)" for c'
    using normalize_told[OF that(1)] that(2,3) fsc_invD(5)[OF assms(2)] by (simp add: isValid_c_def)
  show ?thesis using fsc_invD(1)[OF assms(2)] fsc_invD(1)[OF assms(3)] assms(1)
    by (cases rule: fsc_cases2) (simp add: ge_c_def Let_def, rule n; simp add: form_facts)+
qed

lemma disjoint_c_told:
  assumes "fd_globals_ok g" "fsc_inv g c I Q" "fsc_inv g y J R"
  shows "told g (disjoint_c g c y) (set_sols I (Q \<union> J) (c_card_min c) (c_card_max c))"
proof -
  have n: "told g (normalize_c g c') (set_sols I (Q \<union> J) (c_card_min c) (c_card_max c))"
    if "fsc_rep g c' I (Q \<union> J)" "c_card_min c' = (c_card_min c)" "c_card_max c' = (c_card_max c)" for c'
    using normalize_told[OF that(1)] that(2,3) fsc_invD(5)[OF assms(2)] by (simp add: isValid_c_def)
  show ?thesis using fsc_invD(1)[OF assms(2)] fsc_invD(1)[OF assms(3)] assms(1)
    by (cases rule: fsc_cases2) (simp add: disjoint_c_def Let_def, rule n; simp add: form_facts)+
qed

text \<open>The operators that build a new constraint; \<open>yields\<close> says what they return.\<close>

definition yields :: "fd_globals \<Rightarrow> FSetConstraint \<Rightarrow> int set set \<Rightarrow> bool" where
  "yields g c X \<longleftrightarrow> (if X = {} then \<not> isValid_c c else fsc_sols g c X)"

lemma told_yields: "told g p X \<Longrightarrow> yields g (fst p) X"
  by (auto simp: told_def yields_def isValid_c_def split: if_splits)

lemma init_c_simps [simp]:
  "c_normal (init_c z)" "c_card_min (init_c z) = 0" "c_card_max (init_c z) = fd_sup + 1"
  by (simp_all add: init_c_def)

lemma and_c_yields:
  assumes "fd_globals_ok g" "fsc_inv g c I Q" "fsc_inv g y J R"
  shows "yields g (and_c g z c y) (set_sols (I \<inter> J) (Q \<union> R) 0 (min (c_card_max c) (c_card_max y)))"
proof -
  have n: "yields g (fst (normalize_c g c')) (set_sols (I \<inter> J) (Q \<union> R) 0 (min (c_card_max c) (c_card_max y)))"
    if "fsc_rep g c' (I \<inter> J) (Q \<union> R)" "c_card_min c' = 0" "c_card_max c' = (min (c_card_max c) (c_card_max y))" for c'
    using told_yields[OF normalize_told[OF that(1)]] that(2,3) fsc_invD(5)[OF assms(2)] by (simp add: isValid_c_def)
  have v: "isValid_c c" "isValid_c y" by (rule fsc_invD(6)[OF assms(2)], rule fsc_invD(6)[OF assms(3)])
  show ?thesis using fsc_invD(1)[OF assms(2)] fsc_invD(1)[OF assms(3)] assms(1) v
    by (cases rule: fsc_cases2) (simp add: and_c_def Let_def, rule n; simp add: form_facts)+
qed

lemma or_c_yields:
  assumes "fd_globals_ok g" "fsc_inv g c I Q" "fsc_inv g y J R"
  shows "yields g (or_c g z c y) (set_sols (I \<union> J) (Q \<inter> R) (max (c_card_min c) (c_card_min y)) (c_card_max c + c_card_max y))"
proof -
  have n: "yields g (fst (normalize_c g c')) (set_sols (I \<union> J) (Q \<inter> R) (max (c_card_min c) (c_card_min y)) (c_card_max c + c_card_max y))"
    if "fsc_rep g c' (I \<union> J) (Q \<inter> R)" "c_card_min c' = (max (c_card_min c) (c_card_min y))" "c_card_max c' = (c_card_max c + c_card_max y)" for c'
    using told_yields[OF normalize_told[OF that(1)]] that(2,3) fsc_invD(5)[OF assms(2)] by (simp add: isValid_c_def)
  have v: "isValid_c c" "isValid_c y" by (rule fsc_invD(6)[OF assms(2)], rule fsc_invD(6)[OF assms(3)])
  show ?thesis using fsc_invD(1)[OF assms(2)] fsc_invD(1)[OF assms(3)] assms(1) v
    by (cases rule: fsc_cases2) (simp add: or_c_def Let_def, rule n; simp add: form_facts)+
qed

lemma minus_c_yields:
  assumes "fd_globals_ok g" "fsc_inv g c I Q" "fsc_inv g y J R"
  shows "yields g (minus_c g z c y) (set_sols (I \<inter> R) (Q \<union> J) 0 (c_card_max c))"
proof -
  have n: "yields g (fst (normalize_c g c')) (set_sols (I \<inter> R) (Q \<union> J) 0 (c_card_max c))"
    if "fsc_rep g c' (I \<inter> R) (Q \<union> J)" "c_card_min c' = 0" "c_card_max c' = (c_card_max c)" for c'
    using told_yields[OF normalize_told[OF that(1)]] that(2,3) fsc_invD(5)[OF assms(2)] by (simp add: isValid_c_def)
  have v: "isValid_c c" "isValid_c y" by (rule fsc_invD(6)[OF assms(2)], rule fsc_invD(6)[OF assms(3)])
  show ?thesis using fsc_invD(1)[OF assms(2)] fsc_invD(1)[OF assms(3)] assms(1) v
    by (cases rule: fsc_cases2) (simp add: minus_c_def Let_def, rule n; simp add: form_facts)+
qed

lemma uminus_c_yields:
  assumes "fsc_inv g c I Q"
  shows "yields g (uminus_c g z c) (set_sols Q I 0 (fd_sup + 1))"
proof -
  have n: "yields g (fst (normalize_c g c')) (set_sols Q I 0 (fd_sup + 1))"
    if "fsc_rep g c' Q I" "c_card_min c' = 0" "c_card_max c' = fd_sup + 1" for c'
    using told_yields[OF normalize_told[OF that(1)]] that(2,3) by (simp add: isValid_c_def)
  show ?thesis using fsc_invD(1,5)[OF assms]
    by (cases "c_normal c") (simp add: uminus_c_def Let_def, rule n; simp add: fsc_rep_def)+
qed

lemma unify_c_yields:
  assumes "fd_globals_ok g" "fsc_inv g c I Q" "fsc_inv g y J R"
  shows "yields g (unify_c g z c y)
    (set_sols (I \<union> J) (Q \<union> R) (max (c_card_min c) (c_card_min y)) (min (c_card_max c) (c_card_max y)))"
    (is "yields _ _ (set_sols ?I ?Q ?lo ?hi)")
proof (cases "?hi < ?lo")
  case True
  then have "set_sols ?I ?Q ?lo ?hi = {}" by (auto simp: set_sols_def)
  then show ?thesis using True by (simp add: yields_def unify_c_def isValid_c_def Let_def)
next
  case False
  have n: "yields g (fst (normalize_c g c')) (set_sols ?I ?Q ?lo ?hi)"
    if "fsc_rep g c' ?I ?Q" "c_card_min c' = ?lo" "c_card_max c' = ?hi" for c'
    using told_yields[OF normalize_told[OF that(1)]] that(2,3) fsc_invD(5)[OF assms(2)] by (simp add: isValid_c_def)
  show ?thesis using fsc_invD(1)[OF assms(2)] fsc_invD(1)[OF assms(3)] assms(1) False
    by (cases rule: fsc_cases2) (simp add: unify_c_def Let_def, rule n; simp add: form_facts)+
qed


subsection \<open>Cardinalities and single elements\<close>

lemma card_told:
  assumes "fsc_inv g c I Q" "lo \<noteq> -1"
  shows "told g (normalize_c g (c\<lparr>c_card_min := lo, c_card_max := hi\<rparr>)) (set_sols I Q lo hi)"
  using normalize_told[of g "c\<lparr>c_card_min := lo, c_card_max := hi\<rparr>" I Q] fsc_invD(1)[OF assms(1)] assms(2)
  by (simp add: isValid_c_def fsc_rep_def)

lemma putCard_c_told:
  assumes "fsc_sols g c X"
  shows "told g (putCard_c g c a b) (X \<inter> {S. a \<le> int (card S) \<and> int (card S) \<le> b})"
proof -
  obtain I Q where i: "fsc_inv g c I Q" "X = set_sols I Q (c_card_min c) (c_card_max c)" using assms by (auto simp: fsc_sols_def)
  have "max a (c_card_min c) \<noteq> -1" using fsc_invD(5)[OF i(1)] by simp
  from card_told[OF i(1) this] show ?thesis unfolding i(2) putCard_c_def sols_cards[symmetric] .
qed

lemma le_int_eq: "le_int_c g c i = apsnd Not (putCard_c g c (c_card_min c) i)"
  "ge_int_c g c i = apsnd Not (putCard_c g c i (c_card_max c))"
  by (simp_all add: le_int_c_def ge_int_c_def putCard_c_def apsnd_def map_prod_def split: prod.split)

lemma cards_told:
  assumes "fsc_sols g c X"
  shows "told g (apsnd Not (le_int_c g c i)) (X \<inter> {S. int (card S) \<le> i})"
    "told g (apsnd Not (ge_int_c g c i)) (X \<inter> {S. i \<le> int (card S)})"
proof -
  have X: "X \<inter> {S. c_card_min c \<le> int (card S) \<and> int (card S) \<le> i} = X \<inter> {S. int (card S) \<le> i}"
    "X \<inter> {S. i \<le> int (card S) \<and> int (card S) \<le> c_card_max c} = X \<inter> {S. i \<le> int (card S)}"
    using assms by (auto simp: fsc_sols_def set_sols_def)
  have [simp]: "apsnd Not (apsnd Not p) = p" for p :: "FSetConstraint \<times> bool" by (cases p) simp
  show "told g (apsnd Not (le_int_c g c i)) (X \<inter> {S. int (card S) \<le> i})"
    "told g (apsnd Not (ge_int_c g c i)) (X \<inter> {S. i \<le> int (card S)})"
    using putCard_c_told[OF assms, of "c_card_min c" i] putCard_c_told[OF assms, of i "c_card_max c"]
    unfolding X le_int_eq by simp_all
qed

lemma norm_insert: "norm_rep (bv, p) S \<Longrightarrow> 0 \<le> i \<Longrightarrow> i < 64 \<Longrightarrow> norm_rep (setBit_fs bv i, p) (insert i S)"
  using bits_set_setBit(1)[of bv i p] by (simp add: norm_rep_def)

lemma norm_above: "norm_rep (bv, p) S \<Longrightarrow> 64 \<le> i \<Longrightarrow> i \<le> fd_sup \<Longrightarrow> i \<in> S \<longleftrightarrow> p"
  by (auto simp: norm_rep_def mem_bits_set)

lemma ext_insert:
  assumes "ext_rep g d S" "0 \<le> i" "i \<le> fd_sup"
  shows "ext_rep g (fst (op_plus_int g d i)) (insert i S)"
proof -
  have "{i} \<inter> {0..fd_sup} = {i}" using assms(2,3) by simp
  then show ?thesis using op_plus_int_refines[OF ext_repD[OF assms(1)], of i] ext_repD(2)[OF assms(1)] by (simp add: ext_rep_def)
qed

lemma plus_int_c_told:
  assumes "fd_globals_ok g" "fsc_sols g c X" "0 \<le> i" "i \<le> fd_sup"
  shows "told g (plus_int_c g c i) (X \<inter> {S. i \<in> S})"
proof -
  obtain I Q where inv: "fsc_inv g c I Q" and X: "X = set_sols I Q (c_card_min c) (c_card_max c)"
    using assms(2) by (auto simp: fsc_sols_def)
  have eq: "X \<inter> {S. i \<in> S} = set_sols (I \<union> {i}) Q (c_card_min c) (c_card_max c)" unfolding X sols_in by auto
  have n: "told g (normalize_c g c') (X \<inter> {S. i \<in> S})"
    if "fsc_rep g c' (I \<union> {i}) Q" "c_card_min c' = c_card_min c" "c_card_max c' = c_card_max c" for c'
    using normalize_told[OF that(1)] that(2,3) fsc_invD(5)[OF inv] unfolding eq by (simp add: isValid_c_def)
  consider (low) "c_normal c" "i < 64" | (there) "c_normal c" "64 \<le> i" "c_otherin c"
    | (out) "c_normal c" "64 \<le> i" "\<not> c_otherin c" | (ext) "\<not> c_normal c" by linarith
  then show ?thesis
  proof cases
    case low
    then show ?thesis using assms(3,4) fsc_invD(1)[OF inv]
      by (simp add: plus_int_c_def) (rule n; simp add: fsc_rep_def norm_insert)
  next
    case there
    then have "i \<in> I" using fsc_invD(1)[OF inv] norm_above[of "c_in c" _ I i] assms(4) by (auto simp: fsc_rep_def)
    then have "X \<inter> {S. i \<in> S} = X" unfolding X by (auto simp: set_sols_def)
    then show ?thesis using there told_same[OF assms(2)] assms(3,4) by (simp add: plus_int_c_def)
  next
    case out
    then have "ext_rep g (c_IN (toExtended_c g c)) I" "ext_rep g (c_OUT (toExtended_c g c)) Q"
      using fsc_invD(1)[OF inv] assms(1) by (auto simp: fsc_rep_def toExtended_c_rep)
    then show ?thesis using out assms(3,4)
      by (simp add: plus_int_c_def Let_def) (rule n; simp add: fsc_rep_def ext_insert)
  next
    case ext
    then show ?thesis using assms(3,4) fsc_invD(1)[OF inv]
      by (simp add: plus_int_c_def) (rule n; simp add: fsc_rep_def ext_insert)
  qed
qed

lemma minus_int_c_told:
  assumes "fd_globals_ok g" "fsc_sols g c X" "0 \<le> i" "i \<le> fd_sup"
  shows "told g (minus_int_c g c i) (X \<inter> {S. i \<notin> S})"
proof -
  obtain I Q where inv: "fsc_inv g c I Q" and X: "X = set_sols I Q (c_card_min c) (c_card_max c)"
    using assms(2) by (auto simp: fsc_sols_def)
  have eq: "X \<inter> {S. i \<notin> S} = set_sols I (Q \<union> {i}) (c_card_min c) (c_card_max c)" unfolding X sols_out by auto
  have n: "told g (normalize_c g c') (X \<inter> {S. i \<notin> S})"
    if "fsc_rep g c' I (Q \<union> {i})" "c_card_min c' = c_card_min c" "c_card_max c' = c_card_max c" for c'
    using normalize_told[OF that(1)] that(2,3) fsc_invD(5)[OF inv] unfolding eq by (simp add: isValid_c_def)
  consider (low) "c_normal c" "i < 64" | (there) "c_normal c" "64 \<le> i" "c_otherout c"
    | (out) "c_normal c" "64 \<le> i" "\<not> c_otherout c" | (ext) "\<not> c_normal c" by linarith
  then show ?thesis
  proof cases
    case low
    then show ?thesis using assms(3,4) fsc_invD(1)[OF inv]
      by (simp add: minus_int_c_def) (rule n; simp add: fsc_rep_def norm_insert)
  next
    case there
    then have "i \<in> Q" using fsc_invD(1)[OF inv] norm_above[of "c_not_in c" _ Q i] assms(4) by (auto simp: fsc_rep_def)
    then have "X \<inter> {S. i \<notin> S} = X" unfolding X by (auto simp: set_sols_def)
    then show ?thesis using there told_same[OF assms(2)] assms(3,4) by (simp add: minus_int_c_def)
  next
    case out
    then have "ext_rep g (c_IN (toExtended_c g c)) I" "ext_rep g (c_OUT (toExtended_c g c)) Q"
      using fsc_invD(1)[OF inv] assms(1) by (auto simp: fsc_rep_def toExtended_c_rep)
    then show ?thesis using out assms(3,4)
      by (simp add: minus_int_c_def Let_def) (rule n; simp add: fsc_rep_def ext_insert)
  next
    case ext
    then show ?thesis using assms(3,4) fsc_invD(1)[OF inv]
      by (simp add: minus_int_c_def) (rule n; simp add: fsc_rep_def ext_insert)
  qed
qed


lemma or_assign_c_told:
  assumes "fd_globals_ok g" "fsc_sols g c X" "fsv_rep g y T"
  shows "told g (apsnd Not (or_assign_c g c y)) (X \<inter> {S. T \<subseteq> S})"
proof -
  obtain I Q where inv: "fsc_inv g c I Q" and X: "X = set_sols I Q (c_card_min c) (c_card_max c)"
    using assms(2) by (auto simp: fsc_sols_def)
  have n: "told g (apsnd Not (case normalize_c g c' of (c, r) \<Rightarrow> (c, \<not> r))) (X \<inter> {S. T \<subseteq> S})"
    if "fsc_rep g c' (I \<union> T) Q" "c_card_min c' = c_card_min c" "c_card_max c' = c_card_max c" for c'
    using normalize_told[OF that(1)] that(2,3) fsc_invD(5)[OF inv] unfolding X sols_in
    by (auto simp: isValid_c_def split: prod.split)
  have y: "if v_normal y then norm_rep (v_in y, v_other y) T else ext_rep g (v_IN y) T"
    using assms(3) by (simp add: fsv_rep_def)
  show ?thesis using fsc_invD(1)[OF inv] assms(1) y
    by (cases "c_normal c"; cases "v_normal y") (simp add: or_assign_c_def Let_def, rule n; simp add: form_facts)+
qed

lemma and_assign_c_told:
  assumes "fd_globals_ok g" "fsc_sols g c X" "fsv_rep g y T"
  shows "told g (apsnd Not (and_assign_c g v c y)) (X \<inter> {S. S \<subseteq> T})"
proof -
  let ?T = "{0..fd_sup} - T" and ?y = "fst (not_v g v y)"
  obtain I Q where inv: "fsc_inv g c I Q" and X: "X = set_sols I Q (c_card_min c) (c_card_max c)"
    using assms(2) by (auto simp: fsc_sols_def)
  have eq: "X \<inter> {S. S \<subseteq> T} = set_sols I (Q \<union> ?T) (c_card_min c) (c_card_max c)"
    unfolding sols_out X by (auto simp: set_sols_def)
  have n: "told g (apsnd Not (case normalize_c g c' of (c, r) \<Rightarrow> (c, \<not> r))) (X \<inter> {S. S \<subseteq> T})"
    if "fsc_rep g c' I (Q \<union> ?T)" "c_card_min c' = c_card_min c" "c_card_max c' = c_card_max c" for c'
    using normalize_told[OF that(1)] that(2,3) fsc_invD(5)[OF inv] unfolding eq
    by (auto simp: isValid_c_def split: prod.split)
  have y: "if v_normal ?y then norm_rep (v_in ?y, v_other ?y) ?T else ext_rep g (v_IN ?y) ?T"
    using not_v_rep[OF assms(1,3), of v] by (simp add: fsv_rep_def)
  show ?thesis using fsc_invD(1)[OF inv] assms(1) y
    by (cases "c_normal c"; cases "v_normal ?y") (simp add: and_assign_c_def Let_def, rule n; simp add: form_facts)+
qed


subsection \<open>Bounds of the elements\<close>

lemma out_below_words:
  assumes "length bv = 2" "0 \<le> i" "i < 64" "b = fill_words 0 (widx i) (NOT 0) bv"
    "b' = b[widx i := b ! widx i OR NOT (toTheUpperEnd ! bidx i)]"
  shows "bv_set b' = bv_set bv \<union> {0..<i}"
proof -
  obtain l where l: "i = int l" "l div 32 < length bv"
    using bv_elem_nat[of i bv] assms(1-3) by (auto simp: currBvMaxElem_def)
  have mem: "k \<in> wbits b' \<longleftrightarrow> k \<in> wbits bv \<or> \<not> l \<le> k" for k
    unfolding assms(4,5) word_le_iff[of l k] using l
    by (cases "k div 32" "l div 32" rule: linorder_cases)
      (auto simp: mem_wbits_update mem_fill_words nth_fill_words bit_or_iff bit_not_iff mem_wbits cong: conj_cong)
  show ?thesis by (rule bv_set_eqI) (auto simp: mem l(1) mem_bv_set)
qed

lemma out_above_words:
  assumes "length bv = 2" "0 \<le> i" "i < 64" "b = fill_words (widx i + 1) 2 (NOT 0) bv"
    "b' = b[widx i := b ! widx i OR NOT (toTheLowerEnd ! bidx i)]"
  shows "bv_set b' = bv_set bv \<union> {i<..<64}"
proof -
  obtain u where u: "i = int u" "u div 32 < length bv"
    using bv_elem_nat[of i bv] assms(1-3) by (auto simp: currBvMaxElem_def)
  have mem: "k \<in> wbits b' \<longleftrightarrow> k \<in> wbits bv \<or> \<not> k \<le> u \<and> k div 32 < 2" for k
    unfolding assms(4,5) word_le_iff[of k u] using u assms(1)
    by (cases "k div 32" "u div 32" rule: linorder_cases)
      (simp add: mem_wbits_update mem_fill_words nth_fill_words bit_or_iff bit_not_iff mem_wbits cong: conj_cong; blast)+
  have "k \<in> wbits b' \<longleftrightarrow> k \<in> wbits bv \<or> u < k \<and> k < 64" for k
    unfolding mem using wbits_div_less[of k 2] by auto
  then show ?thesis by (intro bv_set_eqI) (simp_all add: u(1) mem_bv_set, auto)
qed

lemma norm_out_below:
  assumes "norm_rep (bv, p) S" "0 \<le> i" "i < 64" "b = fill_words 0 (widx i) (NOT 0) bv"
  shows "norm_rep (b[widx i := b ! widx i OR NOT (toTheUpperEnd ! bidx i)], p) (S \<union> {0..<i})"
  using assms(1,4) out_below_words[OF _ assms(2-4) refl] by (auto simp: norm_rep_def bits_set_def)

lemma norm_out_above:
  assumes "norm_rep (bv, p) S" "0 \<le> i" "i < 64" "b = fill_words (widx i + 1) 2 (NOT 0) bv"
  shows "norm_rep (b[widx i := b ! widx i OR NOT (toTheLowerEnd ! bidx i)], True) (S \<union> {i<..fd_sup})"
proof -
  have "{i<..<64} \<union> {64..fd_sup} = {i<..fd_sup}" using assms(2,3) limit_less_sup by auto
  then show ?thesis using assms(1,4) out_above_words[OF _ assms(2-4) refl] by (auto simp: norm_rep_def bits_set_def)
qed

lemma range_rep:
  "fd_globals_ok g \<Longrightarrow> 0 < i \<Longrightarrow> ext_rep g (fst (initRange new_fd 0 (max (i - 1) 0))) ({0..<i} \<inter> {0..fd_sup})"
  "fd_globals_ok g \<Longrightarrow> 0 \<le> i \<Longrightarrow> i < fd_sup \<Longrightarrow> ext_rep g (fst (initRange new_fd (min fs_sup (i + 1)) fs_sup)) {i<..fd_sup}"
proof -
  assume g: "fd_globals_ok g"
  show "ext_rep g (fst (initRange new_fd 0 (max (i - 1) 0))) ({0..<i} \<inter> {0..fd_sup})" if "0 < i"
  proof -
    have "{0..max (i - 1) 0} = {0..<i}" "0 \<in> {0..<i} \<inter> {0..fd_sup}" using that by auto
    then show ?thesis using initRange_spec[of g new_fd 0 "max (i - 1) 0"] g by (metis empty_iff ext_repI)
  qed
  show "ext_rep g (fst (initRange new_fd (min fs_sup (i + 1)) fs_sup)) {i<..fd_sup}" if "0 \<le> i" "i < fd_sup"
  proof -
    have "{min fs_sup (i + 1)..fs_sup} \<inter> {0..fd_sup} = {i<..fd_sup}" "fd_sup \<in> {i<..fd_sup}" using that by auto
    then show ?thesis using initRange_spec[of g new_fd "min fs_sup (i + 1)" fs_sup] g by (metis empty_iff ext_repI)
  qed
qed

lemma elem_told:
  assumes "fd_globals_ok g" "fsc_inv g c I Q" "fsc_rep g c' I (Q \<union> A)" "c_card_min c' = c_card_min c" "c_card_max c' = c_card_max c"
  shows "told g (normalize_c g c') (set_sols I Q (c_card_min c) (c_card_max c) \<inter> {S. S \<inter> A = {}})"
  using normalize_told[OF assms(3)] assms(4,5) fsc_invD(5)[OF assms(2)] unfolding sols_out by (simp add: isValid_c_def)

lemma maybe_told:
  assumes "fd_globals_ok g" "fsc_inv g c I Q" "c_normal c" "ext_rep g d A"
  shows "told g (normalize_c g (fst (maybeToNormal_c ((toExtended_c g c)\<lparr>c_OUT := op_or g (c_OUT (toExtended_c g c)) d\<rparr>))))
    (set_sols I Q (c_card_min c) (c_card_max c) \<inter> {S. S \<inter> A = {}})"
proof -
  let ?e = "(toExtended_c g c)\<lparr>c_OUT := op_or g (c_OUT (toExtended_c g c)) d\<rparr>"
  have "ext_rep g (c_IN (toExtended_c g c)) I" "ext_rep g (c_OUT (toExtended_c g c)) Q"
    using fsc_invD(1)[OF assms(2)] assms(1,3) by (auto simp: fsc_rep_def toExtended_c_rep)
  then have "ext_rep g (c_IN ?e) I" "ext_rep g (c_OUT ?e) (Q \<union> A)" "\<not> c_normal ?e" using assms(4) fdk.union_rep by auto
  from maybe_c_rep[OF this refl] show ?thesis by (intro elem_told[OF assms(1,2)]) simp_all
qed

lemma ge_elem_c_told:
  assumes "fd_globals_ok g" "fsc_sols g c X" "0 \<le> i"
  shows "\<exists>p. ge_elem_c g c i = Some p \<and> told g p (X \<inter> {S. S \<subseteq> {i..}})"
proof -
  obtain I Q where inv: "fsc_inv g c I Q" and X: "X = set_sols I Q (c_card_min c) (c_card_max c)"
    using assms(2) by (auto simp: fsc_sols_def)
  let ?A = "{0..<i} \<inter> {0..fd_sup}"
  have eq: "X \<inter> {S. S \<subseteq> {i..}} = X \<inter> {S. S \<inter> ?A = {}}" unfolding X set_sols_def by fastforce
  note t = elem_told[OF assms(1) inv, where A = ?A, folded X]
  have r: "fsc_rep g c I Q" by (rule fsc_invD(1)[OF inv])
  consider (zero) "i = 0" | (low) "c_normal c" "0 < i" "i < 64" | (high) "c_normal c" "64 \<le> i" | (ext) "\<not> c_normal c" "0 < i"
    using assms(3) by linarith
  then show ?thesis
  proof cases
    case zero
    then show ?thesis using t[of c] r unfolding eq by (simp add: ge_elem_c_def)
  next
    case low
    have A: "?A = {0..<i}" using low limit_less_sup by auto
    then show ?thesis unfolding eq A using low r t[unfolded A] norm_out_below[OF _ _ low(3) refl, of "c_not_in c" "c_otherout c" Q]
      by (simp add: ge_elem_c_def Let_def fsc_rep_def)
  next
    case high
    then show ?thesis using maybe_told[OF assms(1) inv high(1) range_rep(1)[OF assms(1), of i]]
      unfolding eq unfolding X by (simp add: ge_elem_c_def Let_def)
  next
    case ext
    then show ?thesis unfolding eq using r t range_rep(1)[OF assms(1), of i] by (simp add: ge_elem_c_def Let_def fsc_rep_def fdk.union_rep)
  qed
qed

lemma le_elem_c_told:
  assumes "fd_globals_ok g" "fsc_sols g c X" "0 \<le> i" "i \<le> fd_sup"
  shows "\<exists>p. le_elem_c g c i = Some p \<and> told g p (X \<inter> {S. S \<subseteq> {..i}})"
proof -
  obtain I Q where inv: "fsc_inv g c I Q" and X: "X = set_sols I Q (c_card_min c) (c_card_max c)"
    using assms(2) by (auto simp: fsc_sols_def)
  have eq: "X \<inter> {S. S \<subseteq> {..i}} = X \<inter> {S. S \<inter> {i<..fd_sup} = {}}" unfolding X set_sols_def by fastforce
  note t = elem_told[OF assms(1) inv, where A = "{i<..fd_sup}", folded X]
  have r: "fsc_rep g c I Q" by (rule fsc_invD(1)[OF inv])
  consider (sup) "i = fd_sup" | (low) "c_normal c" "i < 64" "i \<noteq> fd_sup" | (high) "c_normal c" "64 \<le> i" "i < fd_sup"
    | (ext) "\<not> c_normal c" "i < fd_sup" using assms(4) by linarith
  then show ?thesis
  proof cases
    case sup
    then show ?thesis using t[of c] r unfolding eq by (simp add: le_elem_c_def)
  next
    case low
    then show ?thesis unfolding eq using r t assms(3) norm_out_above[OF _ assms(3) low(2) refl, of "c_not_in c" "c_otherout c" Q]
      by (simp add: le_elem_c_def Let_def fsc_rep_def)
  next
    case high
    then show ?thesis using maybe_told[OF assms(1) inv high(1) range_rep(2)[OF assms(1), of i]]
      unfolding eq unfolding X by (simp add: le_elem_c_def Let_def)
  next
    case ext
    then show ?thesis unfolding eq using r t range_rep(2)[OF assms(1,3)] by (simp add: le_elem_c_def Let_def fsc_rep_def fdk.union_rep)
  qed
qed


section \<open>Tests\<close>

lemma norm_tests:
  assumes "norm_rep (a, p) S" "norm_rep (b, q) T"
  shows "\<not> (p \<and> \<not> q) \<and> \<not> meet_bv a (not_bv b) \<longleftrightarrow> S \<subseteq> T" "\<not> (\<not> p \<and> q) \<and> \<not> meet_bv (not_bv a) b \<longleftrightarrow> T \<subseteq> S"
proof -
  have sub: "S \<subseteq> {0..fd_sup}" "T \<subseteq> {0..fd_sup}" using nrm.rep_sub assms by blast+
  show "\<not> (p \<and> \<not> q) \<and> \<not> meet_bv a (not_bv b) \<longleftrightarrow> S \<subseteq> T"
    using meet_norm[OF assms(1) norm_ops(3)[OF assms(2,2)]] sub by blast
  show "\<not> (\<not> p \<and> q) \<and> \<not> meet_bv (not_bv a) b \<longleftrightarrow> T \<subseteq> S"
    using meet_norm[OF norm_ops(3)[OF assms(1,1)] assms(2)] sub by blast
qed

lemma valid_c_iff:
  assumes "fd_globals_ok g" "fsc_inv g c I Q" "fsv_rep g v S"
  shows "valid_c g c v \<longleftrightarrow> S \<in> set_sols I Q (c_card_min c) (c_card_max c)"
proof -
  have S: "S \<subseteq> {0..fd_sup}" "v_card v = int (card S)" using fsv_rep_sub[OF assms(3)] assms(3) by (auto simp: fsv_rep_def)
  have goal: "S \<in> set_sols I Q (c_card_min c) (c_card_max c) \<longleftrightarrow>
      \<not> (v_card v < c_card_min c \<or> c_card_max c < v_card v) \<and> I \<subseteq> S \<and> Q \<inter> S = {}"
    using S by (auto simp: set_sols_def)
  have r: "fsc_rep g c I Q" by (rule fsc_invD(1)[OF assms(2)])
  have v: "if v_normal v then norm_rep (v_in v, v_other v) S else ext_rep g (v_IN v) S" using assms(3) by (simp add: fsv_rep_def)
  show ?thesis
  proof (cases "c_normal c"; cases "v_normal v")
    assume "c_normal c" "v_normal v"
    then show ?thesis unfolding goal using r v norm_tests(1)[of "c_in c" "c_otherin c" I "v_in v" "v_other v" S]
        meet_norm[of "c_not_in c" "c_otherout c" Q "v_in v" "v_other v" S]
      by (auto simp: valid_c_def fsc_rep_def)
  next
    assume "c_normal c" "\<not> v_normal v"
    then show ?thesis unfolding goal using r v assms(1) aux_rep[of g "c_in c" "c_otherin c" I] aux_rep[of g "c_not_in c" "c_otherout c" Q]
      by (simp add: valid_c_def fsc_rep_def fdk.subset_test fdk.disjoint_test)
  next
    assume "\<not> c_normal c" "v_normal v"
    then show ?thesis unfolding goal using r v assms(1) aux_rep[of g "v_in v" "v_other v" S]
      by (auto simp: valid_c_def fsc_rep_def fdk.subset_test fdk.disjoint_test)
  next
    assume "\<not> c_normal c" "\<not> v_normal v"
    then show ?thesis unfolding goal using r v by (auto simp: valid_c_def fsc_rep_def fdk.subset_test fdk.disjoint_test)
  qed
qed

lemma isIn_c_iff:
  assumes "fsc_rep g c I Q"
  shows "isIn_c c i \<longleftrightarrow> i \<in> I" "isNotIn_c c i \<longleftrightarrow> i \<in> Q"
  using assms nrm.mem_rep[of "(c_in c, c_otherin c)" I i] nrm.mem_rep[of "(c_not_in c, c_otherout c)" Q i]
    fdk.mem_rep[of g "c_IN c" I i] fdk.mem_rep[of g "c_OUT c" Q i]
  by (auto simp: isIn_c_def isNotIn_c_def fsc_rep_def norm_mem_def split: if_splits)

lemma differ_c_iff:
  assumes "fd_globals_ok g" "fsc_inv g c I Q" "fsc_inv g y J R"
  shows "differ_c g c y \<longleftrightarrow>
    c_card_min c > c_card_max y \<or> c_card_max c < c_card_min y \<or> I \<inter> R \<noteq> {} \<or> Q \<inter> J \<noteq> {}"
  using fsc_invD(1)[OF assms(2)] fsc_invD(1)[OF assms(3)]
proof (cases rule: fsc_cases2)
  case nn
  then show ?thesis using meet_norm[OF nn(3,6)] meet_norm[OF nn(4,5)] by (auto simp: differ_c_def)
next
  case nx
  then show ?thesis using aux_rep[OF assms(1) nx(3)] aux_rep[OF assms(1) nx(4)]
    by (simp add: differ_c_def fdk.disjoint_test Int_commute)
next
  case xn
  then show ?thesis using aux_rep[OF assms(1) xn(5)] aux_rep[OF assms(1) xn(6)]
    by (simp add: differ_c_def fdk.disjoint_test Int_commute)
next
  case xx
  then show ?thesis by (simp add: differ_c_def fdk.disjoint_test Int_commute)
qed

lemma norm_inj: "norm_rep (a, p) S \<Longrightarrow> norm_rep (b, q) T \<Longrightarrow> S = T \<longleftrightarrow> a = b \<and> p = q"
  using bits_set_inj[of a b p q] by (auto simp: norm_rep_def)

lemma eq_c_iff:
  assumes "fd_globals_ok g" "fsc_inv g c I Q" "fsc_inv g y J R"
  shows "eq_c g c y \<longleftrightarrow> I = J \<and> Q = R \<and> c_card_min c = c_card_min y \<and> c_card_max c = c_card_max y"
proof (cases "c_normal c = c_normal y")
  case False
  then have "\<not> (I = J \<and> Q = R)" using fsc_invD(12)[OF assms(2)] fsc_invD(12)[OF assms(3)] by (auto simp: canonical_c_def)
  then show ?thesis using False by (auto simp: eq_c_def)
next
  case True
  note k = fsc_invD(10,11)[OF assms(2)] fsc_invD(10,11)[OF assms(3)]
  from fsc_invD(1)[OF assms(2)] fsc_invD(1)[OF assms(3)] show ?thesis
  proof (cases rule: fsc_cases2)
    case nn
    have "I = J \<longleftrightarrow> c_in c = c_in y \<and> c_otherin c = c_otherin y" "Q = R \<longleftrightarrow> c_not_in c = c_not_in y \<and> c_otherout c = c_otherout y"
      by (rule norm_inj[OF nn(3,5)], rule norm_inj[OF nn(4,6)])
    then show ?thesis using nn(1,2) k by (auto simp: eq_c_def)
  next
    case xx
    then show ?thesis using k fdk.equal_test[OF xx(3,5)] fdk.equal_test[OF xx(4,6)]
        ext_rep_facts(3)[OF xx(3)] ext_rep_facts(3)[OF xx(4)] ext_rep_facts(3)[OF xx(5)] ext_rep_facts(3)[OF xx(6)]
      by (auto simp: eq_c_def)
  qed (use True in auto)
qed


lemma isSubsumedBy_c_iff:
  assumes "fd_globals_ok g" "fsc_inv g c I Q" "fsc_inv g y J R"
  shows "isSubsumedBy_c g c y \<longleftrightarrow> (if isValue_c c then I \<subseteq> J else isValue_c y \<and> R \<subseteq> Q)"
  using fsc_invD(1)[OF assms(2)] fsc_invD(1)[OF assms(3)]
proof (cases rule: fsc_cases2)
  case nn
  then show ?thesis using norm_tests(1)[OF nn(3,5)] norm_tests(2)[OF nn(4,6)] by (auto simp: isSubsumedBy_c_def)
next
  case nx
  note a = aux_rep[OF assms(1) nx(3)] aux_rep[OF assms(1) nx(4)]
  have "R \<subseteq> Q \<longleftrightarrow> ({0..fd_sup} - Q) \<inter> R = {}" using fsc_invD(3)[OF assms(3)] by auto
  then show ?thesis using nx fdk.subset_count(2)[OF a(1) nx(5)] fdk.count_rep[OF a(1)] fsc_invD(10)[OF assms(2)]
      fdk.disjoint_test[OF fdk.compl_rep[OF a(2)] nx(6)] by (auto simp: isSubsumedBy_c_def)
next
  case xn
  note a = aux_rep[OF assms(1) xn(5)] aux_rep[OF assms(1) xn(6)]
  have "R \<subseteq> Q \<longleftrightarrow> ({0..fd_sup} - Q) \<inter> R = {}" using fsc_invD(3)[OF assms(3)] by auto
  then show ?thesis using xn fdk.subset_count(2)[OF xn(3) a(1)] fdk.count_rep[OF xn(3)] fsc_invD(10)[OF assms(2)]
      fdk.disjoint_test[OF fdk.compl_rep[OF xn(4)] a(2)] by (auto simp: isSubsumedBy_c_def)
next
  case xx
  have "R \<subseteq> Q \<longleftrightarrow> ({0..fd_sup} - Q) \<inter> R = {}" using fsc_invD(3)[OF assms(3)] by auto
  then show ?thesis using xx fdk.subset_count(2)[OF xx(3,5)] fdk.count_rep[OF xx(3)] fsc_invD(10)[OF assms(2)]
      fdk.disjoint_test[OF fdk.compl_rep[OF xx(4)] xx(6)] by (auto simp: isSubsumedBy_c_def)
qed

lemma sols_mono:
  assumes "fsc_inv g c I Q" "fsc_inv g y J R"
    and "set_sols J R (c_card_min y) (c_card_max y) \<subseteq> set_sols I Q (c_card_min c) (c_card_max c)" (is "?Y \<subseteq> ?X")
  shows "I \<subseteq> J" "Q \<subseteq> R" "c_card_min c \<le> c_card_min y" "c_card_max y \<le> c_card_max c"
proof -
  have "\<Inter>?X \<subseteq> \<Inter>?Y" "\<Union>?Y \<subseteq> \<Union>?X" using assms(3) by blast+
  then show "I \<subseteq> J" "Q \<subseteq> R" unfolding sols_glb[OF assms(1)] sols_glb[OF assms(2)] sols_lub[OF assms(1)] sols_lub[OF assms(2)]
    using fsc_invD(3)[OF assms(1)] by auto
  note d = fsc_invD(8)[OF assms(2)]
  obtain S T where ST: "S \<in> ?Y" "int (card S) = c_card_min y" "T \<in> ?Y" "int (card T) = c_card_max y"
    using sols_card_ex[OF assms(2) order_refl d] sols_card_ex[OF assms(2) d order_refl] by auto
  then have "S \<in> ?X" "T \<in> ?X" using assms(3) by blast+
  then show "c_card_min c \<le> c_card_min y" "c_card_max y \<le> c_card_max c" using ST by (auto simp: set_sols_def)
qed

lemma sols_eq_iff:
  assumes "fsc_inv g c I Q" "fsc_inv g y J R"
  shows "set_sols I Q (c_card_min c) (c_card_max c) = set_sols J R (c_card_min y) (c_card_max y) \<longleftrightarrow>
    I = J \<and> Q = R \<and> c_card_min c = c_card_min y \<and> c_card_max c = c_card_max y"
  using sols_mono[OF assms] sols_mono[OF assms(2,1)] by (auto intro: antisym)

lemma isWeakerThan_c_iff:
  assumes "fsc_inv g c I Q" "fsc_inv g y J R"
    and "set_sols J R (c_card_min y) (c_card_max y) \<subseteq> set_sols I Q (c_card_min c) (c_card_max c)"
  shows "isWeakerThan_c c y \<longleftrightarrow> set_sols J R (c_card_min y) (c_card_max y) \<noteq> set_sols I Q (c_card_min c) (c_card_max c)"
proof -
  note m = sols_mono[OF assms]
  have f: "finite J" "finite R" using fsc_rep_sub[OF fsc_invD(1)[OF assms(2)]] by auto
  have "int (card I) < int (card J) \<longleftrightarrow> I \<noteq> J" "int (card Q) < int (card R) \<longleftrightarrow> Q \<noteq> R"
    using psubset_card_mono[OF f(1), of I] psubset_card_mono[OF f(2), of Q] m(1,2) by auto
  moreover have "getCardSize_c c > getCardSize_c y \<longleftrightarrow> \<not> (c_card_min c = c_card_min y \<and> c_card_max c = c_card_max y)"
    using m(3,4) by (auto simp: getCardSize_c_def)
  ultimately show ?thesis unfolding isWeakerThan_c_def sols_eq_iff[OF assms(2,1)]
    using fsc_invD(10,11)[OF assms(1)] fsc_invD(10,11)[OF assms(2)] by auto
qed

section \<open>Reading\<close>

lemma getSets_rep:
  assumes "fd_globals_ok g" "fsc_inv g c I Q"
  shows "fsv_rep g (getGlbSet_c v c) I" "fsv_rep g (getLubSet_c g v c) ({0..fd_sup} - Q)"
    "fsv_rep g (getUnknownSet_c g v c) ({0..fd_sup} - (I \<union> Q))" "fsv_rep g (getNotInSet_c v c) Q"
proof -
  have p: "norm_rep (bv, q) S \<Longrightarrow> fsv_rep g (fsv_of_bits v bv q) S" for bv q S
    using put_words_rep[where bv = bv and p = q and z = v and g = g] by (auto simp: fsv_of_bits_def norm_rep_def)
  have e: "ext_rep g d S \<Longrightarrow> fsv_rep g (init_v_fd v d) S" for d S
    using init_v_fd_rep[OF assms(1) ext_repD(1)] by blast
  note r = fsc_invD(1)[OF assms(2)]
  show "fsv_rep g (getGlbSet_c v c) I" "fsv_rep g (getNotInSet_c v c) Q" using r p e
    by (auto simp: getGlbSet_c_def getNotInSet_c_def fsc_rep_def)
  show "fsv_rep g (getLubSet_c g v c) ({0..fd_sup} - Q)"
    using r p[OF norm_ops(3)] e[OF fdk.compl_rep] by (auto simp: getLubSet_c_def fsc_rep_def)
  show "fsv_rep g (getUnknownSet_c g v c) ({0..fd_sup} - (I \<union> Q))"
  proof (cases "c_normal c")
    case True
    then have "norm_rep (or_bv (c_in c) (c_not_in c), c_otherin c \<or> c_otherout c) (I \<union> Q)"
      using r norm_ops(2) by (auto simp: fsc_rep_def)
    from p[OF norm_ops(3)[OF this this]] True show ?thesis by (simp add: getUnknownSet_c_def)
  next
    case False
    then show ?thesis using r e[OF fdk.compl_rep[OF fdk.union_rep]] by (auto simp: getUnknownSet_c_def fsc_rep_def)
  qed
qed


text \<open>
  The cardinalities. The number of elements of the greatest set is one too small when it is
  read from a domain, and that of the unknown elements always is.
\<close>

lemma getCards_eq:
  assumes "fsc_inv g c I Q"
  shows "getGlbCard_c c = int (card I)" "getNotInCard_c c = int (card Q)"
    "getLubCard_c c = int (card ({0..fd_sup} - Q)) - (if c_normal c then 0 else 1)"
    "getUnknownCard_c c = int (card ({0..fd_sup} - (I \<union> Q))) - 1"
    "getUnknown_c c = int (card ({0..fd_sup} - (I \<union> Q)))"
proof -
  note d = fsc_invD[OF assms]
  have "finite I" "finite Q" using fsc_rep_sub[OF d(1)] by auto
  then have cu: "int (card ({0..fd_sup} - (I \<union> Q))) = fd_sup + 1 - int (card I) - int (card Q)"
    using card_compl[of "I \<union> Q"] d(2-4) card_Un_disjoint[of I Q] by simp
  show "getUnknown_c c = int (card ({0..fd_sup} - (I \<union> Q)))" unfolding cu using d(10,11) by (simp add: getUnknown_c_def)
  have n: "findBitsSet (c_in c) + (if c_otherin c then size_of_other else 0) = int (card I)"
      "findBitsSet (c_not_in c) + (if c_otherout c then size_of_other else 0) = int (card Q)" if "c_normal c"
    using that d(1) nrm.count_rep[of "(c_in c, c_otherin c)" I] nrm.count_rep[of "(c_not_in c, c_otherout c)" Q]
    by (simp_all add: fsc_rep_def bits_card_def)
  have x: "fd_size (c_IN c) = int (card I)" "fd_size (c_OUT c) = int (card Q)" if "\<not> c_normal c"
    using that d(1) fdk.count_rep by (auto simp: fsc_rep_def)
  have b: "\<not> (c_otherin c \<and> c_otherout c)" if "c_normal c"
    using that d(1,4) meet_norm[of "c_in c" "c_otherin c" I "c_not_in c" "c_otherout c" Q] by (auto simp: fsc_rep_def)
  show "getGlbCard_c c = int (card I)" "getNotInCard_c c = int (card Q)"
    using n x by (auto simp: getGlbCard_c_def getNotInCard_c_def)
  show "getLubCard_c c = int (card ({0..fd_sup} - Q)) - (if c_normal c then 0 else 1)"
    unfolding card_compl[OF d(3)] using n(2) x(2) by (auto simp: getLubCard_c_def)
  show "getUnknownCard_c c = int (card ({0..fd_sup} - (I \<union> Q))) - 1"
    unfolding cu using n x b by (cases "c_normal c"; cases "c_otherin c"; cases "c_otherout c") (auto simp: getUnknownCard_c_def)
qed

lemma getBounds_eq:
  assumes "fd_globals_ok g" "fsc_inv g c I Q"
  shows "getGlbMinElem_c v c = (if I = {} then -1 else Min I)" "getGlbMaxElem_c v c = (if I = {} then -1 else Max I)"
    "getNotInMinElem_c v c = (if Q = {} then -1 else Min Q)" "getNotInMaxElem_c v c = (if Q = {} then -1 else Max Q)"
    "getLubMinElem_c g v c = (if {0..fd_sup} - Q = {} then -1 else Min ({0..fd_sup} - Q))"
    "getLubMaxElem_c g v c = (if {0..fd_sup} - Q = {} then -1 else Max ({0..fd_sup} - Q))"
    "getUnknownMinElem_c g v c = (if {0..fd_sup} - (I \<union> Q) = {} then -1 else Min ({0..fd_sup} - (I \<union> Q)))"
    "getUnknownMaxElem_c g v c = (if {0..fd_sup} - (I \<union> Q) = {} then -1 else Max ({0..fd_sup} - (I \<union> Q)))"
proof -
  have x: "min_elem d = (if S = {} then -1 else Min S) \<and> max_elem d = (if S = {} then -1 else Max S)" if "ext_rep g d S" for d S
    using ext_rep_facts(4)[OF that] that by (auto simp: ext_rep_def)
  note r = fsc_invD(1)[OF assms(2)] and s = getSets_rep[OF assms, of v]
  note m = getMinElem_v_rep[OF s(1)] getMinElem_v_rep[OF s(2)] getMinElem_v_rep[OF s(3)] getMinElem_v_rep[OF s(4)]
    getMaxElem_v_rep[OF s(1)] getMaxElem_v_rep[OF s(2)] getMaxElem_v_rep[OF s(3)] getMaxElem_v_rep[OF s(4)]
  have xx: "\<not> c_normal c \<Longrightarrow> ext_rep g (c_IN c) I" "\<not> c_normal c \<Longrightarrow> ext_rep g (c_OUT c) Q" using r by (auto simp: fsc_rep_def)
  show "getGlbMinElem_c v c = (if I = {} then -1 else Min I)" "getGlbMaxElem_c v c = (if I = {} then -1 else Max I)"
    "getNotInMinElem_c v c = (if Q = {} then -1 else Min Q)" "getNotInMaxElem_c v c = (if Q = {} then -1 else Max Q)"
    using x[OF xx(1)] x[OF xx(2)] m
    by (simp_all add: getGlbMinElem_c_def getGlbMaxElem_c_def getNotInMinElem_c_def getNotInMaxElem_c_def)
  show "getLubMinElem_c g v c = (if {0..fd_sup} - Q = {} then -1 else Min ({0..fd_sup} - Q))"
    "getLubMaxElem_c g v c = (if {0..fd_sup} - Q = {} then -1 else Max ({0..fd_sup} - Q))"
    "getUnknownMinElem_c g v c = (if {0..fd_sup} - (I \<union> Q) = {} then -1 else Min ({0..fd_sup} - (I \<union> Q)))"
    "getUnknownMaxElem_c g v c = (if {0..fd_sup} - (I \<union> Q) = {} then -1 else Max ({0..fd_sup} - (I \<union> Q)))"
    unfolding getLubMinElem_c_def getLubMaxElem_c_def getUnknownMinElem_c_def getUnknownMaxElem_c_def by (rule m)+
qed

lemma lists_denote:
  assumes "fd_globals_ok g" "fsc_inv g c I Q" "before \<noteq> 63"
  shows "describes (getKnownInList_c before c) I" "describes (getKnownNotInList_c before c) Q"
    "describes (getUnknownList_c g before c) ({0..fd_sup} - (I \<union> Q))"
    "describes (getLubList_c g before c) ({0..fd_sup} - Q)"
proof -
  note r = fsc_invD(1)[OF assms(2)]
  have n: "norm_rep (bv, p) S \<Longrightarrow> describes (getAsList_fs before bv False p) S"
    "norm_rep (bv, p) S \<Longrightarrow> describes (getAsList_fs before bv True p) ({0..fd_sup} - S)" for bv p S
    using getAsList_fs_denotes[OF _ assms(3), of bv False p] getAsList_fs_denotes[OF _ assms(3), of bv True p]
    by (auto simp: norm_rep_def)
  have x: "ext_rep g d S \<Longrightarrow> describes (getAsList d) S" for d S using getAsList_describes[OF ext_repD(1)] by blast
  show "describes (getKnownInList_c before c) I" "describes (getKnownNotInList_c before c) Q"
    "describes (getLubList_c g before c) ({0..fd_sup} - Q)"
    using r n x fdk.compl_rep[of g "c_OUT c" Q]
    by (auto simp: getKnownInList_c_def getKnownNotInList_c_def getLubList_c_def fsc_rep_def)
  show "describes (getUnknownList_c g before c) ({0..fd_sup} - (I \<union> Q))"
  proof (cases "c_normal c")
    case True
    then have "norm_rep (or_bv (c_in c) (c_not_in c), c_otherin c \<or> c_otherout c) (I \<union> Q)"
      using r norm_ops(2) by (auto simp: fsc_rep_def)
    from n(1)[OF norm_ops(3)[OF this this]] True show ?thesis by (simp add: getUnknownList_c_def)
  next
    case False
    then show ?thesis using r x[OF fdk.compl_rep[OF fdk.union_rep]] by (auto simp: getUnknownList_c_def fsc_rep_def)
  qed
qed


section \<open>Initialisation\<close>

lemma zero_words: "norm_rep ([0, 0], False) {}" "norm_rep ([-1, -1], True) {0..fd_sup}"
proof -
  show z: "norm_rep ([0, 0], False) {}" by (simp add: norm_rep_def bits_set_def bv_set_def wbits_empty_iff)
  show "norm_rep ([-1, -1], True) {0..fd_sup}" using norm_ops(3)[OF z z] by (simp add: not_bv_def)
qed

lemma init_c_sols: "fsc_sols g (init_c c) (Pow {0..fd_sup})"
proof (rule fsc_solsI)
  have r: "fsc_rep g (init_c c) {} {}" using zero_words(1) by (simp add: init_c_def fsc_rep_def numeral_2_eq_2)
  have "{} \<noteq> {0..fd_sup}" using limit_less_sup by simp
  then show "fsc_inv g (init_c c) {} {}" using r normal_canonical[OF r]
    by (simp add: fsc_inv_def) (simp add: init_c_def)
  have "int (card S) \<le> fd_sup + 1" if "S \<subseteq> {0..fd_sup}" for S using card_mono[OF _ that] by (simp add: le_nat_iff)
  then show "set_sols {} {} (c_card_min (init_c c)) (c_card_max (init_c c)) = Pow {0..fd_sup}" by (auto simp: set_sols_def)
qed

lemma value_sols:
  assumes "fsc_rep g c S ({0..fd_sup} - S)" "canonical_c c S ({0..fd_sup} - S)" "c_known_in c = int (card S)"
    "c_known_not_in c = fd_sup + 1 - int (card S)" "c_card_min c = int (card S)" "c_card_max c = int (card S)"
  shows "fsc_sols g c {S}"
proof -
  have S: "S \<subseteq> {0..fd_sup}" using fsc_rep_sub[OF assms(1)] by simp
  have "fsc_inv g c S ({0..fd_sup} - S)"
    by (rule fsc_inv_value[OF assms(1,2) refl]) (use assms(3-6) card_compl[OF S] in linarith)+
  then show ?thesis by (rule fsc_solsI) (use sols_fixed_low[OF S] assms(5,6) in auto)
qed

lemma init_c_v_sols:
  assumes "fsv_rep g v S"
  shows "fsc_sols g (init_c_v g c v) {S}"
proof (rule value_sols)
  have S: "S \<subseteq> {0..fd_sup}" "v_card v = int (card S)" using fsv_rep_sub[OF assms] assms by (auto simp: fsv_rep_def)
  show "fsc_rep g (init_c_v g c v) S ({0..fd_sup} - S)"
    using assms norm_ops(3)[of "v_in v" "v_other v" S] fdk.compl_rep[of g "v_IN v" S]
    by (auto simp: init_c_v_def fsc_rep_def fsv_rep_def Let_def)
  show "canonical_c (init_c_v g c v) S ({0..fd_sup} - S)"
    using fsv_normal_iff[OF assms] by (auto simp: canonical_c_def init_c_v_def compl_simple Let_def)
  show "c_known_in (init_c_v g c v) = int (card S)" "c_known_not_in (init_c_v g c v) = fd_sup + 1 - int (card S)"
    "c_card_min (init_c_v g c v) = int (card S)" "c_card_max (init_c_v g c v) = int (card S)"
    using S(2) by (simp_all add: init_c_v_def Let_def)
qed

lemma init_c_state_sols: "fsc_sols g (init_c_state c fs_empty) {{}}" "fsc_sols g (init_c_state c fs_full) {{0..fd_sup}}"
proof -
  have e: "fsc_rep g (init_c_state c fs_empty) {} ({0..fd_sup} - {})"
    and f: "fsc_rep g (init_c_state c fs_full) {0..fd_sup} ({0..fd_sup} - {0..fd_sup})"
    using zero_words by (simp_all add: init_c_state_def fsc_rep_def numeral_2_eq_2)
  show "fsc_sols g (init_c_state c fs_empty) {{}}"
    by (rule value_sols[OF e normal_canonical[OF e]]) (simp_all add: init_c_state_def)
  show "fsc_sols g (init_c_state c fs_full) {{0..fd_sup}}"
    by (rule value_sols[OF f normal_canonical[OF f]]) (simp_all add: init_c_state_def)
qed

lemma init_c_c_sols: "fsc_sols g y X \<Longrightarrow> fsc_sols g (init_c_c c y) X"
  unfolding fsc_sols_def fsc_inv_def fsc_rep_def canonical_c_def
  by (cases "c_normal y") (simp_all add: init_c_c_def Let_def)

lemma init_v_c_rep:
  assumes "fsc_inv g c I Q" "isValue_c c"
  shows "fsv_rep g (init_v_c v c) I"
proof -
  note d = fsc_invD[OF assms(1)]
  have k: "c_card_min c = int (card I)" "c_card_max c = int (card I)" using assms(2) d(10) by (auto simp: isValue_c_def)
  then have Q: "Q = {0..fd_sup} - I" using d(13) by force
  have "c_normal c \<longleftrightarrow> simple_set I" using d(12) Q by (simp add: canonical_c_def compl_simple)
  then show ?thesis using d(1) k by (auto simp: init_v_c_def fsv_rep_def fsc_rep_def Let_def)
qed

text \<open>The constructors; an empty description is \<^verbatim>\<open>nil\<close>, whose domain has the bounds of \<^verbatim>\<open>initEmpty\<close>.\<close>

lemma fsc_cards_told:
  assumes "fd_globals_ok g" "describes ins A"
    "describes outs B" "cmin \<noteq> -1"
  shows "\<exists>c'. fsc_cards g c cmin cmax ins outs = Some c' \<and>
    (if isValid_c c' then told g (normalize_c g c') (set_sols A B cmin cmax) else set_sols A B cmin cmax = {})"
proof -
  obtain di dn where d: "initDescr g (c_IN c) ins = Some (di, int (card A))" "ext_rep g di A"
      "initDescr g (c_OUT c) outs = Some (dn, int (card B))" "ext_rep g dn B"
    using initDescr_ext[OF assms(1,2), of "c_IN c"] initDescr_ext[OF assms(1,3), of "c_OUT c"] by blast
  let ?c = "c\<lparr>c_card_min := cmin, c_card_max := cmax, c_normal := False, c_IN := di, c_known_in := int (card A),
    c_OUT := dn, c_known_not_in := int (card B)\<rparr>"
  have ov: "fd_size (op_and g di dn) \<noteq> 0 \<longleftrightarrow> A \<inter> B \<noteq> {}" using fdk.disjoint_test[OF d(2,4)] by simp
  show ?thesis
  proof (cases "A \<inter> B = {}")
    case False
    then have "set_sols A B cmin cmax = {}" by (auto simp: set_sols_def)
    then show ?thesis using d(1,3) ov False by (auto simp: fsc_cards_def isValid_c_def)
  next
    case True
    have "ext_rep g (c_IN ?c) A" "ext_rep g (c_OUT ?c) B" "\<not> c_normal ?c" using d by simp_all
    note m = maybe_c_rep[OF this refl]
    let ?m = "fst (maybeToNormal_c ?c)"
    have eq: "fsc_cards g c cmin cmax ins outs =
        Some (if cmax < int (card A) \<or> cmax < cmin then ?m\<lparr>c_card_min := -1\<rparr> else ?m)"
      using d(1,3) ov True m(3-5) by (simp add: fsc_cards_def Let_def)
    have "set_sols A B cmin cmax = {}" if "cmax < int (card A) \<or> cmax < cmin"
      using that sols_card(1)[OF _ ext_rep_facts(1)[OF d(2)] ext_rep_facts(1)[OF d(4)], of _ cmin cmax]
      by (fastforce simp: set_sols_def)
    then show ?thesis using eq normalize_told[OF m(1)] m(3,4) assms(4) by (auto simp: isValid_c_def)
  qed
qed

lemma fsc_bounds_sols:
  assumes "fd_globals_ok g" "describes lo A"
    "describes hi B" "A \<subseteq> B"
  shows "\<exists>c'. fsc_bounds g c lo hi = Some c' \<and> fsc_sols g c' {S. A \<subseteq> S \<and> S \<subseteq> B}"
proof -
  let ?Q = "{0..fd_sup} - B"
  obtain di dn where d: "initDescr g (c_IN c) lo = Some (di, int (card A))" "ext_rep g di A"
      "initDescr g (c_OUT c) hi = Some (dn, int (card B))" "ext_rep g dn B"
    using initDescr_ext[OF assms(1,2), of "c_IN c"] initDescr_ext[OF assms(1,3), of "c_OUT c"] by blast
  note n = fdk.compl_rep[OF d(4)]
  have AB: "A \<subseteq> {0..fd_sup}" "B \<subseteq> {0..fd_sup}" "finite A" "finite B" using ext_rep_facts[OF d(2)] ext_rep_facts[OF d(4)] by auto
  let ?n = "fd_size (op_not g dn)"
  have sz: "?n = fd_sup + 1 - int (card B)" using fdk.count_rep[OF n] card_compl[OF AB(2)] by simp
  let ?c = "c\<lparr>c_normal := False, c_IN := di, c_card_min := int (card A), c_known_in := int (card A), c_OUT := op_not g dn,
    c_known_not_in := ?n, c_card_max := fs_sup - ?n + 1\<rparr>"
  have "ext_rep g (c_IN ?c) A" "ext_rep g (c_OUT ?c) ?Q" "\<not> c_normal ?c" using d n by simp_all
  note m = maybe_c_rep[OF this refl]
  let ?m = "fst (maybeToNormal_c ?c)"
  have UB: "{0..fd_sup} - ?Q = B" using AB(2) by auto
  have cQ: "int (card ?Q) = fd_sup + 1 - int (card B)" by (rule card_compl[OF AB(2)])
  have "card A \<le> card B" by (rule card_mono[OF AB(4) assms(4)])
  moreover have "card B = card A \<Longrightarrow> A = B" using card_subset_eq[OF AB(4) assms(4)] by simp
  ultimately have "fsc_inv g ?m A ?Q"
    unfolding fsc_inv_def UB using m sz cQ assms(4) by auto
  moreover have "set_sols A ?Q (c_card_min ?m) (c_card_max ?m) = {S. A \<subseteq> S \<and> S \<subseteq> B}"
    using card_mono[OF AB(4)] card_mono[OF finite_subset[OF _ AB(4)]] m(3,4) sz unfolding set_sols_def UB by fastforce
  ultimately have "fsc_sols g ?m {S. A \<subseteq> S \<and> S \<subseteq> B}" by (rule fsc_solsI)
  then show ?thesis using d(1,3) by (simp add: fsc_bounds_def Let_def)
qed

end
