(* ===== verification/FSetProps.thy ===== *)
theory FSetProps
  imports FSetSolutions
begin

text \<open>
  The properties of the finite-set kernel (\<^verbatim>\<open>platform/emulator/fset.cc\<close>): set values as sets,
  set constraints as the collections of sets they admit. The lemmas of
  \<^verbatim>\<open>FSetSolutions\<close> speak of the elements known to be in and out; here they are read back as
  the intersection and the union of the admitted sets.
\<close>

section \<open>Constraints by what they admit\<close>

lemma fsc_solsE:
  assumes "fsc_sols g c X"
  obtains I Q where "fsc_inv g c I Q" "X = set_sols I Q (c_card_min c) (c_card_max c)"
    "\<Inter>X = I" "\<Union>X = {0..fd_sup} - Q"
  using assms sols_glb sols_lub by (auto simp: fsc_sols_def)

lemma sols_card_bounds:
  assumes "fsc_sols g c X" "S \<in> X"
  shows "c_card_min c \<le> int (card S)" "int (card S) \<le> c_card_max c" "S \<subseteq> {0..fd_sup}" "finite S"
  using assms by (auto simp: fsc_sols_def set_sols_def intro: finite_subset)

lemma sols_card_attained:
  assumes "fsc_sols g c X" "c_card_min c \<le> k" "k \<le> c_card_max c"
  obtains S where "S \<in> X" "int (card S) = k"
  using sols_card_ex[OF _ assms(2,3)] assms(1) unfolding fsc_sols_def by metis

lemma card_le_some:
  assumes "fsc_sols g c X"
  shows "n \<le> c_card_max c \<longleftrightarrow> (\<exists>T. T \<in> X \<and> n \<le> int (card T))"
    "c_card_min c \<le> n \<longleftrightarrow> (\<exists>T. T \<in> X \<and> int (card T) \<le> n)"
proof -
  have "c_card_min c \<le> c_card_max c" using assms fsc_invD(8) by (auto simp: fsc_sols_def)
  then obtain S T where "S \<in> X" "int (card S) = c_card_max c" "T \<in> X" "int (card T) = c_card_min c"
    using sols_card_attained[OF assms] by (metis order_refl)
  then show "n \<le> c_card_max c \<longleftrightarrow> (\<exists>T. T \<in> X \<and> n \<le> int (card T))"
    "c_card_min c \<le> n \<longleftrightarrow> (\<exists>T. T \<in> X \<and> int (card T) \<le> n)"
    using sols_card_bounds[OF assms] by (metis order_trans)+
qed

lemma imply_c_sols:
  assumes "fd_globals_ok g" "fsc_sols g c X" "fsc_sols g y Y"
  shows "told g (imply_c g c y) (X \<inter> Y)"
  using assms imply_c_told[OF assms(1)] by (auto simp: fsc_sols_def sols_Int)

lemma unify_c_sols:
  assumes "fd_globals_ok g" "fsc_sols g c X" "fsc_sols g y Y"
  shows "yields g (unify_c g z c y) (X \<inter> Y)"
  using assms unify_c_yields[OF assms(1)] by (auto simp: fsc_sols_def sols_Int)

lemma le_c_sols:
  assumes "fd_globals_ok g" "fsc_sols g c X" "fsc_sols g y Y"
  shows "told g (le_c g c y) (X \<inter> {S. S \<subseteq> \<Union>Y \<and> (\<exists>T. T \<in> Y \<and> card S \<le> card T)})"
proof -
  obtain I Q where c: "fsc_inv g c I Q" "X = set_sols I Q (c_card_min c) (c_card_max c)"
    using assms(2) by (auto simp: fsc_sols_def)
  obtain J R where y: "fsc_inv g y J R" "\<Union>Y = {0..fd_sup} - R" by (rule fsc_solsE[OF assms(3)])
  have "set_sols I (Q \<union> R) (c_card_min c) (min (c_card_max c) (c_card_max y)) =
      X \<inter> {S. S \<subseteq> \<Union>Y \<and> int (card S) \<le> c_card_max y}"
    unfolding c(2) y(2) by (auto simp: set_sols_def)
  then show ?thesis using le_c_told[OF assms(1) c(1) y(1)] by (simp add: card_le_some(1)[OF assms(3)])
qed

lemma ge_c_sols:
  assumes "fd_globals_ok g" "fsc_sols g c X" "fsc_sols g y Y"
  shows "told g (ge_c g c y) (X \<inter> {S. \<Inter>Y \<subseteq> S \<and> (\<exists>T. T \<in> Y \<and> card T \<le> card S)})"
proof -
  obtain I Q where c: "fsc_inv g c I Q" "X = set_sols I Q (c_card_min c) (c_card_max c)"
    using assms(2) by (auto simp: fsc_sols_def)
  obtain J R where y: "fsc_inv g y J R" "\<Inter>Y = J" by (rule fsc_solsE[OF assms(3)])
  have "set_sols (I \<union> J) Q (max (c_card_min c) (c_card_min y)) (c_card_max c) =
      X \<inter> {S. \<Inter>Y \<subseteq> S \<and> c_card_min y \<le> int (card S)}"
    unfolding c(2) y(2) by (auto simp: set_sols_def)
  then show ?thesis using ge_c_told[OF assms(1) c(1) y(1)] by (simp add: card_le_some(2)[OF assms(3)])
qed

lemma disjoint_c_sols:
  assumes "fd_globals_ok g" "fsc_sols g c X" "fsc_sols g y Y"
  shows "told g (disjoint_c g c y) (X \<inter> {S. S \<inter> \<Inter>Y = {}})"
proof -
  obtain I Q where c: "fsc_inv g c I Q" "X = set_sols I Q (c_card_min c) (c_card_max c)"
    using assms(2) by (auto simp: fsc_sols_def)
  obtain J R where y: "fsc_inv g y J R" "\<Inter>Y = J" by (rule fsc_solsE[OF assms(3)])
  show ?thesis using disjoint_c_told[OF assms(1) c(1) y(1)] unfolding c(2) y(2) sols_out .
qed

text \<open>The operators that build a constraint, from the bounds of their arguments.\<close>

lemma image_sols:
  assumes "fd_globals_ok g" "fsc_sols g c X" "fsc_sols g y Y"
  shows "yields g (and_c g z c y) {R. \<Inter>X \<inter> \<Inter>Y \<subseteq> R \<and> R \<subseteq> \<Union>X \<inter> \<Union>Y \<and>
      (\<exists>S. S \<in> X \<and> card R \<le> card S) \<and> (\<exists>T. T \<in> Y \<and> card R \<le> card T)}"
    "yields g (minus_c g z c y) {R. \<Inter>X - \<Union>Y \<subseteq> R \<and> R \<subseteq> \<Union>X - \<Inter>Y \<and> (\<exists>S. S \<in> X \<and> card R \<le> card S)}"
    "yields g (uminus_c g z c) {R. {0..fd_sup} - \<Union>X \<subseteq> R \<and> R \<subseteq> {0..fd_sup} - \<Inter>X}"
    "yields g (or_c g z c y) {R. \<Inter>X \<union> \<Inter>Y \<subseteq> R \<and> R \<subseteq> \<Union>X \<union> \<Union>Y \<and>
      (\<exists>S. S \<in> X \<and> card S \<le> card R) \<and> (\<exists>T. T \<in> Y \<and> card T \<le> card R) \<and>
      int (card R) \<le> c_card_max c + c_card_max y}"
proof -
  obtain I Q where c: "fsc_inv g c I Q" "\<Inter>X = I" "\<Union>X = {0..fd_sup} - Q" by (rule fsc_solsE[OF assms(2)])
  obtain J R where y: "fsc_inv g y J R" "\<Inter>Y = J" "\<Union>Y = {0..fd_sup} - R" by (rule fsc_solsE[OF assms(3)])
  note sub = fsc_invD(2,3)[OF c(1)] fsc_invD(2,3)[OF y(1)]
  note card_le = card_le_some(1)[OF assms(2), of "int n" for n] card_le_some(2)[OF assms(2), of "int n" for n]
    card_le_some(1)[OF assms(3), of "int n" for n] card_le_some(2)[OF assms(3), of "int n" for n]
  note card_le = card_le[unfolded of_nat_le_iff, symmetric]
  have cs: "int (card T) \<le> fd_sup + 1" if "T \<subseteq> {0..fd_sup} - I" for T
    using card_mono[of "{0..fd_sup}" T] that by (auto simp: card_univ fd_sup_def)
  have "set_sols (I \<inter> J) (Q \<union> R) 0 (min (c_card_max c) (c_card_max y)) =
      {T. I \<inter> J \<subseteq> T \<and> T \<subseteq> ({0..fd_sup} - Q) \<inter> ({0..fd_sup} - R) \<and> int (card T) \<le> c_card_max c \<and> int (card T) \<le> c_card_max y}"
    by (auto simp: set_sols_def)
  then show "yields g (and_c g z c y) {R. \<Inter>X \<inter> \<Inter>Y \<subseteq> R \<and> R \<subseteq> \<Union>X \<inter> \<Union>Y \<and>
      (\<exists>S. S \<in> X \<and> card R \<le> card S) \<and> (\<exists>T. T \<in> Y \<and> card R \<le> card T)}"
    using and_c_yields[OF assms(1) c(1) y(1), of z] unfolding c(2,3) y(2,3) card_le by simp
  have "set_sols (I \<inter> R) (Q \<union> J) 0 (c_card_max c) =
      {T. I - ({0..fd_sup} - R) \<subseteq> T \<and> T \<subseteq> {0..fd_sup} - Q - J \<and> int (card T) \<le> c_card_max c}"
    using sub by (auto simp: set_sols_def)
  then show "yields g (minus_c g z c y) {R. \<Inter>X - \<Union>Y \<subseteq> R \<and> R \<subseteq> \<Union>X - \<Inter>Y \<and> (\<exists>S. S \<in> X \<and> card R \<le> card S)}"
    using minus_c_yields[OF assms(1) c(1) y(1), of z] unfolding c(2,3) y(2,3) card_le by simp
  have "set_sols Q I 0 (fd_sup + 1) = {T. {0..fd_sup} - ({0..fd_sup} - Q) \<subseteq> T \<and> T \<subseteq> {0..fd_sup} - I}"
    using sub cs by (auto simp: set_sols_def)
  then show "yields g (uminus_c g z c) {R. {0..fd_sup} - \<Union>X \<subseteq> R \<and> R \<subseteq> {0..fd_sup} - \<Inter>X}"
    using uminus_c_yields[OF c(1), of z] unfolding c(2,3) by simp
  have "set_sols (I \<union> J) (Q \<inter> R) (max (c_card_min c) (c_card_min y)) (c_card_max c + c_card_max y) =
      {T. I \<union> J \<subseteq> T \<and> T \<subseteq> ({0..fd_sup} - Q) \<union> ({0..fd_sup} - R) \<and> c_card_min c \<le> int (card T) \<and>
        c_card_min y \<le> int (card T) \<and> int (card T) \<le> c_card_max c + c_card_max y}"
    by (auto simp: set_sols_def)
  then show "yields g (or_c g z c y) {R. \<Inter>X \<union> \<Inter>Y \<subseteq> R \<and> R \<subseteq> \<Union>X \<union> \<Union>Y \<and>
      (\<exists>S. S \<in> X \<and> card S \<le> card R) \<and> (\<exists>T. T \<in> Y \<and> card T \<le> card R) \<and>
      int (card R) \<le> c_card_max c + c_card_max y}"
    using or_c_yields[OF assms(1) c(1) y(1), of z] unfolding c(2,3) y(2,3) card_le by simp
qed


section \<open>Concrete sets and constraints\<close>

definition ex_v0 :: FSetValue where
  "ex_v0 = \<lparr>v_card = 0, v_other = False, v_IN = new_fd, v_normal = True, v_in = [0, 0]\<rparr>"

definition ex_c0 :: FSetConstraint where
  "ex_c0 = \<lparr>c_card_min = 0, c_card_max = 0, c_known_in = 0, c_known_not_in = 0, c_normal = True, c_otherin = False,
     c_otherout = False, c_IN = new_fd, c_OUT = new_fd, c_in = [0, 0], c_not_in = [0, 0]\<rparr>"

text \<open>The sets \<open>{5..9}\<close> and \<open>{8..70}\<close>: one in words, one as a domain.\<close>

abbreviation ex_low :: FSetValue where "ex_low \<equiv> init_v_range ex_v0 5 9"
abbreviation ex_wide :: FSetValue where "ex_wide \<equiv> init_v_range ex_v0 8 70"

lemma ex_v_rep: "fsv_rep initFDs ex_low {5..9}" "fsv_rep initFDs ex_wide {8..70}"
  by (rule init_v_range_rep[OF initFDs_ok]; simp add: ex_v0_def fd_sup_def)+

lemma ex_v_forms: "v_normal ex_low" "\<not> v_normal ex_wide"
  using fsv_normal_iff[OF ex_v_rep(1)] fsv_normal_iff[OF ex_v_rep(2)] by (auto simp: simple_set_def fd_sup_def)

text \<open>A constraint in words, between \<open>{5}\<close> and \<open>{1..9}\<close>, and one as domains, between \<open>{7}\<close> and \<open>{5..80}\<close>.\<close>

definition ex_c :: FSetConstraint where
  "ex_c = the (fsc_bounds initFDs ex_c0 (mkList [SmallInt 5]) (mkList [oz_pairII 1 9]))"

definition ex_d :: FSetConstraint where
  "ex_d = the (fsc_bounds initFDs ex_c0 (mkList [SmallInt 7]) (mkList [oz_pairII 5 80]))"

lemma describes_one: "0 \<le> i \<Longrightarrow> i \<le> fd_sup \<Longrightarrow> describes (mkList [SmallInt i]) {i}"
  by (auto simp: describes_def boundTerm_def)

lemma describes_range: "0 \<le> l \<Longrightarrow> l \<le> r \<Longrightarrow> r \<le> fd_sup \<Longrightarrow> describes (mkList [oz_pairII l r]) {l..r}"
  by (auto simp: describes_def boundTerm_def oz_pairII_def)

lemma bounds_ex:
  assumes "0 \<le> l" "l \<le> i" "i \<le> r" "r \<le> fd_sup"
  shows "fsc_sols initFDs (the (fsc_bounds initFDs c (mkList [SmallInt i]) (mkList [oz_pairII l r]))) {S. {i} \<subseteq> S \<and> S \<subseteq> {l..r}}"
  using fsc_bounds_sols[OF initFDs_ok describes_one describes_range, of i l r c] assms by auto

lemma ex_c_sols:
  "fsc_sols initFDs ex_c {S. {5} \<subseteq> S \<and> S \<subseteq> {1..9}}"
  "fsc_sols initFDs ex_d {S. {7} \<subseteq> S \<and> S \<subseteq> {5..80}}"
  unfolding ex_c_def ex_d_def by (rule bounds_ex; simp add: fd_sup_def)+

lemma ex_unions:
  fixes i :: int
  assumes "l \<le> i" "i \<le> r"
  shows "\<Inter>{S. {i} \<subseteq> S \<and> S \<subseteq> {l..r}} = {i}" "\<Union>{S. {i} \<subseteq> S \<and> S \<subseteq> {l..r}} = {l..r}" (is "\<Union>?X = _")
proof -
  have "{i} \<in> ?X" "{l..r} \<in> ?X" using assms by auto
  then show "\<Inter>?X = {i}" "\<Union>?X = {l..r}" by (auto intro!: antisym Inter_lower Inter_greatest Union_upper Union_least)
qed


section \<open>Set values\<close>

text \<open>
  C13: set values. Applied to values of the sets \<open>S\<close> and \<open>T\<close> in either form, words or domain, and
  writing into any storage \<open>z\<close>, \<^verbatim>\<open>|\<close> and \<^verbatim>\<open>|=\<close> give a value of \<open>S \<union> T\<close> and the unary \<^verbatim>\<open>-\<close> one of the
  complement: the result is in the form its set requires and its cardinality is right. \<^verbatim>\<open>&\<close> gives a value of \<open>S \<inter> T\<close>
  unless the operands are in different forms and the result is empty, \<^verbatim>\<open>&=\<close> unless an operand is a domain
  and the result is empty. The binary \<^verbatim>\<open>-\<close> gives one of \<open>S - T\<close> for operands in the same form, and for a
  domain minus words when the result is not empty. Words minus a domain is
  not \<open>S - T\<close> in general: whether the elements above the words belong to the left operand is read from the storage \<open>z\<close>, whatever it held.
\<close>

theorem fset_operations:
  assumes "fd_globals_ok g" "fsv_rep g x S" "fsv_rep g y T"
  shows "fsv_rep g (or_v g z x y) (S \<union> T) \<and> fsv_rep g (or_assign_v g x y) (S \<union> T) \<and>
    fsv_rep g (fst (not_v g z x)) ({0..fd_sup} - S) \<and>
    (S \<inter> T \<noteq> {} \<or> v_normal x = v_normal y \<longrightarrow> fsv_rep g (and_v g z x y) (S \<inter> T)) \<and>
    (S \<inter> T \<noteq> {} \<or> v_normal x \<and> v_normal y \<longrightarrow> fsv_rep g (and_assign_v g x y) (S \<inter> T)) \<and>
    (v_normal x = v_normal y \<or> \<not> v_normal x \<and> S - T \<noteq> {} \<longrightarrow> fsv_rep g (minus_v g z x y) (S - T)) \<and>
    (v_normal x \<and> \<not> v_normal y \<longrightarrow> fsv_rep g (minus_v g z x y) (bits_set (v_in x) (v_other z) - T))"
  using or_v_rep[OF assms] not_v_rep[OF assms(1,2)] and_v_rep[OF assms] and_assign_v_rep[OF assms] minus_v_rep[OF assms]
    minus_v_words[OF assms]
  by (auto simp: or_assign_v_eq)

theorem fset_operations_witness:
  "fsv_rep initFDs (or_v initFDs ex_v0 ex_low ex_wide) {5..70} \<and>
   fsv_rep initFDs (and_v initFDs ex_v0 ex_low ex_wide) {8..9} \<and>
   fsv_rep initFDs (minus_v initFDs ex_v0 ex_wide ex_low) {10..70}"
proof -
  have "{5..9} \<union> {8..70} = {5..70::int}" "{5..9} \<inter> {8..70} = {8..9::int}" "{8..70} - {5..9} = {10..70::int}" by auto
  then show ?thesis
    using fset_operations[OF initFDs_ok ex_v_rep, of ex_v0] fset_operations[OF initFDs_ok ex_v_rep(2,1), of ex_v0] ex_v_forms by simp
qed

text \<open>
  Comparisons of set values. \<^verbatim>\<open>isIn\<close> is membership. \<^verbatim>\<open>==\<close> is equality of sets unless the left
  operand is a domain and the right one is in words, and \<^verbatim>\<open><=\<close> is inclusion unless the left
  operand is a domain and the right one has all elements above the words; there \<^verbatim>\<open><=\<close> is false.
\<close>

lemma fset_comparisons:
  assumes "fsv_rep g x S" "fsv_rep g y T"
  shows "(isIn_v x i \<longleftrightarrow> i \<in> S) \<and> (v_normal x \<or> \<not> v_normal y \<longrightarrow> (eq_v g x y \<longleftrightarrow> S = T)) \<and>
    (le_v g x y \<longleftrightarrow> S \<subseteq> T \<and> \<not> (\<not> v_normal x \<and> v_normal y \<and> v_other y))"
  using isIn_v_rep[OF assms(1)] eq_v_iff[OF assms] le_v_iff[OF assms] by blast

lemma fset_comparisons_witness:
  "isIn_v ex_wide 65 \<and> \<not> eq_v initFDs ex_low ex_wide \<and> \<not> le_v initFDs ex_low ex_wide"
  using fset_comparisons[OF ex_v_rep, of 5] fset_comparisons[OF ex_v_rep(2,1), of 65] ex_v_forms by auto

text \<open>
  Elements of set values. \<^verbatim>\<open>getMinElem\<close> and \<^verbatim>\<open>getMaxElem\<close> return the extreme elements and -1 for
  the empty set; \<^verbatim>\<open>getNextSmallerElem\<close> returns the neighbour below for every value up to the
  largest element there can be, and \<^verbatim>\<open>getNextLargerElem\<close> the one above, except that in words it
  does not go on from the words to the elements above them.
\<close>

lemma fset_elements:
  assumes "fsv_rep g v S"
  shows "getMinElem_v v = (if S = {} then -1 else Min S) \<and> getMaxElem_v v = (if S = {} then -1 else Max S) \<and>
    (i \<le> fd_sup \<longrightarrow> next_smaller S i (getNextSmallerElem_v v i)) \<and>
    (-1 \<le> i \<and> \<not> (v_normal v \<and> v_other v \<and> i < 63 \<and> S \<inter> {i<..<64} = {}) \<longrightarrow> next_larger S i (getNextLargerElem_v v i))"
  using getMinElem_v_rep[OF assms] getMaxElem_v_rep[OF assms] getNextSmallerElem_v_rep[OF assms] getNextLargerElem_v_rep[OF assms]
  by blast

lemma fset_elements_witness:
  "getMinElem_v ex_wide = 8 \<and> getMaxElem_v ex_wide = 70 \<and> getNextLargerElem_v ex_wide 40 = 41 \<and> getNextSmallerElem_v ex_wide 8 = -1"
proof -
  have "Min {8..70::int} = 8" "Max {8..70::int} = 70" by (auto intro: Min_eqI Max_eqI)
  moreover have "r = 41" if "next_larger {8..70} 40 r" for r
  proof -
    have "\<exists>i \<in> {8..70}. 40 < (i::int)" by (rule bexI[of _ 41]) auto
    then have r: "40 < r" "\<forall>i \<in> {8..70}. 40 < i \<longrightarrow> r \<le> i" using that by (auto simp: next_larger_def)
    show "r = 41" using r(1) bspec[OF r(2), of 41] by simp
  qed
  moreover have "r = -1" if "next_smaller {8..70} 8 r" for r using that by (auto simp: next_smaller_def split: if_splits)
  ultimately show ?thesis using fset_elements[OF ex_v_rep(2), of 40] fset_elements[OF ex_v_rep(2), of 8] ex_v_forms(2)
    by (auto simp: fd_sup_def)
qed

text \<open>
  C14: intersections with ghosts. When an interval in words and an interval kept as a domain have no element in
  common, \<^verbatim>\<open>&\<close>, in either order, and \<^verbatim>\<open>&=\<close> return a value with cardinality 0 that nevertheless has all
  elements of the interval in words, and differs from the empty set: the bounds of the emptied domain are
  left as they were, and the conversion to words sets the bits between them.
\<close>

theorem fset_intersection_ghost:
  assumes "fd_globals_ok g" "fsv_rep g x {a..b}" "fsv_rep g y {c..d}" "v_normal x" "\<not> v_normal y" "a \<le> b" "{a..b} \<inter> {c..d} = {}"
    "e \<in> {and_v g z x y, and_v g z y x, and_assign_v g x y}"
  shows "v_card e = 0 \<and> (\<forall>i. isIn_v e i \<longleftrightarrow> a \<le> i \<and> i \<le> b) \<and> \<not> eq_v g e (init_v_state z fs_empty)"
proof -
  have x: "length (v_in x) = 2" "{a..b} = bits_set (v_in x) (v_other x)" "simple_set {a..b}"
    using assms(2,4) simple_bits[of "v_in x" "v_other x"] by (auto simp: fsv_rep_def norm_rep_def)
  have y: "ext_rep g (v_IN y) {c..d}" "\<not> simple_set {c..d}" using assms(3,5) by (auto simp: fsv_rep_def)
  then have cd: "c \<le> d" by (auto simp: simple_set_def)
  have "b < 64"
  proof (rule ccontr)
    assume "\<not> b < 64"
    then have "{64..fd_sup} \<subseteq> {a..b}" using x(3) assms(6) fsv_rep_sub[OF assms(2)] by (auto simp: simple_set_def)
    then have "simple_set {c..d}" using assms(7) by (auto simp: simple_set_def)
    then show False using y(2) by simp
  qed
  have "fd_rep g (v_IN (toExtended_v g (w\<lparr>v_normal := True, v_other := v_other x, v_in := v_in x\<rparr>))) {a..b}" for w
    using copied_rep[OF assms(1) x(1), of "v_other x" w] x(2) by (simp add: ext_rep_def)
  then have g: "v_card r = 0 \<and> v_normal r \<and> \<not> v_other r \<and> (\<forall>i. isIn_v r i \<longleftrightarrow> i \<in> {a..b})"
    if "r = put_domain u (fst (op_and_assign g (v_IN (toExtended_v g (w\<lparr>v_normal := True, v_other := v_other x, v_in := v_in x\<rparr>))) (v_IN y)))" for r u w
    using ghost_value[OF _ ext_repD(1)[OF y(1)] assms(6) cd \<open>b < 64\<close> assms(7) that] by blast
  have "and_assign_v g x y = and_v g x x y" using assms(4,5) by (simp add: and_v_def and_assign_v_def Let_def set_normal)
  then have "\<exists>w. e = and_v g w x y \<or> e = and_v g w y x" using assms(8) by auto
  then have e: "v_card e = 0 \<and> v_normal e \<and> \<not> v_other e \<and> (\<forall>i. isIn_v e i \<longleftrightarrow> i \<in> {a..b})"
    using assms(4,5) by (elim exE disjE) (rule g, simp add: and_v_def Let_def)+
  let ?E = "init_v_state z fs_empty"
  have E: "v_normal ?E" "\<not> v_other ?E" by (simp_all add: init_v_state_def)
  have "isIn_v e a" "\<not> isIn_v ?E a" using e assms(6) isIn_v_rep[OF init_v_state_rep(1)[of g z], of a] by simp_all
  then have "v_in e \<noteq> v_in ?E" using e E unfolding isIn_v_def by metis
  then show ?thesis using e E unfolding eq_v_def by auto
qed

theorem fset_intersection_ghost_witness:
  "v_card (and_v initFDs ex_v0 ex_low (init_v_range ex_v0 70 80)) = 0 \<and> isIn_v (and_v initFDs ex_v0 ex_low (init_v_range ex_v0 70 80)) 6"
proof -
  have "fsv_rep initFDs (init_v_range ex_v0 70 80) {70..80}" by (rule init_v_range_rep[OF initFDs_ok]) (simp_all add: ex_v0_def fd_sup_def)
  then show ?thesis
    using fset_intersection_ghost[OF initFDs_ok ex_v_rep(1), of "init_v_range ex_v0 70 80" 70 80 "and_v initFDs ex_v0 ex_low (init_v_range ex_v0 70 80)" ex_v0]
      ex_v_forms(1) fsv_normal_iff[of initFDs "init_v_range ex_v0 70 80" "{70..80}"] by (auto simp: simple_set_def fd_sup_def)
qed

text \<open>
  Lists of set values. The list of the elements known to be in is a description from which
  \<^verbatim>\<open>init\<close> builds a value of the same set, and the list of the others one of the complement, as long
  as the integer before the conversion array is not 63.
\<close>

lemma fset_round_trip:
  assumes "fd_globals_ok g" "fsv_rep g v S" "before \<noteq> 63"
  shows "(\<exists>u. init_v_term g w (getKnownInList_v before v) = Some u \<and> fsv_rep g u S) \<and>
    (\<exists>u. init_v_term g w (getKnownNotInList_v g before v) = Some u \<and> fsv_rep g u ({0..fd_sup} - S))"
  using init_v_term_rep[OF assms(1) getKnownInList_v_denotes[OF assms(2,3)]]
    init_v_term_rep[OF assms(1) getKnownNotInList_v_denotes[OF assms(2,3)]] by blast

lemma fset_round_trip_witness:
  "\<exists>u. init_v_term initFDs ex_v0 (getKnownInList_v 0 ex_wide) = Some u \<and> fsv_rep initFDs u {8..70}"
  using fset_round_trip[OF initFDs_ok ex_v_rep(2), of 0 ex_v0] by simp




text \<open>The stale size: the words \<open>{1, 3}\<close> with all elements above them become a domain with the element 2.\<close>

lemma fd_of_FSetValue_stale:
  "let v = fsv_of_bits ex_v0 [10, 0] True in \<not> isIn_v v 2 \<and> isIn (fd_of_FSetValue (new_fd\<lparr>fd_size := 3\<rparr>) v) 2"
  by code_simp

section \<open>Set constraints\<close>

text \<open>
  C8: \<^verbatim>\<open>normalize\<close> decides. For a valid constraint with the elements \<open>I\<close> known to be in and \<open>Q\<close>
  known to be out it succeeds exactly when some set lies between them with a cardinality within
  the bounds; then the constraint it leaves satisfies the invariant and admits exactly these sets,
  and otherwise the constraint is marked as failed.
\<close>

theorem fsc_normalize_decides:
  assumes "fsc_rep g c I Q" "isValid_c c"
  defines "X \<equiv> {S. I \<subseteq> S \<and> S \<subseteq> {0..fd_sup} - Q \<and> c_card_min c \<le> int (card S) \<and> int (card S) \<le> c_card_max c}"
  shows "(snd (normalize_c g c) \<longleftrightarrow> X \<noteq> {}) \<and>
    (if X \<noteq> {} then fsc_sols g (fst (normalize_c g c)) X else \<not> isValid_c (fst (normalize_c g c)))"
  using normalize_told[OF assms(1,2)] unfolding X_def
  by (auto simp: told_def set_sols_def isValid_c_def split: if_splits)

theorem fsc_normalize_decides_witness:
  "snd (normalize_c initFDs ((init_c ex_c0)\<lparr>c_card_max := 0\<rparr>)) \<and>
   fsc_sols initFDs (fst (normalize_c initFDs ((init_c ex_c0)\<lparr>c_card_max := 0\<rparr>))) {{}}"
proof -
  let ?c = "(init_c ex_c0)\<lparr>c_card_max := 0\<rparr>"
  have r: "fsc_rep initFDs ?c {} {}" using zero_words(1) by (simp add: fsc_rep_def init_c_def fset_high_def numeral_2_eq_2)
  have "{S. {} \<subseteq> S \<and> S \<subseteq> {0..fd_sup} - {} \<and> c_card_min ?c \<le> int (card S) \<and> int (card S) \<le> c_card_max ?c} = {{}}"
    using finite_subset[of _ "{0..fd_sup}"] by (auto simp: init_c_def card_eq_0_iff)
  then show ?thesis using fsc_normalize_decides[OF r] by (simp add: isValid_c_def init_c_def)
qed

text \<open>
  C9: the state of a constraint is exact. The elements known to be in are the intersection of
  the admitted sets, those not known to be out are their union, the cardinalities of admitted sets
  are exactly the numbers between the bounds, and the constraint counts as a value exactly when it
  admits one set. \<^verbatim>\<open>getGlbSet\<close>, \<^verbatim>\<open>getLubSet\<close>, \<^verbatim>\<open>getUnknownSet\<close>, \<^verbatim>\<open>getNotInSet\<close> and \<^verbatim>\<open>getUnknown\<close>
  return these.
\<close>

theorem fsc_exact_bounds:
  assumes "fd_globals_ok g" "fsc_sols g c X"
  shows "fsv_rep g (getGlbSet_c v c) (\<Inter>X) \<and> fsv_rep g (getLubSet_c g v c) (\<Union>X) \<and>
    fsv_rep g (getUnknownSet_c g v c) (\<Union>X - \<Inter>X) \<and> fsv_rep g (getNotInSet_c v c) ({0..fd_sup} - \<Union>X) \<and>
    (\<forall>k. c_card_min c \<le> k \<and> k \<le> c_card_max c \<longleftrightarrow> (\<exists>S. S \<in> X \<and> int (card S) = k)) \<and>
    (isValue_c c \<longleftrightarrow> (\<exists>S. X = {S})) \<and> getUnknown_c c = int (card (\<Union>X - \<Inter>X))"
proof -
  obtain I Q where c: "fsc_inv g c I Q" "X = set_sols I Q (c_card_min c) (c_card_max c)"
    "\<Inter>X = I" "\<Union>X = {0..fd_sup} - Q" by (rule fsc_solsE[OF assms(2)])
  have Q: "{0..fd_sup} - ({0..fd_sup} - Q) = Q" using fsc_invD(3)[OF c(1)] by blast
  have d: "{0..fd_sup} - Q - I = {0..fd_sup} - (I \<union> Q)" by blast
  have "\<forall>k. c_card_min c \<le> k \<and> k \<le> c_card_max c \<longleftrightarrow> (\<exists>S. S \<in> X \<and> int (card S) = k)"
    using sols_card_bounds[OF assms(2)] sols_card_attained[OF assms(2)] by metis
  then show ?thesis using getSets_rep[OF assms(1) c(1), of v] isValue_sols[OF c(1)] getCards_eq(5)[OF c(1)]
    unfolding c(3,4) Q d c(2)[symmetric] by simp
qed

theorem fsc_exact_bounds_witness:
  "fsv_rep initFDs (getGlbSet_c ex_v0 ex_d) {7} \<and> fsv_rep initFDs (getLubSet_c initFDs ex_v0 ex_d) {5..80} \<and>
   \<not> isValue_c ex_d \<and> getUnknown_c ex_d = 75"
proof -
  have "card ({5..80} - {7::int}) = 75" by (subst card_Diff_subset) auto
  moreover have "{S. {7} \<subseteq> S \<and> S \<subseteq> {5..80::int}} \<noteq> {S}" for S
  proof
    assume e: "{S. {7} \<subseteq> S \<and> S \<subseteq> {5..80::int}} = {S}"
    have "{7} \<in> {S. {7} \<subseteq> S \<and> S \<subseteq> {5..80::int}}" "{7, 8} \<in> {S. {7} \<subseteq> S \<and> S \<subseteq> {5..80::int}}" by simp_all
    then show False unfolding e by auto
  qed
  moreover have "\<Inter>{S. {7} \<subseteq> S \<and> S \<subseteq> {5..80::int}} = {7}" "\<Union>{S. {7} \<subseteq> S \<and> S \<subseteq> {5..80::int}} = {5..80}"
    by (rule ex_unions; simp)+
  note u = this
  ultimately show ?thesis using fsc_exact_bounds[OF initFDs_ok ex_c_sols(2), of ex_v0] unfolding u by simp
qed

text \<open>
  C10: telling. \<^verbatim>\<open>putCard\<close> admits those sets whose cardinality is in the range, \<^verbatim>\<open>+= i\<close> and \<^verbatim>\<open>-= i\<close>
  those with and without \<open>i\<close>, \<^verbatim>\<open>|= T\<close> the supersets and \<^verbatim>\<open>&= T\<close> the subsets of the value \<open>T\<close>,
  \<^verbatim>\<open>ge(i)\<close> and \<^verbatim>\<open>le(i)\<close> those whose elements are at least and at most \<open>i\<close>. Each fails exactly when no
  set is left (\<^verbatim>\<open>|=\<close> and \<^verbatim>\<open>&=\<close> answer with the negation), and leaves a constraint that satisfies
  the invariant otherwise.
\<close>

theorem fsc_tell:
  assumes "fd_globals_ok g" "fsc_sols g c X" "fsv_rep g v T" "0 \<le> i" "i \<le> fd_sup"
  shows "told g (putCard_c g c a b) {S \<in> X. a \<le> int (card S) \<and> int (card S) \<le> b} \<and>
    told g (plus_int_c g c i) {S \<in> X. i \<in> S} \<and> told g (minus_int_c g c i) {S \<in> X. i \<notin> S} \<and>
    told g (apsnd Not (or_assign_c g c v)) {S \<in> X. T \<subseteq> S} \<and>
    told g (apsnd Not (and_assign_c g u c v)) {S \<in> X. S \<subseteq> T} \<and>
    (\<exists>p. ge_elem_c g c i = Some p \<and> told g p {S \<in> X. S \<subseteq> {i..}}) \<and>
    (\<exists>p. le_elem_c g c i = Some p \<and> told g p {S \<in> X. S \<subseteq> {..i}})"
  using putCard_c_told[OF assms(2), of a b] plus_int_c_told[OF assms(1,2,4,5)] minus_int_c_told[OF assms(1,2,4,5)]
    or_assign_c_told[OF assms(1-3)] and_assign_c_told[OF assms(1-3), of u]
    ge_elem_c_told[OF assms(1,2,4)] le_elem_c_told[OF assms(1,2,4,5)]
  by (simp add: Collect_conj_eq)

theorem fsc_tell_witness:
  "told initFDs (plus_int_c initFDs ex_c 8) {S. {5, 8} \<subseteq> S \<and> S \<subseteq> {1..9}} \<and>
   told initFDs (minus_int_c initFDs ex_c 8) {S. {5} \<subseteq> S \<and> S \<subseteq> {1..9} - {8}} \<and>
   told initFDs (apsnd Not (and_assign_c initFDs ex_v0 ex_c ex_wide)) {}"
proof -
  have "{S \<in> {S. {5} \<subseteq> S \<and> S \<subseteq> {1..9}}. 8 \<in> S} = {S. {5, 8} \<subseteq> S \<and> S \<subseteq> {1..9::int}}"
    "{S \<in> {S. {5} \<subseteq> S \<and> S \<subseteq> {1..9}}. 8 \<notin> S} = {S. {5} \<subseteq> S \<and> S \<subseteq> {1..9::int} - {8}}"
    "{S \<in> {S. {5} \<subseteq> S \<and> S \<subseteq> {1..9}}. S \<subseteq> {8..70}} = ({} :: int set set)" by auto
  note e = this
  have "(8::int) \<le> fd_sup" by (simp add: fd_sup_def)
  then show ?thesis
    using fsc_tell[OF initFDs_ok ex_c_sols(1) ex_v_rep(2), of 8 0 0 ex_v0] unfolding e by simp
qed


text \<open>
  C11: unification. The constraint \<^verbatim>\<open>unify\<close> builds and the one that \<^verbatim>\<open><<=\<close> tells admit exactly the sets
  both constraints admit, and are failed when there is none. Two constraints are equal (\<^verbatim>\<open>==\<close>)
  exactly when they admit the same sets, and of a constraint and one that admits fewer sets
  \<^verbatim>\<open>isWeakerThan\<close> finds out whether they differ.
\<close>

theorem fsc_unify:
  assumes "fd_globals_ok g" "fsc_sols g c X" "fsc_sols g y Y"
  shows "yields g (unify_c g z c y) (X \<inter> Y) \<and> told g (imply_c g c y) (X \<inter> Y) \<and> (eq_c g c y \<longleftrightarrow> X = Y) \<and>
    (Y \<subseteq> X \<longrightarrow> (isWeakerThan_c c y \<longleftrightarrow> Y \<noteq> X))"
proof -
  obtain I Q where c: "fsc_inv g c I Q" "X = set_sols I Q (c_card_min c) (c_card_max c)"
    using assms(2) by (auto simp: fsc_sols_def)
  obtain J R where y: "fsc_inv g y J R" "Y = set_sols J R (c_card_min y) (c_card_max y)"
    using assms(3) by (auto simp: fsc_sols_def)
  have "eq_c g c y \<longleftrightarrow> X = Y" unfolding c(2) y(2) eq_c_iff[OF assms(1) c(1) y(1)] sols_eq_iff[OF c(1) y(1)] ..
  moreover have "Y \<subseteq> X \<longrightarrow> (isWeakerThan_c c y \<longleftrightarrow> Y \<noteq> X)" using isWeakerThan_c_iff[OF c(1) y(1)] unfolding c(2) y(2) by blast
  ultimately show ?thesis using unify_c_sols[OF assms] imply_c_sols[OF assms] by blast
qed

lemma yields_mem: "yields g c Z \<Longrightarrow> R \<in> Z \<Longrightarrow> fsc_sols g c Z"
  by (auto simp: yields_def split: if_splits)

lemma mem_differ: "a \<in> X \<Longrightarrow> a \<notin> Y \<Longrightarrow> X \<noteq> Y" for a :: "int set"
  by blast

theorem fsc_unify_witness:
  "fsc_sols initFDs (unify_c initFDs ex_c0 ex_c ex_d) {S. {5, 7} \<subseteq> S \<and> S \<subseteq> {5..9}} \<and> \<not> eq_c initFDs ex_c ex_d"
proof -
  have i: "{5..9} = {1..9} \<inter> {5..80::int}" by auto
  have e: "{S. {5} \<subseteq> S \<and> S \<subseteq> {1..9}} \<inter> {S. {7} \<subseteq> S \<and> S \<subseteq> {5..80}} = {S. {5, 7} \<subseteq> S \<and> S \<subseteq> {5..9::int}}"
    unfolding i by blast
  have "{5} \<in> {S. {5} \<subseteq> S \<and> S \<subseteq> {1..9::int}}" "{5} \<notin> {S. {7} \<subseteq> S \<and> S \<subseteq> {5..80::int}}" by simp_all
  then have ne: "{S. {5} \<subseteq> S \<and> S \<subseteq> {1..9::int}} \<noteq> {S. {7} \<subseteq> S \<and> S \<subseteq> {5..80}}" by (rule mem_differ)
  note f = fsc_unify[OF initFDs_ok ex_c_sols, of ex_c0, unfolded e]
  have "fsc_sols initFDs (unify_c initFDs ex_c0 ex_c ex_d) {S. {5, 7} \<subseteq> S \<and> S \<subseteq> {5..9}}"
    by (rule yields_mem[OF conjunct1[OF f], of "{5..9}"]) simp
  then show ?thesis using conjunct1[OF conjunct2[OF conjunct2[OF f]]] ne by simp
qed

lemma in_out_sols:
  assumes "fsc_sols g c X"
  shows "isIn_c c i \<longleftrightarrow> (\<forall>S \<in> X. i \<in> S)" "0 \<le> i \<Longrightarrow> i \<le> fd_sup \<Longrightarrow> isNotIn_c c i \<longleftrightarrow> (\<forall>S \<in> X. i \<notin> S)"
proof -
  obtain I Q where c: "fsc_inv g c I Q" "\<Inter>X = I" "\<Union>X = {0..fd_sup} - Q" by (rule fsc_solsE[OF assms])
  note r = fsc_invD(1)[OF c(1)]
  show "isIn_c c i \<longleftrightarrow> (\<forall>S \<in> X. i \<in> S)" unfolding isIn_c_iff(1)[OF r] c(2)[symmetric] by blast
  show "isNotIn_c c i \<longleftrightarrow> (\<forall>S \<in> X. i \<notin> S)" if "0 \<le> i" "i \<le> fd_sup"
  proof -
    have "i \<in> Q \<longleftrightarrow> i \<notin> \<Union>X" unfolding c(3) using that by auto
    then show "isNotIn_c c i \<longleftrightarrow> (\<forall>S \<in> X. i \<notin> S)" unfolding isIn_c_iff(2)[OF r] by blast
  qed
qed

lemma isValue_iff: "fsc_sols g c X \<Longrightarrow> isValue_c c \<longleftrightarrow> (\<exists>S. X = {S})"
  using isValue_sols by (auto simp: fsc_sols_def)

lemma value_card: "fsc_sols g c {S} \<Longrightarrow> c_card_min c = int (card S) \<and> finite S \<and> S \<subseteq> {0..fd_sup}"
  using isValue_iff[of g c "{S}"] sols_card_bounds[of g c "{S}" S] by (auto simp: isValue_c_def)

lemma extreme_sols:
  assumes "fsc_sols g c X"
  shows "isEmpty_c c \<longleftrightarrow> X = {{}}" "isFull_c c \<longleftrightarrow> X = {{0..fd_sup}}"
proof -
  have full: "card S = nat (fd_sup + 1) \<longleftrightarrow> S = {0..fd_sup}" if "S \<subseteq> {0..fd_sup}" for S :: "int set"
    using card_subset_eq[OF _ that] by (auto simp: card_univ)
  have val: "isValue_c c \<longleftrightarrow> (\<exists>S. X = {S} \<and> c_card_min c = int (card S) \<and> finite S \<and> S \<subseteq> {0..fd_sup})"
    using isValue_iff[OF assms] value_card assms by metis
  have min: "X = {S} \<Longrightarrow> c_card_min c = int (card S)" for S using value_card assms by blast
  show "isEmpty_c c \<longleftrightarrow> X = {{}}" unfolding isEmpty_c_def val using min by auto
  show "isFull_c c \<longleftrightarrow> X = {{0..fd_sup}}"
  proof
    assume "isFull_c c"
    then obtain S where S: "X = {S}" "int (card S) = fd_sup + 1" "S \<subseteq> {0..fd_sup}" unfolding isFull_c_def val by auto
    then have "card S = nat (fd_sup + 1)" by linarith
    then show "X = {{0..fd_sup}}" using full[OF S(3)] S(1) by simp
  next
    assume X: "X = {{0..fd_sup}}"
    then have "isValue_c c" using isValue_iff[OF assms] by blast
    then show "isFull_c c" using min[OF X] unfolding isFull_c_def card_univ by (simp add: fd_sup_def)
  qed
qed

lemma isSubsumedBy_sols:
  assumes "fd_globals_ok g" "fsc_sols g c X" "fsc_sols g y Y"
  shows "isSubsumedBy_c g c y \<longleftrightarrow> ((\<exists>S. X = {S}) \<or> (\<exists>S. Y = {S})) \<and> (\<forall>S \<in> X. \<forall>U \<in> Y. S \<subseteq> U)"
proof -
  obtain I Q where c: "fsc_inv g c I Q" "\<Inter>X = I" "\<Union>X = {0..fd_sup} - Q" by (rule fsc_solsE[OF assms(2)])
  obtain J R where y: "fsc_inv g y J R" "\<Inter>Y = J" "\<Union>Y = {0..fd_sup} - R" by (rule fsc_solsE[OF assms(3)])
  have sub: "(\<forall>S \<in> X. \<forall>U \<in> Y. S \<subseteq> U) \<longleftrightarrow> \<Union>X \<subseteq> \<Inter>Y" by blast
  have R: "R \<subseteq> Q \<longleftrightarrow> \<Union>X \<subseteq> \<Union>Y" unfolding c(3) y(3) using fsc_invD(3)[OF c(1)] fsc_invD(3)[OF y(1)] by blast
  show ?thesis
    unfolding isSubsumedBy_c_iff[OF assms(1) c(1) y(1)] isValue_iff[OF assms(2)] isValue_iff[OF assms(3)] sub R c(2)[symmetric] y(2)[symmetric]
    by auto
qed

lemma differ_sols:
  assumes "fd_globals_ok g" "fsc_sols g c X" "fsc_sols g y Y" "differ_c g c y"
  shows "X \<inter> Y = {}"
proof -
  obtain I Q where c: "fsc_inv g c I Q" "X = set_sols I Q (c_card_min c) (c_card_max c)"
    using assms(2) by (auto simp: fsc_sols_def)
  obtain J R where y: "fsc_inv g y J R" "Y = set_sols J R (c_card_min y) (c_card_max y)"
    using assms(3) by (auto simp: fsc_sols_def)
  show ?thesis using assms(4) unfolding differ_c_iff[OF assms(1) c(1) y(1)] c(2) y(2) by (auto simp: set_sols_def)
qed

text \<open>
  Tests. \<^verbatim>\<open>valid\<close> says whether the constraint admits a value, \<^verbatim>\<open>isIn\<close> and \<^verbatim>\<open>isNotIn\<close> whether an
  element is in all or in none of the admitted sets, \<^verbatim>\<open>isEmpty\<close> and \<^verbatim>\<open>isFull\<close> whether the empty or
  the full set is the only one. When \<^verbatim>\<open>%\<close> answers that two constraints differ, no set satisfies
  both. \<^verbatim>\<open>isSubsumedBy\<close> holds exactly when one of the constraints is a value and every set of the
  first is contained in every set of the second.
\<close>

lemma fsc_tests:
  assumes "fd_globals_ok g" "fsc_sols g c X" "fsc_sols g y Y" "fsv_rep g v T" "0 \<le> i" "i \<le> fd_sup"
  shows "(valid_c g c v \<longleftrightarrow> T \<in> X) \<and> (isIn_c c i \<longleftrightarrow> (\<forall>S \<in> X. i \<in> S)) \<and> (isNotIn_c c i \<longleftrightarrow> (\<forall>S \<in> X. i \<notin> S)) \<and>
    (isEmpty_c c \<longleftrightarrow> X = {{}}) \<and> (isFull_c c \<longleftrightarrow> X = {{0..fd_sup}}) \<and> (differ_c g c y \<longrightarrow> X \<inter> Y = {}) \<and>
    (isSubsumedBy_c g c y \<longleftrightarrow> ((\<exists>S. X = {S}) \<or> (\<exists>S. Y = {S})) \<and> (\<forall>S \<in> X. \<forall>U \<in> Y. S \<subseteq> U))"
proof -
  have "valid_c g c v \<longleftrightarrow> T \<in> X" using valid_c_iff[OF assms(1) _ assms(4)] assms(2) by (auto simp: fsc_sols_def)
  then show ?thesis using in_out_sols(1)[OF assms(2)] in_out_sols(2)[OF assms(2,5,6)] extreme_sols[OF assms(2)]
      differ_sols[OF assms(1-3)] isSubsumedBy_sols[OF assms(1-3)] by simp
qed

lemma fsc_tests_witness:
  "valid_c initFDs ex_c ex_low \<and> \<not> valid_c initFDs ex_c ex_wide \<and> isIn_c ex_c 5 \<and> \<not> isEmpty_c ex_c \<and>
   \<not> isSubsumedBy_c initFDs ex_c ex_d"
proof -
  have m: "{5} \<in> {S. {5} \<subseteq> S \<and> S \<subseteq> {1..9::int}}" "{7} \<in> {S. {7} \<subseteq> S \<and> S \<subseteq> {5..80::int}}" by simp_all
  have "\<not> (\<forall>S \<in> {S. {5} \<subseteq> S \<and> S \<subseteq> {1..9}}. \<forall>U \<in> {S. {7} \<subseteq> S \<and> S \<subseteq> {5..80::int}}. S \<subseteq> U)"
  proof
    assume a: "\<forall>S \<in> {S. {5} \<subseteq> S \<and> S \<subseteq> {1..9}}. \<forall>U \<in> {S. {7} \<subseteq> S \<and> S \<subseteq> {5..80::int}}. S \<subseteq> U"
    show False using bspec[OF bspec[OF a m(1)] m(2)] by simp
  qed
  moreover have "{S. {5} \<subseteq> S \<and> S \<subseteq> {1..9::int}} \<noteq> {{}}" using m(1) by (rule mem_differ) simp
  moreover have "(5::int) \<le> fd_sup" by (simp add: fd_sup_def)
  ultimately show ?thesis
    using fsc_tests[OF initFDs_ok ex_c_sols ex_v_rep(1), of 5] fsc_tests[OF initFDs_ok ex_c_sols ex_v_rep(2), of 5] by simp
qed

text \<open>
  Relations. \<^verbatim>\<open>c <= y\<close> keeps of \<open>c\<close> the sets within the union of those \<open>y\<close> admits and not larger
  than the largest of them, \<^verbatim>\<open>c >= y\<close> those that contain their intersection and are not smaller
  than the smallest, and \<^verbatim>\<open>c != y\<close> those disjoint from their intersection. So a set that is
  contained in, contains, or is disjoint from some set of \<open>y\<close> is never lost, and each fails
  exactly when no set is left.
\<close>

lemma fsc_relations:
  assumes "fd_globals_ok g" "fsc_sols g c X" "fsc_sols g y Y"
  shows "told g (le_c g c y) {S \<in> X. S \<subseteq> \<Union>Y \<and> (\<exists>T. T \<in> Y \<and> card S \<le> card T)} \<and>
    told g (ge_c g c y) {S \<in> X. \<Inter>Y \<subseteq> S \<and> (\<exists>T. T \<in> Y \<and> card T \<le> card S)} \<and>
    told g (disjoint_c g c y) {S \<in> X. S \<inter> \<Inter>Y = {}}"
  using le_c_sols[OF assms] ge_c_sols[OF assms] disjoint_c_sols[OF assms] by (simp add: Int_def)

lemma fsc_relations_witness:
  "told initFDs (disjoint_c initFDs ex_c ex_d) {S. {5} \<subseteq> S \<and> S \<subseteq> {1..9} - {7}}"
proof -
  have u: "\<Inter>{S. {7} \<subseteq> S \<and> S \<subseteq> {5..80::int}} = {7}" by (rule ex_unions; simp)
  have e: "{S \<in> {S. {5} \<subseteq> S \<and> S \<subseteq> {1..9}}. S \<inter> {7} = {}} = {S. {5} \<subseteq> S \<and> S \<subseteq> {1..9::int} - {7}}" by blast
  show ?thesis using fsc_relations[OF initFDs_ok ex_c_sols] unfolding u e by blast
qed

lemma yields_ex:
  assumes "yields g d Z" "X \<noteq> {}" "Y \<noteq> {}" "\<And>S T. S \<in> X \<Longrightarrow> T \<in> Y \<Longrightarrow> f S T \<in> Z" "\<And>R. R \<in> Z \<Longrightarrow> L \<subseteq> R \<and> R \<subseteq> U"
  shows "\<exists>Z. fsc_sols g d Z \<and> (\<forall>S \<in> X. \<forall>T \<in> Y. f S T \<in> Z) \<and> (\<forall>R \<in> Z. L \<subseteq> R \<and> R \<subseteq> U)"
  using assms yields_mem[OF assms(1)] by blast

text \<open>
  C12: operators. The constraints that \<^verbatim>\<open>&\<close>, \<^verbatim>\<open>|\<close>, the binary and the unary \<^verbatim>\<open>-\<close> build satisfy the
  invariant and admit the intersection, union, difference and complement of all admitted sets, and
  only sets between the corresponding combinations of the bounds.
\<close>

theorem fsc_images:
  assumes "fd_globals_ok g" "fsc_sols g c X" "fsc_sols g y Y"
  shows "(\<exists>Z. fsc_sols g (and_c g z c y) Z \<and> (\<forall>S \<in> X. \<forall>T \<in> Y. S \<inter> T \<in> Z) \<and>
      (\<forall>R \<in> Z. \<Inter>X \<inter> \<Inter>Y \<subseteq> R \<and> R \<subseteq> \<Union>X \<inter> \<Union>Y)) \<and>
    (\<exists>Z. fsc_sols g (or_c g z c y) Z \<and> (\<forall>S \<in> X. \<forall>T \<in> Y. S \<union> T \<in> Z) \<and>
      (\<forall>R \<in> Z. \<Inter>X \<union> \<Inter>Y \<subseteq> R \<and> R \<subseteq> \<Union>X \<union> \<Union>Y)) \<and>
    (\<exists>Z. fsc_sols g (minus_c g z c y) Z \<and> (\<forall>S \<in> X. \<forall>T \<in> Y. S - T \<in> Z) \<and>
      (\<forall>R \<in> Z. \<Inter>X - \<Union>Y \<subseteq> R \<and> R \<subseteq> \<Union>X - \<Inter>Y)) \<and>
    (\<exists>Z. fsc_sols g (uminus_c g z c) Z \<and> (\<forall>S \<in> X. {0..fd_sup} - S \<in> Z) \<and>
      (\<forall>R \<in> Z. {0..fd_sup} - \<Union>X \<subseteq> R \<and> R \<subseteq> {0..fd_sup} - \<Inter>X))"
proof -
  note b = sols_card_bounds[OF assms(2)] and d = sols_card_bounds[OF assms(3)]
  have i: "S \<inter> T \<in> {R. \<Inter>X \<inter> \<Inter>Y \<subseteq> R \<and> R \<subseteq> \<Union>X \<inter> \<Union>Y \<and>
      (\<exists>S. S \<in> X \<and> card R \<le> card S) \<and> (\<exists>T. T \<in> Y \<and> card R \<le> card T)}" if "S \<in> X" "T \<in> Y" for S T
    using that card_mono[OF b(4)[OF that(1)], of "S \<inter> T"] card_mono[OF d(4)[OF that(2)], of "S \<inter> T"] by auto
  have u: "S \<union> T \<in> {R. \<Inter>X \<union> \<Inter>Y \<subseteq> R \<and> R \<subseteq> \<Union>X \<union> \<Union>Y \<and>
      (\<exists>S. S \<in> X \<and> card S \<le> card R) \<and> (\<exists>T. T \<in> Y \<and> card T \<le> card R) \<and>
      int (card R) \<le> c_card_max c + c_card_max y}" if "S \<in> X" "T \<in> Y" for S T
  proof -
    have f: "finite (S \<union> T)" using b(4)[OF that(1)] d(4)[OF that(2)] by simp
    have "int (card (S \<union> T)) \<le> c_card_max c + c_card_max y"
      using card_Un_le[of S T] b(2)[OF that(1)] d(2)[OF that(2)] by linarith
    then show ?thesis using that card_mono[OF f, of S] card_mono[OF f, of T] by auto
  qed
  have m: "S - T \<in> {R. \<Inter>X - \<Union>Y \<subseteq> R \<and> R \<subseteq> \<Union>X - \<Inter>Y \<and> (\<exists>S. S \<in> X \<and> card R \<le> card S)}"
    if "S \<in> X" "T \<in> Y" for S T using that card_mono[OF b(4)[OF that(1)], of "S - T"] by auto
  have n: "{0..fd_sup} - S \<in> {R. {0..fd_sup} - \<Union>X \<subseteq> R \<and> R \<subseteq> {0..fd_sup} - \<Inter>X}" if "S \<in> X" for S
    using that by blast
  note z = image_sols[OF assms, of z] and ne = fsc_sols_ne[OF assms(2)] fsc_sols_ne[OF assms(3)]
  have c: "\<exists>Z. fsc_sols g (uminus_c g z c) Z \<and> (\<forall>S \<in> X. \<forall>T \<in> X. {0..fd_sup} - S \<in> Z) \<and>
      (\<forall>R \<in> Z. {0..fd_sup} - \<Union>X \<subseteq> R \<and> R \<subseteq> {0..fd_sup} - \<Inter>X)"
    by (rule yields_ex[OF z(3) ne(1,1) n]) auto
  show ?thesis
  proof (intro conjI)
    show "\<exists>Z. fsc_sols g (and_c g z c y) Z \<and> (\<forall>S \<in> X. \<forall>T \<in> Y. S \<inter> T \<in> Z) \<and>
      (\<forall>R \<in> Z. \<Inter>X \<inter> \<Inter>Y \<subseteq> R \<and> R \<subseteq> \<Union>X \<inter> \<Union>Y)" by (rule yields_ex[OF z(1) ne i]) auto
    show "\<exists>Z. fsc_sols g (or_c g z c y) Z \<and> (\<forall>S \<in> X. \<forall>T \<in> Y. S \<union> T \<in> Z) \<and>
      (\<forall>R \<in> Z. \<Inter>X \<union> \<Inter>Y \<subseteq> R \<and> R \<subseteq> \<Union>X \<union> \<Union>Y)" by (rule yields_ex[OF z(4) ne u]) auto
    show "\<exists>Z. fsc_sols g (minus_c g z c y) Z \<and> (\<forall>S \<in> X. \<forall>T \<in> Y. S - T \<in> Z) \<and>
      (\<forall>R \<in> Z. \<Inter>X - \<Union>Y \<subseteq> R \<and> R \<subseteq> \<Union>X - \<Inter>Y)" by (rule yields_ex[OF z(2) ne m]) auto
    show "\<exists>Z. fsc_sols g (uminus_c g z c) Z \<and> (\<forall>S \<in> X. {0..fd_sup} - S \<in> Z) \<and>
      (\<forall>R \<in> Z. {0..fd_sup} - \<Union>X \<subseteq> R \<and> R \<subseteq> {0..fd_sup} - \<Inter>X)" using c ne(1) by blast
  qed
qed

theorem fsc_images_witness:
  "\<exists>Z. fsc_sols initFDs (and_c initFDs ex_c0 ex_c ex_d) Z \<and> {} \<in> Z \<and> {6} \<in> Z \<and> {4} \<notin> Z"
proof -
  have m: "{5} \<in> {S. {5} \<subseteq> S \<and> S \<subseteq> {1..9::int}}" "{7} \<in> {S. {7} \<subseteq> S \<and> S \<subseteq> {5..80::int}}"
    "{5, 6} \<in> {S. {5} \<subseteq> S \<and> S \<subseteq> {1..9::int}}" "{6, 7} \<in> {S. {7} \<subseteq> S \<and> S \<subseteq> {5..80::int}}" by simp_all
  have u: "\<Union>{S. {7} \<subseteq> S \<and> S \<subseteq> {5..80::int}} = {5..80}" by (rule ex_unions; simp)
  obtain Z where Z: "fsc_sols initFDs (and_c initFDs ex_c0 ex_c ex_d) Z"
    "\<forall>S \<in> {S. {5} \<subseteq> S \<and> S \<subseteq> {1..9}}. \<forall>T \<in> {S. {7} \<subseteq> S \<and> S \<subseteq> {5..80}}. S \<inter> T \<in> Z"
    "\<forall>R \<in> Z. \<Inter>{S. {5} \<subseteq> S \<and> S \<subseteq> {1..9}} \<inter> \<Inter>{S. {7} \<subseteq> S \<and> S \<subseteq> {5..80}} \<subseteq> R \<and>
      R \<subseteq> \<Union>{S. {5} \<subseteq> S \<and> S \<subseteq> {1..9}} \<inter> \<Union>{S. {7} \<subseteq> S \<and> S \<subseteq> {5..80}}"
    using conjunct1[OF fsc_images[OF initFDs_ok ex_c_sols, of ex_c0]] by (elim exE conjE) (rule that)
  have "{4} \<notin> Z" using bspec[OF Z(3), of "{4}"] unfolding u by auto
  then show ?thesis using Z(1) bspec[OF bspec[OF Z(2) m(1)] m(2)] bspec[OF bspec[OF Z(2) m(3)] m(4)] by auto
qed

text \<open>
  Round trip of constraints. From the cardinalities and the lists of the elements known to be
  in and out the constructor and \<^verbatim>\<open>normalize\<close> build a constraint that admits the same sets; from the
  list of the elements known to be in and the one of the elements that may be in the second
  constructor builds the constraint of all sets between the bounds.
\<close>

lemma fsc_round_trip:
  assumes "fd_globals_ok g" "fsc_sols g c X" "before \<noteq> 63"
  shows "(\<exists>d. fsc_cards g z (c_card_min c) (c_card_max c) (getKnownInList_c before c) (getKnownNotInList_c before c) = Some d \<and>
      isValid_c d \<and> snd (normalize_c g d) \<and> fsc_sols g (fst (normalize_c g d)) X) \<and>
    (\<exists>d. fsc_bounds g z (getKnownInList_c before c) (getLubList_c g before c) = Some d \<and>
      fsc_sols g d {S. \<Inter>X \<subseteq> S \<and> S \<subseteq> \<Union>X})"
proof -
  obtain I Q where c: "fsc_inv g c I Q" "X = set_sols I Q (c_card_min c) (c_card_max c)"
    "\<Inter>X = I" "\<Union>X = {0..fd_sup} - Q" by (rule fsc_solsE[OF assms(2)])
  note d = lists_denote[OF assms(1) c(1) assms(3)] and i = fsc_invD[OF c(1)]
  have ne: "X \<noteq> {}" by (rule fsc_sols_ne[OF assms(2)])
  have "c_card_min c \<noteq> -1" using i(5) by simp
  from fsc_cards_told[OF assms(1) d(1,2) this, of z "c_card_max c", folded c(2)]
  obtain e where e: "fsc_cards g z (c_card_min c) (c_card_max c) (getKnownInList_c before c) (getKnownNotInList_c before c) = Some e"
    "if isValid_c e then told g (normalize_c g e) X else X = {}" by blast
  then have "isValid_c e" "told g (normalize_c g e) X" using ne by (metis, metis)
  then have "isValid_c e \<and> snd (normalize_c g e) \<and> fsc_sols g (fst (normalize_c g e)) X"
    using ne unfolding told_def by (metis (full_types))
  with e(1) have "\<exists>d. fsc_cards g z (c_card_min c) (c_card_max c) (getKnownInList_c before c) (getKnownNotInList_c before c) = Some d \<and>
      isValid_c d \<and> snd (normalize_c g d) \<and> fsc_sols g (fst (normalize_c g d)) X" by blast
  moreover have "\<exists>d. fsc_bounds g z (getKnownInList_c before c) (getLubList_c g before c) = Some d \<and>
      fsc_sols g d {S. \<Inter>X \<subseteq> S \<and> S \<subseteq> \<Union>X}"
    unfolding c(3,4) by (rule fsc_bounds_sols[OF assms(1) d(1,4)]) (use i(2,4) in blast)
  ultimately show ?thesis by blast
qed

lemma fsc_round_trip_witness:
  "\<exists>d. fsc_bounds initFDs ex_c0 (getKnownInList_c 0 ex_d) (getLubList_c initFDs 0 ex_d) = Some d \<and>
     fsc_sols initFDs d {S. {7} \<subseteq> S \<and> S \<subseteq> {5..80}}"
proof -
  have u: "\<Inter>{S. {7} \<subseteq> S \<and> S \<subseteq> {5..80::int}} = {7}" "\<Union>{S. {7} \<subseteq> S \<and> S \<subseteq> {5..80::int}} = {5..80}" by (rule ex_unions; simp)+
  show ?thesis using fsc_round_trip[OF initFDs_ok ex_c_sols(2), of 0 ex_c0] unfolding u by simp
qed

end
