(* ===== verification/Builtin.thy ===== *)
theory Builtin
  imports Prelude
begin

text \<open>
  How a builtin of the emulator gets its arguments and what it returns
  (\<^verbatim>\<open>platform/emulator/builtins.hh\<close>): an argument is dereferenced, the builtin suspends on an
  unbound variable, raises a type error for a value of another type, and otherwise goes on with
  the C++ value. \<open>'o\<close> is the type of the objects the builtin is about. \<open>CxxUndefined\<close> stands for
  an evaluation whose behaviour the C++ standard leaves undefined.
\<close>

datatype 'o oz_arg = Unbound | OzInt int | OzObj 'o | OzBool bool | OzOther

text \<open>The categories of exceptions (\<^verbatim>\<open>E_ERROR\<close> for errors of the program, \<^verbatim>\<open>E_SYSTEM\<close> for those of the system).\<close>

datatype exn_category = E_ERROR | E_SYSTEM

datatype 'a oz_return = Proceed 'a | Suspend | TypeErr nat string | Raise exn_category string | CxxUndefined

definition INT_MAX :: int where
  "INT_MAX = 2 ^ 31 - 1"

definition INT_MIN :: int where
  "INT_MIN = - (2 ^ 31)"

text \<open>The range of integers that are kept in a tagged word.\<close>

definition OzMaxInt :: int where
  "OzMaxInt = 134217727"

definition OzMinInt :: int where
  "OzMinInt = - (OzMaxInt + 1)"

text \<open>\<^verbatim>\<open>BigInt::getInt\<close>: an integer that does not fit is cut to the range of \<open>int\<close>.\<close>

definition getInt :: "int \<Rightarrow> int" where
  "getInt i = (if i > INT_MAX then INT_MAX else if i < INT_MIN then INT_MIN else i)"

definition declareIntIN :: "nat \<Rightarrow> 'o oz_arg \<Rightarrow> (int \<Rightarrow> 'a oz_return) \<Rightarrow> 'a oz_return" where
  "declareIntIN pos arg k =
     (case arg of OzInt i \<Rightarrow> k (getInt i) | Unbound \<Rightarrow> Suspend | _ \<Rightarrow> TypeErr pos ''Int'')"

definition declareObjIN :: "nat \<Rightarrow> string \<Rightarrow> 'o oz_arg \<Rightarrow> ('o \<Rightarrow> 'a oz_return) \<Rightarrow> 'a oz_return" where
  "declareObjIN pos type arg k =
     (case arg of OzObj x \<Rightarrow> k x | Unbound \<Rightarrow> Suspend | _ \<Rightarrow> TypeErr pos type)"

lemma getInt_id [simp]: "INT_MIN \<le> i \<Longrightarrow> i \<le> INT_MAX \<Longrightarrow> getInt i = i"
  by (simp add: getInt_def)

lemma declareIntIN_simps [simp]:
  "declareIntIN pos (OzInt i) k = k (getInt i)" "declareIntIN pos Unbound k = Suspend"
  by (simp_all add: declareIntIN_def)

lemma declareObjIN_simps [simp]:
  "declareObjIN pos ty (OzObj x) k = k x" "declareObjIN pos ty Unbound k = Suspend"
  by (simp_all add: declareObjIN_def)

end
