(* ===== verification/Feature.thy ===== *)
theory Feature
  imports Sort Builtin
begin

text \<open>
  Features: the keys of records and dictionaries (\<^verbatim>\<open>platform/emulator/value.hh\<close>,
  \<^verbatim>\<open>platform/emulator/tagged.hh\<close>). A feature is a literal, a small integer or a big integer. A
  literal is the address of an object in memory; the fields of the object that are read here are
  functions of the address, collected in a record that stands for the memory. Small integers
  are kept in tagged words of 32 bits, and hashing and comparing work on these words.
\<close>

section \<open>Terms\<close>

type_synonym addr = "32 word"

record literals =
  isName :: "addr \<Rightarrow> bool"
  getPrintName :: "addr \<Rightarrow> string"
  getSeqNumber :: "addr \<Rightarrow> int"

datatype feature = Literal addr | SmallInt int | BigInt int

definition LTAG_BITS :: nat where
  "LTAG_BITS = 4"

definition LTAG_SMALLINT :: int32 where
  "LTAG_SMALLINT = 14"

definition makeTaggedSmallInt :: "int \<Rightarrow> int32" where
  "makeTaggedSmallInt i = push_bit LTAG_BITS (word_of_int i) + LTAG_SMALLINT"

section \<open>Equality, order and hash value\<close>

text \<open>
  Two big integers are equal when their values are; the values of the other features decide
  equality of the tagged words.
\<close>

definition featureEq :: "feature \<Rightarrow> feature \<Rightarrow> bool" where
  "featureEq a b \<longleftrightarrow> a = b"

text \<open>\<^verbatim>\<open>strcmp\<close> as a number with the sign of the result.\<close>

fun strcmp :: "string \<Rightarrow> string \<Rightarrow> int" where
  "strcmp [] [] = 0"
| "strcmp [] (d # ds) = -1"
| "strcmp (c # cs) [] = 1"
| "strcmp (c # cs) (d # ds) =
     (if c = d then strcmp cs ds else if (of_char c :: nat) < of_char d then -1 else 1)"

definition atomcmp :: "literals \<Rightarrow> addr \<Rightarrow> addr \<Rightarrow> int" where
  "atomcmp L a b =
     (if a = b then 0
      else
        (let res = (if isName L b then 2 else 0) - (if isName L a then 2 else 0)
         in if res \<noteq> 0 then res
            else
              (let res = strcmp (getPrintName L a) (getPrintName L b)
               in if res \<noteq> 0 then res else getSeqNumber L a - getSeqNumber L b)))"

text \<open>The difference of two tagged words, a subtraction of 32-bit integers.\<close>

definition smallIntCmp :: "int \<Rightarrow> int \<Rightarrow> int" where
  "smallIntCmp a b = sint (makeTaggedSmallInt a - makeTaggedSmallInt b)"

definition bigIntCmp :: "int \<Rightarrow> int \<Rightarrow> int" where
  "bigIntCmp a b = sgn (a - b)"

definition featureCmp :: "literals \<Rightarrow> feature \<Rightarrow> feature \<Rightarrow> int" where
  "featureCmp L a b =
     (case a of
        Literal p \<Rightarrow> (case b of Literal q \<Rightarrow> atomcmp L p q | _ \<Rightarrow> 1)
      | SmallInt i \<Rightarrow>
          (case b of Literal q \<Rightarrow> -1 | SmallInt j \<Rightarrow> smallIntCmp i j | BigInt j \<Rightarrow> - bigIntCmp j i)
      | BigInt i \<Rightarrow>
          (case b of Literal q \<Rightarrow> -1 | SmallInt j \<Rightarrow> bigIntCmp i j | BigInt j \<Rightarrow> bigIntCmp i j))"

definition literal_hash :: "literals \<Rightarrow> addr \<Rightarrow> nat" where
  "literal_hash L a =
     (if isName L a then unat (word_of_int (getSeqNumber L a) :: int32) else unat (drop_bit LTAG_BITS a))"

definition smallIntHash :: "int \<Rightarrow> nat" where
  "smallIntHash i = unat (drop_bit LTAG_BITS (makeTaggedSmallInt i))"

definition featureHash :: "literals \<Rightarrow> feature \<Rightarrow> nat" where
  "featureHash L a =
     (case a of Literal p \<Rightarrow> literal_hash L p | SmallInt i \<Rightarrow> smallIntHash i | BigInt i \<Rightarrow> 75)"

section \<open>What the tagged words compute\<close>

lemma makeTaggedSmallInt_of_int: "makeTaggedSmallInt i = word_of_int (16 * i + 14)"
  by (simp add: makeTaggedSmallInt_def LTAG_BITS_def LTAG_SMALLINT_def push_bit_eq_mult)

lemma smallIntCmp_small:
  assumes "\<bar>a - b\<bar> < 2 ^ 27"
  shows "smallIntCmp a b = 16 * (a - b)"
proof -
  have "makeTaggedSmallInt a - makeTaggedSmallInt b = word_of_int (16 * (a - b))"
    by (simp add: makeTaggedSmallInt_of_int algebra_simps)
  moreover have "sint (word_of_int (16 * (a - b)) :: int32) = 16 * (a - b)"
    unfolding sint_sbintrunc' by (rule signed_take_bit_int_eq_self) (use assms in auto)
  ultimately show ?thesis by (simp add: smallIntCmp_def)
qed

lemma smallIntHash_mod: "smallIntHash i = nat (i mod 2 ^ 28)"
proof -
  have "i = 268435456 * (i div 268435456) + i mod 268435456" by simp
  then have i: "16 * i + 14 = 16 * (i mod 268435456) + 14 + (i div 268435456) * 4294967296" by linarith
  have "0 \<le> i mod 268435456" "i mod 268435456 < 268435456" by simp_all
  then have "0 \<le> 16 * (i mod 268435456) + 14" "16 * (i mod 268435456) + 14 < 4294967296" by linarith+
  then have "(16 * i + 14) mod 4294967296 = 16 * (i mod 268435456) + 14" unfolding i by (simp only: mod_mult_self1 mod_pos_pos_trivial)
  then have "uint (makeTaggedSmallInt i) = 16 * (i mod 268435456) + 14"
    unfolding makeTaggedSmallInt_of_int uint_word_of_int by simp
  moreover have "uint (drop_bit LTAG_BITS w) = uint w div 16" for w :: int32
  proof -
    have "uint (drop_bit 4 w) = drop_bit 4 (uint w)" 
      unfolding unsigned_drop_bit_eq using uint_bounded[of w] by (simp add: take_bit_int_eq_self)
    then show ?thesis by (simp add: LTAG_BITS_def drop_bit_eq_div[of 4 "uint w"])
  qed
  ultimately show ?thesis by (simp add: smallIntHash_def unat_eq_nat_uint)
qed

lemma strcmp_refl [simp]: "strcmp s s = 0"
  by (induction s) auto

lemma strcmp_zero_iff [simp]: "strcmp s t = 0 \<longleftrightarrow> s = t"
  by (induction s t rule: strcmp.induct) auto

lemma strcmp_swap: "strcmp t s = - strcmp s t"
  by (induction s t rule: strcmp.induct) auto

lemma strcmp_trans: "strcmp s t < 0 \<Longrightarrow> strcmp t u < 0 \<Longrightarrow> strcmp s u < 0"
proof (induction s t arbitrary: u rule: strcmp.induct)
  case (2 d ds)
  then show ?case by (cases u) auto
next
  case (4 c cs d ds)
  then show ?case by (cases u) (auto split: if_splits)
qed auto


lemma sgn_sub: "(sgn (a - b) < 0) = (a < b)" "(sgn (a - b) = 0) = (a = b)" "(0 < sgn (a - b)) = (b < a)" for a b :: int
  by (auto simp: sgn_if)

section \<open>When the comparison is a total order\<close>

text \<open>
  Features that can be compared: literals of one kind with the same print name are the same
  atom, or names with different sequence numbers; a big integer has no small integer with its value;
  and the small integers are less than \<open>2 ^ 27\<close> apart.
\<close>

fun comparable :: "literals \<Rightarrow> feature \<Rightarrow> feature \<Rightarrow> bool" where
  "comparable L (Literal p) (Literal q) \<longleftrightarrow>
     p = q \<or> isName L p \<noteq> isName L q \<or> getPrintName L p \<noteq> getPrintName L q \<or>
     isName L p \<and> getSeqNumber L p \<noteq> getSeqNumber L q"
| "comparable L (SmallInt i) (SmallInt j) \<longleftrightarrow> \<bar>i - j\<bar> < 2 ^ 27"
| "comparable L (SmallInt i) (BigInt j) \<longleftrightarrow> i \<noteq> j"
| "comparable L (BigInt i) (SmallInt j) \<longleftrightarrow> i \<noteq> j"
| "comparable L _ _ \<longleftrightarrow> True"

definition feats_ok :: "literals \<Rightarrow> feature set \<Rightarrow> bool" where
  "feats_ok L F \<longleftrightarrow> (\<forall>a \<in> F. \<forall>b \<in> F. comparable L a b)"

lemma feats_ok_mono: "feats_ok L F \<Longrightarrow> G \<subseteq> F \<Longrightarrow> feats_ok L G"
  unfolding feats_ok_def by blast

text \<open>The comparison of literals as an order on triples.\<close>

definition lit_less :: "literals \<Rightarrow> addr \<Rightarrow> addr \<Rightarrow> bool" where
  "lit_less L p q \<longleftrightarrow> isName L p \<and> \<not> isName L q \<or>
     isName L p = isName L q \<and>
       (strcmp (getPrintName L p) (getPrintName L q) < 0 \<or>
        getPrintName L p = getPrintName L q \<and> getSeqNumber L p < getSeqNumber L q)"

lemma atomcmp_less: "atomcmp L p q < 0 \<longleftrightarrow> p \<noteq> q \<and> lit_less L p q"
  by (auto simp: atomcmp_def lit_less_def Let_def)

lemma atomcmp_swap: "atomcmp L q p = - atomcmp L p q"
  using strcmp_swap[of "getPrintName L q" "getPrintName L p"] by (auto simp: atomcmp_def Let_def)

lemma lit_less_trans: "lit_less L p q \<Longrightarrow> lit_less L q r \<Longrightarrow> lit_less L p r"
  unfolding lit_less_def using strcmp_trans by auto

lemma featureCmp_swap: "comparable L a b \<Longrightarrow> featureCmp L b a < 0 \<longleftrightarrow> 0 < featureCmp L a b"
proof (cases a; cases b)
  fix p q assume "a = Literal p" "b = Literal q"
  then show ?thesis using atomcmp_swap[of L q p] by (simp add: featureCmp_def)
next
  fix i j assume "comparable L a b" "a = SmallInt i" "b = SmallInt j"
  then show ?thesis using smallIntCmp_small[of i j] smallIntCmp_small[of j i] by (auto simp: featureCmp_def)
qed (simp_all add: featureCmp_def bigIntCmp_def sgn_sub)

lemma atomcmp_zero: "comparable L (Literal p) (Literal q) \<Longrightarrow> atomcmp L p q = 0 \<longleftrightarrow> p = q"
  by (auto simp: atomcmp_def Let_def)

lemma featureCmp_zero: "comparable L a b \<Longrightarrow> featureCmp L a b = 0 \<longleftrightarrow> a = b"
  using atomcmp_zero[of L]
  by (cases a; cases b) (simp_all add: featureCmp_def bigIntCmp_def sgn_sub smallIntCmp_small)

text \<open>On such features the comparison is the one of numbers, then of literals.\<close>

fun feat_num :: "feature \<Rightarrow> int option" where
  "feat_num (SmallInt i) = Some i"
| "feat_num (BigInt i) = Some i"
| "feat_num (Literal p) = None"

lemma featureCmp_less_iff:
  "comparable L a b \<Longrightarrow> featureCmp L a b < 0 \<longleftrightarrow>
    (case feat_num a of
       Some i \<Rightarrow> (case feat_num b of Some j \<Rightarrow> i < j | None \<Rightarrow> True)
     | None \<Rightarrow> (\<exists>p q. a = Literal p \<and> b = Literal q \<and> p \<noteq> q \<and> lit_less L p q))"
  by (cases a; cases b) (simp_all add: featureCmp_def bigIntCmp_def sgn_sub atomcmp_less smallIntCmp_small)

lemma feat_num_None: "feat_num a = None \<longleftrightarrow> (\<exists>p. a = Literal p)"
  by (cases a) auto

lemma featureCmp_trans:
  assumes "comparable L a b" "comparable L b c" "comparable L a c" "featureCmp L a b < 0" "featureCmp L b c < 0"
  shows "featureCmp L a c < 0"
proof (cases "feat_num a")
  case None
  then obtain p q r where l: "a = Literal p" "b = Literal q" "c = Literal r" "p \<noteq> q" "lit_less L p q" "lit_less L q r"
    using assms(4,5) featureCmp_less_iff[OF assms(1)] featureCmp_less_iff[OF assms(2)] by auto
  have "p \<noteq> r" using featureCmp_swap[OF assms(1)] assms(4,5) l(1,3) by auto
  then show ?thesis using featureCmp_less_iff[OF assms(3)] l lit_less_trans[OF l(5,6)] by simp
next
  case (Some i)
  then show ?thesis
    using assms(4,5) featureCmp_less_iff[OF assms(1)] featureCmp_less_iff[OF assms(2)] featureCmp_less_iff[OF assms(3)]
    by (auto split: option.splits)
qed

end
