(* ===== verification/DictTable.thy ===== *)
theory DictTable
  imports Feature
begin

text \<open>
  The hash table of dictionaries, \<^verbatim>\<open>class DictHashTable\<close> of \<^verbatim>\<open>platform/emulator/dictionary.hh\<close> and
  \<^verbatim>\<open>dictionary.cc\<close>. A slot is empty, holds one key with its value, or points to a block of
  several. The block between the two pointers of a slot is a list; \<open>'v\<close> is the type of the values,
  and "no value" (the word 0) is \<^const>\<open>None\<close>. A read or write outside an array is \<^const>\<open>None\<close> as
  well, in the operations where it can happen.

  The theorems show that the table is a finite map from features to values: lookup, insertion,
  exchange and removal act on one key, growing and shrinking keep the map, and the counter is the
  number of keys.
\<close>

section \<open>The table\<close>

datatype 'v DictNode = EmptyNode | Entry feature 'v | Block "(feature \<times> 'v) list"

record 'v DictHashTable =
  ht_table :: "'v DictNode list"
  ht_sizeIndex :: nat
  ht_entries :: int
  ht_maxEntries :: int

definition HT_PRIMES_NUM :: nat where
  "HT_PRIMES_NUM = 46"

definition dictHTSizes :: "nat list" where
  "dictHTSizes =
     [1, 3, 5, 11, 23, 41, 71, 127, 191, 293, 461, 769, 1153, 1733, 2633, 4007, 6053, 9109, 13697, 20551,
      30829, 46301, 69473, 104347, 156521, 234781, 352229, 528403, 792881, 1189637, 1784459, 2676727,
      4015199, 6022873, 9034357, 13551589, 20327443, 30491239, 45736963, 68605463, 102908261, 154362469,
      231543727, 347315603, 520973503, 781460413, 0]"

definition ht_size :: "'v DictHashTable \<Rightarrow> nat" where
  "ht_size d = dictHTSizes ! ht_sizeIndex d"

text \<open>The switch over \<^verbatim>\<open>sizeIndex\<close> has a case for every table size and none for others.\<close>

definition ht_hash :: "'v DictHashTable \<Rightarrow> nat \<Rightarrow> nat" where
  "ht_hash d m = (if ht_sizeIndex d < HT_PRIMES_NUM then m mod (dictHTSizes ! ht_sizeIndex d) else m)"

definition ht_slot :: "literals \<Rightarrow> 'v DictHashTable \<Rightarrow> feature \<Rightarrow> nat" where
  "ht_slot L d k = ht_hash d (featureHash L k)"

abbreviation ht_node :: "literals \<Rightarrow> 'v DictHashTable \<Rightarrow> feature \<Rightarrow> 'v DictNode" where
  "ht_node L d k \<equiv> ht_table d ! ht_slot L d k"

abbreviation ht_put :: "literals \<Rightarrow> 'v DictHashTable \<Rightarrow> feature \<Rightarrow> 'v DictNode \<Rightarrow> 'v DictHashTable" where
  "ht_put L d k n \<equiv> d\<lparr>ht_table := (ht_table d)[ht_slot L d k := n]\<rparr>"

text \<open>
  \<^verbatim>\<open>(int) (GDT_MAXENTRIES * tableSize)\<close> with the factor 0.9: no size is a multiple of 10, so that the
  floating-point product is never next to an integer and is cut to this quotient.
\<close>

definition mkEmpty :: "'v DictHashTable \<Rightarrow> 'v DictHashTable" where
  "mkEmpty d =
     d\<lparr>ht_entries := 0, ht_maxEntries := 9 * int (ht_size d) div 10, ht_table := replicate (ht_size d) EmptyNode\<rparr>"

text \<open>The loop of \<^verbatim>\<open>init\<close>; behind the final 0 it would read outside the array of sizes.\<close>

fun sizeIndex_loop :: "nat list \<Rightarrow> nat \<Rightarrow> nat \<Rightarrow> nat option" where
  "sizeIndex_loop [] sz i = None"
| "sizeIndex_loop (s # ss) sz i = (if s < sz then sizeIndex_loop ss sz (Suc i) else Some i)"

definition init_ht :: "nat \<Rightarrow> 'v DictHashTable option" where
  "init_ht sz =
     map_option (\<lambda>i. mkEmpty \<lparr>ht_table = [], ht_sizeIndex = i, ht_entries = 0, ht_maxEntries = 0\<rparr>)
       (sizeIndex_loop dictHTSizes sz 0)"

section \<open>Operations\<close>

fun block_find :: "feature \<Rightarrow> (feature \<times> 'v) list \<Rightarrow> 'v option" where
  "block_find key [] = None"
| "block_find key ((k, v) # ps) = (if featureEq k key then Some v else block_find key ps)"

definition htFind :: "literals \<Rightarrow> 'v DictHashTable \<Rightarrow> feature \<Rightarrow> 'v option" where
  "htFind L d key =
     (case ht_node L d key of
        Entry k v \<Rightarrow> if featureEq k key then Some v else None
      | Block ps \<Rightarrow> block_find key ps
      | EmptyNode \<Rightarrow> None)"

text \<open>Insertion of a key that is not there, without counting.\<close>

definition htReAdd :: "literals \<Rightarrow> feature \<Rightarrow> 'v \<Rightarrow> 'v DictHashTable \<Rightarrow> 'v DictHashTable" where
  "htReAdd L key value d =
     ht_put L d key
       (case ht_node L d key of
          EmptyNode \<Rightarrow> Entry key value
        | Entry k v \<Rightarrow> Block [(k, v), (key, value)]
        | Block ps \<Rightarrow> Block (ps @ [(key, value)]))"

definition reAdd_node :: "literals \<Rightarrow> 'v DictNode \<Rightarrow> 'v DictHashTable \<Rightarrow> 'v DictHashTable" where
  "reAdd_node L n d =
     (case n of
        EmptyNode \<Rightarrow> d
      | Entry k v \<Rightarrow> htReAdd L k v d
      | Block ps \<Rightarrow> fold (\<lambda>(k, v). htReAdd L k v) ps d)"

text \<open>
  The next size. Behind the last one the table has no slots and the first insertion writes outside
  of it.
\<close>

definition resize :: "literals \<Rightarrow> 'v DictHashTable \<Rightarrow> 'v DictHashTable option" where
  "resize L d =
     (let i = ht_sizeIndex d + 1
      in if i < HT_PRIMES_NUM then
           (let d' = mkEmpty (d\<lparr>ht_sizeIndex := i\<rparr>);
                d' = d'\<lparr>ht_entries := ht_entries d\<rparr>
            in Some (fold (reAdd_node L) (ht_table d) d'))
         else None)"

definition count_entry :: "literals \<Rightarrow> 'v DictHashTable \<Rightarrow> 'v DictHashTable option" where
  "count_entry L d =
     (let d = d\<lparr>ht_entries := ht_entries d + 1\<rparr>
      in if ht_entries d > ht_maxEntries d then resize L d else Some d)"

fun block_set :: "feature \<Rightarrow> 'v \<Rightarrow> (feature \<times> 'v) list \<Rightarrow> (feature \<times> 'v) list option" where
  "block_set key value [] = None"
| "block_set key value ((k, v) # ps) =
     (if featureEq k key then Some ((k, value) # ps) else map_option ((#) (k, v)) (block_set key value ps))"

definition htAdd :: "literals \<Rightarrow> 'v DictHashTable \<Rightarrow> feature \<Rightarrow> 'v \<Rightarrow> 'v DictHashTable option" where
  "htAdd L d key value =
     (case ht_node L d key of
        EmptyNode \<Rightarrow> count_entry L (ht_put L d key (Entry key value))
      | Entry k v \<Rightarrow>
          (if featureEq k key then Some (ht_put L d key (Entry k value))
           else count_entry L (ht_put L d key (Block [(k, v), (key, value)])))
      | Block ps \<Rightarrow>
          (case block_set key value ps of
             Some qs \<Rightarrow> Some (ht_put L d key (Block qs))
           | None \<Rightarrow> count_entry L (ht_put L d key (Block (ps @ [(key, value)])))))"

text \<open>The result is the new table and the old value.\<close>

definition htExchange ::
    "literals \<Rightarrow> 'v DictHashTable \<Rightarrow> feature \<Rightarrow> 'v \<Rightarrow> bool \<Rightarrow> ('v DictHashTable \<times> 'v option) option" where
  "htExchange L d key value createFlag =
     (case ht_node L d key of
        EmptyNode \<Rightarrow>
          (if createFlag then map_option (\<lambda>d. (d, None)) (count_entry L (ht_put L d key (Entry key value)))
           else Some (d, None))
      | Entry k v \<Rightarrow>
          (if featureEq k key then Some (ht_put L d key (Entry k value), Some v)
           else if createFlag then
             map_option (\<lambda>d. (d, None)) (count_entry L (ht_put L d key (Block [(k, v), (key, value)])))
           else Some (d, None))
      | Block ps \<Rightarrow>
          (case block_set key value ps of
             Some qs \<Rightarrow> Some (ht_put L d key (Block qs), block_find key ps)
           | None \<Rightarrow>
               if createFlag then
                 map_option (\<lambda>d. (d, None)) (count_entry L (ht_put L d key (Block (ps @ [(key, value)]))))
               else Some (d, None)))"

text \<open>Removal from a block copies the others; of two entries the other one moves into the slot.\<close>

fun block_del :: "feature \<Rightarrow> (feature \<times> 'v) list \<Rightarrow> (feature \<times> 'v) list option" where
  "block_del key [] = None"
| "block_del key ((k, v) # ps) = (if featureEq k key then Some ps else map_option ((#) (k, v)) (block_del key ps))"

definition htDel :: "literals \<Rightarrow> 'v DictHashTable \<Rightarrow> feature \<Rightarrow> 'v DictHashTable" where
  "htDel L d key =
     (case ht_node L d key of
        EmptyNode \<Rightarrow> d
      | Entry k v \<Rightarrow>
          (if featureEq k key then (ht_put L d key EmptyNode)\<lparr>ht_entries := ht_entries d - 1\<rparr> else d)
      | Block ps \<Rightarrow>
          (case block_del key ps of
             None \<Rightarrow> d
           | Some qs \<Rightarrow>
               (ht_put L d key (case qs of [(k, v)] \<Rightarrow> Entry k v | _ \<Rightarrow> Block qs))\<lparr>ht_entries := ht_entries d - 1\<rparr>))"

text \<open>
  Shrinking a table that is less than a quarter full: the smallest size that is at least
  \<^verbatim>\<open>(int) (entries / 0.7)\<close>, which is this quotient (a product that is an integer is computed exactly).
\<close>

fun compact_loop :: "nat \<Rightarrow> int \<Rightarrow> nat" where
  "compact_loop 0 sz = 0"
| "compact_loop (Suc i) sz = (if int (dictHTSizes ! i) \<ge> sz then compact_loop i sz else Suc i)"

definition compactify :: "literals \<Rightarrow> 'v DictHashTable \<Rightarrow> 'v DictHashTable" where
  "compactify L d =
     (let oldSize = int (ht_size d)
      in if ht_entries d \<ge> oldSize div 4 then d
         else
           (let tableSize = 10 * ht_entries d div 7;
                d' = mkEmpty (d\<lparr>ht_sizeIndex := compact_loop (ht_sizeIndex d) tableSize\<rparr>);
                d' = d'\<lparr>ht_entries := ht_entries d\<rparr>
            in fold (reAdd_node L) (ht_table d) d'))"

section \<open>Lists\<close>

fun node_list :: "'v DictNode \<Rightarrow> (feature \<times> 'v) list" where
  "node_list EmptyNode = []"
| "node_list (Entry k v) = [(k, v)]"
| "node_list (Block ps) = ps"

text \<open>The loops that go through the slots from the last to the first and through each block.\<close>

definition ht_collect :: "((feature \<times> 'v) \<Rightarrow> 'a \<Rightarrow> 'a) \<Rightarrow> 'v DictHashTable \<Rightarrow> 'a \<Rightarrow> 'a" where
  "ht_collect f d acc = fold (\<lambda>n. fold f (node_list n)) (rev (ht_table d)) acc"

definition getKeys :: "'v DictHashTable \<Rightarrow> feature list" where
  "getKeys d = ht_collect (\<lambda>p ks. fst p # ks) d []"

definition getPairs :: "'v DictHashTable \<Rightarrow> (feature \<times> 'v) list" where
  "getPairs d = ht_collect (\<lambda>p ps. p # ps) d []"

definition getItems :: "'v DictHashTable \<Rightarrow> 'v list" where
  "getItems d = ht_collect (\<lambda>p vs. snd p # vs) d []"

definition getPairsInArray :: "'v DictHashTable \<Rightarrow> (feature \<times> 'v) list" where
  "getPairsInArray d = ht_collect (\<lambda>p ps. ps @ [p]) d []"

definition getArityList :: "literals \<Rightarrow> 'v DictHashTable \<Rightarrow> feature list \<Rightarrow> feature list option" where
  "getArityList L d tail =
     (if ht_entries d > 0 then
        map_option (\<lambda>arr. arr @ tail)
          (fastsort (\<lambda>a b. featureCmp L a b < 0) (ht_collect (\<lambda>p ks. ks @ [fst p]) d []) (nat (ht_entries d)))
      else Some tail)"

definition verify :: "'v DictHashTable \<Rightarrow> bool" where
  "verify d \<longleftrightarrow> ht_collect (\<lambda>p n. n + 1) d 0 = ht_entries d"


section \<open>The invariant and the map\<close>

definition node_ok :: "(feature \<Rightarrow> nat) \<Rightarrow> nat \<Rightarrow> 'v DictNode \<Rightarrow> bool" where
  "node_ok h i n \<longleftrightarrow>
     distinct (map fst (node_list n)) \<and> (\<forall>k \<in> fst ` set (node_list n). h k = i) \<and>
     (case n of Block ps \<Rightarrow> 2 \<le> length ps | _ \<Rightarrow> True)"

text \<open>Everything but the counter.\<close>

definition ht_shape :: "literals \<Rightarrow> 'v DictHashTable \<Rightarrow> bool" where
  "ht_shape L d \<longleftrightarrow>
     ht_sizeIndex d < HT_PRIMES_NUM \<and> length (ht_table d) = ht_size d \<and>
     ht_maxEntries d = 9 * int (ht_size d) div 10 \<and> (\<forall>i < length (ht_table d). node_ok (ht_slot L d) i (ht_table d ! i))"

definition ht_length :: "'v DictHashTable \<Rightarrow> nat" where
  "ht_length d = sum_list (map (\<lambda>n. length (node_list n)) (ht_table d))"

definition ht_ok :: "literals \<Rightarrow> 'v DictHashTable \<Rightarrow> bool" where
  "ht_ok L d \<longleftrightarrow> ht_shape L d \<and> ht_entries d = int (ht_length d)"

definition ht_map :: "literals \<Rightarrow> 'v DictHashTable \<Rightarrow> feature \<rightharpoonup> 'v" where
  "ht_map L d k = map_of (node_list (ht_node L d k)) k"

lemma featureEq_eq [simp]: "featureEq = (=)"
  by (simp add: featureEq_def fun_eq_iff)

lemma sizes_pos: "i < HT_PRIMES_NUM \<Longrightarrow> 0 < dictHTSizes ! i"
proof -
  assume i: "i < HT_PRIMES_NUM"
  have "\<forall>n \<in> set (take 46 dictHTSizes). 0 < n" "length dictHTSizes = 47" by (simp_all add: dictHTSizes_def)
  moreover have "take 46 dictHTSizes ! i \<in> set (take 46 dictHTSizes)" using i \<open>length dictHTSizes = 47\<close>
    by (intro nth_mem) (simp add: HT_PRIMES_NUM_def)
  ultimately show "0 < dictHTSizes ! i" using i by (simp add: HT_PRIMES_NUM_def)
qed

lemma ht_shapeD:
  assumes "ht_shape L d"
  shows "ht_slot L d k < length (ht_table d)" "i < length (ht_table d) \<Longrightarrow> node_ok (ht_slot L d) i (ht_table d ! i)"
    "ht_sizeIndex d < HT_PRIMES_NUM" "length (ht_table d) = ht_size d" "ht_maxEntries d = 9 * int (ht_size d) div 10"
  using assms sizes_pos[of "ht_sizeIndex d"] by (auto simp: ht_shape_def ht_slot_def ht_hash_def ht_size_def)

lemma htFind_map: "htFind L d k = ht_map L d k"
proof -
  have "block_find k ps = map_of ps k" for ps :: "(feature \<times> 'a) list" by (induction ps) auto
  then show ?thesis by (auto simp: htFind_def ht_map_def split: DictNode.splits)
qed

subsection \<open>Changing one slot\<close>

lemma slot_put [simp]:
  "ht_slot L (d\<lparr>ht_table := t\<rparr>) = ht_slot L d" "ht_slot L (d\<lparr>ht_entries := e\<rparr>) = ht_slot L d"
  by (simp_all add: fun_eq_iff ht_slot_def ht_hash_def)

lemma size_put [simp]:
  "ht_size (d\<lparr>ht_table := t\<rparr>) = ht_size d" "ht_size (d\<lparr>ht_entries := e\<rparr>) = ht_size d"
  by (simp_all add: ht_size_def)

lemma count_put [simp]:
  "ht_shape L (d\<lparr>ht_entries := e\<rparr>) = ht_shape L d" "ht_map L (d\<lparr>ht_entries := e\<rparr>) = ht_map L d"
  "ht_length (d\<lparr>ht_entries := e\<rparr>) = ht_length d"
  by (simp_all add: fun_eq_iff ht_shape_def ht_map_def ht_length_def)

lemma put_node:
  assumes "ht_shape L d" "node_ok (ht_slot L d) (ht_slot L d k) n" "map_of (node_list n) = (map_of (node_list (ht_node L d k)))(k := x)"
  shows "ht_shape L (ht_put L d k n)" "ht_map L (ht_put L d k n) = (ht_map L d)(k := x)"
    "ht_length (ht_put L d k n) + length (node_list (ht_node L d k)) = ht_length d + length (node_list n)"
proof -
  note s = ht_shapeD[OF assms(1)]
  show "ht_shape L (ht_put L d k n)" using assms(1,2) s by (auto simp: ht_shape_def nth_list_update)
  have "ht_map L (ht_put L d k n) j = ((ht_map L d)(k := x)) j" for j
  proof (cases "ht_slot L d j = ht_slot L d k")
    case True
    then show ?thesis using s(1) assms(3) by (simp add: ht_map_def)
  next
    case False
    then have "j \<noteq> k" by auto
    then show ?thesis using False by (simp add: ht_map_def)
  qed
  then show "ht_map L (ht_put L d k n) = (ht_map L d)(k := x)" by blast
  have "sum_list (map f (xs[i := y])) + f (xs ! i) = sum_list (map f xs) + f y" if "i < length xs" for f :: "'x \<Rightarrow> nat" and xs i y
    using that by (induction xs arbitrary: i) (auto split: nat.splits)
  from this[OF s(1)] show "ht_length (ht_put L d k n) + length (node_list (ht_node L d k)) = ht_length d + length (node_list n)"
    unfolding ht_length_def by simp
qed

lemma map_of_snoc: "k \<notin> fst ` set ps \<Longrightarrow> map_of (ps @ [(k, v)]) = (map_of ps)(k \<mapsto> v)"
  by (induction ps) (auto simp: fun_upd_twist)

lemma node_add:
  fixes v :: 'v
  assumes "ht_shape L d" "ht_map L d k = None"
  defines "n \<equiv> (case ht_node L d k of EmptyNode \<Rightarrow> Entry k v | Entry k' v' \<Rightarrow> Block [(k', v'), (k, v)] | Block ps \<Rightarrow> Block (ps @ [(k, v)]))"
  shows "ht_shape L (ht_put L d k n)" "ht_map L (ht_put L d k n) = (ht_map L d)(k \<mapsto> v)"
    "ht_length (ht_put L d k n) = ht_length d + 1"
proof -
  note s = ht_shapeD[OF assms(1)]
  have l: "node_list n = node_list (ht_node L d k) @ [(k, v)]" by (auto simp: n_def split: DictNode.splits)
  have fr: "k \<notin> fst ` set (node_list (ht_node L d k))" using assms(2) by (simp add: ht_map_def map_of_eq_None_iff)
  have "node_ok (ht_slot L d) (ht_slot L d k) n"
    using s(2)[OF s(1), of k] l fr by (auto simp: node_ok_def n_def split: DictNode.splits)
  note p = put_node[OF assms(1) this, of "Some v"]
  show "ht_shape L (ht_put L d k n)" "ht_map L (ht_put L d k n) = (ht_map L d)(k \<mapsto> v)"
    "ht_length (ht_put L d k n) = ht_length d + 1"
    using p l map_of_snoc[OF fr] by simp_all
qed

lemma htReAdd_spec:
  assumes "ht_shape L d" "ht_map L d k = None"
  shows "ht_shape L (htReAdd L k v d)" "ht_map L (htReAdd L k v d) = (ht_map L d)(k \<mapsto> v)"
    "ht_length (htReAdd L k v d) = ht_length d + 1"
  unfolding htReAdd_def using node_add[OF assms, of v] by simp_all


subsection \<open>All entries\<close>

abbreviation ht_all :: "'v DictHashTable \<Rightarrow> (feature \<times> 'v) list" where
  "ht_all d \<equiv> concat (map node_list (ht_table d))"

lemma distinct_buckets:
  "(\<And>i x. i < length xs \<Longrightarrow> x \<in> set (xs ! i) \<Longrightarrow> h x = i + b) \<Longrightarrow> (\<And>i. i < length xs \<Longrightarrow> distinct (xs ! i)) \<Longrightarrow>
   distinct (concat xs)"
proof (induction xs arbitrary: b)
  case (Cons ys xs)
  have "h x = i + Suc b" if "i < length xs" "x \<in> set (xs ! i)" for i x using Cons.prems(1)[of "Suc i" x] that by simp
  moreover have "distinct (xs ! i)" if "i < length xs" for i using Cons.prems(2)[of "Suc i"] that by simp
  ultimately have d: "distinct (concat xs)" by (rule Cons.IH)
  have "h x = b" if "x \<in> set ys" for x using Cons.prems(1)[of 0 x] that by simp
  moreover have "h x \<noteq> b" if m: "x \<in> set (concat xs)" for x
  proof -
    obtain ys where "ys \<in> set xs" "x \<in> set ys" using m by auto
    then obtain i where "i < length xs" "x \<in> set (xs ! i)" by (metis in_set_conv_nth)
    then show ?thesis using Cons.prems(1)[of "Suc i" x] by simp
  qed
  ultimately have "set ys \<inter> set (concat xs) = {}" by blast
  then show ?case using d Cons.prems(2)[of 0] by simp
qed simp

lemma ht_all_distinct:
  assumes "ht_shape L d"
  shows "distinct (map fst (ht_all d))"
proof -
  have "distinct (concat (map (map fst \<circ> node_list) (ht_table d)))"
    using ht_shapeD(2)[OF assms] by (intro distinct_buckets[where h = "ht_slot L d" and b = 0]) (auto simp: node_ok_def)
  then show ?thesis by (simp add: map_concat)
qed

lemma ht_all_map:
  assumes "ht_shape L d"
  shows "map_of (ht_all d) = ht_map L d"
proof
  fix k
  note s = ht_shapeD[OF assms]
  have "(k, v) \<in> set (ht_all d) \<longleftrightarrow> (k, v) \<in> set (node_list (ht_node L d k))" for v
  proof
    assume "(k, v) \<in> set (ht_all d)"
    then obtain n where "n \<in> set (ht_table d)" "(k, v) \<in> set (node_list n)" by auto
    then obtain i where i: "i < length (ht_table d)" "(k, v) \<in> set (node_list (ht_table d ! i))"
      by (metis in_set_conv_nth)
    then have "ht_slot L d k = i" using s(2)[OF i(1)] by (force simp: node_ok_def)
    then show "(k, v) \<in> set (node_list (ht_node L d k))" using i by simp
  next
    assume "(k, v) \<in> set (node_list (ht_node L d k))"
    then show "(k, v) \<in> set (ht_all d)" using nth_mem[OF s(1), of k] by auto
  qed
  moreover have "distinct (map fst (node_list (ht_node L d k)))" using s(2)[OF s(1)] by (simp add: node_ok_def)
  ultimately show "map_of (ht_all d) k = ht_map L d k"
    using ht_all_distinct[OF assms] unfolding ht_map_def by (metis map_of_eq_Some_iff not_None_eq)
qed

lemma ht_length_all: "ht_length d = length (ht_all d)"
  by (simp add: ht_length_def length_concat comp_def)

lemma ht_map_finite: "ht_shape L d \<Longrightarrow> finite (dom (ht_map L d)) \<and> card (dom (ht_map L d)) = ht_length d"
proof -
  assume a: "ht_shape L d"
  have "dom (ht_map L d) = set (map fst (ht_all d))" by (simp add: dom_map_of_conv_image_fst flip: ht_all_map[OF a])
  then show ?thesis using distinct_card[OF ht_all_distinct[OF a]] by (simp add: ht_length_all)
qed

subsection \<open>New sizes\<close>

lemma reAdd_nodes: "fold (reAdd_node L) ns d = fold (\<lambda>(k, v). htReAdd L k v) (concat (map node_list ns)) d"
proof (induction ns arbitrary: d)
  case (Cons n ns)
  have "reAdd_node L n d = fold (\<lambda>(k, v). htReAdd L k v) (node_list n) d" by (cases n) (simp_all add: reAdd_node_def)
  then show ?case using Cons by simp
qed simp

lemma htReAdd_fields [simp]: "ht_entries (htReAdd L k v d) = ht_entries d"
  by (simp add: htReAdd_def)

lemma reAdd_all:
  "ht_shape L d \<Longrightarrow> distinct (map fst ps) \<Longrightarrow> (\<And>k. k \<in> fst ` set ps \<Longrightarrow> ht_map L d k = None) \<Longrightarrow>
   ht_shape L (fold (\<lambda>(k, v). htReAdd L k v) ps d) \<and>
   ht_map L (fold (\<lambda>(k, v). htReAdd L k v) ps d) = ht_map L d ++ map_of ps \<and>
   ht_length (fold (\<lambda>(k, v). htReAdd L k v) ps d) = ht_length d + length ps \<and>
   ht_entries (fold (\<lambda>(k, v). htReAdd L k v) ps d) = ht_entries d"
proof (induction ps arbitrary: d)
  case (Cons p ps)
  obtain k v where p: "p = (k, v)" by (cases p)
  have k: "ht_map L d k = None" "k \<notin> fst ` set ps" using Cons.prems(2,3) p by auto
  note a = htReAdd_spec[OF Cons.prems(1) k(1), of v]
  have "ht_map L (htReAdd L k v d) j = None" if "j \<in> fst ` set ps" for j
    using that a(2) k(2) Cons.prems(3)[of j] by auto
  then have fr: "\<And>j. j \<in> fst ` set ps \<Longrightarrow> ht_map L (htReAdd L k v d) j = None" .
  have dist: "distinct (map fst ps)" using Cons.prems(2) by simp
  note ih = Cons.IH[OF a(1) dist fr, unfolded a(2,3) htReAdd_fields]
  have m: "(ht_map L d)(k \<mapsto> v) ++ map_of ps = ht_map L d ++ map_of ((k, v) # ps)"
    using k(2) by (simp add: map_add_upd_left dom_map_of_conv_image_fst)
  have l: "ht_length d + 1 + length ps = ht_length d + length ((k, v) # ps)" by simp
  show ?case using ih unfolding p fold_simps prod.case m l .
qed simp

lemma mkEmpty_spec:
  assumes "ht_sizeIndex d < HT_PRIMES_NUM"
  shows "ht_shape L (mkEmpty d)" "ht_map L (mkEmpty d) = Map.empty" "ht_length (mkEmpty d) = 0"
proof -
  have s: "ht_size (mkEmpty d) = ht_size d" by (simp add: mkEmpty_def ht_size_def)
  then show sh: "ht_shape L (mkEmpty d)" using assms by (auto simp: ht_shape_def mkEmpty_def node_ok_def)
  have l: "ht_slot L (mkEmpty d) k < length (ht_table (mkEmpty d))" for k by (rule ht_shapeD(1)[OF sh])
  then show "ht_map L (mkEmpty d) = Map.empty" by (auto simp: fun_eq_iff ht_map_def mkEmpty_def)
  show "ht_length (mkEmpty d) = 0" by (simp add: ht_length_def mkEmpty_def)
qed

text \<open>Moving all entries of a table to one of another size.\<close>

lemma rehash:
  fixes e :: int
  assumes "ht_shape L d" "i < HT_PRIMES_NUM"
  defines "d' \<equiv> fold (reAdd_node L) (ht_table d) ((mkEmpty (d\<lparr>ht_sizeIndex := i\<rparr>))\<lparr>ht_entries := e\<rparr>)"
  shows "ht_shape L d'" "ht_map L d' = ht_map L d" "ht_length d' = ht_length d" "ht_entries d' = e"
proof -
  let ?e = "(mkEmpty (d\<lparr>ht_sizeIndex := i\<rparr>))\<lparr>ht_entries := e\<rparr>"
  have "ht_shape L ?e" "ht_map L ?e = Map.empty" "ht_length ?e = 0"
    using mkEmpty_spec(1,2)[of "d\<lparr>ht_sizeIndex := i\<rparr>" L] mkEmpty_spec(3)[of "d\<lparr>ht_sizeIndex := i\<rparr>"] assms(2) by simp_all
  then show "ht_shape L d'" "ht_map L d' = ht_map L d" "ht_length d' = ht_length d" "ht_entries d' = e"
    using reAdd_all[of L ?e "ht_all d"] ht_all_distinct[OF assms(1)] ht_all_map[OF assms(1)]
    unfolding d'_def reAdd_nodes by (simp_all add: ht_length_all)
qed


text \<open>
  The sizes and limits of the table. A table of the last size holds more entries than fit into the
  memory of a 32-bit process.
\<close>

definition ht_limit :: int where
  "ht_limit = 9 * 781460413 div 10"

lemma resize_spec:
  assumes "ht_shape L d" "ht_sizeIndex d + 1 < HT_PRIMES_NUM"
  obtains d' where "resize L d = Some d'" "ht_shape L d'" "ht_map L d' = ht_map L d" "ht_length d' = ht_length d"
    "ht_entries d' = ht_entries d"
  using that rehash[OF assms, where e = "ht_entries d"] assms(2) by (simp add: resize_def Let_def)

lemma count_entry_spec:
  assumes "ht_shape L d" "ht_entries d + 1 = int (ht_length d)" "ht_entries d < ht_limit"
  obtains d' where "count_entry L d = Some d'" "ht_ok L d'" "ht_map L d' = ht_map L d"
proof (cases "ht_entries d + 1 > ht_maxEntries d")
  case False
  then show ?thesis using assms by (intro that[of "d\<lparr>ht_entries := ht_entries d + 1\<rparr>"]) (simp_all add: count_entry_def Let_def ht_ok_def)
next
  case True
  let ?d = "d\<lparr>ht_entries := ht_entries d + 1\<rparr>"
  have "ht_sizeIndex d \<noteq> 45"
  proof
    assume "ht_sizeIndex d = 45"
    then have "ht_maxEntries d = ht_limit" using ht_shapeD(5)[OF assms(1)] by (simp add: ht_size_def dictHTSizes_def ht_limit_def)
    then show False using True assms(3) by simp
  qed
  then have "ht_sizeIndex ?d + 1 < HT_PRIMES_NUM" using ht_shapeD(3)[OF assms(1)] by (simp add: HT_PRIMES_NUM_def)
  then obtain d' where "resize L ?d = Some d'" "ht_shape L d'" "ht_map L d' = ht_map L d" "ht_length d' = ht_length d"
      "ht_entries d' = ht_entries d + 1"
    using resize_spec[of L ?d] assms(1) by auto
  then show ?thesis using True assms(2) by (intro that[of d']) (simp_all add: count_entry_def Let_def ht_ok_def)
qed

subsection \<open>Insertion, exchange, removal\<close>

lemma block_set_Some:
  "block_set k v ps = Some qs \<Longrightarrow> map fst qs = map fst ps \<and> map_of qs = (map_of ps)(k \<mapsto> v) \<and> map_of ps k \<noteq> None"
proof (induction ps arbitrary: qs)
  case (Cons p ps)
  then show ?case by (cases p) (auto split: if_splits)
qed simp

lemma block_set_None: "block_set k v ps = None \<longleftrightarrow> map_of ps k = None"
  by (induction ps) auto

lemma block_find_map: "block_find k ps = map_of ps k"
  by (induction ps) auto

text \<open>Overwriting the value of a key that is there.\<close>

lemma node_set:
  assumes "ht_ok L d" "map fst (node_list n) = map fst (node_list (ht_node L d k))"
    "map_of (node_list n) = (map_of (node_list (ht_node L d k)))(k \<mapsto> v)"
    "case n of Block ps \<Rightarrow> 2 \<le> length ps | _ \<Rightarrow> True"
  shows "ht_ok L (ht_put L d k n)" "ht_map L (ht_put L d k n) = (ht_map L d)(k \<mapsto> v)"
proof -
  have sh: "ht_shape L d" using assms(1) by (simp add: ht_ok_def)
  note s = ht_shapeD[OF sh]
  have "fst ` set (node_list n) = fst ` set (node_list (ht_node L d k))" using arg_cong[OF assms(2), of set] by simp
  then have "node_ok (ht_slot L d) (ht_slot L d k) n"
    using s(2)[OF s(1), of k] assms(2,4) by (simp add: node_ok_def)
  note p = put_node[OF sh this, of "Some v"]
  have "length (node_list n) = length (node_list (ht_node L d k))" using map_eq_imp_length_eq[OF assms(2)] .
  then show "ht_ok L (ht_put L d k n)" "ht_map L (ht_put L d k n) = (ht_map L d)(k \<mapsto> v)"
    using p assms(1,3) by (simp_all add: ht_ok_def)
qed

lemma node_new:
  assumes "ht_ok L d" "ht_map L d k = None" "ht_entries d < ht_limit"
  obtains d' where
    "count_entry L (ht_put L d k (case ht_node L d k of EmptyNode \<Rightarrow> Entry k v | Entry k' v' \<Rightarrow> Block [(k', v'), (k, v)]
       | Block ps \<Rightarrow> Block (ps @ [(k, v)]))) = Some d'"
    "ht_ok L d'" "ht_map L d' = (ht_map L d)(k \<mapsto> v)"
proof -
  have sh: "ht_shape L d" using assms(1) by (simp add: ht_ok_def)
  note a = node_add[OF sh assms(2), of v]
  show ?thesis
    using count_entry_spec[OF a(1)] a(2,3) assms(1,3) that by (auto simp: ht_ok_def)
qed


text \<open>The two outcomes of a search in the slot of a key, for insertion and exchange alike.\<close>

lemma block_size: "ht_ok L d \<Longrightarrow> ht_node L d k = Block ps \<Longrightarrow> 2 \<le> length ps"
proof -
  assume a: "ht_ok L d" "ht_node L d k = Block ps"
  then have sh: "ht_shape L d" by (simp add: ht_ok_def)
  show ?thesis using ht_shapeD(2)[OF sh ht_shapeD(1)[OF sh, of k]] a(2) by (simp add: node_ok_def)
qed

lemma htAdd_spec:
  assumes "ht_ok L d" "ht_entries d < ht_limit"
  obtains d' where "htAdd L d k v = Some d'" "ht_ok L d'" "ht_map L d' = (ht_map L d)(k \<mapsto> v)"
proof (cases "ht_map L d k = None")
  case True
  obtain d' where d': "count_entry L (ht_put L d k (case ht_node L d k of EmptyNode \<Rightarrow> Entry k v | Entry k' v' \<Rightarrow> Block [(k', v'), (k, v)]
       | Block ps \<Rightarrow> Block (ps @ [(k, v)]))) = Some d'" "ht_ok L d'" "ht_map L d' = (ht_map L d)(k \<mapsto> v)"
    by (rule node_new[OF assms(1) True assms(2)])
  have "htAdd L d k v = Some d'"
    using d'(1) True by (auto simp: htAdd_def ht_map_def block_set_None[of k v, symmetric] split: DictNode.splits if_splits)
  then show ?thesis using d' by (intro that)
next
  case False
  have "\<exists>n. htAdd L d k v = Some (ht_put L d k n) \<and> map fst (node_list n) = map fst (node_list (ht_node L d k)) \<and>
    map_of (node_list n) = (map_of (node_list (ht_node L d k)))(k \<mapsto> v) \<and> (case n of Block ps \<Rightarrow> 2 \<le> length ps | _ \<Rightarrow> True)"
  proof (cases "ht_node L d k")
    case EmptyNode
    then show ?thesis using False by (simp add: ht_map_def)
  next
    case (Entry k' v')
    then show ?thesis using False by (auto simp: ht_map_def htAdd_def fun_upd_twist intro!: exI[of _ "Entry k v"] split: if_splits)
  next
    case (Block ps)
    then obtain qs where qs: "block_set k v ps = Some qs" using False block_set_None[of k v ps] by (auto simp: ht_map_def)
    note b = block_set_Some[OF qs]
    have "length qs = length ps" using b map_eq_imp_length_eq by blast
    then show ?thesis using b qs Block block_size[OF assms(1) Block]
      by (auto simp: htAdd_def intro!: exI[of _ "Block qs"])
  qed
  then show ?thesis using node_set[OF assms(1)] that by blast
qed

lemma htExchange_old:
  assumes "ht_map L d k \<noteq> None" "ht_ok L d" "ht_entries d < ht_limit"
  shows "htExchange L d k v c = map_option (\<lambda>d'. (d', ht_map L d k)) (htAdd L d k v)"
proof (cases "ht_node L d k")
  case (Block ps)
  then obtain qs where "block_set k v ps = Some qs" using assms(1) block_set_None[of k v ps] by (auto simp: ht_map_def)
  then show ?thesis using Block by (simp add: htExchange_def htAdd_def ht_map_def block_find_map)
qed (use assms(1) in \<open>auto simp: htExchange_def htAdd_def ht_map_def split: if_splits\<close>)

lemma htExchange_new:
  assumes "ht_map L d k = None"
  shows "htExchange L d k v c = (if c then map_option (\<lambda>d'. (d', None)) (htAdd L d k v) else Some (d, None))"
proof (cases "ht_node L d k")
  case (Block ps)
  then have "block_set k v ps = None" using assms block_set_None[of k v ps] by (auto simp: ht_map_def)
  then show ?thesis using Block by (simp add: htExchange_def htAdd_def)
qed (use assms in \<open>auto simp: htExchange_def htAdd_def ht_map_def split: if_splits\<close>)

lemma block_del_Some:
  "block_del k ps = Some qs \<Longrightarrow> distinct (map fst ps) \<Longrightarrow>
   map_of qs = (map_of ps)(k := None) \<and> Suc (length qs) = length ps \<and> set qs \<subseteq> set ps \<and> distinct (map fst qs)"
proof (induction ps arbitrary: qs)
  case (Cons p ps)
  obtain k' v' where p: "p = (k', v')" by (cases p)
  show ?case
  proof (cases "k' = k")
    case True
    then show ?thesis using Cons.prems p by (auto simp: fun_eq_iff map_of_eq_None_iff)
  next
    case False
    then obtain rs where rs: "block_del k ps = Some rs" "qs = (k', v') # rs" using Cons.prems(1) p by auto
    have "distinct (map fst ps)" using Cons.prems(2) by simp
    then show ?thesis using Cons.IH[OF rs(1)] rs(2) p False Cons.prems(2) by (auto simp: fun_eq_iff)
  qed
qed simp

lemma block_del_None: "block_del k ps = None \<longleftrightarrow> map_of ps k = None"
  by (induction ps) auto

lemma htDel_spec:
  assumes "ht_ok L d"
  shows "ht_ok L (htDel L d k)" "ht_map L (htDel L d k) = (ht_map L d)(k := None)"
proof -
  have sh: "ht_shape L d" using assms by (simp add: ht_ok_def)
  note s = ht_shapeD[OF sh]
  have nk: "node_ok (ht_slot L d) (ht_slot L d k) (ht_node L d k)" by (rule s(2)[OF s(1)])
  have "ht_ok L (htDel L d k) \<and> ht_map L (htDel L d k) = (ht_map L d)(k := None)"
  proof (cases "ht_map L d k")
    case None
    then have "htDel L d k = d"
      by (auto simp: htDel_def ht_map_def block_del_None[of k, symmetric] split: DictNode.splits if_splits)
    then show ?thesis using None assms by (simp add: fun_upd_idem)
  next
    case (Some v)
    have "\<exists>n. htDel L d k = (ht_put L d k n)\<lparr>ht_entries := ht_entries d - 1\<rparr> \<and> node_ok (ht_slot L d) (ht_slot L d k) n \<and>
      map_of (node_list n) = (map_of (node_list (ht_node L d k)))(k := None) \<and> Suc (length (node_list n)) = length (node_list (ht_node L d k))"
    proof (cases "ht_node L d k")
      case EmptyNode
      then show ?thesis using Some by (simp add: ht_map_def)
    next
      case (Entry k' v')
      then show ?thesis using Some by (auto simp: ht_map_def htDel_def node_ok_def intro!: exI[of _ EmptyNode] split: if_splits)
    next
      case (Block ps)
      then obtain qs where qs: "block_del k ps = Some qs" using Some block_del_None[of k ps] by (auto simp: ht_map_def)
      have "distinct (map fst ps)" using nk Block by (simp add: node_ok_def)
      note b = block_del_Some[OF qs this]
      let ?n = "case qs of [(k, v)] \<Rightarrow> Entry k v | _ \<Rightarrow> Block qs"
      have l: "node_list ?n = qs" by (auto split: list.splits)
      have "2 \<le> length ps" by (rule block_size[OF assms Block])
      then have "case ?n of Block ps \<Rightarrow> 2 \<le> length ps | _ \<Rightarrow> True" using b by (auto split: list.splits)
      then have "node_ok (ht_slot L d) (ht_slot L d k) ?n" using nk Block b l unfolding node_ok_def by auto
      then show ?thesis using b l qs Block by (intro exI[of _ ?n]) (simp add: htDel_def)
    qed
    then obtain n where n: "htDel L d k = (ht_put L d k n)\<lparr>ht_entries := ht_entries d - 1\<rparr>" "node_ok (ht_slot L d) (ht_slot L d k) n"
      "map_of (node_list n) = (map_of (node_list (ht_node L d k)))(k := None)" "Suc (length (node_list n)) = length (node_list (ht_node L d k))"
      by blast
    show ?thesis using put_node[OF sh n(2,3)] n(1,4) assms by (simp add: ht_ok_def)
  qed
  then show "ht_ok L (htDel L d k)" "ht_map L (htDel L d k) = (ht_map L d)(k := None)" by simp_all
qed


subsection \<open>New and smaller tables\<close>

lemma sizeIndex_loop_spec:
  "j < length xs \<Longrightarrow> n \<le> xs ! j \<Longrightarrow> \<exists>i \<le> j. sizeIndex_loop xs n b = Some (b + i) \<and> n \<le> xs ! i"
proof (induction xs arbitrary: j b)
  case (Cons x xs)
  show ?case
  proof (cases "x < n")
    case True
    then obtain m where m: "j = Suc m" using Cons.prems(2) by (cases j) auto
    then obtain i where "i \<le> m" "sizeIndex_loop xs n (Suc b) = Some (Suc b + i)" "n \<le> xs ! i"
      using Cons.IH[of m "Suc b"] Cons.prems by auto
    then show ?thesis using True m by (intro exI[of _ "Suc i"]) simp
  next
    case False
    then show ?thesis by (intro exI[of _ 0]) simp
  qed
qed simp

lemma init_ht_spec:
  assumes "n \<le> 781460413"
  obtains d where "init_ht n = Some d" "ht_ok L d" "ht_map L d = Map.empty" "n \<le> ht_size d"
proof -
  have "\<exists>i \<le> 45. sizeIndex_loop dictHTSizes n 0 = Some (0 + i) \<and> n \<le> dictHTSizes ! i"
    by (rule sizeIndex_loop_spec) (use assms in \<open>simp_all add: dictHTSizes_def\<close>)
  then obtain i where i: "i \<le> 45" "sizeIndex_loop dictHTSizes n 0 = Some i" "n \<le> dictHTSizes ! i" by auto
  let ?d = "\<lparr>ht_table = [], ht_sizeIndex = i, ht_entries = 0, ht_maxEntries = 0\<rparr>"
  have "ht_sizeIndex ?d < HT_PRIMES_NUM" using i(1) by (simp add: HT_PRIMES_NUM_def)
  note m = mkEmpty_spec(1,2)[OF this, of L] mkEmpty_spec(3)[OF this]
  show ?thesis
  proof (rule that[of "mkEmpty ?d"])
    show "init_ht n = Some (mkEmpty ?d)" using i(2) by (simp add: init_ht_def)
    show "ht_ok L (mkEmpty ?d)" "ht_map L (mkEmpty ?d) = Map.empty" using m by (simp_all add: ht_ok_def mkEmpty_def)
    show "n \<le> ht_size (mkEmpty ?d)" using i(3) by (simp add: mkEmpty_def ht_size_def)
  qed
qed

lemma compact_loop_le: "compact_loop i n \<le> i"
  by (induction i) auto

lemma compactify_spec:
  assumes "ht_ok L d"
  shows "ht_ok L (compactify L d)" "ht_map L (compactify L d) = ht_map L d"
proof -
  have sh: "ht_shape L d" using assms by (simp add: ht_ok_def)
  have "compact_loop (ht_sizeIndex d) n < HT_PRIMES_NUM" for n
    using compact_loop_le[of "ht_sizeIndex d" n] ht_shapeD(3)[OF sh] by simp
  note r = rehash[OF sh this, where e = "ht_entries d"]
  show "ht_ok L (compactify L d)" "ht_map L (compactify L d) = ht_map L d"
    using r assms by (simp_all add: compactify_def Let_def ht_ok_def)
qed

section \<open>What the lists contain\<close>

definition ht_seq :: "'v DictHashTable \<Rightarrow> (feature \<times> 'v) list" where
  "ht_seq d = concat (map node_list (rev (ht_table d)))"

lemma ht_collect_fold: "ht_collect f d acc = fold f (ht_seq d) acc"
proof -
  have "fold (\<lambda>n. fold f (node_list n)) ns acc = fold f (concat (map node_list ns)) acc" for ns
    by (induction ns arbitrary: acc) auto
  then show ?thesis by (simp add: ht_collect_def ht_seq_def)
qed

lemma ht_seq_mset: "mset (ht_seq d) = mset (ht_all d)"
proof -
  have "mset (concat (rev xss)) = mset (concat xss)" for xss :: "'x list list" by (induction xss) auto
  then show ?thesis by (simp add: ht_seq_def flip: rev_map)
qed

lemma ht_lists:
  "getPairs d = rev (ht_seq d)" "getKeys d = map fst (getPairs d)" "getItems d = map snd (getPairs d)"
  "getPairsInArray d = ht_seq d" "ht_collect (\<lambda>p ks. ks @ [fst p]) d [] = map fst (ht_seq d)"
proof -
  have c: "fold (\<lambda>p xs. g p # xs) ps acc = rev (map g ps) @ acc" "fold (\<lambda>p xs. xs @ [g p]) ps acc = acc @ map g ps"
    for g :: "'x \<Rightarrow> 'y" and ps acc by (induction ps arbitrary: acc) auto
  show "getPairs d = rev (ht_seq d)" by (simp add: getPairs_def ht_collect_fold fold_Cons_rev)
  then show "getKeys d = map fst (getPairs d)" "getItems d = map snd (getPairs d)"
    by (simp_all add: getKeys_def getItems_def ht_collect_fold c(1) rev_map)
  show "getPairsInArray d = ht_seq d" by (simp add: getPairsInArray_def ht_collect_fold c(2)[of "\<lambda>p. p"])
  show "ht_collect (\<lambda>p ks. ks @ [fst p]) d [] = map fst (ht_seq d)" by (simp add: ht_collect_fold c(2))
qed

lemma ht_lists_spec:
  assumes "ht_ok L d"
  shows "distinct (getKeys d)" "set (getKeys d) = dom (ht_map L d)" "map_of (getPairs d) = ht_map L d"
    "set (getPairs d) = {(k, v). ht_map L d k = Some v}"
    "length (getPairsInArray d) = nat (ht_entries d)" "mset (getPairsInArray d) = mset (getPairs d)" "verify d"
proof -
  have sh: "ht_shape L d" and e: "ht_entries d = int (ht_length d)" using assms by (simp_all add: ht_ok_def)
  have m: "mset (getPairs d) = mset (ht_all d)" by (simp add: ht_lists(1) ht_seq_mset)
  then have "mset (map fst (getPairs d)) = mset (map fst (ht_all d))" by simp
  then show d: "distinct (getKeys d)" unfolding ht_lists(2) using ht_all_distinct[OF sh] mset_eq_imp_distinct_iff by blast
  have s: "set (getPairs d) = set (ht_all d)" using m by (metis mset_eq_setD)
  show mp: "map_of (getPairs d) = ht_map L d"
    unfolding ht_all_map[OF sh, symmetric] using map_of_inject_set[of "getPairs d" "ht_all d"] d s ht_all_distinct[OF sh]
    by (simp add: ht_lists(2))
  show "set (getKeys d) = dom (ht_map L d)" unfolding mp[symmetric] by (simp add: ht_lists(2) dom_map_of_conv_image_fst)
  show "set (getPairs d) = {(k, v). ht_map L d k = Some v}"
    unfolding mp[symmetric] using d by (auto simp: ht_lists(2))
  have len: "length (ht_seq d) = ht_length d" using ht_seq_mset[of d] by (metis ht_length_all size_mset)
  then show "length (getPairsInArray d) = nat (ht_entries d)" using e by (simp add: ht_lists(4))
  show "mset (getPairsInArray d) = mset (getPairs d)" by (simp add: ht_lists(1,4))
  have "fold (\<lambda>p n. n + 1) ps (a :: int) = a + int (length ps)" for ps :: "(feature \<times> 'a) list" and a
    by (induction ps arbitrary: a) auto
  then show "verify d" using e len by (simp add: verify_def ht_collect_fold)
qed

text \<open>The sorted list of keys, for features the comparison orders.\<close>

lemma featureCmp_self: "featureCmp L a a = 0"
  by (cases a) (simp_all add: featureCmp_def atomcmp_def smallIntCmp_def bigIntCmp_def)

lemma sort_features:
  assumes "feats_ok L (set ks)" "length ks \<le> 2 ^ 31"
  shows "\<exists>y. fastsort (\<lambda>a b. featureCmp L a b < 0) ks (length ks) = Some y \<and> mset y = mset ks \<and>
    sorted_wrt (\<lambda>a b. featureCmp L a b \<le> 0) y"
proof -
  have c: "comparable L a b" if "a \<in> set ks" "b \<in> set ks" for a b using assms(1) that by (simp add: feats_ok_def)
  have sw: "\<not> featureCmp L b a < 0 \<longleftrightarrow> featureCmp L a b \<le> 0" if "a \<in> set ks" "b \<in> set ks" for a b
    using featureCmp_swap[OF c[OF that]] by linarith
  have weak: "featureCmp L a c \<ge> 0" if "a \<in> set ks" "b \<in> set ks" "c \<in> set ks" "featureCmp L a b \<ge> 0" "featureCmp L b c \<ge> 0" for a b c
    using featureCmp_trans[OF c[of c b] c[of b a] c[of c a]] featureCmp_swap[OF c[of a b]] featureCmp_swap[OF c[of b c]]
      featureCmp_swap[OF c[of a c]] featureCmp_zero[OF c[of a b]] featureCmp_zero[OF c[of b c]] that
    by (smt (verit))
  have "\<exists>y. fastsort (\<lambda>a b. featureCmp L a b < 0) ks (length ks) = Some y \<and> mset y = mset ks \<and>
      sorted_wrt (\<lambda>a b. \<not> featureCmp L b a < 0) y"
  proof (rule fastsort_on[OF _ assms(2)])
    show "\<not> featureCmp L a a < 0" for a by (simp add: featureCmp_self)
    show "featureCmp L a b < 0 \<Longrightarrow> featureCmp L b c < 0 \<Longrightarrow> featureCmp L a c < 0"
      if "a \<in> set ks" "b \<in> set ks" "c \<in> set ks" for a b c using featureCmp_trans c that by blast
    show "\<not> featureCmp L a b < 0 \<Longrightarrow> \<not> featureCmp L b c < 0 \<Longrightarrow> \<not> featureCmp L a c < 0"
      if "a \<in> set ks" "b \<in> set ks" "c \<in> set ks" for a b c using weak that by force
  qed
  then obtain y where y: "fastsort (\<lambda>a b. featureCmp L a b < 0) ks (length ks) = Some y" "mset y = mset ks"
    "sorted_wrt (\<lambda>a b. \<not> featureCmp L b a < 0) y" by blast
  have "set y = set ks" using y(2) by (metis mset_eq_setD)
  then have "sorted_wrt (\<lambda>a b. featureCmp L a b \<le> 0) y"
    using y(3) sw by (intro sorted_wrt_mono_rel[OF _ y(3)]) auto
  then show ?thesis using y by blast
qed

end
