(* ===== verification/FeatureLists.thy ===== *)
theory FeatureLists
  imports DictTable
begin

text \<open>
  Lists of features as arities: \<^verbatim>\<open>insert\<close>, \<^verbatim>\<open>insertlist\<close>, \<^verbatim>\<open>isSorted\<close>, \<^verbatim>\<open>sortlist\<close>, \<^verbatim>\<open>merge\<close> and \<^verbatim>\<open>listequal\<close> of
  \<^verbatim>\<open>platform/emulator/value.cc\<close>. The functions get the comparison as an argument; the code uses
  \<^const>\<open>featureCmp\<close>. What they rely on is stated as a locale: the comparison is a total order on the
  features at hand.
\<close>

section \<open>The functions\<close>

fun listequal :: "feature list \<Rightarrow> feature list \<Rightarrow> bool" where
  "listequal [] bs \<longleftrightarrow> bs = []"
| "listequal (a # as) [] \<longleftrightarrow> False"
| "listequal (a # as) (b # bs) \<longleftrightarrow> featureEq a b \<and> listequal as bs"

fun insert_f :: "('k \<Rightarrow> 'k \<Rightarrow> int) \<Rightarrow> 'k \<Rightarrow> 'k list \<Rightarrow> 'k list" where
  "insert_f cmp a [] = [a]"
| "insert_f cmp a (b # bs) =
     (if cmp a b = 0 then b # bs else if cmp a b < 0 then a # b # bs else b # insert_f cmp a bs)"

definition insertlist :: "('k \<Rightarrow> 'k \<Rightarrow> int) \<Rightarrow> 'k list \<Rightarrow> 'k list \<Rightarrow> 'k list" where
  "insertlist cmp ins old = fold (insert_f cmp) ins old"

fun isSorted_f :: "('k \<Rightarrow> 'k \<Rightarrow> int) \<Rightarrow> 'k list \<Rightarrow> bool" where
  "isSorted_f cmp (a # b # bs) = (if cmp a b \<ge> 0 then False else isSorted_f cmp (b # bs))"
| "isSorted_f cmp _ = True"

text \<open>
  The loop of \<^verbatim>\<open>sortlist\<close> that removes duplicates keeps an element of the sorted array that differs
  from the one before it. The caller has dealt with the empty list, for which there is no cell to write to.
\<close>

fun dedup :: "feature \<Rightarrow> feature list \<Rightarrow> feature list" where
  "dedup p [] = []"
| "dedup p (a # as) = (if \<not> featureEq p a then a # dedup a as else dedup a as)"

definition sortlist :: "literals \<Rightarrow> feature list \<Rightarrow> feature list option" where
  "sortlist L ks =
     (case fastsort (\<lambda>a b. featureCmp L a b < 0) ks (length ks) of
        Some (a # as) \<Rightarrow> Some (a # dedup a as)
      | _ \<Rightarrow> None)"

fun merge_f :: "('k \<Rightarrow> 'k \<Rightarrow> int) \<Rightarrow> 'k list \<Rightarrow> 'k list \<Rightarrow> 'k list" where
  "merge_f cmp [] bs = bs"
| "merge_f cmp (a # as) [] = a # as"
| "merge_f cmp (a # as) (b # bs) =
     (if cmp a b = 0 then a # merge_f cmp as bs
      else if cmp a b < 0 then a # merge_f cmp as (b # bs)
      else b # merge_f cmp (a # as) bs)"

definition makeTupleArityList :: "nat \<Rightarrow> feature list" where
  "makeTupleArityList w = map (\<lambda>i. SmallInt (int i)) [1..<Suc w]"

section \<open>Comparisons that are total orders\<close>

locale key_order =
  fixes cmp :: "'k \<Rightarrow> 'k \<Rightarrow> int" and C :: "'k set"
  assumes cmp_zero: "a \<in> C \<Longrightarrow> b \<in> C \<Longrightarrow> cmp a b = 0 \<longleftrightarrow> a = b"
    and cmp_swap: "a \<in> C \<Longrightarrow> b \<in> C \<Longrightarrow> cmp b a < 0 \<longleftrightarrow> 0 < cmp a b"
    and cmp_trans: "a \<in> C \<Longrightarrow> b \<in> C \<Longrightarrow> c \<in> C \<Longrightarrow> cmp a b < 0 \<Longrightarrow> cmp b c < 0 \<Longrightarrow> cmp a c < 0"
begin

definition ascending :: "'k list \<Rightarrow> bool" where
  "ascending ks \<longleftrightarrow> sorted_wrt (\<lambda>a b. cmp a b < 0) ks"

lemma ascending_Cons: "ascending (a # ks) \<longleftrightarrow> (\<forall>b \<in> set ks. cmp a b < 0) \<and> ascending ks"
  by (simp add: ascending_def)

lemma ascending_distinct: "set ks \<subseteq> C \<Longrightarrow> ascending ks \<Longrightarrow> distinct ks"
proof (induction ks)
  case (Cons a ks)
  then show ?case using cmp_zero[of a a] by (auto simp: ascending_Cons)
qed simp

lemma isSorted_iff: "set ks \<subseteq> C \<Longrightarrow> isSorted_f cmp ks \<longleftrightarrow> ascending ks"
proof (induction ks)
  case (Cons a ks)
  show ?case
  proof (cases ks)
    case (Cons b bs)
    have c: "a \<in> C" "b \<in> C" "set bs \<subseteq> C" using Cons.prems Cons by auto
    have "cmp a b < 0 \<Longrightarrow> cmp b x < 0 \<Longrightarrow> x \<in> set bs \<Longrightarrow> cmp a x < 0" for x
      using cmp_trans[OF c(1,2)] c(3) by blast
    then show ?thesis using Cons.IH Cons.prems Cons by (auto simp: ascending_Cons)
  qed (simp add: ascending_def)
qed (simp add: ascending_def)

lemma insert_set: "a \<in> C \<Longrightarrow> set ks \<subseteq> C \<Longrightarrow> set (insert_f cmp a ks) = insert a (set ks)"
  by (induction ks) (use cmp_zero in auto)

lemma insert_ascending: "a \<in> C \<Longrightarrow> set ks \<subseteq> C \<Longrightarrow> ascending ks \<Longrightarrow> ascending (insert_f cmp a ks)"
proof (induction ks)
  case (Cons b ks)
  have b: "b \<in> C" "set ks \<subseteq> C" "\<forall>c \<in> set ks. cmp b c < 0" "ascending ks" using Cons.prems by (auto simp: ascending_Cons)
  consider "cmp a b = 0" | "cmp a b < 0" | "0 < cmp a b" by linarith
  then show ?case
  proof cases
    case 2
    then show ?thesis using b cmp_trans[OF Cons.prems(1) b(1)] by (auto simp: ascending_Cons)
  next
    case 3
    then have "cmp b a < 0" using cmp_swap[OF Cons.prems(1) b(1)] by simp
    then show ?thesis using 3 b Cons insert_set[OF Cons.prems(1) b(2)] by (auto simp: ascending_Cons)
  qed (use Cons.prems in simp)
qed (simp add: ascending_def)

lemma insertlist_spec:
  "set ins \<subseteq> C \<Longrightarrow> set old \<subseteq> C \<Longrightarrow> ascending old \<Longrightarrow>
   ascending (insertlist cmp ins old) \<and> set (insertlist cmp ins old) = set ins \<union> set old"
proof (induction ins arbitrary: old)
  case (Cons a ins)
  then show ?case using Cons.IH[of "insert_f cmp a old"] insert_set[of a old] insert_ascending[of a old]
    by (auto simp: insertlist_def)
qed (simp add: insertlist_def)

lemma merge_set: "set as \<subseteq> C \<Longrightarrow> set bs \<subseteq> C \<Longrightarrow> set (merge_f cmp as bs) = set as \<union> set bs"
proof (induction "length as + length bs" arbitrary: as bs rule: less_induct)
  case less
  show ?case
  proof (cases as; cases bs)
    fix a as' b bs' assume c: "as = a # as'" "bs = b # bs'"
    have "set (merge_f cmp as' bs') = set as' \<union> set bs'" "set (merge_f cmp as' bs) = set as' \<union> set bs"
      "set (merge_f cmp as bs') = set as \<union> set bs'"
      using less.hyps[of as' bs'] less.hyps[of as' bs] less.hyps[of as bs'] less.prems c by auto
    then show ?thesis using c cmp_zero[of a b] less.prems by auto
  qed auto
qed

lemma merge_ascending:
  "set as \<subseteq> C \<Longrightarrow> set bs \<subseteq> C \<Longrightarrow> ascending as \<Longrightarrow> ascending bs \<Longrightarrow> ascending (merge_f cmp as bs)"
proof (induction "length as + length bs" arbitrary: as bs rule: less_induct)
  case less
  show ?case
  proof (cases as; cases bs)
    fix a as' b bs' assume c: "as = a # as'" "bs = b # bs'"
    have a: "a \<in> C" "set as' \<subseteq> C" "\<forall>x \<in> set as'. cmp a x < 0" "ascending as'" using less.prems c by (auto simp: ascending_Cons)
    have b: "b \<in> C" "set bs' \<subseteq> C" "\<forall>x \<in> set bs'. cmp b x < 0" "ascending bs'" using less.prems c by (auto simp: ascending_Cons)
    have IH: "ascending (merge_f cmp as' bs')" "ascending (merge_f cmp as' bs)" "ascending (merge_f cmp as bs')"
      using less.hyps[of as' bs'] less.hyps[of as' bs] less.hyps[of as bs'] less.prems c a b by auto
    note sets = merge_set[OF a(2) b(2)] merge_set[OF a(2) less.prems(2)] merge_set[OF less.prems(1) b(2)]
    consider "cmp a b = 0" | "cmp a b < 0" | "0 < cmp a b" by linarith
    then show ?thesis
    proof cases
      case 1
      then have "a = b" using cmp_zero[OF a(1) b(1)] by simp
      then show ?thesis using 1 a(3) b(3) IH(1) sets(1) by (auto simp: ascending_Cons c)
    next
      case 2
      have "\<forall>x \<in> set bs'. cmp a x < 0" using cmp_trans[OF a(1) b(1) _ 2] b(2,3) by blast
      then show ?thesis using 2 a(3) IH(2) sets(2) by (auto simp: ascending_Cons c)
    next
      case 3
      have ba: "cmp b a < 0" using 3 cmp_swap[OF a(1) b(1)] by simp
      have "\<forall>x \<in> set as'. cmp b x < 0" using cmp_trans[OF b(1) a(1) _ ba] a(2,3) by blast
      then show ?thesis using 3 ba b(3) IH(3) sets(3) by (auto simp: ascending_Cons c)
    qed
  qed (use less.prems in auto)
qed

text \<open>A list is determined by its elements.\<close>

lemma ascending_unique: "set as \<subseteq> C \<Longrightarrow> ascending as \<Longrightarrow> ascending bs \<Longrightarrow> set as = set bs \<Longrightarrow> as = bs"
proof (induction as arbitrary: bs)
  case (Cons a as)
  then obtain b bs' where bs: "bs = b # bs'" by (cases bs) auto
  have C: "a \<in> C" "b \<in> C" using Cons.prems bs by auto
  have ord: "\<forall>x \<in> set as. cmp a x < 0" "\<forall>x \<in> set bs'. cmp b x < 0" "ascending as" "ascending bs'"
    using Cons.prems(2,3) bs by (auto simp: ascending_Cons)
  have eq: "insert a (set as) = insert b (set bs')" using Cons.prems(4) bs by simp
  have ab: "a = b"
  proof (rule ccontr)
    assume "a \<noteq> b"
    moreover have "a \<in> insert b (set bs')" unfolding eq[symmetric] by simp
    moreover have "b \<in> insert a (set as)" unfolding eq by simp
    ultimately have "a \<in> set bs'" "b \<in> set as" by simp_all
    then have "cmp b a < 0" "cmp a b < 0" using ord by blast+
    then show False using cmp_swap[OF C] by simp
  qed
  have "a \<notin> set as" "b \<notin> set bs'" using ord cmp_zero[OF C(1) C(1)] cmp_zero[OF C(2) C(2)] by auto
  then have "set as = set bs'" using eq ab by (simp add: insert_ident)
  moreover have "set as \<subseteq> C" using Cons.prems(1) by simp
  ultimately have "as = bs'" using Cons.IH ord(3,4) by blast
  then show ?case using ab bs by simp
qed simp

lemma ascending_distinct_sorted:
  "set ks \<subseteq> C \<Longrightarrow> distinct ks \<Longrightarrow> sorted_wrt (\<lambda>a b. cmp a b \<le> 0) ks \<Longrightarrow> ascending ks"
proof (induction ks)
  case (Cons a ks)
  have "cmp a x < 0" if "x \<in> set ks" for x using Cons.prems that cmp_zero[of a x] by fastforce
  then show ?case using Cons by (auto simp: ascending_Cons)
qed (simp add: ascending_def)

end

section \<open>The order of features\<close>

text \<open>The features that the interpretation is about: a set whose features can be compared.\<close>

definition cmp_carrier :: "literals \<Rightarrow> feature set \<Rightarrow> feature set" where
  "cmp_carrier L F = (if feats_ok L F then F else {})"

lemma cmp_carrier_ok: "feats_ok L F \<Longrightarrow> cmp_carrier L F = F"
  by (simp add: cmp_carrier_def)

lemma cmp_carrierD: "a \<in> cmp_carrier L F \<Longrightarrow> b \<in> cmp_carrier L F \<Longrightarrow> comparable L a b"
  by (auto simp: cmp_carrier_def feats_ok_def split: if_splits)

interpretation fo: key_order "featureCmp L" "cmp_carrier L F" for L F
proof
  show "featureCmp L a b = 0 \<longleftrightarrow> a = b" if "a \<in> cmp_carrier L F" "b \<in> cmp_carrier L F" for a b
    using featureCmp_zero cmp_carrierD that by blast
  show "featureCmp L b a < 0 \<longleftrightarrow> 0 < featureCmp L a b" if "a \<in> cmp_carrier L F" "b \<in> cmp_carrier L F" for a b
    using featureCmp_swap cmp_carrierD that by blast
  show "featureCmp L a c < 0"
    if "a \<in> cmp_carrier L F" "b \<in> cmp_carrier L F" "c \<in> cmp_carrier L F" "featureCmp L a b < 0" "featureCmp L b c < 0" for a b c
    using featureCmp_trans cmp_carrierD that by blast
qed

text \<open>Sorted lists of features without duplicates, the representation of an arity.\<close>

definition arity_list :: "literals \<Rightarrow> feature list \<Rightarrow> bool" where
  "arity_list L ks \<longleftrightarrow> sorted_wrt (\<lambda>a b. featureCmp L a b < 0) ks"

lemma ascending_arity_list: "key_order.ascending (featureCmp L) ks = arity_list L ks"
  by (simp add: fo.ascending_def arity_list_def)

lemmas carried = cmp_carrier_ok ascending_arity_list

lemma feats_insert:
  assumes "feats_ok L F" "a \<in> F" "set ks \<subseteq> F"
  shows "set (insert_f (featureCmp L) a ks) = insert a (set ks)"
    "arity_list L ks \<Longrightarrow> arity_list L (insert_f (featureCmp L) a ks)"
  using fo.insert_set[of a L F ks] fo.insert_ascending[of a L F ks] assms by (simp_all add: carried)

lemma feats_insertlist:
  assumes "feats_ok L F" "set ins \<subseteq> F" "set ks \<subseteq> F" "arity_list L ks"
  shows "set (insertlist (featureCmp L) ins ks) = set ins \<union> set ks" "arity_list L (insertlist (featureCmp L) ins ks)"
  using fo.insertlist_spec[of ins L F ks] assms by (simp_all add: carried)

lemma feats_merge:
  assumes "feats_ok L F" "set as \<subseteq> F" "set bs \<subseteq> F"
  shows "set (merge_f (featureCmp L) as bs) = set as \<union> set bs"
    "arity_list L as \<Longrightarrow> arity_list L bs \<Longrightarrow> arity_list L (merge_f (featureCmp L) as bs)"
  using fo.merge_set[of as L F bs] fo.merge_ascending[of as L F bs] assms by (simp_all add: carried)

lemma arity_list_unique:
  "feats_ok L (set as) \<Longrightarrow> arity_list L as \<Longrightarrow> arity_list L bs \<Longrightarrow> set as = set bs \<Longrightarrow> as = bs"
  using fo.ascending_unique[of as L "set as" bs] by (simp add: carried)

lemma arity_list_distinct: "arity_list L ks \<Longrightarrow> distinct ks"
  unfolding arity_list_def by (induction ks) (auto simp: featureCmp_self)

lemma feats_sorted: "feats_ok L (set ks) \<Longrightarrow> isSorted_f (featureCmp L) ks \<longleftrightarrow> arity_list L ks"
  using fo.isSorted_iff[of ks L "set ks"] by (simp add: carried)

lemma sorted_arity_list:
  "feats_ok L (set ks) \<Longrightarrow> distinct ks \<Longrightarrow> sorted_wrt (\<lambda>a b. featureCmp L a b \<le> 0) ks \<Longrightarrow> arity_list L ks"
  using fo.ascending_distinct_sorted[of ks L "set ks"] by (simp add: carried)

subsection \<open>Sorting without duplicates\<close>

lemma dedup_set: "insert p (set (dedup p as)) = insert p (set as)"
  by (induction p as rule: dedup.induct) auto

lemma dedup_arity_list:
  assumes "feats_ok L (set (p # as))" "sorted_wrt (\<lambda>a b. featureCmp L a b \<le> 0) (p # as)"
  shows "arity_list L (p # dedup p as)"
  using assms
proof (induction p as rule: dedup.induct)
  case (2 p a as)
  have ok: "feats_ok L (set (a # as))" by (rule feats_ok_mono[OF 2(3)]) auto
  have IH: "arity_list L (a # dedup a as)" using 2(1,2)[OF _ ok] 2(4) by (cases "p = a") auto
  show ?case
  proof (cases "p = a")
    case False
    have C: "comparable L p a" "comparable L a x" "comparable L p x" if "x \<in> set (a # as)" for x
      using 2(3) that unfolding feats_ok_def by auto
    have le: "featureCmp L p x \<le> 0" if "x \<in> set (a # as)" for x using 2(4) that by auto
    have pa: "featureCmp L p a < 0" using le[of a] featureCmp_zero[OF C(1)[of a]] False by simp
    have "featureCmp L p x < 0" if "x \<in> set (dedup a as)" for x
    proof -
      have x: "x \<in> set (a # as)" using that dedup_set[of a as] by auto
      have "featureCmp L a x < 0" using IH that by (simp add: arity_list_def)
      then show ?thesis using featureCmp_trans[OF C(1)[OF x] C(2)[OF x] C(3)[OF x] pa] by simp
    qed
    then show ?thesis using False IH pa by (simp add: arity_list_def)
  qed (use IH in simp)
qed (simp add: arity_list_def)

lemma sortlist_spec:
  assumes "feats_ok L (set ks)" "length ks \<le> 2 ^ 31" "ks \<noteq> []"
  shows "\<exists>y. sortlist L ks = Some y \<and> set y = set ks \<and> arity_list L y"
proof -
  obtain y where y: "fastsort (\<lambda>a b. featureCmp L a b < 0) ks (length ks) = Some y" "mset y = mset ks"
    "sorted_wrt (\<lambda>a b. featureCmp L a b \<le> 0) y" using sort_features[OF assms(1,2)] by blast
  have "y \<noteq> []" using y(2) assms(3) by auto
  then obtain a as where a: "y = a # as" by (cases y) auto
  have s: "set y = set ks" using y(2) by (metis mset_eq_setD)
  have "arity_list L (a # dedup a as)" by (rule dedup_arity_list) (use s a y(3) assms(1) in auto)
  then show ?thesis using y(1) a s dedup_set[of a as] by (auto simp: sortlist_def)
qed

lemma makeTupleArityList_nth: "i < w \<Longrightarrow> makeTupleArityList w ! i = SmallInt (int i + 1)"
  by (simp add: makeTupleArityList_def del: upt_Suc)

lemma makeTupleArityList_simps [simp]:
  "length (makeTupleArityList w) = w" "set (makeTupleArityList w) = SmallInt ` {1..int w}" "distinct (makeTupleArityList w)"
proof -
  have "int ` {1..<Suc w} = {1..int w}" using image_int_atLeastLessThan[of 1 "Suc w"] by auto
  then show "set (makeTupleArityList w) = SmallInt ` {1..int w}" by (simp add: makeTupleArityList_def del: upt_Suc) (metis image_image)
qed (simp_all add: makeTupleArityList_def distinct_map inj_on_def del: upt_Suc)

end
