(* ===== verification/Arity.thy ===== *)
theory Arity
  imports FeatureLists
begin

unbundle bit_operations_syntax

text \<open>
  Arities and the arity table: \<^verbatim>\<open>class Arity\<close> and \<^verbatim>\<open>class ArityTable\<close> of \<^verbatim>\<open>platform/emulator/value.hh\<close> and
  \<^verbatim>\<open>value.cc\<close>. An arity is a sorted list of features with a closed hash table that assigns to each
  feature its index; the arity table keeps one arity for each list. A pointer to an arity
  is its slot in the table with its position in the chain of the slot, since arities are only
  added at the end of a chain.

  A loop over the slots of a hash table ends when it meets a free slot: it is a partial function, and
  the theorems show that it returns because the step is odd, the number of slots a power of two,
  and one slot is free.
\<close>

section \<open>Arities\<close>

text \<open>The loop doubles \<open>i\<close>, which starts with 2 and is never 0.\<close>

function nextPowerOf2_loop :: "nat \<Rightarrow> nat \<Rightarrow> nat" where
  "nextPowerOf2_loop n i = (if n \<le> i \<or> i = 0 then i else nextPowerOf2_loop n (i * 2))"
  by pat_completeness auto
termination by (relation "measure (\<lambda>(n, i). n - i)") auto

declare nextPowerOf2_loop.simps [simp del]

definition nextPowerOf2 :: "nat \<Rightarrow> nat" where
  "nextPowerOf2 n = nextPowerOf2_loop n 2"

record Arity =
  ar_list :: "feature list"
  ar_hashmask :: nat
  ar_width :: nat
  ar_table :: "(feature \<times> nat) option list"

definition scndhash :: "nat \<Rightarrow> nat" where
  "scndhash i = push_bit 1 (i AND 7) OR 1"

definition ar_hashfold :: "Arity \<Rightarrow> nat \<Rightarrow> nat" where
  "ar_hashfold ar i = i AND ar_hashmask ar"

definition isTuple_ar :: "Arity \<Rightarrow> bool" where
  "isTuple_ar ar \<longleftrightarrow> ar_hashmask ar = 0"

definition getSize_ar :: "Arity \<Rightarrow> nat" where
  "getSize_ar ar = ar_hashmask ar + 1"

partial_function (option) free_slot :: "Arity \<Rightarrow> nat \<Rightarrow> nat \<Rightarrow> nat option" where
  "free_slot ar step i =
     (if ar_table ar ! i = None then Some i else free_slot ar step (ar_hashfold ar (i + step)))"

definition arity_insert :: "literals \<Rightarrow> feature \<Rightarrow> nat \<Rightarrow> Arity \<Rightarrow> Arity option" where
  "arity_insert L entry j ar =
     (let hsh = featureHash L entry
      in map_option (\<lambda>i. ar\<lparr>ar_table := (ar_table ar)[i := Some (entry, j)]\<rparr>)
           (free_slot ar (scndhash hsh) (ar_hashfold ar hsh)))"

fun arity_fill :: "literals \<Rightarrow> feature list \<Rightarrow> nat \<Rightarrow> Arity \<Rightarrow> Arity option" where
  "arity_fill L [] j ar = Some ar"
| "arity_fill L (entry # entries) j ar = Option.bind (arity_insert L entry j ar) (arity_fill L entries (Suc j))"

definition newArity :: "literals \<Rightarrow> feature list \<Rightarrow> bool \<Rightarrow> Arity option" where
  "newArity L entrylist itf =
     (let w = length entrylist
      in if itf then Some \<lparr>ar_list = entrylist, ar_hashmask = 0, ar_width = w, ar_table = []\<rparr>
         else
           (let sz = nextPowerOf2 (3 * w div 2)
            in arity_fill L entrylist 0
                 \<lparr>ar_list = entrylist, ar_hashmask = sz - 1, ar_width = w, ar_table = replicate sz None\<rparr>))"

text \<open>The result is the index, or -1.\<close>

partial_function (option) lookup_loop :: "Arity \<Rightarrow> feature \<Rightarrow> nat \<Rightarrow> nat \<Rightarrow> int option" where
  "lookup_loop ar entry step i =
     (case ar_table ar ! i of
        None \<Rightarrow> Some (-1)
      | Some (key, index) \<Rightarrow>
          if featureEq key entry then Some (int index)
          else lookup_loop ar entry step (ar_hashfold ar (i + step)))"

definition lookupLiteralInternal :: "literals \<Rightarrow> Arity \<Rightarrow> addr \<Rightarrow> int option" where
  "lookupLiteralInternal L ar p =
     (let hsh = literal_hash L p in lookup_loop ar (Literal p) (scndhash hsh) (ar_hashfold ar hsh))"

definition lookupSmallIntInternal :: "Arity \<Rightarrow> int \<Rightarrow> int option" where
  "lookupSmallIntInternal ar n =
     (let hsh = smallIntHash n in lookup_loop ar (SmallInt n) (scndhash hsh) (ar_hashfold ar hsh))"

definition lookupBigIntInternal :: "literals \<Rightarrow> Arity \<Rightarrow> int \<Rightarrow> int option" where
  "lookupBigIntInternal L ar n =
     (let hsh = featureHash L (BigInt n) in lookup_loop ar (BigInt n) (scndhash hsh) (ar_hashfold ar hsh))"

definition lookupInternal :: "literals \<Rightarrow> Arity \<Rightarrow> feature \<Rightarrow> int option" where
  "lookupInternal L ar entry =
     (case entry of
        SmallInt n \<Rightarrow> lookupSmallIntInternal ar n
      | Literal p \<Rightarrow> lookupLiteralInternal L ar p
      | BigInt n \<Rightarrow> lookupBigIntInternal L ar n)"

section \<open>The arity table\<close>

record ArityTable =
  at_table :: "Arity list list"
  at_hashmask :: nat

type_synonym aptr = "nat \<times> nat"

definition getArity_at :: "ArityTable \<Rightarrow> aptr \<Rightarrow> Arity" where
  "getArity_at T p = at_table T ! fst p ! snd p"

definition newArityTable :: "nat \<Rightarrow> ArityTable" where
  "newArityTable n = (let sz = nextPowerOf2 n in \<lparr>at_table = replicate sz [], at_hashmask = sz - 1\<rparr>)"

text \<open>The sum of the hash values is a 32-bit number; \<open>len\<close> is -1 as soon as the features are not 1, 2, 3 and so on.\<close>

fun hashvalue_loop :: "literals \<Rightarrow> feature list \<Rightarrow> int32 \<Rightarrow> int \<Rightarrow> int32 \<times> int" where
  "hashvalue_loop L [] i len = (i, len)"
| "hashvalue_loop L (it # list) i len =
     hashvalue_loop L list (i + of_nat (featureHash L it))
       (if len \<ge> 0 \<and> it = SmallInt (len + 1) then len + 1 else -1)"

definition hashvalue :: "literals \<Rightarrow> ArityTable \<Rightarrow> feature list \<Rightarrow> nat \<times> bool" where
  "hashvalue L T list =
     (let (i, len) = hashvalue_loop L list 0 0 in (unat (i AND of_nat (at_hashmask T)), \<not> len < 0))"

fun chain_find :: "Arity list \<Rightarrow> feature list \<Rightarrow> nat option" where
  "chain_find [] list = None"
| "chain_find (c # cs) list = (if listequal (ar_list c) list then Some 0 else map_option Suc (chain_find cs list))"

definition find_at :: "literals \<Rightarrow> ArityTable \<Rightarrow> feature list \<Rightarrow> (ArityTable \<times> aptr) option" where
  "find_at L T list =
     (let (hsh, isTuple) = hashvalue L T list; chain = at_table T ! hsh
      in case chain_find chain list of
           Some n \<Rightarrow> Some (T, (hsh, n))
         | None \<Rightarrow>
             map_option (\<lambda>ret. (T\<lparr>at_table := (at_table T)[hsh := chain @ [ret]]\<rparr>, (hsh, length chain)))
               (newArity L list isTuple))"

section \<open>Probing\<close>

lemma nextPowerOf2_loop_spec:
  "i = 2 ^ k \<Longrightarrow> \<exists>m \<ge> k. nextPowerOf2_loop n i = 2 ^ m \<and> n \<le> 2 ^ m \<and> (m = k \<or> 2 ^ m < 2 * n)"
proof (induction n i arbitrary: k rule: nextPowerOf2_loop.induct)
  case (1 n i)
  show ?case
  proof (cases "n \<le> i")
    case False
    moreover have "i \<noteq> 0" using 1(2) by simp
    ultimately obtain m where m: "m \<ge> Suc k" "nextPowerOf2_loop n (i * 2) = 2 ^ m" "n \<le> 2 ^ m" "m = Suc k \<or> 2 ^ m < 2 * n"
      using 1(1)[of "Suc k"] 1(2) by auto
    have "nextPowerOf2_loop n i = nextPowerOf2_loop n (i * 2)"
      using False \<open>i \<noteq> 0\<close> by (simp add: nextPowerOf2_loop.simps[of n i])
    moreover have "2 ^ m < 2 * n" using m(4) False 1(2) by auto
    ultimately show ?thesis using m by (intro exI[of _ m]) auto
  next
    case True
    then have "nextPowerOf2_loop n i = 2 ^ k" using 1(2) by (simp add: nextPowerOf2_loop.simps[of n "2 ^ k"])
    then show ?thesis using True 1(2) by auto
  qed
qed

lemma nextPowerOf2_spec: "\<exists>m \<ge> 1. nextPowerOf2 n = 2 ^ m \<and> n \<le> 2 ^ m \<and> (m = 1 \<or> 2 ^ m < 2 * n)"
  unfolding nextPowerOf2_def using nextPowerOf2_loop_spec[of 2 1] by simp

lemma and_mask: "i AND (2 ^ k - Suc 0) = i mod 2 ^ k" for i :: nat
  using take_bit_eq_mask[of k i] take_bit_eq_mod[of k i] by (simp add: mask_eq_exp_minus_1)

lemma odd_scndhash: "odd (scndhash i)"
  by (simp add: scndhash_def even_or_iff)

lemma odd_step_covers:
  assumes "odd s" "i < 2 ^ k"
  shows "\<exists>t < 2 ^ k. (h + t * s) mod 2 ^ k = (i :: nat)"
proof -
  let ?f = "\<lambda>t. (h + t * s) mod 2 ^ k"
  have "coprime (2 ^ k) (int s)" using assms(1) by simp
  have "inj_on ?f {..<2 ^ k}"
  proof (rule inj_onI)
    fix t u assume t: "t \<in> {..<2 ^ k :: nat}" "u \<in> {..<2 ^ k}" "?f t = ?f u"
    have "int (h + t * s) mod 2 ^ k = int (h + u * s) mod 2 ^ k" using t(3) by (metis of_nat_mod of_nat_numeral of_nat_power)
    then have "2 ^ k dvd (int t - int u) * int s" by (simp add: mod_eq_dvd_iff algebra_simps)
    then have "2 ^ k dvd int t - int u" using coprime_dvd_mult_left_iff[OF \<open>coprime (2 ^ k) (int s)\<close>] by blast
    then have "int t mod 2 ^ k = int u mod 2 ^ k" by (simp add: mod_eq_dvd_iff)
    moreover have "int t < 2 ^ k" "int u < 2 ^ k" using t(1,2) by (simp_all add: zless_nat_eq_int_zless flip: of_nat_less_iff)
    ultimately show "t = u" by simp
  qed
  moreover have "?f ` {..<2 ^ k} \<subseteq> {..<2 ^ k}" by auto
  ultimately have "?f ` {..<2 ^ k} = {..<2 ^ k}" by (intro endo_inj_surj) auto
  then have "i \<in> ?f ` {..<2 ^ k}" using assms(2) by simp
  then show ?thesis by auto
qed

text \<open>The slot that a feature tries in step \<open>t\<close>.\<close>

definition ar_probe :: "literals \<Rightarrow> Arity \<Rightarrow> feature \<Rightarrow> nat \<Rightarrow> nat" where
  "ar_probe L ar f t = (featureHash L f + t * scndhash (featureHash L f)) mod getSize_ar ar"

definition ar_shape :: "Arity \<Rightarrow> bool" where
  "ar_shape ar \<longleftrightarrow> (\<exists>k. 1 \<le> k \<and> getSize_ar ar = 2 ^ k) \<and> length (ar_table ar) = getSize_ar ar"

lemma ar_shape_fold: "ar_shape ar \<Longrightarrow> ar_hashfold ar i = i mod getSize_ar ar"
proof -
  assume "ar_shape ar"
  then obtain k where k: "ar_hashmask ar + 1 = 2 ^ k" by (auto simp: ar_shape_def getSize_ar_def)
  then have "ar_hashmask ar = 2 ^ k - Suc 0" by simp
  then show ?thesis using and_mask[of i k] k by (simp add: ar_hashfold_def getSize_ar_def)
qed

lemma ar_probe_lt: "ar_shape ar \<Longrightarrow> ar_probe L ar f t < length (ar_table ar)"
  by (auto simp: ar_shape_def ar_probe_def)

lemma ar_probe_0: "ar_shape ar \<Longrightarrow> ar_hashfold ar (featureHash L f) = ar_probe L ar f 0"
  by (simp add: ar_shape_fold ar_probe_def)

lemma ar_probe_Suc:
  "ar_shape ar \<Longrightarrow> ar_hashfold ar (ar_probe L ar f t + scndhash (featureHash L f)) = ar_probe L ar f (Suc t)"
  by (simp add: ar_shape_fold ar_probe_def mod_simps algebra_simps)

lemma ar_probe_covers:
  assumes "ar_shape ar" "i < length (ar_table ar)"
  shows "\<exists>t. ar_probe L ar f t = i"
proof -
  obtain k where k: "getSize_ar ar = 2 ^ k" using assms(1) by (auto simp: ar_shape_def)
  then have "i < 2 ^ k" using assms by (simp add: ar_shape_def)
  then show ?thesis
    using odd_step_covers[OF odd_scndhash, of i k "featureHash L f" "featureHash L f"] k by (auto simp: ar_probe_def)
qed

text \<open>Both loops, started at step \<open>t\<close> of a feature, reach step \<open>n\<close> when the slots before do not stop them.\<close>

lemma free_slot_steps:
  assumes "ar_shape ar" "\<forall>u. t \<le> u \<and> u < t + n \<longrightarrow> ar_table ar ! ar_probe L ar f u \<noteq> None"
    "ar_table ar ! ar_probe L ar f (t + n) = None"
  shows "free_slot ar (scndhash (featureHash L f)) (ar_probe L ar f t) = Some (ar_probe L ar f (t + n))"
  using assms(2,3)
proof (induction n arbitrary: t)
  case (Suc n)
  have "\<exists>x. ar_table ar ! ar_probe L ar f t = Some x" using Suc.prems(1) by simp
  then obtain x where "ar_table ar ! ar_probe L ar f t = Some x" ..
  then show ?case using Suc.IH[of "Suc t"] Suc.prems ar_probe_Suc[OF assms(1)]
    by (simp add: free_slot.simps[of ar _ "ar_probe L ar f t"])
qed (simp add: free_slot.simps)

lemma lookup_loop_steps:
  assumes "ar_shape ar" "\<forall>u. t \<le> u \<and> u < t + n \<longrightarrow> (\<exists>g j. ar_table ar ! ar_probe L ar f u = Some (g, j) \<and> g \<noteq> f)"
  shows "lookup_loop ar f (scndhash (featureHash L f)) (ar_probe L ar f t) =
         lookup_loop ar f (scndhash (featureHash L f)) (ar_probe L ar f (t + n))"
  using assms(2)
proof (induction n arbitrary: t)
  case (Suc n)
  obtain g j where "ar_table ar ! ar_probe L ar f t = Some (g, j)" "g \<noteq> f" using Suc.prems by fastforce
  then show ?case using Suc.IH[of "Suc t"] Suc.prems ar_probe_Suc[OF assms(1)] by (simp add: lookup_loop.simps[of ar f _ "ar_probe L ar f t"])
qed simp

lemma lookupInternal_loop:
  "lookupInternal L ar f =
     (let hsh = featureHash L f in lookup_loop ar f (scndhash hsh) (ar_hashfold ar hsh))"
  by (cases f) (simp_all add: lookupInternal_def lookupLiteralInternal_def lookupSmallIntInternal_def
      lookupBigIntInternal_def featureHash_def)

section \<open>The index of a feature\<close>

text \<open>
  The table after the features \<open>ks\<close> are inserted: every feature is on its probe sequence
  with no free slot before it, every entry has its index, and there are as many entries as features.
\<close>

definition arity_ok :: "literals \<Rightarrow> feature list \<Rightarrow> Arity \<Rightarrow> bool" where
  "arity_ok L ks ar \<longleftrightarrow> ar_shape ar \<and> distinct ks \<and> length ks < getSize_ar ar \<and>
     (\<forall>i f j. i < length (ar_table ar) \<and> ar_table ar ! i = Some (f, j) \<longrightarrow> j < length ks \<and> ks ! j = f) \<and>
     (\<forall>j < length ks. \<exists>t. ar_table ar ! ar_probe L ar (ks ! j) t = Some (ks ! j, j) \<and>
        (\<forall>u < t. ar_table ar ! ar_probe L ar (ks ! j) u \<noteq> None)) \<and>
     card {i. i < length (ar_table ar) \<and> ar_table ar ! i \<noteq> None} \<le> length ks"

lemma free_exists:
  assumes "card {i. i < length xs \<and> xs ! i \<noteq> None} < length xs"
  shows "\<exists>i < length xs. xs ! i = None"
proof (rule ccontr)
  assume "\<not> ?thesis"
  then have "{i. i < length xs \<and> xs ! i \<noteq> None} = {..<length xs}" by auto
  then show False using assms by simp
qed

lemma probe_free:
  assumes "ar_shape ar" "card {i. i < length (ar_table ar) \<and> ar_table ar ! i \<noteq> None} < length (ar_table ar)"
  obtains t where "ar_table ar ! ar_probe L ar f t = None" "\<forall>u < t. ar_table ar ! ar_probe L ar f u \<noteq> None"
proof -
  obtain i where i: "i < length (ar_table ar)" "ar_table ar ! i = None" using free_exists[OF assms(2)] by blast
  obtain n where "ar_probe L ar f n = i" using ar_probe_covers[OF assms(1) i(1)] by blast
  then have n: "ar_table ar ! ar_probe L ar f n = None" using i(2) by simp
  let ?t = "LEAST t. ar_table ar ! ar_probe L ar f t = None"
  show ?thesis
  proof (rule that[of ?t])
    show "ar_table ar ! ar_probe L ar f ?t = None" by (rule LeastI[of "\<lambda>t. ar_table ar ! ar_probe L ar f t = None", OF n])
    show "\<forall>u < ?t. ar_table ar ! ar_probe L ar f u \<noteq> None" using not_less_Least by blast
  qed
qed

lemma arity_ok_lookup:
  assumes "arity_ok L ks ar"
  shows "j < length ks \<Longrightarrow> lookupInternal L ar (ks ! j) = Some (int j)"
    "f \<notin> set ks \<Longrightarrow> lookupInternal L ar f = Some (-1)"
proof -
  have sh: "ar_shape ar" and d: "distinct ks" using assms by (simp_all add: arity_ok_def)
  have ent: "j < length ks \<and> ks ! j = f" if "ar_table ar ! ar_probe L ar g u = Some (f, j)" for f g j u
    using assms that ar_probe_lt[OF sh, of L g u] unfolding arity_ok_def by blast
  have start: "lookupInternal L ar f = lookup_loop ar f (scndhash (featureHash L f)) (ar_probe L ar f 0)" for f
    by (simp add: lookupInternal_loop ar_probe_0[OF sh])
  {
    assume j: "j < length ks"
    let ?f = "ks ! j" and ?P = "\<lambda>t. ar_table ar ! ar_probe L ar (ks ! j) t = Some (ks ! j, j)"
    obtain t where t: "?P t" "\<forall>u < t. ar_table ar ! ar_probe L ar ?f u \<noteq> None" using assms j unfolding arity_ok_def by meson
    let ?n = "LEAST t. ?P t"
    have n: "?P ?n" by (rule LeastI[of ?P, OF t(1)])
    have "?n \<le> t" by (rule Least_le[of ?P, OF t(1)])
    have "\<exists>g i. ar_table ar ! ar_probe L ar ?f u = Some (g, i) \<and> g \<noteq> ?f" if u: "u < ?n" for u
    proof -
      have "u < t" using u \<open>?n \<le> t\<close> by simp
      then obtain g i where gi: "ar_table ar ! ar_probe L ar ?f u = Some (g, i)" using t(2) by fastforce
      have "g \<noteq> ?f"
      proof
        assume "g = ?f"
        then have "i = j" using ent[OF gi] j d nth_eq_iff_index_eq by blast
        then show False using not_less_Least[OF u] gi \<open>g = ?f\<close> by simp
      qed
      then show ?thesis using gi by blast
    qed
    then have "lookupInternal L ar ?f = lookup_loop ar ?f (scndhash (featureHash L ?f)) (ar_probe L ar ?f ?n)"
      using lookup_loop_steps[OF sh, of 0 ?n] start by simp
    then show "lookupInternal L ar ?f = Some (int j)" using n by (simp add: lookup_loop.simps)
  next
    assume f: "f \<notin> set ks"
    have "card {i. i < length (ar_table ar) \<and> ar_table ar ! i \<noteq> None} < length (ar_table ar)"
      using assms by (auto simp: arity_ok_def ar_shape_def)
    then obtain t where t: "ar_table ar ! ar_probe L ar f t = None" "\<forall>u < t. ar_table ar ! ar_probe L ar f u \<noteq> None"
      by (rule probe_free[OF sh])
    have "\<exists>g i. ar_table ar ! ar_probe L ar f u = Some (g, i) \<and> g \<noteq> f" if u: "u < t" for u
    proof -
      obtain g i where gi: "ar_table ar ! ar_probe L ar f u = Some (g, i)" using t(2) u by fastforce
      then have "g \<noteq> f" using ent[OF gi] f nth_mem by fastforce
      then show ?thesis using gi by blast
    qed
    then have "lookupInternal L ar f = lookup_loop ar f (scndhash (featureHash L f)) (ar_probe L ar f t)"
      using lookup_loop_steps[OF sh, of 0 t] start by simp
    then show "lookupInternal L ar f = Some (-1)" using t by (simp add: lookup_loop.simps)
  }
qed

subsection \<open>Filling the table\<close>

lemma ar_put [simp]:
  "ar_probe L (ar\<lparr>ar_table := t\<rparr>) = ar_probe L ar" "getSize_ar (ar\<lparr>ar_table := t\<rparr>) = getSize_ar ar"
  by (simp_all add: ar_probe_def getSize_ar_def fun_eq_iff)

lemma arity_insert_ok:
  assumes "arity_ok L ks ar" "f \<notin> set ks" "Suc (length ks) < getSize_ar ar"
  shows "\<exists>t. arity_insert L f (length ks) ar = Some (ar\<lparr>ar_table := t\<rparr>) \<and> arity_ok L (ks @ [f]) (ar\<lparr>ar_table := t\<rparr>)"
proof -
  let ?occ = "\<lambda>t. {i. i < length t \<and> t ! i \<noteq> None}"
  have sh: "ar_shape ar" and d: "distinct ks" and c: "card (?occ (ar_table ar)) \<le> length ks"
    using assms(1) by (simp_all add: arity_ok_def)
  have "card (?occ (ar_table ar)) < length (ar_table ar)" using c assms(3) sh by (simp add: ar_shape_def)
  then obtain n where n: "ar_table ar ! ar_probe L ar f n = None" "\<forall>u < n. ar_table ar ! ar_probe L ar f u \<noteq> None"
    by (rule probe_free[OF sh])
  let ?i = "ar_probe L ar f n"
  let ?t = "(ar_table ar)[?i := Some (f, length ks)]"
  let ?ar = "ar\<lparr>ar_table := ?t\<rparr>"
  have i: "?i < length (ar_table ar)" by (rule ar_probe_lt[OF sh])
  have "free_slot ar (scndhash (featureHash L f)) (ar_probe L ar f 0) = Some ?i"
    using free_slot_steps[OF sh, of 0 n L f] n by simp
  then have ins: "arity_insert L f (length ks) ar = Some ?ar"
    by (simp add: arity_insert_def Let_def ar_probe_0[OF sh])
  have keep: "?t ! j = ar_table ar ! j" if "ar_table ar ! j \<noteq> None" for j using that n(1) by (cases "j = ?i") auto
  have full: "?t ! j \<noteq> None" if "ar_table ar ! j \<noteq> None" for j using that keep by simp
  have "arity_ok L (ks @ [f]) ?ar"
    unfolding arity_ok_def
  proof (intro conjI allI impI)
    show "ar_shape ?ar" using sh by (simp add: ar_shape_def)
    show "distinct (ks @ [f])" "length (ks @ [f]) < getSize_ar ?ar" using d assms(2,3) by simp_all
  next
    fix j g k assume a: "j < length (ar_table ?ar) \<and> ar_table ?ar ! j = Some (g, k)"
    show "k < length (ks @ [f])" "(ks @ [f]) ! k = g"
    proof (atomize (full), cases "j = ?i")
      case True
      then show "k < length (ks @ [f]) \<and> (ks @ [f]) ! k = g" using a i by (auto simp: nth_append)
    next
      case False
      then have "k < length ks \<and> ks ! k = g" using a assms(1) unfolding arity_ok_def by simp
      then show "k < length (ks @ [f]) \<and> (ks @ [f]) ! k = g" by (simp add: nth_append)
    qed
  next
    fix j assume j: "j < length (ks @ [f])"
    let ?Q = "\<lambda>g j. \<exists>t. ar_table ?ar ! ar_probe L ?ar g t = Some (g, j) \<and> (\<forall>u < t. ar_table ?ar ! ar_probe L ?ar g u \<noteq> None)"
    show "?Q ((ks @ [f]) ! j) j"
    proof (cases "j = length ks")
      case True
      have "?Q f (length ks)" using i n(2) full by (intro exI[of _ n]) simp
      then show ?thesis using True by simp
    next
      case False
      then have j': "j < length ks" using j by simp
      then obtain t where t: "ar_table ar ! ar_probe L ar (ks ! j) t = Some (ks ! j, j)"
        "\<forall>u < t. ar_table ar ! ar_probe L ar (ks ! j) u \<noteq> None" using assms(1) unfolding arity_ok_def by meson
      have "?Q (ks ! j) j" using t keep full by (intro exI[of _ t]) simp
      then show ?thesis using j' by (simp add: nth_append)
    qed
  next
    have "?occ ?t = insert ?i (?occ (ar_table ar))" using i by (auto simp: nth_list_update split: if_splits)
    then show "card (?occ (ar_table ?ar)) \<le> length (ks @ [f])" using c card_insert_le_m1 by (simp add: card_insert_if)
  qed
  then show ?thesis using ins by blast
qed

lemma arity_fill_ok:
  assumes "arity_ok L ks ar" "distinct (ks @ es)" "length (ks @ es) < getSize_ar ar"
  shows "\<exists>t. arity_fill L es (length ks) ar = Some (ar\<lparr>ar_table := t\<rparr>) \<and> arity_ok L (ks @ es) (ar\<lparr>ar_table := t\<rparr>)"
  using assms
proof (induction es arbitrary: ks ar)
  case Nil
  then show ?case by (intro exI[of _ "ar_table ar"]) simp
next
  case (Cons f es)
  then obtain t where t: "arity_insert L f (length ks) ar = Some (ar\<lparr>ar_table := t\<rparr>)" "arity_ok L (ks @ [f]) (ar\<lparr>ar_table := t\<rparr>)"
    using arity_insert_ok[of L ks ar f] by auto
  then show ?case using Cons.IH[OF t(2)] Cons.prems by auto
qed

definition tuple_list :: "feature list \<Rightarrow> bool" where
  "tuple_list ks \<longleftrightarrow> ks = makeTupleArityList (length ks)"

text \<open>The arity of a list: the marker of tuples, or a table that gives every feature its index.\<close>

definition arity_of :: "literals \<Rightarrow> feature list \<Rightarrow> Arity \<Rightarrow> bool" where
  "arity_of L ks ar \<longleftrightarrow> ar_list ar = ks \<and> ar_width ar = length ks \<and>
     isTuple_ar ar = tuple_list ks \<and> (tuple_list ks \<or> arity_ok L ks ar)"

lemma newArity_spec:
  assumes "distinct ks"
  shows "\<exists>ar. newArity L ks (tuple_list ks) = Some ar \<and> arity_of L ks ar"
proof (cases "tuple_list ks")
  case True
  then show ?thesis by (simp add: newArity_def arity_of_def isTuple_ar_def Let_def)
next
  case False
  obtain k where k: "1 \<le> k" "nextPowerOf2 (3 * length ks div 2) = 2 ^ k" "3 * length ks div 2 \<le> 2 ^ k"
    using nextPowerOf2_spec by blast
  let ?ar = "\<lparr>ar_list = ks, ar_hashmask = 2 ^ k - 1, ar_width = length ks, ar_table = replicate (2 ^ k) None\<rparr>"
  have two: "2 ^ k = getSize_ar ?ar" by (simp add: getSize_ar_def)
  have "2 ^ 1 \<le> (2 :: nat) ^ k" using k(1) by (intro power_increasing) simp_all
  moreover have "2 ^ 1 \<le> N \<Longrightarrow> 3 * n div 2 \<le> N \<Longrightarrow> n < N \<and> 1 < N" for n N :: nat by simp
  ultimately have lt: "length ks < getSize_ar ?ar" "1 < getSize_ar ?ar" using k(3) two by metis+
  have "ar_shape ?ar" using two k(1) by (auto simp: ar_shape_def)
  moreover have "{i. i < length (ar_table ?ar) \<and> ar_table ?ar ! i \<noteq> None} = {}" by auto
  ultimately have "arity_ok L [] ?ar" using lt(2) unfolding arity_ok_def by simp
  then obtain t where t: "arity_fill L ks 0 ?ar = Some (?ar\<lparr>ar_table := t\<rparr>)" "arity_ok L ks (?ar\<lparr>ar_table := t\<rparr>)"
    using arity_fill_ok[of L "[]" ?ar ks] assms lt(1) by auto
  have "\<not> isTuple_ar (?ar\<lparr>ar_table := t\<rparr>)" using lt(2) by (simp add: isTuple_ar_def getSize_ar_def)
  then show ?thesis using t False k(2) by (auto simp: newArity_def arity_of_def Let_def)
qed

section \<open>One arity for each list\<close>

definition at_ok :: "literals \<Rightarrow> ArityTable \<Rightarrow> bool" where
  "at_ok L T \<longleftrightarrow> (\<exists>k \<le> 31. at_hashmask T = 2 ^ k - 1) \<and> length (at_table T) = at_hashmask T + 1 \<and>
     (\<forall>s < length (at_table T). distinct (map ar_list (at_table T ! s)) \<and>
        (\<forall>c \<in> set (at_table T ! s). arity_of L (ar_list c) c \<and> fst (hashvalue L T (ar_list c)) = s))"

definition at_valid :: "ArityTable \<Rightarrow> aptr \<Rightarrow> bool" where
  "at_valid T p \<longleftrightarrow> fst p < length (at_table T) \<and> snd p < length (at_table T ! fst p)"

text \<open>A later state of the table: the arities of the earlier state are where they were.\<close>

definition at_extends :: "ArityTable \<Rightarrow> ArityTable \<Rightarrow> bool" where
  "at_extends T T' \<longleftrightarrow> (\<forall>p. at_valid T p \<longrightarrow> at_valid T' p \<and> getArity_at T' p = getArity_at T p)"

lemma at_extends_refl [simp]: "at_extends T T"
  by (simp add: at_extends_def)

lemma at_extends_trans: "at_extends T T' \<Longrightarrow> at_extends T' T'' \<Longrightarrow> at_extends T T''"
  by (simp add: at_extends_def)

lemma listequal_iff [simp]: "listequal as bs \<longleftrightarrow> as = bs"
  by (induction as bs rule: listequal.induct) auto

lemma hashvalue_loop_len:
  "snd (hashvalue_loop L ks i (-1)) = -1"
  "snd (hashvalue_loop L ks i (int n)) < 0 \<longleftrightarrow> ks \<noteq> map (\<lambda>i. SmallInt (int i)) [Suc n..<Suc n + length ks]"
proof -
  show neg: "snd (hashvalue_loop L ks i (-1)) = -1" for ks i by (induction ks arbitrary: i) auto
  show "snd (hashvalue_loop L ks i (int n)) < 0 \<longleftrightarrow> ks \<noteq> map (\<lambda>i. SmallInt (int i)) [Suc n..<Suc n + length ks]"
  proof (induction ks arbitrary: i n)
    case (Cons k ks)
    have up: "[Suc n..<Suc n + length (k # ks)] = Suc n # [Suc (Suc n)..<Suc (Suc n) + length ks]" by (simp add: upt_rec)
    show ?case
    proof (cases "k = SmallInt (int (Suc n))")
      case True
      then show ?thesis using Cons.IH[of _ "Suc n"] unfolding up by (simp add: add.commute)
    next
      case False
      then show ?thesis unfolding up using neg by (simp add: add.commute)
    qed
  qed simp
qed

lemma hashvalue_tuple: "snd (hashvalue L T ks) = tuple_list ks"
  using hashvalue_loop_len(2)[of L ks 0 0]
  by (simp add: hashvalue_def tuple_list_def makeTupleArityList_def case_prod_beta Let_def)

lemma hashvalue_slot:
  assumes "at_ok L T"
  shows "fst (hashvalue L T ks) < length (at_table T)"
proof -
  obtain k where k: "k \<le> 31" "at_hashmask T = 2 ^ k - 1" "length (at_table T) = at_hashmask T + 1"
    using assms by (auto simp: at_ok_def)
  have "w AND of_nat (at_hashmask T) = take_bit k w" for w :: int32
    by (simp add: k(2) take_bit_eq_mask mask_eq_exp_minus_1 of_nat_diff)
  moreover have "unat (take_bit k w) < 2 ^ k" for w :: int32
    by (simp add: unsigned_take_bit_eq)
  ultimately show ?thesis using k(2,3) by (simp add: hashvalue_def case_prod_beta Let_def)
qed

lemma chain_find_Some: "chain_find cs ks = Some n \<Longrightarrow> n < length cs \<and> ar_list (cs ! n) = ks"
  by (induction cs arbitrary: n) (auto split: if_splits)

lemma chain_find_None: "chain_find cs ks = None \<longleftrightarrow> ks \<notin> ar_list ` set cs"
  by (induction cs) auto

lemma at_ok_get:
  assumes "at_ok L T" "at_valid T p"
  shows "arity_of L (ar_list (getArity_at T p)) (getArity_at T p)" "fst (hashvalue L T (ar_list (getArity_at T p))) = fst p"
  using assms by (auto simp: at_ok_def at_valid_def getArity_at_def)

text \<open>Equal lists have the same pointer.\<close>

lemma at_canonical:
  assumes "at_ok L T" "at_valid T p" "at_valid T q" "ar_list (getArity_at T p) = ar_list (getArity_at T q)"
  shows "p = q"
proof -
  have s: "fst p = fst q" using at_ok_get(2)[OF assms(1,2)] at_ok_get(2)[OF assms(1,3)] assms(4) by simp
  have "distinct (map ar_list (at_table T ! fst p))" using assms(1,2) by (auto simp: at_ok_def at_valid_def)
  then have "snd p = snd q" using assms(2-4) s nth_eq_iff_index_eq[of "map ar_list (at_table T ! fst p)" "snd p" "snd q"]
    by (simp add: at_valid_def getArity_at_def)
  then show ?thesis using s by (simp add: prod_eq_iff)
qed

lemma find_at_spec:
  assumes "at_ok L T" "distinct ks"
  shows "\<exists>T' p. find_at L T ks = Some (T', p) \<and> at_ok L T' \<and> at_extends T T' \<and> at_valid T' p \<and> ar_list (getArity_at T' p) = ks"
proof -
  obtain h where h: "hashvalue L T ks = (h, tuple_list ks)" using hashvalue_tuple[of L T ks] by (cases "hashvalue L T ks") simp
  have hl: "h < length (at_table T)" using hashvalue_slot[OF assms(1), of ks] h by simp
  let ?c = "at_table T ! h"
  show ?thesis
  proof (cases "chain_find ?c ks")
    case (Some n)
    then show ?thesis using chain_find_Some[OF Some] assms(1) h hl
      by (simp add: find_at_def at_valid_def getArity_at_def)
  next
    case None
    obtain ar where ar: "newArity L ks (tuple_list ks) = Some ar" "arity_of L ks ar" using newArity_spec[OF assms(2)] by blast
    let ?T = "T\<lparr>at_table := (at_table T)[h := ?c @ [ar]]\<rparr>"
    have hv: "hashvalue L ?T = hashvalue L T" by (simp add: fun_eq_iff hashvalue_def)
    have arl: "ar_list ar = ks" using ar(2) by (simp add: arity_of_def)
    have "find_at L T ks = Some (?T, (h, length ?c))" using None ar(1) h by (simp add: find_at_def Let_def)
    moreover have "at_ok L ?T"
      unfolding at_ok_def
    proof (intro conjI allI impI)
      show "\<exists>k \<le> 31. at_hashmask ?T = 2 ^ k - 1" "length (at_table ?T) = at_hashmask ?T + 1" using assms(1) by (simp_all add: at_ok_def)
    next
      fix s assume "s < length (at_table ?T)"
      then have s: "s < length (at_table T)" by simp
      then have old: "distinct (map ar_list (at_table T ! s))"
        "\<forall>c \<in> set (at_table T ! s). arity_of L (ar_list c) c \<and> fst (hashvalue L T (ar_list c)) = s" using assms(1) by (simp_all add: at_ok_def)
      show "distinct (map ar_list (at_table ?T ! s))"
        using old(1) s None arl by (cases "s = h") (auto simp: chain_find_None)
      show "\<forall>c \<in> set (at_table ?T ! s). arity_of L (ar_list c) c \<and> fst (hashvalue L ?T (ar_list c)) = s"
        unfolding hv using old(2) s h arl ar(2) by (cases "s = h") auto
    qed
    moreover have "at_extends T ?T"
      using hl by (auto simp: at_extends_def at_valid_def getArity_at_def nth_list_update nth_append)
    moreover have "at_valid ?T (h, length ?c)" "ar_list (getArity_at ?T (h, length ?c)) = ks"
      using hl arl by (simp_all add: at_valid_def getArity_at_def)
    ultimately show ?thesis by blast
  qed
qed

lemma newArityTable_ok:
  assumes "n \<le> 2 ^ 31"
  shows "at_ok L (newArityTable n)"
proof -
  obtain k where k: "nextPowerOf2 n = 2 ^ k" "k = 1 \<or> 2 ^ k < 2 * n" using nextPowerOf2_spec by blast
  have "k \<le> 31"
  proof (cases "k = 1")
    case False
    then have "(2 :: nat) ^ k < 2 ^ 32" using k(2) assms by simp
    then show ?thesis using power_less_imp_less_exp[of "2 :: nat" k 32] by simp
  qed simp
  then show ?thesis using k by (auto simp: at_ok_def newArityTable_def Let_def)
qed

end
