(* ===== verification/SRecord.thy ===== *)
theory SRecord
  imports Arity "HOL-Library.Monad_Syntax"
begin

text \<open>
  Records: \<^verbatim>\<open>class SRecord\<close> of \<^verbatim>\<open>platform/emulator/value.hh\<close> and \<^verbatim>\<open>value.cc\<close>, with the functions that adjoin
  records and the builtins over them (\<^verbatim>\<open>builtins.cc\<close>). A record has a label, its arity (the width of a
  tuple or a pointer into the arity table) and an argument for each feature; a list cell has a
  representation of its own. \<open>'v\<close> is the type of the arguments, references to terms; dereferencing is
  not part of the model. Memory that the code allocates and does not initialise has contents
  \<open>J\<close>, any function of the index; the theorems hold for all of them.

  The theorems show that a record is a finite map: selection looks a feature up, adjunction is
  the union of maps with the right argument winning, and the representation of a map is unique.
\<close>

section \<open>Records\<close>

datatype SRecordArity = TupleWidth nat | RecordArity aptr

record 'v SRecord =
  sr_label :: addr
  sr_arity :: SRecordArity
  sr_args :: "'v list"

datatype 'v rterm = TLiteral addr | TLTuple 'v 'v | TSRecord "'v SRecord"

definition getWidth_sra :: "ArityTable \<Rightarrow> SRecordArity \<Rightarrow> nat" where
  "getWidth_sra T a = (case a of TupleWidth w \<Rightarrow> w | RecordArity p \<Rightarrow> ar_width (getArity_at T p))"

definition sraGetArityList :: "ArityTable \<Rightarrow> SRecordArity \<Rightarrow> feature list" where
  "sraGetArityList T a = (case a of TupleWidth w \<Rightarrow> makeTupleArityList w | RecordArity p \<Rightarrow> ar_list (getArity_at T p))"

definition newSRecord_w :: "(nat \<Rightarrow> 'v) \<Rightarrow> addr \<Rightarrow> SRecordArity \<Rightarrow> nat \<Rightarrow> 'v SRecord" where
  "newSRecord_w J lab arity width = \<lparr>sr_label = lab, sr_arity = arity, sr_args = map J [0..<width]\<rparr>"

definition newSRecord_tuple :: "(nat \<Rightarrow> 'v) \<Rightarrow> addr \<Rightarrow> nat \<Rightarrow> 'v SRecord" where
  "newSRecord_tuple J lab i = newSRecord_w J lab (TupleWidth i) i"

definition newSRecord_ar :: "(nat \<Rightarrow> 'v) \<Rightarrow> ArityTable \<Rightarrow> addr \<Rightarrow> aptr \<Rightarrow> 'v SRecord" where
  "newSRecord_ar J T lab p =
     (let arity = getArity_at T p
      in if isTuple_ar arity then newSRecord_tuple J lab (ar_width arity)
         else newSRecord_w J lab (RecordArity p) (ar_width arity))"

definition newSRecord_copy :: "ArityTable \<Rightarrow> 'v SRecord \<Rightarrow> 'v SRecord" where
  "newSRecord_copy T st =
     newSRecord_w (\<lambda>i. sr_args st ! i) (sr_label st) (sr_arity st) (getWidth_sra T (sr_arity st))"

definition getLiteralIndex :: "literals \<Rightarrow> ArityTable \<Rightarrow> 'v SRecord \<Rightarrow> addr \<Rightarrow> int option" where
  "getLiteralIndex L T r f =
     (case sr_arity r of TupleWidth w \<Rightarrow> Some (-1) | RecordArity p \<Rightarrow> lookupLiteralInternal L (getArity_at T p) f)"

definition getSmallIntIndex :: "ArityTable \<Rightarrow> 'v SRecord \<Rightarrow> int \<Rightarrow> int option" where
  "getSmallIntIndex T r f =
     (case sr_arity r of
        TupleWidth w \<Rightarrow> (let i = f - 1 in Some (if 0 \<le> i \<and> i < int w then i else -1))
      | RecordArity p \<Rightarrow> lookupSmallIntInternal (getArity_at T p) f)"

definition getBigIntIndex :: "literals \<Rightarrow> ArityTable \<Rightarrow> 'v SRecord \<Rightarrow> int \<Rightarrow> int option" where
  "getBigIntIndex L T r f =
     (case sr_arity r of TupleWidth w \<Rightarrow> Some (-1) | RecordArity p \<Rightarrow> lookupBigIntInternal L (getArity_at T p) f)"

definition getIndex :: "literals \<Rightarrow> ArityTable \<Rightarrow> 'v SRecord \<Rightarrow> feature \<Rightarrow> int option" where
  "getIndex L T r f =
     (case f of
        SmallInt n \<Rightarrow> getSmallIntIndex T r n
      | Literal p \<Rightarrow> getLiteralIndex L T r p
      | BigInt n \<Rightarrow> getBigIntIndex L T r n)"

text \<open>The outer option is for a search that does not end, the inner one for a feature that is missing.\<close>

definition getFeature :: "literals \<Rightarrow> ArityTable \<Rightarrow> 'v SRecord \<Rightarrow> feature \<Rightarrow> 'v option option" where
  "getFeature L T r f =
     map_option (\<lambda>i. if i < 0 then None else Some (sr_args r ! nat i)) (getIndex L T r f)"

definition setFeature :: "literals \<Rightarrow> ArityTable \<Rightarrow> 'v SRecord \<Rightarrow> feature \<Rightarrow> 'v \<Rightarrow> ('v SRecord \<times> bool) option" where
  "setFeature L T r f v =
     map_option (\<lambda>i. if i = -1 then (r, False) else (r\<lparr>sr_args := (sr_args r)[nat i := v]\<rparr>, True)) (getIndex L T r f)"

fun setFeatures :: "literals \<Rightarrow> ArityTable \<Rightarrow> (feature \<times> 'v) list \<Rightarrow> 'v SRecord \<Rightarrow> 'v SRecord option" where
  "setFeatures L T [] r = Some r"
| "setFeatures L T ((f, v) # ps) r = setFeature L T r f v \<bind> (\<lambda>(r, ok). setFeatures L T ps r)"

definition normalize_sr :: "addr \<Rightarrow> 'v SRecord \<Rightarrow> 'v rterm" where
  "normalize_sr AtomCons r =
     (if sr_arity r = TupleWidth 2 \<and> sr_label r = AtomCons then TLTuple (sr_args r ! 0) (sr_args r ! 1)
      else TSRecord r)"

text \<open>The loops that copy the features of a list from one record to another.\<close>

fun copy_features :: "literals \<Rightarrow> ArityTable \<Rightarrow> feature list \<Rightarrow> 'v SRecord \<Rightarrow> 'v SRecord \<Rightarrow> 'v SRecord option" where
  "copy_features L T [] src r = Some r"
| "copy_features L T (a # as) src r =
     getFeature L T src a \<bind> (\<lambda>x. x \<bind> (\<lambda>v. setFeature L T r a v \<bind> (\<lambda>(r, ok). copy_features L T as src r)))"

definition oz_adjoin ::
    "addr \<Rightarrow> (nat \<Rightarrow> 'v) \<Rightarrow> literals \<Rightarrow> ArityTable \<Rightarrow> 'v SRecord \<Rightarrow> 'v SRecord \<Rightarrow> (ArityTable \<times> 'v rterm) option" where
  "oz_adjoin AtomCons J L T lrec hrecord =
     (let list1 = sraGetArityList T (sr_arity lrec);
          list2 = sraGetArityList T (sr_arity hrecord);
          newArityList = merge_f (featureCmp L) list1 list2
      in find_at L T newArityList \<bind> (\<lambda>(T, newArity).
         let newrec = newSRecord_ar J T (sr_label hrecord) newArity;
             copied =
               copy_features L T list1 lrec newrec \<bind> (\<lambda>newrec.
               copy_features L T list2 hrecord newrec \<bind> (\<lambda>newrec.
               Some (T, normalize_sr AtomCons newrec)))
         in case sr_arity hrecord of
              TupleWidth w \<Rightarrow>
                if isTuple_ar (getArity_at T newArity) \<and> w = ar_width (getArity_at T newArity)
                then Some (T, normalize_sr AtomCons (newSRecord_copy T hrecord)) else copied
            | RecordArity p \<Rightarrow>
                if newArity = p then Some (T, TSRecord (newSRecord_copy T hrecord)) else copied))"

definition oz_adjoinAt ::
    "addr \<Rightarrow> (nat \<Rightarrow> 'v) \<Rightarrow> literals \<Rightarrow> ArityTable \<Rightarrow> 'v SRecord \<Rightarrow> feature \<Rightarrow> 'v \<Rightarrow> (ArityTable \<times> 'v rterm) option" where
  "oz_adjoinAt AtomCons J L T rec feature value =
     getIndex L T rec feature \<bind> (\<lambda>i.
       if i \<noteq> -1 then
         setFeature L T (newSRecord_copy T rec) feature value \<bind> (\<lambda>(newrec, ok). Some (T, normalize_sr AtomCons newrec))
       else
         (let oldArityList = sraGetArityList T (sr_arity rec)
          in find_at L T (insert_f (featureCmp L) feature oldArityList) \<bind> (\<lambda>(T, arity).
             copy_features L T oldArityList rec (newSRecord_ar J T (sr_label rec) arity) \<bind> (\<lambda>newrec.
             setFeature L T newrec feature value \<bind> (\<lambda>(newrec, ok). Some (T, normalize_sr AtomCons newrec))))))"

definition oz_adjoinList ::
    "addr \<Rightarrow> (nat \<Rightarrow> 'v) \<Rightarrow> literals \<Rightarrow> ArityTable \<Rightarrow> 'v SRecord \<Rightarrow> feature list \<Rightarrow> (feature \<times> 'v) list \<Rightarrow>
     (ArityTable \<times> 'v rterm) option" where
  "oz_adjoinList AtomCons J L T lrec arityList proplist =
     (let list = sraGetArityList T (sr_arity lrec)
      in find_at L T (insertlist (featureCmp L) arityList list) \<bind> (\<lambda>(T, newArity).
         copy_features L T list lrec (newSRecord_ar J T (sr_label lrec) newArity) \<bind> (\<lambda>newrec.
         setFeatures L T proplist newrec \<bind> (\<lambda>newrec. Some (T, normalize_sr AtomCons newrec)))))"

definition makeRecord ::
    "addr \<Rightarrow> (nat \<Rightarrow> 'v) \<Rightarrow> literals \<Rightarrow> ArityTable \<Rightarrow> 'v rterm \<Rightarrow> (ArityTable \<times> 'v SRecord) option" where
  "makeRecord AtomCons J L T t =
     (case t of
        TSRecord r \<Rightarrow> Some (T, r)
      | TLTuple a b \<Rightarrow>
          find_at L T (makeTupleArityList 2) \<bind> (\<lambda>(T, p).
          let ret = newSRecord_ar J T AtomCons p
          in Some (T, ret\<lparr>sr_args := (sr_args ret)[0 := a, 1 := b]\<rparr>))
      | TLiteral a \<Rightarrow> None)"

definition compareFunctor :: "'v SRecord \<Rightarrow> 'v SRecord \<Rightarrow> bool" where
  "compareFunctor r s \<longleftrightarrow> sr_label r = sr_label s \<and> sr_arity r = sr_arity s"

definition getArityList_t :: "ArityTable \<Rightarrow> 'v rterm \<Rightarrow> feature list" where
  "getArityList_t T t =
     (case t of
        TSRecord r \<Rightarrow> sraGetArityList T (sr_arity r)
      | TLTuple a b \<Rightarrow> makeTupleArityList 2
      | TLiteral a \<Rightarrow> [])"

section \<open>The map of a record\<close>

text \<open>
  A record with a sorted arity and an argument for each feature. A tuple has at most as many
  arguments as there are positive small integers; an arity that the table marks as one of tuples
  is never pointed to.
\<close>

definition sra_ok :: "literals \<Rightarrow> ArityTable \<Rightarrow> SRecordArity \<Rightarrow> bool" where
  "sra_ok L T a \<longleftrightarrow>
     (case a of
        TupleWidth w \<Rightarrow> 0 < w \<and> int w \<le> OzMaxInt
      | RecordArity p \<Rightarrow> at_valid T p \<and> \<not> isTuple_ar (getArity_at T p) \<and> arity_list L (ar_list (getArity_at T p)))"

definition sr_ok :: "literals \<Rightarrow> ArityTable \<Rightarrow> 'v SRecord \<Rightarrow> bool" where
  "sr_ok L T r \<longleftrightarrow> sra_ok L T (sr_arity r) \<and> length (sr_args r) = length (sraGetArityList T (sr_arity r))"

abbreviation sr_keys :: "ArityTable \<Rightarrow> 'v SRecord \<Rightarrow> feature list" where
  "sr_keys T r \<equiv> sraGetArityList T (sr_arity r)"

definition sr_map :: "ArityTable \<Rightarrow> 'v SRecord \<Rightarrow> feature \<rightharpoonup> 'v" where
  "sr_map T r = map_of (zip (sr_keys T r) (sr_args r))"

lemma tuple_arity_list:
  assumes "int w \<le> OzMaxInt"
  shows "arity_list L (makeTupleArityList w)"
proof -
  have "featureCmp L (makeTupleArityList w ! i) (makeTupleArityList w ! j) < 0" if "i < j" "j < w" for i j
    using that assms smallIntCmp_small[of "int i + 1" "int j + 1"]
    by (simp add: makeTupleArityList_nth featureCmp_def OzMaxInt_def)
  then show ?thesis unfolding arity_list_def by (simp add: sorted_wrt_iff_nth_less)
qed

lemma sra_ok_keys:
  assumes "at_ok L T" "sra_ok L T a"
  shows "arity_list L (sraGetArityList T a)" "distinct (sraGetArityList T a)" "getWidth_sra T a = length (sraGetArityList T a)"
proof -
  show l: "arity_list L (sraGetArityList T a)"
    using assms(2) tuple_arity_list by (auto simp: sra_ok_def sraGetArityList_def split: SRecordArity.splits)
  show "distinct (sraGetArityList T a)" by (rule arity_list_distinct[OF l])
  show "getWidth_sra T a = length (sraGetArityList T a)"
    using assms at_ok_get(1)[OF assms(1)] by (auto simp: getWidth_sra_def sraGetArityList_def sra_ok_def arity_of_def split: SRecordArity.splits)
qed

lemma getIndex_spec:
  assumes "at_ok L T" "sra_ok L T (sr_arity r)"
  shows "i < length (sr_keys T r) \<Longrightarrow> getIndex L T r (sr_keys T r ! i) = Some (int i)"
    "f \<notin> set (sr_keys T r) \<Longrightarrow> getIndex L T r f = Some (-1)"
proof -
  have rec: "getIndex L T r g = lookupInternal L (getArity_at T p) g" if "sr_arity r = RecordArity p" for p g
    using that by (cases g) (simp_all add: getIndex_def getSmallIntIndex_def getLiteralIndex_def getBigIntIndex_def lookupInternal_def)
  have ok: "arity_ok L (ar_list (getArity_at T p)) (getArity_at T p)" if "sr_arity r = RecordArity p" for p
    using that assms(2) at_ok_get(1)[OF assms(1), of p] by (auto simp: sra_ok_def arity_of_def)
  show "getIndex L T r (sr_keys T r ! i) = Some (int i)" if "i < length (sr_keys T r)"
    using that rec ok arity_ok_lookup(1)
    by (cases "sr_arity r") (simp_all add: sraGetArityList_def makeTupleArityList_nth getIndex_def getSmallIntIndex_def)
  show "getIndex L T r f = Some (-1)" if "f \<notin> set (sr_keys T r)"
  proof (cases "sr_arity r")
    case (TupleWidth w)
    then show ?thesis using that
      by (cases f) (auto simp: sraGetArityList_def getIndex_def getSmallIntIndex_def getLiteralIndex_def getBigIntIndex_def image_iff)
  next
    case (RecordArity p)
    then show ?thesis using that rec[OF RecordArity] arity_ok_lookup(2)[OF ok[OF RecordArity]] by (simp add: sraGetArityList_def)
  qed
qed

lemma sr_okD:
  assumes "at_ok L T" "sr_ok L T r"
  shows "distinct (sr_keys T r)" "length (sr_args r) = length (sr_keys T r)" "arity_list L (sr_keys T r)"
    "getWidth_sra T (sr_arity r) = length (sr_keys T r)" "dom (sr_map T r) = set (sr_keys T r)"
    "i < length (sr_keys T r) \<Longrightarrow> getIndex L T r (sr_keys T r ! i) = Some (int i)"
    "f \<notin> set (sr_keys T r) \<Longrightarrow> getIndex L T r f = Some (-1)"
  using getIndex_spec(1)[OF assms(1), of r i] getIndex_spec(2)[OF assms(1), of r f] assms sra_ok_keys[OF assms(1), of "sr_arity r"] by (simp_all add: sr_ok_def sr_map_def)

lemma getFeature_spec:
  assumes "at_ok L T" "sr_ok L T r"
  shows "getFeature L T r f = Some (sr_map T r f)"
proof (cases "f \<in> set (sr_keys T r)")
  case True
  then obtain i where i: "i < length (sr_keys T r)" "f = sr_keys T r ! i" by (metis in_set_conv_nth)
  have "getIndex L T r f = Some (int i)" using sr_okD(6)[OF assms i(1)] i(2) by simp
  moreover have "sr_map T r f = Some (sr_args r ! i)"
    using i sr_okD(1,2)[OF assms] by (simp add: sr_map_def map_of_zip_nth)
  ultimately show ?thesis by (simp add: getFeature_def)
next
  case False
  have "getIndex L T r f = Some (-1)" by (rule sr_okD(7)[OF assms False])
  moreover have "sr_map T r f = None" using False unfolding sr_okD(5)[OF assms, symmetric] domIff by simp
  ultimately show ?thesis by (simp add: getFeature_def)
qed

lemma map_of_zip_update:
  assumes "distinct ks" "length ks = length vs" "i < length ks"
  shows "map_of (zip ks (vs[i := v])) = (map_of (zip ks vs))(ks ! i \<mapsto> v)"
proof -
  have "map_of (zip ks (vs[i := v])) x = ((map_of (zip ks vs))(ks ! i \<mapsto> v)) x" for x
  proof (cases "x \<in> set ks")
    case True
    then obtain j where j: "j < length ks" "x = ks ! j" by (metis in_set_conv_nth)
    then have "map_of (zip ks (vs[i := v])) x = Some (vs[i := v] ! j)" "map_of (zip ks vs) x = Some (vs ! j)"
      using assms(1,2) by (simp_all add: map_of_zip_nth)
    moreover have "ks ! j = ks ! i \<longleftrightarrow> j = i" using assms(1,3) j(1) nth_eq_iff_index_eq by blast
    ultimately show ?thesis using j assms(2) by simp
  next
    case False
    then have "map_of (zip ks (vs[i := v])) x = None" "map_of (zip ks vs) x = None" "x \<noteq> ks ! i" using assms by auto
    then show ?thesis by simp
  qed
  then show ?thesis by blast
qed

lemma setFeature_spec:
  assumes "at_ok L T" "sr_ok L T r"
  shows "f \<in> set (sr_keys T r) \<Longrightarrow> \<exists>vs. setFeature L T r f v = Some (r\<lparr>sr_args := vs\<rparr>, True) \<and>
      sr_ok L T (r\<lparr>sr_args := vs\<rparr>) \<and> sr_map T (r\<lparr>sr_args := vs\<rparr>) = (sr_map T r)(f \<mapsto> v)"
    "f \<notin> set (sr_keys T r) \<Longrightarrow> setFeature L T r f v = Some (r, False)"
proof -
  assume "f \<in> set (sr_keys T r)"
  then obtain i where i: "i < length (sr_keys T r)" "f = sr_keys T r ! i" by (metis in_set_conv_nth)
  have "getIndex L T r f = Some (int i)" using sr_okD(6)[OF assms i(1)] i(2) by simp
  then have "setFeature L T r f v = Some (r\<lparr>sr_args := (sr_args r)[i := v]\<rparr>, True)" by (simp add: setFeature_def)
  moreover have "sr_map T (r\<lparr>sr_args := (sr_args r)[i := v]\<rparr>) = (sr_map T r)(f \<mapsto> v)"
    unfolding sr_map_def i(2) using map_of_zip_update[OF sr_okD(1)[OF assms] sr_okD(2)[OF assms, symmetric] i(1)] by simp
  moreover have "sr_ok L T (r\<lparr>sr_args := (sr_args r)[i := v]\<rparr>)" using assms(2) by (simp add: sr_ok_def)
  ultimately show "\<exists>vs. setFeature L T r f v = Some (r\<lparr>sr_args := vs\<rparr>, True) \<and>
      sr_ok L T (r\<lparr>sr_args := vs\<rparr>) \<and> sr_map T (r\<lparr>sr_args := vs\<rparr>) = (sr_map T r)(f \<mapsto> v)" by blast
next
  assume "f \<notin> set (sr_keys T r)"
  then show "setFeature L T r f v = Some (r, False)" using sr_okD(7)[OF assms] by (simp add: setFeature_def)
qed

lemma setFeatures_spec:
  assumes "at_ok L T"
  shows "sr_ok L T r \<Longrightarrow> fst ` set ps \<subseteq> set (sr_keys T r) \<Longrightarrow>
    \<exists>vs. setFeatures L T ps r = Some (r\<lparr>sr_args := vs\<rparr>) \<and> sr_ok L T (r\<lparr>sr_args := vs\<rparr>) \<and>
      sr_map T (r\<lparr>sr_args := vs\<rparr>) = sr_map T r ++ map_of (rev ps)"
proof (induction ps arbitrary: r)
  case Nil
  then show ?case by (intro exI[of _ "sr_args r"]) simp
next
  case (Cons p ps)
  obtain f v where p: "p = (f, v)" by fastforce
  obtain vs where vs: "setFeature L T r f v = Some (r\<lparr>sr_args := vs\<rparr>, True)" "sr_ok L T (r\<lparr>sr_args := vs\<rparr>)"
    "sr_map T (r\<lparr>sr_args := vs\<rparr>) = (sr_map T r)(f \<mapsto> v)"
    using setFeature_spec(1)[OF assms Cons.prems(1), of f v] Cons.prems(2) p by auto
  obtain ws where ws: "setFeatures L T ps (r\<lparr>sr_args := vs\<rparr>) = Some (r\<lparr>sr_args := ws\<rparr>)" "sr_ok L T (r\<lparr>sr_args := ws\<rparr>)"
    "sr_map T (r\<lparr>sr_args := ws\<rparr>) = sr_map T (r\<lparr>sr_args := vs\<rparr>) ++ map_of (rev ps)"
    using Cons.IH[OF vs(2)] Cons.prems(2) by auto
  have "(sr_map T r)(f \<mapsto> v) ++ map_of (rev ps) = sr_map T r ++ map_of (rev (p # ps))"
    by (simp add: p map_add_assoc)
  then show ?case using vs(1,3) ws p by (intro exI[of _ ws]) simp
qed

text \<open>Copying the features of a record is setting them.\<close>

lemma copy_features_set:
  assumes "at_ok L T" "sr_ok L T src"
  shows "set as \<subseteq> set (sr_keys T src) \<Longrightarrow>
    copy_features L T as src r = setFeatures L T (map (\<lambda>a. (a, the (sr_map T src a))) as) r"
proof (induction as arbitrary: r)
  case (Cons a as)
  have "a \<in> dom (sr_map T src)" using Cons.prems sr_okD(5)[OF assms] by simp
  then obtain v where "sr_map T src a = Some v" by blast
  then show ?case using Cons getFeature_spec[OF assms, of a] by (simp add: case_prod_beta)
qed simp

lemma map_of_graph: "map_of (map (\<lambda>a. (a, g a)) as) = (\<lambda>a. if a \<in> set as then Some (g a) else None)"
  by (induction as) auto

lemma map_of_keys: "dom m = set as \<Longrightarrow> map_of (rev (map (\<lambda>a. (a, the (m a))) as)) = m"
  unfolding rev_map map_of_graph fun_eq_iff by (metis domD domIff option.sel set_rev)

lemma copy_features_spec:
  assumes "at_ok L T" "sr_ok L T src" "sr_ok L T r" "set (sr_keys T src) \<subseteq> set (sr_keys T r)"
  shows "\<exists>vs. copy_features L T (sr_keys T src) src r = Some (r\<lparr>sr_args := vs\<rparr>) \<and> sr_ok L T (r\<lparr>sr_args := vs\<rparr>) \<and>
    sr_map T (r\<lparr>sr_args := vs\<rparr>) = sr_map T r ++ sr_map T src"
  using setFeatures_spec[OF assms(1,3), of "map (\<lambda>a. (a, the (sr_map T src a))) (sr_keys T src)"] assms(4)
    copy_features_set[OF assms(1,2) order_refl, of r] map_of_keys[OF sr_okD(5)[OF assms(1,2)]]
  by (simp add: image_image)

section \<open>Terms\<close>

definition rt_map :: "ArityTable \<Rightarrow> 'v rterm \<Rightarrow> feature \<rightharpoonup> 'v" where
  "rt_map T t =
     (case t of
        TLiteral a \<Rightarrow> Map.empty
      | TLTuple a b \<Rightarrow> [SmallInt 1 \<mapsto> a, SmallInt 2 \<mapsto> b]
      | TSRecord r \<Rightarrow> sr_map T r)"

definition rt_label :: "addr \<Rightarrow> 'v rterm \<Rightarrow> addr" where
  "rt_label AtomCons t = (case t of TLiteral a \<Rightarrow> a | TLTuple a b \<Rightarrow> AtomCons | TSRecord r \<Rightarrow> sr_label r)"

text \<open>Terms in normal form: a pair with the label of lists is a list cell.\<close>

definition rt_ok :: "addr \<Rightarrow> literals \<Rightarrow> ArityTable \<Rightarrow> 'v rterm \<Rightarrow> bool" where
  "rt_ok AtomCons L T t \<longleftrightarrow>
     (case t of
        TSRecord r \<Rightarrow> sr_ok L T r \<and> \<not> (sr_arity r = TupleWidth 2 \<and> sr_label r = AtomCons)
      | _ \<Rightarrow> True)"

text \<open>
  What the functions that build a record return: a table that extends the old one, and a
  term in normal form with a given label and map.
\<close>

definition yields_record ::
    "addr \<Rightarrow> literals \<Rightarrow> ArityTable \<Rightarrow> (ArityTable \<times> 'v rterm) option \<Rightarrow> addr \<Rightarrow> (feature \<rightharpoonup> 'v) \<Rightarrow> bool" where
  "yields_record AtomCons L T res lab m \<longleftrightarrow>
     (\<exists>T' t. res = Some (T', t) \<and> at_ok L T' \<and> at_extends T T' \<and> rt_ok AtomCons L T' t \<and>
        rt_label AtomCons t = lab \<and> rt_map T' t = m)"

text \<open>The range of small integers separates them from big integers.\<close>

fun feat_range :: "feature \<Rightarrow> bool" where
  "feat_range (SmallInt i) \<longleftrightarrow> OzMinInt \<le> i \<and> i \<le> OzMaxInt"
| "feat_range (BigInt i) \<longleftrightarrow> i < OzMinInt \<or> OzMaxInt < i"
| "feat_range (Literal p) \<longleftrightarrow> True"

definition features_ok :: "literals \<Rightarrow> feature set \<Rightarrow> bool" where
  "features_ok L F \<longleftrightarrow> feats_ok L F \<and> (\<forall>f \<in> F. feat_range f)"

lemma features_ok_mono: "features_ok L F \<Longrightarrow> G \<subseteq> F \<Longrightarrow> features_ok L G"
  using feats_ok_mono[of L F G] by (auto simp: features_ok_def)

lemma normalize_spec:
  assumes "sr_ok L T r"
  shows "rt_ok c L T (normalize_sr c r)" "rt_label c (normalize_sr c r) = sr_label r" "rt_map T (normalize_sr c r) = sr_map T r"
proof -
  have "sr_map T r = [SmallInt 1 \<mapsto> sr_args r ! 0, SmallInt 2 \<mapsto> sr_args r ! 1]" if "sr_arity r = TupleWidth 2"
  proof -
    have "makeTupleArityList 2 = [SmallInt 1, SmallInt 2]" by (simp add: makeTupleArityList_def numeral_2_eq_2)
    moreover have "length (sr_args r) = 2" using assms that by (simp add: sr_ok_def sraGetArityList_def)
    then obtain a b where "sr_args r = [a, b]" by (auto simp: numeral_2_eq_2 length_Suc_conv)
    ultimately show ?thesis using that by (simp add: sr_map_def sraGetArityList_def fun_upd_twist)
  qed
  then show "rt_ok c L T (normalize_sr c r)" "rt_label c (normalize_sr c r) = sr_label r" "rt_map T (normalize_sr c r) = sr_map T r"
    using assms by (auto simp: normalize_sr_def rt_ok_def rt_label_def rt_map_def)
qed

lemma yields_normalize:
  assumes "at_ok L T'" "at_extends T T'" "sr_ok L T' r" "sr_label r = lab" "sr_map T' r = m"
  shows "yields_record c L T (Some (T', normalize_sr c r)) lab m"
  using assms normalize_spec[OF assms(3)] by (auto simp: yields_record_def)

subsection \<open>Old records and new ones\<close>

lemma extends_keys:
  assumes "at_extends T T'" "sra_ok L T a"
  shows "sra_ok L T' a" "sraGetArityList T' a = sraGetArityList T a"
  using assms by (auto simp: sra_ok_def at_extends_def sraGetArityList_def split: SRecordArity.splits)

lemma extends_record:
  assumes "at_extends T T'" "sr_ok L T r"
  shows "sr_ok L T' r" "sr_map T' r = sr_map T r" "sr_keys T' r = sr_keys T r"
  using assms extends_keys[OF assms(1)] by (auto simp: sr_ok_def sr_map_def)

lemma newSRecord_ar_simps [simp]:
  "sr_label (newSRecord_ar J T lab p) = lab" "length (sr_args (newSRecord_ar J T lab p)) = ar_width (getArity_at T p)"
  "sr_arity (newSRecord_ar J T lab p) =
     (if isTuple_ar (getArity_at T p) then TupleWidth (ar_width (getArity_at T p)) else RecordArity p)"
  by (simp_all add: newSRecord_ar_def newSRecord_tuple_def newSRecord_w_def Let_def)

lemma newSRecord_ar_spec:
  assumes "at_ok L T" "at_valid T p" "ar_list (getArity_at T p) = ks" "arity_list L ks" "ks \<noteq> []" "features_ok L (set ks)"
  shows "sr_ok L T (newSRecord_ar J T lab p)" "sr_keys T (newSRecord_ar J T lab p) = ks"
proof -
  have ao: "arity_of L ks (getArity_at T p)" using at_ok_get(1)[OF assms(1,2)] assms(3) by simp
  have w: "ar_width (getArity_at T p) = length ks" using ao by (simp add: arity_of_def)
  show "sr_keys T (newSRecord_ar J T lab p) = ks"
    using ao w assms(3) by (auto simp: sraGetArityList_def arity_of_def tuple_list_def)
  moreover have "int (length ks) \<le> OzMaxInt" if "tuple_list ks"
  proof -
    have "int (length ks) \<in> {1..int (length ks)}" using assms(5) by (simp add: Suc_leI)
    then have "SmallInt (int (length ks)) \<in> set ks"
      using that makeTupleArityList_simps(2)[of "length ks"] unfolding tuple_list_def by (metis imageI)
    then have "feat_range (SmallInt (int (length ks)))" using assms(6) unfolding features_ok_def by blast
    then show ?thesis by simp
  qed
  ultimately show "sr_ok L T (newSRecord_ar J T lab p)"
    using ao w assms by (auto simp: sr_ok_def sra_ok_def arity_of_def)
qed

lemma newSRecord_copy_id: "at_ok L T \<Longrightarrow> sr_ok L T r \<Longrightarrow> newSRecord_copy T r = r"
  using sr_okD(2,4)[of L T r] map_nth[of "sr_args r"] by (cases r) (simp add: newSRecord_copy_def newSRecord_w_def)

lemma map_add_covers: "dom m \<subseteq> dom n \<Longrightarrow> m ++ n = n"
  by (auto simp: map_add_def fun_eq_iff split: option.splits)

section \<open>Adjunction\<close>

text \<open>A new record for a list of features.\<close>

lemma new_record:
  assumes "at_ok L T" "arity_list L ks" "ks \<noteq> []" "features_ok L (set ks)"
  shows "\<exists>T' p. find_at L T ks = Some (T', p) \<and> at_ok L T' \<and> at_extends T T' \<and> at_valid T' p \<and> ar_list (getArity_at T' p) = ks \<and>
    sr_ok L T' (newSRecord_ar J T' lab p) \<and> sr_keys T' (newSRecord_ar J T' lab p) = ks"
proof -
  obtain T' p where f: "find_at L T ks = Some (T', p)" "at_ok L T'" "at_extends T T'" "at_valid T' p" "ar_list (getArity_at T' p) = ks"
    using find_at_spec[OF assms(1) arity_list_distinct[OF assms(2)]] by blast
  then show ?thesis using newSRecord_ar_spec[OF f(2,4,5) assms(2-4)] by blast
qed

lemma sr_keys_ne: "at_ok L T \<Longrightarrow> sr_ok L T r \<Longrightarrow> sr_keys T r \<noteq> []"
  using at_ok_get(1)[of L T]
  by (auto simp: sr_ok_def sra_ok_def sraGetArityList_def arity_of_def tuple_list_def makeTupleArityList_def split: SRecordArity.splits)

lemma oz_adjoin_spec:
  assumes T: "at_ok L T" and l: "sr_ok L T l" and h: "sr_ok L T h" and F: "features_ok L (set (sr_keys T l) \<union> set (sr_keys T h))"
  shows "yields_record c L T (oz_adjoin c J L T l h) (sr_label h) (sr_map T l ++ sr_map T h)"
proof -
  let ?k1 = "sr_keys T l" and ?k2 = "sr_keys T h"
  let ?ks = "merge_f (featureCmp L) ?k1 ?k2"
  note L1 = sr_okD[OF T l] and L2 = sr_okD[OF T h]
  have fo: "feats_ok L (set ?k1 \<union> set ?k2)" using F by (simp add: features_ok_def)
  have m: "set ?ks = set ?k1 \<union> set ?k2" "arity_list L ?ks"
    using feats_merge[OF fo Un_upper1 Un_upper2] L1(3) L2(3) by simp_all
  have "?ks \<noteq> []" using m(1) sr_keys_ne[OF T h] by (cases ?ks) auto
  then obtain T' p where f: "find_at L T ?ks = Some (T', p)" "at_ok L T'" "at_extends T T'" "at_valid T' p" "ar_list (getArity_at T' p) = ?ks"
    "sr_ok L T' (newSRecord_ar J T' (sr_label h) p)" "sr_keys T' (newSRecord_ar J T' (sr_label h) p) = ?ks"
    using new_record[OF T m(2), of J "sr_label h"] F m(1) by auto
  let ?new = "newSRecord_ar J T' (sr_label h) p"
  note l' = extends_record[OF f(3) l] and h' = extends_record[OF f(3) h]
  have whole: "yields_record c L T (Some (T', normalize_sr c (newSRecord_copy T' h))) (sr_label h) (sr_map T l ++ sr_map T h)"
    if "set ?ks = set ?k2"
  proof -
    have "dom (sr_map T l) \<subseteq> dom (sr_map T h)" using that m(1) L1(5) L2(5) by auto
    then have "sr_map T' h = sr_map T l ++ sr_map T h" using map_add_covers[of "sr_map T l" "sr_map T h"] h'(2) by simp
    then show ?thesis using newSRecord_copy_id[OF f(2) h'(1)] yields_normalize[OF f(2,3) h'(1) refl] by simp
  qed
  obtain vs where v: "copy_features L T' ?k1 l ?new = Some (?new\<lparr>sr_args := vs\<rparr>)" "sr_ok L T' (?new\<lparr>sr_args := vs\<rparr>)"
    "sr_map T' (?new\<lparr>sr_args := vs\<rparr>) = sr_map T' ?new ++ sr_map T l"
    using copy_features_spec[OF f(2) l'(1) f(6)] l' f(7) m(1) by auto
  obtain ws where w: "copy_features L T' ?k2 h (?new\<lparr>sr_args := vs\<rparr>) = Some (?new\<lparr>sr_args := ws\<rparr>)" "sr_ok L T' (?new\<lparr>sr_args := ws\<rparr>)"
    "sr_map T' (?new\<lparr>sr_args := ws\<rparr>) = sr_map T' ?new ++ sr_map T l ++ sr_map T h"
    using copy_features_spec[OF f(2) h'(1) v(2)] h' f(7) m(1) v(3) by auto
  have "dom (sr_map T' ?new) = set ?ks" using sr_okD(5)[OF f(2,6)] f(7) by simp
  then have "sr_map T' (?new\<lparr>sr_args := ws\<rparr>) = sr_map T l ++ sr_map T h"
    unfolding w(3) map_add_assoc[symmetric] using m(1) L1(5) L2(5) by (intro map_add_covers) auto
  then have copied: "yields_record c L T (Some (T', normalize_sr c (?new\<lparr>sr_args := ws\<rparr>))) (sr_label h) (sr_map T l ++ sr_map T h)"
    by (intro yields_normalize[OF f(2,3) w(2)]) simp_all
  show ?thesis
  proof (cases "sr_arity h")
    case (TupleWidth n)
    have "set ?ks = set ?k2" if "isTuple_ar (getArity_at T' p)" "n = ar_width (getArity_at T' p)"
      using f(7) that TupleWidth by (simp add: sraGetArityList_def)
    then show ?thesis using f(1) v(1) w(1) copied whole TupleWidth by (auto simp: oz_adjoin_def Let_def)
  next
    case (RecordArity q)
    have "normalize_sr c (newSRecord_copy T' h) = TSRecord (newSRecord_copy T' h)"
      using newSRecord_copy_id[OF f(2) h'(1)] RecordArity by (simp add: normalize_sr_def)
    moreover have "set ?ks = set ?k2" if "p = q" using f(5) that RecordArity h'(3) by (simp add: sraGetArityList_def)
    ultimately show ?thesis using f(1) v(1) w(1) copied whole RecordArity by (auto simp: oz_adjoin_def Let_def)
  qed
qed

text \<open>A new record that gets the features of an old one and then the pairs of a list.\<close>

lemma extend_record:
  assumes T: "at_ok L T" and r: "sr_ok L T r" and ks: "arity_list L ks" "set ks = set (sr_keys T r) \<union> fst ` set ps"
    and F: "features_ok L (set ks)"
  shows "\<exists>T' p new vs ws. find_at L T ks = Some (T', p) \<and> at_ok L T' \<and> at_extends T T' \<and>
    new = newSRecord_ar J T' (sr_label r) p \<and> sr_ok L T' (new\<lparr>sr_args := vs\<rparr>) \<and> sr_keys T' new = ks \<and>
    copy_features L T' (sr_keys T r) r new = Some (new\<lparr>sr_args := vs\<rparr>) \<and>
    setFeatures L T' ps (new\<lparr>sr_args := vs\<rparr>) = Some (new\<lparr>sr_args := ws\<rparr>) \<and>
    sr_ok L T' (new\<lparr>sr_args := ws\<rparr>) \<and> sr_map T' (new\<lparr>sr_args := ws\<rparr>) = sr_map T r ++ map_of (rev ps)"
proof -
  have "ks \<noteq> []" using ks(2) sr_keys_ne[OF T r] by (cases ks) auto
  then obtain T' p where f: "find_at L T ks = Some (T', p)" "at_ok L T'" "at_extends T T'"
    "sr_ok L T' (newSRecord_ar J T' (sr_label r) p)" "sr_keys T' (newSRecord_ar J T' (sr_label r) p) = ks"
    using new_record[OF T ks(1), of J "sr_label r"] F by auto
  let ?new = "newSRecord_ar J T' (sr_label r) p"
  note r' = extends_record[OF f(3) r]
  obtain vs where v: "copy_features L T' (sr_keys T r) r ?new = Some (?new\<lparr>sr_args := vs\<rparr>)" "sr_ok L T' (?new\<lparr>sr_args := vs\<rparr>)"
    "sr_map T' (?new\<lparr>sr_args := vs\<rparr>) = sr_map T' ?new ++ sr_map T r"
    using copy_features_spec[OF f(2) r'(1) f(4)] r' f(5) ks(2) by auto
  obtain ws where w: "setFeatures L T' ps (?new\<lparr>sr_args := vs\<rparr>) = Some (?new\<lparr>sr_args := ws\<rparr>)" "sr_ok L T' (?new\<lparr>sr_args := ws\<rparr>)"
    "sr_map T' (?new\<lparr>sr_args := ws\<rparr>) = sr_map T' ?new ++ sr_map T r ++ map_of (rev ps)"
    using setFeatures_spec[OF f(2) v(2), of ps] f(5) ks(2) v(3) by auto
  have "dom (sr_map T' ?new) = set ks" using sr_okD(5)[OF f(2,4)] f(5) by simp
  then have "sr_map T' (?new\<lparr>sr_args := ws\<rparr>) = sr_map T r ++ map_of (rev ps)"
    unfolding w(3) map_add_assoc[symmetric] using ks(2) sr_okD(5)[OF T r] by (intro map_add_covers) (auto simp: dom_map_of_conv_image_fst)
  then show ?thesis using f v w by blast
qed

lemma oz_adjoinList_spec:
  assumes T: "at_ok L T" and r: "sr_ok L T r" and F: "features_ok L (set (sr_keys T r) \<union> fst ` set ps)"
  shows "yields_record c L T (oz_adjoinList c J L T r (map fst ps) ps) (sr_label r) (sr_map T r ++ map_of (rev ps))"
proof -
  let ?ks = "insertlist (featureCmp L) (map fst ps) (sr_keys T r)"
  have fo: "feats_ok L (set (sr_keys T r) \<union> fst ` set ps)" using F by (simp add: features_ok_def)
  have k: "arity_list L ?ks" "set ?ks = set (sr_keys T r) \<union> fst ` set ps"
    using feats_insertlist[OF fo, of "map fst ps" "sr_keys T r"] sr_okD(3)[OF T r] by auto
  obtain T' p new vs ws where e: "find_at L T ?ks = Some (T', p)" "at_ok L T'" "at_extends T T'" "new = newSRecord_ar J T' (sr_label r) p"
    "copy_features L T' (sr_keys T r) r new = Some (new\<lparr>sr_args := vs\<rparr>)"
    "setFeatures L T' ps (new\<lparr>sr_args := vs\<rparr>) = Some (new\<lparr>sr_args := ws\<rparr>)"
    "sr_ok L T' (new\<lparr>sr_args := ws\<rparr>)" "sr_map T' (new\<lparr>sr_args := ws\<rparr>) = sr_map T r ++ map_of (rev ps)"
    using extend_record[OF T r k, of J] F k(2) by auto
  have "yields_record c L T (Some (T', normalize_sr c (new\<lparr>sr_args := ws\<rparr>))) (sr_label r) (sr_map T r ++ map_of (rev ps))"
    by (rule yields_normalize[OF e(2,3,7) _ e(8)]) (simp add: e(4))
  then show ?thesis using e by (simp add: oz_adjoinList_def Let_def)
qed

lemma oz_adjoinAt_spec:
  assumes T: "at_ok L T" and r: "sr_ok L T r" and F: "features_ok L (insert f (set (sr_keys T r)))"
  shows "yields_record c L T (oz_adjoinAt c J L T r f v) (sr_label r) ((sr_map T r)(f \<mapsto> v))"
proof (cases "f \<in> set (sr_keys T r)")
  case True
  then obtain i where i: "i < length (sr_keys T r)" "f = sr_keys T r ! i" by (metis in_set_conv_nth)
  have "getIndex L T r f = Some (int i)" using sr_okD(6)[OF T r i(1)] i(2) by simp
  moreover obtain vs where "setFeature L T r f v = Some (r\<lparr>sr_args := vs\<rparr>, True)" "sr_ok L T (r\<lparr>sr_args := vs\<rparr>)"
    "sr_map T (r\<lparr>sr_args := vs\<rparr>) = (sr_map T r)(f \<mapsto> v)" using setFeature_spec(1)[OF T r True] by blast
  ultimately show ?thesis using newSRecord_copy_id[OF T r] yields_normalize[OF T at_extends_refl, of "r\<lparr>sr_args := vs\<rparr>"]
    by (simp add: oz_adjoinAt_def)
next
  case False
  let ?ks = "insert_f (featureCmp L) f (sr_keys T r)"
  have fo: "feats_ok L (insert f (set (sr_keys T r)))" using F by (simp add: features_ok_def)
  have k: "arity_list L ?ks" "set ?ks = set (sr_keys T r) \<union> fst ` set [(f, v)]"
    using feats_insert[OF fo, of f "sr_keys T r"] sr_okD(3)[OF T r] by auto
  obtain T' p new vs ws where e: "find_at L T ?ks = Some (T', p)" "at_ok L T'" "at_extends T T'" "new = newSRecord_ar J T' (sr_label r) p"
    "copy_features L T' (sr_keys T r) r new = Some (new\<lparr>sr_args := vs\<rparr>)"
    "setFeatures L T' [(f, v)] (new\<lparr>sr_args := vs\<rparr>) = Some (new\<lparr>sr_args := ws\<rparr>)"
    "sr_ok L T' (new\<lparr>sr_args := ws\<rparr>)" "sr_map T' (new\<lparr>sr_args := ws\<rparr>) = sr_map T r ++ map_of (rev [(f, v)])"
    using extend_record[OF T r k, of J] F k(2) by auto
  have "yields_record c L T (Some (T', normalize_sr c (new\<lparr>sr_args := ws\<rparr>))) (sr_label r) ((sr_map T r)(f \<mapsto> v))"
    by (rule yields_normalize[OF e(2,3,7)]) (simp add: e(4), simp add: e(8))
  moreover obtain ok where "setFeature L T' (new\<lparr>sr_args := vs\<rparr>) f v = Some (new\<lparr>sr_args := ws\<rparr>, ok)"
    using e(6) by (auto split: bind_splits)
  ultimately show ?thesis using e sr_okD(7)[OF T r False] by (simp add: oz_adjoinAt_def Let_def)
qed

section \<open>Representations are unique\<close>

lemma sra_ok_unique:
  assumes "at_ok L T" "sra_ok L T a" "sra_ok L T b" "set (sraGetArityList T a) = set (sraGetArityList T b)"
    "feats_ok L (set (sraGetArityList T a))"
  shows "a = b"
proof -
  have eq: "sraGetArityList T a = sraGetArityList T b"
    by (rule arity_list_unique[OF assms(5) sra_ok_keys(1)[OF assms(1,2)] sra_ok_keys(1)[OF assms(1,3)] assms(4)])
  have nt: "\<not> tuple_list (sraGetArityList T (RecordArity p))" if "sra_ok L T (RecordArity p)" for p
    using that at_ok_get(1)[OF assms(1), of p] by (simp add: sra_ok_def sraGetArityList_def arity_of_def)
  have tu: "tuple_list (sraGetArityList T (TupleWidth w))" for w by (simp add: tuple_list_def sraGetArityList_def)
  show ?thesis
  proof (cases a; cases b)
    fix v w assume "a = TupleWidth v" "b = TupleWidth w"
    then show "a = b" using arg_cong[OF eq, of length] by (simp add: sraGetArityList_def)
  next
    fix p q assume pq: "a = RecordArity p" "b = RecordArity q"
    then have "p = q" using at_canonical[OF assms(1), of p q] assms(2,3) eq by (simp add: sra_ok_def sraGetArityList_def)
    then show "a = b" using pq by simp
  next
    fix v q assume "a = TupleWidth v" "b = RecordArity q"
    then show "a = b" using nt[of q] tu[of v] assms(3) eq by simp
  next
    fix p w assume "a = RecordArity p" "b = TupleWidth w"
    then show "a = b" using nt[of p] tu[of w] assms(2) eq by simp
  qed
qed

lemma compareFunctor_iff:
  assumes "at_ok L T" "sr_ok L T r" "sr_ok L T s" "feats_ok L (set (sr_keys T r))"
  shows "compareFunctor r s \<longleftrightarrow> sr_label r = sr_label s \<and> dom (sr_map T r) = dom (sr_map T s)"
proof -
  have "sra_ok L T (sr_arity r)" "sra_ok L T (sr_arity s)" using assms(2,3) by (simp_all add: sr_ok_def)
  then have "sr_arity r = sr_arity s \<longleftrightarrow> set (sr_keys T r) = set (sr_keys T s)" using sra_ok_unique[OF assms(1) _ _ _ assms(4)] by auto
  then show ?thesis unfolding compareFunctor_def sr_okD(5)[OF assms(1,2)] sr_okD(5)[OF assms(1,3)] by simp
qed

text \<open>Terms in normal form with the same label and the same map are the same.\<close>

lemma sr_map_args: "at_ok L T \<Longrightarrow> sr_ok L T r \<Longrightarrow> sr_args r = map (\<lambda>f. the (sr_map T r f)) (sr_keys T r)"
  using sr_okD(1,2)[of L T r] by (intro nth_equalityI) (simp_all add: sr_map_def map_of_zip_nth)

lemma tuple2_keys: "sraGetArityList T (TupleWidth 2) = [SmallInt 1, SmallInt 2]"
  by (simp add: sraGetArityList_def makeTupleArityList_def numeral_2_eq_2)

lemma rt_map_keys:
  assumes "at_ok L T" "rt_ok c L T t"
  shows "dom (rt_map T t) = set (getArityList_t T t)"
  using assms sr_okD(5)[OF assms(1)] tuple2_keys[of T]
  by (cases t) (auto simp: rt_map_def getArityList_t_def rt_ok_def sraGetArityList_def)

lemma rt_unique:
  assumes T: "at_ok L T" and t: "rt_ok c L T t" and u: "rt_ok c L T u" and F: "feats_ok L (dom (rt_map T t))"
    and eq: "rt_label c t = rt_label c u" "rt_map T t = rt_map T u"
  shows "t = u"
proof -
  have F2: "feats_ok L (dom (rt_map T u))" using F eq(2) by simp
  have two: "sr_arity r = TupleWidth 2" if "sr_ok L T r" "dom (sr_map T r) = {SmallInt 1, SmallInt 2}" "feats_ok L (dom (sr_map T r))" for r :: "'v SRecord"
  proof (rule sra_ok_unique[OF T])
    show "sra_ok L T (sr_arity r)" using that(1) by (simp add: sr_ok_def)
    show "sra_ok L T (TupleWidth 2)" by (simp add: sra_ok_def OzMaxInt_def)
    show "set (sr_keys T r) = set (sraGetArityList T (TupleWidth 2))" using that(2) sr_okD(5)[OF T that(1)] tuple2_keys[of T] by simp
    show "feats_ok L (set (sr_keys T r))" using that(3) sr_okD(5)[OF T that(1)] by simp
  qed
  have one: "dom (sr_map T r) \<noteq> {}" if "sr_ok L T r" for r :: "'v SRecord" using sr_okD(5)[OF T that] sr_keys_ne[OF T that] by simp
  have emp: "rt_map T x = Map.empty \<longleftrightarrow> (\<exists>a. x = TLiteral a)" if "rt_ok c L T x" for x :: "'v rterm"
    using that one by (cases x) (auto simp: rt_map_def rt_ok_def)
  show ?thesis
  proof (cases t; cases u)
    fix r s assume c: "t = TSRecord r" "u = TSRecord s"
    then have ok: "sr_ok L T r" "sr_ok L T s" and m: "sr_map T r = sr_map T s" using t u eq(2) by (simp_all add: rt_ok_def rt_map_def)
    have "feats_ok L (set (sr_keys T r))" using F c sr_okD(5)[OF T ok(1)] by (simp add: rt_map_def)
    then have "compareFunctor r s" using compareFunctor_iff[OF T ok] c eq(1) m by (simp add: rt_label_def)
    then show "t = u" using sr_map_args[OF T ok(1)] sr_map_args[OF T ok(2)] m c by (simp add: compareFunctor_def)
  next
    fix a b assume "t = TLTuple a b"
    moreover fix d e assume "u = TLTuple d e"
    ultimately show "t = u" using eq(2) by (auto simp: rt_map_def fun_eq_iff split: if_splits)
  next
    fix a b r assume c: "t = TLTuple a b" "u = TSRecord r"
    then have "sr_map T r = [SmallInt 1 \<mapsto> a, SmallInt 2 \<mapsto> b]" using eq(2) by (simp add: rt_map_def)
    then have "dom (sr_map T r) = {SmallInt 1, SmallInt 2}" by auto
    then show "t = u" using two[of r] u eq(1) F2 c by (simp add: rt_map_def rt_label_def rt_ok_def)
  next
    fix a b r assume c: "t = TSRecord r" "u = TLTuple a b"
    then have "sr_map T r = [SmallInt 1 \<mapsto> a, SmallInt 2 \<mapsto> b]" using eq(2) by (simp add: rt_map_def)
    then have "dom (sr_map T r) = {SmallInt 1, SmallInt 2}" by auto
    then show "t = u" using two[of r] t eq(1) F c by (simp add: rt_map_def rt_label_def rt_ok_def)
  qed (use eq emp[OF t] emp[OF u] in \<open>simp_all add: rt_label_def\<close>)
qed

end
