(* ===== verification/RecordBuiltins.thy ===== *)
theory RecordBuiltins
  imports SRecord Builtin
begin

text \<open>
  The builtins that construct records (\<^verbatim>\<open>platform/emulator/builtins.cc\<close>): \<^verbatim>\<open>adjoin\<close>, \<^verbatim>\<open>adjoinAt\<close>, \<^verbatim>\<open>adjoinList\<close>,
  \<^verbatim>\<open>makeRecord\<close>, \<^verbatim>\<open>tuple\<close> and \<^verbatim>\<open>cloneRecord\<close>. An argument is an unbound variable, a variable with a constraint
  that no record satisfies, a record, or another value; a list argument is followed until its end, to an
  element or key that is not known yet, or to a value of a wrong type. Cyclic lists, which the code
  detects, are not values of the type of lists used here.
\<close>

section \<open>Arguments\<close>

datatype 'v rec_arg = RVar | RKindedVar | RTerm "'v rterm" | ROther

datatype feat_arg = FVar | FFeature feature | FOther

datatype 'e plist = PNil | PCons 'e "'e plist" | PVar | POther

datatype 'v pelem = EPair feat_arg 'v | EVar | EOther

definition of_option :: "'a option \<Rightarrow> ('a \<Rightarrow> 'b oz_return) \<Rightarrow> 'b oz_return" where
  "of_option x k = (case x of None \<Rightarrow> CxxUndefined | Some a \<Rightarrow> k a)"

definition declareNonvarIN :: "'v rec_arg \<Rightarrow> 'b oz_return \<Rightarrow> 'b oz_return" where
  "declareNonvarIN t k = (case t of RVar \<Rightarrow> Suspend | RKindedVar \<Rightarrow> Suspend | _ \<Rightarrow> k)"

section \<open>Adjunction\<close>

definition BIadjoin ::
    "addr \<Rightarrow> (nat \<Rightarrow> 'v) \<Rightarrow> literals \<Rightarrow> ArityTable \<Rightarrow> 'v rec_arg \<Rightarrow> 'v rec_arg \<Rightarrow> (ArityTable \<times> 'v rterm) oz_return" where
  "BIadjoin AtomCons J L T t0 t1 =
     declareNonvarIN t0 (declareNonvarIN t1
       (case t0 of
          RTerm (TLiteral a) \<Rightarrow> (case t1 of RTerm t \<Rightarrow> Proceed (T, t) | _ \<Rightarrow> TypeErr 1 ''Record'')
        | RTerm t \<Rightarrow>
            of_option (makeRecord AtomCons J L T t) (\<lambda>(T, rec).
              case t1 of
                RTerm (TLiteral b) \<Rightarrow> Proceed (T, normalize_sr AtomCons ((newSRecord_copy T rec)\<lparr>sr_label := b\<rparr>))
              | RTerm u \<Rightarrow>
                  of_option (makeRecord AtomCons J L T u) (\<lambda>(T, rec1).
                  of_option (oz_adjoin AtomCons J L T rec rec1) Proceed)
              | _ \<Rightarrow> TypeErr 1 ''Record'')
        | _ \<Rightarrow> TypeErr 0 ''Record''))"

definition BIadjoinAt ::
    "addr \<Rightarrow> (nat \<Rightarrow> 'v) \<Rightarrow> literals \<Rightarrow> ArityTable \<Rightarrow> 'v rec_arg \<Rightarrow> feat_arg \<Rightarrow> 'v \<Rightarrow> (ArityTable \<times> 'v rterm) oz_return" where
  "BIadjoinAt AtomCons J L T rec fea value =
     declareNonvarIN rec
       (case fea of
          FVar \<Rightarrow> Suspend
        | FOther \<Rightarrow> TypeErr 1 ''Feature''
        | FFeature f \<Rightarrow>
            (case rec of
               RTerm (TLiteral a) \<Rightarrow>
                 of_option (find_at L T [f]) (\<lambda>(T, p).
                   let newrec = newSRecord_ar J T a p
                   in Proceed (T, TSRecord (newrec\<lparr>sr_args := (sr_args newrec)[0 := value]\<rparr>)))
             | RTerm t \<Rightarrow>
                 of_option (makeRecord AtomCons J L T t) (\<lambda>(T, r).
                 of_option (oz_adjoinAt AtomCons J L T r f value) Proceed)
             | _ \<Rightarrow> TypeErr 0 ''Record''))"

text \<open>The keys of a list: an error, an element to wait for, or all of them.\<close>

datatype arity_res = NoArity | SuspArity | IsArity "feature list"

fun getArityFromList :: "('e \<Rightarrow> feat_arg) \<Rightarrow> 'e plist \<Rightarrow> arity_res" where
  "getArityFromList key PNil = IsArity []"
| "getArityFromList key PVar = SuspArity"
| "getArityFromList key POther = NoArity"
| "getArityFromList key (PCons e l) =
     (case key e of
        FVar \<Rightarrow> SuspArity
      | FOther \<Rightarrow> NoArity
      | FFeature f \<Rightarrow> (case getArityFromList key l of IsArity fs \<Rightarrow> IsArity (f # fs) | r \<Rightarrow> r))"

fun pair_key :: "'v pelem \<Rightarrow> feat_arg" where
  "pair_key (EPair k v) = k"
| "pair_key EVar = FVar"
| "pair_key EOther = FOther"

text \<open>The pairs of a list whose keys are all known, as \<^verbatim>\<open>setFeatures\<close> reads them.\<close>

fun proplist_pairs :: "'v pelem plist \<Rightarrow> (feature \<times> 'v) list" where
  "proplist_pairs (PCons (EPair (FFeature f) v) l) = (f, v) # proplist_pairs l"
| "proplist_pairs l = []"

definition typeError0 :: "bool \<Rightarrow> 'b oz_return" where
  "typeError0 recordFlag = TypeErr 0 (if recordFlag then ''Record'' else ''Literal'')"

definition adjoinPropListInline ::
    "addr \<Rightarrow> (nat \<Rightarrow> 'v) \<Rightarrow> literals \<Rightarrow> ArityTable \<Rightarrow> 'v rec_arg \<Rightarrow> 'v pelem plist \<Rightarrow> bool \<Rightarrow> (ArityTable \<times> 'v rterm) oz_return" where
  "adjoinPropListInline AtomCons J L T t0 list recordFlag =
     (case getArityFromList pair_key list of
        NoArity \<Rightarrow> TypeErr 1 ''finite list(Feature#Value)''
      | SuspArity \<Rightarrow>
          (case t0 of
             RTerm (TLiteral a) \<Rightarrow> Suspend
           | RTerm t \<Rightarrow> if recordFlag then Suspend else typeError0 recordFlag
           | RKindedVar \<Rightarrow> typeError0 recordFlag
           | RVar \<Rightarrow> if recordFlag then Suspend else typeError0 recordFlag
           | ROther \<Rightarrow> typeError0 recordFlag)
      | IsArity arity \<Rightarrow>
          if arity = [] then
            (case t0 of
               RTerm (TLiteral a) \<Rightarrow> Proceed (T, TLiteral a)
             | RTerm t \<Rightarrow> if recordFlag then Proceed (T, t) else typeError0 recordFlag
             | RKindedVar \<Rightarrow> typeError0 recordFlag
             | RVar \<Rightarrow> Suspend
             | ROther \<Rightarrow> typeError0 recordFlag)
          else
            (case t0 of
               RTerm (TLiteral a) \<Rightarrow>
                 of_option (sortlist L arity) (\<lambda>sorted.
                   if \<not> recordFlag \<and> length sorted \<noteq> length arity then Raise E_ERROR ''recordConstruction''
                   else
                     of_option (find_at L T sorted) (\<lambda>(T, p).
                     of_option (setFeatures L T (proplist_pairs list) (newSRecord_ar J T a p)) (\<lambda>newrec.
                     Proceed (T, normalize_sr AtomCons newrec))))
             | RTerm t \<Rightarrow>
                 if recordFlag then
                   of_option (makeRecord AtomCons J L T t) (\<lambda>(T, r).
                   of_option (oz_adjoinList AtomCons J L T r arity (proplist_pairs list)) Proceed)
                 else typeError0 recordFlag
             | RKindedVar \<Rightarrow> typeError0 recordFlag
             | RVar \<Rightarrow> Suspend
             | ROther \<Rightarrow> typeError0 recordFlag))"

definition BIadjoinList ::
    "addr \<Rightarrow> (nat \<Rightarrow> 'v) \<Rightarrow> literals \<Rightarrow> ArityTable \<Rightarrow> 'v rec_arg \<Rightarrow> 'v pelem plist \<Rightarrow> (ArityTable \<times> 'v rterm) oz_return" where
  "BIadjoinList AtomCons J L T t0 list = adjoinPropListInline AtomCons J L T t0 list True"

definition BImakeRecord ::
    "addr \<Rightarrow> (nat \<Rightarrow> 'v) \<Rightarrow> literals \<Rightarrow> ArityTable \<Rightarrow> 'v rec_arg \<Rightarrow> 'v pelem plist \<Rightarrow> (ArityTable \<times> 'v rterm) oz_return" where
  "BImakeRecord AtomCons J L T t0 list = adjoinPropListInline AtomCons J L T t0 list False"

section \<open>Tuples and copies\<close>

text \<open>The argument \<open>ov\<close> is the term that stands for a fresh variable of the current space.\<close>

definition BItuple ::
    "addr \<Rightarrow> (nat \<Rightarrow> 'v) \<Rightarrow> 'v \<Rightarrow> 'v rec_arg \<Rightarrow> 'v rterm oz_arg \<Rightarrow> 'v rterm oz_return" where
  "BItuple AtomCons J ov label width =
     declareNonvarIN label
       (declareIntIN 1 width (\<lambda>i.
          case label of
            RTerm (TLiteral a) \<Rightarrow>
              if i < 0 then TypeErr 1 ''(non-negative small) Int''
              else if i = 0 then Proceed (TLiteral a)
              else Proceed (normalize_sr AtomCons ((newSRecord_tuple J a (nat i))\<lparr>sr_args := replicate (nat i) ov\<rparr>))
          | _ \<Rightarrow> TypeErr 0 ''Literal''))"

definition getArity_sr :: "literals \<Rightarrow> ArityTable \<Rightarrow> 'v SRecord \<Rightarrow> (ArityTable \<times> aptr) option" where
  "getArity_sr L T r =
     (case sr_arity r of TupleWidth w \<Rightarrow> find_at L T (makeTupleArityList w) | RecordArity p \<Rightarrow> Some (T, p))"

definition BIcloneRecord ::
    "(nat \<Rightarrow> 'v) \<Rightarrow> 'v \<Rightarrow> literals \<Rightarrow> ArityTable \<Rightarrow> 'v rec_arg \<Rightarrow> (ArityTable \<times> 'v rterm) oz_return" where
  "BIcloneRecord J ov L T rec =
     declareNonvarIN rec
       (case rec of
          RTerm (TLiteral a) \<Rightarrow> Proceed (T, TLiteral a)
        | RTerm (TSRecord r) \<Rightarrow>
            of_option (getArity_sr L T r) (\<lambda>(T, p).
              Proceed (T, TSRecord ((newSRecord_ar J T (sr_label r) p)\<lparr>sr_args := replicate (getWidth_sra T (sr_arity r)) ov\<rparr>)))
        | RTerm (TLTuple a b) \<Rightarrow> Proceed (T, TLTuple ov ov)
        | _ \<Rightarrow> TypeErr 0 ''Record'')"

section \<open>What the builtins return\<close>

definition returns_record ::
    "addr \<Rightarrow> literals \<Rightarrow> ArityTable \<Rightarrow> (ArityTable \<times> 'v rterm) oz_return \<Rightarrow> addr \<Rightarrow> (feature \<rightharpoonup> 'v) \<Rightarrow> bool" where
  "returns_record AtomCons L T res lab m \<longleftrightarrow>
     (\<exists>T' t. res = Proceed (T', t) \<and> at_ok L T' \<and> at_extends T T' \<and> rt_ok AtomCons L T' t \<and>
        rt_label AtomCons t = lab \<and> rt_map T' t = m)"

lemma returns_yields:
  "yields_record c L T res lab m \<Longrightarrow> returns_record c L T (of_option res Proceed) lab m"
  by (auto simp: returns_record_def yields_record_def of_option_def)

lemma returns_extends:
  "at_extends T0 T \<Longrightarrow> returns_record c L T res lab m \<Longrightarrow> returns_record c L T0 res lab m"
  unfolding returns_record_def using at_extends_trans by blast

lemma returns_self: "at_ok L T \<Longrightarrow> rt_ok c L T t \<Longrightarrow> returns_record c L T (Proceed (T, t)) (rt_label c t) (rt_map T t)"
  by (simp add: returns_record_def)

lemma returns_normalize:
  "at_ok L T' \<Longrightarrow> at_extends T T' \<Longrightarrow> sr_ok L T' r \<Longrightarrow> sr_label r = lab \<Longrightarrow> sr_map T' r = m \<Longrightarrow>
   returns_record c L T (Proceed (T', normalize_sr c r)) lab m"
  using returns_yields[OF yields_normalize, of L T' T r lab m c] by (simp add: of_option_def)

lemma rt_extends:
  assumes "at_extends T T'" "rt_ok c L T t"
  shows "rt_ok c L T' t" "rt_map T' t = rt_map T t"
  using assms extends_record[OF assms(1)] by (auto simp: rt_ok_def rt_map_def split: rterm.splits)

text \<open>The record of a term that is not a literal.\<close>

lemma makeRecord_spec:
  assumes T: "at_ok L T" and t: "rt_ok c L T t" "\<nexists>a. t = TLiteral a"
  shows "\<exists>T' r. makeRecord c J L T t = Some (T', r) \<and> at_ok L T' \<and> at_extends T T' \<and> sr_ok L T' r \<and>
    sr_label r = rt_label c t \<and> sr_map T' r = rt_map T t \<and> set (sr_keys T' r) = dom (rt_map T t)"
proof (cases t)
  case (TSRecord r)
  then show ?thesis using T t sr_okD(5)[OF T, of r] by (simp add: makeRecord_def rt_ok_def rt_label_def rt_map_def)
next
  case (TLTuple a b)
  obtain T' p where f: "find_at L T (makeTupleArityList 2) = Some (T', p)" "at_ok L T'" "at_extends T T'" "at_valid T' p"
    "ar_list (getArity_at T' p) = makeTupleArityList 2" using find_at_spec[OF T makeTupleArityList_simps(3)] by blast
  have "arity_of L (makeTupleArityList 2) (getArity_at T' p)" using at_ok_get(1)[OF f(2,4)] f(5) by simp
  then have new: "newSRecord_ar J T' c p = newSRecord_tuple J c 2"
    by (simp add: newSRecord_ar_def arity_of_def tuple_list_def)
  let ?r = "(newSRecord_tuple J c 2)\<lparr>sr_args := [a, b]\<rparr>"
  have args: "(sr_args (newSRecord_tuple J c 2))[0 := a, 1 := b] = [a, b]"
    by (simp add: newSRecord_tuple_def newSRecord_w_def numeral_2_eq_2)
  have r: "sr_arity ?r = TupleWidth 2" "sr_label ?r = c" by (simp_all add: newSRecord_tuple_def newSRecord_w_def)
  then have "sr_ok L T' ?r" "sr_map T' ?r = rt_map T t" "set (sr_keys T' ?r) = dom (rt_map T t)"
    using TLTuple tuple2_keys[of T'] by (auto simp: sr_ok_def sra_ok_def OzMaxInt_def sr_map_def rt_map_def fun_upd_twist)
  then show ?thesis using f new args r TLTuple by (simp add: makeRecord_def rt_label_def Let_def)
qed (use t in simp)

lemma BIadjoin_spec:
  assumes T: "at_ok L T" and t: "rt_ok c L T t" and u: "rt_ok c L T u" and F: "features_ok L (dom (rt_map T t) \<union> dom (rt_map T u))"
  shows "returns_record c L T (BIadjoin c J L T (RTerm t) (RTerm u)) (rt_label c u) (rt_map T t ++ rt_map T u)"
proof (cases "\<exists>a. t = TLiteral a")
  case True
  then have "rt_map T t = Map.empty" by (auto simp: rt_map_def)
  then show ?thesis using True returns_self[OF T u] by (auto simp: BIadjoin_def declareNonvarIN_def)
next
  case False
  obtain T1 r where r: "makeRecord c J L T t = Some (T1, r)" "at_ok L T1" "at_extends T T1" "sr_ok L T1 r"
    "sr_map T1 r = rt_map T t" "set (sr_keys T1 r) = dom (rt_map T t)" using makeRecord_spec[OF T t False] by blast
  have step: "BIadjoin c J L T (RTerm t) (RTerm u) =
    (case u of TLiteral b \<Rightarrow> Proceed (T1, normalize_sr c ((newSRecord_copy T1 r)\<lparr>sr_label := b\<rparr>))
     | _ \<Rightarrow> of_option (makeRecord c J L T1 u) (\<lambda>(T, rec1). of_option (oz_adjoin c J L T r rec1) Proceed))"
    using False r(1) by (auto simp: BIadjoin_def declareNonvarIN_def of_option_def split: rterm.splits)
  show ?thesis
  proof (cases "\<exists>b. u = TLiteral b")
    case True
    then obtain b where b: "u = TLiteral b" ..
    have "sr_ok L T1 (r\<lparr>sr_label := b\<rparr>)" "sr_map T1 (r\<lparr>sr_label := b\<rparr>) = rt_map T t" using r(4,5) by (simp_all add: sr_ok_def sr_map_def)
    then show ?thesis using returns_normalize[OF r(2,3), of "r\<lparr>sr_label := b\<rparr>"] step b newSRecord_copy_id[OF r(2,4)]
      by (simp add: rt_label_def rt_map_def)
  next
    case not_lit: False
    obtain T2 s where s: "makeRecord c J L T1 u = Some (T2, s)" "at_ok L T2" "at_extends T1 T2" "sr_ok L T2 s" "sr_label s = rt_label c u"
      "sr_map T2 s = rt_map T u" "set (sr_keys T2 s) = dom (rt_map T u)"
      using makeRecord_spec[OF r(2) rt_extends(1)[OF r(3) u] not_lit, of J] unfolding rt_extends(2)[OF r(3) u] by blast
    note r2 = extends_record[OF s(3) r(4)]
    have "yields_record c L T2 (oz_adjoin c J L T2 r s) (sr_label s) (sr_map T2 r ++ sr_map T2 s)"
      by (rule oz_adjoin_spec[OF s(2) r2(1) s(4)]) (use F r(6) s(7) r2(3) in simp)
    then have "returns_record c L T2 (of_option (oz_adjoin c J L T2 r s) Proceed) (rt_label c u) (rt_map T t ++ rt_map T u)"
      using returns_yields r2(2) r(5) s(5,6) by fastforce
    moreover have "BIadjoin c J L T (RTerm t) (RTerm u) = of_option (oz_adjoin c J L T2 r s) Proceed"
      using step not_lit s(1) by (cases u) (auto simp: of_option_def)
    ultimately show ?thesis using returns_extends[OF at_extends_trans[OF r(3) s(3)]] by simp
  qed
qed

lemma single_record:
  assumes T: "at_ok L T" and F: "features_ok L {f}"
  shows "\<exists>T' p. find_at L T [f] = Some (T', p) \<and> at_ok L T' \<and> at_extends T T' \<and>
    (let r = (newSRecord_ar J T' a p)\<lparr>sr_args := (sr_args (newSRecord_ar J T' a p))[0 := v]\<rparr>
     in sr_ok L T' r \<and> sr_map T' r = [f \<mapsto> v] \<and> sr_label r = a \<and> sr_arity r \<noteq> TupleWidth 2)"
proof -
  obtain T' p where f: "find_at L T [f] = Some (T', p)" "at_ok L T'" "at_extends T T'"
    "sr_ok L T' (newSRecord_ar J T' a p)" "sr_keys T' (newSRecord_ar J T' a p) = [f]"
    using new_record[OF T, of "[f]" J a] F by (auto simp: arity_list_def)
  let ?n = "newSRecord_ar J T' a p"
  have l: "length (sr_args ?n) = 1" using sr_okD(2)[OF f(2,4)] f(5) by simp
  then obtain x where x: "sr_args ?n = [x]" by (auto simp: length_Suc_conv simp del: newSRecord_ar_simps)
  have two: "sr_arity ?n \<noteq> TupleWidth 2" using f(5) tuple2_keys[of T'] by auto
  have "sr_keys T' (?n\<lparr>sr_args := [v]\<rparr>) = [f]" using f(5) by simp
  then have "sr_map T' (?n\<lparr>sr_args := [v]\<rparr>) = [f \<mapsto> v]" "sr_ok L T' (?n\<lparr>sr_args := [v]\<rparr>)"
    using f(4) x unfolding sr_map_def sr_ok_def by simp_all
  then show ?thesis using f(1-3) x two by (simp add: Let_def del: newSRecord_ar_simps(3))
qed

lemma BIadjoinAt_spec:
  assumes T: "at_ok L T" and t: "rt_ok c L T t" and F: "features_ok L (insert f (dom (rt_map T t)))"
  shows "returns_record c L T (BIadjoinAt c J L T (RTerm t) (FFeature f) v) (rt_label c t) ((rt_map T t)(f \<mapsto> v))"
proof (cases "\<exists>a. t = TLiteral a")
  case True
  then obtain a where a: "t = TLiteral a" ..
  have "features_ok L {f}" using features_ok_mono[OF F] by simp
  then show ?thesis using single_record[OF T, of f J a v] a
    by (auto simp: BIadjoinAt_def declareNonvarIN_def of_option_def returns_record_def rt_ok_def rt_label_def rt_map_def Let_def
        simp del: newSRecord_ar_simps(3))
next
  case False
  obtain T1 r where r: "makeRecord c J L T t = Some (T1, r)" "at_ok L T1" "at_extends T T1" "sr_ok L T1 r" "sr_label r = rt_label c t"
    "sr_map T1 r = rt_map T t" "set (sr_keys T1 r) = dom (rt_map T t)" using makeRecord_spec[OF T t False] by blast
  have "yields_record c L T1 (oz_adjoinAt c J L T1 r f v) (sr_label r) ((sr_map T1 r)(f \<mapsto> v))"
    by (rule oz_adjoinAt_spec[OF r(2,4)]) (use F r(7) in simp)
  then have "returns_record c L T (of_option (oz_adjoinAt c J L T1 r f v) Proceed) (rt_label c t) ((rt_map T t)(f \<mapsto> v))"
    using returns_extends[OF r(3) returns_yields] r(5,6) by simp
  moreover have "BIadjoinAt c J L T (RTerm t) (FFeature f) v = of_option (oz_adjoinAt c J L T1 r f v) Proceed"
    using False r(1) by (cases t) (auto simp: BIadjoinAt_def declareNonvarIN_def of_option_def)
  ultimately show ?thesis by simp
qed

lemma proplist_keys: "getArityFromList pair_key l = IsArity fs \<Longrightarrow> map fst (proplist_pairs l) = fs"
  by (induction l arbitrary: fs rule: proplist_pairs.induct) (auto split: feat_arg.splits arity_res.splits)

text \<open>A record from a label and a list of pairs.\<close>

lemma literal_record:
  assumes T: "at_ok L T" and F: "features_ok L (set fs)" and fs: "fs = map fst ps" "fs \<noteq> []" "length fs \<le> 2 ^ 31"
  shows "\<exists>sorted T' p r. sortlist L fs = Some sorted \<and> (length sorted = length fs \<longleftrightarrow> distinct fs) \<and> find_at L T sorted = Some (T', p) \<and>
    setFeatures L T' ps (newSRecord_ar J T' a p) = Some r \<and> returns_record c L T (Proceed (T', normalize_sr c r)) a (map_of (rev ps))"
proof -
  obtain ks where k: "sortlist L fs = Some ks" "set ks = set fs" "arity_list L ks"
    using sortlist_spec[OF _ fs(3,2), of L] F by (auto simp: features_ok_def)
  have "length ks = card (set fs)" using distinct_card[OF arity_list_distinct[OF k(3)]] k(2) by simp
  then have len: "length ks = length fs \<longleftrightarrow> distinct fs" using card_distinct distinct_card by metis
  have "ks \<noteq> []" using k(2) fs(2) by auto
  then obtain T' p where f: "find_at L T ks = Some (T', p)" "at_ok L T'" "at_extends T T'"
    "sr_ok L T' (newSRecord_ar J T' a p)" "sr_keys T' (newSRecord_ar J T' a p) = ks"
    using new_record[OF T k(3), of J a] F k(2) by auto
  let ?n = "newSRecord_ar J T' a p"
  obtain vs where v: "setFeatures L T' ps ?n = Some (?n\<lparr>sr_args := vs\<rparr>)" "sr_ok L T' (?n\<lparr>sr_args := vs\<rparr>)"
    "sr_map T' (?n\<lparr>sr_args := vs\<rparr>) = sr_map T' ?n ++ map_of (rev ps)"
    using setFeatures_spec[OF f(2,4), of ps] f(5) k(2) fs(1) by auto
  have "dom (sr_map T' ?n) = dom (map_of (rev ps))" using sr_okD(5)[OF f(2,4)] f(5) k(2) fs(1) by (simp add: dom_map_of_conv_image_fst)
  then have "sr_map T' ?n ++ map_of (rev ps) = map_of (rev ps)" by (intro map_add_covers) simp
  then have "sr_map T' (?n\<lparr>sr_args := vs\<rparr>) = map_of (rev ps)" using v(3) by metis
  then have "returns_record c L T (Proceed (T', normalize_sr c (?n\<lparr>sr_args := vs\<rparr>))) a (map_of (rev ps))"
    by (intro returns_normalize[OF f(2,3) v(2)]) simp_all
  then show ?thesis using k(1) len f(1) v(1) by blast
qed

lemma BIadjoinList_spec:
  assumes T: "at_ok L T" and t: "rt_ok c L T t" and l: "getArityFromList pair_key l = IsArity fs" "length fs \<le> 2 ^ 31"
    and F: "features_ok L (dom (rt_map T t) \<union> set fs)"
  shows "returns_record c L T (BIadjoinList c J L T (RTerm t) l) (rt_label c t) (rt_map T t ++ map_of (rev (proplist_pairs l)))"
proof -
  let ?ps = "proplist_pairs l"
  note ps = proplist_keys[OF l(1)]
  consider "fs = []" | a where "fs \<noteq> []" "t = TLiteral a" | "fs \<noteq> []" "\<nexists>a. t = TLiteral a" by blast
  then show ?thesis
  proof cases
    case 1
    then have "?ps = []" using ps by simp
    then show ?thesis using 1 l(1) returns_self[OF T t] by (cases t) (simp_all add: BIadjoinList_def adjoinPropListInline_def)
  next
    case 2
    have "features_ok L (set fs)" using features_ok_mono[OF F] by simp
    then obtain sorted T' p r where "sortlist L fs = Some sorted" "find_at L T sorted = Some (T', p)"
      "setFeatures L T' ?ps (newSRecord_ar J T' a p) = Some r" "returns_record c L T (Proceed (T', normalize_sr c r)) a (map_of (rev ?ps))"
      using literal_record[OF T _ ps[symmetric] 2(1) l(2), of J a c] by blast
    then show ?thesis using 2 l(1) by (simp add: BIadjoinList_def adjoinPropListInline_def of_option_def rt_label_def rt_map_def)
  next
    case 3
    obtain T1 r where r: "makeRecord c J L T t = Some (T1, r)" "at_ok L T1" "at_extends T T1" "sr_ok L T1 r" "sr_label r = rt_label c t"
      "sr_map T1 r = rt_map T t" "set (sr_keys T1 r) = dom (rt_map T t)" using makeRecord_spec[OF T t 3(2)] by blast
    have "set fs = fst ` set ?ps" using ps by (metis list.set_map)
    then have "yields_record c L T1 (oz_adjoinList c J L T1 r (map fst ?ps) ?ps) (sr_label r) (sr_map T1 r ++ map_of (rev ?ps))"
      using F r(7) by (intro oz_adjoinList_spec[OF r(2,4)]) simp
    then have "returns_record c L T (of_option (oz_adjoinList c J L T1 r fs ?ps) Proceed) (rt_label c t) (rt_map T t ++ map_of (rev ?ps))"
      using returns_extends[OF r(3) returns_yields] r(5,6) ps by simp
    moreover have "BIadjoinList c J L T (RTerm t) l = of_option (oz_adjoinList c J L T1 r fs ?ps) Proceed"
      using 3 l(1) r(1) by (cases t) (auto simp: BIadjoinList_def adjoinPropListInline_def of_option_def)
    ultimately show ?thesis by simp
  qed
qed

lemma BImakeRecord_spec:
  assumes T: "at_ok L T" and l: "getArityFromList pair_key l = IsArity fs" "fs \<noteq> []" "length fs \<le> 2 ^ 31" and F: "features_ok L (set fs)"
  shows "distinct fs \<Longrightarrow> returns_record c L T (BImakeRecord c J L T (RTerm (TLiteral a)) l) a (map_of (proplist_pairs l))"
    "\<not> distinct fs \<Longrightarrow> BImakeRecord c J L T (RTerm (TLiteral a)) l = Raise E_ERROR ''recordConstruction''"
proof -
  let ?ps = "proplist_pairs l"
  note ps = proplist_keys[OF l(1)]
  obtain sorted T' p r where r: "sortlist L fs = Some sorted" "length sorted = length fs \<longleftrightarrow> distinct fs" "find_at L T sorted = Some (T', p)"
    "setFeatures L T' ?ps (newSRecord_ar J T' a p) = Some r" "returns_record c L T (Proceed (T', normalize_sr c r)) a (map_of (rev ?ps))"
    using literal_record[OF T F ps[symmetric] l(2,3), of J a c] by blast
  show "returns_record c L T (BImakeRecord c J L T (RTerm (TLiteral a)) l) a (map_of ?ps)" if "distinct fs"
    using r l that ps map_of_inject_set[of "rev ?ps" ?ps]
    by (simp add: BImakeRecord_def adjoinPropListInline_def of_option_def rev_map[symmetric])
  show "BImakeRecord c J L T (RTerm (TLiteral a)) l = Raise E_ERROR ''recordConstruction''" if "\<not> distinct fs"
    using r l that by (simp add: BImakeRecord_def adjoinPropListInline_def of_option_def)
qed

lemma zip_replicate_map: "map_of (zip ks (replicate (length ks) x)) = (\<lambda>f. if f \<in> set ks then Some x else None)"
  by (induction ks) auto

lemma BItuple_spec:
  assumes "0 < i" "i \<le> OzMaxInt"
  shows "\<exists>t. BItuple c J ov (RTerm (TLiteral a)) (OzInt i) = Proceed t \<and> rt_ok c L T t \<and> rt_label c t = a \<and>
    rt_map T t = (\<lambda>f. if f \<in> SmallInt ` {1..i} then Some ov else None)"
proof -
  let ?r = "(newSRecord_tuple J a (nat i))\<lparr>sr_args := replicate (nat i) ov\<rparr>"
  have r: "sr_arity ?r = TupleWidth (nat i)" "sr_label ?r = a" by (simp_all add: newSRecord_tuple_def newSRecord_w_def)
  then have keys: "sr_keys T ?r = makeTupleArityList (nat i)" by (simp add: sraGetArityList_def)
  have ok: "sr_ok L T ?r" unfolding sr_ok_def keys using r assms by (simp add: sra_ok_def)
  have "map_of (zip (makeTupleArityList (nat i)) (replicate (nat i) ov)) = (\<lambda>f. if f \<in> SmallInt ` {1..i} then Some ov else None)"
    using zip_replicate_map[of "makeTupleArityList (nat i)" ov] assms(1) by simp
  then have "sr_map T ?r = (\<lambda>f. if f \<in> SmallInt ` {1..i} then Some ov else None)" unfolding sr_map_def keys by simp
  moreover have "getInt i = i" using assms by (simp add: getInt_def INT_MAX_def INT_MIN_def OzMaxInt_def)
  ultimately show ?thesis using normalize_spec[OF ok, of c] r assms by (simp add: BItuple_def declareNonvarIN_def)
qed

lemma BIcloneRecord_spec:
  assumes T: "at_ok L T" and t: "rt_ok c L T t"
  shows "returns_record c L T (BIcloneRecord J ov L T (RTerm t)) (rt_label c t) (\<lambda>f. if f \<in> dom (rt_map T t) then Some ov else None)"
proof (cases t)
  case (TSRecord r)
  then have r: "sr_ok L T r" "\<not> (sr_arity r = TupleWidth 2 \<and> sr_label r = c)" using t by (simp_all add: rt_ok_def)
  obtain T' p where f: "getArity_sr L T r = Some (T', p)" "at_ok L T'" "at_extends T T'" "at_valid T' p"
    "ar_list (getArity_at T' p) = sr_keys T r"
  proof (cases "sr_arity r")
    case (TupleWidth w)
    then show ?thesis using find_at_spec[OF T makeTupleArityList_simps(3)[of w]] that by (auto simp: getArity_sr_def sraGetArityList_def)
  next
    case (RecordArity q)
    then show ?thesis using T r(1) that[of T q] by (simp add: getArity_sr_def sraGetArityList_def sr_ok_def sra_ok_def)
  qed
  let ?n = "newSRecord_ar J T' (sr_label r) p"
  have ao: "arity_of L (sr_keys T r) (getArity_at T' p)" using at_ok_get(1)[OF f(2,4)] f(5) by simp
  have "sr_arity ?n = sr_arity r"
  proof (cases "sr_arity r")
    case (TupleWidth w)
    then show ?thesis using ao by (simp add: arity_of_def tuple_list_def sraGetArityList_def)
  next
    case (RecordArity q)
    then show ?thesis using f(1) r(1) by (simp add: getArity_sr_def sr_ok_def sra_ok_def)
  qed
  moreover note r' = extends_record[OF f(3) r(1)]
  moreover have w: "getWidth_sra T' (sr_arity r) = length (sr_keys T r)" using sr_okD(4)[OF f(2) r'(1)] r'(3) by simp
  ultimately have "sr_ok L T' (?n\<lparr>sr_args := replicate (length (sr_keys T r)) ov\<rparr>)" 
    "sr_map T' (?n\<lparr>sr_args := replicate (length (sr_keys T r)) ov\<rparr>) = (\<lambda>f. if f \<in> set (sr_keys T r) then Some ov else None)"
    "sr_arity (?n\<lparr>sr_args := replicate (length (sr_keys T r)) ov\<rparr>) = sr_arity r"
    by (simp_all add: sr_ok_def sr_map_def zip_replicate_map del: newSRecord_ar_simps(3))
  then show ?thesis using f r(2) w TSRecord sr_okD(5)[OF T r(1)]
    by (simp add: BIcloneRecord_def declareNonvarIN_def of_option_def returns_record_def rt_ok_def rt_label_def rt_map_def)
next
  case (TLTuple a b)
  then show ?thesis using T by (auto simp: BIcloneRecord_def declareNonvarIN_def returns_record_def rt_ok_def rt_label_def rt_map_def fun_eq_iff)
qed (use T in \<open>simp add: BIcloneRecord_def declareNonvarIN_def returns_record_def rt_ok_def rt_label_def rt_map_def\<close>)

end
