(* ===== verification/Dictionary.thy ===== *)
theory Dictionary
  imports RecordBuiltins
begin

text \<open>
  Dictionaries: \<^verbatim>\<open>class OzDictionary\<close> of \<^verbatim>\<open>platform/emulator/dictionary.hh\<close>, its builtins and the operations that a
  distributed dictionary runs at the site of its state (\<^verbatim>\<open>dictionary.cc\<close>), and the conversion of records
  to dictionaries and back. A builtin gets the dictionary as it is and returns it as it is after
  the operation, with the result; an operation on a distributed dictionary is left to the
  distribution layer, the parameter \<open>dist\<close>. Spaces of the computation have type \<open>'b\<close>.
\<close>

section \<open>Dictionaries\<close>

record ('b, 'v) OzDictionary =
  dict_table :: "'v DictHashTable"
  dict_flags :: int32
  dict_home :: 'b
  dict_distributed :: bool

definition DictDefaultSize :: nat where
  "DictDefaultSize = 5"

definition newOzDictionary :: "'b \<Rightarrow> nat \<Rightarrow> ('b, 'v) OzDictionary option" where
  "newOzDictionary b sz =
     map_option (\<lambda>t. \<lparr>dict_table = t, dict_flags = 0, dict_home = b, dict_distributed = False\<rparr>) (init_ht sz)"

text \<open>A copy of the table has blocks of its own.\<close>

definition copy_ht :: "'v DictHashTable \<Rightarrow> 'v DictHashTable" where
  "copy_ht t =
     t\<lparr>ht_table := map (\<lambda>n. case n of EmptyNode \<Rightarrow> EmptyNode | Entry k v \<Rightarrow> Entry k v | Block ps \<Rightarrow> Block (map (\<lambda>p. p) ps)) (ht_table t)\<rparr>"

definition getArg_d :: "literals \<Rightarrow> ('b, 'v) OzDictionary \<Rightarrow> feature \<Rightarrow> 'v option" where
  "getArg_d L d key = htFind L (dict_table d) key"

definition member_d :: "literals \<Rightarrow> ('b, 'v) OzDictionary \<Rightarrow> feature \<Rightarrow> bool" where
  "member_d L d key \<longleftrightarrow> htFind L (dict_table d) key \<noteq> None"

definition setArg_d :: "literals \<Rightarrow> ('b, 'v) OzDictionary \<Rightarrow> feature \<Rightarrow> 'v \<Rightarrow> ('b, 'v) OzDictionary option" where
  "setArg_d L d key value = map_option (\<lambda>t. d\<lparr>dict_table := t\<rparr>) (htAdd L (dict_table d) key value)"

definition exchange_d ::
    "literals \<Rightarrow> ('b, 'v) OzDictionary \<Rightarrow> feature \<Rightarrow> 'v \<Rightarrow> bool \<Rightarrow> (('b, 'v) OzDictionary \<times> 'v option) option" where
  "exchange_d L d key value createFlag =
     map_option (\<lambda>(t, old). (d\<lparr>dict_table := t\<rparr>, old)) (htExchange L (dict_table d) key value createFlag)"

definition remove_d :: "literals \<Rightarrow> ('b, 'v) OzDictionary \<Rightarrow> feature \<Rightarrow> ('b, 'v) OzDictionary" where
  "remove_d L d key = d\<lparr>dict_table := htDel L (dict_table d) key\<rparr>"

definition removeAll_d :: "('b, 'v) OzDictionary \<Rightarrow> ('b, 'v) OzDictionary option" where
  "removeAll_d d = map_option (\<lambda>t. d\<lparr>dict_table := t, dict_flags := 0\<rparr>) (init_ht DictDefaultSize)"

definition isEmpty_d :: "('b, 'v) OzDictionary \<Rightarrow> bool" where
  "isEmpty_d d \<longleftrightarrow> ht_entries (dict_table d) = 0"

definition clone_d :: "'b \<Rightarrow> ('b, 'v) OzDictionary \<Rightarrow> ('b, 'v) OzDictionary" where
  "clone_d b d = \<lparr>dict_table = copy_ht (dict_table d), dict_flags = dict_flags d, dict_home = b, dict_distributed = False\<rparr>"

definition isSafeDict :: "('b, 'v) OzDictionary \<Rightarrow> bool" where
  "isSafeDict d \<longleftrightarrow> dict_flags d AND 1 \<noteq> 0"

definition markSafe :: "('b, 'v) OzDictionary \<Rightarrow> ('b, 'v) OzDictionary" where
  "markSafe d = d\<lparr>dict_flags := dict_flags d OR 1\<rparr>"

text \<open>The record with the features of the table; without any it is the label.\<close>

definition toRecord_ht ::
    "addr \<Rightarrow> (nat \<Rightarrow> 'v) \<Rightarrow> literals \<Rightarrow> ArityTable \<Rightarrow> 'v DictHashTable \<Rightarrow> addr \<Rightarrow> (ArityTable \<times> 'v rterm) option" where
  "toRecord_ht AtomCons J L T d lbl =
     (if ht_entries d = 0 then Some (T, TLiteral lbl)
      else
        getArityList L d [] \<bind> (\<lambda>alist.
        find_at L T alist \<bind> (\<lambda>(T, arity).
        setFeatures L T (ht_collect (\<lambda>p ps. ps @ [p]) d []) (newSRecord_ar J T lbl arity) \<bind> (\<lambda>newrec.
        Some (T, normalize_sr AtomCons newrec)))))"

section \<open>Operations at the site of the state\<close>

datatype 'v dict_op =
    OP_MEMBER feature | OP_GET feature | OP_CONDGET feature 'v | OP_PUT feature 'v | OP_EXCHANGE feature 'v
  | OP_CONDEXCHANGE feature 'v 'v | OP_ISEMPTY | OP_REMOVE feature | OP_REMOVEALL | OP_KEYS | OP_ITEMS | OP_ENTRIES
  | OP_CLONE | OP_TORECORD addr

datatype ('b, 'v) dict_res =
    NoResult | BoolResult bool | ValResult 'v | KeysResult "feature list" | ItemsResult "'v list"
  | EntriesResult "(feature \<times> 'v) list" | DictResult "('b, 'v) OzDictionary" | RecordResult "'v rterm"

record ('b, 'v) dict_env =
  env_AtomCons :: addr
  env_J :: "nat \<Rightarrow> 'v"
  env_L :: literals
  env_rootBoard :: 'b
  env_currentBoard :: 'b

type_synonym ('b, 'v) dict_state = "ArityTable \<times> ('b, 'v) OzDictionary"

type_synonym ('b, 'v) dict_ret = "(('b, 'v) dict_state \<times> ('b, 'v) dict_res) oz_return"

text \<open>\<open>OP_CONDEXCHANGE\<close> has the key, the new value and the default, in the order of the array of arguments.\<close>

definition dictionaryOperation ::
    "('b, 'v) dict_env \<Rightarrow> 'v dict_op \<Rightarrow> ('b, 'v) dict_state \<Rightarrow> ('b, 'v) dict_ret" where
  "dictionaryOperation env oper s =
     (let (T, d) = s; L = env_L env
      in case oper of
           OP_MEMBER k \<Rightarrow> Proceed (s, BoolResult (member_d L d k))
         | OP_GET k \<Rightarrow> (case getArg_d L d k of Some v \<Rightarrow> Proceed (s, ValResult v) | None \<Rightarrow> Raise E_ERROR ''dict'')
         | OP_CONDGET k deflt \<Rightarrow> Proceed (s, ValResult (case getArg_d L d k of Some v \<Rightarrow> v | None \<Rightarrow> deflt))
         | OP_PUT k v \<Rightarrow> of_option (setArg_d L d k v) (\<lambda>d. Proceed ((T, d), NoResult))
         | OP_EXCHANGE k v \<Rightarrow>
             of_option (exchange_d L d k v False) (\<lambda>(d, old).
               case old of Some x \<Rightarrow> Proceed ((T, d), ValResult x) | None \<Rightarrow> Raise E_ERROR ''dict'')
         | OP_CONDEXCHANGE k v deflt \<Rightarrow>
             of_option (exchange_d L d k v False) (\<lambda>(d, old).
               Proceed ((T, d), ValResult (case old of Some x \<Rightarrow> x | None \<Rightarrow> deflt)))
         | OP_ISEMPTY \<Rightarrow> Proceed (s, BoolResult (isEmpty_d d))
         | OP_REMOVE k \<Rightarrow> Proceed ((T, remove_d L d k), NoResult)
         | OP_REMOVEALL \<Rightarrow> of_option (removeAll_d d) (\<lambda>d. Proceed ((T, d), NoResult))
         | OP_KEYS \<Rightarrow> Proceed (s, KeysResult (getKeys (dict_table d)))
         | OP_ITEMS \<Rightarrow> Proceed (s, ItemsResult (getItems (dict_table d)))
         | OP_ENTRIES \<Rightarrow> Proceed (s, EntriesResult (getPairs (dict_table d)))
         | OP_CLONE \<Rightarrow> Proceed (s, DictResult (clone_d (env_rootBoard env) d))
         | OP_TORECORD lbl \<Rightarrow>
             of_option (toRecord_ht (env_AtomCons env) (env_J env) L T (dict_table d) lbl) (\<lambda>(T, t). Proceed ((T, d), RecordResult t)))"

section \<open>Builtins\<close>

datatype ('b, 'v) dict_arg = DVar | DDict "('b, 'v) OzDictionary" | DOther

type_synonym ('b, 'v) dist_op = "'v dict_op \<Rightarrow> ('b, 'v) dict_state \<Rightarrow> ('b, 'v) dict_ret"

definition CheckLocalBoard :: "('b, 'v) dict_env \<Rightarrow> ('b, 'v) OzDictionary \<Rightarrow> ('b, 'v) dict_ret \<Rightarrow> ('b, 'v) dict_ret" where
  "CheckLocalBoard env d k =
     (if env_currentBoard env \<noteq> env_rootBoard env \<and> dict_home d \<noteq> env_currentBoard env then Raise E_ERROR ''globalState'' else k)"

definition declareDictionaryIN :: "nat \<Rightarrow> ('b, 'v) dict_arg \<Rightarrow> (('b, 'v) OzDictionary \<Rightarrow> ('b, 'v) dict_ret) \<Rightarrow> ('b, 'v) dict_ret" where
  "declareDictionaryIN pos arg k = (case arg of DVar \<Rightarrow> Suspend | DOther \<Rightarrow> TypeErr pos ''Dictionary'' | DDict d \<Rightarrow> k d)"

definition GetDictAndKey ::
    "('b, 'v) dict_env \<Rightarrow> ('b, 'v) dict_arg \<Rightarrow> feat_arg \<Rightarrow> bool \<Rightarrow> (('b, 'v) OzDictionary \<Rightarrow> feature \<Rightarrow> ('b, 'v) dict_ret) \<Rightarrow> ('b, 'v) dict_ret" where
  "GetDictAndKey env d k checkboard cont =
     (case k of
        FVar \<Rightarrow> Suspend
      | FOther \<Rightarrow> TypeErr 1 ''feature''
      | FFeature key \<Rightarrow>
          declareDictionaryIN 0 d (\<lambda>dict. if checkboard then CheckLocalBoard env dict (cont dict key) else cont dict key))"

definition BIdictionaryNew :: "('b, 'v) dict_env \<Rightarrow> ('b, 'v) OzDictionary oz_return" where
  "BIdictionaryNew env = of_option (newOzDictionary (env_currentBoard env) DictDefaultSize) Proceed"

definition BIdictionaryMarkSafe :: "ArityTable \<Rightarrow> ('b, 'v) dict_arg \<Rightarrow> ('b, 'v) dict_ret" where
  "BIdictionaryMarkSafe T arg = declareDictionaryIN 0 arg (\<lambda>d. Proceed ((T, markSafe d), NoResult))"

definition BIdictionaryKeys :: "('b, 'v) dist_op \<Rightarrow> ArityTable \<Rightarrow> ('b, 'v) dict_arg \<Rightarrow> ('b, 'v) dict_ret" where
  "BIdictionaryKeys dist T arg =
     declareDictionaryIN 0 arg (\<lambda>d.
       if dict_distributed d then dist OP_KEYS (T, d) else Proceed ((T, d), KeysResult (getKeys (dict_table d))))"

definition BIdictionaryEntries :: "('b, 'v) dist_op \<Rightarrow> ArityTable \<Rightarrow> ('b, 'v) dict_arg \<Rightarrow> ('b, 'v) dict_ret" where
  "BIdictionaryEntries dist T arg =
     declareDictionaryIN 0 arg (\<lambda>d.
       if dict_distributed d then dist OP_ENTRIES (T, d) else Proceed ((T, d), EntriesResult (getPairs (dict_table d))))"

definition BIdictionaryItems :: "('b, 'v) dist_op \<Rightarrow> ArityTable \<Rightarrow> ('b, 'v) dict_arg \<Rightarrow> ('b, 'v) dict_ret" where
  "BIdictionaryItems dist T arg =
     declareDictionaryIN 0 arg (\<lambda>d.
       if dict_distributed d then dist OP_ITEMS (T, d) else Proceed ((T, d), ItemsResult (getItems (dict_table d))))"

definition BIdictionaryClone :: "('b, 'v) dict_env \<Rightarrow> ('b, 'v) dist_op \<Rightarrow> ArityTable \<Rightarrow> ('b, 'v) dict_arg \<Rightarrow> ('b, 'v) dict_ret" where
  "BIdictionaryClone env dist T arg =
     declareDictionaryIN 0 arg (\<lambda>d.
       if dict_distributed d then dist OP_CLONE (T, d) else Proceed ((T, d), DictResult (clone_d (env_currentBoard env) d)))"

definition BIdictionaryToRecord ::
    "('b, 'v) dict_env \<Rightarrow> ('b, 'v) dist_op \<Rightarrow> ArityTable \<Rightarrow> 'v rec_arg \<Rightarrow> ('b, 'v) dict_arg \<Rightarrow> ('b, 'v) dict_ret" where
  "BIdictionaryToRecord env dist T label arg =
     declareNonvarIN label
       (case label of
          RTerm (TLiteral lbl) \<Rightarrow>
            declareDictionaryIN 1 arg (\<lambda>d.
              if dict_distributed d then dist (OP_TORECORD lbl) (T, d)
              else
                of_option (toRecord_ht (env_AtomCons env) (env_J env) (env_L env) T (dict_table d) lbl) (\<lambda>(T, t).
                Proceed ((T, d), RecordResult t)))
        | _ \<Rightarrow> TypeErr 0 ''Literal'')"

definition BIdictionaryIsEmpty :: "('b, 'v) dist_op \<Rightarrow> ArityTable \<Rightarrow> ('b, 'v) dict_arg \<Rightarrow> ('b, 'v) dict_ret" where
  "BIdictionaryIsEmpty dist T arg =
     declareDictionaryIN 0 arg (\<lambda>d.
       if dict_distributed d then dist OP_ISEMPTY (T, d) else Proceed ((T, d), BoolResult (isEmpty_d d)))"

definition dictionaryMemberInline ::
    "('b, 'v) dict_env \<Rightarrow> ('b, 'v) dist_op \<Rightarrow> ArityTable \<Rightarrow> ('b, 'v) dict_arg \<Rightarrow> feat_arg \<Rightarrow> ('b, 'v) dict_ret" where
  "dictionaryMemberInline env dist T d k =
     GetDictAndKey env d k False (\<lambda>dict key.
       if dict_distributed dict then dist (OP_MEMBER key) (T, dict)
       else Proceed ((T, dict), BoolResult (member_d (env_L env) dict key)))"

definition dictionaryGetInline ::
    "('b, 'v) dict_env \<Rightarrow> ('b, 'v) dist_op \<Rightarrow> ArityTable \<Rightarrow> ('b, 'v) dict_arg \<Rightarrow> feat_arg \<Rightarrow> ('b, 'v) dict_ret" where
  "dictionaryGetInline env dist T d k =
     GetDictAndKey env d k False (\<lambda>dict key.
       if dict_distributed dict then dist (OP_GET key) (T, dict)
       else
         (case getArg_d (env_L env) dict key of
            Some out \<Rightarrow> Proceed ((T, dict), ValResult out)
          | None \<Rightarrow> Raise E_ERROR ''dict''))"

definition dictionaryCondGetInline ::
    "('b, 'v) dict_env \<Rightarrow> ('b, 'v) dist_op \<Rightarrow> ArityTable \<Rightarrow> ('b, 'v) dict_arg \<Rightarrow> feat_arg \<Rightarrow> 'v \<Rightarrow> ('b, 'v) dict_ret" where
  "dictionaryCondGetInline env dist T d k deflt =
     GetDictAndKey env d k False (\<lambda>dict key.
       if dict_distributed dict then dist (OP_CONDGET key deflt) (T, dict)
       else
         Proceed ((T, dict), ValResult (case getArg_d (env_L env) dict key of Some out \<Rightarrow> out | None \<Rightarrow> deflt)))"

definition dictionaryPutInline ::
    "('b, 'v) dict_env \<Rightarrow> ('b, 'v) dist_op \<Rightarrow> ArityTable \<Rightarrow> ('b, 'v) dict_arg \<Rightarrow> feat_arg \<Rightarrow> 'v \<Rightarrow> ('b, 'v) dict_ret" where
  "dictionaryPutInline env dist T d k value =
     GetDictAndKey env d k True (\<lambda>dict key.
       if dict_distributed dict then dist (OP_PUT key value) (T, dict)
       else of_option (setArg_d (env_L env) dict key value) (\<lambda>dict. Proceed ((T, dict), NoResult)))"

definition dictionaryExchangeInline ::
    "('b, 'v) dict_env \<Rightarrow> ('b, 'v) dist_op \<Rightarrow> ArityTable \<Rightarrow> ('b, 'v) dict_arg \<Rightarrow> feat_arg \<Rightarrow> 'v \<Rightarrow> ('b, 'v) dict_ret" where
  "dictionaryExchangeInline env dist T d k value =
     GetDictAndKey env d k True (\<lambda>dict key.
       if dict_distributed dict then dist (OP_EXCHANGE key value) (T, dict)
       else
         of_option (exchange_d (env_L env) dict key value False) (\<lambda>(dict, old).
           case old of Some x \<Rightarrow> Proceed ((T, dict), ValResult x) | None \<Rightarrow> Raise E_ERROR ''dict''))"

definition dictionaryCondExchangeInline ::
    "('b, 'v) dict_env \<Rightarrow> ('b, 'v) dist_op \<Rightarrow> ArityTable \<Rightarrow> ('b, 'v) dict_arg \<Rightarrow> feat_arg \<Rightarrow> 'v \<Rightarrow> 'v \<Rightarrow> ('b, 'v) dict_ret" where
  "dictionaryCondExchangeInline env dist T d k deflt value =
     GetDictAndKey env d k True (\<lambda>dict key.
       if dict_distributed dict then dist (OP_CONDEXCHANGE key value deflt) (T, dict)
       else
         of_option (exchange_d (env_L env) dict key value True) (\<lambda>(dict, old).
           Proceed ((T, dict), ValResult (case old of Some x \<Rightarrow> x | None \<Rightarrow> deflt))))"

definition dictionaryRemoveInline ::
    "('b, 'v) dict_env \<Rightarrow> ('b, 'v) dist_op \<Rightarrow> ArityTable \<Rightarrow> ('b, 'v) dict_arg \<Rightarrow> feat_arg \<Rightarrow> ('b, 'v) dict_ret" where
  "dictionaryRemoveInline env dist T d k =
     GetDictAndKey env d k True (\<lambda>dict key.
       if dict_distributed dict then dist (OP_REMOVE key) (T, dict)
       else Proceed ((T, remove_d (env_L env) dict key), NoResult))"

definition BIdictionaryRemoveAll :: "('b, 'v) dist_op \<Rightarrow> ArityTable \<Rightarrow> ('b, 'v) dict_arg \<Rightarrow> ('b, 'v) dict_ret" where
  "BIdictionaryRemoveAll dist T arg =
     declareDictionaryIN 0 arg (\<lambda>d.
       if dict_distributed d then dist OP_REMOVEALL (T, d)
       else of_option (removeAll_d d) (\<lambda>d. Proceed ((T, d), NoResult)))"

text \<open>The first key in the list of keys whose value is known; a value is known when \<open>det\<close> holds of it.\<close>

fun waitOr_loop :: "('v \<Rightarrow> bool) \<Rightarrow> literals \<Rightarrow> ('b, 'v) OzDictionary \<Rightarrow> feature list \<Rightarrow> feature oz_return" where
  "waitOr_loop det L d [] = Suspend"
| "waitOr_loop det L d (f # fs) =
     (case getArg_d L d f of
        Some v \<Rightarrow> if det v then Proceed f else waitOr_loop det L d fs
      | None \<Rightarrow> CxxUndefined)"

definition BIdictionaryWaitOr :: "('v \<Rightarrow> bool) \<Rightarrow> literals \<Rightarrow> ('b, 'v) dict_arg \<Rightarrow> feature oz_return" where
  "BIdictionaryWaitOr det L arg =
     (case arg of DVar \<Rightarrow> Suspend | DOther \<Rightarrow> TypeErr 0 ''Dictionary'' | DDict d \<Rightarrow> waitOr_loop det L d (getKeys (dict_table d)))"

text \<open>\<^verbatim>\<open>BIrecordToDictionary\<close>: a tuple is read from its last argument, a record along its arity.\<close>

fun setArgs :: "literals \<Rightarrow> (feature \<times> 'v) list \<Rightarrow> ('b, 'v) OzDictionary \<Rightarrow> ('b, 'v) OzDictionary option" where
  "setArgs L [] d = Some d"
| "setArgs L ((k, v) # ps) d = setArg_d L d k v \<bind> setArgs L ps"

fun record_pairs :: "literals \<Rightarrow> ArityTable \<Rightarrow> 'v SRecord \<Rightarrow> feature list \<Rightarrow> (feature \<times> 'v) list option" where
  "record_pairs L T r [] = Some []"
| "record_pairs L T r (a # as) =
     getFeature L T r a \<bind> (\<lambda>x. x \<bind> (\<lambda>v. map_option ((#) (a, v)) (record_pairs L T r as)))"

definition BIrecordToDictionary ::
    "literals \<Rightarrow> ArityTable \<Rightarrow> 'b \<Rightarrow> 'v rec_arg \<Rightarrow> ('b, 'v) OzDictionary oz_return" where
  "BIrecordToDictionary L T bh rec =
     declareNonvarIN rec
       (case rec of
          RTerm (TLiteral a) \<Rightarrow> of_option (newOzDictionary bh DictDefaultSize) Proceed
        | RTerm (TLTuple a b) \<Rightarrow>
            of_option (newOzDictionary bh DictDefaultSize \<bind> setArgs L [(SmallInt 1, a), (SmallInt 2, b)]) Proceed
        | RTerm (TSRecord r) \<Rightarrow>
            (let width = getWidth_sra T (sr_arity r)
             in of_option
                  (newOzDictionary bh width \<bind> (\<lambda>dict.
                     case sr_arity r of
                       TupleWidth w \<Rightarrow> setArgs L (map (\<lambda>i. (SmallInt (int i + 1), sr_args r ! i)) (rev [0..<width])) dict
                     | RecordArity p \<Rightarrow> record_pairs L T r (sraGetArityList T (sr_arity r)) \<bind> (\<lambda>ps. setArgs L ps dict)))
                  Proceed)
        | _ \<Rightarrow> TypeErr 0 ''Record'')"

section \<open>Dictionaries as maps\<close>

text \<open>
  The interface that the clients of the table rely on: a finite map with lookup, insertion that may
  fail when there are \<open>limit\<close> keys, and removal.
\<close>

datatype ('k, 'v) map_update = Put 'k 'v | Del 'k

fun map_step :: "('k, 'v) map_update \<Rightarrow> ('k \<rightharpoonup> 'v) \<Rightarrow> ('k \<rightharpoonup> 'v)" where
  "map_step (Put k v) m = m(k \<mapsto> v)"
| "map_step (Del k) m = m(k := None)"

fun map_run :: "('d \<Rightarrow> 'k \<Rightarrow> 'v \<Rightarrow> 'd option) \<Rightarrow> ('d \<Rightarrow> 'k \<Rightarrow> 'd) \<Rightarrow> ('k, 'v) map_update list \<Rightarrow> 'd \<Rightarrow> 'd option" where
  "map_run put del [] d = Some d"
| "map_run put del (Put k v # us) d = put d k v \<bind> map_run put del us"
| "map_run put del (Del k # us) d = map_run put del us (del d k)"

locale map_table =
  fixes inv :: "'d \<Rightarrow> bool" and abs :: "'d \<Rightarrow> 'k \<rightharpoonup> 'v" and find :: "'d \<Rightarrow> 'k \<Rightarrow> 'v option"
    and put :: "'d \<Rightarrow> 'k \<Rightarrow> 'v \<Rightarrow> 'd option" and del :: "'d \<Rightarrow> 'k \<Rightarrow> 'd" and limit :: nat
  assumes finite_abs: "inv d \<Longrightarrow> finite (dom (abs d))"
    and find_abs: "inv d \<Longrightarrow> find d k = abs d k"
    and put_abs: "inv d \<Longrightarrow> card (dom (abs d)) < limit \<Longrightarrow> \<exists>d'. put d k v = Some d' \<and> inv d' \<and> abs d' = (abs d)(k \<mapsto> v)"
    and del_abs: "inv d \<Longrightarrow> inv (del d k) \<and> abs (del d k) = (abs d)(k := None)"
begin

lemma run_abs:
  assumes "inv d" "card (dom (abs d)) + length us \<le> limit"
  shows "\<exists>d'. map_run put del us d = Some d' \<and> inv d' \<and> abs d' = fold map_step us (abs d)"
  using assms
proof (induction us arbitrary: d)
  case (Cons u us)
  show ?case
  proof (cases u)
    case (Put k v)
    obtain d' where d': "put d k v = Some d'" "inv d'" "abs d' = (abs d)(k \<mapsto> v)" using put_abs[OF Cons.prems(1)] Cons.prems(2) by force
    have "card (dom (abs d')) \<le> Suc (card (dom (abs d)))" using d'(3) card_insert_le_m1 finite_abs[OF Cons.prems(1)] by (simp add: card_insert_if)
    then have "card (dom (abs d')) + length us \<le> limit" using Cons.prems(2) by simp
    then obtain e where "map_run put del us d' = Some e" "inv e" "abs e = fold map_step us (abs d')" using Cons.IH[OF d'(2)] by blast
    then show ?thesis using d'(1) Put by (intro exI[of _ e]) (simp flip: d'(3))
  next
    case (Del k)
    have d': "inv (del d k)" "abs (del d k) = (abs d)(k := None)" using del_abs[OF Cons.prems(1)] by simp_all
    have "card (dom (abs (del d k))) \<le> card (dom (abs d))" unfolding d'(2) by (intro card_mono[OF finite_abs[OF Cons.prems(1)]]) auto
    then have "card (dom (abs (del d k))) + length us \<le> limit" using Cons.prems(2) by simp
    then obtain e where "map_run put del us (del d k) = Some e" "inv e" "abs e = fold map_step us (abs (del d k))" using Cons.IH[OF d'(1)] by blast
    then show ?thesis using Del by (intro exI[of _ e]) (simp flip: d'(2))
  qed
qed simp

lemma run_puts:
  assumes "inv d" "card (dom (abs d)) + length ps \<le> limit"
  shows "\<exists>d'. map_run put del (map (\<lambda>(k, v). Put k v) ps) d = Some d' \<and> inv d' \<and> abs d' = abs d ++ map_of (rev ps)"
proof -
  have "fold map_step (map (\<lambda>(k, v). Put k v) ps) m = m ++ map_of (rev ps)" for m :: "'k \<rightharpoonup> 'v"
    by (induction ps arbitrary: m) (auto simp: map_add_assoc)
  then show ?thesis using run_abs[of d "map (\<lambda>(k, v). Put k v) ps"] assms by simp
qed

end

lemma ht_ok_card: "ht_ok L d \<Longrightarrow> finite (dom (ht_map L d)) \<and> int (card (dom (ht_map L d))) = ht_entries d"
  using ht_map_finite[of L d] by (simp add: ht_ok_def)

interpretation ht: map_table "ht_ok L" "ht_map L" "htFind L" "htAdd L" "htDel L" "nat ht_limit" for L
proof
  fix d :: "'a DictHashTable" and k v
  assume d: "ht_ok L d"
  show "finite (dom (ht_map L d))" using ht_ok_card[OF d] by simp
  show "htFind L d k = ht_map L d k" by (rule htFind_map)
  show "ht_ok L (htDel L d k) \<and> ht_map L (htDel L d k) = (ht_map L d)(k := None)" using htDel_spec[OF d] by simp
  show "\<exists>d'. htAdd L d k v = Some d' \<and> ht_ok L d' \<and> ht_map L d' = (ht_map L d)(k \<mapsto> v)" if "card (dom (ht_map L d)) < nat ht_limit"
  proof -
    have "ht_entries d < ht_limit" using ht_ok_card[OF d] that by (simp add: zless_nat_eq_int_zless)
    then show ?thesis using htAdd_spec[OF d] by metis
  qed
qed

definition dict_ok :: "literals \<Rightarrow> ('b, 'v) OzDictionary \<Rightarrow> bool" where
  "dict_ok L d \<longleftrightarrow> ht_ok L (dict_table d)"

definition dict_map :: "literals \<Rightarrow> ('b, 'v) OzDictionary \<Rightarrow> feature \<rightharpoonup> 'v" where
  "dict_map L d = ht_map L (dict_table d)"

interpretation dict: map_table "dict_ok L" "dict_map L" "getArg_d L" "setArg_d L" "remove_d L" "nat ht_limit" for L
proof
  fix d :: "('a, 'b) OzDictionary" and k v
  assume "dict_ok L d"
  then have d: "ht_ok L (dict_table d)" by (simp add: dict_ok_def)
  show "finite (dom (dict_map L d))" using ht.finite_abs[OF d] by (simp add: dict_map_def)
  show "getArg_d L d k = dict_map L d k" using ht.find_abs[OF d] by (simp add: getArg_d_def dict_map_def)
  show "dict_ok L (remove_d L d k) \<and> dict_map L (remove_d L d k) = (dict_map L d)(k := None)"
    using ht.del_abs[OF d] by (simp add: dict_ok_def dict_map_def remove_d_def)
  show "\<exists>d'. setArg_d L d k v = Some d' \<and> dict_ok L d' \<and> dict_map L d' = (dict_map L d)(k \<mapsto> v)" if "card (dom (dict_map L d)) < nat ht_limit"
    using ht.put_abs[OF d, of k v] that by (auto simp: dict_ok_def dict_map_def setArg_d_def)
qed

lemma copy_ht_id:
  fixes t :: "'v DictHashTable"
  shows "copy_ht t = t"
proof -
  have "map (\<lambda>n. case n of EmptyNode \<Rightarrow> EmptyNode | Entry k v \<Rightarrow> Entry k v | Block ps \<Rightarrow> Block (map (\<lambda>p. p) ps)) ns = ns"
    for ns :: "'v DictNode list" by (rule map_idI) (simp split: DictNode.splits)
  then show ?thesis by (simp only: copy_ht_def) simp
qed

lemma newOzDictionary_spec:
  "n \<le> 781460413 \<Longrightarrow> \<exists>d. newOzDictionary b n = Some d \<and> dict_ok L d \<and> dict_map L d = Map.empty \<and> dict_home d = b \<and> \<not> dict_distributed d"
  by (erule init_ht_spec[of n L]) (auto simp: newOzDictionary_def dict_ok_def dict_map_def)

section \<open>Records and dictionaries\<close>

lemma toRecord_spec:
  assumes d: "ht_ok L d" and T: "at_ok L T" and F: "features_ok L (dom (ht_map L d))" and n: "ht_entries d \<le> 2 ^ 31"
  shows "yields_record c L T (toRecord_ht c J L T d lbl) lbl (ht_map L d)"
proof (cases "ht_entries d = 0")
  case True
  then have "card (dom (ht_map L d)) = 0" "finite (dom (ht_map L d))" using ht_ok_card[OF d] by simp_all
  then have "ht_map L d = Map.empty" by simp
  then show ?thesis using True T by (simp add: toRecord_ht_def yields_record_def rt_ok_def rt_label_def rt_map_def)
next
  case False
  let ?ps = "ht_seq d"
  note ls = ht_lists_spec[OF d]
  have ps: "ht_collect (\<lambda>p ps. ps @ [p]) d [] = ?ps" using ht_lists(4)[of d] by (simp add: getPairsInArray_def)
  have keys: "set (map fst ?ps) = dom (ht_map L d)" "distinct (map fst ?ps)"
    using ls(1,2) by (simp_all add: ht_lists(1,2) flip: rev_map)
  have len: "length ?ps = nat (ht_entries d)" using ls(5) by (simp add: ht_lists(4))
  have mp: "map_of (rev ?ps) = ht_map L d" using ls(3) by (simp add: ht_lists(1))
  have fo: "feats_ok L (set (map fst ?ps))" using F keys(1) by (simp add: features_ok_def)
  obtain ks where k: "fastsort (\<lambda>a b. featureCmp L a b < 0) (map fst ?ps) (length (map fst ?ps)) = Some ks" "mset ks = mset (map fst ?ps)"
    "sorted_wrt (\<lambda>a b. featureCmp L a b \<le> 0) ks" using sort_features[OF fo] len n by (auto simp: nat_le_iff)
  have ks: "set ks = dom (ht_map L d)" "distinct ks" using k(2) keys mset_eq_setD mset_eq_imp_distinct_iff by metis+
  have al: "arity_list L ks" using sorted_arity_list[OF _ ks(2) k(3)] F ks(1) by (simp add: features_ok_def)
  have pos: "0 < ht_entries d" using False ht_ok_card[OF d] by linarith
  have g: "getArityList L d [] = Some ks" using k(1) pos len by (simp add: getArityList_def ht_lists(5))
  have "ks \<noteq> []" using ks(1) False ht_ok_card[OF d] by auto
  then obtain T' p where f: "find_at L T ks = Some (T', p)" "at_ok L T'" "at_extends T T'"
    "sr_ok L T' (newSRecord_ar J T' lbl p)" "sr_keys T' (newSRecord_ar J T' lbl p) = ks"
    using new_record[OF T al, of J lbl] F ks(1) by auto
  let ?n = "newSRecord_ar J T' lbl p"
  obtain vs where v: "setFeatures L T' ?ps ?n = Some (?n\<lparr>sr_args := vs\<rparr>)" "sr_ok L T' (?n\<lparr>sr_args := vs\<rparr>)"
    "sr_map T' (?n\<lparr>sr_args := vs\<rparr>) = sr_map T' ?n ++ map_of (rev ?ps)"
    using setFeatures_spec[OF f(2,4), of ?ps] f(5) ks(1) keys(1) by auto
  have "sr_map T' ?n ++ ht_map L d = ht_map L d" using sr_okD(5)[OF f(2,4)] f(5) ks(1) by (intro map_add_covers) simp
  then have "sr_map T' (?n\<lparr>sr_args := vs\<rparr>) = ht_map L d" using v(3) mp by metis
  then have "yields_record c L T (Some (T', normalize_sr c (?n\<lparr>sr_args := vs\<rparr>))) lbl (ht_map L d)"
    by (intro yields_normalize[OF f(2,3) v(2)]) simp_all
  then show ?thesis using False g f(1) v(1) ps by (simp add: toRecord_ht_def)
qed

lemma setArgs_run:
  fixes d :: "('b, 'v) OzDictionary"
  shows "setArgs L ps d = map_run (setArg_d L) (remove_d L) (map (\<lambda>(k, v). Put k v) ps) d"
proof (induction ps arbitrary: d)
  case (Cons p ps)
  then have "(setArgs L ps :: ('b, 'v) OzDictionary \<Rightarrow> _) = map_run (setArg_d L) (remove_d L) (map (\<lambda>(k, v). Put k v) ps)" by (simp add: fun_eq_iff)
  then show ?case by (cases p) simp
qed simp

lemma setArg_home:
  "setArg_d L d k v = Some d' \<Longrightarrow> dict_home d' = dict_home d \<and> dict_distributed d' = dict_distributed d"
  by (auto simp: setArg_d_def)

lemma setArgs_home:
  "setArgs L ps d = Some d' \<Longrightarrow> dict_home d' = dict_home d \<and> dict_distributed d' = dict_distributed d"
proof (induction ps arbitrary: d)
  case (Cons p ps)
  then show ?case using setArg_home[of L d "fst p" "snd p"] by (cases p) (auto split: bind_splits)
qed simp

lemma new_dictionary_spec:
  fixes ps :: "(feature \<times> 'v) list" and b :: 'b
  assumes "int (length ps) \<le> ht_limit" "n \<le> 781460413"
  shows "\<exists>d. newOzDictionary b n \<bind> setArgs L ps = Some d \<and> dict_ok L d \<and> dict_map L d = map_of (rev ps) \<and> dict_home d = b \<and> \<not> dict_distributed d"
proof -
  obtain e :: "('b, 'v) OzDictionary" where e: "newOzDictionary b n = Some e" "dict_ok L e" "dict_map L e = Map.empty" "dict_home e = b" "\<not> dict_distributed e"
    using newOzDictionary_spec[OF assms(2), of b L] by blast
  have "card (dom (dict_map L e)) + length ps \<le> nat ht_limit" using e(3) assms(1) by (simp add: le_nat_iff)
  then obtain d where "setArgs L ps e = Some d" "dict_ok L d" "dict_map L d = dict_map L e ++ map_of (rev ps)"
    using dict.run_puts[OF e(2), of ps] unfolding setArgs_run by metis
  then show ?thesis using e setArgs_home[of L ps e d] by simp
qed

lemma record_pairs_spec:
  assumes "at_ok L T" "sr_ok L T r"
  shows "set as \<subseteq> set (sr_keys T r) \<Longrightarrow> record_pairs L T r as = Some (map (\<lambda>a. (a, the (sr_map T r a))) as)"
proof (induction as)
  case (Cons a as)
  have "a \<in> dom (sr_map T r)" using Cons.prems sr_okD(5)[OF assms] by simp
  then obtain v where "sr_map T r a = Some v" by blast
  then show ?case using Cons getFeature_spec[OF assms, of a] by simp
qed simp

lemma BIrecordToDictionary_spec:
  fixes t :: "'v rterm" and b :: 'b
  assumes T: "at_ok L T" and t: "rt_ok c L T t" and n: "int (card (dom (rt_map T t))) \<le> ht_limit"
  shows "\<exists>d. BIrecordToDictionary L T b (RTerm t) = Proceed d \<and> dict_ok L d \<and> dict_map L d = rt_map T t \<and> dict_home d = b \<and> \<not> dict_distributed d"
proof (cases t)
  case (TLiteral a)
  obtain d :: "('b, 'v) OzDictionary" where "newOzDictionary b DictDefaultSize = Some d" "dict_ok L d" "dict_map L d = Map.empty"
    "dict_home d = b" "\<not> dict_distributed d" using newOzDictionary_spec[of DictDefaultSize b L] by (auto simp: DictDefaultSize_def)
  then show ?thesis using TLiteral
    by (auto simp: BIrecordToDictionary_def declareNonvarIN_def of_option_def rt_map_def DictDefaultSize_def)
next
  case (TLTuple x y)
  then show ?thesis using new_dictionary_spec[of "[(SmallInt 1, x), (SmallInt 2, y)]" DictDefaultSize b L]
    by (auto simp: BIrecordToDictionary_def declareNonvarIN_def of_option_def rt_map_def DictDefaultSize_def ht_limit_def simp del: setArgs.simps)
next
  case (TSRecord r)
  have r: "sr_ok L T r" using t TSRecord by (simp add: rt_ok_def)
  note R = sr_okD[OF T r]
  let ?w = "length (sr_keys T r)"
  have w: "int ?w \<le> ht_limit" using n TSRecord R(5) distinct_card[OF R(1)] by (simp add: rt_map_def)
  have w2: "?w \<le> 781460413" using w by (simp add: ht_limit_def)
  have "\<exists>ps. length ps = ?w \<and> map_of (rev ps) = sr_map T r \<and>
    BIrecordToDictionary L T b (RTerm t) = of_option (newOzDictionary b ?w \<bind> setArgs L ps) Proceed"
  proof (cases "sr_arity r")
    case (TupleWidth m)
    let ?ps = "map (\<lambda>i. (SmallInt (int i + 1), sr_args r ! i)) (rev [0..<?w])"
    have "rev ?ps = zip (sr_keys T r) (sr_args r)"
      using R(2) TupleWidth by (intro nth_equalityI) (simp_all add: rev_map sraGetArityList_def makeTupleArityList_nth)
    moreover have "BIrecordToDictionary L T b (RTerm t) = of_option (newOzDictionary b ?w \<bind> setArgs L ?ps) Proceed"
      using TSRecord TupleWidth R(4) by (simp add: BIrecordToDictionary_def declareNonvarIN_def Let_def)
    ultimately show ?thesis by (intro exI[of _ ?ps]) (simp add: sr_map_def)
  next
    case (RecordArity q)
    let ?ps = "map (\<lambda>a. (a, the (sr_map T r a))) (sr_keys T r)"
    have "BIrecordToDictionary L T b (RTerm t) = of_option (newOzDictionary b ?w \<bind> setArgs L ?ps) Proceed"
      using TSRecord RecordArity R(4) record_pairs_spec[OF T r order_refl] by (simp add: BIrecordToDictionary_def declareNonvarIN_def Let_def)
    then show ?thesis using map_of_keys[OF R(5)] by (intro exI[of _ ?ps]) simp
  qed
  then obtain ps where "length ps = ?w" "map_of (rev ps) = sr_map T r"
    "BIrecordToDictionary L T b (RTerm t) = of_option (newOzDictionary b ?w \<bind> setArgs L ps) Proceed" by blast
  then show ?thesis using new_dictionary_spec[of ps ?w b L] w w2 TSRecord by (auto simp: of_option_def rt_map_def)
qed

section \<open>The operations on the map\<close>

text \<open>What the operations are documented to do with the map, when they raise an exception, and what they return.\<close>

fun spec_map :: "'v dict_op \<Rightarrow> (feature \<rightharpoonup> 'v) \<Rightarrow> (feature \<rightharpoonup> 'v)" where
  "spec_map (OP_PUT k v) m = m(k \<mapsto> v)"
| "spec_map (OP_EXCHANGE k v) m = m(k \<mapsto> v)"
| "spec_map (OP_CONDEXCHANGE k v deflt) m = m(k \<mapsto> v)"
| "spec_map (OP_REMOVE k) m = m(k := None)"
| "spec_map OP_REMOVEALL m = Map.empty"
| "spec_map _ m = m"

fun spec_error :: "'v dict_op \<Rightarrow> (feature \<rightharpoonup> 'v) \<Rightarrow> bool" where
  "spec_error (OP_GET k) m \<longleftrightarrow> k \<notin> dom m"
| "spec_error (OP_EXCHANGE k v) m \<longleftrightarrow> k \<notin> dom m"
| "spec_error _ m \<longleftrightarrow> False"

definition spec_result ::
    "addr \<Rightarrow> literals \<Rightarrow> ArityTable \<Rightarrow> 'v dict_op \<Rightarrow> (feature \<rightharpoonup> 'v) \<Rightarrow> ('b, 'v) dict_res \<Rightarrow> bool" where
  "spec_result AtomCons L T oper m res \<longleftrightarrow>
     (case oper of
        OP_MEMBER k \<Rightarrow> res = BoolResult (k \<in> dom m)
      | OP_GET k \<Rightarrow> res = ValResult (the (m k))
      | OP_CONDGET k deflt \<Rightarrow> res = ValResult (case m k of Some v \<Rightarrow> v | None \<Rightarrow> deflt)
      | OP_PUT k v \<Rightarrow> res = NoResult
      | OP_EXCHANGE k v \<Rightarrow> res = ValResult (the (m k))
      | OP_CONDEXCHANGE k v deflt \<Rightarrow> res = ValResult (case m k of Some v \<Rightarrow> v | None \<Rightarrow> deflt)
      | OP_ISEMPTY \<Rightarrow> res = BoolResult (m = Map.empty)
      | OP_REMOVE k \<Rightarrow> res = NoResult
      | OP_REMOVEALL \<Rightarrow> res = NoResult
      | OP_KEYS \<Rightarrow> (\<exists>ks. res = KeysResult ks \<and> distinct ks \<and> set ks = dom m)
      | OP_ITEMS \<Rightarrow> (\<exists>ks. res = ItemsResult (map (\<lambda>k. the (m k)) ks) \<and> distinct ks \<and> set ks = dom m)
      | OP_ENTRIES \<Rightarrow> (\<exists>ps. res = EntriesResult ps \<and> distinct (map fst ps) \<and> map_of ps = m)
      | OP_CLONE \<Rightarrow> (\<exists>d. res = DictResult d \<and> dict_ok L d \<and> dict_map L d = m)
      | OP_TORECORD lbl \<Rightarrow>
          (\<exists>t. res = RecordResult t \<and> rt_ok AtomCons L T t \<and> rt_label AtomCons t = lbl \<and> rt_map T t = m))"

text \<open>The builtin of an operation, called with a dictionary and a key.\<close>

definition dict_builtin ::
    "('b, 'v) dict_env \<Rightarrow> ('b, 'v) dist_op \<Rightarrow> 'v dict_op \<Rightarrow> ArityTable \<Rightarrow> ('b, 'v) OzDictionary \<Rightarrow> ('b, 'v) dict_ret" where
  "dict_builtin env dist oper T d =
     (case oper of
        OP_MEMBER k \<Rightarrow> dictionaryMemberInline env dist T (DDict d) (FFeature k)
      | OP_GET k \<Rightarrow> dictionaryGetInline env dist T (DDict d) (FFeature k)
      | OP_CONDGET k deflt \<Rightarrow> dictionaryCondGetInline env dist T (DDict d) (FFeature k) deflt
      | OP_PUT k v \<Rightarrow> dictionaryPutInline env dist T (DDict d) (FFeature k) v
      | OP_EXCHANGE k v \<Rightarrow> dictionaryExchangeInline env dist T (DDict d) (FFeature k) v
      | OP_CONDEXCHANGE k v deflt \<Rightarrow> dictionaryCondExchangeInline env dist T (DDict d) (FFeature k) deflt v
      | OP_ISEMPTY \<Rightarrow> BIdictionaryIsEmpty dist T (DDict d)
      | OP_REMOVE k \<Rightarrow> dictionaryRemoveInline env dist T (DDict d) (FFeature k)
      | OP_REMOVEALL \<Rightarrow> BIdictionaryRemoveAll dist T (DDict d)
      | OP_KEYS \<Rightarrow> BIdictionaryKeys dist T (DDict d)
      | OP_ITEMS \<Rightarrow> BIdictionaryItems dist T (DDict d)
      | OP_ENTRIES \<Rightarrow> BIdictionaryEntries dist T (DDict d)
      | OP_CLONE \<Rightarrow> BIdictionaryClone env dist T (DDict d)
      | OP_TORECORD lbl \<Rightarrow> BIdictionaryToRecord env dist T (RTerm (TLiteral lbl)) (DDict d))"

lemmas dict_builtin_defs =
  dict_builtin_def dictionaryMemberInline_def dictionaryGetInline_def dictionaryCondGetInline_def dictionaryPutInline_def
  dictionaryExchangeInline_def dictionaryCondExchangeInline_def BIdictionaryIsEmpty_def dictionaryRemoveInline_def
  BIdictionaryRemoveAll_def BIdictionaryKeys_def BIdictionaryItems_def BIdictionaryEntries_def BIdictionaryClone_def
  BIdictionaryToRecord_def GetDictAndKey_def declareDictionaryIN_def declareNonvarIN_def

lemma exchange_spec:
  assumes d: "dict_ok L d" and n: "int (card (dom (dict_map L d))) < ht_limit"
  shows "k \<in> dom (dict_map L d) \<or> c \<Longrightarrow> \<exists>d'. exchange_d L d k v c = Some (d', dict_map L d k) \<and> dict_ok L d' \<and>
      dict_map L d' = (dict_map L d)(k \<mapsto> v) \<and> dict_home d' = dict_home d"
    "k \<notin> dom (dict_map L d) \<Longrightarrow> exchange_d L d k v False = Some (d, None)"
proof -
  let ?t = "dict_table d"
  have t: "ht_ok L ?t" using d by (simp add: dict_ok_def)
  have e: "ht_entries ?t < ht_limit" using n ht_ok_card[OF t] by (simp add: dict_map_def)
  obtain t' where t': "htAdd L ?t k v = Some t'" "ht_ok L t'" "ht_map L t' = (ht_map L ?t)(k \<mapsto> v)" using htAdd_spec[OF t e] by metis
  show "\<exists>d'. exchange_d L d k v c = Some (d', dict_map L d k) \<and> dict_ok L d' \<and> dict_map L d' = (dict_map L d)(k \<mapsto> v) \<and> dict_home d' = dict_home d"
    if "k \<in> dom (dict_map L d) \<or> c"
  proof -
    have "htExchange L ?t k v c = Some (t', ht_map L ?t k)"
    proof (cases "ht_map L ?t k")
      case None
      then show ?thesis using htExchange_new[OF None, of v c] that t'(1) by (auto simp: dict_map_def)
    next
      case (Some x)
      then show ?thesis using htExchange_old[OF _ t e, of k v c] t'(1) by simp
    qed
    then show ?thesis using t' by (simp add: exchange_d_def dict_ok_def dict_map_def)
  qed
  show "exchange_d L d k v False = Some (d, None)" if "k \<notin> dom (dict_map L d)"
    using that htExchange_new[of L ?t k v False] by (simp add: exchange_d_def dict_map_def domIff)
qed

lemma dict_items:
  assumes "ht_ok L t"
  shows "getItems t = map (\<lambda>k. the (ht_map L t k)) (getKeys t)"
proof -
  note ls = ht_lists_spec[OF assms]
  have "snd p = the (ht_map L t (fst p))" if "p \<in> set (getPairs t)" for p using ls(4) that by (cases p) auto
  then show ?thesis by (simp add: ht_lists(2,3))
qed

definition op_yields ::
    "addr \<Rightarrow> literals \<Rightarrow> ArityTable \<Rightarrow> ('b, 'v) OzDictionary \<Rightarrow> 'v dict_op \<Rightarrow> ('b, 'v) dict_ret \<Rightarrow> bool" where
  "op_yields c L T d oper ret \<longleftrightarrow>
     (if spec_error oper (dict_map L d) then ret = Raise E_ERROR ''dict''
      else \<exists>T' d' res. ret = Proceed ((T', d'), res) \<and> at_ok L T' \<and> at_extends T T' \<and> dict_ok L d' \<and>
        dict_map L d' = spec_map oper (dict_map L d) \<and> dict_home d' = dict_home d \<and> spec_result c L T' oper (dict_map L d) res)"

text \<open>An operation that does not touch the table of arities, and one that does not touch the dictionary.\<close>

lemma op_yieldsI:
  assumes "at_ok L T" "\<not> spec_error oper (dict_map L d)" "ret = Proceed ((T, d'), res)" "dict_ok L d'"
    "dict_map L d' = spec_map oper (dict_map L d)" "dict_home d' = dict_home d" "spec_result c L T oper (dict_map L d) res"
  shows "op_yields c L T d oper ret"
  using assms at_extends_refl unfolding op_yields_def by auto

lemma dict_builtin_spec:
  assumes d: "dict_ok L d" "\<not> dict_distributed d" and T: "at_ok L T"
    and n: "int (card (dom (dict_map L d))) < ht_limit"
    and b: "dict_home d = env_currentBoard env \<or> env_currentBoard env = env_rootBoard env"
    and L: "env_L env = L" and F: "\<And>lbl. oper = OP_TORECORD lbl \<Longrightarrow> features_ok L (dom (dict_map L d))"
  shows "op_yields (env_AtomCons env) L T d oper (dict_builtin env dist oper T d)"
proof -
  have t: "ht_ok L (dict_table d)" using d(1) by (simp add: dict_ok_def)
  note ls = ht_lists_spec[OF t]
  note find = dict.find_abs[OF d(1)]
  have cb: "CheckLocalBoard env d k = k" for k using b by (auto simp: CheckLocalBoard_def)
  note bi = dict_builtin_defs d(2) cb L
  have lim: "card (dom (dict_map L d)) < nat ht_limit" using n by (simp add: zless_nat_eq_int_zless)
  show ?thesis
  proof (cases oper)
    case (OP_MEMBER k)
    then show ?thesis using find[of k] htFind_map[of L "dict_table d" k] d T
      by (intro op_yieldsI[OF T, where d' = d]) (auto simp: bi spec_result_def member_d_def dict_map_def domIff)
  next
    case (OP_GET k)
    then show ?thesis using find[of k] T d
      by (cases "dict_map L d k") (auto simp: op_yields_def bi spec_result_def domIff)
  next
    case (OP_CONDGET k x)
    then show ?thesis using find[of k] d by (intro op_yieldsI[OF T, where d' = d]) (auto simp: bi spec_result_def)
  next
    case (OP_PUT k v)
    obtain d' where "setArg_d L d k v = Some d'" "dict_ok L d'" "dict_map L d' = (dict_map L d)(k \<mapsto> v)" using dict.put_abs[OF d(1) lim] by blast
    then show ?thesis using OP_PUT setArg_home[of L d k v d']
      by (intro op_yieldsI[OF T, where d' = d']) (auto simp: bi spec_result_def of_option_def)
  next
    case (OP_EXCHANGE k v)
    show ?thesis
    proof (cases "k \<in> dom (dict_map L d)")
      case True
      then obtain d' where "exchange_d L d k v False = Some (d', dict_map L d k)" "dict_ok L d'" "dict_map L d' = (dict_map L d)(k \<mapsto> v)"
        "dict_home d' = dict_home d" using exchange_spec(1)[OF d(1) n] by blast
      then show ?thesis using OP_EXCHANGE True by (intro op_yieldsI[OF T, where d' = d']) (auto simp: bi spec_result_def of_option_def)
    next
      case False
      then show ?thesis using OP_EXCHANGE exchange_spec(2)[OF d(1) n False, of v] by (auto simp: op_yields_def bi of_option_def domIff)
    qed
  next
    case (OP_CONDEXCHANGE k v x)
    obtain d' where "exchange_d L d k v True = Some (d', dict_map L d k)" "dict_ok L d'" "dict_map L d' = (dict_map L d)(k \<mapsto> v)"
      "dict_home d' = dict_home d" using exchange_spec(1)[OF d(1) n, of k True v] by blast
    then show ?thesis using OP_CONDEXCHANGE by (intro op_yieldsI[OF T, where d' = d']) (auto simp: bi spec_result_def of_option_def)
  next
    case OP_ISEMPTY
    have "isEmpty_d d \<longleftrightarrow> dict_map L d = Map.empty"
      using ht_ok_card[OF t] by (simp add: isEmpty_d_def dict_map_def) (metis card_eq_0_iff dom_eq_empty_conv of_nat_eq_0_iff)
    then show ?thesis using OP_ISEMPTY d by (intro op_yieldsI[OF T, where d' = d]) (auto simp: bi spec_result_def)
  next
    case (OP_REMOVE k)
    then show ?thesis using dict.del_abs[OF d(1), of k]
      by (intro op_yieldsI[OF T, where d' = "remove_d L d k"]) (auto simp: bi spec_result_def remove_d_def)
  next
    case OP_REMOVEALL
    obtain t' :: "'b DictHashTable" where "init_ht DictDefaultSize = Some t'" "ht_ok L t'" "ht_map L t' = Map.empty"
      using init_ht_spec[of DictDefaultSize L] by (auto simp: DictDefaultSize_def)
    then have "removeAll_d d = Some (d\<lparr>dict_table := t', dict_flags := 0\<rparr>)" "dict_ok L (d\<lparr>dict_table := t', dict_flags := 0\<rparr>)"
      "dict_map L (d\<lparr>dict_table := t', dict_flags := 0\<rparr>) = Map.empty" by (simp_all add: removeAll_d_def dict_ok_def dict_map_def)
    then show ?thesis using OP_REMOVEALL by (intro op_yieldsI[OF T, where d' = "d\<lparr>dict_table := t', dict_flags := 0\<rparr>"]) (auto simp: bi spec_result_def of_option_def)
  next
    case OP_KEYS
    then show ?thesis using ls(1,2) d by (intro op_yieldsI[OF T, where d' = d]) (auto simp: bi spec_result_def dict_map_def)
  next
    case OP_ITEMS
    then show ?thesis using ls(1,2) d dict_items[OF t] by (intro op_yieldsI[OF T, where d' = d]) (auto simp: bi spec_result_def dict_map_def)
  next
    case OP_ENTRIES
    then show ?thesis using ls(1,3) d by (intro op_yieldsI[OF T, where d' = d]) (auto simp: bi spec_result_def dict_map_def ht_lists(2))
  next
    case OP_CLONE
    then show ?thesis using d by (intro op_yieldsI[OF T, where d' = d]) (auto simp: bi spec_result_def dict_map_def dict_ok_def clone_d_def copy_ht_id)
  next
    case (OP_TORECORD lbl)
    have "ht_entries (dict_table d) \<le> 2 ^ 31" using n ht_ok_card[OF t] by (simp add: dict_map_def ht_limit_def)
    then have "yields_record (env_AtomCons env) L T (toRecord_ht (env_AtomCons env) (env_J env) L T (dict_table d) lbl) lbl (dict_map L d)"
      using toRecord_spec[OF t T] F[OF OP_TORECORD] by (simp add: dict_map_def)
    then show ?thesis using OP_TORECORD d by (auto simp: op_yields_def yields_record_def bi spec_result_def of_option_def)
  qed
qed

section \<open>Remote operations, guards and waiting\<close>

lemma dict_remote:
  assumes d: "dict_ok L d" "\<not> dict_distributed d" and n: "int (card (dom (dict_map L d))) < ht_limit"
    and b: "env_currentBoard env = env_rootBoard env" and L: "env_L env = L"
    and x: "\<And>k v deflt. oper = OP_CONDEXCHANGE k v deflt \<Longrightarrow> k \<in> dom (dict_map L d)"
  shows "dict_builtin env dist oper T d = dictionaryOperation env oper (T, d)"
proof -
  have cb: "CheckLocalBoard env d k = k" for k using b by (simp add: CheckLocalBoard_def)
  have t: "ht_ok L (dict_table d)" using d(1) by (simp add: dict_ok_def)
  have e: "ht_entries (dict_table d) < ht_limit" using n ht_ok_card[OF t] by (simp add: dict_map_def)
  have "exchange_d L d k v True = exchange_d L d k v False" if "k \<in> dom (dict_map L d)" for k v
    using htExchange_old[OF _ t e, of k v] that by (auto simp: exchange_d_def dict_map_def)
  then show ?thesis using d(2) b L x
    by (cases oper) (simp_all add: dict_builtin_defs cb dictionaryOperation_def Let_def)
qed

lemma remote_condExchange:
  assumes "dict_ok L d" "int (card (dom (dict_map L d))) < ht_limit" "env_L env = L" "k \<notin> dom (dict_map L d)"
  shows "dictionaryOperation env (OP_CONDEXCHANGE k v x) (T, d) = Proceed ((T, d), ValResult x)"
  using exchange_spec(2)[OF assms(1,2,4), of v] assms(3) by (simp add: dictionaryOperation_def of_option_def)

lemma removeAll_spec:
  fixes d :: "('b, 'v) OzDictionary"
  shows "\<exists>d'. removeAll_d d = Some d' \<and> dict_ok L d' \<and> dict_map L d' = Map.empty \<and> dict_home d' = dict_home d \<and> \<not> isSafeDict d'"
proof -
  obtain t :: "'v DictHashTable" where "init_ht DictDefaultSize = Some t" "ht_ok L t" "ht_map L t = Map.empty"
    by (rule init_ht_spec[of DictDefaultSize L]) (simp_all add: DictDefaultSize_def)
  then show ?thesis
    by (intro exI[of _ "d\<lparr>dict_table := t, dict_flags := 0\<rparr>"]) (simp add: removeAll_d_def dict_ok_def dict_map_def isSafeDict_def)
qed

lemma markSafe_spec: "isSafeDict (markSafe d)" "dict_table (markSafe d) = dict_table d"
proof -
  have "(w OR 1) AND 1 = 1" for w :: int32 by (rule bit_eqI) (auto simp: bit_simps)
  then show "isSafeDict (markSafe d)" by (simp add: isSafeDict_def markSafe_def)
qed (simp add: markSafe_def)

lemma waitOr_spec:
  assumes "dict_ok L d"
  shows "BIdictionaryWaitOr det L (DDict d) = Suspend \<longleftrightarrow> (\<forall>v \<in> ran (dict_map L d). \<not> det v)"
    "BIdictionaryWaitOr det L (DDict d) \<noteq> Suspend \<Longrightarrow>
       \<exists>k v. BIdictionaryWaitOr det L (DDict d) = Proceed k \<and> dict_map L d k = Some v \<and> det v"
proof -
  have keys: "set (getKeys (dict_table d)) = dom (dict_map L d)"
    using ht_lists_spec(2)[of L "dict_table d"] assms by (simp add: dict_ok_def dict_map_def)
  have loop: "(waitOr_loop det L d ks = Suspend \<longleftrightarrow> (\<forall>k \<in> set ks. \<not> det (the (dict_map L d k)))) \<and>
      (waitOr_loop det L d ks \<noteq> Suspend \<longrightarrow> (\<exists>k v. waitOr_loop det L d ks = Proceed k \<and> dict_map L d k = Some v \<and> det v))"
    if "set ks \<subseteq> dom (dict_map L d)" for ks using that
  proof (induction ks)
    case (Cons k ks)
    then obtain v where "dict_map L d k = Some v" by auto
    then show ?case using Cons dict.find_abs[OF assms, of k] by auto
  qed simp
  show "BIdictionaryWaitOr det L (DDict d) = Suspend \<longleftrightarrow> (\<forall>v \<in> ran (dict_map L d). \<not> det v)"
    using loop[of "getKeys (dict_table d)"] keys by (force simp: BIdictionaryWaitOr_def ran_def)
  show "\<exists>k v. BIdictionaryWaitOr det L (DDict d) = Proceed k \<and> dict_map L d k = Some v \<and> det v"
    if "BIdictionaryWaitOr det L (DDict d) \<noteq> Suspend"
    using loop[of "getKeys (dict_table d)"] keys that by (simp add: BIdictionaryWaitOr_def)
qed

end
