(* ===== verification/RecordProps.thy ===== *)
theory RecordProps
  imports Dictionary
begin

text \<open>
  The properties of features, arities, records and dictionaries. The witnesses use features that are
  integers, so that the memory of literals is a record of constant functions.
\<close>

definition no_literals :: literals where
  "no_literals = \<lparr>isName = \<lambda>a. False, getPrintName = \<lambda>a. [], getSeqNumber = \<lambda>a. 0\<rparr>"

definition small_env :: "(nat, nat) dict_env" where
  "small_env = \<lparr>env_AtomCons = 16, env_J = (\<lambda>i. 0), env_L = no_literals, env_rootBoard = 0, env_currentBoard = 0\<rparr>"

definition small_record :: "nat SRecord" where
  "small_record = \<lparr>sr_label = 32, sr_arity = TupleWidth 2, sr_args = [10, 20]\<rparr>"

lemma small_record_ok: "sr_ok L T small_record"
  by (simp add: small_record_def sr_ok_def sra_ok_def OzMaxInt_def sraGetArityList_def)

lemma small_record_map: "sr_map T small_record = [SmallInt 1 \<mapsto> 10, SmallInt 2 \<mapsto> 20]"
  by (simp add: small_record_def sr_map_def tuple2_keys fun_upd_twist)

lemma small_term_ok: "rt_ok 16 L T (TSRecord small_record)"
  using small_record_ok by (simp add: rt_ok_def small_record_def)

lemma small_term_map: "rt_map T (TSRecord small_record) = [SmallInt 1 \<mapsto> 10, SmallInt 2 \<mapsto> 20]"
  by (simp add: rt_map_def small_record_map)

lemma small_table_ok: "at_ok L (newArityTable 8000)"
  by (rule newArityTable_ok) simp

lemma small_features_ok: "features_ok L {SmallInt 1, SmallInt 2, SmallInt 3}"
  by (simp add: features_ok_def feats_ok_def OzMaxInt_def OzMinInt_def)

section \<open>Features\<close>

text \<open>
  C25: on features that can be compared, sorting a list of features returns, for every list, the only
  list without duplicates that has the same features and passes the test for sorted lists.
\<close>

theorem feature_sort:
  assumes "feats_ok L (set ks)" "ks \<noteq> []" "length ks \<le> 2 ^ 31"
  shows "\<exists>ys. sortlist L ks = Some ys \<and> set ys = set ks \<and> isSorted_f (featureCmp L) ys \<and>
    (\<forall>zs. set zs = set ks \<and> isSorted_f (featureCmp L) zs \<longrightarrow> zs = ys)"
proof -
  obtain ys where y: "sortlist L ks = Some ys" "set ys = set ks" "arity_list L ys" using sortlist_spec[OF assms(1,3,2)] by blast
  have uniq: "zs = ys" if "set zs = set ks" "isSorted_f (featureCmp L) zs" for zs
  proof (rule arity_list_unique)
    show "feats_ok L (set zs)" "set zs = set ys" using that(1) assms(1) y(2) by simp_all
    then show "arity_list L zs" using feats_sorted[of L zs] that(2) by blast
  qed (rule y(3))
  have "isSorted_f (featureCmp L) ys" using feats_sorted[of L ys] assms(1) y(2,3) by simp
  then show ?thesis using y(1,2) uniq by blast
qed

theorem feature_sort_witness:
  "\<exists>ys. sortlist no_literals [SmallInt 3, SmallInt 1, SmallInt 3] = Some ys \<and> set ys = {SmallInt 1, SmallInt 3}"
proof -
  have "feats_ok no_literals (set [SmallInt 3, SmallInt 1, SmallInt 3])" by (simp add: feats_ok_def)
  from feature_sort[OF this] show ?thesis by (auto simp: insert_commute)
qed

text \<open>
  C26: the comparison of small integers that are 2 ^ 27 or more apart overflows, and the order has a cycle. A set of
  features then has two sorted lists, which depend on the order of insertion, and two arities in the table.
\<close>

theorem feature_order_cycle:
  "featureCmp L (SmallInt OzMaxInt) (SmallInt (-1)) < 0 \<and> featureCmp L (SmallInt (-1)) (SmallInt 0) < 0 \<and>
   featureCmp L (SmallInt 0) (SmallInt OzMaxInt) < 0 \<and>
   (let as = insert_f (featureCmp L) (SmallInt (-1)) [SmallInt 0, SmallInt OzMaxInt];
        bs = insert_f (featureCmp L) (SmallInt OzMaxInt) [SmallInt (-1), SmallInt 0]
    in set as = set bs \<and> isSorted_f (featureCmp L) as \<and> isSorted_f (featureCmp L) bs \<and>
       (\<exists>T1 T2 p q. find_at L (newArityTable 8000) as = Some (T1, p) \<and> find_at L T1 bs = Some (T2, q) \<and> p \<noteq> q))"
proof -
  have far: "smallIntCmp OzMaxInt (-1) = - (2 ^ 31)"
    by (simp add: smallIntCmp_def makeTaggedSmallInt_of_int OzMaxInt_def)
  have near: "smallIntCmp (-1) 0 = -16" "smallIntCmp 0 OzMaxInt = -2147483632"
    using smallIntCmp_small[of "-1" 0] smallIntCmp_small[of 0 OzMaxInt] by (simp_all add: OzMaxInt_def)
  note cmp = featureCmp_def far near
  let ?as = "[SmallInt (-1), SmallInt 0, SmallInt OzMaxInt]" and ?bs = "[SmallInt OzMaxInt, SmallInt (-1), SmallInt 0]"
  have l: "insert_f (featureCmp L) (SmallInt (-1)) [SmallInt 0, SmallInt OzMaxInt] = ?as"
    "insert_f (featureCmp L) (SmallInt OzMaxInt) [SmallInt (-1), SmallInt 0] = ?bs" by (auto simp: cmp)
  have d: "distinct ?as" "distinct ?bs" "?as \<noteq> ?bs" by (simp_all add: OzMaxInt_def)
  obtain T1 p where f1: "find_at L (newArityTable 8000) ?as = Some (T1, p)" "at_ok L T1" "at_valid T1 p" "ar_list (getArity_at T1 p) = ?as"
    using find_at_spec[OF small_table_ok d(1)] by blast
  obtain T2 q where f2: "find_at L T1 ?bs = Some (T2, q)" "at_extends T1 T2" "ar_list (getArity_at T2 q) = ?bs"
    using find_at_spec[OF f1(2) d(2)] by blast
  have "ar_list (getArity_at T2 p) = ?as" using f1(3,4) f2(2) unfolding at_extends_def by metis
  then have "p \<noteq> q" using f2(3) d(3) by auto
  then have ex: "\<exists>T1 T2 p q. find_at L (newArityTable 8000) ?as = Some (T1, p) \<and> find_at L T1 ?bs = Some (T2, q) \<and> p \<noteq> q"
    using f1(1) f2(1) by blast
  show ?thesis unfolding l Let_def by (intro conjI ex) (auto simp: cmp)
qed

section \<open>Arities\<close>

text \<open>
  C23: the hash table of an arity can be built for every list of different features that is not the list of a tuple, and every search
  in it ends: with the index of the feature in the list, or with -1 for a feature that is not there.
\<close>

theorem arity_lookup:
  assumes "distinct ks" "\<not> tuple_list ks"
  shows "\<exists>ar. newArity L ks False = Some ar \<and> ar_list ar = ks \<and> \<not> isTuple_ar ar \<and>
    (\<forall>f. lookupInternal L ar f = Some (case map_of (zip ks [0..<length ks]) f of Some i \<Rightarrow> int i | None \<Rightarrow> -1))"
proof -
  obtain ar where ar: "newArity L ks False = Some ar" "arity_of L ks ar" using newArity_spec[OF assms(1), of L] assms(2) by auto
  have ok: "arity_ok L ks ar" using ar(2) assms(2) by (simp add: arity_of_def)
  have "lookupInternal L ar f = Some (case map_of (zip ks [0..<length ks]) f of Some i \<Rightarrow> int i | None \<Rightarrow> -1)" for f
  proof (cases "f \<in> set ks")
    case True
    then obtain i where i: "i < length ks" "f = ks ! i" by (metis in_set_conv_nth)
    then have "map_of (zip ks [0..<length ks]) f = Some i" using map_of_zip_nth[of ks "[0..<length ks]" i] assms(1) by simp
    then show ?thesis using arity_ok_lookup(1)[OF ok i(1)] i(2) by simp
  next
    case False
    then have "map_of (zip ks [0..<length ks]) f = None" by simp
    then show ?thesis by (simp only: arity_ok_lookup(2)[OF ok False] option.case)
  qed
  then show ?thesis using ar assms(2) by (auto simp: arity_of_def)
qed

theorem arity_lookup_witness:
  "\<exists>ar. newArity no_literals [SmallInt 2, SmallInt 10, BigInt (2 ^ 40)] False = Some ar \<and>
     lookupInternal no_literals ar (SmallInt 10) = Some 1 \<and> lookupInternal no_literals ar (SmallInt 3) = Some (-1)"
proof -
  have "\<not> tuple_list [SmallInt 2, SmallInt 10, BigInt (2 ^ 40)]" by (simp add: tuple_list_def makeTupleArityList_def)
  from arity_lookup[OF _ this, of no_literals] show ?thesis by (auto simp: upt_rec)
qed

text \<open>
  C24: the arity table is canonical: a search ends and returns a pointer to the arity of the list, pointers that were handed out
  before stay what they are, and in every state two pointers with the same list are equal.
\<close>

theorem arity_table_canonical:
  assumes "at_ok L T" "distinct ks"
  shows "\<exists>T' p. find_at L T ks = Some (T', p) \<and> at_ok L T' \<and> at_extends T T' \<and> at_valid T' p \<and> ar_list (getArity_at T' p) = ks \<and>
    find_at L T' ks = Some (T', p) \<and>
    (\<forall>q r. at_valid T' q \<and> at_valid T' r \<and> ar_list (getArity_at T' q) = ar_list (getArity_at T' r) \<longrightarrow> q = r)"
proof -
  obtain T' p where f: "find_at L T ks = Some (T', p)" "at_ok L T'" "at_extends T T'" "at_valid T' p" "ar_list (getArity_at T' p) = ks"
    using find_at_spec[OF assms] by blast
  have "find_at L T' ks = Some (T', p)"
  proof -
    obtain h where h: "hashvalue L T' ks = (h, tuple_list ks)" using hashvalue_tuple[of L T' ks] by (cases "hashvalue L T' ks") simp
    have p: "fst p = h" using at_ok_get(2)[OF f(2,4)] f(5) h by simp
    then have "ks \<in> ar_list ` set (at_table T' ! h)" using f(4,5) by (auto simp: at_valid_def getArity_at_def intro!: image_eqI[OF _ nth_mem])
    then obtain n where n: "chain_find (at_table T' ! h) ks = Some n" using chain_find_None[of "at_table T' ! h" ks] by auto
    have "at_valid T' (h, n)" "ar_list (getArity_at T' (h, n)) = ks"
      using chain_find_Some[OF n] f(4) p by (simp_all add: at_valid_def getArity_at_def)
    then have "(h, n) = p" using at_canonical[OF f(2) _ f(4)] f(5) by simp
    then show ?thesis using h n by (simp add: find_at_def Let_def)
  qed
  then show ?thesis using f at_canonical[OF f(2)] by blast
qed

theorem arity_table_canonical_witness:
  "\<exists>T p. find_at no_literals (newArityTable 8000) [SmallInt 2, SmallInt 5] = Some (T, p) \<and>
     find_at no_literals T [SmallInt 2, SmallInt 5] = Some (T, p)"
  using arity_table_canonical[OF small_table_ok, of "[SmallInt 2, SmallInt 5]" no_literals] by auto

section \<open>Records\<close>

text \<open>
  C20: on records whose features together can be compared (\<open>features_ok\<close>: no two small integers \<open>2 ^ 27\<close> or more apart, for which
  the order of features has a cycle), the builtins that adjoin records build the union of maps, the right argument winning: \<^verbatim>\<open>adjoin\<close> takes the label of the second
  record, \<^verbatim>\<open>adjoinAt\<close> sets one feature, \<^verbatim>\<open>adjoinList\<close> sets the features of a list from left to right. The result is in normal form
  and does not depend on the contents of newly allocated memory.
\<close>

theorem record_adjoin:
  assumes "at_ok L T" "rt_ok c L T t" "rt_ok c L T u" "features_ok L (dom (rt_map T t) \<union> dom (rt_map T u))"
    "features_ok L (insert f (dom (rt_map T t)))"
    "getArityFromList pair_key l = IsArity fs" "length fs \<le> 2 ^ 31" "features_ok L (dom (rt_map T t) \<union> set fs)"
  shows "returns_record c L T (BIadjoin c J L T (RTerm t) (RTerm u)) (rt_label c u) (rt_map T t ++ rt_map T u) \<and>
    returns_record c L T (BIadjoinAt c J L T (RTerm t) (FFeature f) v) (rt_label c t) ((rt_map T t)(f \<mapsto> v)) \<and>
    returns_record c L T (BIadjoinList c J L T (RTerm t) l) (rt_label c t) (rt_map T t ++ map_of (rev (proplist_pairs l)))"
  using BIadjoin_spec[OF assms(1-4)] BIadjoinAt_spec[OF assms(1,2,5)] BIadjoinList_spec[OF assms(1,2,6-8)] by blast

theorem record_adjoin_witness:
  "returns_record 16 no_literals (newArityTable 8000)
     (BIadjoin 16 (\<lambda>i. 0) no_literals (newArityTable 8000) (RTerm (TSRecord small_record)) (RTerm (TSRecord small_record)))
     32 [SmallInt 1 \<mapsto> 10, SmallInt 2 \<mapsto> 20] \<and>
   returns_record 16 no_literals (newArityTable 8000)
     (BIadjoinAt 16 (\<lambda>i. 0) no_literals (newArityTable 8000) (RTerm (TSRecord small_record)) (FFeature (SmallInt 3)) 30)
     32 [SmallInt 1 \<mapsto> 10, SmallInt 2 \<mapsto> 20, SmallInt 3 \<mapsto> 30]"
proof -
  note t = small_term_ok[of no_literals "newArityTable 8000"] and m = small_term_map[of "newArityTable 8000"]
  have F: "features_ok no_literals S" if "S \<subseteq> {SmallInt 1, SmallInt 2, SmallInt 3}" for S
    using features_ok_mono[OF small_features_ok that] .
  have l: "getArityFromList pair_key (PCons (EPair (FFeature (SmallInt 3)) (30 :: nat)) PNil) = IsArity [SmallInt 3]" by simp
  have "rt_label 16 (TSRecord small_record) = 32" by (simp add: rt_label_def small_record_def)
  with record_adjoin[OF small_table_ok t t _ _ l, of "SmallInt 3" "\<lambda>i. 0" 30] show ?thesis
    by (simp add: m F fun_upd_twist)
qed

text \<open>
  C21: the representation of records is canonical as long as their features can be compared (\<open>feats_ok\<close>: no two small integers \<open>2 ^ 27\<close> or more
  apart; beyond that a set of features may have two arities): two terms in normal form with the same label and the same features
  and arguments are the same term, and comparing label and arity decides whether two records have the same label and the same features.
\<close>

theorem record_unique:
  assumes "at_ok L T" "rt_ok c L T t" "rt_ok c L T u" "feats_ok L (dom (rt_map T t))"
    "sr_ok L T r" "sr_ok L T s" "feats_ok L (dom (sr_map T r))"
  shows "(rt_label c t = rt_label c u \<and> rt_map T t = rt_map T u \<longleftrightarrow> t = u) \<and>
    (compareFunctor r s \<longleftrightarrow> sr_label r = sr_label s \<and> dom (sr_map T r) = dom (sr_map T s))"
  using rt_unique[OF assms(1-4)] compareFunctor_iff[OF assms(1,5,6)] assms(7) sr_okD(5)[OF assms(1,5)] by auto

theorem record_unique_witness:
  "compareFunctor small_record (small_record\<lparr>sr_args := [1, 2]\<rparr>)"
proof -
  have r: "sr_ok no_literals (newArityTable 8000) small_record" by (rule small_record_ok)
  have s: "sr_ok no_literals (newArityTable 8000) (small_record\<lparr>sr_args := [1, 2]\<rparr>)"
    "dom (sr_map (newArityTable 8000) (small_record\<lparr>sr_args := [1, 2]\<rparr>)) = {SmallInt 1, SmallInt 2}"
    using r by (auto simp: sr_ok_def small_record_def sr_map_def tuple2_keys)
  have d: "dom (sr_map (newArityTable 8000) small_record) = {SmallInt 1, SmallInt 2}" by (auto simp: small_record_map)
  have F: "feats_ok no_literals {SmallInt 1, SmallInt 2}" by (simp add: feats_ok_def)
  have "rt_map (newArityTable 8000) (TSRecord small_record) = sr_map (newArityTable 8000) small_record" by (simp add: rt_map_def)
  then show ?thesis
    using record_unique[OF small_table_ok small_term_ok small_term_ok _ r s(1)] s(2) d F by (simp add: small_record_def)
qed



text \<open>
  Keys that cannot be compared. The insertion sort relies on an element that no other precedes; the order of these keys has a
  cycle, and the search for the place of a key runs off the array.
\<close>

lemma sortlist_far_keys:
  "sortlist no_literals [SmallInt 0, SmallInt (-1), SmallInt OzMaxInt, SmallInt OzMaxInt] = None"
  by code_simp

section \<open>Dictionaries\<close>

lemma small_dictionary:
  obtains d :: "(nat, nat) OzDictionary" where "newOzDictionary 0 5 = Some d" "dict_ok no_literals d" "dict_map no_literals d = Map.empty"
    "dict_home d = 0" "\<not> dict_distributed d"
  using newOzDictionary_spec[of 5 "0 :: nat" no_literals] by auto

text \<open>
  C15: the fourteen builtins of \<open>dict_op\<close> (member, get, condGet, put, exchange, condExchange, isEmpty, remove, removeAll, keys, items,
  entries, clone, toRecord), called with a dictionary of the current space, refine operations on maps: get and exchange raise the exception
  \<^verbatim>\<open>dict\<close>, an \<^verbatim>\<open>error\<close>, exactly when their key is missing, and every other call leaves the dictionary with the map and returns the result
  of the operation; \<^verbatim>\<open>isEmpty\<close> answers whether there is no entry. This holds while the dictionary has fewer keys than its largest table
  admits, and for toRecord when its keys can be compared (\<open>features_ok\<close>). \<^verbatim>\<open>doc/base/chunks.sgml\<close> calls the exception a
  system exception and says that \<^verbatim>\<open>isEmpty\<close> tests whether there is an entry.
\<close>

theorem dict_refines_map:
  assumes "dict_ok L d" "\<not> dict_distributed d" "at_ok L T" "int (card (dom (dict_map L d))) < ht_limit"
    "dict_home d = env_currentBoard env \<or> env_currentBoard env = env_rootBoard env" "env_L env = L"
    "\<And>lbl. oper = OP_TORECORD lbl \<Longrightarrow> features_ok L (dom (dict_map L d))"
  shows "op_yields (env_AtomCons env) L T d oper (dict_builtin env dist oper T d)"
  using assms by (rule dict_builtin_spec)

theorem dict_refines_map_witness:
  "\<exists>d. newOzDictionary 0 5 = Some d \<and>
     dict_builtin small_env (\<lambda>oper s. Suspend) (OP_GET (SmallInt 1)) (newArityTable 8000) d = Raise E_ERROR ''dict'' \<and>
     op_yields 16 no_literals (newArityTable 8000) d (OP_PUT (SmallInt 1) 7)
       (dict_builtin small_env (\<lambda>oper s. Suspend) (OP_PUT (SmallInt 1) 7) (newArityTable 8000) d)"
proof -
  obtain d :: "(nat, nat) OzDictionary" where d: "newOzDictionary 0 5 = Some d" "dict_ok no_literals d" "dict_map no_literals d = Map.empty"
    "dict_home d = 0" "\<not> dict_distributed d" by (rule small_dictionary)
  have "op_yields (env_AtomCons small_env) no_literals (newArityTable 8000) d oper (dict_builtin small_env (\<lambda>oper s. Suspend) oper (newArityTable 8000) d)"
    for oper by (rule dict_refines_map) (use d small_table_ok in \<open>simp_all add: small_env_def ht_limit_def features_ok_def feats_ok_def\<close>)
  from this[of "OP_GET (SmallInt 1)"] this[of "OP_PUT (SmallInt 1) 7"] show ?thesis
    using d(1,3) by (auto simp: small_env_def op_yields_def[of _ _ _ _ "OP_GET _"])
qed

text \<open>
  C16: after every sequence of insertions and removals on a new table, with all the growing and the chains it causes, a lookup returns
  what the sequence leaves in a map; the counter is the number of keys, the list of keys has each key once, and shrinking the
  table changes nothing of this.
\<close>

theorem dict_history:
  fixes us :: "(feature, 'v) map_update list"
  assumes "int (length us) \<le> ht_limit" "n \<le> 781460413"
  defines "m \<equiv> fold map_step us Map.empty"
  shows "\<exists>d0 d. init_ht n = Some d0 \<and> map_run (htAdd L) (htDel L) us d0 = Some d \<and>
    (\<forall>k. htFind L d k = m k \<and> htFind L (compactify L d) k = m k) \<and> ht_entries d = int (card (dom m)) \<and>
    distinct (getKeys d) \<and> set (getKeys d) = dom m \<and> map_of (getPairs d) = m \<and> verify d"
proof -
  obtain d0 :: "'v DictHashTable" where d0: "init_ht n = Some d0" "ht_ok L d0" "ht_map L d0 = Map.empty" by (rule init_ht_spec[OF assms(2)])
  have "card (dom (ht_map L d0)) + length us \<le> nat ht_limit" using d0(3) assms(1) by (simp add: le_nat_iff)
  then obtain d where d: "map_run (htAdd L) (htDel L) us d0 = Some d" "ht_ok L d" "ht_map L d = m"
    using ht.run_abs[OF d0(2), of us] d0(3) by (auto simp: m_def)
  have "\<forall>k. htFind L d k = m k \<and> htFind L (compactify L d) k = m k" using d(3) compactify_spec(2)[OF d(2)] by (simp add: htFind_map)
  then show ?thesis using d0(1) d(1,3) ht_ok_card[OF d(2)] ht_lists_spec(1-3,7)[OF d(2)] by metis
qed

theorem dict_history_witness:
  "\<exists>d0 d. init_ht 5 = Some d0 \<and>
     map_run (htAdd no_literals) (htDel no_literals) [Put (SmallInt 1) (7 :: nat), Put (SmallInt 6) 8, Del (SmallInt 1)] d0 = Some d \<and>
     htFind no_literals d (SmallInt 6) = Some 8 \<and> htFind no_literals d (SmallInt 1) = None"
  using dict_history[of "[Put (SmallInt 1) (7 :: nat), Put (SmallInt 6) 8, Del (SmallInt 1)]" 5 no_literals]
  by (auto simp: ht_limit_def simp del: map_run.simps)



text \<open>
  C19: on a dictionary of another space, below the top level, insertion, exchange and removal raise an exception and leave it alone;
  \<^verbatim>\<open>removeAll\<close> has no such guard: it empties the dictionary, and it takes the mark of a safe dictionary away.
\<close>

theorem dict_guards:
  assumes "\<not> dict_distributed d" "env_currentBoard env \<noteq> env_rootBoard env" "dict_home d \<noteq> env_currentBoard env"
    "oper \<in> {OP_PUT k v, OP_EXCHANGE k v, OP_CONDEXCHANGE k v x, OP_REMOVE k}"
  shows "dict_builtin env dist oper T d = Raise E_ERROR ''globalState'' \<and>
    (\<exists>d'. dict_builtin env dist OP_REMOVEALL T (markSafe d) = Proceed ((T, d'), NoResult) \<and> dict_map L d' = Map.empty \<and>
       isSafeDict (markSafe d) \<and> \<not> isSafeDict d')"
proof
  have "CheckLocalBoard env d r = Raise E_ERROR ''globalState''" for r using assms(2,3) by (simp add: CheckLocalBoard_def)
  then show "dict_builtin env dist oper T d = Raise E_ERROR ''globalState''" using assms(4) by (auto simp: dict_builtin_defs)
  have "\<not> dict_distributed (markSafe d)" using assms(1) by (simp add: markSafe_def)
  then show "\<exists>d'. dict_builtin env dist OP_REMOVEALL T (markSafe d) = Proceed ((T, d'), NoResult) \<and> dict_map L d' = Map.empty \<and>
       isSafeDict (markSafe d) \<and> \<not> isSafeDict d'"
    using removeAll_spec[of "markSafe d" L] markSafe_spec(1)[of d] by (auto simp: dict_builtin_defs of_option_def)
qed

theorem dict_guards_witness:
  "\<exists>d. newOzDictionary 0 5 = Some d \<and>
     dict_builtin (small_env\<lparr>env_currentBoard := 1\<rparr>) (\<lambda>oper s. Suspend) (OP_PUT (SmallInt 1) 7) (newArityTable 8000) d = Raise E_ERROR ''globalState''"
proof -
  obtain d :: "(nat, nat) OzDictionary" where d: "newOzDictionary 0 5 = Some d" "dict_home d = 0" "\<not> dict_distributed d" by (rule small_dictionary)
  then show ?thesis
    using dict_guards[of d "small_env\<lparr>env_currentBoard := 1\<rparr>" "OP_PUT (SmallInt 1) 7" "SmallInt 1" 7 0 "\<lambda>oper s. Suspend" "newArityTable 8000" no_literals]
    by (auto simp: small_env_def)
qed

text \<open>
  C17: a record whose features can be compared (\<open>features_ok\<close>: no two small integers \<open>2 ^ 27\<close> or more apart; otherwise it may come back with
  another arity of the same features) that is made into a dictionary and back with its label is the same term, in an arity table that may have grown; the
  dictionary has the features and arguments of the record.
\<close>

theorem record_dictionary_round_trip:
  fixes t :: "'v rterm" and b :: 'b
  assumes "at_ok L T" "rt_ok c L T t" "int (card (dom (rt_map T t))) \<le> ht_limit" "features_ok L (dom (rt_map T t))"
  shows "\<exists>d :: ('b, 'v) OzDictionary. BIrecordToDictionary L T b (RTerm t) = Proceed d \<and> dict_map L d = rt_map T t \<and>
    (\<exists>T'. toRecord_ht c J L T (dict_table d) (rt_label c t) = Some (T', t) \<and> at_ok L T' \<and> at_extends T T')"
proof -
  obtain d :: "('b, 'v) OzDictionary" where d: "BIrecordToDictionary L T b (RTerm t) = Proceed d" "dict_ok L d" "dict_map L d = rt_map T t"
    using BIrecordToDictionary_spec[OF assms(1-3), of b] by blast
  have h: "ht_ok L (dict_table d)" "ht_map L (dict_table d) = rt_map T t" using d(2,3) by (simp_all add: dict_ok_def dict_map_def)
  have "ht_entries (dict_table d) \<le> 2 ^ 31" using ht_ok_card[OF h(1)] h(2) assms(3) by (simp add: ht_limit_def)
  then have "yields_record c L T (toRecord_ht c J L T (dict_table d) (rt_label c t)) (rt_label c t) (rt_map T t)"
    using toRecord_spec[OF h(1) assms(1)] h(2) assms(4) by simp
  then obtain T' u where u: "toRecord_ht c J L T (dict_table d) (rt_label c t) = Some (T', u)" "at_ok L T'" "at_extends T T'" "rt_ok c L T' u"
    "rt_label c u = rt_label c t" "rt_map T' u = rt_map T t" unfolding yields_record_def by blast
  note t' = rt_extends[OF u(3) assms(2)]
  have "u = t" by (rule rt_unique[OF u(2,4) t'(1)]) (use u(5,6) t'(2) assms(4) in \<open>simp_all add: features_ok_def\<close>)
  then show ?thesis using d(1,3) u(1-3) by blast
qed

theorem record_dictionary_round_trip_witness:
  "\<exists>d :: (nat, nat) OzDictionary. BIrecordToDictionary no_literals (newArityTable 8000) 0 (RTerm (TSRecord small_record)) = Proceed d \<and>
     (\<exists>T'. toRecord_ht 16 (\<lambda>i. 0) no_literals (newArityTable 8000) (dict_table d) 32 = Some (T', TSRecord small_record))"
proof -
  have d: "dom (rt_map (newArityTable 8000) (TSRecord small_record)) = {SmallInt 1, SmallInt 2}" by (auto simp: small_term_map)
  have "features_ok no_literals {SmallInt 1, SmallInt 2}" by (rule features_ok_mono[OF small_features_ok]) simp
  moreover have "rt_label 16 (TSRecord small_record) = 32" by (simp add: rt_label_def small_record_def)
  ultimately show ?thesis
    using record_dictionary_round_trip[OF small_table_ok small_term_ok, of no_literals "0 :: nat" "\<lambda>i. 0"] d by (auto simp: ht_limit_def)
qed

end
