(* ===== verification/BitArray.thy ===== *)
theory BitArray
  imports Builtin Bits
begin

text \<open>
  Bit arrays (\<^verbatim>\<open>platform/emulator/bitarray.cc\<close>): a range of integers and one bit for each, in
  an array of 32-bit words. The operations of the class come first, then the builtins, which
  check their arguments. What an array stands for is the set of the indices of its set bits; the
  theorems show that every operation does on these sets what it is named after, and that the
  builtins reject what the operations require.

  The difference of the bounds of a bit array is an \<open>int\<close>: \<open>ba_ok\<close> asks for one below \<open>2 ^ 31\<close>.
\<close>

section \<open>The class\<close>

record BitArray =
  lowerBound :: int
  upperBound :: int
  words :: "int32 list"

definition BITS_PER_INT :: int where
  "BITS_PER_INT = 32"

definition getSize :: "int \<Rightarrow> int \<Rightarrow> nat" where
  "getSize lower upper = nat ((upper - lower) div BITS_PER_INT + 1)"

definition new_BitArray :: "int \<Rightarrow> int \<Rightarrow> BitArray" where
  "new_BitArray lower upper =
     \<lparr>lowerBound = lower, upperBound = upper, words = replicate (getSize lower upper) 0\<rparr>"

definition copy_BitArray :: "BitArray \<Rightarrow> BitArray" where
  "copy_BitArray b = \<lparr>lowerBound = lowerBound b, upperBound = upperBound b,
     words = take (getSize (lowerBound b) (upperBound b)) (words b)\<rparr>"

definition checkBounds :: "BitArray \<Rightarrow> int \<Rightarrow> bool" where
  "checkBounds b i \<longleftrightarrow> lowerBound b \<le> i \<and> i \<le> upperBound b"

definition sameBounds :: "BitArray \<Rightarrow> BitArray \<Rightarrow> bool" where
  "sameBounds b c \<longleftrightarrow> lowerBound b = lowerBound c \<and> upperBound b = upperBound c"

definition set_ba :: "BitArray \<Rightarrow> int \<Rightarrow> BitArray" where
  "set_ba b i =
     (let relative = i - lowerBound b; n = nat (relative div BITS_PER_INT)
      in b\<lparr>words := (words b)[n := words b ! n OR push_bit (nat (relative mod BITS_PER_INT)) 1]\<rparr>)"

definition clear_ba :: "BitArray \<Rightarrow> int \<Rightarrow> BitArray" where
  "clear_ba b i =
     (let relative = i - lowerBound b; n = nat (relative div BITS_PER_INT)
      in b\<lparr>words := (words b)[n := words b ! n AND NOT (push_bit (nat (relative mod BITS_PER_INT)) 1)]\<rparr>)"

definition test_ba :: "BitArray \<Rightarrow> int \<Rightarrow> bool" where
  "test_ba b i =
     (let relative = i - lowerBound b
      in words b ! nat (relative div BITS_PER_INT) AND push_bit (nat (relative mod BITS_PER_INT)) 1 \<noteq> 0)"

text \<open>The loops \<^verbatim>\<open>for (int i = getSize(); i--; ) array[i] op= b->array[i]\<close>.\<close>

primrec word_loop :: "(int32 \<Rightarrow> int32 \<Rightarrow> int32) \<Rightarrow> nat \<Rightarrow> int32 list \<Rightarrow> int32 list \<Rightarrow> int32 list" where
  "word_loop f 0 xs ys = xs"
| "word_loop f (Suc i) xs ys = word_loop f i (xs[i := f (xs ! i) (ys ! i)]) ys"

definition bor :: "BitArray \<Rightarrow> BitArray \<Rightarrow> BitArray" where
  "bor b c = b\<lparr>words := word_loop (\<lambda>x y. x OR y) (getSize (lowerBound b) (upperBound b)) (words b) (words c)\<rparr>"

definition band :: "BitArray \<Rightarrow> BitArray \<Rightarrow> BitArray" where
  "band b c = b\<lparr>words := word_loop (\<lambda>x y. x AND y) (getSize (lowerBound b) (upperBound b)) (words b) (words c)\<rparr>"

definition nimpl :: "BitArray \<Rightarrow> BitArray \<Rightarrow> BitArray" where
  "nimpl b c = b\<lparr>words := word_loop (\<lambda>x y. x AND NOT y) (getSize (lowerBound b) (upperBound b)) (words b) (words c)\<rparr>"

primrec disjoint_loop :: "nat \<Rightarrow> int32 list \<Rightarrow> int32 list \<Rightarrow> bool" where
  "disjoint_loop 0 xs ys = True"
| "disjoint_loop (Suc i) xs ys = (if xs ! i AND ys ! i \<noteq> 0 then False else disjoint_loop i xs ys)"

definition disjoint_ba :: "BitArray \<Rightarrow> BitArray \<Rightarrow> bool" where
  "disjoint_ba b c = disjoint_loop (getSize (lowerBound b) (upperBound b)) (words b) (words c)"

function subsumes_loop :: "BitArray \<Rightarrow> BitArray \<Rightarrow> int \<Rightarrow> bool" where
  "subsumes_loop a b i =
     (if i \<le> upperBound b then (if test_ba b i \<and> \<not> test_ba a i then False else subsumes_loop a b (i + 1))
      else True)"
  by pat_completeness auto
termination
  by (relation "measure (\<lambda>(a, b, i). nat (upperBound b + 1 - i))") auto

declare subsumes_loop.simps [simp del]

definition subsumes_ba :: "BitArray \<Rightarrow> BitArray \<Rightarrow> bool" where
  "subsumes_ba a b =
     (if lowerBound a > lowerBound b \<or> upperBound a < upperBound b then False
      else subsumes_loop a b (lowerBound b))"

definition card_ba :: "BitArray \<Rightarrow> nat" where
  "card_ba b = get_num_of_bits (getSize (lowerBound b) (upperBound b)) (words b)"

text \<open>The lists are built from the last bit to the first; \<open>P\<close> is the test of a bit of a word.\<close>

primrec bit_list :: "(int32 \<Rightarrow> nat \<Rightarrow> bool) \<Rightarrow> int32 \<Rightarrow> int \<Rightarrow> nat \<Rightarrow> int list \<Rightarrow> int list" where
  "bit_list P w off 0 l = l"
| "bit_list P w off (Suc j) l = bit_list P w off j (if P w j then (off + int j) # l else l)"

primrec word_list :: "(int32 \<Rightarrow> nat \<Rightarrow> bool) \<Rightarrow> int32 list \<Rightarrow> int \<Rightarrow> nat \<Rightarrow> int list \<Rightarrow> int list" where
  "word_list P ws off 0 l = l"
| "word_list P ws off (Suc i) l = word_list P ws (off - BITS_PER_INT) i (bit_list P (ws ! i) off 32 l)"

definition last_offset :: "BitArray \<Rightarrow> int" where
  "last_offset b = ((upperBound b - lowerBound b) div BITS_PER_INT) * BITS_PER_INT + lowerBound b"

definition toList :: "BitArray \<Rightarrow> int list" where
  "toList b = word_list (\<lambda>w j. w AND push_bit j 1 \<noteq> 0) (words b) (last_offset b)
     (getSize (lowerBound b) (upperBound b)) []"

definition complementToList :: "BitArray \<Rightarrow> int list" where
  "complementToList b = word_list (\<lambda>w j. \<not> (w AND push_bit j 1 \<noteq> 0)) (words b) (last_offset b)
     (getSize (lowerBound b) (upperBound b)) []"


section \<open>The builtins\<close>

definition BIbitArray_new :: "BitArray oz_arg \<Rightarrow> BitArray oz_arg \<Rightarrow> BitArray oz_return" where
  "BIbitArray_new a0 a1 =
     declareIntIN 0 a0 (\<lambda>l. declareIntIN 1 a1 (\<lambda>h.
       if l \<le> h then Proceed (new_BitArray l h) else Raise E_ERROR ''BitArray.new''))"

definition BIbitArray_is :: "BitArray oz_arg \<Rightarrow> bool oz_return" where
  "BIbitArray_is a0 = (case a0 of Unbound \<Rightarrow> Suspend | OzObj b \<Rightarrow> Proceed True | _ \<Rightarrow> Proceed False)"

definition BIbitArray_set :: "BitArray oz_arg \<Rightarrow> BitArray oz_arg \<Rightarrow> BitArray oz_return" where
  "BIbitArray_set a0 a1 =
     declareObjIN 0 ''BitArray'' a0 (\<lambda>b. declareIntIN 1 a1 (\<lambda>i.
       if checkBounds b i then Proceed (set_ba b i) else Raise E_ERROR ''BitArray.index''))"

definition BIbitArray_clear :: "BitArray oz_arg \<Rightarrow> BitArray oz_arg \<Rightarrow> BitArray oz_return" where
  "BIbitArray_clear a0 a1 =
     declareObjIN 0 ''BitArray'' a0 (\<lambda>b. declareIntIN 1 a1 (\<lambda>i.
       if checkBounds b i then Proceed (clear_ba b i) else Raise E_ERROR ''BitArray.index''))"

definition BIbitArray_test :: "BitArray oz_arg \<Rightarrow> BitArray oz_arg \<Rightarrow> bool oz_return" where
  "BIbitArray_test a0 a1 =
     declareObjIN 0 ''BitArray'' a0 (\<lambda>b. declareIntIN 1 a1 (\<lambda>i.
       if checkBounds b i then Proceed (test_ba b i) else Raise E_ERROR ''BitArray.index''))"

definition getFeatureV :: "BitArray \<Rightarrow> BitArray oz_arg \<Rightarrow> bool oz_return" where
  "getFeatureV b f =
     (case f of
        OzInt n \<Rightarrow> (let i = getInt n in if checkBounds b i then Proceed (test_ba b i) else Raise E_ERROR ''BitArray.index'')
      | _ \<Rightarrow> TypeErr 1 ''int'')"

definition putFeatureV :: "BitArray \<Rightarrow> BitArray oz_arg \<Rightarrow> BitArray oz_arg \<Rightarrow> BitArray oz_return" where
  "putFeatureV b f v =
     (case f of
        OzInt n \<Rightarrow>
          (let i = getInt n
           in if \<not> checkBounds b i then Raise E_ERROR ''BitArray.index''
              else (case v of
                      Unbound \<Rightarrow> Suspend
                    | OzBool t \<Rightarrow> Proceed (if t then set_ba b i else clear_ba b i)
                    | _ \<Rightarrow> TypeErr 2 ''bool''))
      | _ \<Rightarrow> TypeErr 1 ''int'')"

definition binop :: "(BitArray \<Rightarrow> BitArray \<Rightarrow> 'a) \<Rightarrow> BitArray oz_arg \<Rightarrow> BitArray oz_arg \<Rightarrow> 'a oz_return" where
  "binop f a0 a1 =
     declareObjIN 0 ''BitArray'' a0 (\<lambda>b1. declareObjIN 1 ''BitArray'' a1 (\<lambda>b2.
       if sameBounds b1 b2 then Proceed (f b1 b2) else Raise E_ERROR ''BitArray.binop''))"

definition BIbitArray_or :: "BitArray oz_arg \<Rightarrow> BitArray oz_arg \<Rightarrow> BitArray oz_return" where
  "BIbitArray_or = binop bor"

definition BIbitArray_and :: "BitArray oz_arg \<Rightarrow> BitArray oz_arg \<Rightarrow> BitArray oz_return" where
  "BIbitArray_and = binop band"

definition BIbitArray_nimpl :: "BitArray oz_arg \<Rightarrow> BitArray oz_arg \<Rightarrow> BitArray oz_return" where
  "BIbitArray_nimpl = binop nimpl"

definition BIbitArray_disjoint :: "BitArray oz_arg \<Rightarrow> BitArray oz_arg \<Rightarrow> bool oz_return" where
  "BIbitArray_disjoint = binop disjoint_ba"

definition BIbitArray_subsumes :: "BitArray oz_arg \<Rightarrow> BitArray oz_arg \<Rightarrow> bool oz_return" where
  "BIbitArray_subsumes a0 a1 =
     declareObjIN 0 ''BitArray'' a0 (\<lambda>b1. declareObjIN 1 ''BitArray'' a1 (\<lambda>b2. Proceed (subsumes_ba b1 b2)))"

definition BIbitArray_low :: "BitArray oz_arg \<Rightarrow> int oz_return" where
  "BIbitArray_low a0 = declareObjIN 0 ''BitArray'' a0 (\<lambda>b. Proceed (lowerBound b))"

definition BIbitArray_high :: "BitArray oz_arg \<Rightarrow> int oz_return" where
  "BIbitArray_high a0 = declareObjIN 0 ''BitArray'' a0 (\<lambda>b. Proceed (upperBound b))"

definition BIbitArray_clone :: "BitArray oz_arg \<Rightarrow> BitArray oz_return" where
  "BIbitArray_clone a0 = declareObjIN 0 ''BitArray'' a0 (\<lambda>b. Proceed (copy_BitArray b))"

definition BIbitArray_card :: "BitArray oz_arg \<Rightarrow> nat oz_return" where
  "BIbitArray_card a0 = declareObjIN 0 ''BitArray'' a0 (\<lambda>b. Proceed (card_ba b))"

definition BIbitArray_toList :: "BitArray oz_arg \<Rightarrow> int list oz_return" where
  "BIbitArray_toList a0 = declareObjIN 0 ''BitArray'' a0 (\<lambda>b. Proceed (toList b))"

definition BIbitArray_complementToList :: "BitArray oz_arg \<Rightarrow> int list oz_return" where
  "BIbitArray_complementToList a0 = declareObjIN 0 ''BitArray'' a0 (\<lambda>b. Proceed (complementToList b))"

text \<open>The list argument of \<^verbatim>\<open>fromList\<close>: its heads and what its last tail is.\<close>

datatype oz_list = LCons "BitArray oz_arg" oz_list | LNil | LVar | LOther

text \<open>The first loop: number of elements, least and greatest one.\<close>

fun fromList_scan :: "oz_list \<Rightarrow> nat \<Rightarrow> int \<Rightarrow> int \<Rightarrow> (nat \<times> int \<times> int) oz_return" where
  "fromList_scan (LCons h t) n mi ma =
     (case h of
        Unbound \<Rightarrow> Suspend
      | OzInt i \<Rightarrow>
          if OzMinInt \<le> i \<and> i \<le> OzMaxInt
          then fromList_scan t (Suc n) (if i < mi then i else mi) (if i > ma then i else ma)
          else TypeErr 0 ''Non-empty list of small integers''
      | _ \<Rightarrow> TypeErr 0 ''Non-empty list of small integers'')"
| "fromList_scan LVar n mi ma = Suspend"
| "fromList_scan LOther n mi ma = TypeErr 0 ''Non-empty list of small integers''"
| "fromList_scan LNil n mi ma =
     (if n = 0 then TypeErr 0 ''Non-empty list of small integers'' else Proceed (n, mi, ma))"

fun fromList_fill :: "nat \<Rightarrow> oz_list \<Rightarrow> BitArray \<Rightarrow> BitArray" where
  "fromList_fill (Suc n) (LCons (OzInt i) t) b = fromList_fill n t (set_ba b i)"
| "fromList_fill n t b = b"

definition BIbitArray_fromList :: "oz_list \<Rightarrow> BitArray oz_return" where
  "BIbitArray_fromList is =
     (case fromList_scan is 0 OzMaxInt OzMinInt of
        Proceed (n, mi, ma) \<Rightarrow> Proceed (fromList_fill n is (new_BitArray mi ma))
      | Suspend \<Rightarrow> Suspend
      | TypeErr p t \<Rightarrow> TypeErr p t
      | Raise c s \<Rightarrow> Raise c s)"


section \<open>The set a bit array stands for\<close>

definition ba_set :: "BitArray \<Rightarrow> int set" where
  "ba_set b = (\<lambda>k. lowerBound b + int k) ` wbits (words b)"

definition ba_ok :: "BitArray \<Rightarrow> bool" where
  "ba_ok b \<longleftrightarrow> lowerBound b \<le> upperBound b \<and> upperBound b - lowerBound b < 2 ^ 31 \<and>
     length (words b) = getSize (lowerBound b) (upperBound b) \<and> ba_set b \<subseteq> {lowerBound b..upperBound b}"

lemma mem_ba_set: "i \<in> ba_set b \<longleftrightarrow> lowerBound b \<le> i \<and> nat (i - lowerBound b) \<in> wbits (words b)"
proof
  assume "lowerBound b \<le> i \<and> nat (i - lowerBound b) \<in> wbits (words b)"
  then show "i \<in> ba_set b" unfolding ba_set_def by (intro image_eqI[of _ _ "nat (i - lowerBound b)"]) auto
qed (auto simp: ba_set_def)

lemma getSize_bound: "lower \<le> upper \<Longrightarrow> nat (upper - lower) div 32 < getSize lower upper"
  by (simp add: getSize_def BITS_PER_INT_def nat_div_distrib[symmetric] nat_less_iff)

lemma getSize_eq: "lower \<le> upper \<Longrightarrow> int (getSize lower upper) = (upper - lower) div 32 + 1"
  by (simp add: getSize_def BITS_PER_INT_def)

lemma index_in:
  assumes "ba_ok b" "checkBounds b i"
  shows "nat (i - lowerBound b) div 32 < length (words b)"
proof -
  have "nat (i - lowerBound b) div 32 \<le> nat (upperBound b - lowerBound b) div 32"
    using assms(2) by (intro div_le_mono nat_mono) (simp add: checkBounds_def)
  then show ?thesis using getSize_bound[of "lowerBound b" "upperBound b"] assms(1) by (simp add: ba_ok_def)
qed

lemma rel_index:
  assumes "lowerBound b \<le> i"
  shows "nat ((i - lowerBound b) div BITS_PER_INT) = nat (i - lowerBound b) div 32"
    "nat ((i - lowerBound b) mod BITS_PER_INT) = nat (i - lowerBound b) mod 32"
  using assms by (simp_all add: BITS_PER_INT_def nat_div_distrib nat_mod_distrib)

lemma same_bit: "j div 32 = k div 32 \<Longrightarrow> j = k \<longleftrightarrow> j mod 32 = (k mod 32 :: nat)"
  by (metis div_mult_mod_eq)

lemma bit_or_push: "m < 32 \<Longrightarrow> bit ((w :: int32) OR 2 ^ m) n \<longleftrightarrow> bit w n \<or> n = m"
  by (auto simp: bit_or_iff bit_two_power)

lemma bit_andnot_push: "m < 32 \<Longrightarrow> n < 32 \<Longrightarrow> bit ((w :: int32) AND NOT (2 ^ m)) n \<longleftrightarrow> bit w n \<and> n \<noteq> m"
  by (auto simp: bit_and_iff bit_not_iff bit_two_power)

text \<open>The update of one word, seen on the set.\<close>

lemma ba_set_update:
  assumes "ba_ok b" "checkBounds b i" "n = nat (i - lowerBound b) div 32" "m = nat (i - lowerBound b) mod 32"
    and "\<And>k. k < 32 \<Longrightarrow> bit w k \<longleftrightarrow> (if k = m then v else bit (words b ! n) k)"
  shows "ba_set (b\<lparr>words := (words b)[n := w]\<rparr>) = (if v then insert i (ba_set b) else ba_set b - {i})"
proof (rule set_eqI)
  fix j
  let ?k = "nat (j - lowerBound b)" and ?i = "nat (i - lowerBound b)"
  have n: "n < length (words b)" using index_in[OF assms(1,2)] assms(3) by simp
  have i: "lowerBound b \<le> i" using assms(2) by (simp add: checkBounds_def)
  have eq: "j = i \<longleftrightarrow> ?k = ?i" if "lowerBound b \<le> j" using that i by auto
  have "?k \<in> wbits ((words b)[n := w]) \<longleftrightarrow> (if ?k = ?i then v else ?k \<in> wbits (words b))"
  proof (cases "?k div 32 = n")
    case True
    then have "?k = ?i \<longleftrightarrow> ?k mod 32 = m" using same_bit[of ?k ?i] assms(3,4) by simp
    then show ?thesis using True n assms(5)[of "?k mod 32"] by (simp add: mem_wbits_update mem_wbits)
  next
    case False
    then have "?k \<noteq> ?i" using assms(3) by auto
    then show ?thesis using False n by (simp add: mem_wbits_update)
  qed
  then show "j \<in> ba_set (b\<lparr>words := (words b)[n := w]\<rparr>) \<longleftrightarrow> j \<in> (if v then insert i (ba_set b) else ba_set b - {i})"
    using eq i by (auto simp: mem_ba_set)
qed

lemma set_ba_spec:
  assumes "ba_ok b" "checkBounds b i"
  shows "ba_set (set_ba b i) = insert i (ba_set b)" "ba_ok (set_ba b i)" "sameBounds (set_ba b i) b"
proof -
  have i: "lowerBound b \<le> i" using assms(2) by (simp add: checkBounds_def)
  show s: "ba_set (set_ba b i) = insert i (ba_set b)"
    using ba_set_update[OF assms refl refl, of "words b ! (nat (i - lowerBound b) div 32)
      OR push_bit (nat (i - lowerBound b) mod 32) 1" True]
    by (simp add: set_ba_def Let_def rel_index[OF i] bit_or_push)
  show "sameBounds (set_ba b i) b" by (simp add: sameBounds_def set_ba_def Let_def)
  show "ba_ok (set_ba b i)"
    using assms unfolding ba_ok_def s checkBounds_def by (simp add: set_ba_def Let_def)
qed

lemma clear_ba_spec:
  assumes "ba_ok b" "checkBounds b i"
  shows "ba_set (clear_ba b i) = ba_set b - {i}" "ba_ok (clear_ba b i)" "sameBounds (clear_ba b i) b"
proof -
  have i: "lowerBound b \<le> i" using assms(2) by (simp add: checkBounds_def)
  show s: "ba_set (clear_ba b i) = ba_set b - {i}"
    using ba_set_update[OF assms refl refl, of "words b ! (nat (i - lowerBound b) div 32)
      AND NOT (push_bit (nat (i - lowerBound b) mod 32) 1)" False]
    by (simp add: clear_ba_def Let_def rel_index[OF i] bit_andnot_push)
  show "sameBounds (clear_ba b i) b" by (simp add: sameBounds_def clear_ba_def Let_def)
  show "ba_ok (clear_ba b i)"
    using assms unfolding ba_ok_def s checkBounds_def by (auto simp: clear_ba_def Let_def)
qed

lemma test_ba_spec:
  assumes "ba_ok b" "checkBounds b i"
  shows "test_ba b i \<longleftrightarrow> i \<in> ba_set b"
proof -
  have i: "lowerBound b \<le> i" using assms(2) by (simp add: checkBounds_def)
  have "test_ba b i \<longleftrightarrow> bit (words b ! (nat (i - lowerBound b) div 32)) (nat (i - lowerBound b) mod 32)"
    unfolding test_ba_def Let_def rel_index[OF i] by (rule and_push_one) simp
  then show ?thesis using index_in[OF assms] i by (simp add: mem_ba_set mem_wbits)
qed

lemma new_BitArray_spec:
  assumes "l \<le> h" "h - l < 2 ^ 31"
  shows "ba_set (new_BitArray l h) = {}" "ba_ok (new_BitArray l h)"
proof -
  show "ba_set (new_BitArray l h) = {}" by (auto simp: mem_ba_set new_BitArray_def mem_wbits)
  then show "ba_ok (new_BitArray l h)" using assms by (simp add: ba_ok_def) (simp add: new_BitArray_def)
qed

lemma copy_BitArray_eq: "ba_ok b \<Longrightarrow> copy_BitArray b = b"
  by (cases b) (simp add: copy_BitArray_def ba_ok_def)

lemma length_word_loop [simp]: "length (word_loop f n xs ys) = length xs"
  by (induction n arbitrary: xs) auto

lemma nth_word_loop:
  "n \<le> length xs \<Longrightarrow> i < length xs \<Longrightarrow> word_loop f n xs ys ! i = (if i < n then f (xs ! i) (ys ! i) else xs ! i)"
  by (induction n arbitrary: xs) (auto simp: less_Suc_eq nth_list_update)

text \<open>A word-wise operation that works bit by bit.\<close>

lemma word_loop_set:
  assumes "ba_ok b" "ba_ok c" "sameBounds b c"
    and "\<And>x y k. k < 32 \<Longrightarrow> bit (f x y) k \<longleftrightarrow> P (bit x k) (bit y k)" "\<not> P False False"
  shows "ba_set (b\<lparr>words := word_loop f (getSize (lowerBound b) (upperBound b)) (words b) (words c)\<rparr>)
      = {i \<in> ba_set b \<union> ba_set c. P (i \<in> ba_set b) (i \<in> ba_set c)}"
    and "ba_ok (b\<lparr>words := word_loop f (getSize (lowerBound b) (upperBound b)) (words b) (words c)\<rparr>)"
proof -
  have eq: "lowerBound c = lowerBound b" "upperBound c = upperBound b" using assms(3) by (auto simp: sameBounds_def)
  have len: "length (words b) = getSize (lowerBound b) (upperBound b)" "length (words c) = length (words b)"
    using assms(1,2) eq by (auto simp: ba_ok_def)
  let ?w = "word_loop f (getSize (lowerBound b) (upperBound b)) (words b) (words c)"
  have "k \<in> wbits ?w \<longleftrightarrow> k div 32 < length (words b) \<and> P (k \<in> wbits (words b)) (k \<in> wbits (words c))" for k
    using len assms(4)[of "k mod 32"] nth_word_loop[of "length (words b)" "words b" "k div 32" f "words c"]
    by (auto simp: mem_wbits)
  moreover have "k div 32 < length (words b)" if "k \<in> wbits (words b) \<or> k \<in> wbits (words c)" for k
    using that len(2) by (auto simp: mem_wbits)
  ultimately have "k \<in> wbits ?w \<longleftrightarrow> (k \<in> wbits (words b) \<or> k \<in> wbits (words c)) \<and>
      P (k \<in> wbits (words b)) (k \<in> wbits (words c))" for k
    using assms(5) by (cases "k \<in> wbits (words b)"; cases "k \<in> wbits (words c)") simp_all
  then have "i \<in> ba_set (b\<lparr>words := ?w\<rparr>) \<longleftrightarrow> i \<in> {i \<in> ba_set b \<union> ba_set c. P (i \<in> ba_set b) (i \<in> ba_set c)}" for i
    using eq by (cases "lowerBound b \<le> i") (simp_all add: mem_ba_set)
  then show s: "ba_set (b\<lparr>words := ?w\<rparr>) = {i \<in> ba_set b \<union> ba_set c. P (i \<in> ba_set b) (i \<in> ba_set c)}" by blast
  have "ba_set (b\<lparr>words := ?w\<rparr>) \<subseteq> {lowerBound b..upperBound b}"
    unfolding s using assms(1,2) eq by (auto simp: ba_ok_def)
  then show "ba_ok (b\<lparr>words := ?w\<rparr>)" using assms(1) by (simp add: ba_ok_def)
qed

lemma binops_spec:
  assumes "ba_ok b" "ba_ok c" "sameBounds b c"
  shows "ba_set (bor b c) = ba_set b \<union> ba_set c \<and> ba_ok (bor b c)"
    and "ba_set (band b c) = ba_set b \<inter> ba_set c \<and> ba_ok (band b c)"
    and "ba_set (nimpl b c) = ba_set b - ba_set c \<and> ba_ok (nimpl b c)"
proof -
  show "ba_set (bor b c) = ba_set b \<union> ba_set c \<and> ba_ok (bor b c)"
    using word_loop_set[OF assms, of "\<lambda>x y. x OR y" "(\<or>)"] by (auto simp: bor_def bit_or_iff)
  show "ba_set (band b c) = ba_set b \<inter> ba_set c \<and> ba_ok (band b c)"
    using word_loop_set[OF assms, of "\<lambda>x y. x AND y" "(\<and>)"] by (auto simp: band_def bit_and_iff)
  show "ba_set (nimpl b c) = ba_set b - ba_set c \<and> ba_ok (nimpl b c)"
    using word_loop_set[OF assms, of "\<lambda>x y. x AND NOT y" "\<lambda>p q. p \<and> \<not> q"]
    by (auto simp: nimpl_def bit_and_iff bit_not_iff)
qed

lemma disjoint_loop_iff: "disjoint_loop n xs ys \<longleftrightarrow> (\<forall>i < n. xs ! i AND ys ! i = 0)"
  by (induction n) (auto simp: less_Suc_eq)

lemma word_and_zero: "(x :: int32) AND y = 0 \<longleftrightarrow> (\<forall>k < 32. \<not> (bit x k \<and> bit y k))"
  by (auto simp: bit_eq_iff bit_and_iff dest: bit_imp_le_length)

lemma disjoint_ba_spec:
  assumes "ba_ok b" "ba_ok c" "sameBounds b c"
  shows "disjoint_ba b c \<longleftrightarrow> ba_set b \<inter> ba_set c = {}"
proof -
  have eq: "lowerBound c = lowerBound b" using assms(3) by (auto simp: sameBounds_def)
  have len: "getSize (lowerBound b) (upperBound b) = length (words b)" "length (words c) = length (words b)"
    using assms by (auto simp: ba_ok_def sameBounds_def)
  have "disjoint_ba b c \<longleftrightarrow> (\<forall>i < length (words b). \<forall>k < 32. \<not> (bit (words b ! i) k \<and> bit (words c ! i) k))"
    by (simp add: disjoint_ba_def disjoint_loop_iff len(1) word_and_zero)
  also have "\<dots> \<longleftrightarrow> wbits (words b) \<inter> wbits (words c) = {}"
  proof
    assume h: "wbits (words b) \<inter> wbits (words c) = {}"
    show "\<forall>i < length (words b). \<forall>k < 32. \<not> (bit (words b ! i) k \<and> bit (words c ! i) k)"
      using h wbits_word[of _ _ "words b"] wbits_word[of _ _ "words c"] len(2) by (metis Int_iff empty_iff)
  qed (auto simp: mem_wbits len(2))
  also have "\<dots> \<longleftrightarrow> ba_set b \<inter> ba_set c = {}" unfolding ba_set_def eq by auto
  finally show ?thesis .
qed

lemma subsumes_loop_iff:
  "subsumes_loop a b i \<longleftrightarrow> (\<forall>j. i \<le> j \<and> j \<le> upperBound b \<longrightarrow> test_ba b j \<longrightarrow> test_ba a j)"
proof (induction a b i rule: subsumes_loop.induct)
  case (1 a b i)
  show ?case
  proof (cases "i \<le> upperBound b")
    case True
    have "(\<forall>j. i \<le> j \<and> j \<le> upperBound b \<longrightarrow> test_ba b j \<longrightarrow> test_ba a j) \<longleftrightarrow>
        (test_ba b i \<longrightarrow> test_ba a i) \<and> (\<forall>j. i + 1 \<le> j \<and> j \<le> upperBound b \<longrightarrow> test_ba b j \<longrightarrow> test_ba a j)"
      using True by (metis add1_zle_eq order_le_less)
    then show ?thesis using "1.IH"[OF True] True subsumes_loop.simps[of a b i] by auto
  next
    case False
    then show ?thesis by (auto simp: subsumes_loop.simps[of a b i])
  qed
qed

lemma subsumes_ba_spec:
  assumes "ba_ok a" "ba_ok b"
  shows "subsumes_ba a b \<longleftrightarrow>
    lowerBound a \<le> lowerBound b \<and> upperBound b \<le> upperBound a \<and> ba_set b \<subseteq> ba_set a"
proof (cases "lowerBound a \<le> lowerBound b \<and> upperBound b \<le> upperBound a")
  case True
  have "test_ba b j \<longleftrightarrow> j \<in> ba_set b" "test_ba a j \<longleftrightarrow> j \<in> ba_set a" if "lowerBound b \<le> j" "j \<le> upperBound b" for j
    using that True test_ba_spec[OF assms(1), of j] test_ba_spec[OF assms(2), of j] by (auto simp: checkBounds_def)
  moreover have "ba_set b \<subseteq> {lowerBound b..upperBound b}" using assms(2) by (simp add: ba_ok_def)
  ultimately have "subsumes_loop a b (lowerBound b) \<longleftrightarrow> ba_set b \<subseteq> ba_set a"
    unfolding subsumes_loop_iff by fastforce
  then show ?thesis using True by (auto simp: subsumes_ba_def)
qed (auto simp: subsumes_ba_def)

lemma card_ba_spec: "ba_ok b \<Longrightarrow> card_ba b = card (ba_set b)"
  by (simp add: card_ba_def ba_ok_def ba_set_def get_num_of_bits_card card_image inj_on_def
      flip: get_num_of_bits_card)


section \<open>Lists\<close>

lemma bit_list_eq: "bit_list P w off n l = map (\<lambda>j. off + int j) (filter (P w) [0..<n]) @ l"
  by (induction n arbitrary: l) auto

lemma upt_block: "[0..<32 * Suc n] = [0..<32 * n] @ map ((+) (32 * n)) [0..<32]"
  by (rule nth_equalityI) (auto simp: nth_append)

lemma word_list_eq:
  "word_list P ws (base + 32 * (int n - 1)) n l
     = map (\<lambda>k. base + int k) (filter (\<lambda>k. P (ws ! (k div 32)) (k mod 32)) [0..<32 * n]) @ l"
proof (induction n arbitrary: l)
  case (Suc n)
  have "filter (\<lambda>k. P (ws ! (k div 32)) (k mod 32)) (map ((+) (32 * n)) [0..<32])
      = map ((+) (32 * n)) (filter (P (ws ! n)) [0..<32])"
    unfolding filter_map comp_def by (intro arg_cong[of _ _ "map _"] filter_cong) auto
  then have "map (\<lambda>k. base + int k) (filter (\<lambda>k. P (ws ! (k div 32)) (k mod 32)) [0..<32 * Suc n])
      = map (\<lambda>k. base + int k) (filter (\<lambda>k. P (ws ! (k div 32)) (k mod 32)) [0..<32 * n])
        @ map (\<lambda>j. base + 32 * int n + int j) (filter (P (ws ! n)) [0..<32])"
    unfolding upt_block filter_append map_append by (simp add: add.assoc)
  moreover have "word_list P ws (base + 32 * (int (Suc n) - 1)) (Suc n) l
      = word_list P ws (base + 32 * (int n - 1)) n (bit_list P (ws ! n) (base + 32 * int n) 32 l)"
    by (simp add: BITS_PER_INT_def algebra_simps)
  ultimately show ?case unfolding Suc.IH bit_list_eq by simp
qed simp

lemma sorted_offsets:
  "sorted_list_of_set ((\<lambda>k. base + int k) ` {k. k < n \<and> Q k}) = map (\<lambda>k. base + int k) (filter Q [0..<n])"
proof -
  let ?l = "map (\<lambda>k. base + int k) (filter Q [0..<n])"
  have "sorted (filter Q [0..<n])" by (rule sorted_wrt_filter) simp
  then have "sorted ?l" by (auto simp: sorted_map intro: sorted_wrt_mono_rel[rotated])
  moreover have "distinct ?l" by (simp add: distinct_map inj_on_def)
  ultimately have "sorted_list_of_set (set ?l) = ?l" by (rule sorted_list_of_set.idem_if_sorted_distinct)
  moreover have "set ?l = (\<lambda>k. base + int k) ` {k. k < n \<and> Q k}" by auto
  ultimately show ?thesis by simp
qed

lemma lists_eq:
  assumes "ba_ok b"
  shows "word_list P (words b) (last_offset b) (getSize (lowerBound b) (upperBound b)) []
    = sorted_list_of_set ((\<lambda>k. lowerBound b + int k) `
        {k. k < 32 * length (words b) \<and> P (words b ! (k div 32)) (k mod 32)})"
proof -
  let ?n = "getSize (lowerBound b) (upperBound b)"
  have le: "lowerBound b \<le> upperBound b" "length (words b) = ?n" using assms by (auto simp: ba_ok_def)
  have off: "last_offset b = lowerBound b + 32 * (int ?n - 1)"
    using getSize_eq[OF le(1)] by (simp add: last_offset_def BITS_PER_INT_def)
  show ?thesis unfolding off word_list_eq le(2) sorted_offsets by simp
qed

lemma toList_spec:
  assumes "ba_ok b"
  shows "toList b = sorted_list_of_set (ba_set b)"
proof -
  have "{k. k < 32 * length (words b) \<and> (words b ! (k div 32)) AND push_bit (k mod 32) 1 \<noteq> 0} = wbits (words b)"
    unfolding wbits_def by (intro Collect_cong conj_cong refl and_push_one) simp
  then show ?thesis unfolding toList_def lists_eq[OF assms] by (simp add: ba_set_def)
qed

text \<open>The complement runs to the end of the last word, beyond the upper bound.\<close>

lemma complementToList_spec:
  assumes "ba_ok b"
  shows "complementToList b
    = sorted_list_of_set ({lowerBound b..<lowerBound b + 32 * int (length (words b))} - ba_set b)"
proof -
  let ?f = "\<lambda>k. lowerBound b + int k" and ?n = "32 * length (words b)"
  have "{k. k < ?n \<and> \<not> ((words b ! (k div 32)) AND push_bit (k mod 32) 1 \<noteq> 0)} = {..<?n} - wbits (words b)"
    unfolding wbits_def using and_push_one[of "_ mod 32"] by auto
  moreover have "?f ` ({..<?n} - wbits (words b)) = ?f ` {..<?n} - ba_set b"
    unfolding ba_set_def by (rule image_set_diff) (simp add: inj_def)
  moreover have "?f ` {..<?n} = {lowerBound b..<lowerBound b + 32 * int (length (words b))}"
  proof
    show "{lowerBound b..<lowerBound b + 32 * int (length (words b))} \<subseteq> ?f ` {..<?n}"
    proof
      fix i assume "i \<in> {lowerBound b..<lowerBound b + 32 * int (length (words b))}"
      then show "i \<in> ?f ` {..<?n}" by (intro image_eqI[of _ _ "nat (i - lowerBound b)"]) auto
    qed
  qed auto
  ultimately show ?thesis unfolding complementToList_def lists_eq[OF assms] by simp
qed

fun int_list :: "int list \<Rightarrow> oz_list" where
  "int_list [] = LNil"
| "int_list (i # is) = LCons (OzInt i) (int_list is)"

lemma fromList_scan_ints:
  "\<forall>i \<in> set xs. OzMinInt \<le> i \<and> i \<le> OzMaxInt \<Longrightarrow> n \<noteq> 0 \<or> xs \<noteq> [] \<Longrightarrow>
   fromList_scan (int_list xs) n mi ma
     = Proceed (n + length xs, fold min xs mi, fold max xs ma)"
  by (induction xs arbitrary: n mi ma) (auto simp: min_def max_def)

lemma fromList_fill_ints:
  "ba_ok b \<Longrightarrow> \<forall>i \<in> set xs. checkBounds b i \<Longrightarrow>
   ba_ok (fromList_fill (length xs) (int_list xs) b) \<and>
   ba_set (fromList_fill (length xs) (int_list xs) b) = set xs \<union> ba_set b \<and>
   sameBounds (fromList_fill (length xs) (int_list xs) b) b"
proof (induction xs arbitrary: b)
  case (Cons i xs)
  have i: "checkBounds b i" using Cons.prems(2) by simp
  note s = set_ba_spec[OF Cons.prems(1) i]
  have "\<forall>j \<in> set xs. checkBounds (set_ba b i) j" using Cons.prems(2) s(3) by (auto simp: checkBounds_def sameBounds_def)
  then show ?case using Cons.IH[OF s(2)] s Cons.prems(2)
    by (auto simp: sameBounds_def checkBounds_def)
qed (auto simp: sameBounds_def)

lemma fold_bounds:
  fixes xs :: "int list"
  assumes "xs \<noteq> []"
  shows "\<forall>i \<in> set xs. i \<le> m \<Longrightarrow> fold min xs m = Min (set xs)" "\<forall>i \<in> set xs. m \<le> i \<Longrightarrow> fold max xs m = Max (set xs)"
proof -
  have "fold min xs m = min m (Min (set xs))" "fold max xs m = max m (Max (set xs))"
    using Min.set_eq_fold[of m xs] Max.set_eq_fold[of m xs] assms by simp_all
  moreover have "Min (set xs) \<in> set xs" "Max (set xs) \<in> set xs" using assms by simp_all
  ultimately show "\<forall>i \<in> set xs. i \<le> m \<Longrightarrow> fold min xs m = Min (set xs)"
    "\<forall>i \<in> set xs. m \<le> i \<Longrightarrow> fold max xs m = Max (set xs)" by auto
qed

lemma fromList_spec:
  assumes "xs \<noteq> []" "\<forall>i \<in> set xs. OzMinInt \<le> i \<and> i \<le> OzMaxInt"
  shows "\<exists>b. BIbitArray_fromList (int_list xs) = Proceed b \<and> ba_ok b \<and> ba_set b = set xs \<and>
    lowerBound b = Min (set xs) \<and> upperBound b = Max (set xs)"
proof -
  have f: "fold min xs OzMaxInt = Min (set xs)" "fold max xs OzMinInt = Max (set xs)"
    using fold_bounds[OF assms(1)] assms(2) by auto
  let ?n = "new_BitArray (Min (set xs)) (Max (set xs))"
  have bd: "Min (set xs) \<le> i" "i \<le> Max (set xs)" if "i \<in> set xs" for i using that by auto
  have "Min (set xs) \<in> set xs" "Max (set xs) \<in> set xs" using assms(1) by simp_all
  then have "Min (set xs) \<le> Max (set xs)" "OzMinInt \<le> Min (set xs)" "Max (set xs) \<le> OzMaxInt"
    using assms(2) bd by blast+
  then have le: "Min (set xs) \<le> Max (set xs)" "Max (set xs) - Min (set xs) < 2 ^ 31"
    by (simp_all add: OzMaxInt_def OzMinInt_def)
  note n = new_BitArray_spec[OF le]
  have "\<forall>i \<in> set xs. checkBounds ?n i" by (simp add: checkBounds_def new_BitArray_def)
  then have fill: "ba_ok (fromList_fill (length xs) (int_list xs) ?n)"
      "ba_set (fromList_fill (length xs) (int_list xs) ?n) = set xs"
      "sameBounds (fromList_fill (length xs) (int_list xs) ?n) ?n"
    using fromList_fill_ints[OF n(2)] n(1) by auto
  have "BIbitArray_fromList (int_list xs) = Proceed (fromList_fill (length xs) (int_list xs) ?n)"
    using fromList_scan_ints[OF assms(2), of 0 OzMaxInt OzMinInt] assms(1) f by (simp add: BIbitArray_fromList_def)
  then show ?thesis using fill by (auto simp: sameBounds_def new_BitArray_def)
qed


section \<open>Properties\<close>

text \<open>
  Bit array access. On a well-formed bit array the builtins \<^verbatim>\<open>set\<close>, \<^verbatim>\<open>clear\<close> and \<^verbatim>\<open>test\<close> (and the
  dot access and assignment) insert, delete and look up an index within the bounds, keep the bounds
  and the array well-formed, and raise \<^verbatim>\<open>BitArray.index\<close> for every other integer; a new array is
  well-formed and empty, or its bounds are rejected.
\<close>

lemma bitarray_access:
  assumes "ba_ok b" "i = getInt n"
  shows "if lowerBound b \<le> i \<and> i \<le> upperBound b then
      (\<exists>c. BIbitArray_set (OzObj b) (OzInt n) = Proceed c \<and> putFeatureV b (OzInt n) (OzBool True) = Proceed c \<and>
         ba_ok c \<and> sameBounds c b \<and> ba_set c = insert i (ba_set b)) \<and>
      (\<exists>c. BIbitArray_clear (OzObj b) (OzInt n) = Proceed c \<and> putFeatureV b (OzInt n) (OzBool False) = Proceed c \<and>
         ba_ok c \<and> sameBounds c b \<and> ba_set c = ba_set b - {i}) \<and>
      BIbitArray_test (OzObj b) (OzInt n) = Proceed (i \<in> ba_set b) \<and> getFeatureV b (OzInt n) = Proceed (i \<in> ba_set b)
    else BIbitArray_set (OzObj b) (OzInt n) = Raise E_ERROR ''BitArray.index'' \<and>
      BIbitArray_clear (OzObj b) (OzInt n) = Raise E_ERROR ''BitArray.index'' \<and>
      BIbitArray_test (OzObj b) (OzInt n) = Raise E_ERROR ''BitArray.index'' \<and>
      putFeatureV b (OzInt n) v = Raise E_ERROR ''BitArray.index'' \<and> getFeatureV b (OzInt n) = Raise E_ERROR ''BitArray.index''"
proof (cases "checkBounds b i")
  case True
  then have "lowerBound b \<le> i \<and> i \<le> upperBound b" by (simp add: checkBounds_def)
  moreover have "BIbitArray_set (OzObj b) (OzInt n) = Proceed (set_ba b i)"
      "putFeatureV b (OzInt n) (OzBool True) = Proceed (set_ba b i)"
      "BIbitArray_clear (OzObj b) (OzInt n) = Proceed (clear_ba b i)"
      "putFeatureV b (OzInt n) (OzBool False) = Proceed (clear_ba b i)"
      "BIbitArray_test (OzObj b) (OzInt n) = Proceed (test_ba b i)" "getFeatureV b (OzInt n) = Proceed (test_ba b i)"
    using True assms(2)
    by (simp_all add: BIbitArray_set_def BIbitArray_clear_def BIbitArray_test_def putFeatureV_def getFeatureV_def)
  ultimately show ?thesis
    using set_ba_spec[OF assms(1) True] clear_ba_spec[OF assms(1) True] test_ba_spec[OF assms(1) True] by simp
next
  case False
  then show ?thesis using assms(2)
    by (simp add: BIbitArray_set_def BIbitArray_clear_def BIbitArray_test_def putFeatureV_def getFeatureV_def)
      (simp add: checkBounds_def)
qed

lemma bitarray_access_witness:
  "if lowerBound (new_BitArray 1 40) \<le> 5 \<and> 5 \<le> upperBound (new_BitArray 1 40) then
      (\<exists>c. BIbitArray_set (OzObj (new_BitArray 1 40)) (OzInt 5) = Proceed c \<and>
         putFeatureV (new_BitArray 1 40) (OzInt 5) (OzBool True) = Proceed c \<and>
         ba_ok c \<and> sameBounds c (new_BitArray 1 40) \<and> ba_set c = insert 5 (ba_set (new_BitArray 1 40))) \<and>
      (\<exists>c. BIbitArray_clear (OzObj (new_BitArray 1 40)) (OzInt 5) = Proceed c \<and>
         putFeatureV (new_BitArray 1 40) (OzInt 5) (OzBool False) = Proceed c \<and>
         ba_ok c \<and> sameBounds c (new_BitArray 1 40) \<and> ba_set c = ba_set (new_BitArray 1 40) - {5}) \<and>
      BIbitArray_test (OzObj (new_BitArray 1 40)) (OzInt 5) = Proceed (5 \<in> ba_set (new_BitArray 1 40)) \<and>
      getFeatureV (new_BitArray 1 40) (OzInt 5) = Proceed (5 \<in> ba_set (new_BitArray 1 40))
    else BIbitArray_set (OzObj (new_BitArray 1 40)) (OzInt 5) = Raise E_ERROR ''BitArray.index'' \<and>
      BIbitArray_clear (OzObj (new_BitArray 1 40)) (OzInt 5) = Raise E_ERROR ''BitArray.index'' \<and>
      BIbitArray_test (OzObj (new_BitArray 1 40)) (OzInt 5) = Raise E_ERROR ''BitArray.index'' \<and>
      putFeatureV (new_BitArray 1 40) (OzInt 5) Unbound = Raise E_ERROR ''BitArray.index'' \<and>
      getFeatureV (new_BitArray 1 40) (OzInt 5) = Raise E_ERROR ''BitArray.index''"
  by (rule bitarray_access) (simp_all add: new_BitArray_spec getInt_def INT_MAX_def INT_MIN_def)

text \<open>
  Bit array algebra. On well-formed bit arrays with the same bounds \<^verbatim>\<open>or\<close>, \<^verbatim>\<open>and\<close> and \<^verbatim>\<open>nimpl\<close>
  are union, intersection and difference and keep the first array well-formed, and \<^verbatim>\<open>disjoint\<close> tests
  for a common index; with other bounds they raise \<^verbatim>\<open>BitArray.binop\<close>. \<^verbatim>\<open>subsumes\<close> tests that the
  bounds and the indices of the second array lie within those of the first, for any two arrays.
\<close>

lemma bitarray_algebra:
  assumes "ba_ok b" "ba_ok c"
  shows "(if sameBounds b c then
      (\<exists>x. BIbitArray_or (OzObj b) (OzObj c) = Proceed x \<and> ba_ok x \<and> ba_set x = ba_set b \<union> ba_set c) \<and>
      (\<exists>x. BIbitArray_and (OzObj b) (OzObj c) = Proceed x \<and> ba_ok x \<and> ba_set x = ba_set b \<inter> ba_set c) \<and>
      (\<exists>x. BIbitArray_nimpl (OzObj b) (OzObj c) = Proceed x \<and> ba_ok x \<and> ba_set x = ba_set b - ba_set c) \<and>
      BIbitArray_disjoint (OzObj b) (OzObj c) = Proceed (ba_set b \<inter> ba_set c = {})
     else BIbitArray_or (OzObj b) (OzObj c) = Raise E_ERROR ''BitArray.binop'' \<and>
      BIbitArray_and (OzObj b) (OzObj c) = Raise E_ERROR ''BitArray.binop'' \<and>
      BIbitArray_nimpl (OzObj b) (OzObj c) = Raise E_ERROR ''BitArray.binop'' \<and>
      BIbitArray_disjoint (OzObj b) (OzObj c) = Raise E_ERROR ''BitArray.binop'') \<and>
    BIbitArray_subsumes (OzObj b) (OzObj c) =
      Proceed (lowerBound b \<le> lowerBound c \<and> upperBound c \<le> upperBound b \<and> ba_set c \<subseteq> ba_set b)"
  using binops_spec[OF assms] disjoint_ba_spec[OF assms] subsumes_ba_spec[OF assms]
  by (simp add: BIbitArray_or_def BIbitArray_and_def BIbitArray_nimpl_def BIbitArray_disjoint_def
      BIbitArray_subsumes_def binop_def)

lemma bitarray_algebra_witness:
  "(if sameBounds (new_BitArray 1 40) (new_BitArray 1 40) then
      (\<exists>x. BIbitArray_or (OzObj (new_BitArray 1 40)) (OzObj (new_BitArray 1 40)) = Proceed x \<and> ba_ok x \<and>
         ba_set x = ba_set (new_BitArray 1 40) \<union> ba_set (new_BitArray 1 40)) \<and>
      (\<exists>x. BIbitArray_and (OzObj (new_BitArray 1 40)) (OzObj (new_BitArray 1 40)) = Proceed x \<and> ba_ok x \<and>
         ba_set x = ba_set (new_BitArray 1 40) \<inter> ba_set (new_BitArray 1 40)) \<and>
      (\<exists>x. BIbitArray_nimpl (OzObj (new_BitArray 1 40)) (OzObj (new_BitArray 1 40)) = Proceed x \<and> ba_ok x \<and>
         ba_set x = ba_set (new_BitArray 1 40) - ba_set (new_BitArray 1 40)) \<and>
      BIbitArray_disjoint (OzObj (new_BitArray 1 40)) (OzObj (new_BitArray 1 40)) =
        Proceed (ba_set (new_BitArray 1 40) \<inter> ba_set (new_BitArray 1 40) = {})
     else BIbitArray_or (OzObj (new_BitArray 1 40)) (OzObj (new_BitArray 1 40)) = Raise E_ERROR ''BitArray.binop'' \<and>
      BIbitArray_and (OzObj (new_BitArray 1 40)) (OzObj (new_BitArray 1 40)) = Raise E_ERROR ''BitArray.binop'' \<and>
      BIbitArray_nimpl (OzObj (new_BitArray 1 40)) (OzObj (new_BitArray 1 40)) = Raise E_ERROR ''BitArray.binop'' \<and>
      BIbitArray_disjoint (OzObj (new_BitArray 1 40)) (OzObj (new_BitArray 1 40)) = Raise E_ERROR ''BitArray.binop'') \<and>
   BIbitArray_subsumes (OzObj (new_BitArray 1 40)) (OzObj (new_BitArray 1 40)) =
      Proceed (lowerBound (new_BitArray 1 40) \<le> lowerBound (new_BitArray 1 40) \<and>
        upperBound (new_BitArray 1 40) \<le> upperBound (new_BitArray 1 40) \<and>
        ba_set (new_BitArray 1 40) \<subseteq> ba_set (new_BitArray 1 40))"
  by (rule bitarray_algebra) (simp_all add: new_BitArray_spec)

text \<open>
  Bit arrays and lists. From a non-empty list of small integers \<^verbatim>\<open>fromList\<close> makes a well-formed
  bit array of exactly these indices, with the least and the greatest of them as bounds; \<^verbatim>\<open>toList\<close>
  gives the indices back in ascending order without repetition, \<^verbatim>\<open>card\<close> their number, and \<^verbatim>\<open>clone\<close>
  an equal array.
\<close>

lemma bitarray_lists:
  assumes "xs \<noteq> []" "\<forall>i \<in> set xs. OzMinInt \<le> i \<and> i \<le> OzMaxInt"
  shows "\<exists>b. BIbitArray_fromList (int_list xs) = Proceed b \<and> ba_ok b \<and>
    lowerBound b = Min (set xs) \<and> upperBound b = Max (set xs) \<and>
    BIbitArray_toList (OzObj b) = Proceed (sorted_list_of_set (set xs)) \<and>
    BIbitArray_card (OzObj b) = Proceed (card (set xs)) \<and> BIbitArray_clone (OzObj b) = Proceed b"
proof -
  obtain b where "BIbitArray_fromList (int_list xs) = Proceed b" "ba_ok b" "ba_set b = set xs"
      "lowerBound b = Min (set xs)" "upperBound b = Max (set xs)" using fromList_spec[OF assms] by blast
  then show ?thesis using toList_spec[of b] card_ba_spec[of b] copy_BitArray_eq[of b]
    by (simp add: BIbitArray_toList_def BIbitArray_card_def BIbitArray_clone_def)
qed

lemma bitarray_lists_witness:
  "\<exists>b. BIbitArray_fromList (int_list [7, -3, 40]) = Proceed b \<and> ba_ok b \<and>
    lowerBound b = Min (set [7, -3, 40]) \<and> upperBound b = Max (set [7, -3, 40]) \<and>
    BIbitArray_toList (OzObj b) = Proceed (sorted_list_of_set (set [7, -3, 40])) \<and>
    BIbitArray_card (OzObj b) = Proceed (card (set [7, -3, 40 :: int])) \<and> BIbitArray_clone (OzObj b) = Proceed b"
  by (rule bitarray_lists) (simp_all add: OzMinInt_def OzMaxInt_def)

text \<open>
  The complement of a bit array. \<^verbatim>\<open>complementToList\<close> lists, in ascending order, the indices from
  the lower bound on that are not set, up to the end of the last word: on an array from 1 to 3 it
  lists indices up to 32, although the indices of the array end at 3.
\<close>

lemma bitarray_complement:
  "(\<forall>b. ba_ok b \<longrightarrow> complementToList b =
      sorted_list_of_set ({lowerBound b..<lowerBound b + 32 * int (length (words b))} - ba_set b)) \<and>
   (\<exists>b. ba_ok b \<and> upperBound b = 3 \<and> 32 \<in> set (complementToList b))"
proof -
  have ok: "ba_ok (new_BitArray 1 3)" "ba_set (new_BitArray 1 3) = {}" using new_BitArray_spec[of 1 3] by simp_all
  have "length (words (new_BitArray 1 3)) = 1" by (simp add: new_BitArray_def getSize_def BITS_PER_INT_def)
  then have "32 \<in> set (complementToList (new_BitArray 1 3))"
    unfolding complementToList_spec[OF ok(1)] ok(2) by (simp add: new_BitArray_def)
  moreover have "upperBound (new_BitArray 1 3) = 3" by (simp add: new_BitArray_def)
  ultimately show ?thesis using ok(1) complementToList_spec by blast
qed

lemma bitarray_complement_witness:
  "complementToList (new_BitArray 1 3) =
     sorted_list_of_set ({lowerBound (new_BitArray 1 3)..<lowerBound (new_BitArray 1 3)
       + 32 * int (length (words (new_BitArray 1 3)))} - ba_set (new_BitArray 1 3))"
  using bitarray_complement new_BitArray_spec(2)[of 1 3] by simp

end
