(* ===== verification/FracHandler.thy ===== *)
theory FracHandler
  imports Complex_Main Prelude
begin

text \<open>
  Fractional weights of the distributed garbage collector
  (\<^verbatim>\<open>FracHandler\<close> of \<^verbatim>\<open>platform/dss/src/dgc_fwrc.cc\<close> and \<^verbatim>\<open>.hh\<close>). A weight is a list of pairs
  \<open>(e, d)\<close> that stands for the sum of the fractions \<open>e / MAXENUMERATOR ^ d\<close>: the digits of a
  number below one in base \<open>MAXENUMERATOR\<close>, most significant first.

  The lists of the source are linked lists behind a \<^verbatim>\<open>Position\<close>; here they are lists, and a position
  is a split of the list. Enumerators stay below \<open>2 * MAXENUMERATOR\<close>, far inside a C++ \<open>int\<close>; the
  exponents only count up when a weight of one is split, so integers are unbounded here.
\<close>

type_synonym weight = "(int \<times> int) list"

record FracHandler =
  frac_list :: weight
  wrc_alpha :: int

definition MAXENUMERATOR :: int where
  "MAXENUMERATOR = drop_bit 4 (2 ^ 31 - 1)"

definition GiveSize :: "FracHandler \<Rightarrow> int \<Rightarrow> int" where
  "GiveSize h enumerator = (if enumerator < wrc_alpha h then 1 else enumerator div wrc_alpha h)"

definition setAlpha :: "int \<Rightarrow> FracHandler \<Rightarrow> bool \<times> FracHandler" where
  "setAlpha val h = (if val > 0 then (val \<noteq> 0, h\<lparr>wrc_alpha := val\<rparr>) else (False, h))"

definition new_FracHandler :: "int \<Rightarrow> FracHandler" where
  "new_FracHandler alpha = \<lparr>frac_list = [], wrc_alpha = alpha\<rparr>"

definition Frac_init :: "int \<Rightarrow> int \<Rightarrow> FracHandler \<Rightarrow> FracHandler" where
  "Frac_init e d h = h\<lparr>frac_list := (e, d) # frac_list h\<rparr>"

definition FracHandler3 :: "int \<Rightarrow> int \<Rightarrow> int \<Rightarrow> FracHandler" where
  "FracHandler3 e d alpha = Frac_init e d (new_FracHandler alpha)"

lemma length_filter_mono: "(\<And>x. x \<in> set xs \<Longrightarrow> P x \<Longrightarrow> Q x) \<Longrightarrow> length (filter P xs) \<le> length (filter Q xs)"
  by (induction xs) auto

lemma insertPair_measure:
  assumes "dropWhile (\<lambda>p. snd p < k) xs = (e', k') # post" "\<not> k < k'"
    "ys = takeWhile (\<lambda>p. snd p < k) xs @ post \<or> ys = takeWhile (\<lambda>p. snd p < k) xs @ (s, k') # post"
  shows "length (filter (\<lambda>p. snd p \<le> k - 1) ys) < length (filter (\<lambda>p. snd p \<le> (k::int)) xs)"
proof -
  have k': "k' = k" using assms(1,2) hd_dropWhile[of "\<lambda>p. snd p < k" xs] by force
  have xs: "xs = takeWhile (\<lambda>p. snd p < k) xs @ (e', k') # post"
    using assms(1) takeWhile_dropWhile_id[of "\<lambda>p. snd p < k" xs] by simp
  define pre where "pre = takeWhile (\<lambda>p. snd p < k) xs"
  have "length (filter (\<lambda>p. snd p \<le> k - 1) ys)
      \<le> length (filter (\<lambda>p. snd p \<le> k) pre) + length (filter (\<lambda>p. snd p \<le> k) post)"
    using assms(3) k' length_filter_mono[of pre "\<lambda>p. snd p \<le> k - 1" "\<lambda>p. snd p \<le> k"]
      length_filter_mono[of post "\<lambda>p. snd p \<le> k - 1" "\<lambda>p. snd p \<le> k"]
    by (auto simp: pre_def)
  also have "\<dots> < length (filter (\<lambda>p. snd p \<le> k) (pre @ (e', k') # post))"
    by (simp add: k')
  finally show ?thesis using xs by (simp add: pre_def)
qed

text \<open>
  \<^verbatim>\<open>insertPair\<close> looks for the first pair whose exponent is at least \<open>k\<close>, puts the new pair before it
  or adds to it, and carries into exponent \<open>k - 1\<close>. The carry out of exponent 1, the whole weight,
  is dropped.
\<close>

function insertPair :: "int \<Rightarrow> int \<Rightarrow> weight \<Rightarrow> weight" where
  "insertPair e k xs =
     (if k = 0 then xs
      else (let pre = takeWhile (\<lambda>p. snd p < k) xs in
        case dropWhile (\<lambda>p. snd p < k) xs of
          [] \<Rightarrow> pre @ [(e, k)]
        | (e', k') # post \<Rightarrow>
            if k' > k then pre @ (e, k) # (e', k') # post
            else (let s = e' + e in
              if s \<ge> MAXENUMERATOR
              then insertPair 1 (k - 1)
                (if s - MAXENUMERATOR = 0 then pre @ post else pre @ (s - MAXENUMERATOR, k') # post)
              else pre @ (s, k') # post)))"
  by auto

termination
proof (relation "measure (\<lambda>(e, k, xs). length (filter (\<lambda>p. snd p \<le> k) xs))", goal_cases)
  case (2 e k xs pre)
  then show ?case
    unfolding in_measure prod.case by (intro insertPair_measure) (auto split: if_splits)
qed simp

declare insertPair.simps [simp del]

definition removeHead :: "weight \<Rightarrow> ((int \<times> int) \<times> weight) option" where
  "removeHead xs = (case xs of [] \<Rightarrow> None | (e, d) # rest \<Rightarrow> Some ((e, d), rest))"

definition getNewRefWeightPair :: "FracHandler \<Rightarrow> FracHandler \<times> int \<times> int" where
  "getNewRefWeightPair h0 =
     (let h = (if frac_list h0 = [] then Frac_init MAXENUMERATOR 1 h0 else h0) in
      case frac_list h of
        [] \<Rightarrow> (h, 0, 0)
      | (e1, d1) # rest \<Rightarrow>
          if e1 > 1 then
            (let e = GiveSize h e1 in (h\<lparr>frac_list := (e1 - e, d1) # rest\<rparr>, e, d1))
          else (case rest of
              [] \<Rightarrow> (let e = GiveSize h MAXENUMERATOR; d = d1 + 1 in
                  (h\<lparr>frac_list := (MAXENUMERATOR - e, d) # rest\<rparr>, e, d))
            | (e2, d2) # rest' \<Rightarrow>
                if d2 > d1 + 1 then
                  (let e = GiveSize h MAXENUMERATOR; d = d1 + 1 in
                    (h\<lparr>frac_list := (MAXENUMERATOR - e, d) # rest\<rparr>, e, d))
                else
                  (let e = GiveSize h e2 in
                    (h\<lparr>frac_list := (e1, d1) # (if e2 > 1 then (e2 - e, d2) # rest' else rest')\<rparr>, e, d2))))"

section \<open>Weights as numbers\<close>

definition pair_weight :: "int \<times> int \<Rightarrow> rat" where
  "pair_weight p = of_int (fst p) / of_int MAXENUMERATOR ^ nat (snd p)"

definition weight_of :: "weight \<Rightarrow> rat" where
  "weight_of xs = sum_list (map pair_weight xs)"

text \<open>
  The invariant of the lists: exponents increase, above \<open>b\<close>, and every enumerator is a digit. The
  comment in the source allows \<open>MAXENUMERATOR\<close> itself; only the untouched weight of a fresh home
  reference has it.
\<close>

fun digits_from :: "int \<Rightarrow> weight \<Rightarrow> bool" where
  "digits_from b [] = True"
| "digits_from b ((e, d) # xs) = (b < d \<and> 1 \<le> e \<and> e < MAXENUMERATOR \<and> digits_from d xs)"

definition pair_ok :: "int \<times> int \<Rightarrow> bool" where
  "pair_ok p \<longleftrightarrow> 1 \<le> fst p \<and> fst p < MAXENUMERATOR \<and> 1 \<le> snd p"

fun top_exp :: "int \<Rightarrow> weight \<Rightarrow> int" where
  "top_exp b [] = b"
| "top_exp b ((e, d) # xs) = top_exp d xs"

lemma MAXENUMERATOR_eq: "MAXENUMERATOR = 134217727"
  by (simp add: MAXENUMERATOR_def)

lemma weight_of_simps [simp]:
  "weight_of [] = 0" "weight_of (p # xs) = pair_weight p + weight_of xs"
  "weight_of (xs @ ys) = weight_of xs + weight_of ys"
  by (simp_all add: weight_of_def)

lemma digits_from_mono: "digits_from b xs \<Longrightarrow> c \<le> b \<Longrightarrow> digits_from c xs"
  by (cases xs) auto

lemma digits_from_append:
  "digits_from b (xs @ ys) \<longleftrightarrow> digits_from b xs \<and> digits_from (top_exp b xs) ys"
  by (induction b xs rule: top_exp.induct) auto

lemma top_exp_less: "\<forall>p \<in> set xs. snd p < k \<Longrightarrow> b < k \<Longrightarrow> top_exp b xs < k"
  by (induction b xs rule: top_exp.induct) auto

lemma top_exp_le: "digits_from b xs \<Longrightarrow> b \<le> top_exp b xs"
  by (induction b xs rule: top_exp.induct) auto

lemma digits_pair_ok: "digits_from b xs \<Longrightarrow> 0 \<le> b \<Longrightarrow> p \<in> set xs \<Longrightarrow> pair_ok p"
  by (induction b xs rule: digits_from.induct) (auto simp: pair_ok_def)

lemma pair_weight_pos: "pair_ok p \<Longrightarrow> 0 < pair_weight p"
  by (auto simp: pair_ok_def pair_weight_def MAXENUMERATOR_eq)

lemma weight_nonneg: "(\<And>p. p \<in> set xs \<Longrightarrow> pair_ok p) \<Longrightarrow> 0 \<le> weight_of xs"
  by (induction xs) (auto intro: add_nonneg_nonneg less_imp_le[OF pair_weight_pos])

lemma weight_pos:
  assumes "\<And>p. p \<in> set xs \<Longrightarrow> pair_ok p" "xs \<noteq> []"
  shows "0 < weight_of xs"
proof (cases xs)
  case (Cons p ps)
  then show ?thesis using assms(1) pair_weight_pos[of p] weight_nonneg[of ps]
    by (simp add: add_pos_nonneg)
qed (use assms in simp)

text \<open>One in exponent \<open>k\<close> is \<open>MAXENUMERATOR\<close> in exponent \<open>k + 1\<close>.\<close>

lemma pair_weight_carry: "0 \<le> k \<Longrightarrow> pair_weight (MAXENUMERATOR, k + 1) = pair_weight (1, k)"
  by (simp add: pair_weight_def MAXENUMERATOR_eq nat_add_distrib)

lemma pair_weight_add: "pair_weight (a + b, k) = pair_weight (a, k) + pair_weight (b, k)"
  "pair_weight (a - b, k) = pair_weight (a, k) - pair_weight (b, k)"
  by (simp_all add: pair_weight_def add_divide_distrib diff_divide_distrib)

lemma pair_weight_zero [simp]: "pair_weight (0, k) = 0" "pair_weight (1, 0) = 1"
  by (simp_all add: pair_weight_def)

text \<open>Digits above exponent \<open>k\<close> stay below one unit of it, so a list of digits is below one.\<close>

lemma pair_weight_antimono: "0 \<le> b \<Longrightarrow> b \<le> c \<Longrightarrow> pair_weight (1, c) \<le> pair_weight (1, b)"
  unfolding pair_weight_def
  by (auto simp: MAXENUMERATOR_eq divide_simps intro!: power_increasing nat_mono)

lemma digits_weight_less: "digits_from b xs \<Longrightarrow> 0 \<le> b \<Longrightarrow> weight_of xs < pair_weight (1, b)"
proof (induction b xs rule: digits_from.induct)
  case (1 b)
  then show ?case by (simp add: pair_weight_def MAXENUMERATOR_eq)
next
  case (2 b e d xs)
  then have "weight_of ((e, d) # xs) < pair_weight (e + 1, d)"
    by (simp add: pair_weight_add)
  also have "\<dots> \<le> pair_weight (MAXENUMERATOR, d)"
    using 2 by (auto simp: pair_weight_def MAXENUMERATOR_eq intro!: divide_right_mono)
  also have "\<dots> = pair_weight (1, d - 1)"
    using pair_weight_carry[of "d - 1"] 2 by simp
  also have "\<dots> \<le> pair_weight (1, b)"
    by (rule pair_weight_antimono) (use 2 in auto)
  finally show ?case .
qed

lemma digits_weight_bounds:
  assumes "digits_from 0 xs"
  shows "0 \<le> weight_of xs" "weight_of xs < 1" "weight_of xs = 0 \<longleftrightarrow> xs = []"
  using digits_weight_less[OF assms] weight_nonneg[of xs] weight_pos[of xs] digits_pair_ok[OF assms]
  by (auto, force)

section \<open>Adding and giving away weight\<close>

text \<open>
  Inserting a pair adds its weight; when the sum reaches one, the whole is dropped. Either way the
  list is again one of digits.
\<close>

text \<open>The pairs before the position of an exponent, and the list after a carry out of that position.\<close>

lemma before_exp:
  assumes "digits_from 0 xs" "0 < k" "xs = takeWhile (\<lambda>p. snd p < k) xs @ zs"
  shows "digits_from 0 (takeWhile (\<lambda>p. snd p < k) xs)" "top_exp 0 (takeWhile (\<lambda>p. snd p < k) xs) < k"
    "0 \<le> top_exp 0 (takeWhile (\<lambda>p. snd p < k) xs)"
proof -
  show d: "digits_from 0 (takeWhile (\<lambda>p. snd p < k) xs)" using assms(1,3) digits_from_append by metis
  show "0 \<le> top_exp 0 (takeWhile (\<lambda>p. snd p < k) xs)" using top_exp_le[OF d] .
  show "top_exp 0 (takeWhile (\<lambda>p. snd p < k) xs) < k"
    by (rule top_exp_less) (use assms(2) in \<open>auto dest: set_takeWhileD\<close>)
qed

lemma carry_list:
  assumes "digits_from 0 pre" "top_exp 0 pre < k" "digits_from k post" "1 \<le> e" "e < MAXENUMERATOR" "1 \<le> e'" "e' < MAXENUMERATOR"
    "e' + e \<ge> MAXENUMERATOR" "0 < k"
    and ys: "ys = (if e' + e - MAXENUMERATOR = 0 then pre @ post else pre @ (e' + e - MAXENUMERATOR, k) # post)"
  shows "digits_from 0 ys"
    "weight_of ys + pair_weight (1, k - 1) = weight_of (pre @ (e', k) # post) + pair_weight (e, k)"
proof -
  show "digits_from 0 ys"
    using assms(1-8) digits_from_mono[OF assms(3), of "top_exp 0 pre"] by (auto simp: ys digits_from_append)
  have "weight_of ys = weight_of pre + pair_weight (e' + e - MAXENUMERATOR, k) + weight_of post"
    by (auto simp: ys)
  then show "weight_of ys + pair_weight (1, k - 1) = weight_of (pre @ (e', k) # post) + pair_weight (e, k)"
    using pair_weight_carry[of "k - 1"] assms(9) by (simp add: pair_weight_add algebra_simps)
qed

lemma insertPair_sum:
  assumes "digits_from 0 xs" "1 \<le> e" "e < MAXENUMERATOR" "0 \<le> k"
  shows "digits_from 0 (insertPair e k xs) \<and>
    (k \<noteq> 0 \<longrightarrow> weight_of (insertPair e k xs) \<in> {weight_of xs + pair_weight (e, k), weight_of xs + pair_weight (e, k) - 1})"
  using assms
proof (induction e k xs rule: insertPair.induct)
  case (1 e k xs)
  define pre where "pre = takeWhile (\<lambda>p. snd p < k) xs"
  show ?case
  proof (cases "k = 0")
    case True
    then show ?thesis using "1.prems" by (simp add: insertPair.simps)
  next
    case False
    then have "0 < k" using "1.prems"(4) by simp
    note below = before_exp[OF "1.prems"(1) this, folded pre_def]
    show ?thesis
    proof (cases "dropWhile (\<lambda>p. snd p < k) xs")
      case Nil
      then have xs: "xs = pre" by (metis append_Nil2 pre_def takeWhile_dropWhile_id)
      have "insertPair e k xs = pre @ [(e, k)]"
        unfolding insertPair.simps[of e k xs] Nil using False by (simp add: pre_def)
      then show ?thesis using below[of "[]"] xs "1.prems" by (simp add: digits_from_append)
    next
      case (Cons p post)
      obtain e' k' where p: "p = (e', k')" by (cases p)
      have xs: "xs = pre @ (e', k') # post"
        using Cons p by (metis pre_def takeWhile_dropWhile_id)
      note b = below[OF xs]
      have d: "1 \<le> e'" "e' < MAXENUMERATOR" "digits_from k' post"
        using "1.prems"(1) xs by (auto simp: digits_from_append)
      have ge: "k \<le> k'" using Cons p hd_dropWhile[of "\<lambda>p. snd p < k" xs] by force
      show ?thesis
      proof (cases "k < k'")
        case True
        then have "insertPair e k xs = pre @ (e, k) # (e', k') # post"
          unfolding insertPair.simps[of e k xs] Cons using False by (simp add: pre_def p)
        then show ?thesis using b d True "1.prems" xs by (simp add: digits_from_append)
      next
        case le: False
        then have k': "k' = k" using ge by simp
        show ?thesis
        proof (cases "e' + e \<ge> MAXENUMERATOR")
          case carry: True
          define ys where "ys = (if e' + e - MAXENUMERATOR = 0 then pre @ post
            else pre @ (e' + e - MAXENUMERATOR, k) # post)"
          have k_ys: "ys = (if e' + e - MAXENUMERATOR = 0 then pre @ post
            else pre @ (e' + e - MAXENUMERATOR, k') # post)"
            by (simp add: ys_def k')
          have ins: "insertPair e k xs = insertPair 1 (k - 1) ys"
            unfolding insertPair.simps[of e k xs] Cons using False le carry
            by (simp add: pre_def p ys_def k' Let_def)
          have ys: "digits_from 0 ys" and w: "weight_of ys + pair_weight (1, k - 1) = weight_of xs + pair_weight (e, k)"
            using carry_list[OF b(1,2) _ "1.prems"(2,3) d(1,2) carry \<open>0 < k\<close> ys_def] d(3) by (simp_all add: k' xs)
          have "digits_from 0 (insertPair 1 (k - 1) ys) \<and>
            (k - 1 \<noteq> 0 \<longrightarrow> weight_of (insertPair 1 (k - 1) ys)
              \<in> {weight_of ys + pair_weight (1, k - 1), weight_of ys + pair_weight (1, k - 1) - 1})"
            using "1.IH"[OF False pre_def Cons p[symmetric] le refl carry, folded k_ys] ys False "1.prems"(4)
            by (simp add: MAXENUMERATOR_eq)
          then show ?thesis using ins w by (cases "k = 1") (auto simp: insertPair.simps[of 1 0])
        next
          case nocarry: False
          then have "insertPair e k xs = pre @ (e' + e, k) # post"
            unfolding insertPair.simps[of e k xs] Cons using False le
            by (simp add: pre_def p k' Let_def)
          then show ?thesis
            using b d nocarry "1.prems" xs by (simp add: digits_from_append k' pair_weight_add)
        qed
      qed
    qed
  qed
qed

lemma insertPair_weight:
  assumes "digits_from 0 xs" "pair_ok (e, k)" "weight_of xs + pair_weight (e, k) \<le> 1"
  shows "digits_from 0 (insertPair e k xs)"
    "weight_of (insertPair e k xs) = (if weight_of xs + pair_weight (e, k) = 1 then 0
       else weight_of xs + pair_weight (e, k))"
proof -
  have *: "digits_from 0 (insertPair e k xs)"
    "weight_of (insertPair e k xs) \<in> {weight_of xs + pair_weight (e, k), weight_of xs + pair_weight (e, k) - 1}"
    using insertPair_sum[OF assms(1), of e k] assms(2) by (auto simp: pair_ok_def)
  then show "digits_from 0 (insertPair e k xs)" by simp
  show "weight_of (insertPair e k xs) = (if weight_of xs + pair_weight (e, k) = 1 then 0
       else weight_of xs + pair_weight (e, k))"
    using *(2) digits_weight_bounds(1,2)[OF *(1)] assms(3) by auto
qed

lemma GiveSize_bounds:
  assumes "2 \<le> wrc_alpha h" "1 \<le> x"
  shows "1 \<le> GiveSize h x" "GiveSize h x \<le> x" "1 < x \<Longrightarrow> GiveSize h x < x"
proof -
  have "x div wrc_alpha h < x" if "1 < x" using int_div_less_self[of x "wrc_alpha h"] that assms by simp
  moreover have "1 \<le> x div wrc_alpha h" if "wrc_alpha h \<le> x"
    using that assms pos_imp_zdiv_pos_iff[of "wrc_alpha h" x] by simp
  ultimately show "1 \<le> GiveSize h x" "GiveSize h x \<le> x" "1 < x \<Longrightarrow> GiveSize h x < x"
    using assms by (force simp: GiveSize_def)+
qed

text \<open>
  Giving weight away leaves weight behind and keeps the sum. The weight of a fresh home reference
  counts as one.
\<close>

definition whole :: weight where
  "whole = [(MAXENUMERATOR, 1)]"

lemma getNewRefWeightPair_splits:
  assumes "digits_from 0 (frac_list h) \<and> frac_list h \<noteq> [] \<or> frac_list h = whole" "2 \<le> wrc_alpha h"
    "getNewRefWeightPair h = (h', e, d)"
  shows "digits_from 0 (frac_list h') \<and> frac_list h' \<noteq> [] \<and> wrc_alpha h' = wrc_alpha h \<and> pair_ok (e, d) \<and>
    weight_of (frac_list h') + pair_weight (e, d) = weight_of (frac_list h)"
proof -
  obtain e1 d1 rest where fr: "frac_list h = (e1, d1) # rest"
    using assms(1) by (cases "frac_list h") (auto simp: whole_def)
  have f: "1 \<le> d1" "1 \<le> e1" "e1 \<le> MAXENUMERATOR" "digits_from d1 rest"
    using assms(1) by (auto simp: fr whole_def MAXENUMERATOR_eq)
  note g = GiveSize_bounds[OF assms(2)]
  have M: "1 < MAXENUMERATOR" by (simp add: MAXENUMERATOR_eq)
  show ?thesis
  proof (cases "e1 > 1")
    case True
    then have "h' = h\<lparr>frac_list := (e1 - GiveSize h e1, d1) # rest\<rparr>" "e = GiveSize h e1" "d = d1"
      using assms(3) by (auto simp: getNewRefWeightPair_def fr Let_def)
    then show ?thesis using f g[of e1] True by (simp add: fr pair_ok_def pair_weight_add)
  next
    case False
    then have e1: "e1 = 1" "e1 < MAXENUMERATOR" using f(2) M by auto
    let ?decompose = "h' = h\<lparr>frac_list := (MAXENUMERATOR - GiveSize h MAXENUMERATOR, d1 + 1) # rest\<rparr> \<and>
      e = GiveSize h MAXENUMERATOR \<and> d = d1 + 1"
    have dec: ?thesis if "?decompose" "digits_from (d1 + 1) rest"
      using that f g[of MAXENUMERATOR] M pair_weight_carry[of d1]
      by (simp add: fr e1 pair_ok_def pair_weight_add)
    show ?thesis
    proof (cases rest)
      case Nil
      then have "?decompose" using assms(3) False by (auto simp: getNewRefWeightPair_def fr Let_def)
      then show ?thesis using dec Nil by simp
    next
      case (Cons q rest')
      obtain e2 d2 where q: "q = (e2, d2)" by (cases q)
      have f2: "1 \<le> e2" "e2 < MAXENUMERATOR" "d1 < d2" "digits_from d2 rest'"
        using f(4) by (auto simp: Cons q)
      show ?thesis
      proof (cases "d2 > d1 + 1")
        case True
        then have "?decompose"
          using assms(3) False by (auto simp: getNewRefWeightPair_def fr Cons q Let_def)
        then show ?thesis using dec f2 True by (simp add: Cons q)
      next
        case le: False
        then have "h' = h\<lparr>frac_list := (e1, d1) # (if e2 > 1 then (e2 - GiveSize h e2, d2) # rest' else rest')\<rparr>"
          "e = GiveSize h e2" "d = d2"
          using assms(3) False by (auto simp: getNewRefWeightPair_def fr Cons q Let_def)
        moreover have "digits_from d1 rest'" using f2 by (auto intro: digits_from_mono)
        moreover have "e2 = 1 \<Longrightarrow> GiveSize h e2 = 1" using g[of e2] by simp
        ultimately show ?thesis
          using f f2 g[of e2] e1 by (cases "e2 > 1") (simp_all add: fr Cons q pair_ok_def pair_weight_add)
      qed
    qed
  qed
qed

end
