(* ===== verification/ByteBuffer.thy ===== *)
theory ByteBuffer
  imports Prelude
begin

text \<open>
  The byte buffers of the distribution subsystem (\<^verbatim>\<open>platform/dss/src/msl_buffer.cc\<close> and
  \<^verbatim>\<open>.hh\<close>): \<^verbatim>\<open>SimpleBuffer\<close>, an area with one position, and \<^verbatim>\<open>CircularBuffer\<close>, a ring with a read and
  a write position. Pointers into the area are offsets into the list of its bytes. The classes that
  the rest of the system sees, \<^verbatim>\<open>DssReadBuffer\<close> and \<^verbatim>\<open>DssWriteBuffer\<close>, are the two interfaces at the
  end: a source and a sink of bytes.

  Reads and writes are only made after the space has been checked, so sizes are natural numbers;
  every lemma has the check as a hypothesis.
\<close>

type_synonym byte = "8 word"

definition SIZE_INT :: nat where
  "SIZE_INT = 4"

text \<open>\<^verbatim>\<open>memcpy\<close> of \<open>xs\<close> to offset \<open>pos\<close> of an area.\<close>

definition blit :: "'a list \<Rightarrow> nat \<Rightarrow> 'a list \<Rightarrow> 'a list" where
  "blit xs pos area = take pos area @ xs @ drop (pos + length xs) area"

section \<open>Circular buffers\<close>

record CircularBuffer =
  cbuf :: "byte list"
  getpos :: nat
  putpos :: nat
  used :: nat

definition getSize_cb :: "'z CircularBuffer_scheme \<Rightarrow> nat" where
  "getSize_cb b = length (cbuf b)"

definition getFree_cb :: "'z CircularBuffer_scheme \<Rightarrow> nat" where
  "getFree_cb b = getSize_cb b - used b"

definition reinit :: "'z CircularBuffer_scheme \<Rightarrow> 'z CircularBuffer_scheme" where
  "reinit b = b\<lparr>getpos := 0, putpos := 0, used := 0\<rparr>"

definition checkPos :: "'z CircularBuffer_scheme \<Rightarrow> nat \<Rightarrow> nat" where
  "checkPos b pos = (if pos \<ge> getSize_cb b then pos - getSize_cb b else pos)"

definition getByte_cb :: "'z CircularBuffer_scheme \<Rightarrow> byte \<times> 'z CircularBuffer_scheme" where
  "getByte_cb b = (cbuf b ! getpos b, b\<lparr>getpos := checkPos b (getpos b + 1), used := used b - 1\<rparr>)"

definition putByte_cb :: "byte \<Rightarrow> 'z CircularBuffer_scheme \<Rightarrow> 'z CircularBuffer_scheme" where
  "putByte_cb x b = b\<lparr>cbuf := (cbuf b)[putpos b := x], putpos := checkPos b (putpos b + 1), used := used b + 1\<rparr>"

text \<open>Integers go out and come in byte by byte, the least significant first.\<close>

function getInt_loop :: "nat \<Rightarrow> int32 \<Rightarrow> 'z CircularBuffer_scheme \<Rightarrow> int32 \<times> 'z CircularBuffer_scheme" where
  "getInt_loop k i b =
     (if k < SIZE_INT then case getByte_cb b of (c, b') \<Rightarrow> getInt_loop (k + 1) (i OR push_bit (k * 8) (ucast c)) b'
      else (i, b))"
  by auto
termination by (relation "measure (\<lambda>(k, i, b). SIZE_INT - k)") auto

declare getInt_loop.simps [simp del]

definition getInt_cb :: "'z CircularBuffer_scheme \<Rightarrow> int32 \<times> 'z CircularBuffer_scheme" where
  "getInt_cb b = getInt_loop 0 0 b"

fun putInt_loop :: "nat \<Rightarrow> int32 \<Rightarrow> 'z CircularBuffer_scheme \<Rightarrow> 'z CircularBuffer_scheme" where
  "putInt_loop 0 i b = b"
| "putInt_loop (Suc k) i b = putInt_loop k (signed_drop_bit 8 i) (putByte_cb (ucast (i AND 0xFF)) b)"

definition putInt_cb :: "int32 \<Rightarrow> 'z CircularBuffer_scheme \<Rightarrow> 'z CircularBuffer_scheme" where
  "putInt_cb i b = putInt_loop SIZE_INT i b"

text \<open>The variant that overwrites at a given position.\<close>

fun putInt_at_loop :: "nat \<Rightarrow> nat \<Rightarrow> int32 \<Rightarrow> 'z CircularBuffer_scheme \<Rightarrow> 'z CircularBuffer_scheme" where
  "putInt_at_loop 0 pos i b = b"
| "putInt_at_loop (Suc k) pos i b =
     putInt_at_loop k (checkPos b (pos + 1)) (signed_drop_bit 8 i) (b\<lparr>cbuf := (cbuf b)[pos := ucast (i AND 0xFF)]\<rparr>)"

definition putInt_at :: "nat \<Rightarrow> int32 \<Rightarrow> 'z CircularBuffer_scheme \<Rightarrow> 'z CircularBuffer_scheme" where
  "putInt_at pos i b = putInt_at_loop SIZE_INT pos i b"

definition read_cb :: "'z CircularBuffer_scheme \<Rightarrow> nat \<Rightarrow> byte list" where
  "read_cb b len =
     (if getpos b + len \<le> getSize_cb b then take len (drop (getpos b) (cbuf b))
      else (let chunk = getSize_cb b - getpos b in
        take chunk (drop (getpos b) (cbuf b)) @ take (len - chunk) (cbuf b)))"

definition write_cb :: "byte list \<Rightarrow> 'z CircularBuffer_scheme \<Rightarrow> 'z CircularBuffer_scheme" where
  "write_cb xs b =
     (if putpos b + length xs \<le> getSize_cb b then b\<lparr>cbuf := blit xs (putpos b) (cbuf b)\<rparr>
      else (let chunk = getSize_cb b - putpos b in
        b\<lparr>cbuf := blit (drop chunk xs) 0 (blit (take chunk xs) (putpos b) (cbuf b))\<rparr>))"

definition commitRead_cb :: "int \<Rightarrow> 'z CircularBuffer_scheme \<Rightarrow> 'z CircularBuffer_scheme" where
  "commitRead_cb len b =
     (let b' = b\<lparr>used := nat (int (used b) - len),
            getpos := checkPos b (nat (int (getpos b) + (if len \<ge> 0 then len else len + int (getSize_cb b))))\<rparr>
      in if used b' = 0 then reinit b' else b')"

definition commitWrite_cb :: "int \<Rightarrow> 'z CircularBuffer_scheme \<Rightarrow> 'z CircularBuffer_scheme" where
  "commitWrite_cb len b =
     b\<lparr>used := nat (int (used b) + len),
       putpos := checkPos b (nat (int (putpos b) + (if len \<ge> 0 then len else len + int (getSize_cb b))))\<rparr>"

definition getReadBlock :: "'z CircularBuffer_scheme \<Rightarrow> nat \<times> nat" where
  "getReadBlock b = (getpos b, min (used b) (getSize_cb b - getpos b))"

definition getWriteBlock :: "'z CircularBuffer_scheme \<Rightarrow> nat \<times> nat" where
  "getWriteBlock b = (putpos b, min (getFree_cb b) (getSize_cb b - putpos b))"

text \<open>Subtraction in \<^verbatim>\<open>size_t\<close>, here of 32 bits, on operands that fit: below zero it wraps around.\<close>

definition size_minus :: "nat \<Rightarrow> nat \<Rightarrow> nat" where
  "size_minus a b = (if b \<le> a then a - b else a + 2 ^ 32 - b)"

lemma size_minus_le [simp]: "b \<le> a \<Longrightarrow> size_minus a b = a - b"
  by (simp add: size_minus_def)

text \<open>The two classes made from it: a frame hides the end of the data, a reserve hides space.\<close>

record DssReadByteBuffer = CircularBuffer +
  outerframe :: nat

record DssWriteByteBuffer = CircularBuffer +
  reserved :: nat

definition new_DssReadByteBuffer :: "nat \<Rightarrow> DssReadByteBuffer" where
  "new_DssReadByteBuffer sz = \<lparr>cbuf = replicate sz 0, getpos = 0, putpos = 0, used = 0, outerframe = 0\<rparr>"

definition setFrameSize :: "nat \<Rightarrow> DssReadByteBuffer \<Rightarrow> DssReadByteBuffer" where
  "setFrameSize sz b = b\<lparr>outerframe := size_minus (used b) sz\<rparr>"

definition resetFrame :: "DssReadByteBuffer \<Rightarrow> DssReadByteBuffer" where
  "resetFrame b = b\<lparr>outerframe := 0\<rparr>"

definition availableData :: "DssReadByteBuffer \<Rightarrow> nat" where
  "availableData b = size_minus (used b) (outerframe b)"

definition canRead :: "nat \<Rightarrow> DssReadByteBuffer \<Rightarrow> bool" where
  "canRead len b \<longleftrightarrow> availableData b \<ge> len"

definition new_DssWriteByteBuffer :: "nat \<Rightarrow> DssWriteByteBuffer" where
  "new_DssWriteByteBuffer sz = \<lparr>cbuf = replicate sz 0, getpos = 0, putpos = 0, used = 0, reserved = 0\<rparr>"

definition reserveSpace :: "nat \<Rightarrow> DssWriteByteBuffer \<Rightarrow> DssWriteByteBuffer" where
  "reserveSpace len b = b\<lparr>reserved := reserved b + len\<rparr>"

definition resetReserve :: "DssWriteByteBuffer \<Rightarrow> DssWriteByteBuffer" where
  "resetReserve b = b\<lparr>reserved := 0\<rparr>"

definition availableSpace :: "DssWriteByteBuffer \<Rightarrow> nat" where
  "availableSpace b = size_minus (getFree_cb b) (reserved b)"

definition canWrite :: "nat \<Rightarrow> DssWriteByteBuffer \<Rightarrow> bool" where
  "canWrite len b \<longleftrightarrow> availableSpace b \<ge> len"

definition writeToBuffer :: "byte list \<Rightarrow> 'z CircularBuffer_scheme \<Rightarrow> 'z CircularBuffer_scheme" where
  "writeToBuffer xs b = commitWrite_cb (int (length xs)) (write_cb xs b)"

section \<open>A circular buffer is a queue of bytes\<close>

text \<open>The invariant the header states, and the bytes between the positions.\<close>

definition cb_ok :: "'z CircularBuffer_scheme \<Rightarrow> bool" where
  "cb_ok b \<longleftrightarrow> getpos b < getSize_cb b \<and> putpos b < getSize_cb b \<and> used b \<le> getSize_cb b \<and>
     putpos b = (getpos b + used b) mod getSize_cb b"

definition cb_bytes :: "'z CircularBuffer_scheme \<Rightarrow> byte list" where
  "cb_bytes b = map (\<lambda>k. cbuf b ! ((getpos b + k) mod getSize_cb b)) [0..<used b]"

lemma length_cb_bytes [simp]: "length (cb_bytes b) = used b"
  by (simp add: cb_bytes_def)

lemma getSize_cb_simps [simp]:
  "getSize_cb (b\<lparr>getpos := g\<rparr>) = getSize_cb b" "getSize_cb (b\<lparr>putpos := g\<rparr>) = getSize_cb b"
  "getSize_cb (b\<lparr>used := g\<rparr>) = getSize_cb b" "getSize_cb (b\<lparr>cbuf := (cbuf b)[i := x]\<rparr>) = getSize_cb b"
  by (simp_all add: getSize_cb_def)

lemma checkPos_mod: "p < 2 * getSize_cb b \<Longrightarrow> checkPos b p = p mod getSize_cb b"
  by (auto simp: checkPos_def mod_if)

text \<open>Two offsets below the size that are congruent after a shift are equal.\<close>

lemma mod_shift_inj:
  assumes "j < (n::nat)" "k < n" "(g + j) mod n = (g + k) mod n"
  shows "j = k"
proof -
  have "j = k" if "j \<le> k" "j < n" "k < n" "(g + j) mod n = (g + k) mod n" for j k
  proof -
    have "n dvd k - j" using mod_eq_dvd_iff_nat[of "g + j" "g + k" n] that by simp
    then show ?thesis using that dvd_imp_le[of n "k - j"] by linarith
  qed
  then show ?thesis using assms nat_le_linear by metis
qed

lemma putByte_queue:
  assumes "cb_ok b" "used b < getSize_cb b"
  shows "cb_ok (putByte_cb x b)" "cb_bytes (putByte_cb x b) = cb_bytes b @ [x]"
proof -
  define n where "n = getSize_cb b"
  have b: "getpos b < n" "putpos b < n" "used b < n" "putpos b = (getpos b + used b) mod n" "length (cbuf b) = n"
    using assms by (auto simp: cb_ok_def n_def getSize_cb_def)
  have cp: "checkPos b (putpos b + 1) = (putpos b + 1) mod n"
    unfolding n_def by (rule checkPos_mod) (use b(2) in \<open>simp add: n_def\<close>)
  show "cb_ok (putByte_cb x b)"
    using b cp by (simp add: cb_ok_def putByte_cb_def flip: n_def) (simp add: mod_simps)
  show "cb_bytes (putByte_cb x b) = cb_bytes b @ [x]"
  proof (rule nth_equalityI)
    fix k assume "k < length (cb_bytes (putByte_cb x b))"
    then have k: "k < Suc (used b)" by (simp add: putByte_cb_def)
    have "(getpos b + k) mod n = putpos b \<longleftrightarrow> k = used b"
      using mod_shift_inj[of k n "used b" "getpos b"] k b by auto
    then show "cb_bytes (putByte_cb x b) ! k = (cb_bytes b @ [x]) ! k"
      using k b by (auto simp: cb_bytes_def putByte_cb_def nth_append nth_list_update less_Suc_eq
          simp flip: n_def)
  qed (simp add: putByte_cb_def)
qed

text \<open>Dropping bytes in front, by \<^verbatim>\<open>m_getByte\<close> or \<^verbatim>\<open>m_commitRead\<close>.\<close>

lemma advance_queue:
  assumes "cb_ok b" "len \<le> used b"
  shows "cb_ok (b\<lparr>getpos := (getpos b + len) mod getSize_cb b, used := used b - len\<rparr>)"
    "cb_bytes (b\<lparr>getpos := (getpos b + len) mod getSize_cb b, used := used b - len\<rparr>) = drop len (cb_bytes b)"
proof -
  have pos: "0 < getSize_cb b" and eq: "getpos b + len + (used b - len) = getpos b + used b"
    using assms by (auto simp: cb_ok_def)
  have "((getpos b + len) mod getSize_cb b + (used b - len)) mod getSize_cb b
      = (getpos b + used b) mod getSize_cb b"
    by (simp only: mod_add_left_eq eq)
  then show "cb_ok (b\<lparr>getpos := (getpos b + len) mod getSize_cb b, used := used b - len\<rparr>)"
    using assms pos by (auto simp: cb_ok_def)
  show "cb_bytes (b\<lparr>getpos := (getpos b + len) mod getSize_cb b, used := used b - len\<rparr>) = drop len (cb_bytes b)"
    using assms(2) by (intro nth_equalityI) (auto simp: cb_bytes_def mod_simps ac_simps)
qed

lemma getByte_queue:
  assumes "cb_ok b" "cb_bytes b = x # xs"
  shows "fst (getByte_cb b) = x" "cb_ok (snd (getByte_cb b))" "cb_bytes (snd (getByte_cb b)) = xs"
proof -
  have u: "0 < used b" using assms(2) length_cb_bytes[of b] by simp
  then have "cb_bytes b ! 0 = cbuf b ! getpos b"
    using assms(1) by (simp add: cb_bytes_def cb_ok_def)
  then show "fst (getByte_cb b) = x" using assms(2) by (simp add: getByte_cb_def)
  have "checkPos b (getpos b + 1) = (getpos b + 1) mod getSize_cb b"
    using assms(1) by (intro checkPos_mod) (auto simp: cb_ok_def)
  then have eq: "snd (getByte_cb b) = b\<lparr>getpos := (getpos b + 1) mod getSize_cb b, used := used b - 1\<rparr>"
    by (simp add: getByte_cb_def)
  show "cb_ok (snd (getByte_cb b))" "cb_bytes (snd (getByte_cb b)) = xs"
    unfolding eq using advance_queue[OF assms(1), of 1] u assms(2) by simp_all
qed

lemma read_queue:
  assumes "cb_ok b" "len \<le> used b"
  shows "read_cb b len = take len (cb_bytes b)"
proof (rule nth_equalityI)
  have n: "length (cbuf b) = getSize_cb b" "getpos b < getSize_cb b" "used b \<le> getSize_cb b"
    using assms by (auto simp: cb_ok_def getSize_cb_def)
  then show "length (read_cb b len) = length (take len (cb_bytes b))"
    using assms(2) by (auto simp: read_cb_def Let_def)
  fix k assume "k < length (read_cb b len)"
  then have k: "k < len" using n assms(2) by (auto simp: read_cb_def Let_def split: if_splits)
  then have "read_cb b len ! k = cbuf b ! checkPos b (getpos b + k)"
    using n assms(2) by (auto simp: read_cb_def checkPos_def Let_def nth_append add.commute)
  moreover have "checkPos b (getpos b + k) = (getpos b + k) mod getSize_cb b"
    by (rule checkPos_mod) (use k n assms(2) in linarith)
  ultimately show "read_cb b len ! k = take len (cb_bytes b) ! k"
    using k assms(2) by (simp add: cb_bytes_def)
qed

lemma commitRead_queue:
  assumes "cb_ok b" "len \<le> used b"
  shows "cb_ok (commitRead_cb (int len) b)" "cb_bytes (commitRead_cb (int len) b) = drop len (cb_bytes b)"
proof -
  have n: "0 < getSize_cb b" using assms(1) by (auto simp: cb_ok_def)
  define b' where "b' = b\<lparr>getpos := (getpos b + len) mod getSize_cb b, used := used b - len\<rparr>"
  have "checkPos b (getpos b + len) = (getpos b + len) mod getSize_cb b"
    by (rule checkPos_mod) (use assms in \<open>auto simp: cb_ok_def\<close>)
  moreover have "nat (int (used b) - int len) = used b - len" "nat (int (getpos b) + int len) = getpos b + len"
    by simp_all
  ultimately have eq: "commitRead_cb (int len) b = (if used b - len = 0 then reinit b' else b')"
    by (simp add: commitRead_cb_def b'_def Let_def) (simp add: reinit_def)
  show "cb_ok (commitRead_cb (int len) b)" "cb_bytes (commitRead_cb (int len) b) = drop len (cb_bytes b)"
    unfolding eq using advance_queue[OF assms, folded b'_def] n assms(2)
    by (auto simp: reinit_def cb_ok_def cb_bytes_def getSize_cb_def b'_def)
qed

lemma length_blit: "pos + length xs \<le> length area \<Longrightarrow> length (blit xs pos area) = length area"
  by (simp add: blit_def)

lemma nth_blit:
  "pos + length xs \<le> length area \<Longrightarrow> i < length area \<Longrightarrow>
   blit xs pos area ! i = (if pos \<le> i \<and> i < pos + length xs then xs ! (i - pos) else area ! i)"
  by (auto simp: blit_def nth_append)

text \<open>Byte \<open>i\<close> of the area after a write: its distance from the write position counts.\<close>

lemma write_nth:
  assumes "cb_ok b" "length xs \<le> getFree_cb b" "i < getSize_cb b"
  shows "cbuf (write_cb xs b) ! i =
    (let k = checkPos b (i + getSize_cb b - putpos b) in if k < length xs then xs ! k else cbuf b ! i)"
    "getSize_cb (write_cb xs b) = getSize_cb b"
proof -
  have n: "length (cbuf b) = getSize_cb b" "putpos b < getSize_cb b" "length xs \<le> getSize_cb b"
    using assms by (auto simp: cb_ok_def getSize_cb_def getFree_cb_def)
  then show "cbuf (write_cb xs b) ! i =
    (let k = checkPos b (i + getSize_cb b - putpos b) in if k < length xs then xs ! k else cbuf b ! i)"
    using assms(3) by (auto simp: write_cb_def Let_def checkPos_def nth_blit length_blit add.commute)
  show "getSize_cb (write_cb xs b) = getSize_cb b"
    using n by (auto simp: write_cb_def Let_def length_blit getSize_cb_def)
qed

lemma write_rest [simp]:
  "getpos (write_cb xs b) = getpos b" "putpos (write_cb xs b) = putpos b" "used (write_cb xs b) = used b"
  by (simp_all add: write_cb_def Let_def)

lemma ring_distance:
  assumes "g < (n::nat)" "k < n" "u \<le> n" "p = (g + u) mod n" "i = (g + k) mod n" "len \<le> n - u"
  shows "(let d = i + n - p; d' = (if d \<ge> n then d - n else d) in
    (d' < len \<longleftrightarrow> u \<le> k \<and> k < u + len) \<and> (u \<le> k \<longrightarrow> d' = k - u))"
proof -
  have "p = (if g + u < n then g + u else if g + u - n < n then g + u - n else 0)" "i = (if g + k < n then g + k else g + k - n)"
    using assms(1-5) by (auto simp: mod_if)
  then show ?thesis using assms(1-3,6) by (auto simp: Let_def)
qed

lemma writeToBuffer_queue:
  assumes "cb_ok b" "length xs \<le> getFree_cb b"
  shows "cb_ok (writeToBuffer xs b)" "cb_bytes (writeToBuffer xs b) = cb_bytes b @ xs"
proof -
  define n where "n = getSize_cb b"
  have b: "getpos b < n" "putpos b < n" "used b \<le> n" "putpos b = (getpos b + used b) mod n"
    "length xs \<le> n - used b"
    using assms by (auto simp: cb_ok_def n_def getFree_cb_def)
  have n': "getSize_cb (write_cb xs b) = n" using write_nth(2)[OF assms, of 0] b by (simp add: n_def)
  have "checkPos (write_cb xs b) (putpos b + length xs) = (putpos b + length xs) mod n"
    unfolding n'[symmetric] by (rule checkPos_mod) (use b(2,5) n' in linarith)
  then have eq: "writeToBuffer xs b =
      (write_cb xs b)\<lparr>used := used b + length xs, putpos := (putpos b + length xs) mod n\<rparr>"
    by (simp add: writeToBuffer_def commitWrite_cb_def nat_int_add)
  show "cb_ok (writeToBuffer xs b)"
    using b n' unfolding eq by (simp add: cb_ok_def) (simp add: mod_simps add.assoc)
  show "cb_bytes (writeToBuffer xs b) = cb_bytes b @ xs"
  proof (rule nth_equalityI)
    show "length (cb_bytes (writeToBuffer xs b)) = length (cb_bytes b @ xs)" by (simp add: eq)
    fix k assume "k < length (cb_bytes (writeToBuffer xs b))"
    then have k: "k < used b + length xs" by (simp add: eq)
    define i where "i = (getpos b + k) mod n"
    have kn: "k < n" using k b(3,5) by linarith
    have i: "i < getSize_cb b" using b by (auto simp: i_def n_def[symmetric])
    have "cb_bytes (writeToBuffer xs b) ! k = cbuf (write_cb xs b) ! i"
      using k n' by (simp add: cb_bytes_def eq i_def)
    also have "\<dots> = (if used b \<le> k then xs ! (k - used b) else cbuf b ! i)"
      using write_nth(1)[OF assms i] ring_distance[OF b(1) kn b(3,4) i_def b(5)] k
      by (auto simp: checkPos_def Let_def n_def)
    also have "\<dots> = (cb_bytes b @ xs) ! k"
      using k by (auto simp: nth_append cb_bytes_def i_def n_def)
    finally show "cb_bytes (writeToBuffer xs b) ! k = (cb_bytes b @ xs) ! k" .
  qed
qed

section \<open>Simple buffers\<close>

record SimpleBuffer =
  sbuf :: "byte list"
  spos :: nat

definition getUsed_sb :: "SimpleBuffer \<Rightarrow> nat" where
  "getUsed_sb b = spos b"

definition getFree_sb :: "SimpleBuffer \<Rightarrow> nat" where
  "getFree_sb b = length (sbuf b) - spos b"

definition rewindPos :: "SimpleBuffer \<Rightarrow> SimpleBuffer" where
  "rewindPos b = b\<lparr>spos := 0\<rparr>"

definition getByte_sb :: "SimpleBuffer \<Rightarrow> byte \<times> SimpleBuffer" where
  "getByte_sb b = (sbuf b ! spos b, b\<lparr>spos := spos b + 1\<rparr>)"

definition putByte_sb :: "byte \<Rightarrow> SimpleBuffer \<Rightarrow> SimpleBuffer" where
  "putByte_sb x b = b\<lparr>sbuf := (sbuf b)[spos b := x], spos := spos b + 1\<rparr>"

text \<open>The four bytes of an integer in memory.\<close>

definition gf_integer2char :: "int32 \<Rightarrow> byte list" where
  "gf_integer2char e = [ucast e, ucast (drop_bit 8 e), ucast (drop_bit 16 e), ucast (drop_bit 24 e)]"

definition gf_char2integer :: "byte list \<Rightarrow> int32" where
  "gf_char2integer buf = push_bit 24 (ucast (buf ! 3)) OR push_bit 16 (ucast (buf ! 2))
     OR push_bit 8 (ucast (buf ! 1)) OR ucast (buf ! 0)"

definition getInt_sb :: "SimpleBuffer \<Rightarrow> int32 \<times> SimpleBuffer" where
  "getInt_sb b = (gf_char2integer (drop (spos b) (sbuf b)), b\<lparr>spos := spos b + SIZE_INT\<rparr>)"

definition putInt_sb :: "int32 \<Rightarrow> SimpleBuffer \<Rightarrow> SimpleBuffer" where
  "putInt_sb i b = b\<lparr>sbuf := blit (gf_integer2char i) (spos b) (sbuf b), spos := spos b + SIZE_INT\<rparr>"

definition read_sb :: "SimpleBuffer \<Rightarrow> nat \<Rightarrow> byte list" where
  "read_sb b len = take len (drop (spos b) (sbuf b))"

definition write_sb :: "byte list \<Rightarrow> SimpleBuffer \<Rightarrow> SimpleBuffer" where
  "write_sb xs b = b\<lparr>sbuf := blit xs (spos b) (sbuf b)\<rparr>"

definition commit_sb :: "nat \<Rightarrow> SimpleBuffer \<Rightarrow> SimpleBuffer" where
  "commit_sb len b = b\<lparr>spos := spos b + len\<rparr>"

section \<open>Numbers in a stream\<close>

text \<open>
  \<^verbatim>\<open>gf_MarshalNumber\<close> and \<^verbatim>\<open>gf_UnmarshalNumber\<close> of \<^verbatim>\<open>platform/dss/include/dss_comService.hh\<close> work on every
  buffer through its virtual methods, which are the parameters \<open>put\<close> and \<open>get\<close>. The loop that
  reads stops at the first byte without the continuation bit; it has no result if there is none.
\<close>

definition SSBit :: int32 where
  "SSBit = push_bit 7 1"

definition sz_MNumberMax :: nat where
  "sz_MNumberMax = 5"

lemma SSBit_eq: "SSBit = 128"
  by (simp add: SSBit_def push_bit_eq_mult)

lemma bit_SSBit: "bit SSBit n \<longleftrightarrow> n = 7"
proof -
  have "SSBit = 2 ^ 7" by (simp add: SSBit_eq)
  then show ?thesis using bit_exp_iff[where 'a = int32, of 7 n] by auto
qed

lemma mod_SSBit: "i mod SSBit = take_bit 7 i"
  by (simp add: SSBit_eq take_bit_eq_mod)

definition gf_Marshal8bitInt :: "(byte \<Rightarrow> 'b \<Rightarrow> 'b) \<Rightarrow> int32 \<Rightarrow> 'b \<Rightarrow> 'b" where
  "gf_Marshal8bitInt put i bs = put (ucast i) bs"

definition gf_Unmarshal8bitInt :: "('b \<Rightarrow> byte \<times> 'b) \<Rightarrow> 'b \<Rightarrow> int32 \<times> 'b" where
  "gf_Unmarshal8bitInt get bs = (case get bs of (c, bs') \<Rightarrow> (ucast c, bs'))"

lemma SSBit_div: "SSBit \<le> i \<Longrightarrow> unat (i div SSBit) = unat i div 128 \<and> unat (i div SSBit) < unat i"
  by (simp add: SSBit_eq word_le_nat_alt unat_div_distrib)

function gf_MarshalNumber :: "(byte \<Rightarrow> 'b \<Rightarrow> 'b) \<Rightarrow> int32 \<Rightarrow> 'b \<Rightarrow> 'b" where
  "gf_MarshalNumber put i bs =
     (if i \<ge> SSBit then gf_MarshalNumber put (i div SSBit) (put (ucast ((i mod SSBit) OR SSBit)) bs)
      else put (ucast i) bs)"
  by auto

termination
  by (relation "measure (\<lambda>(put, i, bs). unat i)") (auto dest: SSBit_div)

declare gf_MarshalNumber.simps [simp del]

partial_function (option) unmarshal_loop ::
  "('b \<Rightarrow> byte \<times> 'b) \<Rightarrow> int32 \<Rightarrow> nat \<Rightarrow> int32 \<Rightarrow> 'b \<Rightarrow> (int32 \<times> 'b) option" where
  [code]: "unmarshal_loop get c shft ret bs =
     (if c \<ge> SSBit then case get bs of (c', bs') \<Rightarrow>
        unmarshal_loop get (ucast c') (shft + 7) (ret + push_bit shft (c - SSBit)) bs'
      else Some (ret OR push_bit shft c, bs))"

definition gf_UnmarshalNumber :: "('b \<Rightarrow> byte \<times> 'b) \<Rightarrow> 'b \<Rightarrow> (int32 \<times> 'b) option" where
  "gf_UnmarshalNumber get bs = (case get bs of (c, bs') \<Rightarrow> unmarshal_loop get (ucast c) 0 0 bs')"

section \<open>The interfaces of the buffers\<close>

text \<open>
  \<^verbatim>\<open>DssWriteBuffer\<close>: a byte that is put goes behind the bytes written so far, as long as there is
  space. \<^verbatim>\<open>DssReadBuffer\<close>: a byte that is got is the first of the bytes to come.
\<close>

fun number_bytes :: "nat \<Rightarrow> byte list" where
  "number_bytes n = (if n \<ge> 128 then of_nat (n mod 128 + 128) # number_bytes (n div 128) else [of_nat n])"

declare number_bytes.simps [simp del]

locale byte_sink =
  fixes put :: "byte \<Rightarrow> 'b \<Rightarrow> 'b"
    and written :: "'b \<Rightarrow> byte list"
    and space :: "'b \<Rightarrow> nat"
    and sink_ok :: "'b \<Rightarrow> bool"
  assumes put_ok: "sink_ok b \<Longrightarrow> 0 < space b \<Longrightarrow> sink_ok (put x b)"
    and put_written: "sink_ok b \<Longrightarrow> 0 < space b \<Longrightarrow> written (put x b) = written b @ [x]"
    and put_space: "sink_ok b \<Longrightarrow> 0 < space b \<Longrightarrow> space (put x b) = space b - 1"
begin

lemma marshal_number:
  "sink_ok b \<Longrightarrow> length (number_bytes (unat i)) \<le> space b \<Longrightarrow>
   sink_ok (gf_MarshalNumber put i b) \<and> written (gf_MarshalNumber put i b) = written b @ number_bytes (unat i)"
proof (induction "unat i" arbitrary: i b rule: less_induct)
  case less
  show ?case
  proof (cases "i \<ge> SSBit")
    case True
    have "(ucast ((i mod SSBit) OR SSBit) :: byte) = of_nat (unat i mod 128 + 128)"
    proof -
      have "(i mod SSBit) OR SSBit = i mod SSBit + SSBit"
      proof (rule disjunctive_add_eq_or[symmetric])
        show "(i mod SSBit) AND SSBit = 0"
          by (rule bit_eqI) (auto simp: mod_SSBit bit_SSBit bit_and_iff bit_take_bit_iff)
      qed
      moreover have "unat (i mod SSBit + SSBit) = unat i mod 128 + 128"
        by (simp add: SSBit_eq unat_word_ariths unat_mod_distrib)
      ultimately show ?thesis by (metis of_nat_unat)
    qed
    moreover have "number_bytes (unat i) = of_nat (unat i mod 128 + 128) # number_bytes (unat (i div SSBit))"
      using True SSBit_div[OF True] by (subst number_bytes.simps) (simp add: SSBit_eq word_le_nat_alt)
    ultimately show ?thesis
      using less.hyps[of "i div SSBit"] SSBit_div[OF True] less.prems put_ok[of b] put_written[of b]
        put_space[of b] True
      by (simp add: gf_MarshalNumber.simps[of put i b])
  next
    case False
    then have "number_bytes (unat i) = [ucast i]"
      by (subst number_bytes.simps) (auto simp: SSBit_eq word_le_nat_alt unsigned_ucast_eq)
    then show ?thesis
      using False less.prems put_ok[of b] put_written[of b] by (simp add: gf_MarshalNumber.simps[of put i b])
  qed
qed

end

lemma or_push_low:
  assumes "unat (r::int32) < 2 ^ s" "unat r + unat c * 2 ^ s < 2 ^ 32"
  shows "unat (r OR push_bit s c) = unat r + unat c * 2 ^ s" "unat (r + push_bit s c) = unat r + unat c * 2 ^ s"
proof -
  have c: "unat (push_bit s c) = unat c * 2 ^ s"
    unfolding unsigned_push_bit_eq using assms(2) by (simp add: push_bit_eq_mult take_bit_eq_mod)
  have "take_bit s (unat r) = unat r" using assms(1) by (simp add: take_bit_nat_eq_self_iff)
  then have low: "take_bit s r = r" by (metis unsigned_take_bit_eq unsigned_word_eqI)
  have "r AND push_bit s c = 0"
  proof (rule bit_eqI)
    fix n
    show "bit (r AND push_bit s c) n = bit 0 n"
      using low by (auto simp: bit_simps) (metis bit_take_bit_iff not_le)
  qed
  then have "r OR push_bit s c = r + push_bit s c" by (rule disjunctive_add_eq_or[symmetric])
  then show "unat (r OR push_bit s c) = unat r + unat c * 2 ^ s" "unat (r + push_bit s c) = unat r + unat c * 2 ^ s"
    using c assms(2) by (simp_all add: unat_word_ariths)
qed

lemma byte_ucast: "n < 256 \<Longrightarrow> unat (ucast (of_nat n :: byte) :: int32) = n"
  by (simp add: unsigned_ucast_eq unsigned_of_nat take_bit_nat_eq_self_iff)

lemma number_bytes_Cons: obtains x xs where "number_bytes n = x # xs"
proof (cases "n \<ge> 128")
  case True
  then show thesis using that number_bytes.simps[of n] by auto
next
  case False
  then show thesis using that number_bytes.simps[of n] by auto
qed

locale byte_source =
  fixes get :: "'b \<Rightarrow> byte \<times> 'b"
    and pending :: "'b \<Rightarrow> byte list"
    and source_ok :: "'b \<Rightarrow> bool"
  assumes get_first: "source_ok b \<Longrightarrow> pending b = x # xs \<Longrightarrow> fst (get b) = x"
    and get_ok: "source_ok b \<Longrightarrow> pending b = x # xs \<Longrightarrow> source_ok (snd (get b))"
    and get_rest: "source_ok b \<Longrightarrow> pending b = x # xs \<Longrightarrow> pending (snd (get b)) = xs"
begin

lemma unmarshal_loop_number:
  assumes "source_ok b" "pending b = xs @ rest" "number_bytes n = x # xs"
    "unat r < 2 ^ s" "unat r + n * 2 ^ s < 2 ^ 32"
  shows "\<exists>b'. unmarshal_loop get (ucast x) s r b = Some (of_nat (unat r + n * 2 ^ s), b') \<and>
    source_ok b' \<and> pending b' = rest"
  using assms
proof (induction n arbitrary: b r s x xs rule: number_bytes.induct)
  case (1 n)
  show ?case
  proof (cases "n \<ge> 128")
    case True
    have nb: "x = of_nat (n mod 128 + 128)" "xs = number_bytes (n div 128)"
      using "1.prems"(3) True by (auto simp: number_bytes.simps[of n])
    have c: "unat (ucast x :: int32) = n mod 128 + 128"
      unfolding nb by (rule byte_ucast) (use mod_less_divisor[of 128 n] in linarith)
    then have big: "SSBit \<le> ucast x" by (simp add: SSBit_eq word_le_nat_alt)
    have d: "unat (ucast x - SSBit) = n mod 128"
      using c big by (simp add: unat_sub SSBit_eq)
    have n: "n = 128 * (n div 128) + n mod 128" by simp
    have "(n mod 128) * 2 ^ s \<le> n * 2 ^ s" by simp
    then have sm: "unat r + unat (ucast x - SSBit) * 2 ^ s < 2 ^ 32" 
      unfolding d using "1.prems"(5) by linarith
    define r' where "r' = r + push_bit s (ucast x - SSBit)"
    have r': "unat r' = unat r + (n mod 128) * 2 ^ s"
      using or_push_low(2)[OF "1.prems"(4) sm] d by (simp add: r'_def)
    have low: "unat r' < 2 ^ (s + 7)"
    proof -
      have "unat r + (n mod 128) * 2 ^ s < 2 ^ s + 127 * 2 ^ s"
        by (rule add_less_le_mono[OF "1.prems"(4)], rule mult_le_mono1)
          (use mod_less_divisor[of 128 n] in linarith)
      then show ?thesis by (simp add: r' power_add)
    qed
    have sum: "unat r' + n div 128 * 2 ^ (s + 7) = unat r + n * 2 ^ s"
    proof -
      have "n * 2 ^ s = (128 * (n div 128)) * 2 ^ s + (n mod 128) * 2 ^ s"
        by (metis n add_mult_distrib)
      then show ?thesis by (simp add: r' power_add)
    qed
    obtain y ys where ys: "number_bytes (n div 128) = y # ys"
      by (rule number_bytes_Cons)
    have g: "fst (get b) = y" "source_ok (snd (get b))" "pending (snd (get b)) = ys @ rest"
      using get_first get_ok get_rest "1.prems"(1,2) nb ys by auto
    have "\<exists>b'. unmarshal_loop get (ucast y) (s + 7) r' (snd (get b)) = Some (of_nat (unat r + n * 2 ^ s), b') \<and>
        source_ok b' \<and> pending b' = rest"
      using "1.IH"[OF True g(2,3) ys low] sum "1.prems"(5) by simp
    then show ?thesis
      using big g(1) by (subst unmarshal_loop.simps) (auto simp: r'_def split: prod.split)
  next
    case False
    then have x: "x = of_nat n" "xs = []" using "1.prems"(3) by (auto simp: number_bytes.simps[of n])
    then have c: "unat (ucast x :: int32) = n" using byte_ucast[of n] False by simp
    have "\<not> SSBit \<le> ucast x" using c False by (simp add: SSBit_eq word_le_nat_alt)
    moreover have "unat (r OR push_bit s (ucast x)) = unat r + n * 2 ^ s"
      using or_push_low(1)[OF "1.prems"(4), of "ucast x"] "1.prems"(5) c by simp
    then have "r OR push_bit s (ucast x) = of_nat (unat r + n * 2 ^ s)"
      by (metis of_nat_unat ucast_id)
    ultimately show ?thesis
      using "1.prems"(1,2) x(2) by (subst unmarshal_loop.simps) auto
  qed
qed

lemma unmarshal_number:
  assumes "source_ok b" "pending b = number_bytes (unat i) @ rest"
  shows "\<exists>b'. gf_UnmarshalNumber get b = Some (i, b') \<and> source_ok b' \<and> pending b' = rest"
proof -
  obtain x xs where x: "number_bytes (unat i) = x # xs"
    by (rule number_bytes_Cons)
  then have p: "pending b = x # (xs @ rest)" using assms(2) by simp
  show ?thesis
    using unmarshal_loop_number[of "snd (get b)" xs rest "unat i" x 0 0] x
      get_first[OF assms(1) p] get_ok[OF assms(1) p] get_rest[OF assms(1) p] unsigned_less[of i, where 'a = nat]
    by (auto simp: gf_UnmarshalNumber_def split: prod.split)
qed

end

lemma getFree_put: "getFree_cb (putByte_cb x b) = getFree_cb b - 1"
  by (simp add: getFree_cb_def putByte_cb_def getSize_cb_def)

lemma getFree_pos: "0 < getFree_cb b \<longleftrightarrow> used b < getSize_cb b"
  by (auto simp: getFree_cb_def)

interpretation cb_sink: byte_sink putByte_cb cb_bytes getFree_cb cb_ok
  by unfold_locales (auto simp: putByte_queue getFree_put getFree_pos)

interpretation cb_source: byte_source getByte_cb cb_bytes cb_ok
  by unfold_locales (auto simp: getByte_queue)

interpretation sb_sink: byte_sink putByte_sb "\<lambda>b. take (spos b) (sbuf b)" getFree_sb "\<lambda>b. spos b \<le> length (sbuf b)"
  by unfold_locales (auto simp: putByte_sb_def getFree_sb_def take_Suc_conv_app_nth)

interpretation sb_source: byte_source getByte_sb "\<lambda>b. drop (spos b) (sbuf b)" "\<lambda>b. spos b \<le> length (sbuf b)"
proof
  fix b :: SimpleBuffer and x xs
  assume b: "spos b \<le> length (sbuf b)" "drop (spos b) (sbuf b) = x # xs"
  then have "spos b < length (sbuf b)" by (metis drop_all list.distinct(1) not_less)
  then have "sbuf b ! spos b # drop (Suc (spos b)) (sbuf b) = x # xs" "spos b < length (sbuf b)"
    using Cons_nth_drop_Suc[of "spos b" "sbuf b"] b(2) by auto
  then show "fst (getByte_sb b) = x" "spos (snd (getByte_sb b)) \<le> length (sbuf (snd (getByte_sb b)))"
    "drop (spos (snd (getByte_sb b))) (sbuf (snd (getByte_sb b))) = xs"
    by (auto simp: getByte_sb_def)
qed

section \<open>Integers\<close>

lemma byte_of_signed: "(ucast (signed_drop_bit n (i::int32) AND 0xFF) :: byte) = ucast (drop_bit n i)" if "n \<le> 24"
proof (rule bit_word_eqI)
  fix k assume "k < LENGTH(8)"
  then have "k < 8" "n + k < 32" using that by simp_all
  moreover have "bit (0xFF :: int32) k" if "k < 8"
  proof -
    have "bit (mask 8 :: int32) k" using that by (simp add: bit_mask_iff)
    then show ?thesis by (simp add: mask_eq_exp_minus_1)
  qed
  ultimately show "bit (ucast (signed_drop_bit n i AND 0xFF) :: byte) k = bit (ucast (drop_bit n i) :: byte) k"
    by (auto simp: bit_simps ac_simps)
qed

lemma putInt_queue:
  assumes "cb_ok b" "SIZE_INT \<le> getFree_cb b"
  shows "cb_ok (putInt_cb i b)" "cb_bytes (putInt_cb i b) = cb_bytes b @ gf_integer2char i"
proof -
  have step: "cb_ok (putByte_cb x c) \<and> cb_bytes (putByte_cb x c) = cb_bytes c @ [x] \<and>
      getFree_cb (putByte_cb x c) = getFree_cb c - 1" if "cb_ok c" "0 < getFree_cb c" for x c
    using putByte_queue[of c x] getFree_put[of x c] getFree_pos[of c] that by auto
  have eq: "putInt_cb i b = putByte_cb (ucast (drop_bit 24 i)) (putByte_cb (ucast (drop_bit 16 i))
      (putByte_cb (ucast (drop_bit 8 i)) (putByte_cb (ucast i) b)))"
    using byte_of_signed[of 0 i] byte_of_signed[of 8 i] byte_of_signed[of 16 i] byte_of_signed[of 24 i]
    by (simp add: putInt_cb_def SIZE_INT_def numeral_eq_Suc)
  show "cb_ok (putInt_cb i b)" "cb_bytes (putInt_cb i b) = cb_bytes b @ gf_integer2char i"
    unfolding eq using assms by (simp_all add: step SIZE_INT_def gf_integer2char_def)
qed

lemma getInt_queue:
  assumes "cb_ok b" "cb_bytes b = [x0, x1, x2, x3] @ rest"
  shows "fst (getInt_cb b) = gf_char2integer [x0, x1, x2, x3]" "cb_ok (snd (getInt_cb b))"
    "cb_bytes (snd (getInt_cb b)) = rest"
proof -
  define b1 where "b1 = snd (getByte_cb b)"
  define b2 where "b2 = snd (getByte_cb b1)"
  define b3 where "b3 = snd (getByte_cb b2)"
  define b4 where "b4 = snd (getByte_cb b3)"
  have 1: "getByte_cb b = (x0, b1)" "cb_ok b1" "cb_bytes b1 = x1 # x2 # x3 # rest"
    using getByte_queue[OF assms(1), of x0 "x1 # x2 # x3 # rest"] assms(2) by (auto simp: b1_def prod_eq_iff)
  have 2: "getByte_cb b1 = (x1, b2)" "cb_ok b2" "cb_bytes b2 = x2 # x3 # rest"
    using getByte_queue[OF 1(2,3)] by (auto simp: b2_def prod_eq_iff)
  have 3: "getByte_cb b2 = (x2, b3)" "cb_ok b3" "cb_bytes b3 = x3 # rest"
    using getByte_queue[OF 2(2,3)] by (auto simp: b3_def prod_eq_iff)
  have 4: "getByte_cb b3 = (x3, b4)" "cb_ok b4" "cb_bytes b4 = rest"
    using getByte_queue[OF 3(2,3)] by (auto simp: b4_def prod_eq_iff)
  have "getInt_cb b = (gf_char2integer [x0, x1, x2, x3], b4)"
    unfolding getInt_cb_def
    by (simp add: getInt_loop.simps SIZE_INT_def 1(1) 2(1) 3(1) 4(1) gf_char2integer_def or.assoc)
      (simp add: ac_simps)
  then show "fst (getInt_cb b) = gf_char2integer [x0, x1, x2, x3]" "cb_ok (snd (getInt_cb b))"
    "cb_bytes (snd (getInt_cb b)) = rest"
    using 4 by simp_all
qed

lemma char2integer_integer2char: "gf_char2integer (gf_integer2char e @ xs) = e"
proof (rule bit_word_eqI)
  fix n assume n: "n < LENGTH(32)"
  show "bit (gf_char2integer (gf_integer2char e @ xs)) n = bit e n"
    using n by (cases "n < 8"; cases "n < 16"; cases "n < 24")
      (auto simp: gf_char2integer_def gf_integer2char_def bit_simps not_less)
qed

lemma length_number_bytes: "n < 128 ^ Suc k \<Longrightarrow> length (number_bytes n) \<le> Suc k"
proof (induction k arbitrary: n)
  case 0
  then show ?case by (subst number_bytes.simps) simp
next
  case (Suc k)
  then have "n div 128 < 128 ^ Suc k" by (simp add: div_less_iff_less_mult ac_simps)
  then show ?case using Suc.IH[of "n div 128"] by (subst number_bytes.simps) simp
qed

lemma number_bytes_max: "length (number_bytes (unat (i::int32))) \<le> sz_MNumberMax"
proof -
  have "unat i < 128 ^ Suc 4" using unsigned_less[of i, where 'a = nat] by simp
  then show ?thesis using length_number_bytes by (fastforce simp: sz_MNumberMax_def)
qed

section \<open>Properties\<close>

text \<open>
  C30: circular buffers. A circular buffer is a queue of bytes: putting a byte or writing a block
  appends to it as long as there is space, getting a byte or committing a read takes from the
  front, reading shows the front without moving, whether or not the block wraps around the end of
  the area, and the invariant of the positions is kept.
\<close>

theorem circular_buffer_queue:
  assumes "cb_ok b" "length xs \<le> getFree_cb b" "len \<le> used b"
  shows "cb_ok (writeToBuffer xs b) \<and> cb_bytes (writeToBuffer xs b) = cb_bytes b @ xs \<and>
    (0 < getFree_cb b \<longrightarrow> cb_ok (putByte_cb x b) \<and> cb_bytes (putByte_cb x b) = cb_bytes b @ [x]) \<and>
    read_cb b len = take len (cb_bytes b) \<and>
    cb_ok (commitRead_cb (int len) b) \<and> cb_bytes (commitRead_cb (int len) b) = drop len (cb_bytes b) \<and>
    (0 < used b \<longrightarrow> fst (getByte_cb b) = hd (cb_bytes b) \<and> cb_ok (snd (getByte_cb b)) \<and>
       cb_bytes (snd (getByte_cb b)) = tl (cb_bytes b))"
proof -
  have "fst (getByte_cb b) = hd (cb_bytes b) \<and> cb_ok (snd (getByte_cb b)) \<and>
       cb_bytes (snd (getByte_cb b)) = tl (cb_bytes b)" if "0 < used b"
    using that getByte_queue[OF assms(1), of "hd (cb_bytes b)" "tl (cb_bytes b)"] length_cb_bytes[of b]
    by (cases "cb_bytes b") auto
  then show ?thesis
    using writeToBuffer_queue[OF assms(1,2)] putByte_queue[OF assms(1)] read_queue[OF assms(1,3)]
      commitRead_queue[OF assms(1,3)] getFree_pos[of b] by auto
qed

text \<open>A buffer of four bytes whose two bytes wrap around the end.\<close>

definition cb_example :: CircularBuffer where
  "cb_example = \<lparr>cbuf = [7, 0, 0, 5], getpos = 3, putpos = 1, used = 2\<rparr>"

theorem circular_buffer_queue_witness:
  "cb_bytes (writeToBuffer [1, 2] cb_example) = [5, 7, 1, 2] \<and> read_cb cb_example 2 = [5, 7] \<and>
   cb_bytes (commitRead_cb 2 cb_example) = [] \<and> fst (getByte_cb cb_example) = 5"
proof -
  have e: "cb_ok cb_example" "getFree_cb cb_example = 2" "used cb_example = 2" "cb_bytes cb_example = [5, 7]"
    by code_simp+
  then show ?thesis using circular_buffer_queue[OF e(1), of "[1, 2]" 2] by simp
qed

text \<open>
  C31: numbers in a stream. A number takes at most \<^verbatim>\<open>sz_MNumberMax\<close> bytes at the end of a circular
  buffer, and whoever finds them in front of any circular buffer reads the number and leaves the
  rest; the same holds for the four bytes of an integer.
\<close>

theorem number_round_trip:
  assumes "cb_ok b" "sz_MNumberMax \<le> getFree_cb b" "cb_ok r"
    "cb_bytes r = drop (used b) (cb_bytes (gf_MarshalNumber putByte_cb i b)) @
       drop (used b) (cb_bytes (putInt_cb j b)) @ rest"
  shows "cb_ok (gf_MarshalNumber putByte_cb i b) \<and> cb_ok (putInt_cb j b) \<and>
    take (used b) (cb_bytes (gf_MarshalNumber putByte_cb i b)) = cb_bytes b \<and>
    take (used b) (cb_bytes (putInt_cb j b)) = cb_bytes b \<and>
    used (gf_MarshalNumber putByte_cb i b) \<le> used b + sz_MNumberMax \<and>
    (\<exists>r' r''. gf_UnmarshalNumber getByte_cb r = Some (i, r') \<and> getInt_cb r' = (j, r'') \<and>
       cb_ok r'' \<and> cb_bytes r'' = rest)"
proof -
  have m: "cb_ok (gf_MarshalNumber putByte_cb i b)"
    "cb_bytes (gf_MarshalNumber putByte_cb i b) = cb_bytes b @ number_bytes (unat i)"
    using cb_sink.marshal_number[OF assms(1)] number_bytes_max[of i] assms(2) by fastforce+
  have p: "cb_ok (putInt_cb j b)" "cb_bytes (putInt_cb j b) = cb_bytes b @ gf_integer2char j"
    using putInt_queue[OF assms(1)] assms(2) by (auto simp: SIZE_INT_def sz_MNumberMax_def)
  have "cb_bytes r = number_bytes (unat i) @ (gf_integer2char j @ rest)"
    using assms(4) m(2) p(2) by simp
  from cb_source.unmarshal_number[OF assms(3) this]
  obtain r' where r': "gf_UnmarshalNumber getByte_cb r = Some (i, r')" "cb_ok r'"
    "cb_bytes r' = gf_integer2char j @ rest" by blast
  have "getInt_cb r' = (j, snd (getInt_cb r'))" "cb_ok (snd (getInt_cb r'))" "cb_bytes (snd (getInt_cb r')) = rest"
    using getInt_queue[OF r'(2), of _ _ _ _ rest] r'(3) char2integer_integer2char[of j "[]"]
    by (auto simp: gf_integer2char_def prod_eq_iff)
  moreover have "used (gf_MarshalNumber putByte_cb i b) = used b + length (number_bytes (unat i))"
    using arg_cong[OF m(2), of length] by simp
  ultimately show ?thesis using m p r'(1) number_bytes_max[of i] by auto
qed

theorem number_round_trip_witness:
  "\<exists>r' r''. gf_UnmarshalNumber getByte_cb (putInt_cb 77 (gf_MarshalNumber putByte_cb 1000 (cb_example\<lparr>cbuf := replicate 16 0, getpos := 14, putpos := 14, used := 0\<rparr>)))
     = Some (1000, r') \<and> getInt_cb r' = (77, r'')"
proof -
  let ?b = "cb_example\<lparr>cbuf := replicate 16 0, getpos := 14, putpos := 14, used := 0\<rparr>"
  have "cb_ok ?b" "sz_MNumberMax \<le> getFree_cb ?b"
    "cb_ok (putInt_cb 77 (gf_MarshalNumber putByte_cb 1000 ?b))"
    "cb_bytes (putInt_cb 77 (gf_MarshalNumber putByte_cb 1000 ?b)) =
      drop (used ?b) (cb_bytes (gf_MarshalNumber putByte_cb 1000 ?b)) @
      drop (used ?b) (cb_bytes (putInt_cb 77 ?b)) @ []"
    by code_simp+
  from number_round_trip[OF this] show ?thesis by blast
qed

end
