(* ===== verification/MsgContainer.thy ===== *)
theory MsgContainer
  imports ByteBuffer
begin

text \<open>
  Message containers of the distribution subsystem
  (\<^verbatim>\<open>platform/dss/src/msl_msgContainer.cc\<close> and \<^verbatim>\<open>.hh\<close>): an array of typed fields that is filled
  at one end and read at the other. The sender pushes fields and the receiver pops them in the
  same order; a pop of a field of another type, which the source excludes by an assertion, is
  \<^const>\<open>None\<close> here. The array of fields is the list of the fields pushed so far together with its
  capacity, and of the slot behind them, which a field that is still being received occupies. Sites
  are numbers; a data area (\<^verbatim>\<open>msl_dct.hh\<close>) is a block of bytes with a position; the data containers
  the engine hangs into a message are values of the type \<open>'x\<close>.
\<close>

datatype dsdd_mode = DSDD_UNDEF | DSDD_READ | DSDD_WRITE

record DssSimpleDacDct =
  dct_buf :: "byte list"
  dct_pos :: nat
  dct_size :: nat
  dct_mode :: dsdd_mode

datatype msg_flags = MSG_CLEAR | MSG_HAS_MARSHALCONT | MSG_HAS_UNMARSHALCONT

datatype 'x msg_field = FT_NUMBER int | FT_SITE nat | FT_DCT DssSimpleDacDct | FT_ADC 'x
  | FT_MSGC "'x msg_cnt" | FT_NULL
and 'x msg_cnt = MsgCnt (a_flag: msg_flags) (a_suspf: bool) (a_max_fields: nat)
  (a_fields: "'x msg_field list") (a_current: nat) (a_slot: "'x msg_field option")

definition INITIAL_SIZE :: nat where
  "INITIAL_SIZE = 8"

text \<open>The invariant the header states for the counters.\<close>

definition checkCounters :: "'x msg_cnt \<Rightarrow> bool" where
  "checkCounters m \<longleftrightarrow> a_current m \<le> length (a_fields m) \<and> length (a_fields m) \<le> a_max_fields m"

fun setFlag :: "msg_flags \<Rightarrow> bool \<Rightarrow> 'x msg_cnt \<Rightarrow> 'x msg_cnt" where
  "setFlag flag suspf (MsgCnt _ _ mx fs c sl) = MsgCnt flag suspf mx fs c sl"

definition checkFlag :: "msg_flags \<Rightarrow> 'x msg_cnt \<Rightarrow> bool" where
  "checkFlag flag m \<longleftrightarrow> a_flag m = flag"

fun checkSize :: "'x msg_cnt \<Rightarrow> 'x msg_cnt" where
  "checkSize (MsgCnt fl su mx fs c sl) =
     MsgCnt fl su (if length fs = mx then mx * 2 else mx) fs c (if length fs = mx then None else sl)"

definition m_pushVal :: "'x msg_field \<Rightarrow> 'x msg_cnt \<Rightarrow> 'x msg_cnt" where
  "m_pushVal v m = (case checkSize m of MsgCnt fl su mx fs c sl \<Rightarrow> MsgCnt fl su mx (fs @ [v]) c None)"

definition new_MsgCnt :: "'x msg_cnt" where
  "new_MsgCnt = MsgCnt MSG_CLEAR False INITIAL_SIZE [] 0 None"

definition pushIntVal :: "int \<Rightarrow> 'x msg_cnt \<Rightarrow> 'x msg_cnt" where
  "pushIntVal v m = m_pushVal (FT_NUMBER v) m"

definition pushDSiteVal :: "nat \<Rightarrow> 'x msg_cnt \<Rightarrow> 'x msg_cnt" where
  "pushDSiteVal s m = m_pushVal (FT_SITE s) m"

definition pushADC :: "'x \<Rightarrow> 'x msg_cnt \<Rightarrow> 'x msg_cnt" where
  "pushADC v m = m_pushVal (FT_ADC v) m"

definition pushDctVal :: "DssSimpleDacDct \<Rightarrow> 'x msg_cnt \<Rightarrow> 'x msg_cnt" where
  "pushDctVal v m = m_pushVal (FT_DCT v) m"

text \<open>A container with its message type in front.\<close>

definition new_MsgCnt_type :: "int \<Rightarrow> 'x msg_cnt" where
  "new_MsgCnt_type ty = pushIntVal ty new_MsgCnt"

fun resetCounter :: "'x msg_cnt \<Rightarrow> 'x msg_cnt" where
  "resetCounter (MsgCnt fl su mx fs c sl) = MsgCnt fl su mx fs 0 sl"

definition pushMsgC :: "'x msg_cnt \<Rightarrow> 'x msg_cnt \<Rightarrow> 'x msg_cnt" where
  "pushMsgC v m = m_pushVal (FT_MSGC (resetCounter v)) m"

definition m_isEmpty :: "'x msg_cnt \<Rightarrow> bool" where
  "m_isEmpty m \<longleftrightarrow> a_current m = length (a_fields m)"

text \<open>The field at the read position, and the position moved past it.\<close>

fun m_popVal :: "'x msg_cnt \<Rightarrow> ('x msg_field \<times> 'x msg_cnt) option" where
  "m_popVal (MsgCnt fl su mx fs c sl) =
     (if c < length fs then Some (fs ! c, MsgCnt fl su mx fs (c + 1) sl) else None)"

fun m_popDropVal :: "'x msg_cnt \<Rightarrow> ('x msg_field \<times> 'x msg_cnt) option" where
  "m_popDropVal (MsgCnt fl su mx fs c sl) =
     (if c < length fs then Some (fs ! c, MsgCnt fl su mx (fs[c := FT_NULL]) (c + 1) sl) else None)"

definition popIntVal :: "'x msg_cnt \<Rightarrow> (int \<times> 'x msg_cnt) option" where
  "popIntVal m = (case m_popVal m of Some (FT_NUMBER v, m') \<Rightarrow> Some (v, m') | _ \<Rightarrow> None)"

definition popDSiteVal :: "'x msg_cnt \<Rightarrow> (nat \<times> 'x msg_cnt) option" where
  "popDSiteVal m = (case m_popVal m of Some (FT_SITE s, m') \<Rightarrow> Some (s, m') | _ \<Rightarrow> None)"

definition popADC :: "'x msg_cnt \<Rightarrow> ('x \<times> 'x msg_cnt) option" where
  "popADC m = (case m_popVal m of Some (FT_ADC v, m') \<Rightarrow> Some (v, m') | _ \<Rightarrow> None)"

definition popDctVal :: "'x msg_cnt \<Rightarrow> (DssSimpleDacDct \<times> 'x msg_cnt) option" where
  "popDctVal m = (case m_popVal m of Some (FT_DCT v, m') \<Rightarrow> Some (v, m') | _ \<Rightarrow> None)"

definition popMsgC :: "'x msg_cnt \<Rightarrow> ('x msg_cnt \<times> 'x msg_cnt) option" where
  "popMsgC m = (case m_popVal m of Some (FT_MSGC v, m') \<Rightarrow> Some (v, m') | _ \<Rightarrow> None)"

definition peekMslMessageType :: "'x msg_cnt \<Rightarrow> int option" where
  "peekMslMessageType m = (case a_fields m of FT_NUMBER v # _ \<Rightarrow> Some v | _ \<Rightarrow> None)"

text \<open>
  \<^verbatim>\<open>reincarnate\<close> moves every field into a fresh container and leaves null pointers behind. The
  loop runs over the fields from the read position on, which it first resets.
\<close>

function reincarnate_loop :: "'x msg_cnt \<Rightarrow> 'x msg_cnt \<Rightarrow> 'x msg_cnt \<times> 'x msg_cnt" where
  "reincarnate_loop old new =
     (if m_isEmpty old then (old, new)
      else case m_popDropVal old of None \<Rightarrow> (old, new)
        | Some (v, old') \<Rightarrow> reincarnate_loop old' (m_pushVal v new))"
  by auto
termination
  by (relation "measure (\<lambda>(old, new). length (a_fields old) - a_current old)")
    (auto elim!: m_popDropVal.elims split: if_splits)

definition reincarnate :: "'x msg_cnt \<Rightarrow> 'x msg_cnt \<times> 'x msg_cnt" where
  "reincarnate m = reincarnate_loop (resetCounter m) new_MsgCnt"

text \<open>
  \<^verbatim>\<open>resetMarshaling\<close> starts the transfer of a message again, through every data area and message
  inside it. What it asks of the engine's data containers has no effect on the container itself.
\<close>

definition dct_resetMarshaling :: "DssSimpleDacDct \<Rightarrow> DssSimpleDacDct" where
  "dct_resetMarshaling d =
     (if dct_mode d = DSDD_WRITE then d\<lparr>dct_pos := 0\<rparr>
      else d\<lparr>dct_buf := [], dct_pos := 0, dct_size := 0\<rparr>)"

fun resetMarshaling :: "'x msg_cnt \<Rightarrow> 'x msg_cnt"
  and resetMarshaling_field :: "'x msg_field \<Rightarrow> 'x msg_field" where
  "resetMarshaling (MsgCnt fl su mx fs c sl) =
     (if fl = MSG_HAS_MARSHALCONT then MsgCnt MSG_CLEAR False mx (map resetMarshaling_field fs) 0 sl
      else MsgCnt fl su mx fs 0 sl)"
| "resetMarshaling_field (FT_MSGC m) = FT_MSGC (resetMarshaling m)"
| "resetMarshaling_field (FT_DCT d) = FT_DCT (dct_resetMarshaling d)"
| "resetMarshaling_field f = f"

section \<open>A container is a queue of fields\<close>

definition unread :: "'x msg_cnt \<Rightarrow> 'x msg_field list" where
  "unread m = drop (a_current m) (a_fields m)"

lemma unread_new [simp]: "unread new_MsgCnt = []" "checkCounters new_MsgCnt"
  by (auto simp: unread_def new_MsgCnt_def checkCounters_def INITIAL_SIZE_def)

lemma checkSize_simps [simp]:
  "a_fields (checkSize m) = a_fields m" "a_current (checkSize m) = a_current m"
  by (cases m; simp)+

lemma pushVal_fields [simp]:
  "a_fields (m_pushVal v m) = a_fields m @ [v]" "a_current (m_pushVal v m) = a_current m"
  by (cases m; simp add: m_pushVal_def)+

lemma pushVal_counters:
  "checkCounters m \<Longrightarrow> 0 < a_max_fields m \<Longrightarrow>
   checkCounters (m_pushVal v m) \<and> a_max_fields m \<le> a_max_fields (m_pushVal v m)"
  by (cases m) (auto simp: checkCounters_def m_pushVal_def)

lemma unread_push: "checkCounters m \<Longrightarrow> unread (m_pushVal v m) = unread m @ [v]"
  by (simp add: unread_def checkCounters_def)

lemma popVal_unread:
  "m_popVal m = (case unread m of [] \<Rightarrow> None
     | v # vs \<Rightarrow> Some (v, MsgCnt (a_flag m) (a_suspf m) (a_max_fields m) (a_fields m) (a_current m + 1) (a_slot m)))"
  by (cases m) (auto simp: unread_def Cons_nth_drop_Suc[symmetric] split: list.split)

lemma popVal_Cons:
  assumes "unread m = v # vs"
  obtains m' where "m_popVal m = Some (v, m')" "unread m' = vs" "checkCounters m \<Longrightarrow> checkCounters m'"
  using assms that[of "MsgCnt (a_flag m) (a_suspf m) (a_max_fields m) (a_fields m) (a_current m + 1) (a_slot m)"]
  by (cases "a_current m < length (a_fields m)")
    (auto simp: popVal_unread unread_def checkCounters_def Cons_nth_drop_Suc[symmetric])

lemma isEmpty_unread: "checkCounters m \<Longrightarrow> m_isEmpty m \<longleftrightarrow> unread m = []"
  by (auto simp: m_isEmpty_def unread_def checkCounters_def)

lemma reincarnate_loop_fields:
  "checkCounters old \<Longrightarrow> checkCounters new \<Longrightarrow> 0 < a_max_fields new \<Longrightarrow>
   (case reincarnate_loop old new of (old', new') \<Rightarrow>
      m_isEmpty old' \<and> a_fields new' = a_fields new @ unread old \<and> a_current new' = a_current new \<and>
      checkCounters new')"
proof (induction old new rule: reincarnate_loop.induct)
  case (1 old new)
  show ?case
  proof (cases "m_isEmpty old")
    case True
    then show ?thesis using 1 by (simp add: isEmpty_unread)
  next
    case False
    obtain fl su mx fs c sl where old: "old = MsgCnt fl su mx fs c sl" by (cases old)
    define old' where "old' = MsgCnt fl su mx (fs[c := FT_NULL]) (c + 1) sl"
    have c: "c < length fs" using False "1.prems"(1) by (auto simp: old m_isEmpty_def checkCounters_def)
    then have pop: "m_popDropVal old = Some (fs ! c, old')" by (simp add: old old'_def)
    have un: "unread old = fs ! c # unread old'"
      using c by (simp add: old old'_def unread_def Cons_nth_drop_Suc[symmetric])
    have "checkCounters old'" using "1.prems"(1) c by (simp add: old old'_def checkCounters_def)
    then have "case reincarnate_loop old' (m_pushVal (fs ! c) new) of (o', n') \<Rightarrow>
        m_isEmpty o' \<and> a_fields n' = a_fields new @ unread old \<and> a_current n' = a_current new \<and> checkCounters n'"
      using "1.IH"[OF False pop refl] pushVal_counters[OF "1.prems"(2,3), of "fs ! c"] "1.prems"(3) un
      by (auto split: prod.splits)
    then show ?thesis using False pop by (subst reincarnate_loop.simps) simp
  qed
qed

end
