(* ===== verification/WeightedRefs.thy ===== *)
theory WeightedRefs
  imports FracHandler MsgContainer
begin

text \<open>
  Weighted reference counting (\<^verbatim>\<open>WRC_Home\<close> and \<^verbatim>\<open>WRC_Remote\<close> of
  \<^verbatim>\<open>platform/dss/src/dgc_fwrc.cc\<close>) and the system its sites form. The home site of an entity and
  every site that holds a reference to it keep a weight; a reference in transit carries one; a
  remote site that drops its reference sends its weight home in a control message. The home
  reference stays a root of the garbage collector as long as its weight is not empty.

  Messages between sites are delivered in any order: references and control messages in transit
  are multisets. A reference that is sent to the home site carries no weight
  (\<^verbatim>\<open>ProxyStationary::m_getReferenceInfo\<close>), so references travel to the other sites only.
\<close>

section \<open>The algorithm objects\<close>

definition RC_ALG_WRC :: int where
  "RC_ALG_WRC = 2"

definition WRC_Home :: "int \<Rightarrow> FracHandler" where
  "WRC_Home alpha = FracHandler3 MAXENUMERATOR 1 alpha"

definition WRC_Home_isRoot :: "FracHandler \<Rightarrow> bool" where
  "WRC_Home_isRoot h \<longleftrightarrow> frac_list h \<noteq> []"

text \<open>\<^verbatim>\<open>m_getReferenceInfo\<close>, the same code at home and remotely: the pair that goes into the buffer.\<close>

definition m_getReferenceInfo :: "FracHandler \<Rightarrow> FracHandler \<times> int \<times> int" where
  "m_getReferenceInfo h = getNewRefWeightPair h"

lemma popIntVal_Some:
  "popIntVal m = Some (v, m') \<Longrightarrow> a_fields m' = a_fields m \<and> a_current m' = Suc (a_current m) \<and>
     a_current m < length (a_fields m)"
  by (cases m) (auto simp: popIntVal_def split: msg_field.splits if_splits)

text \<open>The loop pops at least one pair; a message that runs out inside a pair has no result.\<close>

function getCtlMsg_loop :: "FracHandler \<Rightarrow> 'x msg_cnt \<Rightarrow> FracHandler option" where
  "getCtlMsg_loop h msg =
     (case popIntVal msg of None \<Rightarrow> None
      | Some (e, m1) \<Rightarrow> (case popIntVal m1 of None \<Rightarrow> None
        | Some (d, m2) \<Rightarrow>
            (let h' = h\<lparr>frac_list := insertPair e d (frac_list h)\<rparr> in
             if m_isEmpty m2 then Some h' else getCtlMsg_loop h' m2)))"
  by auto

termination
  by (relation "measure (\<lambda>(h, m). length (a_fields m) - a_current m)")
    (auto dest!: popIntVal_Some)

declare getCtlMsg_loop.simps [simp del]

definition WRC_Home_getCtlMsg :: "FracHandler \<Rightarrow> 'x msg_cnt \<Rightarrow> FracHandler option" where
  "WRC_Home_getCtlMsg h msg = getCtlMsg_loop h msg"

definition WRC_Remote :: "int \<Rightarrow> int \<Rightarrow> int \<Rightarrow> FracHandler" where
  "WRC_Remote e d alpha = Frac_init e d (new_FracHandler alpha)"

definition WRC_Remote_isRoot :: "FracHandler \<Rightarrow> bool" where
  "WRC_Remote_isRoot h \<longleftrightarrow> False"

definition m_mergeReferenceInfo :: "FracHandler \<Rightarrow> int \<Rightarrow> int \<Rightarrow> FracHandler" where
  "m_mergeReferenceInfo h e d = h\<lparr>frac_list := insertPair e d (frac_list h)\<rparr>"

function dropReference_loop :: "FracHandler \<Rightarrow> 'x msg_cnt \<Rightarrow> FracHandler \<times> 'x msg_cnt" where
  "dropReference_loop h msgC =
     (case removeHead (frac_list h) of None \<Rightarrow> (h, msgC)
      | Some ((e, d), rest) \<Rightarrow>
          dropReference_loop (h\<lparr>frac_list := rest\<rparr>) (pushIntVal d (pushIntVal e msgC)))"
  by auto
termination
  by (relation "measure (\<lambda>(h, m). length (frac_list h))")
    (auto simp: removeHead_def split: list.splits)

declare dropReference_loop.simps [simp del]

text \<open>
  \<^verbatim>\<open>m_createHomeMsg\<close> puts the name of the algorithm first, and \<^verbatim>\<open>Reference::m_msgToGcAlg\<close> at the home
  site takes it out again to find the algorithm the message is for.
\<close>

definition m_createHomeMsg :: "'x msg_cnt" where
  "m_createHomeMsg = pushIntVal RC_ALG_WRC new_MsgCnt"

definition m_dropReference :: "FracHandler \<Rightarrow> 'x msg_cnt" where
  "m_dropReference h = snd (dropReference_loop h m_createHomeMsg)"

definition m_msgToGcAlg :: "FracHandler \<Rightarrow> 'x msg_cnt \<Rightarrow> FracHandler option" where
  "m_msgToGcAlg h msgC =
     (case popIntVal msgC of Some (ty, m) \<Rightarrow>
        if ty = RC_ALG_WRC then WRC_Home_getCtlMsg h m else None
      | None \<Rightarrow> None)"

section \<open>What the messages do\<close>

fun pair_fields :: "weight \<Rightarrow> 'x msg_field list" where
  "pair_fields [] = []"
| "pair_fields ((e, d) # xs) = FT_NUMBER e # FT_NUMBER d # pair_fields xs"

lemma pair_fields_append [simp]: "pair_fields (xs @ ys) = pair_fields xs @ pair_fields ys"
  by (induction xs rule: pair_fields.induct) auto

lemma dropReference_loop_fields:
  "checkCounters m \<Longrightarrow> 0 < a_max_fields m \<Longrightarrow>
   checkCounters (snd (dropReference_loop h m)) \<and>
   unread (snd (dropReference_loop h m)) = unread m @ pair_fields (frac_list h)"
proof (induction h m rule: dropReference_loop.induct)
  case (1 h m)
  show ?case
  proof (cases "frac_list h")
    case Nil
    then show ?thesis using 1 by (simp add: dropReference_loop.simps[of h m] removeHead_def)
  next
    case (Cons p rest)
    obtain e d where p: "p = (e, d)" by (cases p)
    have ok: "checkCounters (m_pushVal (FT_NUMBER e) m)" "0 < a_max_fields (m_pushVal (FT_NUMBER e) m)"
      using pushVal_counters[OF "1.prems", of "FT_NUMBER e"] "1.prems" by auto
    have "checkCounters (pushIntVal d (pushIntVal e m))" "0 < a_max_fields (pushIntVal d (pushIntVal e m))"
      "unread (pushIntVal d (pushIntVal e m)) = unread m @ [FT_NUMBER e, FT_NUMBER d]"
      using pushVal_counters[OF ok, of "FT_NUMBER d"] unread_push[OF ok(1)] unread_push[OF "1.prems"(1)] ok
      by (auto simp: pushIntVal_def)
    then show ?thesis
      using "1.IH"[of "((e, d), rest)" "(e, d)" rest e d] Cons p
      by (simp add: dropReference_loop.simps[of h m] removeHead_def)
  qed
qed

lemma dropReference_fields:
  shows "checkCounters (m_dropReference h :: 'x msg_cnt)"
    and "unread (m_dropReference h :: 'x msg_cnt) = FT_NUMBER RC_ALG_WRC # pair_fields (frac_list h)"
proof -
  let ?m = "m_createHomeMsg :: 'x msg_cnt"
  have "checkCounters ?m" "0 < a_max_fields ?m" "unread ?m = [FT_NUMBER RC_ALG_WRC]"
    by (simp_all add: m_createHomeMsg_def pushIntVal_def new_MsgCnt_def INITIAL_SIZE_def m_pushVal_def
        checkCounters_def unread_def)
  from dropReference_loop_fields[OF this(1,2), of h] this(3)
  show "checkCounters (m_dropReference h :: 'x msg_cnt)"
    "unread (m_dropReference h :: 'x msg_cnt) = FT_NUMBER RC_ALG_WRC # pair_fields (frac_list h)"
    by (simp_all add: m_dropReference_def)
qed

definition insertPairs :: "weight \<Rightarrow> weight \<Rightarrow> weight" where
  "insertPairs xs w = fold (\<lambda>(e, d). insertPair e d) xs w"

lemma popIntVal_Cons:
  assumes "unread m = FT_NUMBER v # vs"
  obtains m' where "popIntVal m = Some (v, m')" "unread m' = vs" "checkCounters m \<Longrightarrow> checkCounters m'"
proof -
  obtain m' where "m_popVal m = Some (FT_NUMBER v, m')" "unread m' = vs" "checkCounters m \<Longrightarrow> checkCounters m'"
    using popVal_Cons[OF assms] by blast
  then show thesis using that[of m'] by (simp add: popIntVal_def)
qed

lemma getCtlMsg_loop_pairs:
  "checkCounters m \<Longrightarrow> unread m = pair_fields xs \<Longrightarrow> xs \<noteq> [] \<Longrightarrow>
   getCtlMsg_loop h m = Some (h\<lparr>frac_list := insertPairs xs (frac_list h)\<rparr>)"
proof (induction xs arbitrary: h m rule: pair_fields.induct)
  case (2 e d xs)
  obtain m1 where m1: "popIntVal m = Some (e, m1)" "unread m1 = FT_NUMBER d # pair_fields xs" "checkCounters m1"
    using popIntVal_Cons[of m e "FT_NUMBER d # pair_fields xs"] "2.prems" by auto
  obtain m2 where m2: "popIntVal m1 = Some (d, m2)" "unread m2 = pair_fields xs" "checkCounters m2"
    using popIntVal_Cons[OF m1(2)] m1(3) by auto
  have "m_isEmpty m2 \<longleftrightarrow> xs = []"
    using isEmpty_unread[OF m2(3)] m2(2) by (cases xs) auto
  then show ?case
    using "2.IH"[OF m2(3,2)] m1(1) m2(1) getCtlMsg_loop.simps[of h m]
    by (auto simp: insertPairs_def Let_def)
qed simp

lemma msgToGcAlg_drop:
  assumes "frac_list r \<noteq> []"
  shows "m_msgToGcAlg h (m_dropReference r :: 'x msg_cnt) =
    Some (h\<lparr>frac_list := insertPairs (frac_list r) (frac_list h)\<rparr>)"
proof -
  note f = dropReference_fields[of r, where 'x = 'x]
  obtain m' :: "'x msg_cnt" where m': "popIntVal (m_dropReference r) = Some (RC_ALG_WRC, m')"
    "unread m' = pair_fields (frac_list r)" "checkCounters m'"
    using popIntVal_Cons[OF f(2)] f(1) by metis
  then show ?thesis
    using getCtlMsg_loop_pairs[OF m'(3,2) assms] by (simp add: m_msgToGcAlg_def WRC_Home_getCtlMsg_def)
qed

lemma insertPairs_weight:
  assumes "digits_from 0 w" "\<And>p. p \<in> set xs \<Longrightarrow> pair_ok p" "weight_of w + weight_of xs \<le> 1" "xs \<noteq> []"
  shows "digits_from 0 (insertPairs xs w) \<and>
    weight_of (insertPairs xs w) = (if weight_of w + weight_of xs = 1 then 0 else weight_of w + weight_of xs)"
  using assms
proof (induction xs arbitrary: w)
  case (Cons p xs)
  obtain e d where p: "p = (e, d)" by (cases p)
  define w' where "w' = insertPair e d w"
  have ok: "pair_ok (e, d)" "\<And>q. q \<in> set xs \<Longrightarrow> pair_ok q" using Cons.prems(2) p by auto
  have "weight_of w + pair_weight (e, d) \<le> 1"
    using Cons.prems(3) weight_nonneg[of xs] ok(2) p by simp
  note ins = insertPair_weight[OF Cons.prems(1) ok(1) this, folded w'_def]
  have split: "insertPairs (p # xs) w = insertPairs xs w'" by (simp add: insertPairs_def p w'_def)
  show ?case
  proof (cases "xs = []")
    case True
    then have "insertPairs (p # xs) w = w'" by (simp add: insertPairs_def p w'_def)
    then show ?thesis using ins True p by simp
  next
    case False
    then have "weight_of w + pair_weight (e, d) \<noteq> 1"
      using Cons.prems(3) weight_pos[OF ok(2) False] p by simp
    then have "weight_of w' = weight_of w + pair_weight (e, d)" using ins(2) by simp
    then show ?thesis
      unfolding split using Cons.IH[OF ins(1) ok(2) _ False] Cons.prems(3) by (simp add: p algebra_simps)
  qed
qed simp

section \<open>The sites and the network\<close>

type_synonym site = nat

record wrc_system =
  home :: FracHandler
  remotes :: "site \<Rightarrow> FracHandler option"
  refs :: "(site \<times> int \<times> int) multiset"
  ctls :: "unit msg_cnt multiset"

definition wrc_init :: "int \<Rightarrow> wrc_system" where
  "wrc_init alpha = \<lparr>home = WRC_Home alpha, remotes = (\<lambda>_. None), refs = {#}, ctls = {#}\<rparr>"

text \<open>
  One step of the system: a reference leaves the home site or a remote site, arrives at a site
  that knows the entity or does not, a remote site drops its reference, a control message arrives
  at home, or a site changes its divisor. \<^verbatim>\<open>setAlpha\<close> takes every positive divisor; the steps
  are those with a divisor above one, and \<open>wrc_alpha_one_leaks\<close> below shows what one does.
\<close>

inductive wrc_collect :: "wrc_system \<Rightarrow> wrc_system \<Rightarrow> bool" where
  receive_new: "(i, e, d) \<in># refs s \<Longrightarrow> remotes s i = None \<Longrightarrow> 2 \<le> alpha \<Longrightarrow>
    wrc_collect s (s\<lparr>remotes := (remotes s)(i \<mapsto> WRC_Remote e d alpha), refs := refs s - {#(i, e, d)#}\<rparr>)"
| receive_merge: "(i, e, d) \<in># refs s \<Longrightarrow> remotes s i = Some r \<Longrightarrow>
    wrc_collect s (s\<lparr>remotes := (remotes s)(i \<mapsto> m_mergeReferenceInfo r e d), refs := refs s - {#(i, e, d)#}\<rparr>)"
| drop_ref: "remotes s i = Some r \<Longrightarrow>
    wrc_collect s (s\<lparr>remotes := (remotes s)(i := None), ctls := add_mset (m_dropReference r) (ctls s)\<rparr>)"
| deliver: "m \<in># ctls s \<Longrightarrow> m_msgToGcAlg (home s) m = Some h' \<Longrightarrow>
    wrc_collect s (s\<lparr>home := h', ctls := ctls s - {#m#}\<rparr>)"

inductive wrc_step :: "wrc_system \<Rightarrow> wrc_system \<Rightarrow> bool" where
  collect: "wrc_collect s t \<Longrightarrow> wrc_step s t"
| home_send: "m_getReferenceInfo (home s) = (h', e, d) \<Longrightarrow>
    wrc_step s (s\<lparr>home := h', refs := add_mset (i, e, d) (refs s)\<rparr>)"
| remote_send: "remotes s j = Some r \<Longrightarrow> m_getReferenceInfo r = (r', e, d) \<Longrightarrow>
    wrc_step s (s\<lparr>remotes := (remotes s)(j \<mapsto> r'), refs := add_mset (i, e, d) (refs s)\<rparr>)"
| home_alpha: "2 \<le> val \<Longrightarrow> wrc_step s (s\<lparr>home := snd (setAlpha val (home s))\<rparr>)"
| remote_alpha: "remotes s j = Some r \<Longrightarrow> 2 \<le> val \<Longrightarrow>
    wrc_step s (s\<lparr>remotes := (remotes s)(j \<mapsto> snd (setAlpha val r))\<rparr>)"

inductive wrc_reachable :: "wrc_system \<Rightarrow> bool" where
  wrc_start: "2 \<le> alpha \<Longrightarrow> wrc_reachable (wrc_init alpha)"
| wrc_next: "wrc_reachable s \<Longrightarrow> wrc_step s t \<Longrightarrow> wrc_reachable t"

section \<open>The invariant: no weight is lost and none is made\<close>

text \<open>
  The weight that is not at home: in the remote references, in the references in transit and in
  the control messages. A control message is the one a remote reference with this weight sent.
\<close>

definition ref_weight :: "FracHandler option \<Rightarrow> rat" where
  "ref_weight r = (case r of None \<Rightarrow> 0 | Some h \<Rightarrow> weight_of (frac_list h))"

fun pairs_in :: "'x msg_field list \<Rightarrow> weight" where
  "pairs_in (FT_NUMBER e # FT_NUMBER d # fs) = (e, d) # pairs_in fs"
| "pairs_in _ = []"

definition msg_weight :: "'x msg_cnt \<Rightarrow> rat" where
  "msg_weight m = weight_of (pairs_in (tl (unread m)))"

definition outstanding :: "wrc_system \<Rightarrow> rat" where
  "outstanding s = (\<Sum>i\<in>dom (remotes s). ref_weight (remotes s i))
     + (\<Sum>(i, e, d)\<in>#refs s. pair_weight (e, d)) + (\<Sum>m\<in>#ctls s. msg_weight m)"

definition weight_ok :: "FracHandler \<Rightarrow> bool" where
  "weight_ok h \<longleftrightarrow> digits_from 0 (frac_list h) \<and> frac_list h \<noteq> [] \<and> 2 \<le> wrc_alpha h"

definition wrc_inv :: "wrc_system \<Rightarrow> bool" where
  "wrc_inv s \<longleftrightarrow> finite (dom (remotes s)) \<and> 2 \<le> wrc_alpha (home s) \<and>
     (\<forall>i r. remotes s i = Some r \<longrightarrow> weight_ok r) \<and>
     (\<forall>i e d. (i, e, d) \<in># refs s \<longrightarrow> pair_ok (e, d)) \<and>
     (\<forall>m \<in># ctls s. \<exists>r. weight_ok r \<and> m = m_dropReference r) \<and>
     (outstanding s = 0 \<and> frac_list (home s) \<in> {whole, []} \<or>
      digits_from 0 (frac_list (home s)) \<and> frac_list (home s) \<noteq> [] \<and>
      weight_of (frac_list (home s)) + outstanding s = 1)"

lemma pairs_in_pair_fields [simp]: "pairs_in (pair_fields xs) = xs"
  by (induction xs rule: pair_fields.induct) auto

lemma msg_weight_drop [simp]: "msg_weight (m_dropReference r) = weight_of (frac_list r)"
  by (simp add: msg_weight_def dropReference_fields)

lemma weight_ok_pos: "weight_ok h \<Longrightarrow> 0 < weight_of (frac_list h)"
  by (auto simp: weight_ok_def intro!: weight_pos digits_pair_ok)

lemma sum_mset_pos: "(\<And>x. x \<in># M \<Longrightarrow> (0::rat) < f x) \<Longrightarrow> 0 \<le> sum_mset (image_mset f M) \<and> (M \<noteq> {#} \<longrightarrow> 0 < sum_mset (image_mset f M))"
proof (induction M)
  case (add x M)
  then show ?case by (cases "M = {#}") (auto intro: add_pos_pos add_nonneg_nonneg less_imp_le)
qed simp

text \<open>Everything outstanding has a positive weight.\<close>

definition quiescent :: "wrc_system \<Rightarrow> bool" where
  "quiescent s \<longleftrightarrow> remotes s = (\<lambda>_. None) \<and> refs s = {#} \<and> ctls s = {#}"

lemma outstanding_parts:
  assumes "wrc_inv s"
  shows "0 \<le> (\<Sum>i\<in>dom (remotes s). ref_weight (remotes s i))"
    "0 \<le> (\<Sum>(i, e, d)\<in>#refs s. pair_weight (e, d))" "0 \<le> (\<Sum>m\<in>#ctls s. msg_weight m)"
    "dom (remotes s) \<noteq> {} \<Longrightarrow> 0 < (\<Sum>i\<in>dom (remotes s). ref_weight (remotes s i))"
    "refs s \<noteq> {#} \<Longrightarrow> 0 < (\<Sum>(i, e, d)\<in>#refs s. pair_weight (e, d))"
    "ctls s \<noteq> {#} \<Longrightarrow> 0 < (\<Sum>m\<in>#ctls s. msg_weight m)"
proof -
  have r: "0 < ref_weight (remotes s i)" if "i \<in> dom (remotes s)" for i
    using that assms weight_ok_pos by (auto simp: wrc_inv_def ref_weight_def)
  then show "0 \<le> (\<Sum>i\<in>dom (remotes s). ref_weight (remotes s i))"
    by (intro sum_nonneg) (auto intro: less_imp_le)
  show "dom (remotes s) \<noteq> {} \<Longrightarrow> 0 < (\<Sum>i\<in>dom (remotes s). ref_weight (remotes s i))"
    using r assms by (intro sum_pos) (auto simp: wrc_inv_def)
  have "0 < (case p of (i, e, d) \<Rightarrow> pair_weight (e, d))" if "p \<in># refs s" for p
    using that assms pair_weight_pos by (cases p) (auto simp: wrc_inv_def)
  from sum_mset_pos[of "refs s" "\<lambda>(i, e, d). pair_weight (e, d)", OF this]
  show "0 \<le> (\<Sum>(i, e, d)\<in>#refs s. pair_weight (e, d))"
    "refs s \<noteq> {#} \<Longrightarrow> 0 < (\<Sum>(i, e, d)\<in>#refs s. pair_weight (e, d))" by auto
  have "0 < msg_weight m" if "m \<in># ctls s" for m
    using that assms weight_ok_pos by (auto simp: wrc_inv_def)
  from sum_mset_pos[of "ctls s" msg_weight, OF this]
  show "0 \<le> (\<Sum>m\<in>#ctls s. msg_weight m)"
    "ctls s \<noteq> {#} \<Longrightarrow> 0 < (\<Sum>m\<in>#ctls s. msg_weight m)" by auto
qed

lemma outstanding_zero:
  assumes inv: "wrc_inv s"
  shows "0 \<le> outstanding s \<and> (outstanding s = 0 \<longleftrightarrow> quiescent s)"
proof -
  note p = outstanding_parts[OF inv]
  have "outstanding s = 0" if "quiescent s" using that by (simp add: quiescent_def outstanding_def)
  moreover have "0 < outstanding s" if busy: "\<not> quiescent s"
  proof -
    consider "dom (remotes s) \<noteq> {}" | "refs s \<noteq> {#}" | "ctls s \<noteq> {#}"
      using busy by (cases "dom (remotes s) = {}") (auto simp: quiescent_def)
    then show ?thesis
      using p unfolding outstanding_def
      by cases (auto intro: add_pos_nonneg add_nonneg_pos add_nonneg_nonneg)
  qed
  ultimately show ?thesis using p(1,2,3) by (force simp: outstanding_def)
qed

text \<open>How an update of one remote reference changes the sum.\<close>

lemma remote_sum_upd:
  assumes "finite (dom f)"
  shows "(\<Sum>j\<in>dom (f(i := x)). ref_weight ((f(i := x)) j))
    = (\<Sum>j\<in>dom f. ref_weight (f j)) - ref_weight (f i) + ref_weight x"
proof -
  have fin: "finite (insert i (dom f))" using assms by simp
  have all: "(\<Sum>j\<in>dom g. ref_weight (g j)) = (\<Sum>j\<in>insert i (dom f). ref_weight (g j))"
    if "dom g \<subseteq> insert i (dom f)" for g
    using that by (intro sum.mono_neutral_left[OF fin]) (auto simp: ref_weight_def split: option.split)
  have "dom (f(i := x)) \<subseteq> insert i (dom f)" by (auto split: if_splits)
  moreover have "(\<Sum>j\<in>insert i (dom f) - {i}. ref_weight ((f(i := x)) j))
      = (\<Sum>j\<in>insert i (dom f) - {i}. ref_weight (f j))" by (rule sum.cong) auto
  ultimately show ?thesis
    using all[of f, OF subset_insertI] all[of "f(i := x)"] sum.remove[OF fin, of i "\<lambda>j. ref_weight (f j)"]
      sum.remove[OF fin, of i "\<lambda>j. ref_weight ((f(i := x)) j)"] by auto
qed

lemma remote_weight_le:
  assumes "wrc_inv s" "remotes s i = Some r"
  shows "weight_of (frac_list r) \<le> (\<Sum>j\<in>dom (remotes s). ref_weight (remotes s j))"
proof -
  have nn: "0 \<le> ref_weight (remotes s j)" for j
    using assms(1) weight_ok_pos[THEN less_imp_le]
    by (cases "remotes s j") (auto simp: wrc_inv_def ref_weight_def)
  have "ref_weight (remotes s i) \<le> (\<Sum>j\<in>dom (remotes s). ref_weight (remotes s j))"
    by (rule member_le_sum) (use nn assms in \<open>auto simp: wrc_inv_def\<close>)
  then show ?thesis using assms(2) by (simp add: ref_weight_def)
qed

text \<open>Something is outstanding: then the home has the rest of the weight.\<close>

lemma wrc_inv_busy:
  assumes "wrc_inv s" "\<not> quiescent s"
  shows "digits_from 0 (frac_list (home s))" "frac_list (home s) \<noteq> []"
    "weight_of (frac_list (home s)) + outstanding s = 1" "outstanding s < 1"
proof -
  show *: "digits_from 0 (frac_list (home s))" "frac_list (home s) \<noteq> []"
    "weight_of (frac_list (home s)) + outstanding s = 1"
    using assms outstanding_zero[OF assms(1)] by (auto simp: wrc_inv_def)
  have "0 < weight_of (frac_list (home s))"
    using *(2) digits_weight_bounds[OF *(1)] by linarith
  then show "outstanding s < 1" using *(3) by linarith
qed

text \<open>Moves of weight that leave the home reference alone.\<close>

lemma wrc_inv_move:
  assumes "wrc_inv s" "home t = home s" "outstanding t = outstanding s"
    "finite (dom (remotes t))" "\<forall>i r. remotes t i = Some r \<longrightarrow> weight_ok r"
    "\<forall>i e d. (i, e, d) \<in># refs t \<longrightarrow> pair_ok (e, d)"
    "\<forall>m \<in># ctls t. \<exists>r. weight_ok r \<and> m = m_dropReference r"
  shows "wrc_inv t"
  using assms unfolding wrc_inv_def by simp

lemma receive_outstanding:
  assumes "finite (dom (remotes s))" "(i, e, d) \<in># refs s"
    "ref_weight (Some r) = ref_weight (remotes s i) + pair_weight (e, d)"
  shows "outstanding (s\<lparr>remotes := (remotes s)(i \<mapsto> r), refs := refs s - {#(i, e, d)#}\<rparr>) = outstanding s"
proof -
  obtain R where R: "refs s = add_mset (i, e, d) R" using assms(2) by (metis multi_member_split)
  show ?thesis
    using remote_sum_upd[OF assms(1), of i "Some r"] assms(3) by (simp add: outstanding_def R)
qed

lemma wrc_receive_inv:
  assumes "wrc_inv s" "(i, e, d) \<in># refs s"
    "ref_weight (Some r) = ref_weight (remotes s i) + pair_weight (e, d)" "weight_ok r"
  shows "wrc_inv (s\<lparr>remotes := (remotes s)(i \<mapsto> r), refs := refs s - {#(i, e, d)#}\<rparr>)"
proof (rule wrc_inv_move[OF assms(1)])
  show "outstanding (s\<lparr>remotes := (remotes s)(i \<mapsto> r), refs := refs s - {#(i, e, d)#}\<rparr>) = outstanding s"
    by (rule receive_outstanding) (use assms in \<open>auto simp: wrc_inv_def\<close>)
qed (use assms in \<open>auto simp: wrc_inv_def dest: in_diffD\<close>)

text \<open>A reference that arrives at a site that has one: the sum stays below one, nothing is dropped.\<close>

lemma wrc_merge_inv:
  assumes inv: "wrc_inv s" and ref: "(i, e, d) \<in># refs s" and rem: "remotes s i = Some r"
  shows "wrc_inv (s\<lparr>remotes := (remotes s)(i \<mapsto> m_mergeReferenceInfo r e d), refs := refs s - {#(i, e, d)#}\<rparr>)"
proof -
  have ok: "pair_ok (e, d)" "weight_ok r" using assms by (auto simp: wrc_inv_def)
  have busy: "\<not> quiescent s" using ref by (auto simp: quiescent_def)
  obtain R where R: "refs s = add_mset (i, e, d) R" using ref by (metis multi_member_split)
  have "0 \<le> (\<Sum>(i, e, d)\<in>#R. pair_weight (e, d))"
    using sum_mset_pos[of R "\<lambda>(i, e, d). pair_weight (e, d)"] pair_weight_pos inv
    by (force simp: R wrc_inv_def)
  then have "weight_of (frac_list r) + pair_weight (e, d) \<le> outstanding s"
    using remote_weight_le[OF inv rem] outstanding_parts(3)[OF inv] by (simp add: outstanding_def R)
  then have less: "weight_of (frac_list r) + pair_weight (e, d) < 1"
    using wrc_inv_busy(4)[OF inv busy] by simp
  have "weight_of (insertPair e d (frac_list r)) = weight_of (frac_list r) + pair_weight (e, d)"
    "digits_from 0 (insertPair e d (frac_list r))"
    using insertPair_weight[of "frac_list r" e d] ok less by (auto simp: weight_ok_def)
  moreover from this have "insertPair e d (frac_list r) \<noteq> []"
    using pair_weight_pos[OF ok(1)] weight_ok_pos[OF ok(2)] by auto
  ultimately show ?thesis
    using assms ok
    by (intro wrc_receive_inv) (auto simp: ref_weight_def m_mergeReferenceInfo_def weight_ok_def)
qed

text \<open>A control message that arrives at home: its weight is added, and the last one empties the list.\<close>

lemma wrc_deliver_inv:
  assumes inv: "wrc_inv s" and m: "m \<in># ctls s" and h: "m_msgToGcAlg (home s) m = Some h'"
  shows "wrc_inv (s\<lparr>home := h', ctls := ctls s - {#m#}\<rparr>)" "digits_from 0 (frac_list h')"
proof -
  obtain r where r: "weight_ok r" "m = m_dropReference r" using inv m by (auto simp: wrc_inv_def)
  then have h': "h' = (home s)\<lparr>frac_list := insertPairs (frac_list r) (frac_list (home s))\<rparr>"
    using h msgToGcAlg_drop[of r "home s", where 'x = unit] by (simp add: weight_ok_def)
  obtain C where C: "ctls s = add_mset m C" using m by (metis multi_member_split)
  have busy: "\<not> quiescent s" using m by (auto simp: quiescent_def)
  note b = wrc_inv_busy[OF inv busy]
  define t where "t = s\<lparr>home := h', ctls := ctls s - {#m#}\<rparr>"
  have out: "outstanding s = outstanding t + weight_of (frac_list r)"
    using r by (simp add: outstanding_def t_def C)
  have "0 \<le> (\<Sum>m\<in>#C. msg_weight m)"
    using sum_mset_pos[of C msg_weight] inv weight_ok_pos by (force simp: C wrc_inv_def)
  then have nn: "0 \<le> outstanding t"
    using outstanding_parts(1,2)[OF inv] by (simp add: outstanding_def t_def C)
  have ins: "digits_from 0 (frac_list h')" "weight_of (frac_list h') =
      (if weight_of (frac_list (home s)) + weight_of (frac_list r) = 1 then 0
       else weight_of (frac_list (home s)) + weight_of (frac_list r))"
    using insertPairs_weight[OF b(1), of "frac_list r"] r(1) digits_pair_ok[of 0 "frac_list r"] b(3) out nn
    by (auto simp: h' weight_ok_def)
  have pos: "0 < weight_of (frac_list (home s))" using b(1,2) digits_weight_bounds by (metis le_less)
  have "outstanding t = 0 \<and> frac_list h' = [] \<or> digits_from 0 (frac_list h') \<and> frac_list h' \<noteq> [] \<and>
      weight_of (frac_list h') + outstanding t = 1"
    using ins b(3) out pos weight_ok_pos[OF r(1)] digits_weight_bounds(3)[OF ins(1)] by (auto split: if_splits)
  then have "wrc_inv t" using inv unfolding wrc_inv_def t_def by (auto simp: h' dest: in_diffD)
  then show "wrc_inv (s\<lparr>home := h', ctls := ctls s - {#m#}\<rparr>)" by (simp add: t_def)
  show "digits_from 0 (frac_list h')" by (rule ins(1))
qed

lemma wrc_collect_inv:
  assumes "wrc_collect s t" "wrc_inv s"
  shows "wrc_inv t"
  using assms
proof (induction rule: wrc_collect.induct)
  case (receive_new i e d s alpha)
  have "pair_ok (e, d)" using receive_new by (auto simp: wrc_inv_def)
  then show ?case
    using receive_new
    by (intro wrc_receive_inv)
      (auto simp: ref_weight_def WRC_Remote_def Frac_init_def new_FracHandler_def weight_ok_def pair_ok_def)
next
  case (drop_ref s i r)
  have fin: "finite (dom (remotes s))" using drop_ref by (simp add: wrc_inv_def)
  have "weight_ok r" using drop_ref by (auto simp: wrc_inv_def)
  then show ?case
    using drop_ref remote_sum_upd[OF fin, of i None]
    by (intro wrc_inv_move[OF drop_ref(2)])
      (auto simp: outstanding_def ref_weight_def wrc_inv_def split: if_splits)
qed (auto intro: wrc_merge_inv wrc_deliver_inv)

text \<open>The home gives weight away: the rest, or a whole new weight when nothing is outstanding.\<close>

lemma getReferenceInfo_home:
  assumes "wrc_inv s" "m_getReferenceInfo (home s) = (h', e, d)"
  shows "weight_ok h'" "pair_ok (e, d)" "weight_of (frac_list h') + pair_weight (e, d) + outstanding s = 1"
proof -
  have a: "2 \<le> wrc_alpha (home s)" using assms(1) by (simp add: wrc_inv_def)
  define h where "h = (if frac_list (home s) = [] then Frac_init MAXENUMERATOR 1 (home s) else home s)"
  have h: "digits_from 0 (frac_list h) \<and> frac_list h \<noteq> [] \<or> frac_list h = whole" "2 \<le> wrc_alpha h"
    "weight_of (frac_list h) + outstanding s = 1"
    using assms(1) a
    by (auto simp: wrc_inv_def h_def Frac_init_def whole_def pair_weight_def MAXENUMERATOR_eq)
  have "getNewRefWeightPair h = (h', e, d)"
    using assms(2) by (auto simp: m_getReferenceInfo_def getNewRefWeightPair_def h_def Frac_init_def Let_def)
  from getNewRefWeightPair_splits[OF h(1,2) this] h(2,3)
  show "weight_ok h'" "pair_ok (e, d)" "weight_of (frac_list h') + pair_weight (e, d) + outstanding s = 1"
    by (auto simp: weight_ok_def)
qed

lemma wrc_step_inv:
  assumes "wrc_step s t" "wrc_inv s"
  shows "wrc_inv t"
  using assms
proof (induction rule: wrc_step.induct)
  case (home_send s h' e d i)
  note g = getReferenceInfo_home[OF home_send(2,1)]
  have "outstanding (s\<lparr>home := h', refs := add_mset (i, e, d) (refs s)\<rparr>) = outstanding s + pair_weight (e, d)"
    by (simp add: outstanding_def)
  then show ?case using g home_send(2) by (auto simp: wrc_inv_def weight_ok_def)
next
  case (remote_send s j r r' e d i)
  have r: "weight_ok r" and fin: "finite (dom (remotes s))" using remote_send by (auto simp: wrc_inv_def)
  have g: "weight_ok r'" "pair_ok (e, d)"
    "weight_of (frac_list r') + pair_weight (e, d) = weight_of (frac_list r)"
    using getNewRefWeightPair_splits[of r r' e d] r remote_send(2)
    by (auto simp: weight_ok_def m_getReferenceInfo_def)
  show ?case
    using remote_send g remote_sum_upd[OF fin, of j "Some r'"]
    by (intro wrc_inv_move[OF remote_send(3)])
      (auto simp: outstanding_def ref_weight_def wrc_inv_def split: if_splits)
next
  case (home_alpha val s)
  then show ?case by (simp add: wrc_inv_def setAlpha_def outstanding_def)
next
  case (remote_alpha s j r val)
  have fin: "finite (dom (remotes s))" using remote_alpha by (simp add: wrc_inv_def)
  show ?case
    using remote_alpha remote_sum_upd[OF fin, of j "Some (r\<lparr>wrc_alpha := val\<rparr>)"]
    by (intro wrc_inv_move[OF remote_alpha(3)])
      (auto simp: outstanding_def ref_weight_def wrc_inv_def setAlpha_def weight_ok_def split: if_splits)
qed (rule wrc_collect_inv)

lemma wrc_init_inv: "2 \<le> alpha \<Longrightarrow> wrc_inv (wrc_init alpha)"
  by (simp add: wrc_inv_def wrc_init_def WRC_Home_def FracHandler3_def Frac_init_def new_FracHandler_def
      whole_def outstanding_def)

lemma wrc_reachable_inv: "wrc_reachable s \<Longrightarrow> wrc_inv s"
  by (induction rule: wrc_reachable.induct) (auto intro: wrc_init_inv wrc_step_inv)

section \<open>Collecting comes to an end\<close>

definition wrc_todo :: "wrc_system \<Rightarrow> nat" where
  "wrc_todo s = 3 * size (refs s) + 2 * card (dom (remotes s)) + size (ctls s)"

lemma wrc_collect_todo:
  assumes "wrc_collect s t" "wrc_inv s"
  shows "wrc_todo t < wrc_todo s"
  using assms
proof (induction rule: wrc_collect.induct)
  case (receive_new i e d s alpha)
  then obtain R where "refs s = add_mset (i, e, d) R" by (metis multi_member_split)
  then show ?case using receive_new by (simp add: wrc_todo_def wrc_inv_def domIff)
next
  case (receive_merge i e d s r)
  then obtain R where "refs s = add_mset (i, e, d) R" by (metis multi_member_split)
  moreover have "dom ((remotes s)(i \<mapsto> m_mergeReferenceInfo r e d)) = dom (remotes s)"
    using receive_merge(2) by auto
  ultimately show ?case by (simp add: wrc_todo_def)
next
  case (drop_ref s i r)
  then have "i \<in> dom (remotes s)" "finite (dom (remotes s))" by (auto simp: wrc_inv_def)
  then have "0 < card (dom (remotes s))" "card (dom (remotes s) - {i}) = card (dom (remotes s)) - 1"
    by (auto simp: card_gt_0_iff)
  then show ?case by (simp add: wrc_todo_def)
next
  case (deliver m s h')
  then obtain C where "ctls s = add_mset m C" by (metis multi_member_split)
  then show ?case by (simp add: wrc_todo_def)
qed

lemma wrc_collect_progress:
  assumes "wrc_inv s" "\<not> quiescent s"
  shows "\<exists>t. wrc_collect s t"
proof -
  consider i r where "remotes s i = Some r" | i e d where "(i, e, d) \<in># refs s" | m where "m \<in># ctls s"
    using assms(2) by (fastforce simp: quiescent_def)
  then show ?thesis
  proof cases
    case 1
    then show ?thesis using drop_ref by blast
  next
    case 2
    then show ?thesis using receive_new[of i e d s 2] receive_merge[of i e d s]
      by (cases "remotes s i") auto
  next
    case 3
    then obtain r where "weight_ok r" "m = m_dropReference r" using assms(1) by (auto simp: wrc_inv_def)
    then show ?thesis
      using 3 deliver[of m s] msgToGcAlg_drop[of r "home s", where 'x = unit] by (auto simp: weight_ok_def)
  qed
qed

lemma wrc_collect_run:
  assumes "(wrc_collect ^^ n) s t" "wrc_inv s"
  shows "wrc_inv t \<and> wrc_todo t + n \<le> wrc_todo s"
  using assms
proof (induction n arbitrary: t)
  case (Suc n)
  then obtain u where u: "(wrc_collect ^^ n) s u" "wrc_collect u t" by auto
  then show ?case
    using Suc.IH[OF u(1) Suc.prems(2)] wrc_collect_inv[OF u(2)] wrc_collect_todo[OF u(2)] by fastforce
qed simp

lemma wrc_collect_not_whole:
  assumes "wrc_collect\<^sup>*\<^sup>* s t" "wrc_inv s" "frac_list (home s) \<noteq> whole"
  shows "wrc_inv t \<and> frac_list (home t) \<noteq> whole"
  using assms
proof (induction rule: rtranclp_induct)
  case (step t u)
  then have "frac_list (home u) \<noteq> whole"
  proof (cases rule: wrc_collect.cases[OF step(2)])
    case (4 m _ h')
    then have "digits_from 0 (frac_list h')" using wrc_deliver_inv step by blast
    then show ?thesis using 4 by (auto simp: whole_def)
  qed auto
  then show ?case using step wrc_collect_inv by blast
qed simp

lemma quiescent_home:
  assumes "wrc_inv s" "quiescent s" "frac_list (home s) \<noteq> whole"
  shows "\<not> WRC_Home_isRoot (home s)"
  using assms outstanding_zero[OF assms(1)] digits_weight_bounds(2)[of "frac_list (home s)"]
  by (auto simp: wrc_inv_def WRC_Home_isRoot_def)

lemma wrc_collect_ends:
  assumes "wrc_inv s"
  shows "\<exists>t. wrc_collect\<^sup>*\<^sup>* s t \<and> quiescent t"
  using assms
proof (induction "wrc_todo s" arbitrary: s rule: less_induct)
  case less
  show ?case
  proof (cases "quiescent s")
    case False
    then obtain t where t: "wrc_collect s t" using wrc_collect_progress less.prems by blast
    then obtain u where "wrc_collect\<^sup>*\<^sup>* t u" "quiescent u"
      using less.hyps[of t] wrc_collect_todo wrc_collect_inv less.prems by blast
    then show ?thesis using t by (meson converse_rtranclp_into_rtranclp)
  qed auto
qed

section \<open>Properties\<close>

text \<open>A home reference that has given one reference away, in transit to site 1.\<close>

definition wrc_example :: wrc_system where
  "wrc_example = (case m_getReferenceInfo (WRC_Home 10000) of (h, e, d) \<Rightarrow>
     (wrc_init 10000)\<lparr>home := h, refs := {#(1, e, d)#}\<rparr>)"

lemma wrc_example_reachable: "wrc_reachable wrc_example"
proof -
  have "wrc_step (wrc_init 10000) wrc_example"
    using home_send[of "wrc_init 10000" _ _ _ 1]
    by (auto simp: wrc_example_def wrc_init_def split: prod.split)
  then show ?thesis using wrc_start[of 10000] wrc_next by auto
qed

lemma wrc_example_simps:
  "refs wrc_example \<noteq> {#}" "frac_list (home wrc_example) \<noteq> whole"
proof -
  have "m_getReferenceInfo (WRC_Home 10000) = (\<lparr>frac_list = [(134204306, 1)], wrc_alpha = 10000\<rparr>, 13421, 1)"
    by code_simp
  then show "refs wrc_example \<noteq> {#}" "frac_list (home wrc_example) \<noteq> whole"
    by (simp_all add: wrc_example_def whole_def MAXENUMERATOR_eq)
qed

text \<open>
  C27: weights. Inserting a pair into a weight keeps it a list of digits and adds to it modulo
  one; giving weight away splits it into two positive parts and leaves both well formed, for every
  divisor above one.
\<close>

theorem wrc_weights:
  assumes "digits_from 0 (frac_list h)" "frac_list h \<noteq> []" "2 \<le> wrc_alpha h" "pair_ok (e, k)"
  shows "digits_from 0 (insertPair e k (frac_list h)) \<and>
    weight_of (insertPair e k (frac_list h)) = frac (weight_of (frac_list h) + pair_weight (e, k)) \<and>
    (case getNewRefWeightPair h of (h', e', d') \<Rightarrow>
       digits_from 0 (frac_list h') \<and> frac_list h' \<noteq> [] \<and> pair_ok (e', d') \<and>
       weight_of (frac_list h') + pair_weight (e', d') = weight_of (frac_list h))"
proof -
  define x w where "x = weight_of (frac_list h) + pair_weight (e, k)"
    and "w = weight_of (insertPair e k (frac_list h))"
  have i: "digits_from 0 (insertPair e k (frac_list h))" "x - w = 0 \<or> x - w = 1"
    using insertPair_sum[OF assms(1), of e k] assms(4) by (auto simp: pair_ok_def x_def w_def)
  have "x - w \<in> \<int>" using i(2) by auto
  then have "weight_of (insertPair e k (frac_list h)) = frac (weight_of (frac_list h) + pair_weight (e, k))"
    using digits_weight_bounds(1,2)[OF i(1)] frac_unique_iff[of x w] by (simp add: x_def w_def)
  then show ?thesis
    using i(1) getNewRefWeightPair_splits[of h] assms(1-3) by (auto split: prod.split)
qed

theorem wrc_weights_witness:
  "digits_from 0 (insertPair 134217720 2 [(5, 1), (100, 2)]) \<and>
   weight_of (insertPair 134217720 2 [(5, 1), (100, 2)])
     = frac (weight_of [(5, 1), (100, 2)] + pair_weight (134217720, 2)) \<and>
   insertPair 134217720 2 [(5, 1), (100, 2)] = [(6, 1), (93, 2)]"
proof -
  have "insertPair 134217720 2 [(5, 1), (100, 2)] = [(6, 1), (93, 2)]" by code_simp
  then show ?thesis
    using wrc_weights[of "\<lparr>frac_list = [(5, 1), (100, 2)], wrc_alpha = 10000\<rparr>" 134217720 2]
    by (simp add: MAXENUMERATOR_eq pair_ok_def)
qed

text \<open>
  C28: safety of the distributed collector. In every state the system can reach, as long as some
  site holds a reference, or a reference or a control message is in transit, the home reference is
  a root; the weights at home and elsewhere add up to exactly one.
\<close>

theorem wrc_safety:
  assumes "wrc_reachable s" "remotes s i \<noteq> None \<or> refs s \<noteq> {#} \<or> ctls s \<noteq> {#}"
  shows "WRC_Home_isRoot (home s) \<and> weight_of (frac_list (home s)) + outstanding s = 1"
proof -
  have "\<not> quiescent s" using assms(2) by (auto simp: quiescent_def)
  from wrc_inv_busy[OF wrc_reachable_inv[OF assms(1)] this]
  show ?thesis by (simp add: WRC_Home_isRoot_def)
qed

theorem wrc_safety_witness:
  "WRC_Home_isRoot (home wrc_example) \<and> weight_of (frac_list (home wrc_example)) + outstanding wrc_example = 1"
  using wrc_safety[OF wrc_example_reachable] wrc_example_simps(1) by blast

text \<open>
  C29: the collector collects. From every state the system can reach after the home reference has
  given a reference away, the steps of collection (arrival of references, dropping of references,
  arrival of control messages) come to an end after a bounded number of steps, and when none is
  left, in whatever order they were taken, the home reference is no root any more.
\<close>

theorem wrc_reclaims:
  assumes "wrc_reachable s" "frac_list (home s) \<noteq> whole"
  shows "(\<forall>n t. (wrc_collect ^^ n) s t \<longrightarrow> n \<le> wrc_todo s) \<and>
    (\<exists>t. wrc_collect\<^sup>*\<^sup>* s t \<and> (\<nexists>u. wrc_collect t u)) \<and>
    (\<forall>t. wrc_collect\<^sup>*\<^sup>* s t \<and> (\<nexists>u. wrc_collect t u) \<longrightarrow> quiescent t \<and> \<not> WRC_Home_isRoot (home t))"
proof -
  note inv = wrc_reachable_inv[OF assms(1)]
  have "quiescent t \<and> \<not> WRC_Home_isRoot (home t)" if "wrc_collect\<^sup>*\<^sup>* s t" "\<nexists>u. wrc_collect t u" for t
    using wrc_collect_not_whole[OF that(1) inv assms(2)] wrc_collect_progress quiescent_home that(2) by blast
  moreover have "\<nexists>u. wrc_collect t u" if "quiescent t" for t
    using that by (auto simp: quiescent_def elim: wrc_collect.cases)
  ultimately show ?thesis using wrc_collect_run[OF _ inv] wrc_collect_ends[OF inv] by fastforce
qed

theorem wrc_reclaims_witness:
  "\<exists>t. wrc_collect\<^sup>*\<^sup>* wrc_example t \<and> quiescent t \<and> \<not> WRC_Home_isRoot (home t)"
  using wrc_reclaims[OF wrc_example_reachable wrc_example_simps(2)] by blast

text \<open>
  With the divisor one, which \<^verbatim>\<open>setAlpha\<close> accepts, the first reference takes the whole weight and
  leaves a pair of weight zero, which counts as a unit when the next reference is made. When both
  have come back the home is still a root, and stays one.
\<close>

lemma wrc_alpha_one_leaks:
  "fst (setAlpha 1 (WRC_Home 10000))"
  "(let (h1, e1, d1) = m_getReferenceInfo (snd (setAlpha 1 (WRC_Home 10000)));
        (h2, e2, d2) = m_getReferenceInfo h1;
        h3 = m_mergeReferenceInfo h2 e1 d1; h4 = m_mergeReferenceInfo h3 e2 d2
    in frac_list h1 = [(0, 1)] \<and> WRC_Home_isRoot h4)"
  by code_simp+

end
