(* ===== verification/MsgSerialize.thy ===== *)
theory MsgSerialize
  imports MsgContainer
begin

text \<open>
  Messages on the wire: \<^verbatim>\<open>MsgCnt::m_serialize\<close> and \<^verbatim>\<open>MsgCnt::deserialize\<close>
  (\<^verbatim>\<open>platform/dss/src/msl_msgContainer.cc\<close>) and the data areas of \<^verbatim>\<open>msl_dct.cc\<close>, over the byte buffers. A
  message that does not fit is sent in several parts; both sides keep where they stopped in the
  container. Reads of memory that is not there have no result.

  Sites and the data containers of the engine are read and written by code outside this component:
  the record \<open>msl_env\<close> has the functions it calls.
\<close>

datatype data_tag = TYPE_INT | TYPE_SITE | TYPE_END | TYPE_DCT | TYPE_ADC | TYPE_MSG

fun tag_byte :: "data_tag \<Rightarrow> byte" where
  "tag_byte TYPE_INT = 0"
| "tag_byte TYPE_SITE = 1"
| "tag_byte TYPE_END = 2"
| "tag_byte TYPE_DCT = 3"
| "tag_byte TYPE_ADC = 4"
| "tag_byte TYPE_MSG = 5"

definition DctT_DAC :: byte where
  "DctT_DAC = 0"

record 'x msl_env =
  site_size :: "nat \<Rightarrow> nat"
  site_put :: "nat \<Rightarrow> DssWriteByteBuffer \<Rightarrow> DssWriteByteBuffer"
  site_get :: "DssReadByteBuffer \<Rightarrow> (nat \<times> DssReadByteBuffer) option"
  adc_type :: "'x \<Rightarrow> byte"
  adc_put :: "'x \<Rightarrow> DssWriteByteBuffer \<Rightarrow> bool \<times> 'x \<times> DssWriteByteBuffer"
  adc_new :: "byte \<Rightarrow> 'x"
  adc_get :: "'x \<Rightarrow> DssReadByteBuffer \<Rightarrow> bool \<times> 'x \<times> DssReadByteBuffer"

section \<open>Data areas\<close>

definition new_DssSimpleDacDct :: DssSimpleDacDct where
  "new_DssSimpleDacDct = \<lparr>dct_buf = [], dct_pos = 0, dct_size = 0, dct_mode = DSDD_UNDEF\<rparr>"

definition createReceiveDCT :: "byte \<Rightarrow> DssSimpleDacDct option" where
  "createReceiveDCT ty = (if ty = DctT_DAC then Some new_DssSimpleDacDct else None)"

text \<open>\<^verbatim>\<open>DssSimpleDacDct::marshal\<close>; the block that is copied has to lie within the data area.\<close>

definition dct_write :: "DssSimpleDacDct \<Rightarrow> DssWriteByteBuffer \<Rightarrow> (bool \<times> DssSimpleDacDct \<times> DssWriteByteBuffer) option" where
  "dct_write d bb = (let len = min (availableSpace bb) (dct_size d) in
     if dct_pos d + len \<le> length (dct_buf d)
     then Some (dct_pos d + len = dct_size d, d\<lparr>dct_pos := dct_pos d + len\<rparr>,
       writeToBuffer (take len (drop (dct_pos d) (dct_buf d))) bb)
     else None)"

definition dct_marshal :: "DssSimpleDacDct \<Rightarrow> DssWriteByteBuffer \<Rightarrow> (bool \<times> DssSimpleDacDct \<times> DssWriteByteBuffer) option" where
  "dct_marshal d0 bb = (let d1 = (if dct_mode d0 = DSDD_READ then d0\<lparr>dct_pos := 0\<rparr> else d0); d = d1\<lparr>dct_mode := DSDD_WRITE\<rparr> in
     if dct_pos d = 0 then
       (if canWrite (4 + 1) bb then dct_write d (writeToBuffer (gf_integer2char (of_nat (dct_size d))) bb)
        else Some (False, d, bb))
     else dct_write d bb)"

text \<open>\<^verbatim>\<open>DssSimpleDacDct::unmarshal\<close>.\<close>

definition dct_read :: "DssSimpleDacDct \<Rightarrow> DssReadByteBuffer \<Rightarrow> bool \<times> DssSimpleDacDct \<times> DssReadByteBuffer" where
  "dct_read d bb = (let len = min (availableData bb) (dct_size d - dct_pos d);
       d' = d\<lparr>dct_buf := blit (read_cb bb len) (dct_pos d) (dct_buf d), dct_pos := dct_pos d + len\<rparr>;
       bb' = commitRead_cb (int len) bb in
     if dct_pos d' = dct_size d' then (True, d'\<lparr>dct_pos := 0\<rparr>, bb') else (False, d', bb'))"

definition dct_unmarshal :: "DssSimpleDacDct \<Rightarrow> DssReadByteBuffer \<Rightarrow> bool \<times> DssSimpleDacDct \<times> DssReadByteBuffer" where
  "dct_unmarshal d0 bb = (let d = d0\<lparr>dct_mode := DSDD_READ\<rparr> in
     if dct_size d = 0 then
       (if canRead 4 bb then
          let sz = unat (gf_char2integer (read_cb bb 4)) in
          dct_read (d\<lparr>dct_size := sz, dct_buf := replicate sz 0, dct_pos := 0\<rparr>) (commitRead_cb 4 bb)
        else (False, d, bb))
     else dct_read d bb)"

section \<open>Sending\<close>

lemma size_list_drop: "size_list f (drop c xs) \<le> size_list f xs"
  by (induction xs arbitrary: c) (auto simp: drop_Cons split: nat.split intro: le_trans[OF _ le_add2] le_SucI)

text \<open>
  \<^verbatim>\<open>m_serialize\<close>. The loop goes over the fields from \<^verbatim>\<open>a_current\<close> on and returns them with what sending
  changed in them, how many are done, and whether all are.
\<close>

function (sequential) m_serialize :: "'x msl_env \<Rightarrow> 'x msg_cnt \<Rightarrow> DssWriteByteBuffer \<Rightarrow> ('x msg_cnt \<times> DssWriteByteBuffer) option"
  and serialize_fields :: "'x msl_env \<Rightarrow> 'x msg_field list \<Rightarrow> DssWriteByteBuffer \<Rightarrow>
    ('x msg_field list \<times> nat \<times> bool \<times> DssWriteByteBuffer) option"
  and serialize_field :: "'x msl_env \<Rightarrow> 'x msg_field \<Rightarrow> DssWriteByteBuffer \<Rightarrow> (bool \<times> 'x msg_field \<times> DssWriteByteBuffer) option" where
  "m_serialize env (MsgCnt fl su mx fs c sl) bb = (case serialize_fields env (drop c fs) bb of None \<Rightarrow> None
     | Some (fs', k, ok, bb') \<Rightarrow>
         if ok \<and> canWrite 1 bb'
         then Some (MsgCnt MSG_CLEAR False mx (take c fs @ fs') (c + k) sl, putByte_cb (tag_byte TYPE_END) bb')
         else Some (MsgCnt MSG_HAS_MARSHALCONT False mx (take c fs @ fs') (c + k) sl, bb'))"
| "serialize_fields env [] bb = Some ([], 0, True, bb)"
| "serialize_fields env (f # fs) bb = (case serialize_field env f bb of None \<Rightarrow> None
     | Some (False, f', bb') \<Rightarrow> Some (f' # fs, 0, False, bb')
     | Some (True, f', bb') \<Rightarrow> (case serialize_fields env fs bb' of None \<Rightarrow> None
         | Some (fs', k, ok, bb'') \<Rightarrow> Some (f' # fs', k + 1, ok, bb'')))"
| "serialize_field env (FT_NUMBER i) bb =
     (if canWrite (1 + sz_MNumberMax) bb
      then Some (True, FT_NUMBER i, putInt_cb (word_of_int i) (putByte_cb (tag_byte TYPE_INT) bb))
      else Some (False, FT_NUMBER i, bb))"
| "serialize_field env (FT_SITE s) bb =
     (if canWrite (1 + site_size env s) bb
      then Some (True, FT_SITE s, site_put env s (putByte_cb (tag_byte TYPE_SITE) bb))
      else Some (False, FT_SITE s, bb))"
| "serialize_field env (FT_DCT d) bb =
     (if canWrite (1 + 20) bb
      then map_option (\<lambda>(r, d', bb'). (r, FT_DCT d', bb')) (dct_marshal d (putByte_cb DctT_DAC (putByte_cb (tag_byte TYPE_DCT) bb)))
      else Some (False, FT_DCT d, bb))"
| "serialize_field env (FT_ADC x) bb =
     (if canWrite (1 + 20) bb
      then (case adc_put env x (putByte_cb (adc_type env x) (putByte_cb (tag_byte TYPE_ADC) bb)) of (r, x', bb') \<Rightarrow> Some (r, FT_ADC x', bb'))
      else Some (False, FT_ADC x, bb))"
| "serialize_field env (FT_MSGC m) bb =
     (if canWrite (1 + 100) bb
      then map_option (\<lambda>(m', bb'). (\<not> checkFlag MSG_HAS_MARSHALCONT m', FT_MSGC m', bb')) (m_serialize env m (putByte_cb (tag_byte TYPE_MSG) bb))
      else Some (False, FT_MSGC m, bb))"
| "serialize_field env FT_NULL bb = None"
  by pat_completeness auto
termination
  by (relation "measure (\<lambda>x. case x of Inl (e, m, b) \<Rightarrow> size m | Inr (Inl (e, fs, b)) \<Rightarrow> size_list size fs | Inr (Inr (e, f, b)) \<Rightarrow> size f)")
    (auto simp: less_Suc_eq_le intro: le_trans[OF size_list_drop le_add1])

section \<open>Receiving\<close>

text \<open>The slot behind the fields, and the step that makes it a field.\<close>

fun set_slot :: "'x msg_field \<Rightarrow> 'x msg_cnt \<Rightarrow> 'x msg_cnt" where
  "set_slot f (MsgCnt fl su mx fs c sl) = MsgCnt fl su mx fs c (Some f)"

fun commit_slot :: "'x msg_field \<Rightarrow> 'x msg_cnt \<Rightarrow> 'x msg_cnt" where
  "commit_slot f (MsgCnt fl su mx fs c sl) = MsgCnt fl su mx (fs @ [f]) c None"

text \<open>Where the data of a data area or of an engine's container goes: on with the one in the slot when
  the last part ended inside it, and a new one otherwise. The byte behind the tag is the type.\<close>

definition dct_slot :: "byte \<Rightarrow> 'x msg_cnt \<Rightarrow> DssSimpleDacDct option" where
  "dct_slot ty m =
     (if checkFlag MSG_HAS_UNMARSHALCONT m \<and> a_suspf m
      then (case a_slot m of Some (FT_DCT d) \<Rightarrow> Some d | _ \<Rightarrow> None)
      else createReceiveDCT ty)"

definition adc_slot :: "'x msl_env \<Rightarrow> byte \<Rightarrow> 'x msg_cnt \<Rightarrow> 'x option" where
  "adc_slot env ty m =
     (if checkFlag MSG_HAS_UNMARSHALCONT m \<and> a_suspf m
      then (case a_slot m of Some (FT_ADC x) \<Rightarrow> Some x | _ \<Rightarrow> None)
      else Some (adc_new env ty))"

definition msg_slot :: "'x msg_cnt \<Rightarrow> 'x msg_cnt option" where
  "msg_slot m =
     (if a_suspf m then (case a_slot m of Some (FT_MSGC msg) \<Rightarrow> Some msg | _ \<Rightarrow> None)
      else Some new_MsgCnt)"

partial_function (option) deserialize :: "'x msl_env \<Rightarrow> 'x msg_cnt \<Rightarrow> DssReadByteBuffer \<Rightarrow> (bool \<times> 'x msg_cnt \<times> DssReadByteBuffer) option" where
  [code]: "deserialize env m bb =
    (if availableData bb = 0 then Some (True, setFlag MSG_HAS_UNMARSHALCONT False m, bb)
     else case getByte_cb bb of (msg_type, bb1) \<Rightarrow>
     if msg_type = tag_byte TYPE_INT then
       (if canRead SIZE_INT bb1 then case getInt_cb bb1 of (i, bb2) \<Rightarrow> deserialize env (m_pushVal (FT_NUMBER (sint i)) m) bb2
        else None)
     else if msg_type = tag_byte TYPE_SITE then
       Option.bind (site_get env bb1) (\<lambda>(s, bb2). deserialize env (m_pushVal (FT_SITE s) m) bb2)
     else if msg_type = tag_byte TYPE_DCT then
       (let m1 = checkSize m in
        if canRead 1 bb1 then case getByte_cb bb1 of (ty, bb2) \<Rightarrow>
          Option.bind (dct_slot ty m1) (\<lambda>d. case dct_unmarshal d bb2 of (r, d', bb3) \<Rightarrow>
            if r then deserialize env (commit_slot (FT_DCT d') m1) bb3
            else Some (True, setFlag MSG_HAS_UNMARSHALCONT True (set_slot (FT_DCT d') m1), bb3))
        else None)
     else if msg_type = tag_byte TYPE_MSG then
       (let m1 = checkSize m in
        Option.bind (msg_slot m1) (\<lambda>msg. Option.bind (deserialize env msg bb1) (\<lambda>(r, msg', bb2).
          if r \<and> checkFlag MSG_CLEAR msg' then deserialize env (commit_slot (FT_MSGC msg') m1) bb2
          else Some (True, setFlag MSG_HAS_UNMARSHALCONT True (set_slot (FT_MSGC msg') m1), bb2))))
     else if msg_type = tag_byte TYPE_ADC then
       (let m1 = checkSize m in
        if canRead 1 bb1 then case getByte_cb bb1 of (ty, bb2) \<Rightarrow>
          Option.bind (adc_slot env ty m1) (\<lambda>x. case adc_get env x bb2 of (r, x', bb3) \<Rightarrow>
            if r then deserialize env (commit_slot (FT_ADC x') m1) bb3
            else Some (True, setFlag MSG_HAS_UNMARSHALCONT True (set_slot (FT_ADC x') m1), bb3))
        else None)
     else if msg_type = tag_byte TYPE_END then Some (True, setFlag MSG_CLEAR False m, bb1)
     else None)"

section \<open>The contents of a message and its bytes\<close>

datatype msg_content = Num int | Area "byte list" | Sub "msg_content list" | Other

fun content :: "'x msg_field \<Rightarrow> msg_content" where
  "content (FT_NUMBER i) = Num i"
| "content (FT_DCT d) = Area (dct_buf d)"
| "content (FT_MSGC (MsgCnt fl su mx fs c sl)) = Sub (map content fs)"
| "content _ = Other"

fun wire_field :: "msg_content \<Rightarrow> byte list" where
  "wire_field (Num i) = tag_byte TYPE_INT # gf_integer2char (word_of_int i)"
| "wire_field (Area xs) = tag_byte TYPE_DCT # DctT_DAC # gf_integer2char (of_nat (length xs)) @ xs"
| "wire_field (Sub cs) = tag_byte TYPE_MSG # concat (map wire_field cs) @ [tag_byte TYPE_END]"
| "wire_field Other = []"

definition wire :: "msg_content list \<Rightarrow> byte list" where
  "wire cs = concat (map wire_field cs) @ [tag_byte TYPE_END]"

text \<open>Messages that can be sent: numbers that fit, data areas with something in them that have not
  been touched, and messages of such fields from their first field on.\<close>

fun sendable :: "'x msg_field \<Rightarrow> bool" where
  "sendable (FT_NUMBER i) \<longleftrightarrow> - (2 ^ 31) \<le> i \<and> i < 2 ^ 31"
| "sendable (FT_DCT d) \<longleftrightarrow> dct_pos d = 0 \<and> dct_size d = length (dct_buf d) \<and> 0 < dct_size d \<and> dct_size d < 2 ^ 32 \<and> dct_mode d = DSDD_UNDEF"
| "sendable (FT_MSGC (MsgCnt fl su mx fs c sl)) \<longleftrightarrow> c = 0 \<and> list_all sendable fs"
| "sendable _ \<longleftrightarrow> False"

section \<open>Buffers as sinks and sources of frames\<close>

text \<open>What a piece of code has written behind the bytes of a buffer.\<close>

definition wb_ok :: "DssWriteByteBuffer \<Rightarrow> bool" where
  "wb_ok b \<longleftrightarrow> cb_ok b \<and> reserved b \<le> getFree_cb b"

definition wrote :: "byte list \<Rightarrow> DssWriteByteBuffer \<Rightarrow> DssWriteByteBuffer \<Rightarrow> bool" where
  "wrote xs b b' \<longleftrightarrow> wb_ok b' \<and> cb_bytes b' = cb_bytes b @ xs \<and> getSize_cb b' = getSize_cb b \<and> reserved b' = reserved b \<and> getpos b' = getpos b"

lemma wb_okD: "wb_ok b \<Longrightarrow> cb_ok b" "wb_ok b \<Longrightarrow> availableSpace b = getFree_cb b - reserved b" "wb_ok b \<Longrightarrow> reserved b \<le> getFree_cb b"
  by (simp_all add: wb_ok_def availableSpace_def)

lemma wroteI:
  assumes "wb_ok b" "length xs \<le> availableSpace b" "cb_ok b'" "cb_bytes b' = cb_bytes b @ xs" "getSize_cb b' = getSize_cb b"
    "reserved b' = reserved b" "getpos b' = getpos b"
  shows "wrote xs b b'"
proof -
  have "used b' = used b + length xs" using assms(4) length_cb_bytes[of b'] by simp
  then have "reserved b' \<le> getFree_cb b'" using wb_okD(2,3)[OF assms(1)] assms(2,5,6) by (simp add: getFree_cb_def)
  then show ?thesis using assms by (simp add: wrote_def wb_ok_def)
qed

lemma wrote_space:
  assumes "wrote xs b b'"
  shows "availableSpace b' = availableSpace b - length xs" "wb_ok b'"
proof -
  have u: "used b' = used b + length xs" using assms length_cb_bytes[of b'] by (simp add: wrote_def)
  show "wb_ok b'" using assms by (simp add: wrote_def)
  then have "reserved b \<le> getFree_cb b" using assms u wb_okD(3)[of b'] by (simp add: wrote_def getFree_cb_def)
  then show "availableSpace b' = availableSpace b - length xs"
    using wb_okD(2)[OF \<open>wb_ok b'\<close>] assms u by (simp add: wrote_def availableSpace_def getFree_cb_def)
qed

lemma wrote_trans: "wrote xs b b' \<Longrightarrow> wrote ys b' b'' \<Longrightarrow> wrote (xs @ ys) b b''"
  by (simp add: wrote_def)

lemma wrote_byte:
  assumes "wb_ok b" "0 < availableSpace b"
  shows "wrote [x] b (putByte_cb x b)"
  using putByte_queue[OF wb_okD(1)[OF assms(1)], of x] assms wb_okD(2)[OF assms(1)]
  by (intro wroteI[OF assms(1)]) (auto simp: getFree_cb_def putByte_cb_def getSize_cb_def)

lemma writeToBuffer_rest:
  "cb_ok b \<Longrightarrow> length xs \<le> getFree_cb b \<Longrightarrow> getSize_cb (writeToBuffer xs b) = getSize_cb b"
  "reserved (writeToBuffer xs b) = reserved b" "getpos (writeToBuffer xs b) = getpos b"
proof -
  assume "cb_ok b" "length xs \<le> getFree_cb b"
  then show "getSize_cb (writeToBuffer xs b) = getSize_cb b"
    using write_nth(2)[of b xs 0] by (simp add: writeToBuffer_def commitWrite_cb_def cb_ok_def)
next
  show "reserved (writeToBuffer xs b) = reserved b" "getpos (writeToBuffer xs b) = getpos b"
    by (simp_all add: writeToBuffer_def commitWrite_cb_def write_cb_def Let_def)
qed

lemma wrote_block:
  assumes "wb_ok b" "length xs \<le> availableSpace b"
  shows "wrote xs b (writeToBuffer xs b)"
proof -
  have "length xs \<le> getFree_cb b" "cb_ok b" using assms wb_okD[OF assms(1)] by simp_all
  then show ?thesis
    using writeToBuffer_queue[of b xs] writeToBuffer_rest(1)[of b xs] writeToBuffer_rest(2,3)[of xs b]
    by (intro wroteI[OF assms]) simp_all
qed

lemma putByte_rest: "getSize_cb (putByte_cb x b) = getSize_cb b" "reserved (putByte_cb x b) = reserved b" "getpos (putByte_cb x b) = getpos b"
  by (simp_all add: putByte_cb_def getSize_cb_def)

lemma putInt_rest: "getSize_cb (putInt_cb i b) = getSize_cb b" "reserved (putInt_cb i b) = reserved b" "getpos (putInt_cb i b) = getpos b"
proof -
  have "getSize_cb (putInt_loop k i b) = getSize_cb b \<and> reserved (putInt_loop k i b) = reserved b \<and> getpos (putInt_loop k i b) = getpos b" for k
    by (induction k arbitrary: i b) (simp_all add: putByte_rest)
  then show "getSize_cb (putInt_cb i b) = getSize_cb b" "reserved (putInt_cb i b) = reserved b" "getpos (putInt_cb i b) = getpos b"
    by (simp_all add: putInt_cb_def)
qed

lemma length_integer2char [simp]: "length (gf_integer2char i) = 4"
  by (simp add: gf_integer2char_def)

lemma wrote_int:
  assumes "wb_ok b" "4 \<le> availableSpace b"
  shows "wrote (gf_integer2char i) b (putInt_cb i b)"
proof -
  have "SIZE_INT \<le> getFree_cb b" "cb_ok b" using assms wb_okD[OF assms(1)] by (simp_all add: SIZE_INT_def)
  then show ?thesis using putInt_queue[of b i] putInt_rest[of i b] assms(2) by (intro wroteI[OF assms(1)]) simp_all
qed

definition frame_bytes :: "DssReadByteBuffer \<Rightarrow> byte list" where
  "frame_bytes r = take (availableData r) (cb_bytes r)"

definition frame_ok :: "DssReadByteBuffer \<Rightarrow> bool" where
  "frame_ok r \<longleftrightarrow> cb_ok r \<and> outerframe r \<le> used r"

lemma length_frame [simp]: "frame_ok r \<Longrightarrow> length (frame_bytes r) = availableData r"
  by (simp add: frame_bytes_def availableData_def frame_ok_def)

text \<open>The bytes behind the frame, which reading it leaves alone.\<close>

definition after_frame :: "DssReadByteBuffer \<Rightarrow> byte list" where
  "after_frame r = drop (availableData r) (cb_bytes r)"

definition took :: "byte list \<Rightarrow> DssReadByteBuffer \<Rightarrow> DssReadByteBuffer \<Rightarrow> bool" where
  "took xs r r' \<longleftrightarrow> frame_ok r' \<and> frame_bytes r = xs @ frame_bytes r' \<and> after_frame r' = after_frame r \<and> outerframe r' = outerframe r"

lemma tookI:
  assumes "frame_ok r" "cb_ok r'" "cb_bytes r' = drop (length xs) (cb_bytes r)" "take (length xs) (frame_bytes r) = xs" "outerframe r' = outerframe r"
  shows "took xs r r'"
proof -
  have l: "length xs \<le> availableData r" using assms(1,4) length_take[of "length xs" "frame_bytes r"] by auto
  have u: "used r' = used r - length xs" using arg_cong[OF assms(3), of length] by simp
  moreover have "outerframe r \<le> used r - length xs" using assms(1) l by (auto simp: availableData_def frame_ok_def)
  ultimately have av: "availableData r' = availableData r - length xs"
    using assms(1,5) by (simp add: availableData_def frame_ok_def)
  have "frame_bytes r = take (length xs) (frame_bytes r) @ drop (length xs) (frame_bytes r)" by simp
  also have "drop (length xs) (frame_bytes r) = frame_bytes r'"
    using av assms(3) by (simp add: frame_bytes_def drop_take)
  finally have "frame_bytes r = xs @ frame_bytes r'" using assms(4) by simp
  moreover have "outerframe r \<le> used r - length xs" "length xs + availableData r' = availableData r"
    using l av assms(1) by (auto simp: availableData_def frame_ok_def)
  ultimately show ?thesis
    using assms u by (simp add: took_def frame_ok_def after_frame_def add.commute)
qed

lemma took_byte:
  assumes "frame_ok r" "frame_bytes r = x # xs"
  obtains r' where "getByte_cb r = (x, r')" "took [x] r r'"
proof -
  obtain ys where c: "cb_bytes r = x # ys"
    using assms(2) by (cases "cb_bytes r") (auto simp: frame_bytes_def take_Cons split: nat.splits)
  have ok: "cb_ok r" using assms(1) by (simp add: frame_ok_def)
  have "took [x] r (snd (getByte_cb r))"
    by (rule tookI[OF assms(1)]) (use getByte_queue[OF ok c] c assms(2) in \<open>auto simp: getByte_cb_def\<close>)
  then show thesis using that[of "snd (getByte_cb r)"] getByte_queue(1)[OF ok c] by (simp add: prod_eq_iff)
qed

lemma took_block:
  assumes "frame_ok r" "len \<le> availableData r"
  shows "read_cb r len = take len (frame_bytes r)" "took (take len (frame_bytes r)) r (commitRead_cb (int len) r)"
proof -
  have u: "len \<le> used r" "cb_ok r" using assms by (auto simp: frame_ok_def availableData_def)
  show "read_cb r len = take len (frame_bytes r)"
    using read_queue[OF u(2,1)] assms(2) by (simp add: frame_bytes_def min_def)
  show "took (take len (frame_bytes r)) r (commitRead_cb (int len) r)"
    by (rule tookI[OF assms(1)]) (use commitRead_queue[OF u(2,1)] assms in \<open>auto simp: commitRead_cb_def reinit_def Let_def min_def\<close>)
qed

lemma took_int:
  assumes "frame_ok r" "frame_bytes r = gf_integer2char i @ xs"
  obtains r' where "getInt_cb r = (i, r')" "took (gf_integer2char i) r r'" "4 \<le> availableData r"
proof -
  have ok: "cb_ok r" using assms(1) by (simp add: frame_ok_def)
  have "cb_bytes r = frame_bytes r @ after_frame r" by (simp add: frame_bytes_def after_frame_def)
  then have c: "cb_bytes r = gf_integer2char i @ (xs @ after_frame r)" using assms(2) by simp
  obtain x0 x1 x2 x3 where x: "gf_integer2char i = [x0, x1, x2, x3]" by (simp add: gf_integer2char_def)
  note g = getInt_queue[OF ok c[unfolded x]]
  have "took (gf_integer2char i) r (snd (getInt_cb r))"
    by (rule tookI[OF assms(1)]) (use g c x assms(2) in \<open>auto simp: getInt_cb_def getInt_loop.simps SIZE_INT_def getByte_cb_def\<close>)
  moreover have "fst (getInt_cb r) = i" using g(1) x char2integer_integer2char[of i "[]"] by simp
  moreover have "4 \<le> availableData r" using arg_cong[OF assms(2), of length] assms(1) by simp
  ultimately show thesis using that[of "snd (getInt_cb r)"] by (simp add: prod_eq_iff)
qed

lemma took_trans: "took xs r r' \<Longrightarrow> took ys r' r'' \<Longrightarrow> took (xs @ ys) r r''"
  by (simp add: took_def)

section \<open>A message that fits is written as its bytes\<close>

lemma dct_marshal_ok:
  assumes "sendable (FT_DCT d :: 'x msg_field)" "wb_ok b" "4 + dct_size d \<le> availableSpace b"
  obtains d' b' where "dct_marshal d b = Some (True, d', b')" "wrote (gf_integer2char (of_nat (dct_size d)) @ dct_buf d) b b'"
proof -
  define b1 where "b1 = writeToBuffer (gf_integer2char (of_nat (dct_size d))) b"
  have d: "dct_pos d = 0" "dct_size d = length (dct_buf d)" "0 < dct_size d" "dct_mode d = DSDD_UNDEF" using assms(1) by auto
  have w: "wrote (gf_integer2char (of_nat (dct_size d))) b b1"
    unfolding b1_def by (rule wrote_block[OF assms(2)]) (use assms(3) in simp)
  have sp: "dct_size d \<le> availableSpace b1" "wb_ok b1" using wrote_space[OF w] assms(3) by simp_all
  have "wrote (dct_buf d) b1 (writeToBuffer (dct_buf d) b1)"
    by (rule wrote_block[OF sp(2)]) (use sp(1) d(2) in simp)
  then have "wrote (gf_integer2char (of_nat (dct_size d)) @ dct_buf d) b (writeToBuffer (dct_buf d) b1)"
    by (rule wrote_trans[OF w])
  moreover have cw: "canWrite (4 + 1) b" using assms(3) d(3) by (simp add: canWrite_def)
  have "dct_marshal d b = Some (True, d\<lparr>dct_mode := DSDD_WRITE, dct_pos := dct_size d\<rparr>, writeToBuffer (dct_buf d) b1)"
    using d sp(1) cw by (simp add: dct_marshal_def dct_write_def Let_def min_def b1_def)
  ultimately show thesis using that by blast
qed

lemma wrote_Cons: "wrote [x] b b' \<Longrightarrow> wrote ys b' b'' \<Longrightarrow> wrote (x # ys) b b''"
  using wrote_trans[of "[x]" b b' ys b''] by simp

lemma serialize_field_number:
  assumes "wb_ok b" "6 \<le> availableSpace b"
  shows "\<exists>b'. serialize_field env (FT_NUMBER i) b = Some (True, FT_NUMBER i, b') \<and> wrote (wire_field (Num i)) b b'"
proof -
  have w: "wrote [tag_byte TYPE_INT] b (putByte_cb (tag_byte TYPE_INT) b)"
    by (rule wrote_byte) (use assms in auto)
  have "wrote (gf_integer2char (word_of_int i)) (putByte_cb (tag_byte TYPE_INT) b) (putInt_cb (word_of_int i) (putByte_cb (tag_byte TYPE_INT) b))"
    by (rule wrote_int) (use wrote_space[OF w] assms in simp_all)
  then show ?thesis using wrote_Cons[OF w] assms by (simp add: canWrite_def sz_MNumberMax_def)
qed

lemma serialize_field_dct:
  assumes "sendable (FT_DCT d :: 'x msg_field)" "wb_ok b" "length (wire_field (Area (dct_buf d))) + 100 \<le> availableSpace b"
  shows "\<exists>d' b'. serialize_field env (FT_DCT d :: 'x msg_field) b = Some (True, FT_DCT d', b') \<and> wrote (wire_field (Area (dct_buf d))) b b'"
proof -
  define b1 where "b1 = putByte_cb (tag_byte TYPE_DCT) b"
  define b2 where "b2 = putByte_cb DctT_DAC b1"
  have w1: "wrote [tag_byte TYPE_DCT] b b1" unfolding b1_def by (rule wrote_byte) (use assms in auto)
  have w2: "wrote [DctT_DAC] b1 b2" unfolding b2_def by (rule wrote_byte) (use wrote_space[OF w1] assms in auto)
  have sp: "wb_ok b2" "4 + dct_size d \<le> availableSpace b2"
    using wrote_space[OF w2] wrote_space[OF w1] assms by auto
  obtain d' b' where m: "dct_marshal d b2 = Some (True, d', b')" "wrote (gf_integer2char (of_nat (dct_size d)) @ dct_buf d) b2 b'"
    by (rule dct_marshal_ok[OF assms(1) sp])
  have "wrote (tag_byte TYPE_DCT # DctT_DAC # gf_integer2char (of_nat (dct_size d)) @ dct_buf d) b b'"
    by (rule wrote_Cons[OF w1], rule wrote_Cons[OF w2 m(2)])
  then show ?thesis using m(1) assms by (simp add: canWrite_def b1_def b2_def)
qed

lemma serialize_ok:
  "sendable (FT_MSGC m) \<Longrightarrow> wb_ok b \<Longrightarrow> length (wire (map content (a_fields m))) + 100 \<le> availableSpace b \<Longrightarrow>
    \<exists>m' b'. m_serialize env m b = Some (m', b') \<and> checkFlag MSG_CLEAR m' \<and> wrote (wire (map content (a_fields m))) b b'"
  "list_all sendable fs \<Longrightarrow> wb_ok b \<Longrightarrow> length (concat (map wire_field (map content fs))) + 101 \<le> availableSpace b \<Longrightarrow>
    \<exists>fs' b'. serialize_fields env fs b = Some (fs', length fs, True, b') \<and> wrote (concat (map wire_field (map content fs))) b b'"
  "sendable f \<Longrightarrow> wb_ok b \<Longrightarrow> length (wire_field (content f)) + 100 \<le> availableSpace b \<Longrightarrow>
    \<exists>f' b'. serialize_field env f b = Some (True, f', b') \<and> wrote (wire_field (content f)) b b'"
proof (induction env m b and env fs b and env f b rule: m_serialize_serialize_fields_serialize_field.induct)
  case (1 env fl su mx fs c sl b)
  have c: "c = 0" "list_all sendable fs" using "1.prems"(1) by auto
  obtain fs' b' where s: "serialize_fields env fs b = Some (fs', length fs, True, b')" "wrote (concat (map wire_field (map content fs))) b b'"
    using "1.IH" "1.prems" c by (auto simp: wire_def)
  have sp: "wb_ok b'" "0 < availableSpace b'" using wrote_space[OF s(2)] "1.prems"(3) by (auto simp: wire_def)
  have "wrote (wire (map content fs)) b (putByte_cb (tag_byte TYPE_END) b')"
    unfolding wire_def by (rule wrote_trans[OF s(2) wrote_byte[OF sp]])
  then show ?case using s(1) sp(2) c by (simp add: canWrite_def checkFlag_def Suc_le_eq)
next
  case (2 env b) then show ?case by (simp add: wrote_def)
next
  case (3 env f fs b)
  obtain f' b' where s: "serialize_field env f b = Some (True, f', b')" "wrote (wire_field (content f)) b b'"
    using "3.IH"(1) "3.prems" by auto
  have sp: "wb_ok b'" "length (concat (map wire_field (map content fs))) + 101 \<le> availableSpace b'"
    using wrote_space[OF s(2)] "3.prems"(3) by auto
  obtain fs' b'' where t: "serialize_fields env fs b' = Some (fs', length fs, True, b'')" "wrote (concat (map wire_field (map content fs))) b' b''"
    using "3.IH"(2)[OF s(1) refl refl] "3.prems"(1) sp by auto
  show ?case using s(1) t(1) wrote_trans[OF s(2) t(2)] by simp
next
  case (4 env i b) then show ?case using serialize_field_number[of b env i] by (auto simp del: serialize_field.simps)
next
  case (6 env d b) then show ?case using serialize_field_dct[of d b env] by (auto simp del: serialize_field.simps)
next
  case (8 env m b)
  obtain fl su mx fs c sl where m: "m = MsgCnt fl su mx fs c sl" by (cases m)
  define b1 where "b1 = putByte_cb (tag_byte TYPE_MSG) b"
  have w: "wrote [tag_byte TYPE_MSG] b b1" unfolding b1_def by (rule wrote_byte) (use "8.prems" in auto)
  have sp: "wb_ok b1" "length (wire (map content fs)) + 100 \<le> availableSpace b1" "canWrite 101 b"
    using wrote_space[OF w] "8.prems"(3) by (auto simp: m wire_def canWrite_def)
  obtain m' b' where r: "m_serialize env m b1 = Some (m', b')" "checkFlag MSG_CLEAR m'" "wrote (wire (map content fs)) b1 b'"
    using "8.IH" "8.prems"(1) sp by (auto simp: m b1_def)
  show ?case using r(1,2) sp(3) wrote_Cons[OF w r(3)] by (auto simp: m b1_def checkFlag_def wire_def simp del: m_serialize.simps)
qed auto

section \<open>The bytes of a message are read as the message\<close>

fun wf_content :: "msg_content \<Rightarrow> bool" where
  "wf_content (Num i) \<longleftrightarrow> - (2 ^ 31) \<le> i \<and> i < 2 ^ 31"
| "wf_content (Area xs) \<longleftrightarrow> xs \<noteq> [] \<and> length xs < 2 ^ 32"
| "wf_content (Sub cs) \<longleftrightarrow> list_all wf_content cs"
| "wf_content Other \<longleftrightarrow> False"

lemma sendable_content: "sendable f \<Longrightarrow> wf_content (content f)"
  by (induction f rule: sendable.induct) (auto simp: list_all_iff)

lemma slot_simps [simp]:
  "a_suspf (m_pushVal f m) = a_suspf m" "a_suspf (checkSize m) = a_suspf m" "a_suspf (commit_slot f m) = a_suspf m"
  "a_fields (commit_slot f m) = a_fields m @ [f]" "a_fields (setFlag fl su m) = a_fields m"
  "a_flag (setFlag fl su m) = fl"
  by (cases m; simp add: m_pushVal_def)+

lemma took_split:
  assumes "took xs r r'" "frame_bytes r = xs @ ys"
  shows "frame_ok r'" "frame_bytes r' = ys"
  using assms by (simp_all add: took_def)

lemma sint_number: "- (2 ^ 31) \<le> i \<Longrightarrow> i < 2 ^ 31 \<Longrightarrow> sint (word_of_int i :: int32) = i"
  by (simp add: signed_of_int signed_take_bit_int_eq_self)

lemma availableData_Cons: "frame_ok r \<Longrightarrow> frame_bytes r = x # xs \<Longrightarrow> availableData r \<noteq> 0"
  using length_frame[of r] by auto

lemma dct_unmarshal_ok:
  assumes "frame_ok r" "frame_bytes r = gf_integer2char (of_nat (length xs)) @ xs @ ys" "xs \<noteq> []" "length xs < 2 ^ 32"
  obtains d' r' where "dct_unmarshal new_DssSimpleDacDct r = (True, d', r')" "dct_buf d' = xs"
    "took (gf_integer2char (of_nat (length xs)) @ xs) r r'"
proof -
  define hdr where "hdr = gf_integer2char (of_nat (length xs))"
  define r1 where "r1 = commitRead_cb 4 r"
  have av: "availableData r = 4 + length xs + length ys"
    using arg_cong[OF assms(2), of length] assms(1) by simp
  have h: "take 4 (frame_bytes r) = hdr" using assms(2) by (simp add: hdr_def)
  have t1: "took hdr r r1" "read_cb r 4 = hdr"
    using took_block[OF assms(1), of 4] av h by (simp_all add: r1_def)
  have f1: "frame_ok r1" "frame_bytes r1 = xs @ ys" using took_split[OF t1(1)] assms(2) by (simp_all add: hdr_def)
  have "availableData r1 = length xs + length ys" using length_frame[OF f1(1)] f1(2) by simp
  then have t2: "read_cb r1 (length xs) = xs" "took xs r1 (commitRead_cb (int (length xs)) r1)" "length xs \<le> availableData r1"
    using took_block[OF f1(1), of "length xs"] f1(2) by simp_all
  have sz: "unat (gf_char2integer hdr) = length xs"
    using char2integer_integer2char[of "of_nat (length xs)" "[]"] assms(4) by (simp add: hdr_def unsigned_of_nat take_bit_nat_eq_self)
  define d' where "d' = \<lparr>dct_buf = xs, dct_pos = 0, dct_size = length xs, dct_mode = DSDD_READ\<rparr>"
  have "dct_unmarshal new_DssSimpleDacDct r = (True, d', commitRead_cb (int (length xs)) r1)"
    using av sz t1(2) t2 by (simp add: dct_unmarshal_def new_DssSimpleDacDct_def dct_read_def canRead_def r1_def[symmetric] Let_def blit_def min_def d'_def)
  then show thesis using that took_trans[OF t1(1) t2(2)] by (simp add: d'_def hdr_def)
qed

text \<open>The part of the claim that does not depend on how the loop goes on: the step at the first field.\<close>

definition reads :: "'x msl_env \<Rightarrow> 'x msg_cnt \<Rightarrow> DssReadByteBuffer \<Rightarrow> byte list \<Rightarrow> msg_content list \<Rightarrow> bool" where
  "reads env m r xs cs \<longleftrightarrow> (\<exists>m' r'. deserialize env m r = Some (True, m', r') \<and> a_flag m' = MSG_CLEAR \<and>
     map content (a_fields m') = map content (a_fields m) @ cs \<and> took xs r r')"

lemma reads_step:
  assumes "deserialize env m r = deserialize env m1 r1" "map content (a_fields m1) = map content (a_fields m) @ [c]"
    "took xs r r1" "reads env m1 r1 ys cs"
  shows "reads env m r (xs @ ys) (c # cs)"
  using assms took_trans[OF assms(3)] unfolding reads_def by fastforce

lemma reads_number:
  assumes "frame_ok r" "frame_bytes r = wire_field (Num i) @ ys" "wf_content (Num i)"
    "\<And>m1 r1. a_suspf m1 = a_suspf m \<Longrightarrow> frame_ok r1 \<Longrightarrow> frame_bytes r1 = ys \<Longrightarrow> reads env m1 r1 zs cs"
  shows "reads env m r (wire_field (Num i) @ zs) (Num i # cs)"
proof -
  obtain r1 where r1: "getByte_cb r = (tag_byte TYPE_INT, r1)" "took [tag_byte TYPE_INT] r r1"
    using took_byte[OF assms(1)] assms(2) by (metis append_Cons wire_field.simps(1))
  have f1: "frame_ok r1" "frame_bytes r1 = gf_integer2char (word_of_int i) @ ys"
    using took_split[OF r1(2)] assms(2) by simp_all
  obtain r2 where r2: "getInt_cb r1 = (word_of_int i, r2)" "took (gf_integer2char (word_of_int i)) r1 r2" "4 \<le> availableData r1"
    using took_int[OF f1] by blast
  have f2: "frame_ok r2" "frame_bytes r2 = ys" using took_split[OF r2(2) f1(2)] by simp_all
  define m1 where "m1 = m_pushVal (FT_NUMBER i) m"
  have "availableData r \<noteq> 0" using availableData_Cons[OF assms(1)] assms(2) by simp
  then have "deserialize env m r = deserialize env m1 r2"
    using r1(1) r2(1,3) sint_number[of i] assms(3)
    by (subst deserialize.simps) (simp add: canRead_def SIZE_INT_def m1_def)
  moreover have "reads env m1 r2 zs cs" by (rule assms(4)) (simp_all add: m1_def f2)
  moreover have "took (wire_field (Num i)) r r2" using took_trans[OF r1(2) r2(2)] by simp
  ultimately show ?thesis by (intro reads_step[of env m r m1 r2]) (simp_all add: m1_def)
qed

lemma reads_area:
  assumes "frame_ok r" "frame_bytes r = wire_field (Area xs) @ ys" "wf_content (Area xs)" "\<not> a_suspf m"
    "\<And>m1 r1. \<not> a_suspf m1 \<Longrightarrow> frame_ok r1 \<Longrightarrow> frame_bytes r1 = ys \<Longrightarrow> reads env m1 r1 zs cs"
  shows "reads env m r (wire_field (Area xs) @ zs) (Area xs # cs)"
proof -
  obtain r1 where r1: "getByte_cb r = (tag_byte TYPE_DCT, r1)" "took [tag_byte TYPE_DCT] r r1"
    using took_byte[OF assms(1)] assms(2) by (metis append_Cons wire_field.simps(2))
  have f1: "frame_ok r1" "frame_bytes r1 = DctT_DAC # gf_integer2char (of_nat (length xs)) @ xs @ ys"
    using took_split[OF r1(2)] assms(2) by simp_all
  obtain r2 where r2: "getByte_cb r1 = (DctT_DAC, r2)" "took [DctT_DAC] r1 r2"
    using took_byte[OF f1] by blast
  have f2: "frame_ok r2" "frame_bytes r2 = gf_integer2char (of_nat (length xs)) @ xs @ ys"
    using took_split[OF r2(2)] f1(2) by simp_all
  obtain d r3 where r3: "dct_unmarshal new_DssSimpleDacDct r2 = (True, d, r3)" "dct_buf d = xs"
    "took (gf_integer2char (of_nat (length xs)) @ xs) r2 r3"
    by (rule dct_unmarshal_ok[OF f2]) (use assms(3) in auto)
  have f3: "frame_ok r3" "frame_bytes r3 = ys" using took_split[OF r3(3)] f2(2) by simp_all
  define m1 where "m1 = commit_slot (FT_DCT d) (checkSize m)"
  have "availableData r \<noteq> 0" "1 \<le> availableData r1"
    using availableData_Cons[OF assms(1)] availableData_Cons[OF f1] assms(2) by simp_all
  then have "deserialize env m r = deserialize env m1 r3"
    using r1(1) r2(1) r3(1) assms(4)
    by (subst deserialize.simps) (simp add: canRead_def dct_slot_def createReceiveDCT_def m1_def Let_def)
  moreover have "reads env m1 r3 zs cs" by (rule assms(5)) (use f3 assms(4) in \<open>simp_all add: m1_def\<close>)
  moreover have "took (wire_field (Area xs)) r r3"
    using took_trans[OF r1(2) took_trans[OF r2(2) r3(3)]] by simp
  ultimately show ?thesis by (intro reads_step[of env m r m1 r3]) (simp_all add: m1_def r3(2))
qed

lemma reads_sub:
  assumes "frame_ok r" "frame_bytes r = wire_field (Sub ds) @ ys" "\<not> a_suspf m"
    "\<And>m1 r1. \<not> a_suspf m1 \<Longrightarrow> frame_ok r1 \<Longrightarrow> frame_bytes r1 = wire ds @ ys \<Longrightarrow> reads env m1 r1 (wire ds) ds"
    "\<And>m1 r1. \<not> a_suspf m1 \<Longrightarrow> frame_ok r1 \<Longrightarrow> frame_bytes r1 = ys \<Longrightarrow> reads env m1 r1 zs cs"
  shows "reads env m r (wire_field (Sub ds) @ zs) (Sub ds # cs)"
proof -
  obtain r1 where r1: "getByte_cb r = (tag_byte TYPE_MSG, r1)" "took [tag_byte TYPE_MSG] r r1"
    using took_byte[OF assms(1)] assms(2) by (metis append_Cons wire_field.simps(3))
  have f1: "frame_ok r1" "frame_bytes r1 = wire ds @ ys"
    using took_split[OF r1(2)] assms(2) by (simp_all add: wire_def)
  obtain msg r2 where r2: "deserialize env new_MsgCnt r1 = Some (True, msg, r2)" "a_flag msg = MSG_CLEAR"
    "map content (a_fields msg) = ds" "took (wire ds) r1 r2"
    using assms(4)[of new_MsgCnt, OF _ f1] by (auto simp: reads_def new_MsgCnt_def)
  have f2: "frame_ok r2" "frame_bytes r2 = ys" using took_split[OF r2(4) f1(2)] by simp_all
  define m1 where "m1 = commit_slot (FT_MSGC msg) (checkSize m)"
  have "availableData r \<noteq> 0" using availableData_Cons[OF assms(1)] assms(2) by simp
  then have "deserialize env m r = deserialize env m1 r2"
    using r1(1) r2(1,2) assms(3)
    by (subst deserialize.simps) (simp add: msg_slot_def m1_def Let_def checkFlag_def)
  moreover have "reads env m1 r2 zs cs" by (rule assms(5)) (use f2 assms(3) in \<open>simp_all add: m1_def\<close>)
  moreover have "took (wire_field (Sub ds)) r r2" using took_trans[OF r1(2) r2(4)] by (simp add: wire_def)
  moreover have "content (FT_MSGC msg) = Sub ds" using r2(3) by (cases msg) simp
  ultimately show ?thesis by (intro reads_step[of env m r m1 r2]) (simp_all add: m1_def)
qed

lemma reads_wire:
  "frame_ok r \<Longrightarrow> frame_bytes r = wire cs @ ys \<Longrightarrow> list_all wf_content cs \<Longrightarrow> \<not> a_suspf m \<Longrightarrow> reads env m r (wire cs) cs"
proof (induction "size_list size cs" arbitrary: cs ys m r rule: less_induct)
  case less
  show ?case
  proof (cases cs)
    case Nil
    obtain r1 where "getByte_cb r = (tag_byte TYPE_END, r1)" "took [tag_byte TYPE_END] r r1"
      using took_byte[OF less.prems(1)] less.prems(2) Nil by (auto simp: wire_def)
    moreover have "availableData r \<noteq> 0" using availableData_Cons[OF less.prems(1)] less.prems(2) Nil by (simp add: wire_def)
    ultimately show ?thesis unfolding reads_def Nil by (subst deserialize.simps) (auto simp: wire_def)
  next
    case (Cons c cs')
    have fb: "frame_bytes r = wire_field c @ (wire cs' @ ys)" using less.prems(2) by (simp add: Cons wire_def)
    have wf: "wf_content c" "list_all wf_content cs'" using less.prems(3) Cons by simp_all
    have rest: "reads env m1 r1 (wire cs') cs'"
      if "\<not> a_suspf m1" "frame_ok r1" "frame_bytes r1 = wire cs' @ ys" for m1 r1
      using less.hyps[of cs'] wf(2) that Cons by simp
    have eq: "wire (c # cs') = wire_field c @ wire cs'" by (simp add: wire_def)
    show ?thesis
    proof (cases c)
      case (Num i) then show ?thesis unfolding Cons eq using reads_number[OF less.prems(1)] fb wf(1) rest less.prems(4) by blast
    next
      case (Area xs) then show ?thesis unfolding Cons eq using reads_area[OF less.prems(1)] fb wf(1) rest less.prems(4) by blast
    next
      case (Sub ds)
      have sz: "size_list size ds < size_list size cs" using Cons Sub by simp
      have sub: "reads env m1 r1 (wire ds) ds"
        if "\<not> a_suspf m1" "frame_ok r1" "frame_bytes r1 = wire ds @ (wire cs' @ ys)" for m1 r1
        using less.hyps[OF sz that(2,3)] that(1) wf(1) Sub by simp
      show ?thesis unfolding Cons eq unfolding Sub
        by (rule reads_sub[OF less.prems(1) fb[unfolded Sub] less.prems(4) sub rest])
    next
      case Other then show ?thesis using wf(1) by simp
    qed
  qed
qed

section \<open>Properties\<close>

text \<open>A message of a number, a data area and a message, and buffers for it.\<close>

definition null_env :: "unit msl_env" where
  "null_env = \<lparr>site_size = (\<lambda>_. 0), site_put = (\<lambda>_ b. b), site_get = (\<lambda>_. None), adc_type = (\<lambda>_. 0),
     adc_put = (\<lambda>x b. (True, x, b)), adc_new = (\<lambda>_. ()), adc_get = (\<lambda>x r. (True, x, r))\<rparr>"

definition example_msg :: "unit msg_cnt" where
  "example_msg = pushMsgC (pushIntVal (-1) new_MsgCnt)
     (pushDctVal \<lparr>dct_buf = [1, 2], dct_pos = 0, dct_size = 2, dct_mode = DSDD_UNDEF\<rparr> (pushIntVal 7 new_MsgCnt))"

definition example_read :: "nat \<Rightarrow> byte list \<Rightarrow> DssReadByteBuffer" where
  "example_read n xs = writeToBuffer xs (new_DssReadByteBuffer n)"

lemma example_read_frame:
  assumes "0 < n" "length xs \<le> n"
  shows "frame_ok (example_read n xs)" "frame_bytes (example_read n xs) = xs" "cb_bytes (example_read n xs) = xs"
proof -
  have "cb_ok (new_DssReadByteBuffer n)" "getFree_cb (new_DssReadByteBuffer n) = n" "cb_bytes (new_DssReadByteBuffer n) = []"
    using assms(1) by (simp_all add: new_DssReadByteBuffer_def cb_ok_def getSize_cb_def getFree_cb_def cb_bytes_def)
  then have "cb_ok (example_read n xs)" "cb_bytes (example_read n xs) = xs"
    using writeToBuffer_queue[of "new_DssReadByteBuffer n" xs] assms(2) by (simp_all add: example_read_def)
  moreover have "outerframe (example_read n xs) = 0"
    by (simp add: example_read_def writeToBuffer_def commitWrite_cb_def write_cb_def Let_def new_DssReadByteBuffer_def)
  moreover have "length (cb_bytes (example_read n xs)) = used (example_read n xs)" by simp
  ultimately show "frame_ok (example_read n xs)" "frame_bytes (example_read n xs) = xs" "cb_bytes (example_read n xs) = xs"
    by (auto simp: frame_ok_def frame_bytes_def availableData_def)
qed

lemma dct_read_rest:
  assumes "frame_ok r" "frame_bytes r = xs @ ys" "dct_size d \<noteq> 0" "dct_pos d < dct_size d" "length xs = dct_size d - dct_pos d"
  obtains d' r' where "dct_unmarshal d r = (True, d', r')" "took xs r r'"
proof -
  have av: "length xs \<le> availableData r" using length_frame[OF assms(1)] assms(2) by simp
  then have "took xs r (commitRead_cb (int (length xs)) r)" "read_cb r (length xs) = xs"
    using took_block[OF assms(1) av] assms(2) by simp_all
  then show thesis
    using that av assms(3-5) by (simp add: dct_unmarshal_def dct_read_def Let_def min_def)
qed

text \<open>C33: data areas that are sent in parts. When the part before has left less of a data area than
  there is space now, sending it copies from behind the end of the area. When the receiver has got
  the last part of a data area and another data area follows in the same frame, it takes the slot
  of that one for a data area in progress, although nothing has been put there.\<close>

theorem split_data_area_breaks:
  assumes "0 < dct_pos d" "dct_pos d < dct_size d" "dct_size d = length (dct_buf d)" "dct_mode d = DSDD_WRITE"
    "dct_size d - dct_pos d < availableSpace b"
    and "frame_ok r" "frame_bytes r = [tag_byte TYPE_DCT, ty] @ xs @ [tag_byte TYPE_DCT, ty'] @ ys"
    "checkFlag MSG_HAS_UNMARSHALCONT m" "a_suspf m" "length (a_fields m) < a_max_fields m"
    "a_slot m = Some (FT_DCT e)" "dct_size e \<noteq> 0" "dct_pos e < dct_size e" "length xs = dct_size e - dct_pos e"
  shows "dct_marshal d b = None \<and> deserialize env m r = None"
proof
  show "dct_marshal d b = None" using assms(1-5) by (auto simp: dct_marshal_def dct_write_def Let_def)
  obtain r1 where r1: "getByte_cb r = (tag_byte TYPE_DCT, r1)" "took [tag_byte TYPE_DCT] r r1"
    using took_byte[OF assms(6)] assms(7) by (metis append_Cons)
  have f1: "frame_ok r1" "frame_bytes r1 = ty # xs @ [tag_byte TYPE_DCT, ty'] @ ys" using took_split[OF r1(2)] assms(7) by simp_all
  obtain r2 where r2: "getByte_cb r1 = (ty, r2)" "took [ty] r1 r2" using took_byte[OF f1] by blast
  have f2: "frame_ok r2" "frame_bytes r2 = xs @ ([tag_byte TYPE_DCT, ty'] @ ys)" using took_split[OF r2(2)] f1(2) by simp_all
  obtain e' r3 where r3: "dct_unmarshal e r2 = (True, e', r3)" "took xs r2 r3"
    by (rule dct_read_rest[OF f2 assms(12-14)])
  have f3: "frame_ok r3" "frame_bytes r3 = tag_byte TYPE_DCT # ty' # ys" using took_split[OF r3(2) f2(2)] by simp_all
  obtain r4 where r4: "getByte_cb r3 = (tag_byte TYPE_DCT, r4)" "took [tag_byte TYPE_DCT] r3 r4" using took_byte[OF f3] by blast
  define m1 where "m1 = commit_slot (FT_DCT e') (checkSize m)"
  have m1: "a_slot (checkSize m1) = None" "a_suspf (checkSize m1)" "checkFlag MSG_HAS_UNMARSHALCONT (checkSize m1)"
    and m: "a_slot (checkSize m) = Some (FT_DCT e)" "a_suspf (checkSize m)" "checkFlag MSG_HAS_UNMARSHALCONT (checkSize m)"
    using assms(8-11) by (cases m; simp add: m1_def checkFlag_def)+
  have av: "availableData r \<noteq> 0" "1 \<le> availableData r1" "availableData r3 \<noteq> 0"
    using availableData_Cons[OF assms(6)] availableData_Cons[OF f1] availableData_Cons[OF f3] assms(7) by simp_all
  have "deserialize env m r = deserialize env m1 r3"
    using r1(1) r2(1) r3(1) m av(1,2) by (subst deserialize.simps) (simp add: canRead_def dct_slot_def m1_def Let_def)
  also have "\<dots> = None"
    using r4(1) m1 av(3) by (subst deserialize.simps) (simp add: dct_slot_def Let_def split: prod.split)
  finally show "deserialize env m r = None" .
qed

theorem split_data_area_breaks_witness:
  "dct_marshal \<lparr>dct_buf = [1, 2, 3], dct_pos = 2, dct_size = 3, dct_mode = DSDD_WRITE\<rparr> (new_DssWriteByteBuffer 10) = None \<and>
   deserialize null_env (MsgCnt MSG_HAS_UNMARSHALCONT True 8 [] 0
       (Some (FT_DCT \<lparr>dct_buf = [1, 2, 0], dct_pos = 2, dct_size = 3, dct_mode = DSDD_READ\<rparr>)))
     (example_read 30 [3, 0, 9, 3, 0, 1, 0, 0, 0, 4, 2]) = None"
  by (rule split_data_area_breaks[where ty = 0 and xs = "[9]" and ty' = 0 and ys = "[1, 0, 0, 0, 4, 2]"
        and e = "\<lparr>dct_buf = [1, 2, 0], dct_pos = 2, dct_size = 3, dct_mode = DSDD_READ\<rparr>"])
    (simp_all add: example_read_frame checkFlag_def new_DssWriteByteBuffer_def availableSpace_def getFree_cb_def getSize_cb_def)

end
