(* ===== verification/TransObj.thy ===== *)
theory TransObj
  imports MsgSerialize
begin

text \<open>
  Frames (\<^verbatim>\<open>BufferedTransObj\<close> of \<^verbatim>\<open>platform/dss/src/msl_transObj.cc\<close>): a message or a part of one goes out
  between a header with the number of the last message received and the size of the frame, and a
  trailer that tells whether the message is complete. The other side waits until a whole frame has
  arrived. What the communication object does with acknowledgements and messages is not part of
  this component: \<open>unmarshal_frame\<close> returns the acknowledgement that has been read, the message and
  whether it is complete; \<open>conts\<close> are the messages of which parts have been received, and
  \<open>msgReceived\<close> is the answer of the communication object to a complete message.
\<close>

definition CF_FIRST :: byte where "CF_FIRST = 0"
definition CF_CONT :: byte where "CF_CONT = 1"
definition CF_FINAL :: byte where "CF_FINAL = 2"

definition HEADER1 :: nat where
  "HEADER1 = 1 + SIZE_INT + SIZE_INT"

definition TRAILER :: nat where
  "TRAILER = 1"

text \<open>\<^verbatim>\<open>BufferedTransObj::marshal\<close>; the number of a message that has been sent in part is \<open>msgnum\<close>.\<close>

definition marshal_frame :: "'x msl_env \<Rightarrow> int32 \<Rightarrow> 'x msg_cnt \<Rightarrow> int32 \<Rightarrow> DssWriteByteBuffer \<Rightarrow> ('x msg_cnt \<times> DssWriteByteBuffer) option" where
  "marshal_frame env msgnum msgC acknum b0 =
    (let framesize = getFree_cb b0;
         b1 = putByte_cb 0xFF b0;
         b2 = putInt_cb acknum b1;
         pos = putpos b2;
         b3 = putInt_cb 0 b2;
         b4 = (if checkFlag MSG_HAS_MARSHALCONT msgC then putInt_cb msgnum (putByte_cb CF_CONT b3)
               else putByte_cb CF_FIRST b3);
         b5 = reserveSpace TRAILER b4
     in case m_serialize env msgC b5 of None \<Rightarrow> None
       | Some (msgC', b6) \<Rightarrow>
           let b7 = resetReserve b6;
               b8 = putByte_cb (if checkFlag MSG_HAS_MARSHALCONT msgC' then CF_CONT else CF_FINAL) b7
           in Some (msgC', putInt_at pos (of_nat (framesize - getFree_cb b8)) b8))"

datatype 'x unmarshal_result = U_MORE int32 "'x msg_cnt" bool | U_WAIT "int32 option" | U_CLOSED int32 "'x msg_cnt"

text \<open>\<^verbatim>\<open>BufferedTransObj::unmarshal\<close>.\<close>

definition unmarshal_frame :: "'x msl_env \<Rightarrow> (int32 \<Rightarrow> 'x msg_cnt option) \<Rightarrow> ('x msg_cnt \<Rightarrow> bool) \<Rightarrow> DssReadByteBuffer \<Rightarrow>
    ('x unmarshal_result \<times> DssReadByteBuffer) option" where
  "unmarshal_frame env conts msgReceived r0 =
    (if used r0 < HEADER1 then Some (U_WAIT None, r0)
     else case getByte_cb r0 of (_, r1) \<Rightarrow> case getInt_cb r1 of (acknum, r2) \<Rightarrow> case getInt_cb r2 of (framesize, r3) \<Rightarrow>
       if used r3 < unat (framesize - of_nat HEADER1) then Some (U_WAIT (Some acknum), commitRead_cb (- int HEADER1) r3)
       else case getByte_cb (setFrameSize (unat (framesize - of_nat HEADER1 - of_nat TRAILER)) r3) of (cf, r4) \<Rightarrow>
         (case (if cf = CF_FIRST then Some (new_MsgCnt, r4)
                else case getInt_cb r4 of (msgnum, r5) \<Rightarrow> map_option (\<lambda>m. (m, r5)) (conts msgnum)) of None \<Rightarrow> None
          | Some (msgC, r5) \<Rightarrow> (case deserialize env msgC r5 of None \<Rightarrow> None
             | Some (ok, msgC', r6) \<Rightarrow>
                 if ok then (case getByte_cb (resetFrame r6) of (cf', r7) \<Rightarrow>
                   if cf' = CF_CONT then Some (U_MORE acknum msgC' False, r7)
                   else Some (if msgReceived msgC' then U_MORE acknum msgC' True else U_CLOSED acknum msgC', r7))
                 else Some (U_CLOSED acknum msgC', r6))))"

section \<open>Overwriting an integer\<close>

text \<open>A byte at distance \<open>k\<close> from the read position.\<close>

lemma overwrite_byte:
  assumes "cb_ok b" "k < used b"
  shows "cb_bytes (b\<lparr>cbuf := (cbuf b)[(getpos b + k) mod getSize_cb b := x]\<rparr>) = (cb_bytes b)[k := x]"
    "cb_ok (b\<lparr>cbuf := (cbuf b)[(getpos b + k) mod getSize_cb b := x]\<rparr>)"
proof -
  define n where "n = getSize_cb b"
  have b: "getpos b < n" "used b \<le> n" "length (cbuf b) = n" using assms(1) by (auto simp: cb_ok_def n_def getSize_cb_def)
  show "cb_ok (b\<lparr>cbuf := (cbuf b)[(getpos b + k) mod getSize_cb b := x]\<rparr>)" using assms(1) by (simp add: cb_ok_def)
  show "cb_bytes (b\<lparr>cbuf := (cbuf b)[(getpos b + k) mod getSize_cb b := x]\<rparr>) = (cb_bytes b)[k := x]"
  proof (rule nth_equalityI)
    fix j assume "j < length (cb_bytes (b\<lparr>cbuf := (cbuf b)[(getpos b + k) mod getSize_cb b := x]\<rparr>))"
    then have j: "j < used b" by simp
    have "(getpos b + j) mod n = (getpos b + k) mod n \<longleftrightarrow> j = k"
      using mod_shift_inj[of j n k "getpos b"] j assms(2) b(2) by auto
    moreover have "(getpos b + k) mod n < length (cbuf b)" using b by simp
    ultimately show "cb_bytes (b\<lparr>cbuf := (cbuf b)[(getpos b + k) mod getSize_cb b := x]\<rparr>) ! j = (cb_bytes b)[k := x] ! j"
      using j assms(2) by (auto simp: cb_bytes_def n_def nth_list_update)
  qed simp
qed

lemma putInt_at_loop_bytes:
  "cb_ok b \<Longrightarrow> k + n \<le> used b \<Longrightarrow> pos = (getpos b + k) mod getSize_cb b \<Longrightarrow>
   cb_ok (putInt_at_loop n pos i b) \<and> getSize_cb (putInt_at_loop n pos i b) = getSize_cb b \<and>
   cb_bytes (putInt_at_loop n pos i b) = take k (cb_bytes b) @ map (\<lambda>j. ucast (signed_drop_bit (8 * j) i AND 0xFF)) [0..<n] @ drop (k + n) (cb_bytes b)"
proof (induction n arbitrary: b k pos i)
  case (Suc n)
  define b' where "b' = b\<lparr>cbuf := (cbuf b)[pos := ucast (i AND 0xFF)]\<rparr>"
  have sz: "0 < getSize_cb b" using Suc.prems(1) by (auto simp: cb_ok_def)
  have b': "cb_ok b'" "cb_bytes b' = (cb_bytes b)[k := ucast (i AND 0xFF)]" "used b' = used b" "getpos b' = getpos b" "getSize_cb b' = getSize_cb b"
    using overwrite_byte[OF Suc.prems(1), of k] Suc.prems(2,3) by (simp_all add: b'_def)
  have "pos < getSize_cb b" using Suc.prems(3) sz by simp
  then have "checkPos b (pos + 1) = (pos + 1) mod getSize_cb b" by (intro checkPos_mod) simp
  then have p: "checkPos b (pos + 1) = (getpos b' + Suc k) mod getSize_cb b'"
    using Suc.prems(3) b'(4,5) by (simp add: mod_simps)
  have "signed_drop_bit (8 * j) (signed_drop_bit 8 i) = signed_drop_bit (8 * Suc j) i" for j
    by (simp add: signed_drop_bit_signed_drop_bit algebra_simps)
  then have e: "map (\<lambda>j. ucast (signed_drop_bit (8 * j) (signed_drop_bit 8 i) AND 0xFF) :: byte) [0..<n] =
      map (\<lambda>j. ucast (signed_drop_bit (8 * j) i AND 0xFF)) (map Suc [0..<n])" by simp
  have u: "[0..<Suc n] = 0 # map Suc [0..<n]" by (simp add: map_Suc_upt upt_conv_Cons)
  have "take (Suc k) (cb_bytes b') = take k (cb_bytes b) @ [ucast (i AND 0xFF)]"
    using Suc.prems(2) b'(2) by (simp add: take_Suc_conv_app_nth)
  moreover have "drop (Suc k + n) (cb_bytes b') = drop (k + Suc n) (cb_bytes b)" using b'(2) by simp
  moreover have "putInt_at_loop (Suc n) pos i b = putInt_at_loop n (checkPos b (pos + 1)) (signed_drop_bit 8 i) b'"
    by (simp add: b'_def)
  ultimately show ?case
    using Suc.IH[OF b'(1) _ p, of "signed_drop_bit 8 i"] Suc.prems(2) b'(3,5) e u by simp
qed simp

lemma putInt_at_bytes:
  assumes "cb_ok b" "k + 4 \<le> used b" "pos = (getpos b + k) mod getSize_cb b"
  shows "cb_ok (putInt_at pos i b)" "cb_bytes (putInt_at pos i b) = take k (cb_bytes b) @ gf_integer2char i @ drop (k + 4) (cb_bytes b)"
proof -
  have "map (\<lambda>j. ucast (signed_drop_bit (8 * j) i AND 0xFF) :: byte) [0..<4] = gf_integer2char i"
    using byte_of_signed[of 0 i] byte_of_signed[of 8 i] byte_of_signed[of 16 i] byte_of_signed[of 24 i]
    by (simp add: gf_integer2char_def upt_rec)
  then show "cb_ok (putInt_at pos i b)" "cb_bytes (putInt_at pos i b) = take k (cb_bytes b) @ gf_integer2char i @ drop (k + 4) (cb_bytes b)"
    using putInt_at_loop_bytes[OF assms(1), of k 4 pos i] assms(2,3) by (simp_all add: putInt_at_def SIZE_INT_def)
qed

section \<open>The bytes of a frame\<close>

definition frame :: "int32 \<Rightarrow> msg_content list \<Rightarrow> byte list" where
  "frame acknum cs = 0xFF # gf_integer2char acknum @ gf_integer2char (of_nat (length (wire cs) + 11)) @ CF_FIRST # wire cs @ [CF_FINAL]"

lemma length_frame_eq: "length (frame acknum cs) = length (wire cs) + 11"
  by (simp add: frame_def)

text \<open>A reserve only changes the space that is offered.\<close>

lemma reserved_simps [simp]:
  "cb_ok (b\<lparr>reserved := k\<rparr>) = cb_ok b" "cb_bytes (b\<lparr>reserved := k\<rparr>) = cb_bytes b" "getSize_cb (b\<lparr>reserved := k\<rparr>) = getSize_cb b"
  "getFree_cb (b\<lparr>reserved := k\<rparr>) = getFree_cb b"
  by (simp_all add: cb_ok_def cb_bytes_def getSize_cb_def getFree_cb_def)

lemma wrote_reserved:
  "wrote xs (b\<lparr>reserved := k\<rparr>) b' \<Longrightarrow> reserved b \<le> k \<Longrightarrow> wrote xs b (b'\<lparr>reserved := reserved b\<rparr>)"
  by (simp add: wrote_def wb_ok_def)

text \<open>The header with the room for the size, and where that room is.\<close>

lemma header_wrote:
  assumes "wb_ok b" "10 \<le> availableSpace b" and b2_def: "b2 = putInt_cb acknum (putByte_cb 0xFF b)"
  shows "wrote ((0xFF # gf_integer2char acknum) @ gf_integer2char 0 @ [CF_FIRST]) b (putByte_cb CF_FIRST (putInt_cb 0 b2))"
    "putpos b2 = (getpos b + (used b + 5)) mod getSize_cb b"
proof -
  have w1: "wrote [0xFF] b (putByte_cb 0xFF b)" by (rule wrote_byte) (use assms in auto)
  have w2: "wrote (gf_integer2char acknum) (putByte_cb 0xFF b) b2"
    unfolding b2_def by (rule wrote_int) (use wrote_space[OF w1] assms in auto)
  have w12: "wrote (0xFF # gf_integer2char acknum) b b2" by (rule wrote_Cons[OF w1 w2])
  have w3: "wrote (gf_integer2char 0) b2 (putInt_cb 0 b2)" by (rule wrote_int) (use wrote_space[OF w12] assms in auto)
  have "wrote [CF_FIRST] (putInt_cb 0 b2) (putByte_cb CF_FIRST (putInt_cb 0 b2))"
    by (rule wrote_byte) (use wrote_space[OF w3] wrote_space[OF w12] assms in auto)
  then show "wrote ((0xFF # gf_integer2char acknum) @ gf_integer2char 0 @ [CF_FIRST]) b (putByte_cb CF_FIRST (putInt_cb 0 b2))"
    by (rule wrote_trans[OF w12 wrote_trans[OF w3]])
  show "putpos b2 = (getpos b + (used b + 5)) mod getSize_cb b"
    using w12 length_cb_bytes[of b2] by (simp add: wrote_def wb_ok_def cb_ok_def)
qed

lemma marshal_frame_ok:
  assumes "sendable (FT_MSGC m)" "a_flag m = MSG_CLEAR" "cb_ok b" "reserved b = 0"
    "length (wire (map content (a_fields m))) + 111 \<le> getFree_cb b"
  obtains m' b' where "marshal_frame env msgnum m acknum b = Some (m', b')" "checkFlag MSG_CLEAR m'" "cb_ok b'"
    "cb_bytes b' = cb_bytes b @ frame acknum (map content (a_fields m))"
proof -
  define cs where "cs = map content (a_fields m)"
  define b2 where "b2 = putInt_cb acknum (putByte_cb 0xFF b)"
  define b4 where "b4 = putByte_cb CF_FIRST (putInt_cb 0 b2)"
  define b5 where "b5 = reserveSpace TRAILER b4"
  have sp0: "length (wire cs) + 111 \<le> availableSpace b" using assms(4,5) by (simp add: availableSpace_def cs_def)
  have w4: "wrote ((0xFF # gf_integer2char acknum) @ gf_integer2char 0 @ [CF_FIRST]) b b4"
    and pos: "putpos b2 = (getpos b + (used b + 5)) mod getSize_cb b"
    using header_wrote[OF _ _ b2_def] assms(3,4) sp0 by (simp_all add: b4_def wb_ok_def)
  have r4: "reserved b4 = 0" "cb_ok b4" "availableSpace b4 = availableSpace b - 10"
    using w4 assms(4) wrote_space[OF w4] by (simp_all add: wrote_def wb_ok_def)
  have b5: "b5 = b4\<lparr>reserved := 1\<rparr>" using r4(1) by (simp add: b5_def reserveSpace_def TRAILER_def)
  have "wb_ok b5" "length (wire cs) + 100 \<le> availableSpace b5" using r4 sp0 by (auto simp: b5 availableSpace_def wb_ok_def)
  then obtain m' b6 where s: "m_serialize env m b5 = Some (m', b6)" "checkFlag MSG_CLEAR m'" "wrote (wire cs) b5 b6"
    using serialize_ok(1)[OF assms(1), of b5 env] by (auto simp: cs_def)
  define b8 where "b8 = putByte_cb CF_FINAL (resetReserve b6)"
  have w7: "wrote (wire cs) b4 (resetReserve b6)" using wrote_reserved[OF s(3)[unfolded b5]] r4(1) by (simp add: resetReserve_def)
  have w8: "wrote [CF_FINAL] (resetReserve b6) b8" unfolding b8_def by (rule wrote_byte) (use wrote_space[OF w7] r4(3) sp0 in auto)
  have by8: "cb_ok b8" "getSize_cb b8 = getSize_cb b" "getpos b8 = getpos b"
    "cb_bytes b8 = cb_bytes b @ (0xFF # gf_integer2char acknum) @ gf_integer2char 0 @ CF_FIRST # wire cs @ [CF_FINAL]"
    using wrote_trans[OF w4 wrote_trans[OF w7 w8]] by (simp_all add: wrote_def wb_ok_def)
  have used8: "used b8 = used b + length (wire cs) + 11" using arg_cong[OF by8(4), of length] by simp
  have free: "getFree_cb b - getFree_cb b8 = length (wire cs) + 11"
    using used8 by8(2) sp0 assms(4) by (simp add: getFree_cb_def availableSpace_def)
  define b9 where "b9 = putInt_at (putpos b2) (of_nat (length (wire cs) + 11)) b8"
  have "marshal_frame env msgnum m acknum b = Some (m', b9)"
    using s(1,2) assms(2) free
    by (simp add: marshal_frame_def Let_def checkFlag_def b2_def[symmetric] b4_def[symmetric] b5_def[symmetric] b8_def[symmetric] b9_def)
  moreover have "cb_ok b9" "cb_bytes b9 = cb_bytes b @ frame acknum cs"
    using putInt_at_bytes[OF by8(1), of "used b + 5" "putpos b2" "of_nat (length (wire cs) + 11)"] used8 by8(2-4) pos
    by (simp_all add: b9_def frame_def)
  ultimately show thesis using that s(2) by (simp add: cs_def)
qed

section \<open>Reading frames\<close>

text \<open>Moving the read position forwards and back.\<close>

definition adv :: "nat \<Rightarrow> DssReadByteBuffer \<Rightarrow> DssReadByteBuffer" where
  "adv k r = r\<lparr>getpos := (getpos r + k) mod getSize_cb r, used := used r - k\<rparr>"

lemma adv_adv: "adv j (adv k r) = adv (j + k) r"
  by (simp add: adv_def mod_simps ac_simps)

lemma getByte_adv: "cb_ok r \<Longrightarrow> snd (getByte_cb r) = adv 1 r"
  by (simp add: getByte_cb_def adv_def checkPos_mod cb_ok_def)

lemma adv_queue:
  assumes "cb_ok r" "k \<le> used r"
  shows "cb_ok (adv k r)" "cb_bytes (adv k r) = drop k (cb_bytes r)"
  using advance_queue[OF assms] by (simp_all add: adv_def)

lemma getInt_loop_adv:
  "k \<le> 4 \<Longrightarrow> cb_ok r \<Longrightarrow> k \<le> used r \<Longrightarrow> snd (getInt_loop (4 - k) i r) = adv k r"
proof (induction k arbitrary: i r)
  case 0 then show ?case by (simp add: getInt_loop.simps SIZE_INT_def adv_def cb_ok_def)
next
  case (Suc k)
  obtain c where "getByte_cb r = (c, adv 1 r)" using getByte_adv[OF Suc.prems(2)] by (cases "getByte_cb r") simp
  moreover have "Suc (4 - Suc k) = 4 - k" using Suc.prems(1) by simp
  moreover have "cb_ok (adv 1 r)" "used (adv 1 r) = used r - 1" using adv_queue(1)[OF Suc.prems(2), of 1] Suc.prems(3) by (simp_all add: adv_def)
  ultimately show ?case
    using Suc.IH[of "adv 1 r"] Suc.prems adv_adv[of k 1 r]
    by (subst getInt_loop.simps) (simp add: SIZE_INT_def split: prod.split)
qed

lemma getInt_adv: "cb_ok r \<Longrightarrow> 4 \<le> used r \<Longrightarrow> snd (getInt_cb r) = adv 4 r"
  using getInt_loop_adv[of 4 r 0] by (simp add: getInt_cb_def)

lemma commitRead_back:
  assumes "cb_ok r" "0 < k" "k \<le> used r"
  shows "commitRead_cb (- int k) (adv k r) = r"
proof -
  define n where "n = getSize_cb r"
  have r: "getpos r < n" "used r \<le> n" using assms(1) by (auto simp: cb_ok_def n_def)
  have k: "k \<le> n" using assms(3) r(2) by simp
  have "(getpos r + k) mod n = (if getpos r + k < n then getpos r + k else getpos r + k - n)"
    using r(1) k by (auto simp: mod_if)
  then have "checkPos r (nat (int ((getpos r + k) mod n) + (- int k + int n))) = getpos r"
    using r(1) k by (auto simp: checkPos_def n_def[symmetric])
  moreover have "nat (int (used r - k) + int k) = used r" using assms(3) by simp
  ultimately show ?thesis
    using assms(2,3) by (auto simp: commitRead_cb_def adv_def Let_def checkPos_def n_def split: if_splits)
qed

text \<open>The header of a frame in front of a buffer.\<close>

lemma read_header:
  assumes "cb_ok r" "cb_bytes r = 0xFF # gf_integer2char i @ gf_integer2char j @ zs"
  obtains r1 r2 where "getByte_cb r = (0xFF, r1)" "getInt_cb r1 = (i, r2)" "getInt_cb r2 = (j, adv 9 r)"
    "cb_ok (adv 9 r)" "cb_bytes (adv 9 r) = zs"
proof -
  have u: "9 \<le> used r" using arg_cong[OF assms(2), of length] by simp
  have 1: "fst (getByte_cb r) = 0xFF" "snd (getByte_cb r) = adv 1 r" "cb_ok (adv 1 r)" "cb_bytes (adv 1 r) = gf_integer2char i @ gf_integer2char j @ zs"
    using getByte_queue[OF assms] getByte_adv[OF assms(1)] by simp_all
  have u1: "used (adv 1 r) = used r - 1" "used (adv 5 r) = used r - 5" by (simp_all add: adv_def)
  have 2: "fst (getInt_cb (adv 1 r)) = i" "snd (getInt_cb (adv 1 r)) = adv 5 r" "cb_ok (adv 5 r)" "cb_bytes (adv 5 r) = gf_integer2char j @ zs"
    using getInt_queue[OF 1(3), of _ _ _ _ "gf_integer2char j @ zs"] 1(4) getInt_adv[OF 1(3)] u1(1) u adv_adv[of 4 1 r] char2integer_integer2char[of i "[]"]
    by (simp_all add: gf_integer2char_def)
  have 3: "fst (getInt_cb (adv 5 r)) = j" "snd (getInt_cb (adv 5 r)) = adv 9 r" "cb_ok (adv 9 r)" "cb_bytes (adv 9 r) = zs"
    using getInt_queue[OF 2(3), of _ _ _ _ zs] 2(4) getInt_adv[OF 2(3)] u1(2) u adv_adv[of 4 5 r] char2integer_integer2char[of j "[]"]
    by (simp_all add: gf_integer2char_def)
  show thesis using that[of "adv 1 r" "adv 5 r"] 1 2 3 by (simp add: prod_eq_iff)
qed

lemma unat_of_nat32: "n < 2 ^ 32 \<Longrightarrow> unat (of_nat n :: int32) = n"
  by (simp add: unsigned_of_nat take_bit_nat_eq_self)

text \<open>The size in the header less the header, and less the trailer, at the width of \<^verbatim>\<open>u32\<close>.\<close>

lemma unat_body:
  assumes "n + 11 < 2 ^ 32"
  shows "unat (2 + of_nat n :: int32) = Suc (Suc n)" "unat (1 + of_nat n :: int32) = Suc n"
  using unat_of_nat32[of "Suc (Suc n)"] unat_of_nat32[of "Suc n"] assms by simp_all

lemma outerframe_simps:
  "cb_ok (r\<lparr>outerframe := k\<rparr>) = cb_ok r" "cb_bytes (r\<lparr>outerframe := k\<rparr>) = cb_bytes r"
  by (simp_all add: cb_ok_def cb_bytes_def getSize_cb_def)

lemma frame_split: "cb_bytes r = frame_bytes r @ after_frame r"
  by (simp add: frame_bytes_def after_frame_def)

lemma setFrameSize_frame:
  assumes "cb_ok r" "cb_bytes r = xs @ ys" "length xs = k"
  shows "frame_ok (setFrameSize k r)" "frame_bytes (setFrameSize k r) = xs" "after_frame (setFrameSize k r) = ys"
proof -
  have "used r = k + length ys" using arg_cong[OF assms(2), of length] assms(3) by simp
  then have "availableData (setFrameSize k r) = k" by (simp add: availableData_def setFrameSize_def)
  moreover have "cb_ok (setFrameSize k r) = cb_ok r" "cb_bytes (setFrameSize k r) = cb_bytes r"
    by (simp_all add: setFrameSize_def outerframe_simps)
  ultimately show "frame_ok (setFrameSize k r)" "frame_bytes (setFrameSize k r) = xs" "after_frame (setFrameSize k r) = ys"
    using assms \<open>used r = k + length ys\<close> by (simp_all add: frame_ok_def frame_bytes_def after_frame_def setFrameSize_def)
qed

lemma unmarshal_frame_ok:
  assumes "cb_ok r" "cb_bytes r = frame acknum cs @ ys" "list_all wf_content cs" "length (wire cs) + 11 < 2 ^ 32"
  obtains m r' where "unmarshal_frame env conts msgReceived r = Some (if msgReceived m then U_MORE acknum m True else U_CLOSED acknum m, r')" "map content (a_fields m) = cs"
    "a_flag m = MSG_CLEAR" "cb_ok r'" "cb_bytes r' = ys" "outerframe r' = 0"
proof -
  define L where "L = length (wire cs)"
  note sz = unat_body[OF assms(4), folded L_def]
  obtain r1 r2 where h: "getByte_cb r = (0xFF, r1)" "getInt_cb r1 = (acknum, r2)" "getInt_cb r2 = (of_nat (L + 11), adv 9 r)"
    "cb_ok (adv 9 r)" "cb_bytes (adv 9 r) = (CF_FIRST # wire cs) @ CF_FINAL # ys"
    by (rule read_header[OF assms(1), of acknum "of_nat (L + 11)" "CF_FIRST # wire cs @ CF_FINAL # ys"])
      (use assms(2) in \<open>simp_all add: frame_def L_def\<close>)
  have u: "used (adv 9 r) = L + 2 + length ys" using arg_cong[OF h(5), of length] by (simp add: L_def)
  define q where "q = setFrameSize (Suc L) (adv 9 r)"
  have q: "frame_ok q" "frame_bytes q = CF_FIRST # wire cs" "after_frame q = CF_FINAL # ys"
    using setFrameSize_frame[OF h(4,5), of "L + 1"] by (simp_all add: q_def L_def)
  obtain r4 where r4: "getByte_cb q = (CF_FIRST, r4)" "took [CF_FIRST] q r4" using took_byte[OF q(1,2)] by blast
  have f4: "frame_ok r4" "frame_bytes r4 = wire cs @ []" using took_split[OF r4(2)] q(2) by simp_all
  have "reads env new_MsgCnt r4 (wire cs) cs" by (rule reads_wire[OF f4 assms(3)]) (simp add: new_MsgCnt_def)
  then obtain m r6 where r6: "deserialize env new_MsgCnt r4 = Some (True, m, r6)" "a_flag m = MSG_CLEAR" "map content (a_fields m) = cs"
    "took (wire cs) r4 r6" by (auto simp: reads_def new_MsgCnt_def)
  have "frame_bytes r6 = []" "after_frame r6 = CF_FINAL # ys" "cb_ok r6"
    using r6(4) r4(2) q(3) f4(2) by (simp_all add: took_def frame_ok_def)
  then have "cb_ok (resetFrame r6)" "cb_bytes (resetFrame r6) = CF_FINAL # ys"
    using frame_split[of r6] by (simp_all add: resetFrame_def outerframe_simps)
  note g = getByte_queue[OF this]
  then obtain r7 where r7: "getByte_cb (resetFrame r6) = (CF_FINAL, r7)" "cb_ok r7" "cb_bytes r7 = ys" by (metis prod.collapse)
  have "used r \<ge> 9" using arg_cong[OF assms(2), of length] by (simp add: length_frame_eq)
  then have "unmarshal_frame env conts msgReceived r = Some (if msgReceived m then U_MORE acknum m True else U_CLOSED acknum m, r7)"
    using h(1-3) r4(1) r6(1) r7(1) u sz
    by (simp add: unmarshal_frame_def HEADER1_def SIZE_INT_def TRAILER_def q_def[symmetric] CF_CONT_def CF_FINAL_def)
  moreover have "outerframe r7 = 0" using r7(1) by (auto simp: getByte_cb_def resetFrame_def)
  ultimately show thesis using that r6(2,3) r7(2,3) by blast
qed

lemma unmarshal_frame_waits:
  assumes "cb_ok r" "cb_bytes r @ us = frame acknum cs" "us \<noteq> []" "length (wire cs) + 11 < 2 ^ 32"
  shows "\<exists>a. unmarshal_frame env conts msgReceived r = Some (U_WAIT a, r)"
proof (cases "used r < 9")
  case True then show ?thesis by (simp add: unmarshal_frame_def HEADER1_def SIZE_INT_def)
next
  case False
  define L where "L = length (wire cs)"
  note sz = unat_body[OF assms(4), folded L_def]
  define zs where "zs = drop 9 (cb_bytes r)"
  have "take 9 (cb_bytes r @ us) = 0xFF # gf_integer2char acknum @ gf_integer2char (of_nat (L + 11))"
    unfolding assms(2) by (simp add: frame_def L_def)
  then have "take 9 (cb_bytes r) = 0xFF # gf_integer2char acknum @ gf_integer2char (of_nat (L + 11))" using False by simp
  then have cb: "cb_bytes r = 0xFF # gf_integer2char acknum @ gf_integer2char (of_nat (L + 11)) @ zs"
    using append_take_drop_id[of 9 "cb_bytes r"] by (simp add: zs_def)
  obtain r1 r2 where h: "getByte_cb r = (0xFF, r1)" "getInt_cb r1 = (acknum, r2)" "getInt_cb r2 = (of_nat (L + 11), adv 9 r)"
    "cb_bytes (adv 9 r) = zs"
    by (rule read_header[OF assms(1) cb])
  have "length (cb_bytes r) + length us = L + 11" using arg_cong[OF assms(2), of length] by (simp add: length_frame_eq L_def)
  then have "used r + length us = L + 11" by simp
  moreover have "0 < length us" "used (adv 9 r) = used r - 9" using assms(3) by (simp_all add: adv_def)
  ultimately have "used (adv 9 r) < L + 11 - 9" using False by linarith
  then show ?thesis
    using h(1-3) False sz commitRead_back[OF assms(1), of 9] by (simp add: unmarshal_frame_def HEADER1_def SIZE_INT_def)
qed

section \<open>Properties\<close>

text \<open>C32: messages survive the wire. A message of numbers, data areas and messages that fits is written
  as one frame behind what is in the write buffer. On the other side nothing happens and nothing is
  lost as long as only a part of the frame has arrived; once the frame is there, it is taken off the
  buffer and gives the acknowledgement and a complete message with the same contents in the same
  order, nested messages included, whatever follows; the connection is closed exactly when the
  communication object refuses the message.\<close>

theorem frame_round_trip:
  assumes "sendable (FT_MSGC m)" "a_flag m = MSG_CLEAR" "cb_ok b" "reserved b = 0"
    "length (wire (map content (a_fields m))) + 111 \<le> getFree_cb b" "getSize_cb b < 2 ^ 32"
    "cb_ok r" "cb_ok r0" "us \<noteq> []"
    "cb_bytes r0 @ us = drop (used b) (cb_bytes (snd (the (marshal_frame env msgnum m acknum b))))"
    "cb_bytes r = cb_bytes r0 @ us @ ys"
  shows "\<exists>m1 b1 m2 r2. marshal_frame env msgnum m acknum b = Some (m1, b1) \<and> checkFlag MSG_CLEAR m1 \<and> cb_ok b1 \<and>
    take (used b) (cb_bytes b1) = cb_bytes b \<and>
    (\<exists>a. unmarshal_frame env conts msgReceived r0 = Some (U_WAIT a, r0)) \<and>
    unmarshal_frame env conts msgReceived r = Some (if msgReceived m2 then U_MORE acknum m2 True else U_CLOSED acknum m2, r2) \<and> checkFlag MSG_CLEAR m2 \<and>
    map content (a_fields m2) = map content (a_fields m) \<and> cb_ok r2 \<and> cb_bytes r2 = ys"
proof -
  define cs where "cs = map content (a_fields m)"
  obtain m1 b1 where s: "marshal_frame env msgnum m acknum b = Some (m1, b1)" "checkFlag MSG_CLEAR m1" "cb_ok b1"
    "cb_bytes b1 = cb_bytes b @ frame acknum cs"
    unfolding cs_def by (rule marshal_frame_ok[OF assms(1-5)])
  have fr: "cb_bytes r0 @ us = frame acknum cs" using assms(10) s(1,4) by simp
  have wf: "list_all wf_content cs" using assms(1) sendable_content by (cases m) (auto simp: list_all_iff cs_def)
  have len: "length (wire cs) + 11 < 2 ^ 32" using assms(5,6) by (simp add: getFree_cb_def cs_def)
  have rb: "cb_bytes r = frame acknum cs @ ys" using assms(11) fr by simp
  obtain m2 r2 where "unmarshal_frame env conts msgReceived r = Some (if msgReceived m2 then U_MORE acknum m2 True else U_CLOSED acknum m2, r2)" "map content (a_fields m2) = cs"
    "a_flag m2 = MSG_CLEAR" "cb_ok r2" "cb_bytes r2 = ys"
    by (rule unmarshal_frame_ok[OF assms(7) rb wf len])
  then show ?thesis
    using s unmarshal_frame_waits[OF assms(8) fr assms(9) len, of env conts msgReceived] by (auto simp: cs_def checkFlag_def)
qed

definition example_content :: "msg_content list" where
  "example_content = [Num 7, Area [1, 2], Sub [Num (-1)]]"

lemma example_facts:
  "sendable (FT_MSGC example_msg)" "a_flag example_msg = MSG_CLEAR" "map content (a_fields example_msg) = example_content"
  "length (wire example_content) = 21"
  by (simp_all add: example_msg_def example_content_def wire_def pushMsgC_def pushIntVal_def pushDctVal_def new_MsgCnt_def INITIAL_SIZE_def m_pushVal_def)

theorem frame_round_trip_witness:
  "\<exists>m2 r2 a. unmarshal_frame null_env (\<lambda>_. None) (\<lambda>_. True) (example_read 40 (take 12 (frame 3 example_content))) =
      Some (U_WAIT a, example_read 40 (take 12 (frame 3 example_content))) \<and>
    unmarshal_frame null_env (\<lambda>_. None) (\<lambda>_. True) (example_read 40 (frame 3 example_content @ [77])) = Some (U_MORE 3 m2 True, r2) \<and>
    map content (a_fields m2) = example_content \<and> cb_bytes r2 = [77]"
proof -
  define b where "b = new_DssWriteByteBuffer 140"
  define fr where "fr = frame 3 example_content"
  have fr: "length fr = 32" by (simp add: fr_def length_frame_eq example_facts(4))
  have b: "cb_ok b" "reserved b = 0" "getFree_cb b = 140" "getSize_cb b = 140" "used b = 0" "cb_bytes b = []"
    by (simp_all add: b_def new_DssWriteByteBuffer_def cb_ok_def getSize_cb_def getFree_cb_def cb_bytes_def)
  have sp: "length (wire (map content (a_fields example_msg))) + 111 \<le> getFree_cb b" "getSize_cb b < 2 ^ 32"
    using b(3,4) example_facts(3,4) by simp_all
  obtain m1 b1 where "marshal_frame null_env 0 example_msg 3 b = Some (m1, b1)" "cb_bytes b1 = cb_bytes b @ fr"
    unfolding fr_def example_facts(3)[symmetric] by (rule marshal_frame_ok[OF example_facts(1,2) b(1,2) sp(1)])
  then have sent: "fr = drop (used b) (cb_bytes (snd (the (marshal_frame null_env 0 example_msg 3 b))))" using b(5,6) by simp
  have r: "cb_ok (example_read 40 (take 12 fr))" "cb_bytes (example_read 40 (take 12 fr)) @ drop 12 fr = fr" "drop 12 fr \<noteq> []"
    "cb_ok (example_read 40 (fr @ [77]))"
    "cb_bytes (example_read 40 (fr @ [77])) = cb_bytes (example_read 40 (take 12 fr)) @ drop 12 fr @ [77]"
    using example_read_frame[of 40 "take 12 fr"] example_read_frame[of 40 "fr @ [77]"] fr by (auto simp: frame_ok_def)
  from frame_round_trip[OF example_facts(1,2) b(1,2) sp r(4,1,3) r(2)[folded sent, THEN trans, OF sent] r(5), of "\<lambda>_. None" "\<lambda>_. True"]
  show ?thesis unfolding fr_def example_facts(3) by auto
qed

end
