(* ===== verification/WordExt.thy ===== *)
theory WordExt
  imports Builtin ByteBuffer
begin

text \<open>
  Words of one to 32 bits as Oz values (\<^verbatim>\<open>platform/emulator/word.cc\<close>): the class \<^verbatim>\<open>Word\<close> and its
  builtins. The value of a word sits in an \<^verbatim>\<open>unsigned int\<close>, here \<^typ>\<open>32 word\<close>, and is cut to its
  width by shifting it to the top and back. A builtin that takes two words raises an exception when
  their widths differ. C++ leaves a shift by 32 or more undefined, and so do the definitions.
\<close>

definition MAXWIDTH :: nat where
  "MAXWIDTH = 32"

definition TRUNCATE :: "int32 \<Rightarrow> nat \<Rightarrow> int32" where
  "TRUNCATE v n = drop_bit (MAXWIDTH - n) (push_bit (MAXWIDTH - n) v)"

record oz_word =
  word_size :: nat
  word_value :: int32

definition new_Word :: "nat \<Rightarrow> int32 \<Rightarrow> oz_word" where
  "new_Word s v = \<lparr>word_size = s, word_value = TRUNCATE v s\<rparr>"

text \<open>\<^verbatim>\<open>eqV\<close>: a word equals another extension when it is a word of the same width and value.\<close>

definition eqV :: "oz_word \<Rightarrow> oz_word oz_arg \<Rightarrow> bool" where
  "eqV w t = (case t of OzObj w' \<Rightarrow> word_size w' = word_size w \<and> word_value w' = word_value w | _ \<Rightarrow> False)"

text \<open>
  Numbers of a pickle (\<^verbatim>\<open>marshalNumber\<close> of \<^verbatim>\<open>marshalerBase.hh\<close>, \<^verbatim>\<open>unmarshalNumber\<close> of \<^verbatim>\<open>marshalerBase.cc\<close>):
  seven bits a byte, the lowest first, with the eighth bit (\<^verbatim>\<open>SBit\<close>, the same as \<open>SSBit\<close> of the distribution
  layer) set in all bytes but the last. What is
  written is the list of the bytes, what is read the list of the bytes to come; reading behind the
  end and a shift by 32 or more, which C++ does not define, have no result.
\<close>

function marshalNumber :: "int32 \<Rightarrow> byte list \<Rightarrow> byte list" where
  "marshalNumber i bs =
     (if i \<ge> SSBit then marshalNumber (i div SSBit) (bs @ [ucast ((i mod SSBit) OR SSBit)]) else bs @ [ucast i])"
  by auto

termination
  by (relation "measure (\<lambda>(i, bs). unat i)") (auto dest: SSBit_div)

declare marshalNumber.simps [simp del]

fun unmarshalNumber_loop :: "int32 \<Rightarrow> nat \<Rightarrow> int32 \<Rightarrow> byte list \<Rightarrow> (int32 \<times> byte list) option" where
  "unmarshalNumber_loop c shft ret bs =
     (if shft \<ge> 32 then None
      else if c \<ge> SSBit then
        (case bs of [] \<Rightarrow> None
         | c' # bs' \<Rightarrow> unmarshalNumber_loop (ucast c') (shft + 7) (ret + push_bit shft (c - SSBit)) bs')
      else Some (ret OR push_bit shft c, bs))"

declare unmarshalNumber_loop.simps [simp del]

definition unmarshalNumber :: "byte list \<Rightarrow> (int32 \<times> byte list) option" where
  "unmarshalNumber bs = (case bs of [] \<Rightarrow> None | c # bs' \<Rightarrow> unmarshalNumber_loop (ucast c) 0 0 bs')"

text \<open>A pickled word is its width and its value; reading it back builds a new word.\<close>

definition pickleV :: "oz_word \<Rightarrow> byte list \<Rightarrow> byte list" where
  "pickleV w bs = marshalNumber (word_value w) (marshalNumber (of_nat (word_size w)) bs)"

definition unmarshalWord :: "byte list \<Rightarrow> (oz_word \<times> byte list) option" where
  "unmarshalWord bs =
     (case unmarshalNumber bs of None \<Rightarrow> None
      | Some (sz, bs) \<Rightarrow> (case unmarshalNumber bs of None \<Rightarrow> None
          | Some (value, bs) \<Rightarrow> Some (new_Word (unat sz) value, bs)))"

abbreviation declareWord :: "nat \<Rightarrow> oz_word oz_arg \<Rightarrow> (oz_word \<Rightarrow> 'a oz_return) \<Rightarrow> 'a oz_return" where
  "declareWord pos arg k \<equiv> declareObjIN pos ''word'' arg k"

definition BIwordIs :: "oz_word oz_arg \<Rightarrow> bool oz_return" where
  "BIwordIs x = (case x of Unbound \<Rightarrow> Suspend | OzObj _ \<Rightarrow> Proceed True | _ \<Rightarrow> Proceed False)"

definition BIwordMake :: "oz_word oz_arg \<Rightarrow> oz_word oz_arg \<Rightarrow> oz_word oz_return" where
  "BIwordMake a0 a1 =
     declareIntIN 0 a0 (\<lambda>size.
       if size \<le> 0 \<or> size > int MAXWIDTH then Raise E_SYSTEM ''Word.make''
       else declareIntIN 1 a1 (\<lambda>value. Proceed (new_Word (nat size) (word_of_int value))))"

definition BIwordSize :: "oz_word oz_arg \<Rightarrow> int oz_return" where
  "BIwordSize a = declareWord 0 a (\<lambda>w. Proceed (int (word_size w)))"

definition BIwordToInt :: "oz_word oz_arg \<Rightarrow> int oz_return" where
  "BIwordToInt a = declareWord 0 a (\<lambda>w. Proceed (uint (word_value w)))"

definition BIwordToIntX :: "oz_word oz_arg \<Rightarrow> int oz_return" where
  "BIwordToIntX a = declareWord 0 a (\<lambda>w.
     let v = push_bit (MAXWIDTH - word_size w) (word_value w) in
     Proceed (sint (signed_drop_bit (MAXWIDTH - word_size w) v)))"

text \<open>The guard the builtins with two words share.\<close>

definition wordBinop :: "oz_word oz_arg \<Rightarrow> oz_word oz_arg \<Rightarrow> (oz_word \<Rightarrow> oz_word \<Rightarrow> 'a oz_return) \<Rightarrow> 'a oz_return" where
  "wordBinop a0 a1 k =
     declareWord 0 a0 (\<lambda>w1. declareWord 1 a1 (\<lambda>w2.
       if word_size w1 \<noteq> word_size w2 then Raise E_SYSTEM ''Word.binop'' else k w1 w2))"

definition BIwordPlus :: "oz_word oz_arg \<Rightarrow> oz_word oz_arg \<Rightarrow> oz_word oz_return" where
  "BIwordPlus a0 a1 = wordBinop a0 a1 (\<lambda>w1 w2.
     Proceed (new_Word (word_size w1) (TRUNCATE (word_value w1 + word_value w2) (word_size w1))))"

definition BIwordMinus :: "oz_word oz_arg \<Rightarrow> oz_word oz_arg \<Rightarrow> oz_word oz_return" where
  "BIwordMinus a0 a1 = wordBinop a0 a1 (\<lambda>w1 w2.
     Proceed (new_Word (word_size w1) (TRUNCATE (word_value w1 - word_value w2) (word_size w1))))"

definition BIwordTimes :: "oz_word oz_arg \<Rightarrow> oz_word oz_arg \<Rightarrow> oz_word oz_return" where
  "BIwordTimes a0 a1 = wordBinop a0 a1 (\<lambda>w1 w2.
     Proceed (new_Word (word_size w1) (TRUNCATE (word_value w1 * word_value w2) (word_size w1))))"

definition BIwordDiv :: "oz_word oz_arg \<Rightarrow> oz_word oz_arg \<Rightarrow> oz_word oz_return" where
  "BIwordDiv a0 a1 = wordBinop a0 a1 (\<lambda>w1 w2.
     if word_value w2 = 0 then Raise E_ERROR ''div0''
     else Proceed (new_Word (word_size w1) (TRUNCATE (word_value w1 div word_value w2) (word_size w1))))"

definition BIwordMod :: "oz_word oz_arg \<Rightarrow> oz_word oz_arg \<Rightarrow> oz_word oz_return" where
  "BIwordMod a0 a1 = wordBinop a0 a1 (\<lambda>w1 w2.
     if word_value w2 = 0 then Raise E_ERROR ''mod0''
     else Proceed (new_Word (word_size w1) (TRUNCATE (word_value w1 mod word_value w2) (word_size w1))))"

definition BIwordOrb :: "oz_word oz_arg \<Rightarrow> oz_word oz_arg \<Rightarrow> oz_word oz_return" where
  "BIwordOrb a0 a1 = wordBinop a0 a1 (\<lambda>w1 w2. Proceed (new_Word (word_size w1) (word_value w1 OR word_value w2)))"

definition BIwordXorb :: "oz_word oz_arg \<Rightarrow> oz_word oz_arg \<Rightarrow> oz_word oz_return" where
  "BIwordXorb a0 a1 = wordBinop a0 a1 (\<lambda>w1 w2. Proceed (new_Word (word_size w1) (word_value w1 XOR word_value w2)))"

definition BIwordAndb :: "oz_word oz_arg \<Rightarrow> oz_word oz_arg \<Rightarrow> oz_word oz_return" where
  "BIwordAndb a0 a1 = wordBinop a0 a1 (\<lambda>w1 w2. Proceed (new_Word (word_size w1) (word_value w1 AND word_value w2)))"

definition BIwordNotb :: "oz_word oz_arg \<Rightarrow> oz_word oz_return" where
  "BIwordNotb a = declareWord 0 a (\<lambda>w. Proceed (new_Word (word_size w) (NOT (word_value w))))"

definition BIwordShl :: "oz_word oz_arg \<Rightarrow> oz_word oz_arg \<Rightarrow> oz_word oz_return" where
  "BIwordShl a0 a1 = declareWord 0 a0 (\<lambda>w. declareWord 1 a1 (\<lambda>n.
     if unat (word_value n) \<ge> 32 then CxxUndefined
     else Proceed (new_Word (word_size w) (push_bit (unat (word_value n)) (word_value w)))))"

definition BIwordLsr :: "oz_word oz_arg \<Rightarrow> oz_word oz_arg \<Rightarrow> oz_word oz_return" where
  "BIwordLsr a0 a1 = declareWord 0 a0 (\<lambda>w. declareWord 1 a1 (\<lambda>n.
     if unat (word_value n) \<ge> 32 then CxxUndefined
     else Proceed (new_Word (word_size w) (drop_bit (unat (word_value n)) (word_value w)))))"

text \<open>The shift count of \<^verbatim>\<open>asr\<close> is the sum of two unsigned integers.\<close>

definition BIwordAsr :: "oz_word oz_arg \<Rightarrow> oz_word oz_arg \<Rightarrow> oz_word oz_return" where
  "BIwordAsr a0 a1 = declareWord 0 a0 (\<lambda>w. declareWord 1 a1 (\<lambda>n.
     let v = push_bit (MAXWIDTH - word_size w) (word_value w);
         count = unat (of_nat (MAXWIDTH - word_size w) + word_value n) in
     if count \<ge> 32 then CxxUndefined
     else Proceed (new_Word (word_size w) (signed_drop_bit count v))))"

definition BIwordLess :: "oz_word oz_arg \<Rightarrow> oz_word oz_arg \<Rightarrow> bool oz_return" where
  "BIwordLess a0 a1 = wordBinop a0 a1 (\<lambda>w1 w2. Proceed (word_value w1 < word_value w2))"

definition BIwordLessEq :: "oz_word oz_arg \<Rightarrow> oz_word oz_arg \<Rightarrow> bool oz_return" where
  "BIwordLessEq a0 a1 = wordBinop a0 a1 (\<lambda>w1 w2. Proceed (word_value w1 \<le> word_value w2))"

definition BIwordGreater :: "oz_word oz_arg \<Rightarrow> oz_word oz_arg \<Rightarrow> bool oz_return" where
  "BIwordGreater a0 a1 = wordBinop a0 a1 (\<lambda>w1 w2. Proceed (word_value w1 > word_value w2))"

definition BIwordGreaterEq :: "oz_word oz_arg \<Rightarrow> oz_word oz_arg \<Rightarrow> bool oz_return" where
  "BIwordGreaterEq a0 a1 = wordBinop a0 a1 (\<lambda>w1 w2. Proceed (word_value w1 \<ge> word_value w2))"

section \<open>Words are numbers modulo a power of two\<close>

text \<open>The invariant of the class: the width is between 1 and 32 and no bit is set above it.\<close>

definition word_ok :: "oz_word \<Rightarrow> bool" where
  "word_ok w \<longleftrightarrow> 0 < word_size w \<and> word_size w \<le> MAXWIDTH \<and> unat (word_value w) < 2 ^ word_size w"

definition word_num :: "oz_word \<Rightarrow> nat" where
  "word_num w = unat (word_value w)"

lemma TRUNCATE_take_bit: "n \<le> MAXWIDTH \<Longrightarrow> TRUNCATE v n = take_bit n v"
  by (rule bit_word_eqI) (auto simp: TRUNCATE_def MAXWIDTH_def bit_simps)

lemma unat_TRUNCATE: "n \<le> MAXWIDTH \<Longrightarrow> unat (TRUNCATE v n) = unat v mod 2 ^ n"
  by (subst TRUNCATE_take_bit, assumption, subst unsigned_take_bit_eq, rule take_bit_eq_mod)

lemma new_Word_ok:
  assumes "0 < s" "s \<le> MAXWIDTH"
  shows "word_ok (new_Word s v)" "word_num (new_Word s v) = unat v mod 2 ^ s" "word_size (new_Word s v) = s"
  using assms by (auto simp: word_ok_def word_num_def new_Word_def unat_TRUNCATE)

text \<open>The word of width \<open>s\<close> for a number, and for a number with a sign.\<close>

definition word_of :: "nat \<Rightarrow> int \<Rightarrow> oz_word" where
  "word_of s n = \<lparr>word_size = s, word_value = word_of_int (n mod 2 ^ s)\<rparr>"

definition signed_num :: "oz_word \<Rightarrow> int" where
  "signed_num w = (if word_num w < 2 ^ (word_size w - 1) then int (word_num w)
     else int (word_num w) - 2 ^ word_size w)"

lemma word_of_ok:
  assumes "0 < s" "s \<le> MAXWIDTH"
  shows "word_ok (word_of s n)" "int (word_num (word_of s n)) = n mod 2 ^ s"
proof -
  have "(2::int) ^ s \<le> 2 ^ 32" using assms by (intro power_increasing) (auto simp: MAXWIDTH_def)
  moreover have "n mod 2 ^ s < 2 ^ s" "0 \<le> n mod 2 ^ s" by simp_all
  ultimately have "n mod 2 ^ s < 2 ^ 32" "0 \<le> n mod 2 ^ s" by linarith+
  then have "uint (word_of_int (n mod 2 ^ s) :: int32) = n mod 2 ^ s"
    by (simp add: unsigned_of_int take_bit_int_eq_self_iff)
  then show eq: "int (word_num (word_of s n)) = n mod 2 ^ s"
    by (simp add: word_num_def word_of_def)
  then have "int (word_num (word_of s n)) < 2 ^ s" by simp
  then have "word_num (word_of s n) < 2 ^ s" by (metis of_nat_less_iff of_nat_numeral of_nat_power)
  then show "word_ok (word_of s n)" using assms by (simp add: word_ok_def word_of_def word_num_def)
qed

lemma new_Word_word_of:
  assumes "0 < s" "s \<le> MAXWIDTH" "uint v mod 2 ^ s = n mod 2 ^ s"
  shows "new_Word s v = word_of s n"
proof -
  have "uint (word_value (new_Word s v)) = uint v mod 2 ^ s"
    using arg_cong[OF unat_TRUNCATE[OF assms(2), of v], of int] by (simp add: new_Word_def zmod_int)
  moreover have "uint (word_value (word_of s n)) = n mod 2 ^ s"
    using word_of_ok(2)[OF assms(1,2), of n] by (simp add: word_num_def)
  ultimately have "word_value (new_Word s v) = word_value (word_of s n)"
    using assms(3) by (simp add: word_uint_eq_iff)
  then show ?thesis by (simp add: new_Word_def word_of_def)
qed

lemma mod_mod_word: "n \<le> MAXWIDTH \<Longrightarrow> ((a::int) mod 2 ^ 32) mod 2 ^ n = a mod 2 ^ n"
  by (intro mod_mod_cancel le_imp_power_dvd) (simp add: MAXWIDTH_def)

lemma TRUNCATE_idem: "s \<le> MAXWIDTH \<Longrightarrow> new_Word s (TRUNCATE v s) = new_Word s v"
  by (simp add: new_Word_def TRUNCATE_take_bit)

lemma uint_num: "uint (word_value w) = int (word_num w)"
  by (simp add: word_num_def)

lemma word_arith_eqs:
  assumes "0 < s" "s \<le> MAXWIDTH"
  shows "new_Word s (word_value w1 + word_value w2) = word_of s (int (word_num w1) + int (word_num w2))"
    "new_Word s (word_value w1 - word_value w2) = word_of s (int (word_num w1) - int (word_num w2))"
    "new_Word s (word_value w1 * word_value w2) = word_of s (int (word_num w1) * int (word_num w2))"
    "new_Word s (word_value w1 div word_value w2) = word_of s (int (word_num w1) div int (word_num w2))"
    "new_Word s (word_value w1 mod word_value w2) = word_of s (int (word_num w1) mod int (word_num w2))"
  by (rule new_Word_word_of[OF assms];
      simp add: uint_num uint_word_ariths mod_mod_word[OF assms(2), simplified] uint_div uint_mod)+

lemma sint_extend:
  assumes "0 < s" "s \<le> MAXWIDTH"
  shows "sint (signed_drop_bit (MAXWIDTH - s) (push_bit (MAXWIDTH - s) (v::int32))) = signed_take_bit (s - 1) (uint v)"
proof -
  obtain k where "s = Suc k" using assms(1) by (auto simp: gr0_conv_Suc)
  then show ?thesis
    using assms(2) by (intro bit_eqI)
      (auto simp: bit_simps MAXWIDTH_def min_def not_less_eq_eq dest: le_antisym)
qed

lemma signed_num_take_bit:
  assumes "word_ok w"
  shows "signed_take_bit (word_size w - 1) (uint (word_value w)) = signed_num w"
proof -
  obtain k where k: "word_size w = Suc k" using assms by (auto simp: word_ok_def gr0_conv_Suc)
  define a where "a = int (word_num w)"
  have "word_num w < 2 ^ Suc k" using assms by (simp add: word_ok_def word_num_def k)
  then have a: "0 \<le> a" "a < 2 ^ Suc k" "word_num w < 2 ^ k \<longleftrightarrow> a < 2 ^ k"
    using of_nat_less_iff[of "word_num w" "2 ^ Suc k", where 'a = int]
      of_nat_less_iff[of "word_num w" "2 ^ k", where 'a = int] by (simp_all add: a_def)
  have "signed_take_bit k a = (if a < 2 ^ k then a else a - 2 ^ Suc k)"
  proof (cases "a < 2 ^ k")
    case True
    then show ?thesis using a(1) by (simp add: signed_take_bit_int_eq_self_iff)
  next
    case False
    then have "a div 2 ^ k = 1" using a by (intro int_div_pos_eq[of _ _ _ "a - 2 ^ k"]) auto
    then have "bit a k" by (simp add: bit_iff_odd)
    moreover have "take_bit (Suc k) a = a" using a(1,2) by (simp only: take_bit_int_eq_self_iff)
    ultimately have "signed_take_bit k a = a - 2 ^ Suc k"
      unfolding signed_take_bit_eq_take_bit_minus[of k a] by (simp only:) simp
    then show ?thesis using False by (simp only: if_False)
  qed
  then show ?thesis
    unfolding signed_num_def k diff_Suc_1 uint_num a_def[symmetric] a(3) .
qed

lemma word_shift_eqs:
  assumes "0 < s" "s \<le> MAXWIDTH"
  shows "new_Word s (push_bit k (word_value w)) = word_of s (int (word_num w) * 2 ^ k)"
    "new_Word s (drop_bit k (word_value w)) = word_of s (int (word_num w) div 2 ^ k)"
    "new_Word s (word_value w1 OR word_value w2) = word_of s (int (word_num w1) OR int (word_num w2))"
    "new_Word s (word_value w1 XOR word_value w2) = word_of s (int (word_num w1) XOR int (word_num w2))"
    "new_Word s (word_value w1 AND word_value w2) = word_of s (int (word_num w1) AND int (word_num w2))"
    "new_Word s (NOT (word_value w)) = word_of s (- int (word_num w) - 1)"
proof -
  note eq = new_Word_word_of[OF assms]
  show "new_Word s (push_bit k (word_value w)) = word_of s (int (word_num w) * 2 ^ k)"
    by (rule eq, unfold uint_num[symmetric] unsigned_push_bit_eq)
      (simp add: take_bit_eq_mod push_bit_eq_mult mod_mod_word[OF assms(2), simplified])
  show "new_Word s (drop_bit k (word_value w)) = word_of s (int (word_num w) div 2 ^ k)"
    by (rule eq, unfold uint_num[symmetric] unsigned_drop_bit_eq) 
      (use unsigned_less[of "word_value w", where 'a = int] in \<open>simp add: drop_bit_eq_div take_bit_eq_mod\<close>)
  show "new_Word s (word_value w1 OR word_value w2) = word_of s (int (word_num w1) OR int (word_num w2))"
    by (rule eq) (simp add: uint_num[symmetric] unsigned_or_eq)
  show "new_Word s (word_value w1 XOR word_value w2) = word_of s (int (word_num w1) XOR int (word_num w2))"
    by (rule eq) (simp add: uint_num[symmetric] unsigned_xor_eq)
  show "new_Word s (word_value w1 AND word_value w2) = word_of s (int (word_num w1) AND int (word_num w2))"
    by (rule eq) (simp add: uint_num[symmetric] unsigned_and_eq)
  show "new_Word s (NOT (word_value w)) = word_of s (- int (word_num w) - 1)"
    by (rule eq) (simp add: uint_num[symmetric] unsigned_not_eq take_bit_eq_mod not_int_def
        mod_mod_word[OF assms(2), simplified])
qed

lemma word_asr_eq:
  assumes "word_ok w" "MAXWIDTH - word_size w + k < 32"
  shows "new_Word (word_size w) (signed_drop_bit (MAXWIDTH - word_size w + k)
      (push_bit (MAXWIDTH - word_size w) (word_value w))) = word_of (word_size w) (signed_num w div 2 ^ k)"
proof (rule new_Word_word_of)
  show s: "0 < word_size w" "word_size w \<le> MAXWIDTH" using assms by (simp_all add: word_ok_def)
  define v where "v = signed_drop_bit (MAXWIDTH - word_size w) (push_bit (MAXWIDTH - word_size w) (word_value w))"
  have v: "sint v = signed_num w"
    unfolding v_def sint_extend[OF s] by (rule signed_num_take_bit[OF assms(1)])
  have eq: "signed_drop_bit (MAXWIDTH - word_size w + k) (push_bit (MAXWIDTH - word_size w) (word_value w))
      = signed_drop_bit k v"
    by (simp add: v_def signed_drop_bit_signed_drop_bit add.commute)
  have "sint (signed_drop_bit k v) = signed_num w div 2 ^ k"
    using sint_signed_drop_bit_eq[of k v] by (simp add: v drop_bit_eq_div)
  moreover have "uint x mod 2 ^ word_size w = sint x mod 2 ^ word_size w" for x :: int32
    using mod_mod_word[OF s(2), of "sint x"] by (simp add: uint_sint take_bit_eq_mod)
  ultimately show "uint (signed_drop_bit (MAXWIDTH - word_size w + k)
      (push_bit (MAXWIDTH - word_size w) (word_value w))) mod 2 ^ word_size w = signed_num w div 2 ^ k mod 2 ^ word_size w"
    unfolding eq by simp
qed

text \<open>A shift count close to \<open>2 ^ 32\<close> wraps around: the arithmetic shift then shifts to the left.\<close>

lemma word_asr_wrap:
  assumes "word_ok w" "k < MAXWIDTH - word_size w"
  shows "new_Word (word_size w) (signed_drop_bit k (push_bit (MAXWIDTH - word_size w) (word_value w))) =
    word_of (word_size w) (int (word_num w) * 2 ^ (MAXWIDTH - word_size w - k))"
proof -
  have s: "0 < word_size w" "word_size w \<le> MAXWIDTH" using assms by (simp_all add: word_ok_def)
  let ?d = "MAXWIDTH - word_size w"
  have "TRUNCATE (signed_drop_bit k (push_bit ?d (word_value w))) (word_size w) = TRUNCATE (push_bit (?d - k) (word_value w)) (word_size w)"
  proof (rule bit_word_eqI)
    fix n :: nat
    assume n: "n < LENGTH(32)"
    have "k + n < 32 \<and> \<not> 32 - k \<le> n" if "n < word_size w" using that assms(2) by (auto simp: MAXWIDTH_def)
    moreover have "k + n - ?d = n - (?d - k)" "?d \<le> k + n \<longleftrightarrow> ?d - k \<le> n" using assms(2) by auto
    ultimately show "bit (TRUNCATE (signed_drop_bit k (push_bit ?d (word_value w))) (word_size w)) n =
        bit (TRUNCATE (push_bit (?d - k) (word_value w)) (word_size w)) n"
      using n by (cases "n < word_size w") (simp_all add: TRUNCATE_take_bit[OF s(2)] bit_simps)
  qed
  then have "new_Word (word_size w) (signed_drop_bit k (push_bit ?d (word_value w))) = new_Word (word_size w) (push_bit (?d - k) (word_value w))"
    by (simp add: new_Word_def)
  then show ?thesis using word_shift_eqs(1)[OF s] by simp
qed

section \<open>Pickles\<close>

interpretation pickle_sink: byte_sink "\<lambda>x bs. bs @ [x]" "\<lambda>bs. bs" "\<lambda>bs. N - length bs" "\<lambda>bs. True" for N
  by unfold_locales auto

interpretation pickle_source: byte_source "\<lambda>bs. (hd bs, tl bs)" "\<lambda>bs. bs" "\<lambda>bs. True"
  by unfold_locales auto

lemma marshalNumber_bytes: "marshalNumber i bs = bs @ number_bytes (unat i)"
proof -
  have "marshalNumber i bs = gf_MarshalNumber (\<lambda>x bs. bs @ [x]) i bs"
    by (induction i bs rule: marshalNumber.induct) (simp add: marshalNumber.simps gf_MarshalNumber.simps)
  then show ?thesis using pickle_sink.marshal_number[of i "length bs + length (number_bytes (unat i))" bs] by simp
qed

text \<open>On the bytes of a number the reader stays within the bytes and within 32 bits.\<close>

lemma unmarshalNumber_loop_eq:
  "number_bytes n = x # xs \<Longrightarrow> n * 2 ^ s < 2 ^ 32 \<Longrightarrow> s < 32 \<Longrightarrow>
   unmarshalNumber_loop (ucast x) s r (xs @ rest) = unmarshal_loop (\<lambda>bs. (hd bs, tl bs)) (ucast x) s r (xs @ rest)"
proof (induction n arbitrary: x xs s r rule: number_bytes.induct)
  case (1 n)
  show ?case
  proof (cases "n \<ge> 128")
    case True
    have nb: "x = of_nat (n mod 128 + 128)" "xs = number_bytes (n div 128)"
      using "1.prems"(1) True by (auto simp: number_bytes.simps[of n])
    have "unat (ucast x :: int32) = n mod 128 + 128"
      unfolding nb by (rule byte_ucast) (use mod_less_divisor[of 128 n] in linarith)
    then have big: "SSBit \<le> ucast x" by (simp add: SSBit_eq word_le_nat_alt)
    obtain y ys where ys: "number_bytes (n div 128) = y # ys" by (rule number_bytes_Cons)
    have "n div 128 * 2 ^ (s + 7) \<le> n * 2 ^ s" by (simp add: power_add)
    then have le: "n div 128 * 2 ^ (s + 7) < 2 ^ 32" using "1.prems"(2) by linarith
    moreover have "2 ^ (s + 7) \<le> n div 128 * 2 ^ (s + 7)" using True by (simp add: div_greater_zero_iff)
    ultimately have "(2 :: nat) ^ (s + 7) < 2 ^ 32" by linarith
    then have "s + 7 < 32" by (rule power_less_imp_less_exp[rotated]) simp
    then show ?thesis using "1.IH"[OF True ys le] "1.prems"(3) big nb(2) ys
      by (simp add: unmarshalNumber_loop.simps[of "ucast x"] unmarshal_loop.simps[of _ "ucast x"])
  next
    case False
    then have x: "x = of_nat n" "xs = []" using "1.prems"(1) by (auto simp: number_bytes.simps[of n])
    then have "unat (ucast x :: int32) = n" using byte_ucast[of n] False by simp
    then have "\<not> SSBit \<le> ucast x" using False by (simp add: SSBit_eq word_le_nat_alt)
    then show ?thesis using "1.prems"(3) by (simp add: unmarshalNumber_loop.simps[of "ucast x"] unmarshal_loop.simps[of _ "ucast x"])
  qed
qed

lemma unmarshalNumber_bytes: "unmarshalNumber (number_bytes (unat i) @ rest) = Some (i, rest)"
proof -
  obtain x xs where x: "number_bytes (unat i) = x # xs" by (rule number_bytes_Cons)
  have "unat i * 2 ^ 0 < 2 ^ 32" using unsigned_less[of i, where 'a = nat] by simp
  from unmarshalNumber_loop_eq[OF x this, of 0 rest] show ?thesis
    using pickle_source.unmarshal_number[of "number_bytes (unat i) @ rest" i rest] x
    by (auto simp: unmarshalNumber_def gf_UnmarshalNumber_def)
qed

lemma word_pickle:
  assumes "word_ok w"
  shows "unmarshalWord (pickleV w [] @ rest) = Some (w, rest)"
proof -
  have s: "0 < word_size w" "word_size w \<le> MAXWIDTH" using assms by (auto simp: word_ok_def)
  have "TRUNCATE (word_value w) (word_size w) = word_value w"
    using unat_TRUNCATE[OF s(2), of "word_value w"] assms by (simp add: word_ok_def unsigned_word_eqI)
  moreover have "unat (of_nat (word_size w) :: int32) = word_size w" using s by (simp add: unat_of_nat MAXWIDTH_def)
  ultimately show ?thesis using unmarshalNumber_bytes[of "of_nat (word_size w)" "number_bytes (unat (word_value w)) @ rest"]
    by (simp add: unmarshalWord_def pickleV_def marshalNumber_bytes unmarshalNumber_bytes new_Word_def)
qed

section \<open>Properties\<close>

text \<open>
  C34: word arithmetic. On two words of the same width \<open>s\<close> the arithmetic builtins compute modulo
  \<open>2 ^ s\<close> and give well-formed words, division and modulo by zero raise, comparisons compare the
  numbers, and the conversions give the number without and with sign; words of different widths
  raise an exception.
\<close>

theorem word_arithmetic:
  assumes "word_ok w1" "word_ok w2" "word_size w1 = s"
  shows "(let a = int (word_num w1); b = int (word_num w2); x = OzObj w1; y = OzObj w2 in
    if word_size w2 = s then
      BIwordPlus x y = Proceed (word_of s (a + b)) \<and> BIwordMinus x y = Proceed (word_of s (a - b)) \<and>
      BIwordTimes x y = Proceed (word_of s (a * b)) \<and>
      BIwordDiv x y = (if b = 0 then Raise E_ERROR ''div0'' else Proceed (word_of s (a div b))) \<and>
      BIwordMod x y = (if b = 0 then Raise E_ERROR ''mod0'' else Proceed (word_of s (a mod b))) \<and>
      BIwordLess x y = Proceed (a < b) \<and> BIwordLessEq x y = Proceed (a \<le> b) \<and>
      BIwordGreater x y = Proceed (a > b) \<and> BIwordGreaterEq x y = Proceed (a \<ge> b) \<and>
      BIwordToInt x = Proceed a \<and> BIwordToIntX x = Proceed (signed_num w1) \<and>
      word_ok (word_of s (a + b)) \<and> int (word_num (word_of s (a + b))) = (a + b) mod 2 ^ s
    else BIwordPlus x y = Raise E_SYSTEM ''Word.binop'' \<and> BIwordMinus x y = Raise E_SYSTEM ''Word.binop'' \<and>
      BIwordTimes x y = Raise E_SYSTEM ''Word.binop'' \<and> BIwordDiv x y = Raise E_SYSTEM ''Word.binop'' \<and>
      BIwordMod x y = Raise E_SYSTEM ''Word.binop'' \<and> BIwordLess x y = Raise E_SYSTEM ''Word.binop'')"
proof -
  have s: "0 < s" "s \<le> MAXWIDTH" using assms by (auto simp: word_ok_def)
  have sgn: "BIwordToIntX (OzObj w1) = Proceed (signed_num w1)"
    using sint_extend[of "word_size w1" "word_value w1"] signed_num_take_bit[OF assms(1)] s assms(3)
    by (simp add: BIwordToIntX_def)
  show ?thesis
    using word_arith_eqs[OF s, of w1 w2] word_of_ok[OF s] TRUNCATE_idem[OF s(2)] assms(3) sgn
    by (simp add: BIwordPlus_def BIwordMinus_def BIwordTimes_def BIwordDiv_def BIwordMod_def BIwordLess_def
        BIwordLessEq_def BIwordGreater_def BIwordGreaterEq_def BIwordToInt_def wordBinop_def Let_def
        word_num_def word_less_def word_le_def uint_0_iff)
qed

theorem word_arithmetic_witness:
  "BIwordPlus (OzObj (new_Word 4 13)) (OzObj (new_Word 4 5)) = Proceed (word_of 4 18) \<and>
   BIwordToIntX (OzObj (new_Word 4 13)) = Proceed (- 3)"
proof -
  have "word_ok (new_Word 4 13)" "word_ok (new_Word 4 5)" "word_num (new_Word 4 13) = 13"
    "word_num (new_Word 4 5) = 5" "word_size (new_Word 4 13) = 4" "word_size (new_Word 4 5) = 4"
    "signed_num (new_Word 4 13) = - 3"
    by code_simp+
  then show ?thesis using word_arithmetic[of "new_Word 4 13" "new_Word 4 5" 4] by (simp add: Let_def)
qed

text \<open>
  C35: word bits and shifts. On words of the same width the bitwise builtins work on the bits; shifting left
  multiplies and shifting right divides, by the sign for the arithmetic shift, by the power of two
  of the shift count. The count is not bounded: a left or logical right shift by 32 or more is
  undefined in C++. The arithmetic shift adds \<open>32 - s\<close> to the count in 32 bits: a count from the width
  \<open>s\<close> on is undefined, but the last \<open>32 - s\<close> counts below \<open>2 ^ 32\<close> wrap around and shift to the left.
  A word that is pickled, with both numbers in the variable-length code of pickles, is read back as it was,
  whatever bytes follow.
\<close>

theorem word_bits:
  assumes "word_ok w1" "word_ok w2" "word_size w1 = s"
  shows "(let a = int (word_num w1); b = int (word_num w2); n = word_num w2; x = OzObj w1; y = OzObj w2 in
      (word_size w2 = s \<longrightarrow> BIwordOrb x y = Proceed (word_of s (a OR b)) \<and>
         BIwordXorb x y = Proceed (word_of s (a XOR b)) \<and> BIwordAndb x y = Proceed (word_of s (a AND b))) \<and>
      BIwordNotb x = Proceed (word_of s (- a - 1)) \<and>
      BIwordShl x y = (if n < 32 then Proceed (word_of s (a * 2 ^ n)) else CxxUndefined) \<and>
      BIwordLsr x y = (if n < 32 then Proceed (word_of s (a div 2 ^ n)) else CxxUndefined) \<and>
      BIwordAsr x y = (if n < s then Proceed (word_of s (signed_num w1 div 2 ^ n))
        else if n < 2 ^ 32 - (32 - s) then CxxUndefined
        else Proceed (word_of s (a * 2 ^ (2 ^ 32 - n)))) \<and>
      unmarshalWord (pickleV w1 [] @ rest) = Some (w1, rest))"
proof -
  have s: "0 < s" "s \<le> MAXWIDTH" using assms by (auto simp: word_ok_def)
  let ?n = "word_num w2" and ?c = "unat (of_nat (MAXWIDTH - s) + word_value w2)"
  have n: "?n < 2 ^ 32" using unsigned_less[of "word_value w2", where 'a = nat] by (simp add: word_num_def)
  have "unat (of_nat (MAXWIDTH - s) :: int32) = MAXWIDTH - s" by (simp add: unat_of_nat MAXWIDTH_def)
  then have m: "?c = (MAXWIDTH - s + ?n) mod 2 ^ 32" by (simp add: unat_word_ariths word_num_def)
  have m': "k mod 2 ^ 32 = (if k < 2 ^ 32 then k else k - 2 ^ 32)" if "k < 2 * 2 ^ 32" for k :: nat
    using that le_mod_geq[of "2 ^ 32" k] by simp
  have c: "?c = (if MAXWIDTH - s + ?n < 2 ^ 32 then MAXWIDTH - s + ?n else MAXWIDTH - s + ?n - 2 ^ 32)"
    unfolding m by (rule m') (use n in \<open>simp add: MAXWIDTH_def\<close>)
  have "BIwordAsr (OzObj w1) (OzObj w2) = (if ?n < s then Proceed (word_of s (signed_num w1 div 2 ^ ?n))
        else if ?n < 2 ^ 32 - (32 - s) then CxxUndefined else Proceed (word_of s (int (word_num w1) * 2 ^ (2 ^ 32 - ?n))))"
  proof -
    consider "?n < s" | "s \<le> ?n" "?n < 2 ^ 32 - (32 - s)" | "2 ^ 32 - (32 - s) \<le> ?n" "s \<le> ?n" by linarith
    then show ?thesis
    proof cases
      case 1
      then have "?c = MAXWIDTH - s + ?n" "MAXWIDTH - s + ?n < 32" using c s by (simp_all add: MAXWIDTH_def)
      then show ?thesis using 1 word_asr_eq[OF assms(1), of ?n] assms(3) by (simp add: BIwordAsr_def Let_def)
    next
      case 2
      then have "?c \<ge> 32" using c s unfolding MAXWIDTH_def by (simp split: if_splits; linarith)
      then show ?thesis using 2 assms(3) by (simp add: BIwordAsr_def Let_def)
    next
      case 3
      then have k: "?c = MAXWIDTH - s + ?n - 2 ^ 32" "?c < MAXWIDTH - s" "?c < 32" "MAXWIDTH - s - ?c = 2 ^ 32 - ?n" "\<not> ?n < 2 ^ 32 - (32 - s)"
        using c s n by (auto simp: MAXWIDTH_def)
      then show ?thesis using 3 word_asr_wrap[OF assms(1), of ?c] assms(3) by (simp add: BIwordAsr_def Let_def)
    qed
  qed
  then show ?thesis
    using word_shift_eqs[OF s] assms(3) word_pickle[OF assms(1), of rest]
    by (simp add: BIwordOrb_def BIwordXorb_def BIwordAndb_def BIwordNotb_def BIwordShl_def BIwordLsr_def
        wordBinop_def Let_def flip: word_num_def)
qed

theorem word_bits_witness:
  "BIwordShl (OzObj (new_Word 8 200)) (OzObj (new_Word 5 3)) = Proceed (word_of 8 1600) \<and>
   BIwordAsr (OzObj (new_Word 8 200)) (OzObj (new_Word 5 3)) = Proceed (word_of 8 (- 7)) \<and>
   BIwordAsr (OzObj (new_Word 8 3)) (OzObj (new_Word 32 4294967295)) = Proceed (word_of 8 6)"
proof -
  have "word_ok (new_Word 8 200)" "word_ok (new_Word 5 3)" "word_num (new_Word 8 200) = 200"
    "word_num (new_Word 5 3) = 3" "word_size (new_Word 8 200) = 8" "signed_num (new_Word 8 200) = - 56"
    "word_ok (new_Word 8 3)" "word_num (new_Word 8 3) = 3" "word_size (new_Word 8 3) = 8"
    by code_simp+
  note f = this
  have g: "word_ok (new_Word 32 4294967295)" "word_num (new_Word 32 4294967295) = 4294967295"
    using new_Word_ok[of 32 4294967295] by (simp_all add: MAXWIDTH_def)
  have "BIwordAsr (OzObj (new_Word 8 3)) (OzObj (new_Word 32 4294967295)) =
      (if word_num (new_Word 32 4294967295) < 8 then Proceed (word_of 8 (signed_num (new_Word 8 3) div 2 ^ word_num (new_Word 32 4294967295)))
       else if word_num (new_Word 32 4294967295) < 2 ^ 32 - (32 - 8) then CxxUndefined
       else Proceed (word_of 8 (int (word_num (new_Word 8 3)) * 2 ^ (2 ^ 32 - word_num (new_Word 32 4294967295)))))"
    by (rule word_bits[OF f(7) g(1) f(9), unfolded Let_def, THEN conjunct2, THEN conjunct2, THEN conjunct2, THEN conjunct2, THEN conjunct1])
  then have "BIwordAsr (OzObj (new_Word 8 3)) (OzObj (new_Word 32 4294967295)) = Proceed (word_of 8 6)" using f(8) g(2) by simp
  then show ?thesis
    using word_bits[of "new_Word 8 200" "new_Word 5 3" 8] f(1-6) by (simp add: Let_def)
qed

end
