(* ===== verification/SuspQueue.thy ===== *)
theory SuspQueue
  imports Prelude
begin

text \<open>
  Queues and stacks of suspendables (\<^verbatim>\<open>platform/emulator/susp_queue.cc\<close>, \<^verbatim>\<open>susp_queue.hh\<close>,
  \<^verbatim>\<open>susplist.hh\<close>): linked cells that come from the free list of \<^verbatim>\<open>mem.hh\<close> and go back to it. A
  queue is a ring of cells and a pointer to its last cell; a stack is a chain.

  The store maps addresses to the cells in use; an address that has been disposed of has no cell,
  and reading through it has no result. The free list hands out the address disposed of last. Loops
  follow the pointers and have no result when they do not come back.
\<close>

type_synonym addr = nat
type_synonym susp = nat

record susp_list =
  sl_susp :: susp
  sl_next :: "addr option"

record susp_heap =
  cells :: "addr \<Rightarrow> susp_list option"
  free_cells :: "addr list"
  heap_top :: addr

text \<open>\<^verbatim>\<open>FL_Manager::alloc\<close> and \<^verbatim>\<open>free\<close> for the cells of lists.\<close>

definition alloc :: "susp_heap \<Rightarrow> addr \<times> susp_heap" where
  "alloc h = (case free_cells h of
       a # fs \<Rightarrow> (a, h\<lparr>free_cells := fs\<rparr>)
     | [] \<Rightarrow> (heap_top h, h\<lparr>heap_top := heap_top h + 1\<rparr>))"

definition new_SuspList :: "susp \<Rightarrow> addr option \<Rightarrow> susp_heap \<Rightarrow> addr \<times> susp_heap" where
  "new_SuspList s n h = (case alloc h of (a, h') \<Rightarrow>
     (a, h'\<lparr>cells := (cells h')(a \<mapsto> \<lparr>sl_susp = s, sl_next = n\<rparr>)\<rparr>))"

definition getNext_sl :: "addr \<Rightarrow> susp_heap \<Rightarrow> addr option option" where
  "getNext_sl a h = map_option sl_next (cells h a)"

definition getSuspendable :: "addr \<Rightarrow> susp_heap \<Rightarrow> susp option" where
  "getSuspendable a h = map_option sl_susp (cells h a)"

definition setNext :: "addr \<Rightarrow> addr option \<Rightarrow> susp_heap \<Rightarrow> susp_heap option" where
  "setNext a n h = (case cells h a of None \<Rightarrow> None
     | Some c \<Rightarrow> Some (h\<lparr>cells := (cells h)(a \<mapsto> c\<lparr>sl_next := n\<rparr>)\<rparr>))"

definition dispose :: "addr \<Rightarrow> susp_heap \<Rightarrow> (addr option \<times> susp_heap) option" where
  "dispose a h = (case cells h a of None \<Rightarrow> None
     | Some c \<Rightarrow> Some (sl_next c, h\<lparr>cells := (cells h)(a := None), free_cells := a # free_cells h\<rparr>))"

section \<open>Queues\<close>

type_synonym susp_queue = "addr option"

definition init_sq :: susp_queue where
  "init_sq = None"

definition isEmpty_sq :: "susp_queue \<Rightarrow> bool" where
  "isEmpty_sq q \<longleftrightarrow> q = None"

definition enqueue :: "susp \<Rightarrow> susp_queue \<Rightarrow> susp_heap \<Rightarrow> (susp_queue \<times> susp_heap) option" where
  "enqueue s q h = (case q of
       None \<Rightarrow> (case new_SuspList s None h of (a, h1) \<Rightarrow>
          (case setNext a (Some a) h1 of None \<Rightarrow> None | Some h2 \<Rightarrow> Some (Some a, h2)))
     | Some lst \<Rightarrow> (case getNext_sl lst h of None \<Rightarrow> None
        | Some n \<Rightarrow> (case new_SuspList s n h of (a, h1) \<Rightarrow>
            (case setNext lst (Some a) h1 of None \<Rightarrow> None | Some h2 \<Rightarrow> Some (Some a, h2)))))"

definition dequeue :: "susp_queue \<Rightarrow> susp_heap \<Rightarrow> (susp \<times> susp_queue \<times> susp_heap) option" where
  "dequeue q h = (case q of None \<Rightarrow> None
     | Some lst \<Rightarrow> (case getNext_sl lst h of
         Some (Some head) \<Rightarrow> (case getSuspendable head h of None \<Rightarrow> None
           | Some s \<Rightarrow>
               if head = lst then Some (s, init_sq, h)
               else (case dispose head h of None \<Rightarrow> None
                 | Some (n, h1) \<Rightarrow> (case setNext lst n h1 of None \<Rightarrow> None
                     | Some h2 \<Rightarrow> Some (s, Some lst, h2))))
       | _ \<Rightarrow> None))"

partial_function (option) getSize_loop :: "addr \<Rightarrow> addr \<Rightarrow> nat \<Rightarrow> susp_heap \<Rightarrow> nat option" where
  [code]: "getSize_loop lst sl n h = (case getNext_sl sl h of
       Some (Some sl') \<Rightarrow> if sl' \<noteq> lst then getSize_loop lst sl' (n + 1) h else Some (n + 1)
     | _ \<Rightarrow> None)"

definition getSize_sq :: "susp_queue \<Rightarrow> susp_heap \<Rightarrow> nat option" where
  "getSize_sq q h = (case q of None \<Rightarrow> Some 0 | Some lst \<Rightarrow> getSize_loop lst lst 0 h)"

partial_function (option) isIn_loop :: "addr \<Rightarrow> addr \<Rightarrow> susp \<Rightarrow> susp_heap \<Rightarrow> bool option" where
  [code]: "isIn_loop lst sl s h = (case getSuspendable sl h of None \<Rightarrow> None
     | Some s' \<Rightarrow>
         if s' = s then Some True
         else (case getNext_sl sl h of
             Some (Some sl') \<Rightarrow> if sl' \<noteq> lst then isIn_loop lst sl' s h else Some False
           | _ \<Rightarrow> None))"

definition isIn_sq :: "susp \<Rightarrow> susp_queue \<Rightarrow> susp_heap \<Rightarrow> bool option" where
  "isIn_sq s q h = (case q of None \<Rightarrow> Some False | Some lst \<Rightarrow> isIn_loop lst lst s h)"

partial_function (option) remove_loop ::
  "addr \<Rightarrow> addr \<Rightarrow> susp \<Rightarrow> susp_heap \<Rightarrow> (susp_queue \<times> susp_heap) option" where
  [code]: "remove_loop lst sl s h = (case getNext_sl sl h of
       Some (Some nl) \<Rightarrow> (case getSuspendable nl h of None \<Rightarrow> None
         | Some s' \<Rightarrow>
             if s' = s then
               (if nl = sl then Some (init_sq, h)
                else (case dispose nl h of None \<Rightarrow> None
                  | Some (n, h1) \<Rightarrow> (case setNext sl n h1 of None \<Rightarrow> None
                      | Some h2 \<Rightarrow> Some (Some lst, h2))))
             else if nl \<noteq> lst then remove_loop lst nl s h
             else Some (Some lst, h))
     | _ \<Rightarrow> None)"

definition remove_sq :: "susp \<Rightarrow> susp_queue \<Rightarrow> susp_heap \<Rightarrow> (susp_queue \<times> susp_heap) option" where
  "remove_sq s q h = (case q of None \<Rightarrow> Some (None, h) | Some lst \<Rightarrow> remove_loop lst lst s h)"

definition merge_sq :: "susp_queue \<Rightarrow> susp_queue \<Rightarrow> susp_heap \<Rightarrow> (susp_queue \<times> susp_heap) option" where
  "merge_sq q sq h = (case sq of None \<Rightarrow> Some (q, h)
     | Some slast \<Rightarrow> (case q of None \<Rightarrow> Some (Some slast, h)
        | Some lst \<Rightarrow> (case getNext_sl lst h of None \<Rightarrow> None
           | Some head \<Rightarrow> (case getNext_sl slast h of None \<Rightarrow> None
              | Some shead \<Rightarrow> (case setNext lst shead h of None \<Rightarrow> None
                 | Some h1 \<Rightarrow> (case setNext slast head h1 of None \<Rightarrow> None
                    | Some h2 \<Rightarrow> Some (Some lst, h2)))))))"

partial_function (option) reset_loop :: "addr \<Rightarrow> addr \<Rightarrow> susp_heap \<Rightarrow> susp_heap option" where
  [code]: "reset_loop lst sl h = (case dispose sl h of
       Some (Some sl', h1) \<Rightarrow> if sl' \<noteq> lst then reset_loop lst sl' h1 else Some h1
     | _ \<Rightarrow> None)"

definition reset_sq :: "susp_queue \<Rightarrow> susp_heap \<Rightarrow> (susp_queue \<times> susp_heap) option" where
  "reset_sq q h = (case q of None \<Rightarrow> Some (None, h)
     | Some lst \<Rightarrow> map_option (\<lambda>h1. (init_sq, h1)) (reset_loop lst lst h))"

section \<open>Stacks\<close>

type_synonym susp_stack = "addr option"

definition init_st :: susp_stack where
  "init_st = None"

definition isEmpty_st :: "susp_stack \<Rightarrow> bool" where
  "isEmpty_st q \<longleftrightarrow> q = None"

definition enqueue_st :: "susp \<Rightarrow> susp_stack \<Rightarrow> susp_heap \<Rightarrow> (susp_stack \<times> susp_heap) option" where
  "enqueue_st s q h = (case new_SuspList s q h of (a, h1) \<Rightarrow> Some (Some a, h1))"

definition dequeue_st :: "susp_stack \<Rightarrow> susp_heap \<Rightarrow> (susp \<times> susp_stack \<times> susp_heap) option" where
  "dequeue_st q h = (case q of None \<Rightarrow> None
     | Some head \<Rightarrow> (case (getSuspendable head h, getNext_sl head h) of
         (Some s, Some n) \<Rightarrow> Some (s, n, h)
       | _ \<Rightarrow> None))"

partial_function (option) getSize_st_loop :: "addr option \<Rightarrow> nat \<Rightarrow> susp_heap \<Rightarrow> nat option" where
  [code]: "getSize_st_loop q n h = (case q of None \<Rightarrow> Some n
     | Some sl \<Rightarrow> (case getNext_sl sl h of None \<Rightarrow> None | Some q' \<Rightarrow> getSize_st_loop q' (n + 1) h))"

definition getSize_st :: "susp_stack \<Rightarrow> susp_heap \<Rightarrow> nat option" where
  "getSize_st q h = getSize_st_loop q 0 h"

partial_function (option) isIn_st :: "susp \<Rightarrow> susp_stack \<Rightarrow> susp_heap \<Rightarrow> bool option" where
  [code]: "isIn_st s q h = (case q of None \<Rightarrow> Some False
     | Some sl \<Rightarrow> (case getSuspendable sl h of None \<Rightarrow> None
        | Some s' \<Rightarrow>
            if s' = s then Some True
            else (case getNext_sl sl h of None \<Rightarrow> None | Some q' \<Rightarrow> isIn_st s q' h)))"

partial_function (option) reset_st_loop :: "addr option \<Rightarrow> susp_heap \<Rightarrow> susp_heap option" where
  [code]: "reset_st_loop q h = (case q of None \<Rightarrow> Some h
     | Some sl \<Rightarrow> (case dispose sl h of None \<Rightarrow> None | Some (q', h1) \<Rightarrow> reset_st_loop q' h1))"

definition reset_st :: "susp_stack \<Rightarrow> susp_heap \<Rightarrow> (susp_stack \<times> susp_heap) option" where
  "reset_st q h = map_option (\<lambda>h1. (init_st, h1)) (reset_st_loop q h)"

text \<open>\<^verbatim>\<open>SuspStack::merge\<close>: both heads, the receiver's and the argument's, and the store.\<close>

partial_function (option) last_st :: "addr \<Rightarrow> susp_heap \<Rightarrow> addr option" where
  [code]: "last_st sl h = (case getNext_sl sl h of None \<Rightarrow> None
     | Some None \<Rightarrow> Some sl
     | Some (Some sl') \<Rightarrow> last_st sl' h)"

definition merge_st :: "susp_stack \<Rightarrow> susp_stack \<Rightarrow> susp_heap \<Rightarrow> (susp_stack \<times> susp_stack \<times> susp_heap) option" where
  "merge_st q sq h = (case sq of None \<Rightarrow> Some (q, sq, h)
     | Some shead \<Rightarrow> (case q of None \<Rightarrow> Some (sq, None, h)
        | Some head \<Rightarrow> (case last_st head h of None \<Rightarrow> None
           | Some l \<Rightarrow> (case setNext l sq h of None \<Rightarrow> None | Some h1 \<Rightarrow> Some (q, None, h1)))))"

text \<open>\<^verbatim>\<open>SuspStack::remove\<close>: the first loop takes the stack apart into a reversed copy without the
  entries that are removed, the second one puts the cells of the copy back in front of \<^verbatim>\<open>_head\<close>.\<close>

partial_function (option) remove_st_split ::
  "susp \<Rightarrow> addr option \<Rightarrow> addr option \<Rightarrow> susp_heap \<Rightarrow> (addr option \<times> susp_heap) option" where
  [code]: "remove_st_split s tmp q h = (case q of None \<Rightarrow> Some (tmp, h)
     | Some sl \<Rightarrow> (case getSuspendable sl h of None \<Rightarrow> None
        | Some s' \<Rightarrow>
            if s' = s then (case dispose sl h of None \<Rightarrow> None | Some (q', h1) \<Rightarrow> remove_st_split s tmp q' h1)
            else (case getNext_sl sl h of None \<Rightarrow> None
              | Some q' \<Rightarrow> (case setNext sl tmp h of None \<Rightarrow> None | Some h1 \<Rightarrow> remove_st_split s (Some sl) q' h1))))"

partial_function (option) remove_st_back ::
  "addr option \<Rightarrow> susp_stack \<Rightarrow> susp_heap \<Rightarrow> (susp_stack \<times> susp_heap) option" where
  [code]: "remove_st_back tmp q h = (case tmp of None \<Rightarrow> Some (q, h)
     | Some t \<Rightarrow> (case getNext_sl t h of None \<Rightarrow> None
        | Some n \<Rightarrow> (case setNext t q h of None \<Rightarrow> None | Some h1 \<Rightarrow> remove_st_back n (Some t) h1)))"

definition remove_st :: "susp \<Rightarrow> susp_stack \<Rightarrow> susp_heap \<Rightarrow> (susp_stack \<times> susp_heap) option" where
  "remove_st s q h = (case remove_st_split s None q h of None \<Rightarrow> None | Some (tmp, h1) \<Rightarrow> remove_st_back tmp q h1)"

section \<open>Rings of cells\<close>

text \<open>The cells from \<open>a\<close> to before \<open>b\<close>, in order, with their contents.\<close>

fun seg :: "(addr \<Rightarrow> susp_list option) \<Rightarrow> addr option \<Rightarrow> (addr \<times> susp) list \<Rightarrow> addr option \<Rightarrow> bool" where
  "seg c a [] b \<longleftrightarrow> a = b"
| "seg c a ((n, s) # ns) b \<longleftrightarrow> a = Some n \<and> (\<exists>m. c n = Some \<lparr>sl_susp = s, sl_next = m\<rparr> \<and> seg c m ns b)"

definition heap_ok :: "susp_heap \<Rightarrow> bool" where
  "heap_ok h \<longleftrightarrow> distinct (free_cells h) \<and> (\<forall>a \<in> set (free_cells h). cells h a = None \<and> a < heap_top h) \<and>
     (\<forall>a. heap_top h \<le> a \<longrightarrow> cells h a = None)"

text \<open>A queue that holds \<open>ns\<close>, the oldest first: a ring without repetitions that ends at the pointer.\<close>

definition ring :: "susp_heap \<Rightarrow> susp_queue \<Rightarrow> (addr \<times> susp) list \<Rightarrow> bool" where
  "ring h q ns \<longleftrightarrow> (case q of None \<Rightarrow> ns = []
     | Some l \<Rightarrow> ns \<noteq> [] \<and> fst (last ns) = l \<and> distinct (map fst ns) \<and> seg (cells h) (Some (fst (hd ns))) ns (Some (fst (hd ns))))"

lemma seg_append: "seg c a (xs @ ys) b \<longleftrightarrow> (\<exists>m. seg c a xs m \<and> seg c m ys b)"
  by (induction c a xs b rule: seg.induct) auto

lemma seg_cong:
  "seg c a ns b \<Longrightarrow> (\<And>x. x \<in> fst ` set ns \<Longrightarrow> c' x = c x) \<Longrightarrow> seg c' a ns b"
  by (induction c a ns b rule: seg.induct) auto

lemma seg_used: "seg c a ns b \<Longrightarrow> x \<in> fst ` set ns \<Longrightarrow> c x \<noteq> None"
  by (induction c a ns b rule: seg.induct) auto

lemma ring_cong:
  "ring h q ns \<Longrightarrow> (\<And>x. x \<in> fst ` set ns \<Longrightarrow> cells h' x = cells h x) \<Longrightarrow> ring h' q ns"
  by (auto simp: ring_def split: option.splits elim!: seg_cong)

lemma ring_snoc:
  "ring h (Some l) (ns @ [(l', s)]) \<longleftrightarrow> l' = l \<and> distinct (map fst ns @ [l]) \<and>
     seg (cells h) (Some (fst (hd (ns @ [(l, s)])))) ns (Some l) \<and>
     cells h l = Some \<lparr>sl_susp = s, sl_next = Some (fst (hd (ns @ [(l, s)])))\<rparr>"
  by (auto simp: ring_def seg_append)

lemma ring_Some:
  assumes "ring h (Some l) ns"
  obtains ms s where "ns = ms @ [(l, s)]"
  using assms that by (cases ns rule: rev_cases) (auto simp: ring_def)

lemma alloc_fresh:
  assumes "heap_ok h" "alloc h = (a, h')"
  shows "cells h a = None" "cells h' = cells h" "a \<notin> set (free_cells h')" "a < heap_top h'"
    "heap_ok h'"
  using assms by (auto simp: alloc_def heap_ok_def split: list.splits)

lemma heap_ok_set:
  "heap_ok h \<Longrightarrow> a \<notin> set (free_cells h) \<Longrightarrow> a < heap_top h \<Longrightarrow> heap_ok (h\<lparr>cells := (cells h)(a \<mapsto> c)\<rparr>)"
  by (auto simp: heap_ok_def)

lemma heap_ok_used: "heap_ok h \<Longrightarrow> cells h a = Some c \<Longrightarrow> a \<notin> set (free_cells h) \<and> a < heap_top h"
  by (auto simp: heap_ok_def not_le[symmetric])

section \<open>What the operations do to a ring\<close>

text \<open>Only the cells of the ring and a fresh one change.\<close>

definition same_outside :: "addr set \<Rightarrow> susp_heap \<Rightarrow> susp_heap \<Rightarrow> bool" where
  "same_outside A h h' \<longleftrightarrow> (\<forall>x. x \<notin> A \<longrightarrow> cells h' x = cells h x)"

lemma enqueue_ring:
  assumes "heap_ok h" "ring h q ns"
  obtains a h' where "enqueue s q h = Some (Some a, h')" "ring h' (Some a) (ns @ [(a, s)])" "heap_ok h'"
    "cells h a = None" "same_outside (insert a (fst ` set ns)) h h'"
proof (cases q)
  case None
  obtain a h1 where al: "alloc h = (a, h1)" by (cases "alloc h")
  note f = alloc_fresh[OF assms(1) al]
  show thesis
    using that[of a "h1\<lparr>cells := (cells h)(a \<mapsto> \<lparr>sl_susp = s, sl_next = Some a\<rparr>)\<rparr>"] assms(2) None al f
      heap_ok_set[OF f(5,3,4), of "\<lparr>sl_susp = s, sl_next = Some a\<rparr>"]
    by (auto simp: enqueue_def new_SuspList_def setNext_def ring_def same_outside_def)
next
  case (Some l)
  obtain ms t where ns: "ns = ms @ [(l, t)]" using assms(2) Some ring_Some by blast
  define hd' where "hd' = fst (hd (ms @ [(l, t)]))"
  have r: "distinct (map fst ms @ [l])" "seg (cells h) (Some hd') ms (Some l)" "cells h l = Some \<lparr>sl_susp = t, sl_next = Some hd'\<rparr>"
    using assms(2) by (auto simp: Some ns ring_snoc hd'_def)
  obtain a h1 where al: "alloc h = (a, h1)" by (cases "alloc h")
  note f = alloc_fresh[OF assms(1) al]
  have un: "a \<noteq> l" "a \<notin> fst ` set ms"
    using r(3) f(1) seg_used[OF r(2), of a] by auto
  define h2 where "h2 = h1\<lparr>cells := (cells h)(a \<mapsto> \<lparr>sl_susp = s, sl_next = Some hd'\<rparr>, l \<mapsto> \<lparr>sl_susp = t, sl_next = Some a\<rparr>)\<rparr>"
  have enq: "enqueue s q h = Some (Some a, h2)"
    using un r(3) f(2) by (simp add: enqueue_def Some getNext_sl_def new_SuspList_def al setNext_def h2_def)
  have seg': "seg (cells h2) (Some hd') ms (Some l)"
    by (rule seg_cong[OF r(2)]) (use un r(1) in \<open>auto simp: h2_def\<close>)
  have hd_eq: "fst (hd (ns @ [(a, s)])) = hd'" by (simp add: ns hd'_def hd_append)
  have ring': "ring h2 (Some a) (ns @ [(a, s)])"
    unfolding ring_snoc hd_eq using un r(1) seg' by (auto simp: ns seg_append h2_def)
  have "heap_ok (h1\<lparr>cells := (cells h1)(a \<mapsto> \<lparr>sl_susp = s, sl_next = Some hd'\<rparr>)\<rparr>)"
    by (rule heap_ok_set) (use f in auto)
  then have ok: "heap_ok h2"
    using heap_ok_used[OF f(5), of l] r(3) f(2)
      heap_ok_set[of "h1\<lparr>cells := (cells h1)(a \<mapsto> \<lparr>sl_susp = s, sl_next = Some hd'\<rparr>)\<rparr>" l "\<lparr>sl_susp = t, sl_next = Some a\<rparr>"]
    by (simp add: h2_def)
  show thesis
    by (rule that[OF enq ring' ok f(1)]) (auto simp: same_outside_def h2_def ns)
qed

lemma dispose_set_ok:
  assumes "heap_ok h" "cells h a = Some c" "cells h p = Some d" "a \<noteq> p"
  shows "heap_ok (h\<lparr>cells := (cells h)(a := None, p \<mapsto> e), free_cells := a # free_cells h\<rparr>)"
  using assms heap_ok_used[OF assms(1,2)] heap_ok_used[OF assms(1,3)] by (auto simp: heap_ok_def)

text \<open>Unlinking a cell that is not the last one.\<close>

lemma unlink_ring:
  assumes "ring h (Some l) (us @ (a, s) # vs @ [(l, t)])"
    "p = (if us = [] then l else fst (last us))" "n = fst (hd (vs @ [(l, t)]))"
  shows "\<exists>u. cells h p = Some \<lparr>sl_susp = u, sl_next = Some a\<rparr> \<and> cells h a = Some \<lparr>sl_susp = s, sl_next = Some n\<rparr> \<and>
    a \<noteq> p \<and> (\<forall>h'. cells h' = (cells h)(a := None, p \<mapsto> \<lparr>sl_susp = u, sl_next = Some n\<rparr>) \<longrightarrow>
      ring h' (Some l) (us @ vs @ [(l, t)]))"
proof (cases us rule: rev_cases)
  case Nil
  have r: "distinct (a # map fst vs @ [l])" "cells h a = Some \<lparr>sl_susp = s, sl_next = Some n\<rparr>"
    "seg (cells h) (Some n) vs (Some l)" "cells h l = Some \<lparr>sl_susp = t, sl_next = Some a\<rparr>"
    using assms(1) ring_snoc[of h l "(a, s) # vs" l t] assms(3)
    by (cases vs; auto simp: Nil)+
  have "ring h' (Some l) (vs @ [(l, t)])"
    if h': "cells h' = (cells h)(a := None, l \<mapsto> \<lparr>sl_susp = t, sl_next = Some n\<rparr>)" for h'
  proof -
    have "seg (cells h') (Some n) vs (Some l)" by (rule seg_cong[OF r(3)]) (use r(1) h' in auto)
    then show ?thesis unfolding ring_snoc using r(1) h' assms(3) by simp
  qed
  then show ?thesis using r assms(2) by (auto simp: Nil)
next
  case (snoc ws w)
  obtain u where w: "w = (p, u)" using assms(2) snoc by (cases w) auto
  define hd' where "hd' = fst (hd (ws @ [(p, u)]))"
  have r: "distinct (map fst ws @ p # a # map fst vs @ [l])" "seg (cells h) (Some hd') ws (Some p)"
    "cells h p = Some \<lparr>sl_susp = u, sl_next = Some a\<rparr>" "cells h a = Some \<lparr>sl_susp = s, sl_next = Some n\<rparr>"
    "seg (cells h) (Some n) vs (Some l)" "cells h l = Some \<lparr>sl_susp = t, sl_next = Some hd'\<rparr>"
    using assms(1) ring_snoc[of h l "ws @ (p, u) # (a, s) # vs" l t] assms(3)
    by (cases vs; auto simp: snoc w seg_append hd'_def hd_append split: if_splits)+
  have "ring h' (Some l) (us @ vs @ [(l, t)])"
    if h': "cells h' = (cells h)(a := None, p \<mapsto> \<lparr>sl_susp = u, sl_next = Some n\<rparr>)" for h'
  proof -
    have "fst (hd ((us @ vs) @ [(l, t)])) = hd'" by (simp add: snoc w hd'_def hd_append)
    moreover have "seg (cells h') (Some hd') ws (Some p)" "seg (cells h') (Some n) vs (Some l)"
      by (rule seg_cong[OF r(2)] seg_cong[OF r(5)]; use r(1) h' in auto)+
    ultimately show ?thesis
      using r h' ring_snoc[of h' l "us @ vs" l t] by (auto simp: snoc w seg_append)
  qed
  then show ?thesis using r by auto
qed

lemma unlink_runs:
  assumes "heap_ok h" "ring h (Some l) (us @ (a, s) # vs @ [(l, t)])" "p = (if us = [] then l else fst (last us))"
  obtains n h1 h2 where "dispose a h = Some (n, h1)" "setNext p n h1 = Some h2"
    "ring h2 (Some l) (us @ vs @ [(l, t)])" "heap_ok h2" "same_outside {a, p} h h2" "cells h2 a = None"
proof -
  obtain u where u: "cells h p = Some \<lparr>sl_susp = u, sl_next = Some a\<rparr>"
    "cells h a = Some \<lparr>sl_susp = s, sl_next = Some (fst (hd (vs @ [(l, t)])))\<rparr>" "a \<noteq> p"
    and k: "cells h' = (cells h)(a := None, p \<mapsto> \<lparr>sl_susp = u, sl_next = Some (fst (hd (vs @ [(l, t)])))\<rparr>) \<Longrightarrow>
      ring h' (Some l) (us @ vs @ [(l, t)])" for h'
    using unlink_ring[OF assms(2,3) refl] by blast
  show thesis
    by (rule that[OF _ _ k dispose_set_ok[OF assms(1) u(2,1,3)]])
      (use u in \<open>auto simp: dispose_def setNext_def same_outside_def\<close>)
qed

lemma ring_last_cell:
  "ring h (Some l) ns \<Longrightarrow> \<exists>t. cells h l = Some \<lparr>sl_susp = t, sl_next = Some (fst (hd ns))\<rparr>"
  by (metis ring_Some ring_snoc)

lemma dequeue_ring:
  assumes "heap_ok h" "ring h q ((a, s) # ns)"
  obtains q' h' where "dequeue q h = Some (s, q', h')" "ring h' q' ns" "heap_ok h'"
    "same_outside (insert a (fst ` set ns)) h h'"
proof (cases q)
  case None then show thesis using assms by (simp add: ring_def)
next
  case (Some l)
  obtain t where l: "cells h l = Some \<lparr>sl_susp = t, sl_next = Some a\<rparr>"
    using ring_last_cell assms(2) Some by fastforce
  have a: "\<exists>m. cells h a = Some \<lparr>sl_susp = s, sl_next = m\<rparr>" using assms(2) Some by (auto simp: ring_def)
  show thesis
  proof (cases ns rule: rev_cases)
    case Nil
    then have "a = l" using assms(2) Some by (simp add: ring_def)
    then show thesis using that[of None h] a l assms(1) Nil
      by (auto simp: dequeue_def Some getNext_sl_def getSuspendable_def init_sq_def ring_def same_outside_def)
  next
    case (snoc vs w)
    obtain u where w: "w = (l, u)" using assms(2) Some snoc by (cases w) (auto simp: ring_def)
    have "a \<noteq> l" using assms(2) Some snoc w by (auto simp: ring_def)
    obtain n h1 h2 where d: "dispose a h = Some (n, h1)" "setNext l n h1 = Some h2"
      "ring h2 (Some l) ([] @ vs @ [(l, u)])" "heap_ok h2" "same_outside {a, l} h h2"
      by (rule unlink_runs[of h l "[]" a s vs u l]) (use assms Some snoc w in auto)
    have "dequeue q h = Some (s, Some l, h2)"
      using d(1,2) \<open>a \<noteq> l\<close> a l by (auto simp: dequeue_def Some getNext_sl_def getSuspendable_def)
    then show thesis using that d(3-5) snoc w by (auto simp: same_outside_def)
  qed
qed

section \<open>The loops around a ring\<close>

text \<open>Seen from its last cell a ring is a segment back to that cell.\<close>

lemma ring_rotate:
  "ring h (Some l) (ms @ [(l, t)]) \<Longrightarrow> seg (cells h) (Some l) ((l, t) # ms) (Some l) \<and> l \<notin> fst ` set ms \<and> distinct (map fst ms)"
  by (auto simp: ring_snoc)

lemma getSize_loop_seg:
  "seg (cells h) (Some sl) ((sl, t) # xs) (Some lst) \<Longrightarrow> lst \<notin> fst ` set xs \<Longrightarrow>
    getSize_loop lst sl n h = Some (n + 1 + length xs)"
proof (induction xs arbitrary: sl t n)
  case Nil then show ?case by (subst getSize_loop.simps) (auto simp: getNext_sl_def)
next
  case (Cons x xs) then show ?case
    by (cases x; subst getSize_loop.simps) (auto simp: getNext_sl_def)
qed

lemma isIn_loop_seg:
  "seg (cells h) (Some sl) ((sl, t) # xs) (Some lst) \<Longrightarrow> lst \<notin> fst ` set xs \<Longrightarrow>
    isIn_loop lst sl s h = Some (t = s \<or> s \<in> snd ` set xs)"
proof (induction xs arbitrary: sl t)
  case Nil then show ?case by (subst isIn_loop.simps) (auto simp: getNext_sl_def getSuspendable_def)
next
  case (Cons x xs) then show ?case
    by (cases x; subst isIn_loop.simps) (auto simp: getNext_sl_def getSuspendable_def)
qed

lemma ring_cases:
  assumes "ring h q ns"
  obtains "q = None" "ns = []"
  | l ms t where "q = Some l" "ns = ms @ [(l, t)]" "seg (cells h) (Some l) ((l, t) # ms) (Some l)" "l \<notin> fst ` set ms"
    "distinct (map fst ms)"
proof (cases q)
  case None then show thesis using assms that(1) by (simp add: ring_def)
next
  case (Some l)
  then obtain ms t where ns: "ns = ms @ [(l, t)]" using assms ring_Some by blast
  then show thesis using ring_rotate[of h l ms t] that(2)[OF Some ns] Some assms by simp
qed

lemma getSize_ring: "ring h q ns \<Longrightarrow> getSize_sq q h = Some (length ns)"
proof (erule ring_cases)
  fix l ms t
  assume "q = Some l" "ns = ms @ [(l, t)]" "seg (cells h) (Some l) ((l, t) # ms) (Some l)" "l \<notin> fst ` set ms"
  then show ?thesis using getSize_loop_seg[of h l t ms l 0] by (simp add: getSize_sq_def del: seg.simps)
qed (simp add: getSize_sq_def)

lemma isIn_ring: "ring h q ns \<Longrightarrow> isIn_sq s q h = Some (s \<in> snd ` set ns)"
proof (erule ring_cases)
  fix l ms t
  assume "q = Some l" "ns = ms @ [(l, t)]" "seg (cells h) (Some l) ((l, t) # ms) (Some l)" "l \<notin> fst ` set ms"
  then show ?thesis using isIn_loop_seg[of h l t ms l s] by (auto simp add: isIn_sq_def simp del: seg.simps)
qed (simp add: isIn_sq_def)

text \<open>\<^verbatim>\<open>reset\<close> disposes of every cell of the ring.\<close>

lemma dispose_ok:
  "heap_ok h \<Longrightarrow> cells h a = Some c \<Longrightarrow> heap_ok (h\<lparr>cells := (cells h)(a := None), free_cells := a # free_cells h\<rparr>)"
  using heap_ok_used[of h a c] by (auto simp: heap_ok_def)

lemma reset_loop_seg:
  "seg (cells h) (Some sl) ((sl, t) # xs) (Some lst) \<Longrightarrow> lst \<notin> fst ` set xs \<Longrightarrow> distinct (sl # map fst xs) \<Longrightarrow> heap_ok h \<Longrightarrow>
    \<exists>h'. reset_loop lst sl h = Some h' \<and> heap_ok h' \<and>
      (\<forall>x. cells h' x = (if x \<in> insert sl (fst ` set xs) then None else cells h x))"
proof (induction xs arbitrary: sl t h)
  case Nil then show ?case using dispose_ok[of h sl] by (subst reset_loop.simps) (auto simp: dispose_def)
next
  case (Cons x xs)
  obtain b u where x: "x = (b, u)" by (cases x)
  define h1 where "h1 = h\<lparr>cells := (cells h)(sl := None), free_cells := sl # free_cells h\<rparr>"
  have "\<exists>h'. reset_loop lst b h1 = Some h' \<and> heap_ok h' \<and>
      (\<forall>y. cells h' y = (if y \<in> insert b (fst ` set xs) then None else cells h1 y))"
  proof (rule Cons.IH)
    show "seg (cells h1) (Some b) ((b, u) # xs) (Some lst)"
      by (rule seg_cong[of "cells h"]) (use Cons.prems x in \<open>auto simp: h1_def\<close>)
    show "heap_ok h1" unfolding h1_def using Cons.prems by (auto intro: dispose_ok)
  qed (use Cons.prems x in auto)
  moreover have "reset_loop lst sl h = reset_loop lst b h1"
    using Cons.prems x by (subst reset_loop.simps) (auto simp: dispose_def h1_def)
  ultimately show ?case using x by (fastforce simp: h1_def)
qed

lemma reset_ring:
  assumes "heap_ok h" "ring h q ns"
  obtains h' where "reset_sq q h = Some (None, h')" "heap_ok h'"
    "\<And>x. cells h' x = (if x \<in> fst ` set ns then None else cells h x)"
  using assms(2)
proof (cases rule: ring_cases)
  case 1 then show thesis using assms(1) that[of h] by (auto simp: reset_sq_def)
next
  case (2 l ms t)
  then show thesis
    using that assms(1) reset_loop_seg[of h l t ms l] by (force simp: reset_sq_def init_sq_def)
qed

section \<open>Removal\<close>

text \<open>The search passes over the cells that hold something else.\<close>

lemma remove_loop_skip:
  "cells h p = Some \<lparr>sl_susp = u, sl_next = Some (fst (hd (us @ ws)))\<rparr> \<Longrightarrow> seg (cells h) (Some (fst (hd (us @ ws)))) (us @ ws) e \<Longrightarrow>
    ws \<noteq> [] \<Longrightarrow> s \<notin> snd ` set us \<Longrightarrow> lst \<notin> fst ` set us \<Longrightarrow>
    remove_loop lst p s h = remove_loop lst (if us = [] then p else fst (last us)) s h"
proof (induction us arbitrary: p u)
  case (Cons x us)
  obtain a t where x: "x = (a, t)" by (cases x)
  obtain m where c: "cells h a = Some \<lparr>sl_susp = t, sl_next = m\<rparr>" and sg: "seg (cells h) m (us @ ws) e"
    using Cons.prems(2) x by auto
  have "m = Some (fst (hd (us @ ws)))" using sg Cons.prems(3) by (cases "us @ ws") auto
  then have "remove_loop lst a s h = remove_loop lst (if us = [] then a else fst (last us)) s h"
    by (intro Cons.IH[of a t]) (use c sg Cons.prems in auto)
  also have "(if us = [] then a else fst (last us)) = (if x # us = [] then p else fst (last (x # us)))"
    using x by simp
  finally show ?case
    using Cons.prems x c by (subst remove_loop.simps) (simp add: getNext_sl_def getSuspendable_def)
qed simp

text \<open>Where the search stands when it has passed over the first cells of a ring.\<close>

lemma remove_ring_skip:
  assumes "ring h (Some l) (us @ (a, x) # vs)" "s \<notin> snd ` set us"
  shows "remove_loop l l s h = remove_loop l (if us = [] then l else fst (last us)) s h"
    "\<exists>u. cells h (if us = [] then l else fst (last us)) = Some \<lparr>sl_susp = u, sl_next = Some a\<rparr>"
    "\<exists>m. cells h a = Some \<lparr>sl_susp = x, sl_next = m\<rparr>"
proof -
  obtain t where t: "cells h l = Some \<lparr>sl_susp = t, sl_next = Some (fst (hd (us @ (a, x) # vs)))\<rparr>"
    using ring_last_cell[OF assms(1)] by blast
  have sg: "seg (cells h) (Some (fst (hd (us @ (a, x) # vs)))) (us @ (a, x) # vs) (Some (fst (hd (us @ (a, x) # vs))))"
    using assms(1) unfolding ring_def option.case by blast
  have d: "distinct (map fst us @ map fst ((a, x) # vs))" and e: "fst (last ((a, x) # vs)) = l"
    using assms(1) unfolding ring_def option.case by (simp_all only: map_append) (metis last_appendR list.distinct(1))
  have "l \<in> set (map fst ((a, x) # vs))" using e last_in_set[of "(a, x) # vs"] by (metis list.distinct(1) image_eqI set_map)
  then have l: "l \<notin> fst ` set us" using d by (auto simp del: list.map)
  show "remove_loop l l s h = remove_loop l (if us = [] then l else fst (last us)) s h"
    by (rule remove_loop_skip[OF t sg _ assms(2) l]) simp
  show "\<exists>m. cells h a = Some \<lparr>sl_susp = x, sl_next = m\<rparr>" using sg by (auto simp: seg_append)
  show "\<exists>u. cells h (if us = [] then l else fst (last us)) = Some \<lparr>sl_susp = u, sl_next = Some a\<rparr>"
    using t sg by (cases us rule: rev_cases) (auto simp: seg_append)
qed

lemma remove_absent:
  assumes "ring h q ns" "s \<notin> snd ` set ns"
  shows "remove_sq s q h = Some (q, h)"
  using assms(1)
proof (cases rule: ring_cases)
  case 1 then show ?thesis by (simp add: remove_sq_def)
next
  case (2 l ms t)
  have r: "ring h (Some l) (ms @ (l, t) # [])" using assms(1) 2 by simp
  have s: "s \<notin> snd ` set ms" "t \<noteq> s" using assms(2) 2 by auto
  note k = remove_ring_skip[OF r s(1)]
  then have "remove_loop l (if ms = [] then l else fst (last ms)) s h = Some (Some l, h)"
    using s(2) by (subst remove_loop.simps) (auto simp: getNext_sl_def getSuspendable_def)
  then show ?thesis using k(1) 2 by (simp add: remove_sq_def)
qed

lemma remove_only:
  assumes "ring h q [(a, s)]"
  shows "remove_sq s q h = Some (None, h)"
  using assms by (cases q; subst remove_sq_def; subst remove_loop.simps)
    (auto simp: ring_def getNext_sl_def getSuspendable_def init_sq_def)

lemma remove_inner:
  assumes "heap_ok h" "ring h (Some l) (us @ (a, s) # vs @ [(l, t)])" "s \<notin> snd ` set us"
  obtains h' where "remove_sq s (Some l) h = Some (Some l, h')" "ring h' (Some l) (us @ vs @ [(l, t)])" "heap_ok h'"
    "same_outside (fst ` set (us @ (a, s) # vs @ [(l, t)])) h h'"
proof -
  define p where "p = (if us = [] then l else fst (last us))"
  note k = remove_ring_skip[OF assms(2,3), folded p_def]
  obtain n h1 h2 where d: "dispose a h = Some (n, h1)" "setNext p n h1 = Some h2"
    "ring h2 (Some l) (us @ vs @ [(l, t)])" "heap_ok h2" "same_outside {a, p} h h2"
    by (rule unlink_runs[OF assms(1,2) p_def])
  have "a \<noteq> p" using assms(2) by (cases us rule: rev_cases) (auto simp: ring_def p_def)
  then have "remove_loop l p s h = Some (Some l, h2)"
    using k(2,3) d(1,2) by (subst remove_loop.simps) (auto simp: getNext_sl_def getSuspendable_def)
  then have "remove_sq s (Some l) h = Some (Some l, h2)" using k(1) by (simp add: remove_sq_def)
  moreover have "same_outside (fst ` set (us @ (a, s) # vs @ [(l, t)])) h h2"
    using d(5) by (cases us rule: rev_cases) (auto simp: same_outside_def p_def)
  ultimately show thesis using that d(3,4) by blast
qed

text \<open>The last cell of a longer ring: it is disposed of and the queue keeps pointing to it.\<close>

lemma remove_last:
  assumes "ring h (Some l) (us @ [(l, s)])" "us \<noteq> []" "s \<notin> snd ` set us"
  obtains h' where "remove_sq s (Some l) h = Some (Some l, h')" "cells h' l = None" "hd (free_cells h') = l" "free_cells h' \<noteq> []"
proof -
  define p where "p = (if us = [] then l else fst (last us))"
  note k = remove_ring_skip[OF assms(1,3), folded p_def]
  have "p \<noteq> l" using assms(1,2) by (cases us rule: rev_cases) (auto simp: ring_def p_def)
  moreover obtain u m where c: "cells h p = Some \<lparr>sl_susp = u, sl_next = Some l\<rparr>" "cells h l = Some \<lparr>sl_susp = s, sl_next = m\<rparr>"
    using k(2,3) by blast
  ultimately have "remove_loop l p s h = Some (Some l, h\<lparr>cells := (cells h)(l := None, p \<mapsto> \<lparr>sl_susp = u, sl_next = m\<rparr>), free_cells := l # free_cells h\<rparr>)"
    by (subst remove_loop.simps) (simp add: getNext_sl_def getSuspendable_def dispose_def setNext_def)
  then show thesis using k(1) \<open>p \<noteq> l\<close> that by (simp add: remove_sq_def)
qed

section \<open>Merging\<close>

text \<open>The elements of the other queue come first, and the two pointers now share one ring.\<close>

lemma merge_ring:
  assumes "heap_ok h" "ring h q ns" "ring h sq ms" "fst ` set ns \<inter> fst ` set ms = {}"
  obtains q' h' where "merge_sq q sq h = Some (q', h')" "ring h' q' (ms @ ns)" "heap_ok h'"
    "same_outside (fst ` set (ms @ ns)) h h'"
proof (cases "q = None \<or> sq = None")
  case True
  then show thesis using that[of _ h] assms by (auto simp: merge_sq_def ring_def same_outside_def split: option.splits)
next
  case False
  then obtain l k where q: "q = Some l" "sq = Some k" by auto
  obtain us t where ns: "ns = us @ [(l, t)]" using assms(2) q ring_Some by blast
  obtain vs u where ms: "ms = vs @ [(k, u)]" using assms(3) q ring_Some by blast
  define a b where "a = fst (hd (us @ [(l, t)]))" and "b = fst (hd (vs @ [(k, u)]))"
  have r: "distinct (map fst us @ [l])" "seg (cells h) (Some a) us (Some l)" "cells h l = Some \<lparr>sl_susp = t, sl_next = Some a\<rparr>"
    "distinct (map fst vs @ [k])" "seg (cells h) (Some b) vs (Some k)" "cells h k = Some \<lparr>sl_susp = u, sl_next = Some b\<rparr>"
    using assms(2,3) by (auto simp: q ns ms ring_snoc a_def b_def)
  have dj: "l \<noteq> k" "l \<notin> fst ` set vs" "k \<notin> fst ` set us" "fst ` set us \<inter> fst ` set vs = {}"
    using assms(4) by (auto simp: ns ms)
  define h2 where "h2 = h\<lparr>cells := (cells h)(l \<mapsto> \<lparr>sl_susp = t, sl_next = Some b\<rparr>, k \<mapsto> \<lparr>sl_susp = u, sl_next = Some a\<rparr>)\<rparr>"
  have run: "merge_sq q sq h = Some (Some l, h2)"
    using r(3,6) dj(1) by (simp add: merge_sq_def q getNext_sl_def setNext_def h2_def)
  have "seg (cells h2) (Some a) us (Some l)" "seg (cells h2) (Some b) vs (Some k)"
    by (rule seg_cong[OF r(2)] seg_cong[OF r(5)]; use r(1,4) dj in \<open>auto simp: h2_def\<close>)+
  moreover have "fst (hd ((ms @ us) @ [(l, t)])) = b" by (simp add: ms b_def hd_append)
  ultimately have ring': "ring h2 (Some l) ((ms @ us) @ [(l, t)])"
    unfolding ring_snoc using r(1,4) dj by (auto simp: ms seg_append h2_def)
  have ok: "heap_ok h2"
    using heap_ok_used[OF assms(1) r(3)] heap_ok_used[OF assms(1) r(6)] assms(1) by (auto simp: heap_ok_def h2_def)
  show thesis
    by (rule that[OF run _ ok]) (use ring' in \<open>auto simp: ns ms same_outside_def h2_def\<close>)
qed

end
