(* ===== verification/SuspFamily.thy ===== *)
theory SuspFamily
  imports SuspQueue "HOL-Library.Multiset"
begin

text \<open>
  Stacks of suspendables on their cells, and several queues or stacks that share one store. The
  locale \<open>susp_family\<close> is the contract under which the thread pool and the boards use them: each
  operation changes the sequence of its own container and of no other one. It is interpreted on
  \<open>SuspQueue\<close> (elements come out in the order they went in) and on \<open>SuspStack\<close> (in reverse order).
\<close>

section \<open>Chains of cells\<close>

definition chain :: "susp_heap \<Rightarrow> susp_stack \<Rightarrow> (addr \<times> susp) list \<Rightarrow> bool" where
  "chain h q ns \<longleftrightarrow> distinct (map fst ns) \<and> seg (cells h) q ns None"

lemma chain_cong:
  "chain h q ns \<Longrightarrow> (\<And>x. x \<in> fst ` set ns \<Longrightarrow> cells h' x = cells h x) \<Longrightarrow> chain h' q ns"
  by (auto simp: chain_def elim!: seg_cong)

lemma enqueue_chain:
  assumes "heap_ok h" "chain h q ns"
  obtains a h' where "enqueue_st s q h = Some (Some a, h')" "chain h' (Some a) ((a, s) # ns)" "heap_ok h'"
    "cells h a = None" "same_outside {a} h h'"
proof -
  obtain a h1 where al: "alloc h = (a, h1)" by (cases "alloc h")
  note f = alloc_fresh[OF assms(1) al]
  define h2 where "h2 = h1\<lparr>cells := (cells h1)(a \<mapsto> \<lparr>sl_susp = s, sl_next = q\<rparr>)\<rparr>"
  have a: "a \<notin> fst ` set ns" using seg_used[of "cells h" q ns None a] assms(2) f(1) by (auto simp: chain_def)
  have "seg (cells h2) q ns None"
    by (rule seg_cong[of "cells h"]) (use assms(2) a f(2) in \<open>auto simp: chain_def h2_def\<close>)
  then show thesis
    using that[of a h2] a assms(2) f(1,2) heap_ok_set[OF f(5,3,4), of "\<lparr>sl_susp = s, sl_next = q\<rparr>"]
    by (auto simp: enqueue_st_def new_SuspList_def al chain_def h2_def same_outside_def)
qed

lemma dequeue_chain:
  "chain h q ((a, s) # ns) \<Longrightarrow> \<exists>q'. dequeue_st q h = Some (s, q', h) \<and> chain h q' ns"
  by (auto simp: dequeue_st_def chain_def getSuspendable_def getNext_sl_def)

lemma isEmpty_chain: "chain h q ns \<Longrightarrow> isEmpty_st q \<longleftrightarrow> ns = []"
  by (cases ns) (auto simp: chain_def isEmpty_st_def)

lemma getSize_st_loop_seg: "seg (cells h) q ns None \<Longrightarrow> getSize_st_loop q n h = Some (n + length ns)"
proof (induction ns arbitrary: q n)
  case Nil then show ?case by (subst getSize_st_loop.simps) simp
next
  case (Cons x xs) then show ?case
    by (cases x; subst getSize_st_loop.simps) (auto simp: getNext_sl_def)
qed

lemma getSize_chain: "chain h q ns \<Longrightarrow> getSize_st q h = Some (length ns)"
  using getSize_st_loop_seg[of h q ns 0] by (simp add: getSize_st_def chain_def)

lemma isIn_chain: "chain h q ns \<Longrightarrow> isIn_st s q h = Some (s \<in> snd ` set ns)"
proof (induction ns arbitrary: q)
  case Nil then show ?case by (subst isIn_st.simps) (simp add: chain_def)
next
  case (Cons x xs) then show ?case
    by (cases x; subst isIn_st.simps) (auto simp: chain_def getNext_sl_def getSuspendable_def)
qed

lemma reset_st_loop_chain:
  "heap_ok h \<Longrightarrow> chain h q ns \<Longrightarrow> \<exists>h'. reset_st_loop q h = Some h' \<and> heap_ok h' \<and>
     (\<forall>x. cells h' x = (if x \<in> fst ` set ns then None else cells h x))"
proof (induction ns arbitrary: q h)
  case Nil then show ?case by (subst reset_st_loop.simps) (simp add: chain_def)
next
  case (Cons x xs)
  obtain a t m where x: "x = (a, t)" "q = Some a" "cells h a = Some \<lparr>sl_susp = t, sl_next = m\<rparr>" "chain h m xs" "a \<notin> fst ` set xs"
    using Cons.prems(2) by (cases x) (auto simp: chain_def)
  define h1 where "h1 = h\<lparr>cells := (cells h)(a := None), free_cells := a # free_cells h\<rparr>"
  have "heap_ok h1" using Cons.prems(1) x(3) by (simp add: h1_def dispose_ok)
  moreover have "chain h1 m xs" by (rule chain_cong[OF x(4)]) (use x(5) in \<open>auto simp: h1_def\<close>)
  ultimately have "\<exists>h'. reset_st_loop m h1 = Some h' \<and> heap_ok h' \<and>
     (\<forall>y. cells h' y = (if y \<in> fst ` set xs then None else cells h1 y))" by (rule Cons.IH)
  then show ?case using x by (subst reset_st_loop.simps) (fastforce simp: dispose_def h1_def)
qed

lemma last_st_chain: "chain h (Some a) (ns @ [(l, t)]) \<Longrightarrow> last_st a h = Some l"
proof (induction ns arbitrary: a)
  case Nil then show ?case by (subst last_st.simps) (auto simp: chain_def getNext_sl_def)
next
  case (Cons x xs)
  obtain u m where x: "x = (a, u)" "cells h a = Some \<lparr>sl_susp = u, sl_next = m\<rparr>" "chain h m (xs @ [(l, t)])"
    using Cons.prems by (cases x) (auto simp: chain_def)
  then obtain b where "m = Some b" by (cases xs) (auto simp: chain_def)
  then show ?case using Cons.IH[of b] x by (subst last_st.simps) (simp add: getNext_sl_def)
qed

text \<open>Merging stacks appends the other stack and leaves it empty.\<close>

lemma merge_chain:
  assumes "heap_ok h" "chain h q ns" "chain h sq ms" "fst ` set ns \<inter> fst ` set ms = {}"
  obtains q' h' where "merge_st q sq h = Some (q', None, h')" "chain h' q' (ns @ ms)" "heap_ok h'"
    "same_outside (fst ` set ns) h h'"
proof (cases "q = None \<or> sq = None")
  case True
  moreover have "ns = []" if "q = None" using that assms(2) by (cases ns) (auto simp: chain_def)
  moreover have "ms = []" if "sq = None" using that assms(3) by (cases ms) (auto simp: chain_def)
  ultimately have "\<exists>q'. merge_st q sq h = Some (q', None, h) \<and> chain h q' (ns @ ms)"
    using assms(2,3) by (cases sq) (auto simp: merge_st_def)
  then show thesis using that assms(1) by (auto simp: same_outside_def)
next
  case False
  then obtain a k where q: "q = Some a" "sq = Some k" by auto
  obtain us l t where ns: "ns = us @ [(l, t)]" using assms(2) q by (cases ns rule: rev_cases) (auto simp: chain_def)
  have c: "distinct (map fst us @ [l])" "seg (cells h) q us (Some l)" "cells h l = Some \<lparr>sl_susp = t, sl_next = None\<rparr>"
    using assms(2) by (auto simp: ns chain_def seg_append)
  define h1 where "h1 = h\<lparr>cells := (cells h)(l \<mapsto> \<lparr>sl_susp = t, sl_next = sq\<rparr>)\<rparr>"
  have run: "merge_st q sq h = Some (q, None, h1)"
    using last_st_chain[of h a us l t] assms(2) c(3) by (simp add: merge_st_def q ns setNext_def h1_def)
  have "seg (cells h1) q us (Some l)"
    by (rule seg_cong[OF c(2)]) (use c(1) in \<open>auto simp: h1_def\<close>)
  moreover have "seg (cells h1) sq ms None"
    by (rule seg_cong[of "cells h"]) (use assms(3,4) in \<open>auto simp: h1_def chain_def ns\<close>)
  ultimately have ch: "chain h1 q (ns @ ms)"
    using assms(3,4) c(1) by (auto simp: chain_def ns seg_append h1_def)
  have ok: "heap_ok h1"
    using heap_ok_used[OF assms(1) c(3)] heap_ok_set[OF assms(1)] by (simp add: h1_def)
  show thesis by (rule that[OF run ch ok]) (auto simp: same_outside_def h1_def ns)
qed

text \<open>\<^verbatim>\<open>SuspStack::remove\<close> puts the cells back in front of the old head, which it has not reset: the bottom
  cell of the stack then points to the top one.\<close>

lemma remove_st_cycle:
  assumes "cells h 1 = Some \<lparr>sl_susp = 7, sl_next = Some 0\<rparr>" "cells h 0 = Some \<lparr>sl_susp = 8, sl_next = None\<rparr>"
  shows "chain h (Some 1) [(1, 7), (0, 8)]"
    "\<exists>h'. remove_st 9 (Some 1) h = Some (Some 1, h') \<and> cells h' 1 = Some \<lparr>sl_susp = 7, sl_next = Some 0\<rparr> \<and>
      cells h' 0 = Some \<lparr>sl_susp = 8, sl_next = Some 1\<rparr>"
  using assms by (auto simp: chain_def remove_st_def remove_st_split.simps remove_st_back.simps
      getSuspendable_def getNext_sl_def setNext_def)

section \<open>Several containers in one store\<close>

definition family :: "(susp_heap \<Rightarrow> addr option \<Rightarrow> (addr \<times> susp) list \<Rightarrow> bool) \<Rightarrow>
    susp_heap \<Rightarrow> (nat \<Rightarrow> addr option) \<Rightarrow> (nat \<Rightarrow> susp list) \<Rightarrow> bool" where
  "family P h Q L \<longleftrightarrow> heap_ok h \<and> (\<exists>N. (\<forall>i. P h (Q i) (N i) \<and> L i = map snd (N i)) \<and>
     (\<forall>i j. i \<noteq> j \<longrightarrow> fst ` set (N i) \<inter> fst ` set (N j) = {}))"

text \<open>The shapes whose cells are in use and that depend on these cells only.\<close>

locale cell_shape =
  fixes P :: "susp_heap \<Rightarrow> addr option \<Rightarrow> (addr \<times> susp) list \<Rightarrow> bool"
  assumes shape_cong: "P h q ns \<Longrightarrow> (\<And>x. x \<in> fst ` set ns \<Longrightarrow> cells h' x = cells h x) \<Longrightarrow> P h' q ns"
    and shape_used: "P h q ns \<Longrightarrow> x \<in> fst ` set ns \<Longrightarrow> cells h x \<noteq> None"
begin

lemma family_step:
  assumes "family P h Q L"
    and step: "\<And>ns. heap_ok h \<Longrightarrow> P h (Q i) ns \<Longrightarrow> L i = map snd ns \<Longrightarrow>
      \<exists>q' ns' h' A. R q' h' \<and> P h' q' ns' \<and> map snd ns' = l' \<and> heap_ok h' \<and> same_outside A h h' \<and>
        (\<forall>x \<in> A \<union> fst ` set ns'. x \<in> fst ` set ns \<or> cells h x = None)"
  shows "\<exists>q' h'. R q' h' \<and> family P h' (Q(i := q')) (L(i := l'))"
proof -
  obtain N where ok: "heap_ok h" and N: "\<And>j. P h (Q j) (N j)" "\<And>j. L j = map snd (N j)"
    "\<And>j k. j \<noteq> k \<Longrightarrow> fst ` set (N j) \<inter> fst ` set (N k) = {}"
    using assms(1) unfolding family_def by blast
  obtain q' ns' h' A where s: "R q' h'" "P h' q' ns'" "map snd ns' = l'" "heap_ok h'" "same_outside A h h'"
    "\<forall>x \<in> A \<union> fst ` set ns'. x \<in> fst ` set (N i) \<or> cells h x = None"
    using step[OF ok N(1)[of i] N(2)[of i]] by (elim exE conjE) (rule that)
  have out: "x \<notin> fst ` set (N j)" if "x \<in> A \<union> fst ` set ns'" "j \<noteq> i" for x j
    using bspec[OF s(6) that(1)] shape_used[OF N(1)[of j]] N(3)[of j i] that(2) by blast
  have "P h' (Q j) (N j)" if "j \<noteq> i" for j
    by (rule shape_cong[OF N(1)[of j]]) (use out that s(5) in \<open>auto simp: same_outside_def\<close>)
  moreover have "fst ` set (N j) \<inter> fst ` set ns' = {}" "fst ` set ns' \<inter> fst ` set (N j) = {}" if "j \<noteq> i" for j
    using out that by blast+
  ultimately have "family P h' (Q(i := q')) (L(i := l'))"
    unfolding family_def using s(2-4) N(2,3)
    by (intro conjI exI[of _ "N(i := ns')"]) (auto simp del: image_Int_subset)
  then show ?thesis using s(1) by blast
qed

end

interpretation ring_shape: cell_shape ring
proof
  show "ring h q ns \<Longrightarrow> (\<And>x. x \<in> fst ` set ns \<Longrightarrow> cells h' x = cells h x) \<Longrightarrow> ring h' q ns" for h h' q ns
    by (rule ring_cong)
  show "ring h q ns \<Longrightarrow> x \<in> fst ` set ns \<Longrightarrow> cells h x \<noteq> None" for h q ns x
    by (cases q) (auto simp: ring_def dest: seg_used)
qed

interpretation chain_shape: cell_shape chain
proof
  show "chain h q ns \<Longrightarrow> (\<And>x. x \<in> fst ` set ns \<Longrightarrow> cells h' x = cells h x) \<Longrightarrow> chain h' q ns" for h h' q ns
    by (rule chain_cong)
  show "chain h q ns \<Longrightarrow> x \<in> fst ` set ns \<Longrightarrow> cells h x \<noteq> None" for h q ns x
    by (auto simp: chain_def dest: seg_used)
qed

section \<open>The contract of a family of containers\<close>

text \<open>Putting a list of elements in one after the other, and taking a number of elements out.\<close>

fun puts :: "('s \<Rightarrow> 'q \<Rightarrow> 'h \<Rightarrow> ('q \<times> 'h) option) \<Rightarrow> 's list \<Rightarrow> 'q \<Rightarrow> 'h \<Rightarrow> ('q \<times> 'h) option" where
  "puts put [] q h = Some (q, h)"
| "puts put (s # ss) q h = (case put s q h of None \<Rightarrow> None | Some (q', h') \<Rightarrow> puts put ss q' h')"

fun gets :: "('q \<Rightarrow> 'h \<Rightarrow> ('s \<times> 'q \<times> 'h) option) \<Rightarrow> nat \<Rightarrow> 'q \<Rightarrow> 'h \<Rightarrow> ('s list \<times> 'q \<times> 'h) option" where
  "gets get 0 q h = Some ([], q, h)"
| "gets get (Suc n) q h = (case get q h of None \<Rightarrow> None
     | Some (s, q', h') \<Rightarrow> map_option (\<lambda>(ss, r). (s # ss, r)) (gets get n q' h'))"

locale susp_family =
  fixes rep :: "'h \<Rightarrow> (nat \<Rightarrow> 'q) \<Rightarrow> (nat \<Rightarrow> 's list) \<Rightarrow> bool"
    and put :: "'s \<Rightarrow> 'q \<Rightarrow> 'h \<Rightarrow> ('q \<times> 'h) option"
    and get :: "'q \<Rightarrow> 'h \<Rightarrow> ('s \<times> 'q \<times> 'h) option"
    and empty :: "'q \<Rightarrow> bool"
    and size_of :: "'q \<Rightarrow> 'h \<Rightarrow> nat option"
    and is_in :: "'s \<Rightarrow> 'q \<Rightarrow> 'h \<Rightarrow> bool option"
    and add :: "'s \<Rightarrow> 's list \<Rightarrow> 's list"
  assumes put_rep: "rep h Q L \<Longrightarrow> \<exists>q' h'. put s (Q i) h = Some (q', h') \<and> rep h' (Q(i := q')) (L(i := add s (L i)))"
    and get_rep: "rep h Q L \<Longrightarrow> L i = s # ss \<Longrightarrow> \<exists>q' h'. get (Q i) h = Some (s, q', h') \<and> rep h' (Q(i := q')) (L(i := ss))"
    and empty_rep: "rep h Q L \<Longrightarrow> empty (Q i) \<longleftrightarrow> L i = []"
    and size_rep: "rep h Q L \<Longrightarrow> size_of (Q i) h = Some (length (L i))"
    and is_in_rep: "rep h Q L \<Longrightarrow> is_in s (Q i) h = Some (s \<in> set (L i))"
    and mset_add: "mset (add s ss) = add_mset s (mset ss)"
begin

lemma puts_rep:
  "rep h Q L \<Longrightarrow> \<exists>q' h'. puts put ss (Q i) h = Some (q', h') \<and> rep h' (Q(i := q')) (L(i := fold add ss (L i)))"
proof (induction ss arbitrary: h Q L)
  case (Cons s ss)
  obtain q' h' where p: "put s (Q i) h = Some (q', h')" "rep h' (Q(i := q')) (L(i := add s (L i)))"
    using put_rep[OF Cons.prems] by blast
  then show ?case using Cons.IH[OF p(2)] by (simp only: puts.simps option.case prod.case fold.simps comp_apply fun_upd_same fun_upd_upd)
next
  case Nil then show ?case by (intro exI[of _ "Q i"] exI[of _ h]) (simp del: fun_upd_apply)
qed

lemma gets_rep:
  "rep h Q L \<Longrightarrow> L i = ss @ ts \<Longrightarrow>
    \<exists>q' h'. gets get (length ss) (Q i) h = Some (ss, q', h') \<and> rep h' (Q(i := q')) (L(i := ts))"
proof (induction ss arbitrary: h Q L)
  case Nil
  then have "L(i := ts) = L" by (metis append_Nil fun_upd_triv)
  with Nil show ?case by (intro exI[of _ "Q i"] exI[of _ h]) (simp only: gets.simps list.size fun_upd_triv simp_thms)
next
  case (Cons s ss)
  obtain q' h' where g: "get (Q i) h = Some (s, q', h')" "rep h' (Q(i := q')) (L(i := ss @ ts))"
    using get_rep[of h Q L i s "ss @ ts"] Cons.prems by auto
  obtain q1 h1 where "gets get (length ss) q' h' = Some (ss, q1, h1)" "rep h1 (Q(i := q1)) (L(i := ts))"
    using Cons.IH[OF g(2)] by (simp only: fun_upd_same fun_upd_upd) blast
  then show ?case using g(1) by (intro exI[of _ q1] exI[of _ h1]) (simp del: fun_upd_apply)
qed

lemma set_add: "set (add s ss) = insert s (set ss)"
  by (metis mset_add set_mset_add_mset_insert set_mset_mset)

text \<open>What is put in is found there, and in no other container it was not in.\<close>

lemma put_is_in:
  assumes "rep h Q L" "put s (Q i) h = Some (q', h')"
  shows "is_in t ((Q(i := q')) j) h' = Some (t \<in> set (L j) \<or> (i = j \<and> t = s))"
proof -
  have "rep h' (Q(i := q')) (L(i := add s (L i)))" using put_rep[OF assms(1), of s i] assms(2) by auto
  then show ?thesis using is_in_rep[of h' "Q(i := q')" _ t j] by (auto simp: set_add)
qed

end

text \<open>Queues: elements are added behind the others.\<close>

interpretation queues: susp_family "family ring" enqueue dequeue isEmpty_sq getSize_sq isIn_sq "\<lambda>s ss. ss @ [s]"
proof
  fix h Q L s ss i
  assume rep: "family ring h Q L"
  show "\<exists>q' h'. enqueue s (Q i) h = Some (q', h') \<and> family ring h' (Q(i := q')) (L(i := L i @ [s]))"
  proof (rule ring_shape.family_step[OF rep])
    fix ns assume r: "heap_ok h" "ring h (Q i) ns" "L i = map snd ns"
    obtain a h' where "enqueue s (Q i) h = Some (Some a, h')" "ring h' (Some a) (ns @ [(a, s)])" "heap_ok h'"
      "cells h a = None" "same_outside (insert a (fst ` set ns)) h h'"
      by (rule enqueue_ring[OF r(1,2)])
    then show "\<exists>q' ns' h' A. enqueue s (Q i) h = Some (q', h') \<and> ring h' q' ns' \<and> map snd ns' = L i @ [s] \<and> heap_ok h' \<and>
        same_outside A h h' \<and> (\<forall>x \<in> A \<union> fst ` set ns'. x \<in> fst ` set ns \<or> cells h x = None)"
      using r(3) by (intro exI[of _ "Some a"] exI[of _ "ns @ [(a, s)]"] exI[of _ h'] exI[of _ "insert a (fst ` set ns)"]) auto
  qed
  show "\<exists>q' h'. dequeue (Q i) h = Some (s, q', h') \<and> family ring h' (Q(i := q')) (L(i := ss))" if hd: "L i = s # ss"
  proof (rule ring_shape.family_step[OF rep])
    fix ns assume r: "heap_ok h" "ring h (Q i) ns" "L i = map snd ns"
    then obtain a ms where ms: "ns = (a, s) # ms" "map snd ms = ss" using hd by (cases ns) auto
    obtain q' h' where "dequeue (Q i) h = Some (s, q', h')" "ring h' q' ms" "heap_ok h'"
      "same_outside (insert a (fst ` set ms)) h h'"
      by (rule dequeue_ring[OF r(1) r(2)[unfolded ms(1)]])
    then show "\<exists>q' ns' h' A. dequeue (Q i) h = Some (s, q', h') \<and> ring h' q' ns' \<and> map snd ns' = ss \<and> heap_ok h' \<and>
        same_outside A h h' \<and> (\<forall>x \<in> A \<union> fst ` set ns'. x \<in> fst ` set ns \<or> cells h x = None)"
      using ms by (intro exI[of _ q'] exI[of _ ms] exI[of _ h'] exI[of _ "insert a (fst ` set ms)"]) auto
  qed
  obtain ns where ns: "ring h (Q i) ns" "L i = map snd ns" using rep unfolding family_def by blast
  show "isEmpty_sq (Q i) \<longleftrightarrow> L i = []" using ns by (auto simp: isEmpty_sq_def ring_def split: option.splits)
  show "getSize_sq (Q i) h = Some (length (L i))" using getSize_ring[OF ns(1)] ns(2) by simp
  show "isIn_sq s (Q i) h = Some (s \<in> set (L i))" using isIn_ring[OF ns(1)] ns(2) by simp
qed simp

text \<open>Stacks: elements are added in front of the others.\<close>

interpretation stacks: susp_family "family chain" enqueue_st dequeue_st isEmpty_st getSize_st isIn_st Cons
proof
  fix h Q L s ss i
  assume rep: "family chain h Q L"
  show "\<exists>q' h'. enqueue_st s (Q i) h = Some (q', h') \<and> family chain h' (Q(i := q')) (L(i := s # L i))"
  proof (rule chain_shape.family_step[OF rep])
    fix ns assume r: "heap_ok h" "chain h (Q i) ns" "L i = map snd ns"
    obtain a h' where "enqueue_st s (Q i) h = Some (Some a, h')" "chain h' (Some a) ((a, s) # ns)" "heap_ok h'"
      "cells h a = None" "same_outside {a} h h'"
      by (rule enqueue_chain[OF r(1,2)])
    then show "\<exists>q' ns' h' A. enqueue_st s (Q i) h = Some (q', h') \<and> chain h' q' ns' \<and> map snd ns' = s # L i \<and> heap_ok h' \<and>
        same_outside A h h' \<and> (\<forall>x \<in> A \<union> fst ` set ns'. x \<in> fst ` set ns \<or> cells h x = None)"
      using r(3) by (intro exI[of _ "Some a"] exI[of _ "(a, s) # ns"] exI[of _ h'] exI[of _ "{a}"]) auto
  qed
  show "\<exists>q' h'. dequeue_st (Q i) h = Some (s, q', h') \<and> family chain h' (Q(i := q')) (L(i := ss))" if hd: "L i = s # ss"
  proof (rule chain_shape.family_step[OF rep])
    fix ns assume r: "heap_ok h" "chain h (Q i) ns" "L i = map snd ns"
    then obtain a ms where ms: "ns = (a, s) # ms" "map snd ms = ss" using hd by (cases ns) auto
    then obtain q' where "dequeue_st (Q i) h = Some (s, q', h)" "chain h q' ms" using dequeue_chain r(2) by blast
    then show "\<exists>q' ns' h' A. dequeue_st (Q i) h = Some (s, q', h') \<and> chain h' q' ns' \<and> map snd ns' = ss \<and> heap_ok h' \<and>
        same_outside A h h' \<and> (\<forall>x \<in> A \<union> fst ` set ns'. x \<in> fst ` set ns \<or> cells h x = None)"
      using r(1) ms by (intro exI[of _ q'] exI[of _ ms] exI[of _ h] exI[of _ "{}"]) (auto simp: same_outside_def)
  qed
  obtain ns where ns: "chain h (Q i) ns" "L i = map snd ns" using rep unfolding family_def by blast
  show "isEmpty_st (Q i) \<longleftrightarrow> L i = []" using isEmpty_chain[OF ns(1)] ns(2) by simp
  show "getSize_st (Q i) h = Some (length (L i))" using getSize_chain[OF ns(1)] ns(2) by simp
  show "isIn_st s (Q i) h = Some (s \<in> set (L i))" using isIn_chain[OF ns(1)] ns(2) by simp
qed simp

section \<open>Properties of queues\<close>

lemma fold_snoc: "fold (\<lambda>s ss. ss @ [s]) xs ys = ys @ xs"
  by (induction xs arbitrary: ys) auto

lemma family_cong_fun: "family P h Q L \<Longrightarrow> L' = L \<Longrightarrow> family P h Q L'"
  by simp

text \<open>The store before the first allocation, and three queues in it of which one holds three elements.\<close>

definition empty_heap :: susp_heap where
  "empty_heap = \<lparr>cells = (\<lambda>_. None), free_cells = [], heap_top = 0\<rparr>"

lemma family_init:
  "family ring empty_heap (\<lambda>_. init_sq) (\<lambda>_. [])" "family chain empty_heap (\<lambda>_. init_st) (\<lambda>_. [])"
  by (auto simp: family_def heap_ok_def ring_def chain_def empty_heap_def init_sq_def init_st_def intro!: exI[of _ "\<lambda>_. []"])

definition queue3_heap :: susp_heap where
  "queue3_heap = \<lparr>cells = (\<lambda>_. None)(0 \<mapsto> \<lparr>sl_susp = 7, sl_next = Some 1\<rparr>, 1 \<mapsto> \<lparr>sl_susp = 8, sl_next = Some 2\<rparr>,
     2 \<mapsto> \<lparr>sl_susp = 9, sl_next = Some 0\<rparr>), free_cells = [], heap_top = 3\<rparr>"

lemma family_queue3: "family ring queue3_heap ((\<lambda>_. init_sq)(1 := Some 2)) ((\<lambda>_. [])(1 := [7, 8, 9]))"
  by (auto simp: family_def heap_ok_def ring_def queue3_heap_def init_sq_def
      intro!: exI[of _ "(\<lambda>_. [])(Suc 0 := [(0, 7), (1, 8), (2, 9)])"])

text \<open>C36: a queue of suspendables is first in, first out, whatever other queues share the store:
  enqueueing always succeeds, the size and the membership test count exactly what is in, as many
  dequeues as there are elements return the elements in the order they were enqueued and leave the
  queue empty, and the other queues keep their contents.\<close>

theorem susp_queue_fifo:
  assumes "family ring h Q L"
  shows "\<exists>q1 h1 q2 h2. puts enqueue ss (Q i) h = Some (q1, h1) \<and> family ring h1 (Q(i := q1)) (L(i := L i @ ss)) \<and>
    getSize_sq q1 h1 = Some (length (L i) + length ss) \<and> isIn_sq s q1 h1 = Some (s \<in> set (L i) \<union> set ss) \<and>
    gets dequeue (length (L i) + length ss) q1 h1 = Some (L i @ ss, q2, h2) \<and> isEmpty_sq q2 \<and>
    family ring h2 (Q(i := q2)) (L(i := []))"
proof -
  obtain q1 h1 where p: "puts enqueue ss (Q i) h = Some (q1, h1)" "family ring h1 (Q(i := q1)) (L(i := L i @ ss))"
    using queues.puts_rep[OF assms, of ss i] unfolding fold_snoc by blast
  obtain q2 h2 where g: "gets dequeue (length (L i @ ss)) q1 h1 = Some (L i @ ss, q2, h2)" "family ring h2 (Q(i := q2)) (L(i := []))"
    using queues.gets_rep[OF p(2), of i "L i @ ss" "[]"] by (auto simp del: fun_upd_apply simp: fun_upd_same)
  show ?thesis
    using p g queues.size_rep[OF p(2), of i] queues.is_in_rep[OF p(2), of s i] queues.empty_rep[OF g(2), of i]
    by (intro exI[of _ q1] exI[of _ h1] exI[of _ q2] exI[of _ h2]) (simp del: fun_upd_apply add: fun_upd_same)
qed

theorem susp_queue_fifo_witness:
  "\<exists>q1 h1 q2 h2. puts enqueue [4, 5] (Some 2) queue3_heap = Some (q1, h1) \<and>
    gets dequeue 5 q1 h1 = Some ([7, 8, 9, 4, 5], q2, h2) \<and> isEmpty_sq q2"
proof -
  have "length [7 :: nat, 8, 9] + length [4 :: nat, 5] = 5" by simp
  then show ?thesis
    using susp_queue_fifo[OF family_queue3, of "[4, 5]" 1] by (simp only: fun_upd_same append.simps) blast
qed

text \<open>The removals that work: of something that is not there, of the only element, or of an element
  with an occurrence before the last one.\<close>

definition removable :: "susp \<Rightarrow> susp list \<Rightarrow> bool" where
  "removable s ss \<longleftrightarrow> s \<in> set (butlast ss) \<or> s \<notin> set ss \<or> ss = [s]"

lemma remove_family_split:
  assumes "family ring h Q L" "L i = us @ vs" "s \<notin> set us" "vs = [] \<or> hd vs = s" "length vs = 1 \<Longrightarrow> us = []"
  shows "\<exists>q' h'. remove_sq s (Q i) h = Some (q', h') \<and> family ring h' (Q(i := q')) (L(i := us @ tl vs))"
proof (rule ring_shape.family_step[OF assms(1)])
  fix ns assume r: "heap_ok h" "ring h (Q i) ns" "L i = map snd ns"
  then obtain ns1 ns2 where n: "ns = ns1 @ ns2" "us = map snd ns1" "vs = map snd ns2"
    using assms(2) map_eq_append_conv by metis
  have "\<exists>q' ns' h'. remove_sq s (Q i) h = Some (q', h') \<and> ring h' q' ns' \<and> map snd ns' = us @ tl vs \<and> heap_ok h' \<and>
      same_outside (fst ` set ns) h h' \<and> fst ` set ns' \<subseteq> fst ` set ns"
  proof (cases ns2 rule: rev_cases)
    case Nil
    then have "s \<notin> snd ` set ns" using assms(3) n by simp
    then show ?thesis using remove_absent[OF r(2)] r n Nil by (intro exI[of _ "Q i"] exI[of _ ns] exI[of _ h]) (auto simp: same_outside_def)
  next
    case (snoc ms w)
    obtain l t where w: "w = (l, t)" by (cases w)
    have q: "Q i = Some l" using r(2) n(1) snoc w by (cases "Q i") (auto simp: ring_def)
    show ?thesis
    proof (cases ms)
      case Nil
      then have ns: "ns = [(l, s)]" using assms(4,5) n snoc w by simp
      have "remove_sq s (Q i) h = Some (None, h)" by (rule remove_only) (use r(2) ns in simp)
      then show ?thesis using r(1) n Nil snoc ns by (intro exI[of _ None] exI[of _ "[]"] exI[of _ h]) (auto simp: ring_def same_outside_def)
    next
      case (Cons x xs)
      then obtain a where ns: "ns2 = (a, s) # xs @ [(l, t)]" using assms(4) n snoc w by (cases x) auto
      obtain h' where "remove_sq s (Some l) h = Some (Some l, h')" "ring h' (Some l) (ns1 @ xs @ [(l, t)])" "heap_ok h'"
        "same_outside (fst ` set (ns1 @ (a, s) # xs @ [(l, t)])) h h'"
        by (rule remove_inner[of h l ns1 a s xs t]) (use r assms(3) n ns q in auto)
      then show ?thesis using n ns q
        by (intro exI[of _ "Some l"] exI[of _ "ns1 @ xs @ [(l, t)]"] exI[of _ h']) auto
    qed
  qed
  then show "\<exists>q' ns' h' A. remove_sq s (Q i) h = Some (q', h') \<and> ring h' q' ns' \<and> map snd ns' = us @ tl vs \<and> heap_ok h' \<and>
      same_outside A h h' \<and> (\<forall>x \<in> A \<union> fst ` set ns'. x \<in> fst ` set ns \<or> cells h x = None)"
    by (elim exE conjE) (intro exI conjI, assumption+, blast)
qed

lemma remove_family:
  assumes "family ring h Q L" "removable s (L i)"
  shows "\<exists>q' h'. remove_sq s (Q i) h = Some (q', h') \<and> family ring h' (Q(i := q')) (L(i := remove1 s (L i)))"
proof (cases "s \<in> set (L i)")
  case False
  then show ?thesis using remove_family_split[OF assms(1), of i "L i" "[]" s] by (simp add: remove1_idem del: fun_upd_apply)
next
  case True
  then obtain us vs where l: "L i = us @ s # vs" "s \<notin> set us" using split_list_first by metis
  then have "length (s # vs) = 1 \<Longrightarrow> us = []" using assms(2) by (auto simp: removable_def)
  then show ?thesis using remove_family_split[OF assms(1) l(1,2)] l by (simp add: remove1_append del: fun_upd_apply)
qed

text \<open>Removing a suspendable from a queue takes its first occurrence out, keeps the order of the
  rest and leaves the other queues alone, provided that this occurrence is not behind others at the
  end of the queue; the removal of something that is not there changes nothing.\<close>

lemma susp_queue_remove:
  assumes "family ring h Q L" "removable s (L i)"
  shows "\<exists>q' h'. remove_sq s (Q i) h = Some (q', h') \<and> family ring h' (Q(i := q')) (L(i := remove1 s (L i)))"
  by (rule remove_family[OF assms])

lemma susp_queue_remove_witness:
  "\<exists>q' h'. remove_sq 8 (Some 2) queue3_heap = Some (q', h') \<and>
    family ring h' ((\<lambda>_. init_sq)(1 := q')) ((\<lambda>_. [])(1 := [7, 9]))"
  using susp_queue_remove[OF family_queue3, of 8 1] by (simp add: removable_def fun_upd_upd del: fun_upd_apply add: fun_upd_same)

text \<open>C37: a suspendable that stands behind others at the end of a queue is disposed of while the
  queue keeps pointing to its cell: from then on the size, the next element and the next enqueue
  are read through freed memory, and the allocator hands that cell out again first.\<close>

theorem susp_queue_remove_last_dangles:
  assumes "family ring h Q L" "L i = us @ [s]" "us \<noteq> []" "s \<notin> set us"
  shows "\<exists>h'. remove_sq s (Q i) h = Some (Q i, h') \<and> \<not> isEmpty_sq (Q i) \<and> getSize_sq (Q i) h' = None \<and>
    dequeue (Q i) h' = None \<and> enqueue t (Q i) h' = None \<and> Q i = Some (fst (alloc h'))"
proof -
  obtain ns where r: "ring h (Q i) ns" "map snd ns = us @ [s]" using assms(1,2) unfolding family_def by metis
  obtain ms l where ns: "ns = ms @ [(l, s)]" "map snd ms = us"
    using r(2) by (cases ns rule: rev_cases) (auto)
  have q: "Q i = Some l" using r(1) ns(1) by (cases "Q i") (auto simp: ring_def)
  have s: "s \<notin> snd ` set ms" "ms \<noteq> []" using assms(3,4) ns(2) by (metis set_map, force)
  obtain h' where h: "remove_sq s (Some l) h = Some (Some l, h')" "cells h' l = None" "hd (free_cells h') = l" "free_cells h' \<noteq> []"
    by (rule remove_last[of h l ms s]) (use r(1) ns(1) q s in simp_all)
  have "getSize_sq (Q i) h' = None" using h(2) q by (simp add: getSize_sq_def getNext_sl_def) (simp add: getSize_loop.simps getNext_sl_def)
  moreover have "fst (alloc h') = l" using h(3,4) by (cases "free_cells h'") (auto simp: alloc_def)
  ultimately show ?thesis using h q
    by (auto simp: isEmpty_sq_def dequeue_def enqueue_def getNext_sl_def)
qed

theorem susp_queue_remove_last_dangles_witness:
  "\<exists>h'. remove_sq 9 (Some 2) queue3_heap = Some (Some 2, h') \<and> getSize_sq (Some 2) h' = None \<and> dequeue (Some 2) h' = None"
  using susp_queue_remove_last_dangles[OF family_queue3, of 1 "[7, 8]" 9] by auto

end
