(* ===== verification/ThreadsPool.thy ===== *)
theory ThreadsPool
  imports SuspFamily Builtin
begin

text \<open>
  The pool of runnable threads (\<^verbatim>\<open>platform/emulator/thr_pool.hh\<close>, \<^verbatim>\<open>thr_pool.cc\<close>): a queue per priority and
  two counters that bound how often a higher priority is preferred. The queues are those of
  \<open>SuspQueue\<close> and share the store; the contract \<open>queues\<close> carries the proofs. The priorities of
  threads are a function \<open>prio\<close> (\<^verbatim>\<open>getPriority\<close>), the ratios of \<^verbatim>\<open>ozconf\<close> arguments; \<^verbatim>\<open>vprops.cc\<close> only
  accepts ratios from 1 to 100.
\<close>

definition LOW_PRIORITY :: nat where "LOW_PRIORITY = 1"
definition MID_PRIORITY :: nat where "MID_PRIORITY = 2"
definition HI_PRIORITY :: nat where "HI_PRIORITY = 3"

lemmas priorities = LOW_PRIORITY_def MID_PRIORITY_def HI_PRIORITY_def

record threads_pool =
  tp_q :: "nat \<Rightarrow> susp_queue"
  tp_hi :: int
  tp_mid :: int

definition init_tp :: "threads_pool \<Rightarrow> threads_pool" where
  "init_tp p = p\<lparr>tp_hi := 0, tp_mid := 0,
     tp_q := (tp_q p)(HI_PRIORITY := init_sq, MID_PRIORITY := init_sq, LOW_PRIORITY := init_sq)\<rparr>"

definition scheduleThread :: "(susp \<Rightarrow> nat) \<Rightarrow> susp \<Rightarrow> threads_pool \<Rightarrow> susp_heap \<Rightarrow> (threads_pool \<times> susp_heap) option" where
  "scheduleThread prio th p h = (case enqueue th (tp_q p (prio th)) h of None \<Rightarrow> None
     | Some (q', h') \<Rightarrow> Some (p\<lparr>tp_q := (tp_q p)(prio th := q')\<rparr>, h'))"

definition isEmpty_tp :: "threads_pool \<Rightarrow> bool" where
  "isEmpty_tp p \<longleftrightarrow> isEmpty_sq (tp_q p MID_PRIORITY) \<and> isEmpty_sq (tp_q p HI_PRIORITY) \<and> isEmpty_sq (tp_q p LOW_PRIORITY)"

definition getRunnableNumber :: "threads_pool \<Rightarrow> susp_heap \<Rightarrow> nat option" where
  "getRunnableNumber p h = (case getSize_sq (tp_q p HI_PRIORITY) h of None \<Rightarrow> None
     | Some a \<Rightarrow> (case getSize_sq (tp_q p MID_PRIORITY) h of None \<Rightarrow> None
       | Some b \<Rightarrow> (case getSize_sq (tp_q p LOW_PRIORITY) h of None \<Rightarrow> None
         | Some c \<Rightarrow> Some (a + b + c + 1))))"

definition isScheduledSlow :: "susp \<Rightarrow> threads_pool \<Rightarrow> susp_heap \<Rightarrow> bool option" where
  "isScheduledSlow th p h = (case isIn_sq th (tp_q p MID_PRIORITY) h of None \<Rightarrow> None
     | Some a \<Rightarrow> if a then Some True else (case isIn_sq th (tp_q p HI_PRIORITY) h of None \<Rightarrow> None
       | Some b \<Rightarrow> if b then Some True else isIn_sq th (tp_q p LOW_PRIORITY) h))"

definition remove_tp :: "nat \<Rightarrow> susp \<Rightarrow> threads_pool \<times> susp_heap \<Rightarrow> (threads_pool \<times> susp_heap) option" where
  "remove_tp i th ph = (case ph of (p, h) \<Rightarrow> (case remove_sq th (tp_q p i) h of None \<Rightarrow> None
     | Some (q', h') \<Rightarrow> Some (p\<lparr>tp_q := (tp_q p)(i := q')\<rparr>, h')))"

definition deleteThread :: "susp \<Rightarrow> threads_pool \<Rightarrow> susp_heap \<Rightarrow> (threads_pool \<times> susp_heap) option" where
  "deleteThread th p h = (case remove_tp HI_PRIORITY th (p, h) of None \<Rightarrow> None
     | Some ph1 \<Rightarrow> (case remove_tp MID_PRIORITY th ph1 of None \<Rightarrow> None
       | Some ph2 \<Rightarrow> remove_tp LOW_PRIORITY th ph2))"

definition rescheduleThread :: "(susp \<Rightarrow> nat) \<Rightarrow> susp \<Rightarrow> threads_pool \<Rightarrow> susp_heap \<Rightarrow> (threads_pool \<times> susp_heap) option" where
  "rescheduleThread prio th p h = (case deleteThread th p h of None \<Rightarrow> None
     | Some (p', h') \<Rightarrow> scheduleThread prio th p' h')"

text \<open>\<^verbatim>\<open>getNext\<close>: \<open>Some None\<close> stands for the null pointer.\<close>

definition take_from :: "nat \<Rightarrow> threads_pool \<Rightarrow> susp_heap \<Rightarrow> (susp option \<times> threads_pool \<times> susp_heap) option" where
  "take_from i p h = (case dequeue (tp_q p i) h of None \<Rightarrow> None
     | Some (s, q', h') \<Rightarrow> Some (Some s, p\<lparr>tp_q := (tp_q p)(i := q')\<rparr>, h'))"

partial_function (option) getNext_tp ::
  "int \<Rightarrow> int \<Rightarrow> threads_pool \<Rightarrow> susp_heap \<Rightarrow> (susp option \<times> threads_pool \<times> susp_heap) option" where
  [code]: "getNext_tp hiMid midLow p h =
    (if \<not> isEmpty_sq (tp_q p HI_PRIORITY) \<and> 0 < tp_hi p then take_from HI_PRIORITY (p\<lparr>tp_hi := tp_hi p - 1\<rparr>) h
     else let p1 = p\<lparr>tp_hi := hiMid\<rparr> in
     if \<not> isEmpty_sq (tp_q p1 MID_PRIORITY) \<and> 0 < tp_mid p1 then take_from MID_PRIORITY (p1\<lparr>tp_mid := tp_mid p1 - 1\<rparr>) h
     else let p2 = p1\<lparr>tp_mid := midLow\<rparr> in
     if \<not> isEmpty_sq (tp_q p2 LOW_PRIORITY) then take_from LOW_PRIORITY p2 h
     else if \<not> isEmpty_sq (tp_q p2 MID_PRIORITY) \<or> \<not> isEmpty_sq (tp_q p2 HI_PRIORITY) then getNext_tp hiMid midLow p2 h
     else Some (None, p2, h))"

text \<open>\<^verbatim>\<open>BIthreadSetPriority\<close> (\<^verbatim>\<open>builtins.cc\<close>): the priorities, the pool and the store afterwards, and whether the
  current thread is preempted. \<open>dead\<close> and \<open>runnable\<close> are the states of threads, \<open>cur\<close> is the current one.\<close>

datatype oz_atom_arg = VarArg | AtomArg string | NoAtomArg

definition atom_priority :: "oz_atom_arg \<Rightarrow> nat option" where
  "atom_priority a = (case a of
       AtomArg s \<Rightarrow> if s = ''low'' then Some LOW_PRIORITY
                    else if s = ''medium'' then Some MID_PRIORITY
                    else if s = ''high'' then Some HI_PRIORITY else None
     | _ \<Rightarrow> None)"

definition BIthreadSetPriority :: "(susp \<Rightarrow> bool) \<Rightarrow> (susp \<Rightarrow> bool) \<Rightarrow> susp \<Rightarrow> (susp \<Rightarrow> nat) \<Rightarrow> threads_pool \<Rightarrow> susp_heap \<Rightarrow>
    susp oz_arg \<Rightarrow> oz_atom_arg \<Rightarrow> (bool \<times> (susp \<Rightarrow> nat) \<times> threads_pool \<times> susp_heap) oz_return" where
  "BIthreadSetPriority dead runnable cur prio p h thr atom_prio =
     declareObjIN 0 ''Thread'' thr (\<lambda>th.
       if dead th then Raise E_ERROR ''deadThread''
       else if atom_prio = VarArg then Suspend
       else (case atom_priority atom_prio of
           None \<Rightarrow> TypeErr 1 ''Atom [low medium high]''
         | Some new \<Rightarrow>
             let oldPrio = prio th; prio' = prio(th := new) in
             if cur = th then Proceed (new \<le> oldPrio, prio', p, h)
             else (case (if runnable th then rescheduleThread prio' th p h else Some (p, h)) of
                 None \<Rightarrow> CxxUndefined
               | Some (p', h') \<Rightarrow> Proceed (prio' cur < new, prio', p', h'))))"

section \<open>The pool over the sequences of its queues\<close>

definition pool :: "threads_pool \<Rightarrow> susp_heap \<Rightarrow> (nat \<Rightarrow> susp list) \<Rightarrow> bool" where
  "pool p h L \<longleftrightarrow> family ring h (tp_q p) L"

lemma pool_simps [simp]:
  "pool (p\<lparr>tp_hi := x\<rparr>) h L = pool p h L" "pool (p\<lparr>tp_mid := x\<rparr>) h L = pool p h L"
  by (simp_all add: pool_def)

lemma pool_isEmpty: "pool p h L \<Longrightarrow> isEmpty_sq (tp_q p i) \<longleftrightarrow> L i = []"
  unfolding pool_def by (rule queues.empty_rep)

lemma scheduleThread_pool:
  "pool p h L \<Longrightarrow> \<exists>q' h'. scheduleThread prio th p h = Some (p\<lparr>tp_q := (tp_q p)(prio th := q')\<rparr>, h') \<and>
    pool (p\<lparr>tp_q := (tp_q p)(prio th := q')\<rparr>) h' (L(prio th := L (prio th) @ [th]))"
  using queues.put_rep[of h "tp_q p" L th "prio th"] by (auto simp: pool_def scheduleThread_def simp del: fun_upd_apply)

lemma take_from_pool:
  "pool p h L \<Longrightarrow> L i = s # ss \<Longrightarrow> \<exists>q' h'. take_from i p h = Some (Some s, p\<lparr>tp_q := (tp_q p)(i := q')\<rparr>, h') \<and>
    pool (p\<lparr>tp_q := (tp_q p)(i := q')\<rparr>) h' (L(i := ss))"
  using queues.get_rep[of h "tp_q p" L i s ss] by (auto simp: pool_def take_from_def simp del: fun_upd_apply)

text \<open>The policy: which queue comes next and what the counters become.\<close>

fun policy :: "int \<Rightarrow> int \<Rightarrow> int \<Rightarrow> int \<Rightarrow> (nat \<Rightarrow> 'a list) \<Rightarrow> (nat \<times> int \<times> int) option" where
  "policy hiMid midLow hi mid L =
    (if L HI_PRIORITY \<noteq> [] \<and> 0 < hi then Some (HI_PRIORITY, hi - 1, mid)
     else if L MID_PRIORITY \<noteq> [] \<and> 0 < mid then Some (MID_PRIORITY, hiMid, mid - 1)
     else if L LOW_PRIORITY \<noteq> [] then Some (LOW_PRIORITY, hiMid, midLow)
     else if L HI_PRIORITY \<noteq> [] then Some (HI_PRIORITY, hiMid - 1, midLow)
     else if L MID_PRIORITY \<noteq> [] then Some (MID_PRIORITY, hiMid, midLow - 1)
     else None)"

lemma policy_None: "policy hiMid midLow hi mid L = None \<longleftrightarrow> L HI_PRIORITY = [] \<and> L MID_PRIORITY = [] \<and> L LOW_PRIORITY = []"
  by auto

lemma policy_nonempty: "policy hiMid midLow hi mid L = Some (i, r) \<Longrightarrow> L i \<noteq> []"
  by (auto split: if_splits)

text \<open>One pass through the loop when the counters are positive.\<close>

lemma getNext_first_pass:
  assumes "pool p h L" "0 < hiMid" "0 < midLow" "policy hiMid midLow (tp_hi p) (tp_mid p) L = Some (i, hi', mid')"
  shows "getNext_tp hiMid midLow p h = take_from i (p\<lparr>tp_hi := hi', tp_mid := mid'\<rparr>) h"
proof -
  note e = pool_isEmpty[OF assms(1)]
  have p: "p\<lparr>tp_hi := x, tp_mid := tp_mid p\<rparr> = p\<lparr>tp_hi := x\<rparr>"
    "p\<lparr>tp_mid := y, tp_hi := x\<rparr> = p\<lparr>tp_hi := x, tp_mid := y\<rparr>" for x y by simp_all
  have "getNext_tp hiMid midLow (p\<lparr>tp_hi := hiMid, tp_mid := midLow\<rparr>) h = take_from i (p\<lparr>tp_hi := hi', tp_mid := mid'\<rparr>) h"
    if "L LOW_PRIORITY = []" "\<not> (L HI_PRIORITY \<noteq> [] \<and> 0 < tp_hi p)" "\<not> (L MID_PRIORITY \<noteq> [] \<and> 0 < tp_mid p)"
    using assms(2-4) that by (subst getNext_tp.simps) (auto simp: e Let_def p split: if_splits)
  then show ?thesis
    using assms(4) by (subst getNext_tp.simps) (auto simp: e Let_def p split: if_splits)
qed

lemma getNext_pool:
  assumes "pool p h L" "0 < hiMid" "0 < midLow"
  shows "case policy hiMid midLow (tp_hi p) (tp_mid p) L of
      None \<Rightarrow> getNext_tp hiMid midLow p h = Some (None, p\<lparr>tp_hi := hiMid, tp_mid := midLow\<rparr>, h)
    | Some (i, hi', mid') \<Rightarrow> \<exists>p' h'. getNext_tp hiMid midLow p h = Some (Some (hd (L i)), p', h') \<and>
        tp_hi p' = hi' \<and> tp_mid p' = mid' \<and> pool p' h' (L(i := tl (L i)))"
proof (cases "policy hiMid midLow (tp_hi p) (tp_mid p) L")
  case None
  then have "L HI_PRIORITY = []" "L MID_PRIORITY = []" "L LOW_PRIORITY = []" unfolding policy_None by auto
  then have "getNext_tp hiMid midLow p h = Some (None, p\<lparr>tp_hi := hiMid, tp_mid := midLow\<rparr>, h)"
    by (subst getNext_tp.simps) (simp add: pool_isEmpty[OF assms(1)] Let_def)
  then show ?thesis by (simp only: None option.case)
next
  case (Some r)
  obtain i hi' mid' where r: "r = (i, hi', mid')" by (cases r)
  have "L i = hd (L i) # tl (L i)" using policy_nonempty[OF Some[unfolded r]] by simp
  then obtain q' h' where "take_from i (p\<lparr>tp_hi := hi', tp_mid := mid'\<rparr>) h =
      Some (Some (hd (L i)), p\<lparr>tp_hi := hi', tp_mid := mid', tp_q := (tp_q p)(i := q')\<rparr>, h')"
    "pool (p\<lparr>tp_hi := hi', tp_mid := mid', tp_q := (tp_q p)(i := q')\<rparr>) h' (L(i := tl (L i)))"
    using take_from_pool[of "p\<lparr>tp_hi := hi', tp_mid := mid'\<rparr>" h L i "hd (L i)" "tl (L i)"] assms(1)
    by (auto simp del: fun_upd_apply)
  then show ?thesis
    unfolding Some r option.case prod.case getNext_first_pass[OF assms Some[unfolded r]]
    by (intro exI[of _ "p\<lparr>tp_hi := hi', tp_mid := mid', tp_q := (tp_q p)(i := q')\<rparr>"] exI[of _ h']) (simp del: fun_upd_apply)
qed

section \<open>Removing and rescheduling\<close>

lemma remove_tp_pool:
  assumes "pool p h L" "removable th (L i)"
  shows "\<exists>q' h'. remove_tp i th (p, h) = Some (p\<lparr>tp_q := (tp_q p)(i := q')\<rparr>, h') \<and>
    pool (p\<lparr>tp_q := (tp_q p)(i := q')\<rparr>) h' (L(i := remove1 th (L i)))"
  using remove_family[of h "tp_q p" L th i] assms by (auto simp: pool_def remove_tp_def simp del: fun_upd_apply)

lemma deleteThread_pool:
  assumes "pool p h L" "\<And>i. removable th (L i)"
  shows "\<exists>q' h'. deleteThread th p h = Some (p\<lparr>tp_q := q'\<rparr>, h') \<and>
    pool (p\<lparr>tp_q := q'\<rparr>) h' (\<lambda>i. if i \<in> {HI_PRIORITY, MID_PRIORITY, LOW_PRIORITY} then remove1 th (L i) else L i)"
proof -
  have ne: "LOW_PRIORITY \<noteq> MID_PRIORITY" "LOW_PRIORITY \<noteq> HI_PRIORITY" "MID_PRIORITY \<noteq> HI_PRIORITY"
    by (simp_all add: priorities)
  obtain q1 h1 where 1: "remove_tp HI_PRIORITY th (p, h) = Some (p\<lparr>tp_q := q1\<rparr>, h1)"
    "pool (p\<lparr>tp_q := q1\<rparr>) h1 (L(HI_PRIORITY := remove1 th (L HI_PRIORITY)))"
    using remove_tp_pool[OF assms(1), of th HI_PRIORITY] assms(2) by blast
  obtain q2 h2 where 2: "remove_tp MID_PRIORITY th (p\<lparr>tp_q := q1\<rparr>, h1) = Some (p\<lparr>tp_q := q2\<rparr>, h2)"
    "pool (p\<lparr>tp_q := q2\<rparr>) h2 (L(HI_PRIORITY := remove1 th (L HI_PRIORITY), MID_PRIORITY := remove1 th (L MID_PRIORITY)))"
    using remove_tp_pool[OF 1(2), of th MID_PRIORITY] assms(2) ne by auto
  obtain q3 h3 where 3: "remove_tp LOW_PRIORITY th (p\<lparr>tp_q := q2\<rparr>, h2) = Some (p\<lparr>tp_q := q3\<rparr>, h3)"
    "pool (p\<lparr>tp_q := q3\<rparr>) h3 (L(HI_PRIORITY := remove1 th (L HI_PRIORITY), MID_PRIORITY := remove1 th (L MID_PRIORITY),
       LOW_PRIORITY := remove1 th (L LOW_PRIORITY)))"
    using remove_tp_pool[OF 2(2), of th LOW_PRIORITY] assms(2) ne by auto
  have "L(HI_PRIORITY := remove1 th (L HI_PRIORITY), MID_PRIORITY := remove1 th (L MID_PRIORITY),
       LOW_PRIORITY := remove1 th (L LOW_PRIORITY)) =
     (\<lambda>i. if i \<in> {HI_PRIORITY, MID_PRIORITY, LOW_PRIORITY} then remove1 th (L i) else L i)"
    by (auto simp: fun_eq_iff)
  then show ?thesis using 1(1) 2(1) 3 by (auto simp: deleteThread_def)
qed

text \<open>The sequences after a thread has been moved to the end of the queue of its priority.\<close>

definition requeued :: "susp \<Rightarrow> nat \<Rightarrow> (nat \<Rightarrow> susp list) \<Rightarrow> nat \<Rightarrow> susp list" where
  "requeued th i L = (\<lambda>j. let l = (if j \<in> {HI_PRIORITY, MID_PRIORITY, LOW_PRIORITY} then remove1 th (L j) else L j)
     in if j = i then l @ [th] else l)"

lemma rescheduleThread_pool:
  assumes "pool p h L" "\<And>i. removable th (L i)"
  shows "\<exists>p' h'. rescheduleThread prio th p h = Some (p', h') \<and> pool p' h' (requeued th (prio th) L)"
proof -
  obtain q1 h1 where d: "deleteThread th p h = Some (p\<lparr>tp_q := q1\<rparr>, h1)"
    "pool (p\<lparr>tp_q := q1\<rparr>) h1 (\<lambda>i. if i \<in> {HI_PRIORITY, MID_PRIORITY, LOW_PRIORITY} then remove1 th (L i) else L i)"
    using deleteThread_pool[OF assms] by blast
  have "(\<lambda>i. if i \<in> {HI_PRIORITY, MID_PRIORITY, LOW_PRIORITY} then remove1 th (L i) else L i)(prio th :=
     (\<lambda>i. if i \<in> {HI_PRIORITY, MID_PRIORITY, LOW_PRIORITY} then remove1 th (L i) else L i) (prio th) @ [th]) = requeued th (prio th) L"
    by (auto simp: requeued_def fun_eq_iff)
  then show ?thesis using scheduleThread_pool[OF d(2), of prio th] d(1) by (auto simp: rescheduleThread_def)
qed

section \<open>Bounded waiting\<close>

datatype pool_cmd = Schedule susp | Next

text \<open>The engine's use of the pool: threads become runnable and threads are taken out to run.\<close>

fun run_pool :: "int \<Rightarrow> int \<Rightarrow> (susp \<Rightarrow> nat) \<Rightarrow> pool_cmd list \<Rightarrow> threads_pool \<Rightarrow> susp_heap \<Rightarrow>
    (susp list \<times> threads_pool \<times> susp_heap) option" where
  "run_pool hiMid midLow prio [] p h = Some ([], p, h)"
| "run_pool hiMid midLow prio (Schedule th # cs) p h = (case scheduleThread prio th p h of None \<Rightarrow> None
     | Some (p', h') \<Rightarrow> run_pool hiMid midLow prio cs p' h')"
| "run_pool hiMid midLow prio (Next # cs) p h = (case getNext_tp hiMid midLow p h of None \<Rightarrow> None
     | Some (r, p', h') \<Rightarrow> map_option (\<lambda>(out, s). (case r of None \<Rightarrow> out | Some th \<Rightarrow> th # out, s))
         (run_pool hiMid midLow prio cs p' h'))"

text \<open>How many dispatches of other threads can come before the one at position \<open>k\<close> of the low queue.\<close>

definition low_rank :: "int \<Rightarrow> int \<Rightarrow> int \<Rightarrow> int \<Rightarrow> nat \<Rightarrow> int" where
  "low_rank hiMid midLow hi mid k = int k * ((hiMid + 1) * (midLow + 1)) + max 0 mid * (hiMid + 1) + max 0 hi"

lemma low_rank_bound:
  assumes "0 < hiMid" "0 < midLow" "hi \<le> hiMid" "mid \<le> midLow"
  shows "low_rank hiMid midLow hi mid k < int (Suc k) * ((hiMid + 1) * (midLow + 1))"
proof -
  have "max 0 mid * (hiMid + 1) \<le> midLow * (hiMid + 1)" using assms by (intro mult_right_mono) auto
  then show ?thesis using assms by (simp add: low_rank_def algebra_simps)
qed

text \<open>A dispatch that leaves the low queue alone or takes another thread from its front lowers the rank.\<close>

lemma policy_rank:
  assumes "0 < hiMid" "0 < midLow" "hi \<le> hiMid" "mid \<le> midLow" "L LOW_PRIORITY \<noteq> []"
    and pol: "policy hiMid midLow hi mid L = Some (i, hi', mid')"
  shows "hi' \<le> hiMid" "mid' \<le> midLow"
    "i \<noteq> LOW_PRIORITY \<Longrightarrow> low_rank hiMid midLow hi' mid' k < low_rank hiMid midLow hi mid k"
    "i = LOW_PRIORITY \<Longrightarrow> low_rank hiMid midLow hi' mid' k < low_rank hiMid midLow hi mid (Suc k)"
proof -
  show "hi' \<le> hiMid" "mid' \<le> midLow" using assms by (auto split: if_splits)
  show "low_rank hiMid midLow hi' mid' k < low_rank hiMid midLow hi mid k" if "i \<noteq> LOW_PRIORITY"
    using assms that by (auto simp: low_rank_def algebra_simps max_def split: if_splits)
  show "low_rank hiMid midLow hi' mid' k < low_rank hiMid midLow hi mid (Suc k)" if "i = LOW_PRIORITY"
  proof -
    have "low_rank hiMid midLow hi' mid' k < int (Suc k) * ((hiMid + 1) * (midLow + 1))"
      using low_rank_bound assms(1,2) \<open>hi' \<le> hiMid\<close> \<open>mid' \<le> midLow\<close> by blast
    also have "\<dots> \<le> low_rank hiMid midLow hi mid (Suc k)"
      using assms(1) by (simp add: low_rank_def)
    finally show ?thesis .
  qed
qed

lemma run_pool_total:
  assumes "0 < hiMid" "0 < midLow"
  shows "pool p h L \<Longrightarrow> \<exists>out p' h' L'. run_pool hiMid midLow prio cs p h = Some (out, p', h') \<and> pool p' h' L'"
proof (induction cs arbitrary: p h L)
  case (Cons c cs)
  show ?case
  proof (cases c)
    case (Schedule th)
    then show ?thesis using scheduleThread_pool[OF Cons.prems, of prio th] Cons.IH by fastforce
  next
    case Next
    have "\<exists>r p' h' L'. getNext_tp hiMid midLow p h = Some (r, p', h') \<and> pool p' h' L'"
      using getNext_pool[OF Cons.prems assms] Cons.prems
      by (cases "policy hiMid midLow (tp_hi p) (tp_mid p) L") (auto simp del: policy.simps)
    then show ?thesis using Cons.IH Next by fastforce
  qed
qed auto

lemma run_pool_low:
  assumes "0 < hiMid" "0 < midLow"
  shows "pool p h L \<Longrightarrow> tp_hi p \<le> hiMid \<Longrightarrow> tp_mid p \<le> midLow \<Longrightarrow> L LOW_PRIORITY = us @ t # vs \<Longrightarrow>
    low_rank hiMid midLow (tp_hi p) (tp_mid p) (length us) < int (count_list cs Next) \<Longrightarrow>
    \<exists>out p' h'. run_pool hiMid midLow prio cs p h = Some (out, p', h') \<and> t \<in> set out"
proof (induction cs arbitrary: p h L us vs)
  case Nil
  moreover have "0 \<le> low_rank hiMid midLow (tp_hi p) (tp_mid p) (length us)" using assms by (simp add: low_rank_def)
  ultimately show ?case by simp
next
  case (Cons c cs)
  show ?case
  proof (cases c)
    case (Schedule th)
    obtain q' h' where s: "scheduleThread prio th p h = Some (p\<lparr>tp_q := (tp_q p)(prio th := q')\<rparr>, h')"
      "pool (p\<lparr>tp_q := (tp_q p)(prio th := q')\<rparr>) h' (L(prio th := L (prio th) @ [th]))"
      using scheduleThread_pool[OF Cons.prems(1)] by blast
    have "\<exists>vs'. (L(prio th := L (prio th) @ [th])) LOW_PRIORITY = us @ t # vs'" using Cons.prems(4) by simp
    then show ?thesis using Cons.IH[OF s(2)] Cons.prems Schedule s(1) by auto
  next
    case Next
    have low: "L LOW_PRIORITY \<noteq> []" using Cons.prems(4) by simp
    then obtain i hi' mid' where pol: "policy hiMid midLow (tp_hi p) (tp_mid p) L = Some (i, hi', mid')"
      by (metis policy_None option.exhaust prod_cases3)
    note rk = policy_rank[OF assms Cons.prems(2,3) low pol]
    obtain p' h' where g: "getNext_tp hiMid midLow p h = Some (Some (hd (L i)), p', h')" "tp_hi p' = hi'" "tp_mid p' = mid'"
      "pool p' h' (L(i := tl (L i)))"
      using getNext_pool[OF Cons.prems(1) assms] unfolding pol by auto
    show ?thesis
    proof (cases "i = LOW_PRIORITY \<and> us = []")
      case True
      then show ?thesis using run_pool_total[OF assms g(4), of prio cs] g(1) Cons.prems(4) Next by fastforce
    next
      case False
      define us' where "us' = (if i = LOW_PRIORITY then tl us else us)"
      have l: "(L(i := tl (L i))) LOW_PRIORITY = us' @ t # vs"
        using False Cons.prems(4) by (cases us) (auto simp: us'_def)
      have "low_rank hiMid midLow hi' mid' (length us') < low_rank hiMid midLow (tp_hi p) (tp_mid p) (length us)"
        using rk(3)[of "length us"] rk(4)[of "length (tl us)"] False by (cases us) (auto simp: us'_def)
      then have "\<exists>out p'' h''. run_pool hiMid midLow prio cs p' h' = Some (out, p'', h'') \<and> t \<in> set out"
        using Cons.IH[OF g(4) _ _ l] rk(1,2) g(2,3) Cons.prems(5) Next by simp
      then show ?thesis using g(1) Next by auto
    qed
  qed
qed

section \<open>Properties of the pool\<close>

text \<open>A pool with two low threads, one medium and one high, as it stands after initialisation and four
  calls of \<^verbatim>\<open>scheduleThread\<close>.\<close>

definition pool4_heap :: susp_heap where
  "pool4_heap = \<lparr>cells = (\<lambda>_. None)(0 \<mapsto> \<lparr>sl_susp = 11, sl_next = Some 1\<rparr>, 1 \<mapsto> \<lparr>sl_susp = 12, sl_next = Some 0\<rparr>,
     2 \<mapsto> \<lparr>sl_susp = 21, sl_next = Some 2\<rparr>, 3 \<mapsto> \<lparr>sl_susp = 31, sl_next = Some 3\<rparr>), free_cells = [], heap_top = 4\<rparr>"

definition pool4 :: threads_pool where
  "pool4 = \<lparr>tp_q = (\<lambda>_. None)(1 := Some 1, 2 := Some 2, 3 := Some 3), tp_hi = 0, tp_mid = 0\<rparr>"

lemma pool4: "pool pool4 pool4_heap ((\<lambda>_. [])(1 := [11, 12], 2 := [21], 3 := [31]))"
  by (auto simp: pool_def family_def heap_ok_def ring_def pool4_heap_def pool4_def
      intro!: exI[of _ "(\<lambda>_. [])(Suc 0 := [(0, 11), (1, 12)], 2 := [(2, 21)], 3 := [(3, 31)])"] split: if_splits)

text \<open>C38: with positive ratios, choosing the next thread always terminates. It returns no thread
  exactly when the pool is empty, and otherwise takes the oldest thread of the queue that the
  policy names: high priority while its counter lasts, then medium while its counter lasts, then
  low, and after that with fresh counters high before medium. The other queues are untouched.\<close>

theorem getNext_policy:
  assumes "pool p h L" "0 < hiMid" "0 < midLow"
  shows "\<exists>r p' h'. getNext_tp hiMid midLow p h = Some (r, p', h') \<and> (r = None \<longleftrightarrow> isEmpty_tp p) \<and>
    (case policy hiMid midLow (tp_hi p) (tp_mid p) L of
       None \<Rightarrow> r = None \<and> pool p' h' L \<and> tp_hi p' = hiMid \<and> tp_mid p' = midLow
     | Some (i, hi', mid') \<Rightarrow> r = Some (hd (L i)) \<and> pool p' h' (L(i := tl (L i))) \<and> tp_hi p' = hi' \<and> tp_mid p' = mid')"
proof -
  have "isEmpty_tp p \<longleftrightarrow> policy hiMid midLow (tp_hi p) (tp_mid p) L = None"
    unfolding policy_None isEmpty_tp_def pool_isEmpty[OF assms(1)] by auto
  then show ?thesis
    using getNext_pool[OF assms] assms(1)
    by (cases "policy hiMid midLow (tp_hi p) (tp_mid p) L") (auto simp del: policy.simps)
qed

theorem getNext_policy_witness:
  "\<exists>p' h'. getNext_tp 10 10 pool4 pool4_heap = Some (Some 11, p', h') \<and> tp_hi p' = 10 \<and> tp_mid p' = 10"
  using getNext_policy[OF pool4, of 10 10] by (auto simp: pool4_def priorities)

text \<open>C39: no thread of low priority starves. Whatever threads are scheduled in between, a thread that
  has \<open>k\<close> others before it in the low queue is dispatched within \<open>(k + 1) * (hiMid + 1) * (midLow + 1)\<close>
  calls, and all of these calls return.\<close>

theorem low_priority_bounded_wait:
  assumes "pool p h L" "0 < hiMid" "0 < midLow" "tp_hi p \<le> hiMid" "tp_mid p \<le> midLow" "L LOW_PRIORITY = us @ t # vs"
    "int (length us + 1) * ((hiMid + 1) * (midLow + 1)) \<le> int (count_list cs Next)"
  shows "\<exists>out p' h'. run_pool hiMid midLow prio cs p h = Some (out, p', h') \<and> t \<in> set out"
  by (rule run_pool_low[OF assms(2,3,1,4-6)])
    (use low_rank_bound[OF assms(2-5), of "length us"] assms(7) in simp)

theorem low_priority_bounded_wait_witness:
  "\<exists>out p' h'. run_pool 1 1 (\<lambda>_. 3) (concat (replicate 8 [Schedule 99, Next])) pool4 pool4_heap = Some (out, p', h') \<and>
    12 \<in> set out"
  using low_priority_bounded_wait[OF pool4, of 1 1 "[11]" 12 "[]" "concat (replicate 8 [Schedule 99, Next])" "\<lambda>_. 3"]
  by (simp add: pool4_def priorities numeral_eq_Suc)

text \<open>Changing the priority of another runnable thread moves it to the end of the queue of its new
  priority and keeps the order of all other threads, where the removal is possible; the current
  thread is preempted when the new priority is above its own.\<close>

lemma setPriority_requeues:
  assumes "pool p h L" "\<And>i. removable th (L i)" "runnable th" "\<not> dead th" "th \<noteq> cur" "atom_priority a = Some new"
  shows "\<exists>p' h'. BIthreadSetPriority dead runnable cur prio p h (OzObj th) a =
      Proceed (prio cur < new, prio(th := new), p', h') \<and> pool p' h' (requeued th new L)"
proof -
  obtain p' h' where r: "rescheduleThread (prio(th := new)) th p h = Some (p', h')" "pool p' h' (requeued th new L)"
    using rescheduleThread_pool[OF assms(1,2), of "prio(th := new)"] by (auto simp: fun_upd_same)
  have "a \<noteq> VarArg" using assms(6) by (auto simp: atom_priority_def)
  then show ?thesis using assms(3-6) r by (simp add: BIthreadSetPriority_def Let_def)
qed

lemma setPriority_requeues_witness:
  "\<exists>p' h'. BIthreadSetPriority (\<lambda>_. False) (\<lambda>_. True) 50 (\<lambda>_. 1) pool4 pool4_heap (OzObj 11) (AtomArg ''high'') =
      Proceed (True, (\<lambda>_. 1)(11 := 3), p', h') \<and> pool p' h' (requeued 11 3 ((\<lambda>_. [])(1 := [11, 12], 2 := [21], 3 := [31])))"
  using setPriority_requeues[OF pool4, of 11 "\<lambda>_. True" "\<lambda>_. False" 50 "AtomArg ''high''" 3 "\<lambda>_. 1"]
  by (auto simp: removable_def atom_priority_def priorities)

end
