(* ===== verification/Base64.thy ===== *)
theory Base64
  imports Prelude "HOL-Library.Word"
begin

text \<open>
  The base 64 encoder and decoder behind the virtual string builtins (\<^verbatim>\<open>platform/emulator/base64.cc\<close>). A
  \<^verbatim>\<open>char\<close> is a byte, promoted with its sign to a 32-bit \<^verbatim>\<open>int\<close> in every expression. The output is the
  list of the bytes that are written one after the other through the pointer \<^verbatim>\<open>ret\<close>.
\<close>

unbundle bit_operations_syntax

type_synonym byte = "8 word"

definition fillchar :: byte where
  "fillchar = of_char (CHR ''='')"

definition cvt :: "byte list" where
  "cvt = map of_char ''ABCDEFGHIJKLMNOPQRSTUVWXYZabcdefghijklmnopqrstuvwxyz0123456789+-''"

text \<open>\<^verbatim>\<open>find\<close>: the loop runs along the string and its terminator; past it nothing is defined.\<close>

fun find_from :: "byte list \<Rightarrow> byte \<Rightarrow> nat option" where
  "find_from [] c = None"
| "find_from (x # xs) c = (if x = c then Some 0 else map_option Suc (find_from xs c))"

definition find_b64 :: "byte \<Rightarrow> nat option" where
  "find_b64 c = find_from (cvt @ [0]) c"

text \<open>Promotion to \<^verbatim>\<open>int\<close> and the shift to the right of a signed value.\<close>

definition prom :: "byte \<Rightarrow> 32 word" where
  "prom b = signed_take_bit 7 (ucast b)"

definition sar :: "32 word \<Rightarrow> nat \<Rightarrow> 32 word" where
  "sar w n = signed_drop_bit n w"

definition digit :: "32 word \<Rightarrow> byte" where
  "digit c = cvt ! unat c"

function encode_loop :: "byte list \<Rightarrow> nat \<Rightarrow> byte list \<Rightarrow> byte list" where
  "encode_loop xs i ret =
    (if i < length xs then
       let ret = ret @ [digit (sar (prom (xs ! i)) 2 AND 0x3f)];
           c = push_bit 4 (prom (xs ! i)) AND 0x3f;
           i = i + 1;
           c = (if i < length xs then c OR (sar (prom (xs ! i)) 4 AND 0x0f) else c);
           ret = ret @ [digit c];
           (i, ret) =
             (if i < length xs then
                let c = push_bit 2 (prom (xs ! i)) AND 0x3f;
                    i = i + 1;
                    c = (if i < length xs then c OR (sar (prom (xs ! i)) 6 AND 0x03) else c)
                in (i, ret @ [digit c])
              else (i + 1, ret @ [fillchar]));
           ret = (if i < length xs then ret @ [digit (prom (xs ! i) AND 0x3f)] else ret @ [fillchar])
       in encode_loop xs (i + 1) ret
     else ret @ [0])"
  by pat_completeness auto
termination
  by (relation "measure (\<lambda>(xs, i, ret). length xs - i)") (auto simp: Let_def split: if_splits)

definition encodeB64 :: "byte list \<Rightarrow> byte list" where
  "encodeB64 xs = encode_loop xs 0 []"

text \<open>The size of the block that \<^verbatim>\<open>encodeB64\<close> allocates for its output.\<close>

definition encode_alloc :: "nat \<Rightarrow> nat" where
  "encode_alloc len = len * 2"

text \<open>\<^verbatim>\<open>decodeB64\<close>: a read at the length of the string sees the terminator. The result has no value when
  \<^verbatim>\<open>find\<close> runs past the end of the table.\<close>

definition char_at :: "byte list \<Rightarrow> nat \<Rightarrow> byte" where
  "char_at xs i = (if i < length xs then xs ! i else 0)"

definition find_char :: "byte \<Rightarrow> byte option" where
  "find_char c = map_option of_nat (find_b64 c)"

function decode_loop :: "byte list \<Rightarrow> nat \<Rightarrow> byte list \<Rightarrow> byte list option" where
  "decode_loop xs i ret =
    (if i < length xs then
       (case find_char (char_at xs i) of None \<Rightarrow> None | Some c \<Rightarrow>
       (case find_char (char_at xs (i + 1)) of None \<Rightarrow> None | Some c1 \<Rightarrow>
          let ret = ret @ [ucast (push_bit 2 (prom c) OR (sar (prom c1) 4 AND 0x3))] in
          if i + 2 < length xs then
            (if char_at xs (i + 2) = fillchar then Some ret
             else (case find_char (char_at xs (i + 2)) of None \<Rightarrow> None | Some c2 \<Rightarrow>
               let ret = ret @ [ucast ((push_bit 4 (prom c1) AND 0xf0) OR (sar (prom c2) 2 AND 0xf))] in
               if i + 3 < length xs then
                 (if char_at xs (i + 3) = fillchar then Some ret
                  else (case find_char (char_at xs (i + 3)) of None \<Rightarrow> None | Some c3 \<Rightarrow>
                    decode_loop xs (i + 4) (ret @ [ucast ((push_bit 6 (prom c2) AND 0xc0) OR prom c3)])))
               else decode_loop xs (i + 4) ret))
          else decode_loop xs (i + 4) ret))
     else Some ret)"
  by pat_completeness auto
termination
  by (relation "measure (\<lambda>(xs, i, ret). length xs - i)") auto

definition decodeB64 :: "byte list \<Rightarrow> byte list option" where
  "decodeB64 xs = decode_loop xs 0 []"

section \<open>The table\<close>

lemma cvt_facts: "length cvt = 64" "distinct (fillchar # 0 # cvt)"
  by (simp add: cvt_def) code_simp

lemma find_from_nth: "distinct xs \<Longrightarrow> i < length xs \<Longrightarrow> find_from (xs @ ys) (xs ! i) = Some i"
  by (induction xs arbitrary: i) (auto simp: nth_Cons split: nat.splits)

lemma find_digit: "unat w < 64 \<Longrightarrow> find_char (digit w) = Some (ucast w)"
  using find_from_nth[of cvt "unat w" "[0]"] cvt_facts
  by (simp add: find_char_def find_b64_def digit_def)

lemma digit_not_fill: "unat w < 64 \<Longrightarrow> digit w \<noteq> fillchar"
  using cvt_facts nth_mem[of "unat w" cvt] unfolding digit_def by (metis distinct.simps(2) list.set_intros(2))

section \<open>Groups of three bytes and four characters\<close>

definition sx1 :: "byte \<Rightarrow> 32 word" where "sx1 a = sar (prom a) 2 AND 0x3f"
definition sx2 :: "byte \<Rightarrow> byte \<Rightarrow> 32 word" where "sx2 a b = (push_bit 4 (prom a) AND 0x3f) OR (sar (prom b) 4 AND 0x0f)"
definition sx3 :: "byte \<Rightarrow> byte \<Rightarrow> 32 word" where "sx3 b c = (push_bit 2 (prom b) AND 0x3f) OR (sar (prom c) 6 AND 0x03)"
definition sx4 :: "byte \<Rightarrow> 32 word" where "sx4 c = prom c AND 0x3f"

lemmas sextets = sx1_def sx2_def sx3_def sx4_def

lemma bit_prom: "n < 8 \<Longrightarrow> bit (prom b) n = bit b n"
  by (auto simp: prom_def bit_simps)

lemma bit_sar: "n + k < 8 \<Longrightarrow> bit (sar (prom b) k) n = bit b (k + n)"
  by (auto simp: sar_def prom_def bit_simps)

lemma masks:
  "(0x3f :: 32 word) = mask 6" "(0x0f :: 32 word) = mask 4" "(0x03 :: 32 word) = mask 2"
  "(0xf0 :: 32 word) = push_bit 4 (mask 4)" "(0xc0 :: 32 word) = push_bit 6 (mask 2)"
  by (simp_all add: mask_eq_exp_minus_1 push_bit_eq_mult)

lemma unat_lt_64:
  assumes "\<And>n. bit (w :: 32 word) n \<Longrightarrow> n < 6"
  shows "unat w < 64"
proof -
  have "take_bit 6 w = w" using assms by (intro bit_word_eqI) (auto simp: bit_simps)
  then have "take_bit 6 (unat w) = unat w" by (metis unsigned_take_bit_eq)
  then show ?thesis using take_bit_nat_less_exp[of 6 "unat w"] by simp
qed

lemma sextets_lt [simp]: "unat (sx1 a) < 64" "unat (sx2 a b) < 64" "unat (sx3 a b) < 64" "unat (sx4 a) < 64"
  unfolding sextets masks by (rule unat_lt_64; auto simp: bit_simps)+

lemma byte_eqI:
  assumes "bit x 0 = bit y 0" "bit x 1 = bit y 1" "bit x 2 = bit y 2" "bit x 3 = bit y 3"
    "bit x 4 = bit y 4" "bit x 5 = bit y 5" "bit x 6 = bit y 6" "bit x 7 = bit y 7"
  shows "x = (y :: byte)"
proof (rule bit_word_eqI)
  fix n assume "n < LENGTH(8)"
  then consider "n = 0" | "n = 1" | "n = 2" | "n = 3" | "n = 4" | "n = 5" | "n = 6" | "n = 7" by fastforce
  then show "bit x n = bit y n" using assms by cases simp_all
qed

lemma decode_bits:
  "ucast (push_bit 2 (prom (ucast (sx1 a))) OR (sar (prom (ucast (sx2 a b))) 4 AND 0x3)) = a"
  "ucast ((push_bit 4 (prom (ucast (sx2 a b))) AND 0xf0) OR (sar (prom (ucast (sx3 b c))) 2 AND 0xf)) = b"
  "ucast ((push_bit 6 (prom (ucast (sx3 b c))) AND 0xc0) OR prom (ucast (sx4 c))) = c"
  unfolding sextets masks by (rule byte_eqI; simp add: bit_simps bit_prom bit_sar)+

lemma prom_0 [simp]: "prom 0 = 0" and sar_0 [simp]: "sar 0 n = 0"
  by (simp_all add: prom_def sar_def bit_eq_iff bit_simps)

fun groups :: "byte list \<Rightarrow> byte list" where
  "groups [] = []"
| "groups [a] = [digit (sx1 a), digit (sx2 a 0), fillchar, fillchar]"
| "groups [a, b] = [digit (sx1 a), digit (sx2 a b), digit (sx3 b 0), fillchar]"
| "groups (a # b # c # xs) = digit (sx1 a) # digit (sx2 a b) # digit (sx3 b c) # digit (sx4 c) # groups xs"

lemma length_groups: "length (groups xs) = 4 * ((length xs + 2) div 3)"
  by (induction xs rule: groups.induct) (simp_all, presburger)

lemma encode_loop_groups: "encode_loop (ys @ xs) (length ys) ret = ret @ groups xs @ [0]"
proof (induction xs arbitrary: ys ret rule: groups.induct)
  case (4 a b c xs)
  have "encode_loop (ys @ a # b # c # xs) (length ys) ret =
    encode_loop ((ys @ [a, b, c]) @ xs) (length (ys @ [a, b, c])) (ret @ [digit (sx1 a), digit (sx2 a b), digit (sx3 b c), digit (sx4 c)])"
    by (subst encode_loop.simps) (simp add: nth_append sextets Let_def del: encode_loop.simps)
  then show ?case by (simp only: 4) simp
qed (simp_all add: nth_append sextets Let_def)

lemma encodeB64_groups: "encodeB64 xs = groups xs @ [0]"
  using encode_loop_groups[of "[]" xs "[]"] by (simp add: encodeB64_def del: encode_loop.simps)

lemma decode_loop_groups: "decode_loop (ys @ groups xs) (length ys) ret = Some (ret @ xs)"
proof (induction xs arbitrary: ys ret rule: groups.induct)
  case 1 then show ?case by (subst decode_loop.simps) simp
next
  case (2 a) then show ?case
    by (subst decode_loop.simps) (simp add: char_at_def nth_append find_digit digit_not_fill decode_bits Let_def del: decode_loop.simps)
next
  case (3 a b) then show ?case
    by (subst decode_loop.simps) (simp add: char_at_def nth_append find_digit digit_not_fill decode_bits Let_def del: decode_loop.simps)
next
  case (4 a b c xs)
  have "decode_loop (ys @ groups (a # b # c # xs)) (length ys) ret =
    decode_loop ((ys @ [digit (sx1 a), digit (sx2 a b), digit (sx3 b c), digit (sx4 c)]) @ groups xs)
      (length ys + 4) (ret @ [a, b, c])"
    by (subst decode_loop.simps)
      (simp add: char_at_def nth_append find_digit digit_not_fill decode_bits Let_def del: decode_loop.simps)
  moreover have "length ys + 4 = length (ys @ [digit (sx1 a), digit (sx2 a b), digit (sx3 b c), digit (sx4 c)])" by simp
  ultimately show ?case by (simp only: 4) simp
qed

lemma groups_no_0: "0 \<notin> set (groups xs)"
proof -
  have "digit w \<noteq> 0" if "unat w < 64" for w
    using cvt_facts nth_mem[of "unat w" cvt] that unfolding digit_def by (metis distinct.simps(2) list.set_intros(2))
  moreover have "fillchar \<noteq> 0" using cvt_facts(2) by auto
  ultimately show ?thesis by (induction xs rule: groups.induct) (metis sextets_lt list.set_cases set_ConsD empty_iff list.set(1) groups.simps)+
qed

lemma b64_room: "2 * n < 4 * ((n + 2) div 3) + 1 \<longleftrightarrow> n \<in> {0, 1, 2, 4 :: nat}"
proof (cases "n < 6")
  case True
  then consider "n = 0" | "n = 1" | "n = 2" | "n = 3" | "n = 4" | "n = 5" by linarith
  then show ?thesis by cases simp_all
next
  case False
  then show ?thesis using mult_div_mod_eq[of 3 "n + 2"] by auto
qed

section \<open>Properties\<close>

text \<open>C40: the encoder ends for every string of bytes and writes a C string of four characters for every
  three bytes or part of it; decoding that string gives the bytes back, whatever they are. The block
  of twice the length that the encoder allocates is too short for exactly the strings of 0, 1, 2 and
  4 bytes.\<close>

theorem b64_round_trip:
  "\<exists>s. encodeB64 xs = s @ [0] \<and> 0 \<notin> set s \<and> length s = 4 * ((length xs + 2) div 3) \<and> decodeB64 s = Some xs \<and>
     (encode_alloc (length xs) < length (encodeB64 xs) \<longleftrightarrow> length xs \<in> {0, 1, 2, 4})"
proof (intro exI[of _ "groups xs"] conjI)
  show "decodeB64 (groups xs) = Some xs"
    using decode_loop_groups[of "[]" xs "[]"] by (simp add: decodeB64_def del: decode_loop.simps)
  have "length (encodeB64 xs) = 4 * ((length xs + 2) div 3) + 1" by (simp add: encodeB64_groups length_groups)
  then show "encode_alloc (length xs) < length (encodeB64 xs) \<longleftrightarrow> length xs \<in> {0, 1, 2, 4}"
    using b64_room[of "length xs"] by (simp add: encode_alloc_def mult.commute)
qed (simp_all add: encodeB64_groups groups_no_0 length_groups)

text \<open>A character outside the table sends the search past the end of the table.\<close>

lemma find_b64_undefined: "c \<notin> set cvt \<Longrightarrow> c \<noteq> 0 \<Longrightarrow> find_b64 c = None"
proof -
  have "c \<notin> set ys \<Longrightarrow> find_from ys c = None" for ys by (induction ys) auto
  then show "c \<notin> set cvt \<Longrightarrow> c \<noteq> 0 \<Longrightarrow> find_b64 c = None" by (simp add: find_b64_def)
qed

end
