(* ===== verification/Spec2Isabelle.thy ===== *)
theory Spec2Isabelle
  imports FiniteDomainProps FSetProps RecordProps BitArray WeightedRefs TransObj WordExt ThreadsPool Base64
begin

text \<open>
  A verification development for the Mozart implementation of Oz: the virtual machine in
  \<^verbatim>\<open>platform/emulator\<close> and its distribution subsystem in \<^verbatim>\<open>platform/dss\<close>. Definitions are translated from
  the C++ sources and keep the names of the functions and methods; a suffix tells variants of an
  overloaded name apart (\<open>isIn\<close> of a domain, \<open>isIn_iv\<close> of an interval array, \<open>isIn_sq\<close> of a queue).

  \<^bold>\<open>The parts of the program and how they interact.\<close> The virtual machine runs threads that a pool of
  queues hands out by priority. Threads compute over terms, call builtins, and suspend on variables;
  constraint variables carry finite domains, which propagators narrow with the operations of the
  domain kernel. The distribution layer keeps references between sites alive with a distributed
  collector, packs messages into containers, and moves bytes through buffers.

  \<^bold>\<open>The finite domain kernel\<close> (\<^verbatim>\<open>fdomn.cc\<close>, \<^verbatim>\<open>fdomn.hh\<close>, \<^verbatim>\<open>bits.cc\<close>, \<^verbatim>\<open>sort.hh\<close>). A domain is a set of small integers in
  one of three representations: an interval, an array of intervals, or a bit vector.
  \<^item> \<open>Prelude\<close> holds the generic lemmas and collections, \<open>FDBase\<close> the limits and globals (\<^verbatim>\<open>reInitFDs\<close>) as
    the record \<open>fd_globals\<close>, \<open>Bits\<close> the 32-bit words and the table-driven bit count.
  \<^item> \<open>FDIntervals\<close> models \<^verbatim>\<open>class FDIntervals\<close>: the list of the entries in use, and every method as a function
    over it; a method that could read outside its array returns an option.
  \<^item> \<open>FDBitVector\<close> models \<^verbatim>\<open>class FDBitVector\<close>: words of 32 bits, their searches and set operations.
  \<^item> \<open>Sort\<close> models \<^verbatim>\<open>fastsort\<close>: the quicksort with its explicit stack, as a \<open>partial_function\<close>, and the final
    insertion sort.
  \<^item> \<open>DomainRep\<close> states the contract of a representation as the locale \<open>domain_rep\<close>; \<open>FDIntervals\<close> and
    \<open>FDBitVector\<close> interpret it.
  \<^item> \<open>FiniteDomain\<close>, \<open>FiniteDomainOps\<close> and \<open>FiniteDomainDescr\<close> model \<^verbatim>\<open>OZ_FiniteDomainImpl\<close>: its record, the choice
    and conversion of representations, the operators, and the descriptions Oz programs give, the latter in
    the build without \<^verbatim>\<open>DEBUG_CHECK\<close>, where \<^verbatim>\<open>OZD_error\<close> is empty: bad list elements and unknown atoms go
    unreported, and the result \<open>None\<close> is left for reads that C++ does not define.
  \<^item> \<open>FiniteDomainProps\<close> has the theorems: every operator refines the operation on sets of integers for
    every mix of representations and keeps the well-formedness invariant, with the returned sizes, and when
    an intersection fails the check \<^verbatim>\<open>isConsistent\<close> of debugging builds;
    iteration, neighbours and the middle element; descriptions and their round trip; the sort.

  \<^bold>\<open>The finite set kernel\<close> (\<^verbatim>\<open>fset.cc\<close>, \<^verbatim>\<open>fset.hh\<close>). A set value is two words and a flag for all elements
  above them, or a finite domain; a set constraint has two such sets, the elements known to be in
  and out, and bounds of the cardinality.
  \<^item> \<open>FSetBase\<close> models the words, their lists and the conversion to a domain, and states the set algebra
    both forms offer as the locale \<open>set_algebra\<close>, interpreted on the domain kernel and on the words.
  \<^item> \<open>FSetValue\<close> models \<^verbatim>\<open>class FSetValue\<close>: the two forms and their conversion, the operators, comparisons,
    searches and lists. \<open>fsv_rep\<close> says which set a value stands for. \<open>fd_of_FSetValue\<close> and \<open>initFSetValue\<close>
    (\<^verbatim>\<open>fdomn.cc\<close>) make a finite domain from a set value.
  \<^item> \<open>FSetConstraint\<close> models \<^verbatim>\<open>class FSetConstraint\<close> with \<^verbatim>\<open>normalize\<close> split into its statements.
  \<^item> \<open>FSetSolutions\<close> gives a constraint its meaning, the collection of sets it admits, and shows for each
    operation which sets are left; \<open>FSetProps\<close> has the theorems in these terms: \<^verbatim>\<open>normalize\<close> decides
    whether a set is left, the bounds are exact, telling and unification intersect collections, and
    where the operators on values deviate from sets.

  \<^bold>\<open>Records and dictionaries\<close> (\<^verbatim>\<open>value.hh\<close>, \<^verbatim>\<open>value.cc\<close>, \<^verbatim>\<open>dictionary.hh\<close>, \<^verbatim>\<open>dictionary.cc\<close>, \<^verbatim>\<open>builtins.cc\<close>). Both map features
  (literals, small and big integers) to values; a record has a fixed arity that all records with the
  same features share, a dictionary a hash table that grows.
  \<^item> \<open>Feature\<close> models features with their order and hash value on tagged words of 32 bits; the fields of literals
    are functions of their address. The order is total on features that \<open>feats_ok\<close> admits.
  \<^item> \<open>DictTable\<close> models \<^verbatim>\<open>class DictHashTable\<close> with its blocks, growing and shrinking, as a map (\<open>ht_map\<close>).
  \<^item> \<open>FeatureLists\<close> models the lists of features; the locale \<open>key_order\<close> has what they need of a comparison,
    interpreted on \<open>featureCmp\<close>.
  \<^item> \<open>Arity\<close> models \<^verbatim>\<open>class Arity\<close>, a closed hash table searched with an odd step, and \<^verbatim>\<open>class ArityTable\<close>, which keeps
    one arity for each list; a pointer to an arity is its place in the table.
  \<^item> \<open>SRecord\<close> models \<^verbatim>\<open>class SRecord\<close> and the functions that adjoin records over the state of the arity table,
    \<open>RecordBuiltins\<close> the builtins with their suspensions and errors.
  \<^item> \<open>Dictionary\<close> models \<^verbatim>\<open>class OzDictionary\<close>, its builtins and remote operations, and the conversion between
    records and dictionaries; the locale \<open>map_table\<close> is the interface of the table, interpreted on the table and
    on dictionaries.
  \<^item> \<open>RecordProps\<close> has the theorems: dictionaries refine maps, records are canonical representations of maps,
    adjunction is the union of maps, conversion back and forth is the identity, searches end; and
    where the order of features, remote operations and \<^verbatim>\<open>removeAll\<close> deviate. What rests on sorting features is stated
    for features that can be compared (\<open>features_ok\<close>, \<open>feats_ok\<close>): no two small integers \<open>2 ^ 27\<close> or more apart.

  \<^bold>\<open>Data of the virtual machine.\<close>
  \<^item> \<open>Builtin\<close> models how builtins get their arguments and what they return (\<^verbatim>\<open>builtins.hh\<close>), exceptions with
    their category; \<open>CxxUndefined\<close> is
    an evaluation that C++ leaves undefined.
  \<^item> \<open>BitArray\<close> models \<^verbatim>\<open>bitarray.cc\<close> and its builtins as sets of indices between two bounds.
  \<^item> \<open>WordExt\<close> models \<^verbatim>\<open>word.cc\<close>: words of any width up to 32 with the arithmetic modulo that width,
    pickled in bytes with the numbers of \<^verbatim>\<open>marshalerBase.hh\<close> and \<^verbatim>\<open>marshalerBase.cc\<close>.
  \<^item> \<open>Base64\<close> models \<^verbatim>\<open>base64.cc\<close>: encoder and decoder on bytes with the promotions of C++.

  \<^bold>\<open>Threads.\<close>
  \<^item> \<open>SuspQueue\<close> models \<^verbatim>\<open>susp_queue.cc\<close>, \<^verbatim>\<open>susp_queue.hh\<close> and \<^verbatim>\<open>susplist.hh\<close>: queues as rings and stacks as chains of cells
    in a store with a free list (\<^verbatim>\<open>mem.hh\<close>). Reading through a freed address has no result.
  \<^item> \<open>SuspFamily\<close> states the contract of several containers in one store as the locale \<open>susp_family\<close> and
    interprets it on queues and stacks; the theorems show first in first out, removal, and the
    removal that leaves a dangling pointer.
  \<^item> \<open>ThreadsPool\<close> models \<^verbatim>\<open>thr_pool.hh\<close>, \<^verbatim>\<open>thr_pool.cc\<close> and \<^verbatim>\<open>BIthreadSetPriority\<close>: the choice of the next thread refines
    a policy on the sequences of the queues, it terminates, and low priorities do not starve.

  \<^bold>\<open>Distribution.\<close>
  \<^item> \<open>FracHandler\<close> models the weights of \<^verbatim>\<open>dgc_fwrc.cc\<close> as sums of fractions, \<open>WeightedRefs\<close> the home and remote
    references and the system of sites and messages in transit as the step relation \<open>wrc_step\<close>:
    weights add up to one in every reachable state, the home reference stays a root while a
    reference exists, and collection ends with a home reference that is no root.
  \<^item> \<open>ByteBuffer\<close> models \<^verbatim>\<open>msl_buffer.cc\<close> and the number formats of \<^verbatim>\<open>base.hh\<close> and \<^verbatim>\<open>dss_comService.hh\<close>: a circular
    buffer is a queue of bytes (locales \<open>byte_sink\<close> and \<open>byte_source\<close>), numbers are read back.
  \<^item> \<open>MsgContainer\<close> models the fields of a message (\<^verbatim>\<open>msl_msgContainer.cc\<close>), \<open>MsgSerialize\<close> how it is written to and
    read from a buffer, in parts if it does not fit, with the data areas of \<^verbatim>\<open>msl_dct.cc\<close>, and \<open>TransObj\<close>
    the frames of \<^verbatim>\<open>msl_transObj.cc\<close>: a message that fits arrives with the same contents once its frame
    is complete, and a data area that is split breaks both sides.

  \<^bold>\<open>Bounds and fuel.\<close> The loop of \<^verbatim>\<open>FSetValue::toNormal\<close> has 64 rounds of fuel, enough since each round sets
  a larger bit of 64 (\<open>setBits_loop_spec\<close>); no other definition uses fuel. Loops whose end is not structural have a measure, or are
  partial functions in the option monad, and then that they return is part of the theorem: the sort
  within its 32 stack segments, the searches around a ring, the searches in an arity, which has a free slot, the loop of \<open>getNext_tp\<close> for positive
  ratios, which is all that \<^verbatim>\<open>vprops.cc\<close> accepts. Integers are mathematical where the code keeps them
  within 0 and \<^verbatim>\<open>fd_sup\<close> and the theorems state these bounds; words have their width where
  wrap-around is visible (bit vectors, \<^verbatim>\<open>word.cc\<close>, byte formats, base 64, and the differences of type \<^verbatim>\<open>size_t\<close> of
  the buffers as \<open>size_minus\<close>). Three integers are kept unbounded although the code has them as \<^verbatim>\<open>int\<close> or \<^verbatim>\<open>short\<close>: the
  midpoint of the quicksort and the doubling of \<^verbatim>\<open>nextPowerOf2\<close>, which overflow above \<open>2 ^ 30\<close> entries, more than a process
  with 32-bit addresses holds, and the counters of a message container, which overflow at 16384 fields.
  The steps of \<open>wrc_step\<close> use divisors of at least 2; the repository never sets another.

  \<^bold>\<open>Not modelled.\<close> The instruction loop, unification and the heap of tagged terms, since they need one
  model of all term data (records and dictionaries hold references to terms, dereferencing is not modelled); garbage collection by copying; the parser and scanner, which are generated;
  operating system interfaces and printing, which are input and output; encryption, routing and
  connections of the message layer (sites and the containers of the engine are parameters of
  \<open>MsgSerialize\<close>, the communication object of \<open>TransObj\<close>); the protocols of shared entities and the other two distributed collectors;
  the propagators. The Oz libraries and contributed packages are not C++.

  \<^bold>\<open>Plan.\<close> Reference listing beside the weighted references; the
  migratory token protocol; the priority queues of the message layer.
\<close>

end
